(* ===== verification/Prelude.thy ===== *)
theory Prelude
  imports Main "HOL-Library.Word"
begin

text \<open>
  Shared vocabulary of the development: the machine-integer types of the Rust sources, results
  as sums (\<open>Inl\<close> the error, \<open>Inr\<close> the value) with the \<open>?\<close> operator as
  \<open>rbind\<close>, and the MSB-first reading of a byte sequence as a list of bits that every
  bit reader of the repository is measured against. The named collections
  \<open>result_simps\<close> and \<open>bits_simps\<close> gather the rewriting rules the
  component theories use.
\<close>

unbundle bit_operations_syntax

type_synonym byte = "8 word"
type_synonym u16 = "16 word"
type_synonym u32 = "32 word"
type_synonym u64 = "64 word"

named_theorems result_simps \<open>evaluation of results and of the early-return operator\<close>
named_theorems bits_simps \<open>bit lists of byte sequences\<close>

section \<open>Results\<close>

text \<open>\<open>m?\<close> followed by the rest of the function body: an error returns at once.\<close>

definition rbind :: "'e + 'a \<Rightarrow> ('a \<Rightarrow> 'e + 'b) \<Rightarrow> 'e + 'b" where
  "rbind m f = (case m of Inl e \<Rightarrow> Inl e | Inr a \<Rightarrow> f a)"

lemma rbind_Inl [simp, result_simps]: "rbind (Inl e) f = Inl e"
  by (simp add: rbind_def)

lemma rbind_Inr [simp, result_simps]: "rbind (Inr a) f = f a"
  by (simp add: rbind_def)

lemma rbind_eq_Inr [result_simps]: "rbind m f = Inr y \<longleftrightarrow> (\<exists>x. m = Inr x \<and> f x = Inr y)"
  by (cases m) auto

lemma rbind_eq_Inl [result_simps]:
  "rbind m f = Inl e \<longleftrightarrow> m = Inl e \<or> (\<exists>x. m = Inr x \<and> f x = Inl e)"
  by (cases m) auto

lemma rbind_cong [fundef_cong]:
  "m = m' \<Longrightarrow> (\<And>x. m' = Inr x \<Longrightarrow> f x = f' x) \<Longrightarrow> rbind m f = rbind m' f'"
  by (cases m') auto

lemma rbind_assoc: "rbind (rbind m f) g = rbind m (\<lambda>x. rbind (f x) g)"
  by (cases m) auto

text \<open>\<open>Option::ok_or\<close> and \<open>Result::map_err\<close>.\<close>

definition ok_or :: "'e \<Rightarrow> 'a option \<Rightarrow> 'e + 'a" where
  "ok_or e x = (case x of None \<Rightarrow> Inl e | Some a \<Rightarrow> Inr a)"

lemma ok_or_simps [simp, result_simps]:
  "ok_or e None = Inl e" "ok_or e (Some a) = Inr a"
  by (simp_all add: ok_or_def)

lemma ok_or_eq_Inr [result_simps]: "ok_or e x = Inr a \<longleftrightarrow> x = Some a"
  by (cases x) auto

definition map_err :: "('e \<Rightarrow> 'f) \<Rightarrow> 'e + 'a \<Rightarrow> 'f + 'a" where
  "map_err f m = (case m of Inl e \<Rightarrow> Inl (f e) | Inr a \<Rightarrow> Inr a)"

lemma map_err_simps [simp, result_simps]:
  "map_err f (Inl e) = Inl (f e)" "map_err f (Inr a) = Inr a"
  by (simp_all add: map_err_def)

lemma map_err_eq_Inr [result_simps]: "map_err f m = Inr a \<longleftrightarrow> m = Inr a"
  by (cases m) auto

section \<open>Lists and words\<close>

text \<open>\<open>slice.get(i)\<close>: out of range is \<open>None\<close>, never a value.\<close>

definition get :: "'a list \<Rightarrow> nat \<Rightarrow> 'a option" where
  "get xs i = (if i < length xs then Some (xs ! i) else None)"

lemma get_eq_Some [simp]: "get xs i = Some x \<longleftrightarrow> i < length xs \<and> xs ! i = x"
  by (auto simp: get_def)

lemma get_eq_None [simp]: "get xs i = None \<longleftrightarrow> length xs \<le> i"
  by (auto simp: get_def)

lemma unat_byte_less [simp]: "unat (b :: byte) < 256"
  using unsigned_less [of b] by simp

lemma bit_byte_ge [simp]: "8 \<le> n \<Longrightarrow> \<not> bit (b :: byte) n"
  using bit_imp_le_length [of b n] by auto

lemma bit_u32_ge [simp]: "32 \<le> n \<Longrightarrow> \<not> bit (b :: u32) n"
  using bit_imp_le_length [of b n] by auto

lemma drop_take_append: "n \<le> m \<Longrightarrow> take n xs @ drop n (take m xs) = take m xs"
  by (metis append_take_drop_id min.absorb1 take_take)

lemma all_word_of_nat_8:
  assumes "\<And>n. n < 256 \<Longrightarrow> P (word_of_nat n :: byte)"
  shows "P (b :: byte)"
proof -
  have "P (word_of_nat (unat b))" by (rule assms) simp
  then show ?thesis by simp
qed

text \<open>The bits of the two masks of a base-128 digit (simp reads word numerals as integers).\<close>

lemma bit_0x7F: "bit (0x7F :: int) n \<longleftrightarrow> n < 7"
proof -
  have "(0x7F :: int) = mask 7" by (simp add: mask_eq_exp_minus_1)
  then show ?thesis by (simp only: bit_mask_iff) simp
qed

lemma bit_0x80: "bit (0x80 :: int) n \<longleftrightarrow> n = 7"
proof -
  have "(0x80 :: int) = 2 ^ 7" by simp
  then show ?thesis by (simp only: bit_exp_iff) auto
qed

lemmas bit_byte_masks = bit_0x7F bit_0x80

lemma unat_drop_bit: "unat (drop_bit n v) = unat (v :: 'a::len word) div 2 ^ n"
proof -
  have "take_bit LENGTH('a) (unat v) = unat v"
    by (simp add: take_bit_nat_eq_self)
  then show ?thesis
    by (simp only: unsigned_drop_bit_eq drop_bit_eq_div [where 'a = nat])
qed

lemma unat_take_bit: "unat (take_bit n v) = unat (v :: 'a::len word) mod 2 ^ n"
  by (simp only: unsigned_take_bit_eq take_bit_eq_mod [where 'a = nat])

lemma unat_and_mask: "unat (v AND mask n) = unat (v :: 'a::len word) mod 2 ^ n"
  by (simp only: take_bit_eq_mask [symmetric] unat_take_bit)

lemma unat_drop_bit_less:
  assumes "drop_bit n (v :: 'a::len word) \<noteq> 0" and "0 < n"
  shows "unat (drop_bit n v) < unat v"
proof -
  have "v \<noteq> 0" using assms(1) by auto
  then have "0 < unat v" by (simp add: unat_gt_0)
  moreover have "1 < (2 :: nat) ^ n" using assms(2) by (intro one_less_power) simp_all
  ultimately show ?thesis unfolding unat_drop_bit
    by (intro div_less_dividend) simp_all
qed

lemma word_or_eq_add_nat:
  fixes x :: "'a::len word"
  assumes "R < 2 ^ s"
  shows "word_of_nat R OR push_bit s x = (word_of_nat (R + 2 ^ s * unat x) :: 'a word)"
proof -
  have "\<not> bit R n" if "s \<le> n" for n
    using assms that by (metis bit_take_bit_iff leD take_bit_nat_eq_self)
  then have "word_of_nat R AND push_bit s x = (0 :: 'a word)"
    by (intro bit_word_eqI) (auto simp: bit_simps)
  then have "word_of_nat R OR push_bit s x = word_of_nat R + push_bit s x"
    by (rule disjunctive_add_eq_or [symmetric])
  moreover have "push_bit s x = word_of_nat (2 ^ s * unat x)"
    by (simp add: push_bit_eq_mult mult.commute)
  ultimately show ?thesis by simp
qed

text \<open>Cutting a word to fewer bits commutes with addition and subtraction.\<close>

lemma unat_ucast_mod: "unat (ucast (v :: 'a::len word) :: 'b::len word) = unat v mod 2 ^ LENGTH('b)"
  by (simp add: unsigned_ucast_eq unsigned_take_bit_eq take_bit_eq_mod)

lemma ucast_add_down:
  assumes "LENGTH('b) \<le> LENGTH('a)"
  shows "(ucast (a + b :: 'a::len word) :: 'b::len word) = ucast a + ucast b"
proof -
  have "unat (ucast (a + b) :: 'b word) = (unat a + unat b) mod 2 ^ LENGTH('a) mod 2 ^ LENGTH('b)"
    by (simp add: unat_ucast_mod unat_word_ariths)
  also have "\<dots> = (unat a + unat b) mod 2 ^ LENGTH('b)"
    by (rule mod_mod_cancel) (simp add: le_imp_power_dvd assms)
  also have "\<dots> = unat (ucast a + ucast b :: 'b word)"
    by (simp add: unat_word_ariths unat_ucast_mod mod_simps)
  finally show ?thesis by (simp add: word_unat_eq_iff)
qed

lemma ucast_diff_down:
  assumes "LENGTH('b) \<le> LENGTH('a)"
  shows "(ucast (a - b :: 'a::len word) :: 'b::len word) = ucast a - ucast b"
  using ucast_add_down [OF assms, of "a - b" b] by (simp add: algebra_simps)

text \<open>Reading the little-endian integers of the on-disk formats and of the virtual machine.\<close>

definition u32_from_le :: "byte \<Rightarrow> byte \<Rightarrow> byte \<Rightarrow> byte \<Rightarrow> u32" where
  "u32_from_le b0 b1 b2 b3 =
     ucast b0 OR push_bit 8 (ucast b1) OR push_bit 16 (ucast b2) OR push_bit 24 (ucast b3)"

definition u32_to_le :: "u32 \<Rightarrow> byte list" where
  "u32_to_le v =
     [ucast v, ucast (drop_bit 8 v), ucast (drop_bit 16 v), ucast (drop_bit 24 v)]"

lemma length_u32_to_le [simp]: "length (u32_to_le v) = 4"
  by (simp add: u32_to_le_def)

lemma u32_from_to_le [simp]:
  "u32_from_le (ucast v) (ucast (drop_bit 8 v)) (ucast (drop_bit 16 v)) (ucast (drop_bit 24 v))
     = (v :: u32)"
  unfolding u32_from_le_def
  apply (rule bit_word_eqI)
  subgoal for n
    by (cases "n < 8"; cases "n < 16"; cases "n < 24") (auto simp: bit_simps)
  done

lemma ucast_byte_drop_bit_push:
  "ucast (drop_bit 8 (push_bit 8 (ucast (b :: byte)) :: u32)) = b"
  by (rule bit_word_eqI) (auto simp: bit_simps)

lemma u32_to_from_le [simp]: "u32_to_le (u32_from_le a b c d) = [a, b, c, d]"
  unfolding u32_from_le_def u32_to_le_def list.inject
  by (intro conjI bit_word_eqI) (auto simp: bit_simps)

section \<open>The bits of a byte sequence, most significant first\<close>

definition byte_bits :: "byte \<Rightarrow> bool list" where
  "byte_bits b = map (\<lambda>i. bit b (7 - i)) [0..<8]"

definition stream_bits :: "byte list \<Rightarrow> bool list" where
  "stream_bits bs = concat (map byte_bits bs)"

lemma length_byte_bits [simp]: "length (byte_bits b) = 8"
  by (simp add: byte_bits_def)

lemma nth_byte_bits: "i < 8 \<Longrightarrow> byte_bits b ! i = bit b (7 - i)"
  by (simp add: byte_bits_def)

lemma stream_bits_Nil [simp, bits_simps]: "stream_bits [] = []"
  by (simp add: stream_bits_def)

lemma stream_bits_Cons [bits_simps]: "stream_bits (b # bs) = byte_bits b @ stream_bits bs"
  by (simp add: stream_bits_def)

lemma stream_bits_append [bits_simps]: "stream_bits (xs @ ys) = stream_bits xs @ stream_bits ys"
  by (simp add: stream_bits_def)

lemma length_stream_bits [simp]: "length (stream_bits bs) = 8 * length bs"
  by (induction bs) (simp_all add: stream_bits_Cons)

lemma nth_stream_bits:
  "i < 8 * length bs \<Longrightarrow> stream_bits bs ! i = bit (bs ! (i div 8)) (7 - i mod 8)"
proof (induction bs arbitrary: i)
  case Nil
  then show ?case by simp
next
  case (Cons b bs)
  show ?case
  proof (cases "i < 8")
    case True
    then show ?thesis by (simp add: stream_bits_Cons nth_append nth_byte_bits)
  next
    case False
    then have "i div 8 = Suc ((i - 8) div 8)" and "i mod 8 = (i - 8) mod 8"
      by (simp_all add: le_div_geq le_mod_geq)
    with False Cons show ?thesis
      by (simp add: stream_bits_Cons nth_append)
  qed
qed

lemma drop_stream_bits: "drop (8 * n) (stream_bits bs) = stream_bits (drop n bs)"
proof (induction bs arbitrary: n)
  case Nil
  then show ?case by simp
next
  case (Cons b bs)
  then show ?case
    by (cases n) (simp_all add: stream_bits_Cons)
qed

text \<open>The value a reader returns: \<open>value = (value << 1) | bit\<close>, bit by bit.\<close>

definition bits_value :: "bool list \<Rightarrow> 'a::len word" where
  "bits_value bs = foldl (\<lambda>v b. push_bit 1 v OR of_bool b) 0 bs"

lemma bits_value_Nil [simp, bits_simps]: "bits_value [] = 0"
  by (simp add: bits_value_def)

lemma bits_value_snoc [bits_simps]:
  "bits_value (bs @ [b]) = push_bit 1 (bits_value bs) OR of_bool b"
  by (simp add: bits_value_def)

lemma bit_shift_in:
  "bit (push_bit 1 v OR of_bool b :: 'a::len word) i \<longleftrightarrow>
     i < LENGTH('a) \<and> (if i = 0 then b else bit v (i - 1))"
  by (cases i) (auto simp: bit_simps bit_double_iff mult.commute [of _ 2] dest: bit_imp_le_length)

lemma bit_bits_value_snoc:
  "bit (bits_value (bs @ [b]) :: 'a::len word) i \<longleftrightarrow>
     i < LENGTH('a) \<and> (if i = 0 then b else bit (bits_value bs :: 'a word) (i - 1))"
  by (simp only: bits_value_snoc bit_shift_in)

lemma bit_bits_value:
  "bit (bits_value bs :: 'a::len word) i \<longleftrightarrow>
     i < LENGTH('a) \<and> i < length bs \<and> bs ! (length bs - Suc i)"
proof (induction bs arbitrary: i rule: rev_induct)
  case Nil
  then show ?case by simp
next
  case (snoc b bs)
  then show ?case
  proof (cases i)
    case 0
    then show ?thesis by (simp add: bit_bits_value_snoc)
  next
    case (Suc j)
    have "(bs @ [b]) ! (length bs - Suc j) = bs ! (length bs - Suc j)" if "j < length bs"
      using that by (intro nth_append_left) auto
    moreover have "bit (bits_value (bs @ [b]) :: 'a word) i \<longleftrightarrow>
        i < LENGTH('a) \<and> j < length bs \<and> bs ! (length bs - Suc j)"
      using snoc [of j] Suc by (simp only: bit_bits_value_snoc) auto
    ultimately show ?thesis using Suc by auto
  qed
qed

lemma bits_value_append:
  "bits_value (xs @ ys) = push_bit (length ys) (bits_value xs) OR (bits_value ys :: 'a::len word)"
  by (rule bit_word_eqI) (auto simp: bit_simps bit_bits_value nth_append)

lemma unat_bits_value_less:
  assumes "length bs \<le> LENGTH('a)"
  shows "unat (bits_value bs :: 'a::len word) < 2 ^ length bs"
proof -
  have "take_bit (length bs) (bits_value bs :: 'a word) = bits_value bs"
    by (rule bit_word_eqI) (auto simp: bit_simps bit_bits_value)
  then have "unat (bits_value bs :: 'a word) = take_bit (length bs) (unat (bits_value bs :: 'a word))"
    by (metis unsigned_take_bit_eq)
  then show ?thesis by (metis take_bit_nat_less_exp)
qed

text \<open>The same value as a natural number, for fields compared arithmetically.\<close>

definition bits_nat :: "bool list \<Rightarrow> nat" where
  "bits_nat bs = foldl (\<lambda>v b. 2 * v + of_bool b) 0 bs"

lemma bits_nat_Nil [simp, bits_simps]: "bits_nat [] = 0"
  by (simp add: bits_nat_def)

lemma bits_nat_snoc [bits_simps]: "bits_nat (bs @ [b]) = 2 * bits_nat bs + of_bool b"
  by (simp add: bits_nat_def)

lemma bits_nat_append:
  "bits_nat (xs @ ys) = bits_nat xs * 2 ^ length ys + bits_nat ys"
proof (induction ys rule: rev_induct)
  case Nil
  then show ?case by simp
next
  case (snoc y ys)
  then show ?case
    by (simp only: append_assoc [symmetric] bits_nat_snoc length_append_singleton power_Suc)
      (simp add: algebra_simps)
qed

lemma bits_nat_less [simp]: "bits_nat bs < 2 ^ length bs"
proof (induction bs rule: rev_induct)
  case Nil
  then show ?case by simp
next
  case (snoc b bs)
  then show ?case by (cases b) (simp_all add: bits_nat_snoc)
qed

lemma bits_nat_take_div:
  assumes "l \<le> m" "m \<le> length bs"
  shows "bits_nat (take l bs) = bits_nat (take m bs) div 2 ^ (m - l)"
proof -
  have "take m bs = take l bs @ take (m - l) (drop l bs)"
    using assms(1) by (metis le_add_diff_inverse take_add)
  moreover have "length (take (m - l) (drop l bs)) = m - l" using assms by simp
  moreover have "bits_nat (take (m - l) (drop l bs)) < 2 ^ (m - l)"
    using bits_nat_less [of "take (m - l) (drop l bs)"] assms by simp
  ultimately show ?thesis
    using bits_nat_append [of "take l bs" "take (m - l) (drop l bs)"] by simp
qed

lemma bits_nat_inject:
  "length xs = length ys \<Longrightarrow> bits_nat xs = bits_nat ys \<Longrightarrow> xs = ys"
proof (induction xs arbitrary: ys rule: rev_induct)
  case Nil
  then show ?case by simp
next
  case (snoc x xs)
  then obtain zs z where ys: "ys = zs @ [z]" "length xs = length zs"
    by (cases ys rule: rev_cases) auto
  have "2 * bits_nat xs + of_bool x = 2 * bits_nat zs + (of_bool z :: nat)"
    using snoc.prems ys by (simp add: bits_nat_snoc)
  then have "x = z \<and> bits_nat xs = bits_nat zs"
    by (cases x; cases z) (auto, (presburger)+)
  with ys snoc.IH show ?case by auto
qed

lemma bits_value_eq_nat:
  assumes "length bs \<le> LENGTH('a)"
  shows "(bits_value bs :: 'a::len word) = word_of_nat (bits_nat bs)"
  using assms
proof (induction bs rule: rev_induct)
  case Nil
  then show ?case by simp
next
  case (snoc b bs)
  have "push_bit 1 (bits_value bs :: 'a word) AND of_bool b = 0"
    by (rule bit_word_eqI) (simp only: bit_and_iff bit_push_bit_iff bit_of_bool_iff, auto)
  then have "push_bit 1 (bits_value bs :: 'a word) OR of_bool b = push_bit 1 (bits_value bs) + of_bool b"
    by (rule disjunctive_add_eq_or [symmetric])
  with snoc show ?case
    by (simp add: bits_value_snoc bits_nat_snoc push_bit_eq_mult mult.commute)
qed

lemma unat_bits_value:
  assumes "length bs \<le> LENGTH('a)"
  shows "unat (bits_value bs :: 'a::len word) = bits_nat bs"
proof -
  have "bits_nat bs < 2 ^ LENGTH('a)"
    using bits_nat_less [of bs] power_increasing [OF assms, of "2 :: nat"] by linarith
  then show ?thesis
    using assms by (simp add: bits_value_eq_nat unsigned_of_nat take_bit_nat_eq_self)
qed

end
