(* ===== verification/Vint.thy ===== *)
theory Vint
  imports Prelude
begin

text \<open>
  RAR5 variable-length integers (\<^verbatim>\<open>crates/rar/src/vint.rs\<close>): the encoder, the stream and
  slice decoders and the size function, on 64-bit words. The specification
  \<open>vint_value\<close> reads a byte sequence as base-128 digits, least significant first.
\<close>

datatype io_error = UnexpectedEof string | InvalidData string

section \<open>Operations\<close>

function vint_encode :: "u64 \<Rightarrow> byte list" where
  "vint_encode v =
     (let byte = ucast (v AND 0x7F); v' = drop_bit 7 v in
      if v' \<noteq> 0 then (byte OR 0x80) # vint_encode v' else [byte])"
  by pat_completeness auto
termination
  by (relation "measure unat") (auto simp only: in_measure wf_measure zero_less_numeral intro!: unat_drop_bit_less)

declare vint_encode.simps [simp del]

text \<open>The sink of \<open>write\<close> is any \<open>io::Write\<close>: its \<open>write_all\<close> is a parameter.\<close>

definition vint_write ::
  "('w \<Rightarrow> byte list \<Rightarrow> 'e + 'w) \<Rightarrow> 'w \<Rightarrow> u64 \<Rightarrow> 'e + (nat \<times> 'w)" where
  "vint_write write_all w value =
     (let bytes = vint_encode value in rbind (write_all w bytes) (\<lambda>w'. Inr (length bytes, w')))"

text \<open>One digit: \<open>result |= (byte & 0x7F) << shift\<close>, ignored from bit 64 on.\<close>

definition vint_digit :: "u64 \<Rightarrow> nat \<Rightarrow> byte \<Rightarrow> u64" where
  "vint_digit result shift byte =
     (if shift < 64 then result OR push_bit shift (ucast (byte AND 0x7F)) else result)"

text \<open>\<open>read\<close>: the reader is the list of bytes it still holds.\<close>

fun vint_read_loop :: "nat \<Rightarrow> u64 \<Rightarrow> nat \<Rightarrow> byte list \<Rightarrow> io_error + (u64 \<times> byte list)" where
  "vint_read_loop 0 result shift bs = Inl (InvalidData ''vint exceeds 10 bytes'')"
| "vint_read_loop (Suc k) result shift bs =
     (case bs of
        [] \<Rightarrow> Inl (UnexpectedEof ''failed to fill whole buffer'')
      | byte # bs' \<Rightarrow>
          (let result' = vint_digit result shift byte in
           if byte AND 0x80 = 0 then Inr (result', bs')
           else vint_read_loop k result' (shift + 7) bs'))"

definition vint_read :: "byte list \<Rightarrow> io_error + (u64 \<times> byte list)" where
  "vint_read bs = vint_read_loop 10 0 0 bs"

fun vint_slice_loop :: "nat \<Rightarrow> u64 \<Rightarrow> nat \<Rightarrow> nat \<Rightarrow> byte list \<Rightarrow> nat \<Rightarrow> io_error + (u64 \<times> nat)" where
  "vint_slice_loop 0 result shift pos data offset = Inl (InvalidData ''vint exceeds 10 bytes'')"
| "vint_slice_loop (Suc k) result shift pos data offset =
     (if length data \<le> pos then Inl (UnexpectedEof ''buffer ended while reading vint'')
      else
        let byte = data ! pos; result' = vint_digit result shift byte in
        if byte AND 0x80 = 0 then Inr (result', pos + 1 - offset)
        else vint_slice_loop k result' (shift + 7) (pos + 1) data offset)"

definition vint_decode_from_slice :: "byte list \<Rightarrow> nat \<Rightarrow> io_error + (u64 \<times> nat)" where
  "vint_decode_from_slice data offset = vint_slice_loop 10 0 0 offset data offset"

function vint_encoded_size_from :: "nat \<Rightarrow> u64 \<Rightarrow> nat" where
  "vint_encoded_size_from n v =
     (let v' = drop_bit 7 v in if v' = 0 then n + 1 else vint_encoded_size_from (n + 1) v')"
  by pat_completeness auto
termination
  by (relation "measure (\<lambda>(n, v). unat v)")
     (auto simp only: in_measure wf_measure zero_less_numeral prod.case intro!: unat_drop_bit_less)

declare vint_encoded_size_from.simps [simp del]

definition vint_encoded_size :: "u64 \<Rightarrow> nat" where
  "vint_encoded_size v = vint_encoded_size_from 0 v"

section \<open>Base-128 specification\<close>

fun vint_value :: "byte list \<Rightarrow> nat" where
  "vint_value [] = 0"
| "vint_value (b # bs) = unat b mod 128 + 128 * vint_value bs"

fun vint_shape :: "byte list \<Rightarrow> bool" where
  "vint_shape [] = False"
| "vint_shape [b] = (b AND 0x80 = 0)"
| "vint_shape (b # bs) = (b AND 0x80 \<noteq> 0 \<and> vint_shape bs)"

lemma vint_shape_Cons: "bs \<noteq> [] \<Longrightarrow> vint_shape (b # bs) = (b AND 0x80 \<noteq> 0 \<and> vint_shape bs)"
  by (cases bs) auto

lemma unat_and_7F: "unat (b AND 0x7F :: byte) = unat b mod 128"
  using unat_and_mask [of b 7] by (simp add: mask_eq_exp_minus_1)

lemma or_push_digit:
  assumes "R < 2 ^ s"
  shows "vint_digit (word_of_nat R) s b = word_of_nat (R + 2 ^ s * (unat b mod 128))"
proof (cases "s < 64")
  case True
  have "unat (ucast (b AND 0x7F) :: u64) = unat b mod 128"
    by (simp add: unsigned_ucast_eq unat_and_7F take_bit_nat_eq_self_iff)
  with True show ?thesis
    by (simp add: vint_digit_def word_or_eq_add_nat [OF assms] del: of_nat_add of_nat_mult)
next
  case False
  then have exp: "(2 ^ s :: u64) = 0" by simp
  from False show ?thesis by (simp add: vint_digit_def exp)
qed

section \<open>Decoding\<close>

lemma take_Suc_nth: "pos < length data \<Longrightarrow> take (Suc k) (drop pos data) = data ! pos # take k (drop (Suc pos) data)"
  by (simp add: Cons_nth_drop_Suc [symmetric])

text \<open>The slice decoder, from any intermediate state.\<close>

lemma vint_slice_loop_iff:
  assumes "R < 2 ^ s" "offset \<le> pos"
  shows "vint_slice_loop k (word_of_nat R) s pos data offset = Inr (v, m) \<longleftrightarrow>
    (\<exists>n. 0 < n \<and> n \<le> k \<and> pos + n \<le> length data \<and> vint_shape (take n (drop pos data)) \<and>
         v = word_of_nat (R + 2 ^ s * vint_value (take n (drop pos data))) \<and>
         m = pos + n - offset)"
  using assms
proof (induction k arbitrary: R s pos)
  case 0
  then show ?case by simp
next
  case (Suc k)
  show ?case
  proof (cases "pos < length data")
    case False
    then show ?thesis by auto
  next
    case True
    let ?b = "data ! pos" and ?R = "R + 2 ^ s * (unat (data ! pos) mod 128)"
    have digit: "vint_digit (word_of_nat R) s ?b = word_of_nat ?R"
      by (rule or_push_digit) fact
    have "unat ?b mod 128 \<le> 127" by simp
    then have "2 ^ s * (unat ?b mod 128) \<le> 2 ^ s * 127"
      by (rule mult_le_mono2)
    with Suc.prems(1) have "?R < 2 ^ s + 2 ^ s * 127" by linarith
    then have bound: "?R < 2 ^ (s + 7)" by (simp add: power_add)
    show ?thesis
    proof (cases "?b AND 0x80 = 0")
      case stop: True
      have "(\<exists>n. 0 < n \<and> n \<le> Suc k \<and> pos + n \<le> length data \<and> vint_shape (take n (drop pos data)) \<and>
         v = word_of_nat (R + 2 ^ s * vint_value (take n (drop pos data))) \<and> m = pos + n - offset)
         \<longleftrightarrow> v = word_of_nat ?R \<and> m = pos + 1 - offset" (is "(\<exists>n. ?P n) \<longleftrightarrow> ?Q")
      proof
        assume "\<exists>n. ?P n"
        then obtain n where n: "?P n" by blast
        then obtain j where j: "n = Suc j" by (cases n) auto
        with n True stop have "take j (drop (Suc pos) data) = []"
          by (cases "take j (drop (Suc pos) data)") (auto simp: take_Suc_nth)
        with n j True have "j = 0" by auto
        with n j True show ?Q by (simp add: take_Suc_nth)
      next
        assume ?Q
        with True stop have "?P 1" by (simp add: take_Suc_nth)
        then show "\<exists>n. ?P n" by blast
      qed
      with True stop digit show ?thesis by (auto simp: Let_def)
    next
      case cont: False
      have IH: "vint_slice_loop k (word_of_nat ?R) (s + 7) (pos + 1) data offset = Inr (v, m) \<longleftrightarrow>
        (\<exists>n. 0 < n \<and> n \<le> k \<and> pos + 1 + n \<le> length data \<and>
           vint_shape (take n (drop (pos + 1) data)) \<and>
           v = word_of_nat (?R + 2 ^ (s + 7) * vint_value (take n (drop (pos + 1) data))) \<and>
           m = pos + 1 + n - offset)" (is "_ \<longleftrightarrow> (\<exists>n. ?P n)")
        using Suc.prems bound by (intro Suc.IH) auto
      have "(\<exists>n. ?P n) \<longleftrightarrow> (\<exists>n. 0 < n \<and> n \<le> Suc k \<and> pos + n \<le> length data \<and>
         vint_shape (take n (drop pos data)) \<and>
         v = word_of_nat (R + 2 ^ s * vint_value (take n (drop pos data))) \<and> m = pos + n - offset)"
         (is "_ \<longleftrightarrow> (\<exists>n. ?Q n)")
      proof
        assume "\<exists>n. ?P n"
        then obtain n where n: "?P n" by blast
        then have ne: "take n (drop (Suc pos) data) \<noteq> []" by auto
        have "?Q (Suc n)"
          using n True cont ne by (simp add: take_Suc_nth vint_shape_Cons power_add algebra_simps)
        then show "\<exists>n. ?Q n" by blast
      next
        assume "\<exists>n. ?Q n"
        then obtain n where n: "?Q n" by blast
        then obtain j where j: "n = Suc j" by (cases n) auto
        then have shape: "vint_shape (?b # take j (drop (Suc pos) data))"
          using n True by (simp add: take_Suc_nth)
        have "0 < j"
          using shape cont by (cases j) simp_all
        then have ne: "take j (drop (Suc pos) data) \<noteq> []"
          using n j by auto
        from shape vint_shape_Cons [OF ne] have "vint_shape (take j (drop (Suc pos) data))"
          by blast
        with \<open>0 < j\<close> have "?P j"
          using n j True cont by (simp add: take_Suc_nth power_add algebra_simps)
        then show "\<exists>n. ?P n" by blast
      qed
      with True cont digit IH show ?thesis by (simp add: Let_def)
    qed
  qed
qed

section \<open>Encoding\<close>

lemma vint_encode_step:
  "vint_encode v =
     (if drop_bit 7 v = 0 then [ucast (v AND 0x7F)]
      else (ucast (v AND 0x7F) OR 0x80) # vint_encode (drop_bit 7 v))"
  by (subst vint_encode.simps) (simp only: Let_def split: if_splits, simp)

lemma vint_encode_Nil [simp]: "vint_encode v \<noteq> []"
  by (subst vint_encode_step) simp

lemma unat_low_digit: "unat (ucast (v AND 0x7F) :: byte) = unat (v :: u64) mod 128"
  using unat_and_mask [of v 7]
  by (simp add: unsigned_ucast_eq mask_eq_exp_minus_1 take_bit_nat_eq_self_iff)

lemma low_digit_no_flag: "ucast (v AND 0x7F :: u64) AND 0x80 = (0 :: byte)"
  by (rule bit_word_eqI) (auto simp: bit_simps bit_byte_masks)

lemma flagged_digit: "(b OR 0x80) AND 0x80 \<noteq> (0 :: byte)"
proof
  assume "(b OR 0x80) AND 0x80 = (0 :: byte)"
  then have "bit ((b OR 0x80) AND 0x80 :: byte) 7 = bit (0 :: byte) 7" by simp
  then show False by (simp add: bit_simps bit_byte_masks)
qed

lemma unat_flagged_digit: "unat (b OR 0x80 :: byte) mod 128 = unat b mod 128"
proof -
  have "take_bit 7 (b OR 0x80) = take_bit 7 b"
    by (rule bit_word_eqI) (auto simp: bit_simps bit_byte_masks)
  then show ?thesis using unat_take_bit [of 7 "b OR 0x80"] unat_take_bit [of 7 b] by simp
qed

lemma vint_encode_shape: "vint_shape (vint_encode v)"
proof (induction v rule: vint_encode.induct)
  case (1 v)
  then show ?case
    by (subst vint_encode_step) (auto simp: vint_shape_Cons low_digit_no_flag flagged_digit)
qed

lemma vint_encode_value: "vint_value (vint_encode v) = unat v"
proof (induction v rule: vint_encode.induct)
  case (1 v)
  show ?case
  proof (cases "drop_bit 7 v = 0")
    case True
    then have "unat v div 128 = 0" using unat_drop_bit [of 7 v] by simp
    then have "unat v mod 128 = unat v" by simp
    with True show ?thesis by (subst vint_encode_step) (simp add: unat_low_digit)
  next
    case False
    with 1 have "vint_value (vint_encode (drop_bit 7 v)) = unat v div 128"
      using unat_drop_bit [of 7 v] by simp
    with False show ?thesis
      by (subst vint_encode_step) (simp add: unat_flagged_digit unat_low_digit)
  qed
qed

lemma drop_bit_7_eq_0: "drop_bit 7 (v :: u64) = 0 \<longleftrightarrow> unat v < 128"
proof -
  have "drop_bit 7 v = 0 \<longleftrightarrow> unat (drop_bit 7 v) = 0" by (simp only: unat_eq_0)
  also have "\<dots> \<longleftrightarrow> unat v < 128" by (simp only: unat_drop_bit) (simp add: div_eq_0_iff)
  finally show ?thesis .
qed

lemma vint_encode_length_le: "unat v < 2 ^ (7 * Suc k) \<longleftrightarrow> length (vint_encode v) \<le> Suc k"
proof (induction k arbitrary: v)
  case 0
  show ?case
    by (subst vint_encode_step) (auto simp: drop_bit_7_eq_0)
next
  case (Suc k)
  have exp: "(2 :: nat) ^ (7 * Suc (Suc k)) = 2 ^ (7 * Suc k) * 128"
    by (simp only: mult_Suc_right [of 7 "Suc k"] power_add) simp
  have "unat v < 2 ^ (7 * Suc (Suc k)) \<longleftrightarrow> unat (drop_bit 7 v) < 2 ^ (7 * Suc k)"
    unfolding unat_drop_bit exp using div_less_iff_less_mult [of 128 "unat v" "2 ^ (7 * Suc k)"]
    by simp
  also have "\<dots> \<longleftrightarrow> length (vint_encode (drop_bit 7 v)) \<le> Suc k" by (rule Suc.IH)
  also have "\<dots> \<longleftrightarrow> length (vint_encode v) \<le> Suc (Suc k)"
  proof (cases "drop_bit 7 v = 0")
    case True
    then have "vint_encode (drop_bit 7 v) = [0]" by (subst vint_encode_step) simp
    moreover have "length (vint_encode v) = 1" using True by (subst vint_encode_step) simp
    ultimately show ?thesis by simp
  next
    case False
    then have "length (vint_encode v) = Suc (length (vint_encode (drop_bit 7 v)))"
      by (subst vint_encode_step) simp
    then show ?thesis by simp
  qed
  finally show ?case .
qed

lemma vint_encode_length: "0 < length (vint_encode v)" "length (vint_encode v) \<le> 10"
proof -
  show "0 < length (vint_encode v)" by simp
  have "unat v < 2 ^ 64" using unsigned_less [of v] by simp
  also have "(2 :: nat) ^ 64 \<le> 2 ^ (7 * Suc 9)" by (rule power_increasing) simp_all
  finally show "length (vint_encode v) \<le> 10"
    using vint_encode_length_le [of v 9] by simp
qed

lemma vint_encoded_size_from: "vint_encoded_size_from n v = n + length (vint_encode v)"
proof (induction n v rule: vint_encoded_size_from.induct)
  case (1 n v)
  then show ?case
    by (subst vint_encoded_size_from.simps, subst vint_encode_step) (auto simp: Let_def)
qed

lemma vint_read_slice_loop:
  assumes "offset \<le> pos"
  shows "vint_read_loop k result s (drop pos data) = Inr (v, rest) \<longleftrightarrow>
     (\<exists>m. vint_slice_loop k result s pos data offset = Inr (v, m) \<and> rest = drop (offset + m) data)"
  using assms
proof (induction k arbitrary: result s pos)
  case 0
  then show ?case by simp
next
  case (Suc k)
  show ?case
  proof (cases "pos < length data")
    case True
    then have "drop pos data = data ! pos # drop (Suc pos) data"
      by (rule Cons_nth_drop_Suc [symmetric])
    with True Suc.prems Suc.IH [of "Suc pos" "vint_digit result s (data ! pos)" "s + 7"]
    show ?thesis by (auto simp: Let_def)
  qed auto
qed

section \<open>Properties\<close>

text \<open>C33: Encoding then decoding a vint at any offset of any buffer returns the value and
  consumes exactly the bytes that were written, whatever stands before and after.\<close>

theorem vint_roundtrip:
  "vint_decode_from_slice (pre @ vint_encode v @ post) (length pre) =
     Inr (v, length (vint_encode v))"
proof -
  let ?data = "pre @ vint_encode v @ post" and ?n = "length (vint_encode v)"
  have "take ?n (drop (length pre) ?data) = vint_encode v" by simp
  then have "vint_slice_loop 10 (word_of_nat 0) 0 (length pre) ?data (length pre) = Inr (v, ?n)"
    using vint_encode_length
    by (subst vint_slice_loop_iff)
       (auto intro!: exI [of _ ?n] simp: vint_encode_shape vint_encode_value)
  then show ?thesis by (simp add: vint_decode_from_slice_def)
qed

text \<open>C34: The slice decoder accepts exactly the sequences of one to ten bytes of which all but the
  last carry the continuation flag, canonical or not, and returns their base-128 value modulo
  \<open>2 ^ 64\<close> with the number of bytes read.\<close>

theorem vint_decode_iff:
  "vint_decode_from_slice data offset = Inr (v, m) \<longleftrightarrow>
     0 < m \<and> m \<le> 10 \<and> offset + m \<le> length data \<and> vint_shape (take m (drop offset data)) \<and>
     v = word_of_nat (vint_value (take m (drop offset data)))"
  using vint_slice_loop_iff [of 0 0 offset offset 10 data v m]
  by (auto simp: vint_decode_from_slice_def)

text \<open>\<open>encoded_size\<close> is the length of the encoding, at most ten bytes, and the
  encoding is the shortest one: \<open>k + 1\<close> bytes suffice exactly for the values below
  \<open>2 ^ (7 (k + 1))\<close>.\<close>

theorem vint_size_exact:
  "vint_encoded_size v = length (vint_encode v) \<and> vint_encoded_size v \<le> 10 \<and>
   (vint_encoded_size v \<le> Suc k \<longleftrightarrow> unat v < 2 ^ (7 * Suc k))"
  using vint_encode_length [of v] vint_encode_length_le [of v k]
  by (simp add: vint_encoded_size_def vint_encoded_size_from del: mult_Suc_right)

text \<open>The stream reader and the slice decoder agree: both succeed on the same bytes, with the
  same value, and the reader is left exactly behind the bytes the slice decoder counted.\<close>

theorem vint_read_agrees:
  "vint_read (drop offset data) = Inr (v, rest) \<longleftrightarrow>
     (\<exists>m. vint_decode_from_slice data offset = Inr (v, m) \<and> rest = drop (offset + m) data)"
  unfolding vint_read_def vint_decode_from_slice_def by (rule vint_read_slice_loop) simp

end
