(* ===== verification/Crc32.thy ===== *)
theory Crc32
  imports Prelude
begin

text \<open>
  The CRC-32 primitives of \<^verbatim>\<open>crates/rar/src/crc32.rs\<close>: the lookup table, its construction,
  and the uninverted running CRC that the RAR4 headers and the legacy ciphers use. The finalised
  CRC of bulk data comes from the \<open>crc32fast\<close> package and is not modelled. The specification
  is the bit-at-a-time division by the reflected polynomial.
\<close>

section \<open>Operations\<close>

text \<open>The body of the inner loop of \<open>build_table\<close>.\<close>

definition crc_shift :: "u32 \<Rightarrow> u32" where
  "crc_shift value = (let mask = 0 - (value AND 1) in drop_bit 1 value XOR (0xedb88320 AND mask))"

definition build_table :: "u32 list" where
  "build_table = map (\<lambda>i. (crc_shift ^^ 8) (word_of_nat i)) [0..<256]"

definition table_entry :: "byte \<Rightarrow> u32" where
  "table_entry index = build_table ! unat index"

fun crc32_raw_from :: "u32 \<Rightarrow> byte list \<Rightarrow> u32" where
  "crc32_raw_from crc [] = crc"
| "crc32_raw_from crc (b # bs) =
     crc32_raw_from (drop_bit 8 crc XOR table_entry (ucast crc XOR b)) bs"

definition crc32_raw :: "byte list \<Rightarrow> u32" where
  "crc32_raw input = crc32_raw_from 0xffffffff input"

section \<open>Bitwise specification\<close>

text \<open>Dividing bit by bit: shift right and subtract the polynomial when a one falls out.\<close>

fun crc_bits :: "u32 \<Rightarrow> bool list \<Rightarrow> u32" where
  "crc_bits crc [] = crc"
| "crc_bits crc (b # bs) =
     crc_bits (drop_bit 1 crc XOR (if bit crc 0 \<noteq> b then 0xedb88320 else 0)) bs"

text \<open>The bits of a byte in the order a reflected CRC consumes them.\<close>

definition lsb_bits :: "byte \<Rightarrow> bool list" where
  "lsb_bits b = map (bit b) [0..<8]"

lemma crc_shift_bit: "crc_shift v = drop_bit 1 v XOR (if bit v 0 then 0xedb88320 else 0)"
proof -
  have "v AND 1 = of_bool (bit v 0)"
    by (simp add: and_one_eq bit_0 odd_iff_mod_2_eq_one)
  then show ?thesis by (simp add: crc_shift_def Let_def)
qed

lemma crc_shift_xor: "crc_shift (v XOR w) = crc_shift v XOR crc_shift w"
  unfolding crc_shift_bit by (rule bit_word_eqI) (auto simp: bit_simps)

lemma crc_shift_pow_xor: "(crc_shift ^^ n) (v XOR w) = (crc_shift ^^ n) v XOR (crc_shift ^^ n) w"
  by (induction n) (simp_all add: crc_shift_xor)

lemma crc_shift_pow_high:
  "(\<And>i. i < n \<Longrightarrow> \<not> bit v i) \<Longrightarrow> (crc_shift ^^ n) v = drop_bit n v"
proof (induction n)
  case 0
  then show ?case by simp
next
  case (Suc n)
  then have "(crc_shift ^^ n) v = drop_bit n v" by simp
  moreover have "\<not> bit (drop_bit n v) 0" using Suc.prems [of n] by (simp add: bit_simps)
  ultimately have "crc_shift ((crc_shift ^^ n) v) = drop_bit 1 (drop_bit n v)"
    by (simp only: crc_shift_bit if_False) simp
  then show ?case by (simp add: drop_bit_drop_bit)
qed

lemma table_entry_shift: "table_entry b = (crc_shift ^^ 8) (ucast b)"
  using unat_byte_less [of b] by (simp add: table_entry_def build_table_def)

text \<open>One table step is eight single-bit steps on the low byte XORed with the input.\<close>

lemma table_step:
  "drop_bit 8 crc XOR table_entry (ucast crc XOR b) = (crc_shift ^^ 8) (crc XOR ucast b)"
proof -
  let ?low = "take_bit 8 crc" and ?high = "crc AND NOT (mask 8)"
  have split: "crc XOR ucast b = ?high XOR ucast (ucast crc XOR b)"
    by (rule bit_word_eqI) (auto simp: bit_simps)
  have high: "(crc_shift ^^ 8) ?high = drop_bit 8 crc"
  proof -
    have "(crc_shift ^^ 8) ?high = drop_bit 8 ?high"
      by (rule crc_shift_pow_high) (simp add: bit_simps)
    also have "\<dots> = drop_bit 8 crc"
      by (rule bit_word_eqI) (auto simp: bit_simps dest: bit_imp_le_length)
    finally show ?thesis .
  qed
  show ?thesis unfolding split crc_shift_pow_xor high table_entry_shift ..
qed

lemma crc_bits_append: "crc_bits crc (xs @ ys) = crc_bits (crc_bits crc xs) ys"
  by (induction xs arbitrary: crc) auto

lemma crc_bits_shift:
  "n \<le> 32 \<Longrightarrow> crc_bits crc (map (bit w) [0..<n]) = (crc_shift ^^ n) (crc XOR take_bit n w)"
proof (induction n)
  case 0
  then show ?case by simp
next
  case (Suc n)
  let ?v = "(crc_shift ^^ n) (crc XOR take_bit n w)"
  have step: "crc_bits v [b] = crc_shift (v XOR of_bool b)" for v b
  proof -
    have "drop_bit 1 (v XOR of_bool b) = drop_bit 1 v"
      by (rule bit_word_eqI) (auto simp: bit_simps)
    moreover have "bit (v XOR of_bool b) 0 \<longleftrightarrow> bit v 0 \<noteq> b"
      by (auto simp: bit_simps)
    ultimately show ?thesis by (simp only: crc_shift_bit crc_bits.simps)
  qed
  have top: "(crc_shift ^^ n) (push_bit n (of_bool (bit w n))) = of_bool (bit w n)"
  proof -
    have "(crc_shift ^^ n) (push_bit n (of_bool (bit w n)))
        = drop_bit n (push_bit n (of_bool (bit w n)) :: u32)"
      by (rule crc_shift_pow_high) (auto simp: bit_simps)
    also have "\<dots> = of_bool (bit w n)"
      using Suc.prems by (intro bit_word_eqI) (auto simp: bit_simps)
    finally show ?thesis .
  qed
  have split: "crc XOR take_bit (Suc n) w
      = (crc XOR take_bit n w) XOR push_bit n (of_bool (bit w n))"
    by (rule bit_word_eqI) (auto simp: bit_simps less_Suc_eq)
  have "crc_bits crc (map (bit w) [0..<Suc n]) = crc_bits ?v [bit w n]"
    using Suc by (simp add: crc_bits_append del: crc_bits.simps)
  also have "\<dots> = crc_shift (?v XOR of_bool (bit w n))" by (rule step)
  also have "\<dots> = crc_shift ((crc_shift ^^ n) (crc XOR take_bit (Suc n) w))"
    by (simp only: split crc_shift_pow_xor top)
  finally show ?case by simp
qed

section \<open>Injectivity of the division\<close>

lemma inj_crc_shift: "inj crc_shift"
proof (rule injI)
  fix v w assume eq: "crc_shift v = crc_shift w"
  have top: "bit (crc_shift x) 31 \<longleftrightarrow> bit x 0" for x
    by (auto simp: crc_shift_bit bit_simps)
  have low: "bit v 0 = bit w 0" using top [of v] top [of w] eq by simp
  have "drop_bit 1 v = drop_bit 1 w"
  proof -
    let ?p = "if bit w 0 then 0xedb88320 else (0 :: u32)"
    have "drop_bit 1 v XOR ?p = drop_bit 1 w XOR ?p"
      using eq low by (simp only: crc_shift_bit)
    then have "(drop_bit 1 v XOR ?p) XOR ?p = (drop_bit 1 w XOR ?p) XOR ?p" by (simp only:)
    then show ?thesis by (simp only: xor.assoc xor_self_eq xor.right_neutral)
  qed
  then have "bit v (Suc n) = bit w (Suc n)" for n
    by (metis bit_drop_bit_eq comp_apply plus_1_eq_Suc)
  with low show "v = w"
    by (intro bit_word_eqI) (metis not0_implies_Suc)
qed

lemma inj_crc_shift_pow: "inj (crc_shift ^^ n)"
proof (induction n)
  case (Suc n)
  then have "inj (crc_shift \<circ> (crc_shift ^^ n))" by (rule inj_compose [OF inj_crc_shift])
  then show ?case by (simp only: funpow.simps)
qed simp

fun le_word :: "byte list \<Rightarrow> u32" where
  "le_word [] = 0"
| "le_word (b # bs) = ucast b XOR push_bit 8 (le_word bs)"

lemma bit_le_word_ge: "8 * length bs \<le> i \<Longrightarrow> \<not> bit (le_word bs) i"
  by (induction bs arbitrary: i) (auto simp: bit_simps)

lemma crc32_raw_from_short:
  "length bs \<le> 4 \<Longrightarrow>
     crc32_raw_from crc bs = (crc_shift ^^ (8 * length bs)) (crc XOR le_word bs)"
proof (induction bs arbitrary: crc)
  case Nil
  then show ?case by simp
next
  case (Cons b bs)
  have "(crc_shift ^^ 8) (push_bit 8 (le_word bs)) = drop_bit 8 (push_bit 8 (le_word bs))"
    by (rule crc_shift_pow_high) (simp add: bit_simps)
  also have "\<dots> = le_word bs"
  proof (rule bit_word_eqI)
    fix n
    have "n < 24" if "bit (le_word bs) n"
      using Cons.prems bit_le_word_ge [of bs n] that by (cases "n < 24") auto
    then show "bit (drop_bit 8 (push_bit 8 (le_word bs))) n = bit (le_word bs) n"
      by (auto simp: bit_simps)
  qed
  finally have restore: "(crc_shift ^^ 8) (push_bit 8 (le_word bs)) = le_word bs" .
  have "crc32_raw_from crc (b # bs)
      = (crc_shift ^^ (8 * length bs)) ((crc_shift ^^ 8) (crc XOR ucast b) XOR le_word bs)"
    using Cons by (simp add: table_step)
  also have "\<dots> = (crc_shift ^^ (8 * length bs)) ((crc_shift ^^ 8) (crc XOR le_word (b # bs)))"
    by (simp only: restore crc_shift_pow_xor le_word.simps xor.assoc)
  also have "\<dots> = (crc_shift ^^ (8 * length bs + 8)) (crc XOR le_word (b # bs))"
    by (simp only: funpow_add comp_apply)
  finally show ?case by (simp only: list.size mult_Suc_right add.commute plus_1_eq_Suc) simp
qed

lemma inj_le_word: "length xs = length ys \<Longrightarrow> length xs \<le> 4 \<Longrightarrow> le_word xs = le_word ys \<Longrightarrow> xs = ys"
proof (induction xs ys rule: list_induct2)
  case (Cons x xs y ys)
  have low: "ucast (le_word (b # bs)) = b" for b bs
    by (rule bit_word_eqI) (auto simp: bit_simps)
  have high: "drop_bit 8 (le_word (b # bs)) = le_word bs" if "length bs \<le> 3" for b bs
  proof (rule bit_word_eqI)
    fix n
    have "n < 24" if "bit (le_word bs) n"
      using \<open>length bs \<le> 3\<close> bit_le_word_ge [of bs n] that by (cases "n < 24") auto
    then show "bit (drop_bit 8 (le_word (b # bs))) n = bit (le_word bs) n"
      by (auto simp: bit_simps)
  qed
  have "x = y" using low [of x xs] low [of y ys] Cons.prems(2) by simp
  moreover have "le_word xs = le_word ys"
    using high [of xs x] high [of ys y] Cons.hyps Cons.prems by (simp del: le_word.simps)
  ultimately show ?case using Cons by simp
qed simp

lemma inj_crc32_raw_from: "inj (\<lambda>crc. crc32_raw_from crc bs)"
proof (induction bs)
  case (Cons b bs)
  have "crc = crc'" if "crc32_raw_from crc (b # bs) = crc32_raw_from crc' (b # bs)" for crc crc'
  proof -
    from that have "(crc_shift ^^ 8) (crc XOR ucast b) = (crc_shift ^^ 8) (crc' XOR ucast b)"
      using injD [OF Cons.IH] by (simp add: table_step)
    then have "(crc XOR ucast b) XOR ucast b = (crc' XOR ucast b) XOR ucast b"
      using injD [OF inj_crc_shift_pow] by metis
    then show ?thesis by (simp only: xor.assoc xor_self_eq xor.right_neutral)
  qed
  then show ?case by (rule injI)
qed (simp add: inj_def)

lemma crc32_raw_from_append:
  "crc32_raw_from crc (xs @ ys) = crc32_raw_from (crc32_raw_from crc xs) ys"
  by (induction xs arbitrary: crc) auto

section \<open>Properties\<close>

text \<open>C35: The table-driven running CRC is the bit-at-a-time division of the whole message, each byte
  taken least significant bit first.\<close>

theorem crc32_raw_bitwise:
  "crc32_raw input = crc_bits 0xffffffff (concat (map lsb_bits input))"
proof -
  have "crc32_raw_from crc bs = crc_bits crc (concat (map lsb_bits bs))" for crc bs
  proof (induction bs arbitrary: crc)
    case (Cons b bs)
    have "map (bit b) [0..<8] = map (bit (ucast b :: u32)) [0..<8]"
      by (auto simp: bit_simps)
    then have "crc_bits crc (lsb_bits b) = (crc_shift ^^ 8) (crc XOR take_bit 8 (ucast b))"
      unfolding lsb_bits_def by (simp only: crc_bits_shift)
    also have "take_bit 8 (ucast b :: u32) = ucast b"
      by (rule bit_word_eqI) (auto simp: bit_simps dest: bit_imp_le_length)
    finally show ?case
      using Cons by (simp add: crc_bits_append table_step)
  qed simp
  then show ?thesis by (simp add: crc32_raw_def)
qed

text \<open>C36: A corruption confined to four consecutive bytes of a message is always detected: replacing
  them by any different bytes changes the CRC.\<close>

theorem crc32_raw_detects_bursts:
  assumes "length xs = length ys" "length xs \<le> 4" "xs \<noteq> ys"
  shows "crc32_raw (pre @ xs @ post) \<noteq> crc32_raw (pre @ ys @ post)"
proof
  let ?s = "crc32_raw_from 0xffffffff pre"
  assume "crc32_raw (pre @ xs @ post) = crc32_raw (pre @ ys @ post)"
  then have "crc32_raw_from ?s xs = crc32_raw_from ?s ys"
    using injD [OF inj_crc32_raw_from] by (simp add: crc32_raw_def crc32_raw_from_append)
  then have "(crc_shift ^^ (8 * length xs)) (?s XOR le_word xs)
           = (crc_shift ^^ (8 * length xs)) (?s XOR le_word ys)"
    using assms by (simp add: crc32_raw_from_short)
  then have "?s XOR (?s XOR le_word xs) = ?s XOR (?s XOR le_word ys)"
    using injD [OF inj_crc_shift_pow] by metis
  then have "le_word xs = le_word ys"
    by (simp only: xor.assoc [symmetric] xor_self_eq xor.left_neutral)
  with assms inj_le_word show False by blast
qed

theorem crc32_raw_detects_bursts_witness:
  "crc32_raw ([1] @ [2, 3] @ [4]) \<noteq> crc32_raw ([1] @ [2, 5] @ [4])"
  by (rule crc32_raw_detects_bursts) simp_all

end
