(* ===== verification/Interfaces.thy ===== *)
theory Interfaces
  imports Prelude
begin

text \<open>
  The contracts that several components of the repository share, as locales.
  \<^item> \<open>bit_source\<close>: an MSB-first bit reader. Implemented by the reader of the legacy
    decoders, the reader of the RAR virtual machine and the buffered reader of the RAR5 codec.
  \<^item> \<open>byte_cipher\<close>: a byte-at-a-time stream cipher whose encryption and decryption
    advance the same key state. Implemented by the RAR 1.3 and RAR 1.5 ciphers.
  \<^item> \<open>inplace_step\<close> and \<open>inplace_filter\<close>: a filter that rewrites a buffer in place,
    left to right. Implemented by the x86 and ARM address filters, in both directions.
  \<^item> \<open>lz_window\<close>: a look-behind window for literals and matches. Implemented by the ring
    buffer of the RAR5 codec and by the retained history of the legacy decoders.
\<close>

section \<open>Bit readers\<close>

text \<open>
  \<open>rest r\<close> is the unread part of the stream; \<open>width\<close> the widest read the
  reader accepts.
\<close>

locale bit_source =
  fixes rest :: "'r \<Rightarrow> bool list"
    and read :: "nat \<Rightarrow> 'r \<Rightarrow> 'e + (u32 \<times> 'r)"
    and width :: nat
    and ok :: "'r \<Rightarrow> bool"
  assumes read_enough:
      "ok r \<Longrightarrow> n \<le> width \<Longrightarrow> n \<le> length (rest r) \<Longrightarrow>
       \<exists>r'. read n r = Inr (bits_value (take n (rest r)), r') \<and> ok r' \<and> rest r' = drop n (rest r)"
    and read_short:
      "ok r \<Longrightarrow> n \<le> width \<Longrightarrow> length (rest r) < n \<Longrightarrow> \<exists>e. read n r = Inl e"
begin

lemma read_InrD:
  assumes "ok r" "n \<le> width" "read n r = Inr (v, r')"
  shows "n \<le> length (rest r) \<and> v = bits_value (take n (rest r)) \<and> ok r' \<and> rest r' = drop n (rest r)"
proof (cases "n \<le> length (rest r)")
  case True
  with read_enough [OF assms(1,2)] assms(3) show ?thesis by auto
next
  case False
  with read_short [OF assms(1,2)] assms(3) show ?thesis by auto
qed

lemma read_value_bound:
  assumes "ok r" "n \<le> width" "n \<le> 32" "read n r = Inr (v, r')"
  shows "unat v < 2 ^ n"
proof -
  have "v = bits_value (take n (rest r))" and "length (take n (rest r)) \<le> LENGTH(32)"
    using read_InrD [OF assms(1,2,4)] assms(3) by auto
  then have "unat v < 2 ^ length (take n (rest r))"
    by (metis unat_bits_value_less)
  also have "\<dots> \<le> 2 ^ n" by simp
  finally show ?thesis .
qed

text \<open>Two reads in a row are one read of the concatenated field.\<close>

lemma read_read:
  assumes "ok r" "n \<le> width" "m \<le> width" "n + m \<le> length (rest r)"
  shows "\<exists>a b r1 r2. read n r = Inr (a, r1) \<and> read m r1 = Inr (b, r2) \<and> ok r2 \<and>
           rest r2 = drop (n + m) (rest r) \<and>
           push_bit m a OR b = bits_value (take (n + m) (rest r))"
proof -
  obtain r1 where r1: "read n r = Inr (bits_value (take n (rest r)), r1)" "ok r1"
      "rest r1 = drop n (rest r)"
    using read_enough [OF assms(1,2)] assms(4) by auto
  obtain r2 where r2: "read m r1 = Inr (bits_value (take m (rest r1)), r2)" "ok r2"
      "rest r2 = drop m (rest r1)"
    using read_enough [OF r1(2) assms(3)] assms(4) r1(3) by (auto simp: le_diff_conv2)
  have "take (n + m) (rest r) = take n (rest r) @ take m (rest r1)"
    by (simp add: r1(3) take_add)
  moreover have "length (take m (rest r1)) = m" using assms(4) r1(3) by simp
  ultimately have "push_bit m (bits_value (take n (rest r))) OR bits_value (take m (rest r1)) =
      (bits_value (take (n + m) (rest r)) :: u32)"
    by (simp only: bits_value_append)
  with r1 r2 show ?thesis by (auto simp: add.commute)
qed

end

text \<open>
  The variable-length integer of the virtual machine records as a function of the bits it stands
  in: a two-bit tag, then 4, 8 or 12, 16 or 32 bits. The result is the value and the number of
  bits used. The legacy decoders and the virtual machine each have a reader for it.
\<close>

definition vm_number_field :: "bool list \<Rightarrow> nat \<Rightarrow> (u32 \<times> nat) option" where
  "vm_number_field bs n =
     (if 2 + n \<le> length bs then Some (bits_value (take n (drop 2 bs)), 2 + n) else None)"

definition vm_number_bits :: "bool list \<Rightarrow> (u32 \<times> nat) option" where
  "vm_number_bits bs =
     (let tag = (bits_value (take 2 bs) :: u32); high = (bits_value (take 8 (drop 2 bs)) :: u32) in
      if length bs < 2 then None
      else if tag = 0 then vm_number_field bs 4
      else if tag = 1 then
        (if length bs < 10 then None
         else if 16 \<le> high then Some (high, 10)
         else if length bs < 14 then None
         else Some (0xffffff00 OR push_bit 4 high OR bits_value (take 4 (drop 10 bs)), 14))
      else if tag = 2 then vm_number_field bs 16
      else vm_number_field bs 32)"

section \<open>Byte ciphers\<close>

text \<open>
  \<open>enc k b\<close> and \<open>dec k b\<close> return the byte and the next key. The two directions
  invert each other on every key and leave the same key behind.
\<close>

locale byte_cipher =
  fixes enc :: "'k \<Rightarrow> byte \<Rightarrow> byte \<times> 'k"
    and dec :: "'k \<Rightarrow> byte \<Rightarrow> byte \<times> 'k"
  assumes dec_enc: "dec k (fst (enc k b)) = (b, snd (enc k b))"
    and enc_dec: "enc k (fst (dec k b)) = (b, snd (dec k b))"

text \<open>Running a byte step over a buffer, in place and in order.\<close>

fun run_bytes :: "('k \<Rightarrow> byte \<Rightarrow> byte \<times> 'k) \<Rightarrow> 'k \<Rightarrow> byte list \<Rightarrow> byte list \<times> 'k" where
  "run_bytes f k [] = ([], k)"
| "run_bytes f k (b # bs) =
     (let (b', k') = f k b; (bs', k'') = run_bytes f k' bs in (b' # bs', k''))"

lemma length_run_bytes [simp]: "length (fst (run_bytes f k bs)) = length bs"
  by (induction bs arbitrary: k) (auto simp: split_beta Let_def)

lemma run_bytes_append:
  "run_bytes f k (xs @ ys) =
     (let (xs', k') = run_bytes f k xs; (ys', k'') = run_bytes f k' ys in (xs' @ ys', k''))"
  by (induction xs arbitrary: k) (auto simp: split_beta Let_def)

context byte_cipher
begin

lemma buffer_roundtrip:
  "run_bytes dec k (fst (run_bytes enc k bs)) = (bs, snd (run_bytes enc k bs))"
proof (induction bs arbitrary: k)
  case Nil
  then show ?case by simp
next
  case (Cons b bs)
  then show ?case by (auto simp: split_beta Let_def dec_enc)
qed

lemma buffer_roundtrip':
  "run_bytes enc k (fst (run_bytes dec k bs)) = (bs, snd (run_bytes dec k bs))"
proof (induction bs arbitrary: k)
  case Nil
  then show ?case by simp
next
  case (Cons b bs)
  then show ?case by (auto simp: split_beta Let_def enc_dec)
qed

lemma buffer_injective:
  "fst (run_bytes enc k xs) = fst (run_bytes enc k ys) \<Longrightarrow> xs = ys"
  by (metis buffer_roundtrip fst_conv)

end

section \<open>In-place filters\<close>

text \<open>
  One step looks at the buffer from position \<open>i\<close>, may rewrite it up to the position it
  returns, and continues there; \<open>lim n\<close> is where the scan of \<open>n\<close> bytes stops. What a
  step does depends only on the bytes it covers.
\<close>

function filter_loop :: "(nat \<Rightarrow> nat) \<Rightarrow> (nat \<Rightarrow> byte list \<Rightarrow> nat \<times> byte list) \<Rightarrow> nat \<Rightarrow> byte list \<Rightarrow> byte list" where
  "filter_loop lim step i d =
     (if i < lim (length d) \<and> i < fst (step i d) \<and> length (snd (step i d)) = length d
      then filter_loop lim step (fst (step i d)) (snd (step i d)) else d)"
  by pat_completeness auto
termination
  by (relation "measure (\<lambda>(lim, step, i, d). lim (length d) - i)") (auto split: prod.split)

declare filter_loop.simps [simp del]

locale inplace_step =
  fixes lim :: "nat \<Rightarrow> nat"
    and step :: "nat \<Rightarrow> byte list \<Rightarrow> nat \<times> byte list"
  assumes progress: "i < lim (length d) \<Longrightarrow> i < fst (step i d) \<and> length (snd (step i d)) = length d"
    and outside: "i < lim (length d) \<Longrightarrow> k < i \<or> fst (step i d) \<le> k \<Longrightarrow> snd (step i d) ! k = d ! k"
    and depends:
      "i < lim (length d) \<Longrightarrow> length d' = length d \<Longrightarrow>
       (\<And>k. i \<le> k \<Longrightarrow> k < fst (step i d) \<Longrightarrow> d' ! k = d ! k) \<Longrightarrow>
       fst (step i d') = fst (step i d) \<and>
       (\<forall>k. i \<le> k \<and> k < fst (step i d) \<longrightarrow> snd (step i d') ! k = snd (step i d) ! k)"
begin

lemma loop_step:
  "i < lim (length d) \<Longrightarrow>
     filter_loop lim step i d = filter_loop lim step (fst (step i d)) (snd (step i d))"
  using progress [of i d] by (simp add: filter_loop.simps [of lim step i d])

lemma loop_end: "\<not> i < lim (length d) \<Longrightarrow> filter_loop lim step i d = d"
  by (simp add: filter_loop.simps)

lemma loop_frame:
  "length (filter_loop lim step i d) = length d \<and> (\<forall>k<i. filter_loop lim step i d ! k = d ! k)"
proof (induction "lim (length d) - i" arbitrary: i d rule: less_induct)
  case less
  show ?case
  proof (cases "i < lim (length d)")
    case False
    then show ?thesis by (simp add: loop_end)
  next
    case True
    note p = progress [OF True]
    then have "lim (length (snd (step i d))) - fst (step i d) < lim (length d) - i"
      using True by (auto intro: diff_less_mono2)
    from less.hyps [OF this] p True have "length (filter_loop lim step i d) = length d"
      and "\<forall>k<fst (step i d). filter_loop lim step i d ! k = snd (step i d) ! k"
      by (simp_all add: loop_step)
    moreover have "k < fst (step i d) \<and> snd (step i d) ! k = d ! k" if "k < i" for k
      using outside [OF True, of k] p that by simp
    ultimately show ?thesis by simp
  qed
qed

text \<open>The loop from \<open>i\<close> only looks at the bytes from \<open>i\<close> on.\<close>

lemma loop_depends:
  assumes "length d' = length d" "\<And>k. i \<le> k \<Longrightarrow> k < length d \<Longrightarrow> d' ! k = d ! k"
    and "i \<le> k" "k < length d" "\<And>j. j < lim (length d) \<Longrightarrow> fst (step j d) \<le> length d"
    and "\<And>j e. length e = length d \<Longrightarrow> j < lim (length d) \<Longrightarrow> fst (step j e) \<le> length d"
  shows "filter_loop lim step i d' ! k = filter_loop lim step i d ! k"
  using assms
proof (induction "lim (length d) - i" arbitrary: i d d' rule: less_induct)
  case less
  show ?case
  proof (cases "i < lim (length d)")
    case False
    then show ?thesis using less.prems by (simp add: loop_end)
  next
    case True
    note p = progress [OF True]
    have True': "i < lim (length d')" using True less.prems(1) by simp
    note p' = progress [OF True']
    have le: "fst (step i d) \<le> length d" by (rule less.prems(5) [OF True])
    have dep: "fst (step i d') = fst (step i d)"
      "\<And>k. i \<le> k \<Longrightarrow> k < fst (step i d) \<Longrightarrow> snd (step i d') ! k = snd (step i d) ! k"
      using depends [OF True less.prems(1)] less.prems(2) le by auto
    have same: "snd (step i d') ! k = snd (step i d) ! k" if "i \<le> k" "k < length d" for k
    proof (cases "k < fst (step i d)")
      case True
      then show ?thesis using dep(2) that by blast
    next
      case False
      then show ?thesis
        using outside [OF True, of k] outside [OF True', of k] dep(1) less.prems(2) that by simp
    qed
    show ?thesis
    proof (cases "k < fst (step i d)")
      case True
      have "filter_loop lim step i d' ! k = snd (step i d') ! k"
        using loop_frame [of "fst (step i d')" "snd (step i d')"] loop_step [OF True'] dep(1) True by simp
      moreover have "filter_loop lim step i d ! k = snd (step i d) ! k"
        using loop_frame [of "fst (step i d)" "snd (step i d)"] loop_step [OF \<open>i < lim (length d)\<close>] True
        by simp
      ultimately show ?thesis using same less.prems(3,4) by simp
    next
      case False
      have "filter_loop lim step (fst (step i d)) (snd (step i d')) ! k =
          filter_loop lim step (fst (step i d)) (snd (step i d)) ! k"
        using less.hyps [of "snd (step i d)" "fst (step i d)" "snd (step i d')"]
          diff_less_mono2 [of i "fst (step i d)" "lim (length d)"] True p p' False same less.prems(1,4,6) p(1)
        by (simp add: less_imp_le)
      then show ?thesis
        using loop_step [OF True] loop_step [OF True'] dep(1) by simp
    qed
  qed
qed

end

text \<open>Two such passes, the second undoing each step of the first.\<close>

locale inplace_filter =
  enc: inplace_step lim enc + dec: inplace_step lim dec
  for lim :: "nat \<Rightarrow> nat"
    and enc :: "nat \<Rightarrow> byte list \<Rightarrow> nat \<times> byte list"
    and dec :: "nat \<Rightarrow> byte list \<Rightarrow> nat \<times> byte list" +
  assumes within: "i < lim (length d) \<Longrightarrow> fst (enc i d) \<le> length d \<and> fst (dec i d) \<le> length d"
    and dec_enc: "i < lim (length d) \<Longrightarrow> dec i (snd (enc i d)) = (fst (enc i d), d)"
begin

lemma roundtrip: "filter_loop lim dec i (filter_loop lim enc i d) = d"
proof (induction "lim (length d) - i" arbitrary: i d rule: less_induct)
  case less
  show ?case
  proof (cases "i < lim (length d)")
    case False
    then show ?thesis by (simp add: enc.loop_end dec.loop_end)
  next
    case True
    let ?j = "fst (enc i d)" and ?e = "snd (enc i d)"
    note p = enc.progress [OF True]
    let ?R = "filter_loop lim enc ?j ?e"
    have R: "filter_loop lim enc i d = ?R" by (rule enc.loop_step [OF True])
    have IH: "filter_loop lim dec ?j ?R = ?e" using less.hyps [of ?e ?j] diff_less_mono2 [of i ?j "lim (length d)"] True p by simp
    have frame: "length ?R = length d" "\<And>k. k < ?j \<Longrightarrow> ?R ! k = ?e ! k"
      using enc.loop_frame [of ?j ?e] p by auto
    have True_e: "i < lim (length ?e)" and True_R: "i < lim (length ?R)" using True p frame by simp_all
    have de: "dec i ?e = (?j, d)" by (rule dec_enc [OF True])
    have dep: "fst (dec i ?R) = ?j" "\<And>k. i \<le> k \<Longrightarrow> k < ?j \<Longrightarrow> snd (dec i ?R) ! k = d ! k"
      using dec.depends [OF True_e, of ?R] frame p de by auto
    let ?D = "snd (dec i ?R)"
    have lenD: "length ?D = length d" using dec.progress [OF True_R] frame by simp
    have low: "?D ! k = d ! k" if "k < ?j" for k
    proof (cases "i \<le> k")
      case True
      then show ?thesis using dep(2) that by blast
    next
      case False
      then show ?thesis
        using dec.outside [OF True_R, of k] frame(2) [OF that] enc.outside [OF True, of k] by simp
    qed
    have high: "?D ! k = ?R ! k" if "?j \<le> k" for k
      using dec.outside [OF True_R, of k] dep(1) that by simp
    have wd: "fst (dec j e) \<le> length d" if "length e = length d" "j < lim (length d)" for j e
      using within [of j e] that by simp
    have "filter_loop lim dec i ?R = filter_loop lim dec ?j ?D"
      using dec.loop_step [OF True_R] dep(1) by simp
    also have "\<dots> = d"
    proof (rule nth_equalityI)
      show "length (filter_loop lim dec ?j ?D) = length d" using dec.loop_frame [of ?j ?D] lenD by simp
      fix k assume "k < length (filter_loop lim dec ?j ?D)"
      then have k: "k < length d" using dec.loop_frame [of ?j ?D] lenD by simp
      show "filter_loop lim dec ?j ?D ! k = d ! k"
      proof (cases "k < ?j")
        case True
        then show ?thesis using dec.loop_frame [of ?j ?D] low by simp
      next
        case False
        have "filter_loop lim dec ?j ?D ! k = filter_loop lim dec ?j ?R ! k"
          using False k frame lenD high wd
          by (intro dec.loop_depends) simp_all
        also have "\<dots> = ?e ! k" by (simp only: IH)
        also have "\<dots> = d ! k" using enc.outside [OF True, of k] False by simp
        finally show ?thesis .
      qed
    qed
    finally show ?thesis by (simp only: R)
  qed
qed

end

section \<open>Look-behind windows\<close>

text \<open>
  The LZ77 meaning of a match: append, one at a time, the element \<open>d\<close> back from the end.
  The stream grows while it is copied, so \<open>d < n\<close> repeats with period \<open>d\<close>.
\<close>

fun lz_extend :: "nat \<Rightarrow> nat \<Rightarrow> 'a list \<Rightarrow> 'a list" where
  "lz_extend 0 d xs = xs"
| "lz_extend (Suc n) d xs = lz_extend n d (xs @ [xs ! (length xs - d)])"

lemma length_lz_extend [simp]: "length (lz_extend n d xs) = length xs + n"
  by (induction n arbitrary: xs) auto

lemma lz_extend_add: "lz_extend (m + n) d xs = lz_extend n d (lz_extend m d xs)"
  by (induction m arbitrary: xs) auto

lemma lz_extend_prefix: "i < length xs \<Longrightarrow> lz_extend n d xs ! i = xs ! i"
  by (induction n arbitrary: xs) (auto simp: nth_append)

lemma take_lz_extend [simp]: "take (length xs) (lz_extend n d xs) = xs"
  by (rule nth_equalityI) (auto simp: lz_extend_prefix)

lemma nth_lz_extend:
  assumes "0 < d" "d \<le> length xs" "i < n"
  shows "lz_extend n d xs ! (length xs + i) = lz_extend n d xs ! (length xs + i - d)"
  using assms
proof (induction n arbitrary: xs i)
  case 0
  then show ?case by simp
next
  case (Suc n)
  let ?ys = "xs @ [xs ! (length xs - d)]"
  show ?case
  proof (cases i)
    case 0
    have "lz_extend n d ?ys ! length xs = ?ys ! length xs"
      by (rule lz_extend_prefix) simp
    moreover have "lz_extend n d ?ys ! (length xs - d) = ?ys ! (length xs - d)"
      by (rule lz_extend_prefix) simp
    ultimately show ?thesis using 0 Suc.prems by (simp add: nth_append)
  next
    case (Suc j)
    with Suc.prems Suc.IH [of ?ys j] show ?thesis by simp
  qed
qed

datatype lz_token = Literal byte | Match nat nat

text \<open>The reference expansion of a token sequence (\<open>Match d n\<close>: distance, length).\<close>

fun lz_expand :: "byte list \<Rightarrow> lz_token list \<Rightarrow> byte list" where
  "lz_expand s [] = s"
| "lz_expand s (Literal b # ts) = lz_expand (s @ [b]) ts"
| "lz_expand s (Match d n # ts) = lz_expand (lz_extend n d s) ts"

fun lz_tokens_fit :: "nat \<Rightarrow> nat \<Rightarrow> lz_token list \<Rightarrow> bool" where
  "lz_tokens_fit reach len [] = True"
| "lz_tokens_fit reach len (Literal b # ts) = lz_tokens_fit reach (Suc len) ts"
| "lz_tokens_fit reach len (Match d n # ts) =
     (0 < d \<and> d \<le> len \<and> d \<le> reach \<and> n \<le> reach \<and> lz_tokens_fit reach (len + n) ts)"

text \<open>The same sequence, run through the operations of a window.\<close>

fun replay ::
  "(byte \<Rightarrow> 'w \<Rightarrow> 'w) \<Rightarrow> (nat \<Rightarrow> nat \<Rightarrow> 'w \<Rightarrow> 'w) \<Rightarrow> lz_token list \<Rightarrow> 'w \<Rightarrow> 'w" where
  "replay put copy [] w = w"
| "replay put copy (Literal b # ts) w = replay put copy ts (put b w)"
| "replay put copy (Match d n # ts) w = replay put copy ts (copy d n w)"

text \<open>
  \<open>holds w s\<close>: the window \<open>w\<close> has received the stream \<open>s\<close>. A match may
  reach at most \<open>reach w\<close> bytes back, and neither operation changes that.
\<close>

locale lz_window =
  fixes holds :: "'w \<Rightarrow> byte list \<Rightarrow> bool"
    and put :: "byte \<Rightarrow> 'w \<Rightarrow> 'w"
    and copy :: "nat \<Rightarrow> nat \<Rightarrow> 'w \<Rightarrow> 'w"
    and reach :: "'w \<Rightarrow> nat"
  assumes put_holds: "holds w s \<Longrightarrow> holds (put b w) (s @ [b]) \<and> reach (put b w) = reach w"
    and copy_holds:
      "holds w s \<Longrightarrow> 0 < d \<Longrightarrow> d \<le> length s \<Longrightarrow> d \<le> reach w \<Longrightarrow> n \<le> reach w \<Longrightarrow>
       holds (copy d n w) (lz_extend n d s) \<and> reach (copy d n w) = reach w"
begin

lemma replay_holds:
  "holds w s \<Longrightarrow> lz_tokens_fit (reach w) (length s) ts \<Longrightarrow>
     holds (replay put copy ts w) (lz_expand s ts) \<and> reach (replay put copy ts w) = reach w"
proof (induction ts arbitrary: w s)
  case Nil
  then show ?case by simp
next
  case (Cons t ts)
  show ?case
  proof (cases t)
    case (Literal b)
    with Cons put_holds [of w s b] show ?thesis by auto
  next
    case (Match d n)
    with Cons copy_holds [of w s d n] show ?thesis by auto
  qed
qed

end

end
