(* ===== verification/LegacyCiphers.thy ===== *)
theory LegacyCiphers
  imports Interfaces Crc32
begin

text \<open>
  Password clamping (\<^verbatim>\<open>crates/rar/src/crypto/mod.rs\<close>) and the two byte-at-a-time ciphers of
  the oldest formats: RAR 1.3/1.4 (\<^verbatim>\<open>crypto/rar13.rs\<close>) and RAR 1.5
  (\<^verbatim>\<open>crypto/rar15.rs\<close>). Both are interpretations of \<open>byte_cipher\<close>, from which the
  buffer round trips follow.
\<close>

section \<open>Password clamping\<close>

text \<open>
  The length in bytes of the first scalar of a byte string, by the table of well-formed UTF-8
  that \<open>std::str::from_utf8\<close> checks; \<open>None\<close> when the string does not start with one.
\<close>

definition cont_byte :: "byte \<Rightarrow> bool" where
  "cont_byte b = (0x80 \<le> b \<and> b \<le> 0xBF)"

definition lead2 :: "byte \<Rightarrow> byte \<Rightarrow> bool" where
  "lead2 a b = (0xC2 \<le> a \<and> a \<le> 0xDF \<and> cont_byte b)"

definition lead3 :: "byte \<Rightarrow> byte \<Rightarrow> bool" where
  "lead3 a b =
     (a = 0xE0 \<and> 0xA0 \<le> b \<and> b \<le> 0xBF \<or>
      (0xE1 \<le> a \<and> a \<le> 0xEC \<or> 0xEE \<le> a \<and> a \<le> 0xEF) \<and> cont_byte b \<or>
      a = 0xED \<and> 0x80 \<le> b \<and> b \<le> 0x9F)"

definition lead4 :: "byte \<Rightarrow> byte \<Rightarrow> bool" where
  "lead4 a b =
     (a = 0xF0 \<and> 0x90 \<le> b \<and> b \<le> 0xBF \<or>
      0xF1 \<le> a \<and> a \<le> 0xF3 \<and> cont_byte b \<or>
      a = 0xF4 \<and> 0x80 \<le> b \<and> b \<le> 0x8F)"

definition utf8_scalar_len :: "byte list \<Rightarrow> nat option" where
  "utf8_scalar_len bs =
     (if 1 \<le> length bs \<and> bs ! 0 \<le> 0x7F then Some 1
      else if 2 \<le> length bs \<and> lead2 (bs ! 0) (bs ! 1) then Some 2
      else if 3 \<le> length bs \<and> lead3 (bs ! 0) (bs ! 1) \<and> cont_byte (bs ! 2) then Some 3
      else if 4 \<le> length bs \<and> lead4 (bs ! 0) (bs ! 1) \<and> cont_byte (bs ! 2) \<and> cont_byte (bs ! 3)
      then Some 4 else None)"

lemma utf8_scalar_len_bounds:
  "utf8_scalar_len bs = Some n \<Longrightarrow> 0 < n \<and> n \<le> length bs"
  by (auto simp: utf8_scalar_len_def split: if_splits)

lemma utf8_scalar_len_take:
  "utf8_scalar_len bs = Some n \<Longrightarrow> n \<le> m \<Longrightarrow> utf8_scalar_len (take m bs) = Some n"
  by (auto simp: utf8_scalar_len_def split: if_splits)

text \<open>\<open>text.char_indices()\<close>: the byte offset of every scalar, \<open>None\<close> for invalid UTF-8.\<close>

function char_offsets :: "nat \<Rightarrow> byte list \<Rightarrow> nat list option" where
  "char_offsets off bs =
     (if bs = [] then Some []
      else case utf8_scalar_len bs of
        None \<Rightarrow> None
      | Some n \<Rightarrow> map_option ((#) off) (char_offsets (off + n) (drop n bs)))"
  by pat_completeness auto
termination
  by (relation "measure (\<lambda>(off, bs). length bs)") (auto dest: utf8_scalar_len_bounds)

declare char_offsets.simps [simp del]

definition MAX_PASSWORD_CHARS :: nat where
  "MAX_PASSWORD_CHARS = 127"

definition clamp_password :: "byte list \<Rightarrow> byte list" where
  "clamp_password password =
     (case char_offsets 0 password of
        Some offs \<Rightarrow>
          (case get offs MAX_PASSWORD_CHARS of
             Some byte_offset \<Rightarrow> take byte_offset password
           | None \<Rightarrow> password)
      | None \<Rightarrow> take (min (length password) MAX_PASSWORD_CHARS) password)"

lemma char_offsets_Some_cases:
  assumes "char_offsets off bs = Some offs"
  obtains "bs = []" "offs = []"
  | n offs' where "bs \<noteq> []" "utf8_scalar_len bs = Some n" "0 < n" "n \<le> length bs"
      "char_offsets (off + n) (drop n bs) = Some offs'" "offs = off # offs'"
proof (cases "bs = []")
  case True
  with assms that(1) show ?thesis by (simp add: char_offsets.simps)
next
  case False
  with assms obtain n where n: "utf8_scalar_len bs = Some n"
    by (subst (asm) char_offsets.simps) (auto split: option.splits)
  with assms False obtain offs' where "char_offsets (off + n) (drop n bs) = Some offs'"
      "offs = off # offs'"
    by (subst (asm) char_offsets.simps) auto
  with False n utf8_scalar_len_bounds [OF n] that(2) show ?thesis by blast
qed

lemma length_char_offsets: "char_offsets off bs = Some offs \<Longrightarrow> length offs \<le> length bs"
proof (induction off bs arbitrary: offs rule: char_offsets.induct)
  case (1 off bs)
  from "1.prems" show ?case
  proof (cases rule: char_offsets_Some_cases)
    case (2 n offs')
    with "1.IH" [OF 2(1,2,5)] show ?thesis by simp
  qed simp
qed

text \<open>Cutting at a scalar boundary leaves exactly the scalars before it.\<close>

lemma char_offsets_cut:
  "char_offsets off bs = Some offs \<Longrightarrow> k < length offs \<Longrightarrow>
     off \<le> offs ! k \<and> offs ! k - off \<le> length bs \<and>
     char_offsets off (take (offs ! k - off) bs) = Some (take k offs)"
proof (induction off bs arbitrary: offs k rule: char_offsets.induct)
  case (1 off bs)
  from "1.prems"(1) obtain n offs' where ne: "bs \<noteq> []" and n: "utf8_scalar_len bs = Some n"
      and nb: "0 < n" "n \<le> length bs" and offs': "char_offsets (off + n) (drop n bs) = Some offs'"
      and offs: "offs = off # offs'"
    by (cases rule: char_offsets_Some_cases) (use "1.prems"(2) in auto)
  show ?case
  proof (cases k)
    case 0
    with offs show ?thesis by (simp add: char_offsets.simps)
  next
    case (Suc j)
    let ?o = "offs' ! j"
    have IH: "off + n \<le> ?o \<and> ?o - (off + n) \<le> length (drop n bs) \<and>
        char_offsets (off + n) (take (?o - (off + n)) (drop n bs)) = Some (take j offs')"
      using "1.IH" [OF ne n offs'] "1.prems"(2) offs Suc by simp
    let ?cut = "take (?o - off) bs"
    from IH nb have le: "n \<le> ?o - off" and fit: "?o - off \<le> length bs" by auto
    then have "?cut \<noteq> []" using nb ne by auto
    moreover have "utf8_scalar_len ?cut = Some n" by (rule utf8_scalar_len_take [OF n le])
    moreover have "drop n ?cut = take (?o - (off + n)) (drop n bs)" by (simp add: drop_take)
    ultimately have "char_offsets off ?cut = Some (take k offs)"
      using IH offs Suc by (subst char_offsets.simps) simp
    with IH fit offs Suc show ?thesis by simp
  qed
qed

text \<open>A clamped password is a prefix of the given one, holds at most 127 characters (scalars when
  it is UTF-8, bytes otherwise), and clamping it again changes nothing.\<close>

theorem clamp_password_prefix:
  "\<exists>rest. password = clamp_password password @ rest \<and>
     clamp_password (clamp_password password) = clamp_password password \<and>
     (case char_offsets 0 (clamp_password password) of
        Some offs \<Rightarrow> length offs \<le> 127
      | None \<Rightarrow> length (clamp_password password) \<le> 127)"
proof -
  let ?c = "clamp_password password"
  have pre: "\<exists>rest. password = ?c @ rest"
    unfolding clamp_password_def
    by (auto split: option.splits simp: get_def) (metis append_take_drop_id)+
  have small: "case char_offsets 0 ?c of Some offs \<Rightarrow> length offs \<le> 127 | None \<Rightarrow> length ?c \<le> 127"
  proof (cases "char_offsets 0 password")
    case None
    then have "length ?c \<le> 127" by (simp add: clamp_password_def MAX_PASSWORD_CHARS_def)
    then show ?thesis
      using length_char_offsets [of 0 ?c] by (auto split: option.splits)
  next
    case (Some offs)
    show ?thesis
    proof (cases "127 < length offs")
      case True
      then show ?thesis
        using Some char_offsets_cut [OF Some True]
        by (simp add: clamp_password_def MAX_PASSWORD_CHARS_def get_def)
    next
      case False
      then show ?thesis
        using Some by (simp add: clamp_password_def MAX_PASSWORD_CHARS_def get_def)
    qed
  qed
  have "clamp_password ?c = ?c"
    using small by (auto simp: clamp_password_def [of ?c] MAX_PASSWORD_CHARS_def get_def
        split: option.splits)
  with pre small show ?thesis by blast
qed

section \<open>RAR 1.3/1.4\<close>

record rar13_cipher =
  r13_key0 :: byte
  r13_key1 :: byte
  r13_key2 :: byte

definition rar13_fold :: "byte \<Rightarrow> rar13_cipher \<Rightarrow> rar13_cipher" where
  "rar13_fold b k =
     \<lparr>r13_key0 = r13_key0 k + b, r13_key1 = r13_key1 k XOR b,
      r13_key2 = word_rotl 1 (r13_key2 k + b)\<rparr>"

definition rar13_new :: "byte list \<Rightarrow> rar13_cipher" where
  "rar13_new password =
     fold rar13_fold (clamp_password password) \<lparr>r13_key0 = 0, r13_key1 = 0, r13_key2 = 0\<rparr>"

definition rar13_new_comment :: rar13_cipher where
  "rar13_new_comment = \<lparr>r13_key0 = 0, r13_key1 = 7, r13_key2 = 77\<rparr>"

definition rar13_advance :: "rar13_cipher \<Rightarrow> rar13_cipher" where
  "rar13_advance k =
     (let k = k\<lparr>r13_key1 := r13_key1 k + r13_key2 k\<rparr> in
      k\<lparr>r13_key0 := r13_key0 k + r13_key1 k\<rparr>)"

definition rar13_decrypt_byte :: "rar13_cipher \<Rightarrow> byte \<Rightarrow> byte \<times> rar13_cipher" where
  "rar13_decrypt_byte k b = (let k' = rar13_advance k in (b - r13_key0 k', k'))"

definition rar13_encrypt_byte :: "rar13_cipher \<Rightarrow> byte \<Rightarrow> byte \<times> rar13_cipher" where
  "rar13_encrypt_byte k b = (let k' = rar13_advance k in (b + r13_key0 k', k'))"

text \<open>The whole-buffer operations consume the cipher, so only the buffer is returned.\<close>

definition rar13_decrypt_in_place :: "rar13_cipher \<Rightarrow> byte list \<Rightarrow> byte list" where
  "rar13_decrypt_in_place k data = fst (run_bytes rar13_decrypt_byte k data)"

definition rar13_encrypt_in_place :: "rar13_cipher \<Rightarrow> byte list \<Rightarrow> byte list" where
  "rar13_encrypt_in_place k data = fst (run_bytes rar13_encrypt_byte k data)"

interpretation rar13: byte_cipher rar13_encrypt_byte rar13_decrypt_byte
  by unfold_locales (simp_all add: rar13_encrypt_byte_def rar13_decrypt_byte_def Let_def)

section \<open>RAR 1.5\<close>

record rar15_cipher =
  r15_key0 :: u16
  r15_key1 :: u16
  r15_key2 :: u16
  r15_key3 :: u16

definition rar15_fold :: "byte \<Rightarrow> rar15_cipher \<Rightarrow> rar15_cipher" where
  "rar15_fold b k =
     (let crc = table_entry b in
      k\<lparr>r15_key2 := r15_key2 k XOR (ucast b XOR ucast crc),
        r15_key3 := r15_key3 k + (ucast b + ucast (drop_bit 16 crc))\<rparr>)"

text \<open>The password is a C string: only the bytes before the first NUL count.\<close>

definition rar15_new :: "byte list \<Rightarrow> rar15_cipher" where
  "rar15_new password =
     (let password = takeWhile (\<lambda>b. b \<noteq> 0) (clamp_password password);
          crc = crc32_raw password in
      fold rar15_fold password
        \<lparr>r15_key0 = ucast (crc AND 0xffff), r15_key1 = ucast (drop_bit 16 crc),
         r15_key2 = 0, r15_key3 = 0\<rparr>)"

definition rar15_next_mask :: "rar15_cipher \<Rightarrow> byte \<times> rar15_cipher" where
  "rar15_next_mask k =
     (let k0 = r15_key0 k + 0x1234;
          crc = table_entry (ucast (drop_bit 1 (k0 AND 0x01fe)));
          k1 = r15_key1 k XOR ucast crc;
          k2 = r15_key2 k - ucast (drop_bit 16 crc);
          k0 = k0 XOR k2;
          k3 = word_rotr 1 (r15_key3 k) XOR k1;
          k3 = word_rotr 1 k3;
          k0 = k0 XOR k3
      in (ucast (drop_bit 8 k0),
          \<lparr>r15_key0 = k0, r15_key1 = k1, r15_key2 = k2, r15_key3 = k3\<rparr>))"

definition rar15_crypt_byte :: "rar15_cipher \<Rightarrow> byte \<Rightarrow> byte \<times> rar15_cipher" where
  "rar15_crypt_byte k b = (let (mask, k') = rar15_next_mask k in (b XOR mask, k'))"

definition rar15_crypt_in_place :: "rar15_cipher \<Rightarrow> byte list \<Rightarrow> byte list \<times> rar15_cipher" where
  "rar15_crypt_in_place k data = run_bytes rar15_crypt_byte k data"

fun rar15_skip :: "rar15_cipher \<Rightarrow> nat \<Rightarrow> rar15_cipher" where
  "rar15_skip k 0 = k"
| "rar15_skip k (Suc n) = rar15_skip (snd (rar15_next_mask k)) n"

interpretation rar15: byte_cipher rar15_crypt_byte rar15_crypt_byte
  by unfold_locales (simp_all add: rar15_crypt_byte_def split_beta xor.assoc)

lemma rar15_skip_run: "snd (run_bytes rar15_crypt_byte k data) = rar15_skip k (length data)"
  by (induction data arbitrary: k) (simp_all add: rar15_crypt_byte_def split_beta Let_def)

section \<open>Properties\<close>

text \<open>C37: A RAR 1.3/1.4 buffer encrypted with a member password decrypts to itself under the same
  password, in both directions.\<close>

theorem rar13_roundtrip:
  "rar13_decrypt_in_place (rar13_new password) (rar13_encrypt_in_place (rar13_new password) data) = data \<and>
   rar13_encrypt_in_place (rar13_new password) (rar13_decrypt_in_place (rar13_new password) data) = data"
  by (simp add: rar13_encrypt_in_place_def rar13_decrypt_in_place_def
      rar13.buffer_roundtrip rar13.buffer_roundtrip')

text \<open>RAR 1.5: applying the keystream twice restores the buffer, and a range of a member's
  ciphertext can be produced on its own: skipping to the range and crypting it gives the same
  bytes and the same final key as crypting everything from the start.\<close>

theorem rar15_crypt_ranges:
  "fst (rar15_crypt_in_place k (fst (rar15_crypt_in_place k data))) = data \<and>
   rar15_crypt_in_place k (xs @ ys) =
     (fst (rar15_crypt_in_place k xs) @ fst (rar15_crypt_in_place (rar15_skip k (length xs)) ys),
      snd (rar15_crypt_in_place (rar15_skip k (length xs)) ys))"
proof -
  have "snd (run_bytes rar15_crypt_byte k xs) = rar15_skip k (length xs)"
    by (rule rar15_skip_run)
  then show ?thesis
    by (simp add: rar15_crypt_in_place_def rar15.buffer_roundtrip run_bytes_append split_beta Let_def)
qed

text \<open>Only the part of a RAR 1.5 password before its first NUL byte matters, as long as the
  password is short enough not to be clamped.\<close>

theorem rar15_password_is_c_string:
  assumes "clamp_password (p @ 0 # q) = p @ 0 # q" "clamp_password p = p" "0 \<notin> set p"
  shows "rar15_new (p @ 0 # q) = rar15_new p"
proof -
  have "takeWhile (\<lambda>b. b \<noteq> 0) (p @ 0 # q) = p" and "takeWhile (\<lambda>b. b \<noteq> 0) p = p"
    using assms(3) by (induction p) auto
  with assms(1,2) show ?thesis unfolding rar15_new_def by (simp only: Let_def)
qed

theorem rar15_password_is_c_string_witness:
  "rar15_new ([0x61, 0x62] @ 0 # [0x63]) = rar15_new [0x61, 0x62]"
proof (rule rar15_password_is_c_string)
  show "clamp_password ([0x61, 0x62] @ 0 # [0x63]) = [0x61, 0x62] @ 0 # [0x63]"
    by (simp add: clamp_password_def char_offsets.simps utf8_scalar_len_def get_def
        MAX_PASSWORD_CHARS_def)
  show "clamp_password [0x61, 0x62] = [0x61, 0x62]"
    by (simp add: clamp_password_def char_offsets.simps utf8_scalar_len_def get_def
        MAX_PASSWORD_CHARS_def)
qed simp

end
