(* ===== verification/Rar20Cipher.thy ===== *)
theory Rar20Cipher
  imports LegacyCiphers "HOL-Library.Multiset"
begin

text \<open>
  The RAR 2.x block cipher (\<^verbatim>\<open>crates/rar/src/crypto/rar20.rs\<close>): key schedule, the 32-round
  block transform, and the chaining of the key words over the ciphertext. The key schedule only
  ever swaps entries of the substitution table, so the table stays a permutation of the bytes.
\<close>

section \<open>State\<close>

definition INIT_SUBST_TABLE :: "byte list" where
  "INIT_SUBST_TABLE =
    [215, 19, 149, 35, 73, 197, 192, 205, 249, 28, 16, 119, 48, 221, 2, 42, 232, 1, 177, 233, 14,
     88, 219, 25, 223, 195, 244, 90, 87, 239, 153, 137, 255, 199, 147, 70, 92, 66, 246, 13, 216, 40,
     62, 29, 217, 230, 86, 6, 71, 24, 171, 196, 101, 113, 218, 123, 93, 91, 163, 178, 202, 67, 44,
     235, 107, 250, 75, 234, 49, 167, 125, 211, 83, 114, 157, 144, 32, 193, 143, 36, 158, 124, 247,
     187, 89, 214, 141, 47, 121, 228, 61, 130, 213, 194, 174, 251, 97, 110, 54, 229, 115, 57, 152,
     94, 105, 243, 212, 55, 209, 245, 63, 11, 164, 200, 31, 156, 81, 176, 227, 21, 76, 99, 139, 188,
     127, 17, 248, 51, 207, 120, 189, 210, 8, 226, 41, 72, 183, 203, 135, 165, 166, 60, 98, 7, 122,
     38, 155, 170, 69, 172, 252, 238, 39, 134, 59, 128, 236, 27, 240, 80, 131, 3, 85, 206, 145, 79,
     154, 142, 159, 220, 201, 133, 74, 64, 20, 129, 224, 185, 138, 103, 173, 182, 43, 34, 254, 82,
     198, 151, 231, 180, 58, 10, 118, 26, 102, 12, 50, 132, 22, 191, 136, 111, 162, 179, 45, 4, 148,
     108, 161, 56, 78, 126, 242, 222, 15, 175, 146, 23, 33, 241, 181, 190, 77, 225, 0, 46, 169, 186,
     68, 95, 237, 65, 53, 208, 253, 168, 9, 18, 100, 52, 116, 184, 160, 96, 109, 37, 30, 106, 140,
     104, 150, 5, 204, 117, 112, 84]"

definition INIT_KEY :: "u32 list" where
  "INIT_KEY = [0xd3a3b879, 0x3f6d12f7, 0x7515a235, 0xa4e7f123]"

datatype rar20_error = UnalignedInput

record rar20_cipher =
  r20_key :: "u32 list"
  r20_subst :: "byte list"

type_synonym quad = "u32 \<times> u32 \<times> u32 \<times> u32"

section \<open>Block transform\<close>

definition subst_at :: "rar20_cipher \<Rightarrow> u32 \<Rightarrow> u32" where
  "subst_at c i = ucast (r20_subst c ! unat (i AND 0xff))"

definition subst_long :: "rar20_cipher \<Rightarrow> u32 \<Rightarrow> u32" where
  "subst_long c value =
     subst_at c value
     OR push_bit 8 (subst_at c (drop_bit 8 value))
     OR push_bit 16 (subst_at c (drop_bit 16 value))
     OR push_bit 24 (subst_at c (drop_bit 24 value))"

definition rar20_round :: "rar20_cipher \<Rightarrow> nat \<Rightarrow> quad \<Rightarrow> quad" where
  "rar20_round cip i q =
     (case q of (a, b, c, d) \<Rightarrow>
        let k = r20_key cip ! (i mod 4);
            t = (c + word_rotl 11 d) XOR k;
            ta = a XOR subst_long cip t;
            t = (d XOR word_rotl 17 c) + k;
            tb = b XOR subst_long cip t
        in (c, d, ta, tb))"

text \<open>Blocks are handled as four little-endian words; \<open>block\<close> has 16 bytes.\<close>

definition read_u32_le :: "byte list \<Rightarrow> u32" where
  "read_u32_le bs = u32_from_le (bs ! 0) (bs ! 1) (bs ! 2) (bs ! 3)"

definition load_block :: "rar20_cipher \<Rightarrow> byte list \<Rightarrow> quad" where
  "load_block c block =
     (read_u32_le (take 4 block) XOR r20_key c ! 0,
      read_u32_le (take 4 (drop 4 block)) XOR r20_key c ! 1,
      read_u32_le (take 4 (drop 8 block)) XOR r20_key c ! 2,
      read_u32_le (take 4 (drop 12 block)) XOR r20_key c ! 3)"

definition write_block :: "u32 \<Rightarrow> u32 \<Rightarrow> u32 \<Rightarrow> u32 \<Rightarrow> byte list" where
  "write_block a b c d = u32_to_le a @ u32_to_le b @ u32_to_le c @ u32_to_le d"

definition store_block :: "rar20_cipher \<Rightarrow> quad \<Rightarrow> byte list" where
  "store_block cip q =
     (case q of (a, b, c, d) \<Rightarrow>
        write_block (c XOR r20_key cip ! 0) (d XOR r20_key cip ! 1)
                    (a XOR r20_key cip ! 2) (b XOR r20_key cip ! 3))"

definition update_chunk :: "byte list \<Rightarrow> u32 list \<Rightarrow> u32 list" where
  "update_chunk chunk key =
     map (\<lambda>i. key ! i XOR table_entry (chunk ! i)) [0..<4]"

definition update_keys :: "byte list \<Rightarrow> rar20_cipher \<Rightarrow> rar20_cipher" where
  "update_keys block c =
     c\<lparr>r20_key := fold (\<lambda>j. update_chunk (take 4 (drop (4 * j) block))) [0..<length block div 4]
                    (r20_key c)\<rparr>"

definition encrypt_block :: "rar20_cipher \<Rightarrow> byte list \<Rightarrow> byte list \<times> rar20_cipher" where
  "encrypt_block cip block =
     (let out = store_block cip (fold (rar20_round cip) [0..<32] (load_block cip block)) in
      (out, update_keys out cip))"

definition decrypt_block :: "rar20_cipher \<Rightarrow> byte list \<Rightarrow> byte list \<times> rar20_cipher" where
  "decrypt_block cip block =
     (let out = store_block cip (fold (rar20_round cip) (rev [0..<32]) (load_block cip block)) in
      (out, update_keys block cip))"

text \<open>\<open>chunks_exact_mut(16)\<close>: the full 16-byte blocks in order.\<close>

fun blocks_loop ::
  "(rar20_cipher \<Rightarrow> byte list \<Rightarrow> byte list \<times> rar20_cipher) \<Rightarrow> nat \<Rightarrow> rar20_cipher \<Rightarrow> byte list
     \<Rightarrow> byte list \<times> rar20_cipher" where
  "blocks_loop f 0 c data = (data, c)"
| "blocks_loop f (Suc n) c data =
     (let (block, c1) = f c (take 16 data); (rest, c2) = blocks_loop f n c1 (drop 16 data)
      in (block @ rest, c2))"

definition rar20_decrypt_in_place ::
  "rar20_cipher \<Rightarrow> byte list \<Rightarrow> rar20_error + (byte list \<times> rar20_cipher)" where
  "rar20_decrypt_in_place c data =
     (if length data mod 16 \<noteq> 0 then Inl UnalignedInput
      else Inr (blocks_loop decrypt_block (length data div 16) c data))"

definition rar20_encrypt_in_place ::
  "rar20_cipher \<Rightarrow> byte list \<Rightarrow> rar20_error + (byte list \<times> rar20_cipher)" where
  "rar20_encrypt_in_place c data =
     (if length data mod 16 \<noteq> 0 then Inl UnalignedInput
      else Inr (blocks_loop encrypt_block (length data div 16) c data))"

section \<open>Key schedule\<close>

definition swap :: "nat \<Rightarrow> nat \<Rightarrow> 'a list \<Rightarrow> 'a list" where
  "swap i j xs = xs[i := xs ! j, j := xs ! i]"

text \<open>The inner loop \<open>while n1 != n2\<close>; \<open>n1\<close> wraps at 256, so it meets \<open>n2\<close>.\<close>

function swap_loop :: "byte \<Rightarrow> byte \<Rightarrow> nat \<Rightarrow> nat \<Rightarrow> byte list \<Rightarrow> byte list" where
  "swap_loop n1 n2 i k subst =
     (if n1 = n2 then subst
      else swap_loop (n1 + 1) n2 i (k + 1) (swap (unat n1) ((unat n1 + i + k) mod 256) subst))"
  by pat_completeness auto
termination
proof (relation "measure (\<lambda>(n1, n2, i, k, subst). unat (n2 - n1))")
  fix n1 n2 :: byte and i k :: nat and subst :: "byte list"
  assume "n1 \<noteq> n2"
  then have "n2 - n1 \<noteq> 0" by simp
  then have "unat (n2 - n1 - 1) < unat (n2 - n1)"
    by (simp add: unat_minus_one unat_gt_0)
  then show "((n1 + 1, n2, i, k + 1, swap (unat n1) ((unat n1 + i + k) mod 256) subst),
              (n1, n2, i, k, subst)) \<in> measure (\<lambda>(n1, n2, i, k, subst). unat (n2 - n1))"
    by (simp add: algebra_simps)
qed simp

declare swap_loop.simps [simp del]

definition schedule_step :: "byte list \<Rightarrow> nat \<Rightarrow> nat \<Rightarrow> byte list \<Rightarrow> byte list" where
  "schedule_step password j i subst =
     (let n1_index = password ! i - word_of_nat j;
          next_byte = (case get password (i + 1) of Some b \<Rightarrow> b | None \<Rightarrow> 0);
          n2_index = next_byte + word_of_nat j;
          n1 = ucast (table_entry n1_index);
          n2 = ucast (table_entry n2_index)
      in swap_loop n1 n2 i 1 subst)"

definition schedule_subst :: "byte list \<Rightarrow> byte list \<Rightarrow> byte list" where
  "schedule_subst password subst =
     fold (\<lambda>j. fold (\<lambda>i. schedule_step password j i) (map ((*) 2) [0..<(length password + 1) div 2]))
       [0..<256] subst"

definition set_key :: "byte list \<Rightarrow> rar20_cipher \<Rightarrow> rar20_cipher" where
  "set_key password c =
     (let password = clamp_password password;
          c = c\<lparr>r20_subst := schedule_subst password (r20_subst c)\<rparr>;
          padding = (16 - length password mod 16) mod 16;
          padded = password @ replicate padding 0
      in snd (blocks_loop encrypt_block (length padded div 16) c padded))"

definition rar20_new :: "byte list \<Rightarrow> rar20_cipher" where
  "rar20_new password =
     set_key password \<lparr>r20_key = INIT_KEY, r20_subst = INIT_SUBST_TABLE\<rparr>"

section \<open>The substitution table stays a permutation\<close>

definition cipher_ok :: "rar20_cipher \<Rightarrow> bool" where
  "cipher_ok c = (length (r20_key c) = 4 \<and> mset (r20_subst c) = mset INIT_SUBST_TABLE)"

lemma length_init [simp]: "length INIT_SUBST_TABLE = 256"
  by (simp add: INIT_SUBST_TABLE_def)

lemma mset_swap_eq: "i < length xs \<Longrightarrow> j < length xs \<Longrightarrow> mset (swap i j xs) = mset xs"
  unfolding swap_def by (simp add: mset_swap list_update_swap)

lemma length_swap [simp]: "length (swap i j xs) = length xs"
  by (simp add: swap_def)

lemma swap_loop_mset:
  "length subst = 256 \<Longrightarrow>
     mset (swap_loop n1 n2 i k subst) = mset subst \<and> length (swap_loop n1 n2 i k subst) = 256"
proof (induction n1 n2 i k subst rule: swap_loop.induct)
  case (1 n1 n2 i k subst)
  show ?case
  proof (cases "n1 = n2")
    case True
    with "1.prems" show ?thesis by (simp add: swap_loop.simps)
  next
    case False
    let ?s = "swap (unat n1) ((unat n1 + i + k) mod 256) subst"
    have "mset ?s = mset subst" "length ?s = 256"
      using "1.prems" unat_byte_less [of n1] by (auto intro!: mset_swap_eq)
    with "1.IH" [OF False] False show ?thesis
      by (simp only: swap_loop.simps [of n1 n2 i k subst] if_False simp_thms)
  qed
qed

lemma fold_inv:
  "(\<And>x s. x \<in> set xs \<Longrightarrow> P s \<Longrightarrow> P (f x s)) \<Longrightarrow> P s \<Longrightarrow> P (fold f xs s)"
  by (induction xs arbitrary: s) auto

lemma schedule_subst_mset:
  assumes "length subst = 256"
  shows "mset (schedule_subst password subst) = mset subst"
proof -
  let ?P = "\<lambda>s. length s = 256 \<and> mset s = mset subst"
  have "?P (schedule_step password j i s)" if "?P s" for i j s
    using that swap_loop_mset by (simp add: schedule_step_def Let_def split del: if_split)
  then have "?P (schedule_subst password subst)"
    unfolding schedule_subst_def using assms by (intro fold_inv [where P = ?P]) auto
  then show ?thesis by simp
qed

lemma length_update_chunk [simp]: "length (update_chunk chunk key) = 4"
  by (simp add: update_chunk_def)

lemma update_keys_ok: "cipher_ok c \<Longrightarrow> cipher_ok (update_keys block c)"
  unfolding cipher_ok_def update_keys_def
  by (auto intro!: fold_inv [where P = "\<lambda>k. length k = 4"])

lemma blocks_loop_ok:
  assumes "\<And>c block. cipher_ok c \<Longrightarrow> cipher_ok (snd (f c block))"
  shows "cipher_ok c \<Longrightarrow> cipher_ok (snd (blocks_loop f n c data))"
proof (induction n arbitrary: c data)
  case (Suc n)
  then show ?case using assms [of c "take 16 data"] by (simp add: split_beta Let_def)
qed simp

lemma encrypt_block_ok: "cipher_ok c \<Longrightarrow> cipher_ok (snd (encrypt_block c block))"
  by (simp add: encrypt_block_def Let_def update_keys_ok)

lemma decrypt_block_ok: "cipher_ok c \<Longrightarrow> cipher_ok (snd (decrypt_block c block))"
  by (simp add: decrypt_block_def Let_def update_keys_ok)

lemma rar20_new_ok: "cipher_ok (rar20_new password)"
  unfolding rar20_new_def set_key_def Let_def
  by (intro blocks_loop_ok encrypt_block_ok)
     (simp_all add: cipher_ok_def schedule_subst_mset INIT_KEY_def)

section \<open>Decryption inverts encryption\<close>

text \<open>Swapping the halves turns a round into its own inverse.\<close>

definition swap_halves :: "quad \<Rightarrow> quad" where
  "swap_halves q = (case q of (a, b, c, d) \<Rightarrow> (c, d, a, b))"

lemma round_swap_round:
  "rar20_round cip i (swap_halves (rar20_round cip i q)) = swap_halves q"
  by (cases q) (simp add: rar20_round_def swap_halves_def Let_def xor.assoc)

lemma rounds_invert:
  "fold (rar20_round cip) (rev is) (swap_halves (fold (rar20_round cip) is q)) = swap_halves q"
proof (induction "is" arbitrary: q)
  case (Cons i "is")
  then show ?case by (simp add: round_swap_round)
qed (simp add: swap_halves_def split_beta)

lemma read_u32_le_bytes: "read_u32_le (u32_to_le v) = v"
  by (simp add: read_u32_le_def u32_to_le_def)

lemma u32_to_le_read: "length bs = 4 \<Longrightarrow> u32_to_le (read_u32_le bs) = bs"
proof -
  assume "length bs = 4"
  then obtain a b c d where "bs = [a, b, c, d]"
    by (auto simp: numeral_eq_Suc length_Suc_conv)
  then show ?thesis by (simp add: read_u32_le_def numeral_eq_Suc)
qed

lemma length_store_block [simp]: "length (store_block cip q) = 16"
  by (simp add: store_block_def write_block_def split_beta)

lemma load_store: "load_block cip (store_block cip q) = swap_halves q"
  by (cases q)
     (simp add: store_block_def load_block_def write_block_def swap_halves_def
        read_u32_le_bytes xor.assoc)

lemma store_load: "length block = 16 \<Longrightarrow> store_block cip (swap_halves (load_block cip block)) = block"
proof -
  assume len: "length block = 16"
  have "take 4 block @ take 4 (drop 4 block) @ take 4 (drop 8 block) @ take 4 (drop 12 block) = block"
    using len take_add [of 4 4 block] take_add [of 8 4 block] take_add [of 12 4 block]
    by simp
  with len show ?thesis
    by (simp add: store_block_def load_block_def write_block_def swap_halves_def xor.assoc u32_to_le_read)
qed

lemma decrypt_encrypt_block:
  assumes "length block = 16"
  shows "decrypt_block cip (fst (encrypt_block cip block)) = (block, snd (encrypt_block cip block))"
  using assms
  by (simp add: encrypt_block_def decrypt_block_def Let_def load_store rounds_invert store_load
      del: upt_Suc)

lemma length_encrypt_block [simp]: "length (fst (encrypt_block cip block)) = 16"
  by (simp add: encrypt_block_def Let_def)

lemma blocks_decrypt_encrypt:
  "length data = 16 * n \<Longrightarrow>
     blocks_loop decrypt_block n cip (fst (blocks_loop encrypt_block n cip data))
       = (data, snd (blocks_loop encrypt_block n cip data)) \<and>
     length (fst (blocks_loop encrypt_block n cip data)) = 16 * n"
proof (induction n arbitrary: cip data)
  case (Suc n)
  let ?b = "take 16 data" and ?e = "encrypt_block cip (take 16 data)"
  have len: "length ?b = 16" "length (drop 16 data) = 16 * n" using Suc.prems by auto
  have IH: "blocks_loop decrypt_block n (snd ?e) (fst (blocks_loop encrypt_block n (snd ?e) (drop 16 data)))
       = (drop 16 data, snd (blocks_loop encrypt_block n (snd ?e) (drop 16 data)))"
    and "length (fst (blocks_loop encrypt_block n (snd ?e) (drop 16 data))) = 16 * n"
    using Suc.IH [OF len(2)] by auto
  then show ?case
    by (simp add: split_beta Let_def decrypt_encrypt_block [OF len(1)])
qed simp

section \<open>Properties\<close>

text \<open>For every password, the key schedule leaves a substitution table that is a rearrangement of
  the initial one (it only swaps entries, and its inner loop always stops), and four key words; and
  encrypting or decrypting keeps both facts.\<close>

theorem rar20_table_rearranged:
  "cipher_ok (rar20_new password) \<and>
   cipher_ok (snd (blocks_loop encrypt_block n (rar20_new password) data)) \<and>
   cipher_ok (snd (blocks_loop decrypt_block n (rar20_new password) data))"
  using blocks_loop_ok [of encrypt_block, OF encrypt_block_ok rar20_new_ok]
    blocks_loop_ok [of decrypt_block, OF decrypt_block_ok rar20_new_ok] rar20_new_ok
  by blast

text \<open>C38: Encrypting a block-aligned buffer and decrypting the result under the same key state
  restores the buffer and leaves both directions with the same key state, so chained calls stay in
  step; a buffer that is not aligned is refused by both.\<close>

theorem rar20_roundtrip:
  "(case rar20_encrypt_in_place cip data of
      Inl e \<Rightarrow> length data mod 16 \<noteq> 0 \<and> rar20_decrypt_in_place cip data = Inl UnalignedInput
    | Inr (enc, cip') \<Rightarrow> length data mod 16 = 0 \<and> length enc = length data \<and>
        rar20_decrypt_in_place cip enc = Inr (data, cip'))"
proof (cases "length data mod 16 = 0")
  case True
  let ?n = "length data div 16"
  have len: "length data = 16 * ?n" using True by auto
  obtain enc cip' where e: "blocks_loop encrypt_block ?n cip data = (enc, cip')" by fastforce
  have "blocks_loop decrypt_block ?n cip enc = (data, cip')" "length enc = 16 * ?n"
    using blocks_decrypt_encrypt [OF len, of cip] e by auto
  with True e len show ?thesis
    by (simp add: rar20_encrypt_in_place_def rar20_decrypt_in_place_def)
next
  case False
  then show ?thesis by (simp add: rar20_encrypt_in_place_def rar20_decrypt_in_place_def)
qed

end
