(* ===== verification/LegacyBits.thy ===== *)
theory LegacyBits
  imports Interfaces
begin

text \<open>
  The error type and the MSB-first bit reader shared by the RAR 2.x and RAR 3.x/4.x decoders
  (\<^verbatim>\<open>crates/rar/src/codec/legacy/lz.rs\<close>, \<open>Error\<close> and \<open>BitReader\<close>), with
  the variable-length integer of the virtual machine records. The reader is an interpretation of
  \<open>bit_source\<close>. \<open>Panic\<close> marks what the Rust code would do by panicking (an index out
  of range); the component theories show that it is never reached.
\<close>

datatype lz_error = Truncated | Bad string | Panic

section \<open>Reader\<close>

record lz_reader =
  lz_input :: "byte list"
  lz_bit_pos :: nat

definition lz_reader_new :: lz_reader where
  "lz_reader_new = \<lparr>lz_input = [], lz_bit_pos = 0\<rparr>"

definition lz_from_bytes :: "byte list \<Rightarrow> lz_reader" where
  "lz_from_bytes input = \<lparr>lz_input = input, lz_bit_pos = 0\<rparr>"

definition lz_compact :: "lz_reader \<Rightarrow> lz_reader" where
  "lz_compact r =
     (let bytes = lz_bit_pos r div 8 in
      if bytes = 0 then r
      else \<lparr>lz_input = drop bytes (lz_input r), lz_bit_pos = lz_bit_pos r - bytes * 8\<rparr>)"

definition lz_append :: "byte list \<Rightarrow> lz_reader \<Rightarrow> lz_reader" where
  "lz_append input r = (let r = lz_compact r in r\<lparr>lz_input := lz_input r @ input\<rparr>)"

text \<open>\<open>(bit_pos + 7) & !7\<close> rounds up to the next multiple of eight.\<close>

definition lz_align_byte :: "lz_reader \<Rightarrow> lz_reader" where
  "lz_align_byte r = r\<lparr>lz_bit_pos := (lz_bit_pos r + 7) div 8 * 8\<rparr>"

fun lz_peek_loop :: "byte list \<Rightarrow> nat \<Rightarrow> nat \<Rightarrow> u32 \<Rightarrow> lz_error + u32" where
  "lz_peek_loop input bit_index 0 value = Inr value"
| "lz_peek_loop input bit_index (Suc n) value =
     rbind (ok_or Truncated (get input (bit_index div 8))) (\<lambda>byte.
       let b = drop_bit (7 - bit_index mod 8) byte AND 1 in
       lz_peek_loop input (bit_index + 1) n (push_bit 1 value OR ucast b))"

definition lz_peek_bits :: "nat \<Rightarrow> lz_reader \<Rightarrow> lz_error + u32" where
  "lz_peek_bits count r =
     (if 24 < count then Inl (Bad ''bit read is too wide'')
      else lz_peek_loop (lz_input r) (lz_bit_pos r) count 0)"

definition lz_read_bits :: "nat \<Rightarrow> lz_reader \<Rightarrow> lz_error + (u32 \<times> lz_reader)" where
  "lz_read_bits count r =
     rbind (lz_peek_bits count r) (\<lambda>value.
       Inr (value, r\<lparr>lz_bit_pos := lz_bit_pos r + count\<rparr>))"

definition lz_peek_bit :: "lz_reader \<Rightarrow> lz_error + byte" where
  "lz_peek_bit r = rbind (lz_peek_bits 1 r) (\<lambda>value. Inr (ucast value))"

definition lz_read_bit :: "lz_reader \<Rightarrow> lz_error + (byte \<times> lz_reader)" where
  "lz_read_bit r = rbind (lz_read_bits 1 r) (\<lambda>(value, r'). Inr (ucast value, r'))"

definition lz_remaining_bytes :: "lz_reader \<Rightarrow> nat" where
  "lz_remaining_bytes r = length (lz_input r) - lz_bit_pos r div 8"

definition lz_read_encoded_u32 :: "lz_reader \<Rightarrow> lz_error + (u32 \<times> lz_reader)" where
  "lz_read_encoded_u32 r =
     rbind (lz_read_bits 2 r) (\<lambda>(tag, r).
       if tag = 0 then lz_read_bits 4 r
       else if tag = 1 then
         rbind (lz_read_bits 8 r) (\<lambda>(high, r).
           if 16 \<le> high then Inr (high, r)
           else rbind (lz_read_bits 4 r) (\<lambda>(low, r).
             Inr (0xffffff00 OR push_bit 4 high OR low, r)))
       else if tag = 2 then lz_read_bits 16 r
       else rbind (lz_read_bits 16 r) (\<lambda>(a, r).
              rbind (lz_read_bits 16 r) (\<lambda>(b, r). Inr (push_bit 16 a OR b, r))))"

section \<open>The unread bits\<close>

definition lz_rest :: "lz_reader \<Rightarrow> bool list" where
  "lz_rest r = drop (lz_bit_pos r) (stream_bits (lz_input r))"

definition lz_bits_left :: "lz_reader \<Rightarrow> nat" where
  "lz_bits_left r = 8 * length (lz_input r) - lz_bit_pos r"

lemma length_lz_rest [simp]: "length (lz_rest r) = lz_bits_left r"
  by (simp add: lz_rest_def lz_bits_left_def)

lemma byte_bit_value: "ucast (drop_bit k (b :: byte) AND 1) = (of_bool (bit b k) :: u32)"
  by (rule bit_word_eqI) (auto simp: bit_simps)

lemma lz_peek_loop_value:
  "lz_peek_loop input i n (bits_value bs) =
     (if i + n \<le> 8 * length input \<or> n = 0
      then Inr (bits_value (bs @ take n (drop i (stream_bits input))))
      else Inl Truncated)"
proof (induction n arbitrary: i bs)
  case 0
  then show ?case by simp
next
  case (Suc n)
  show ?case
  proof (cases "i div 8 < length input")
    case True
    then have i: "i < 8 * length input" by auto
    let ?b = "stream_bits input ! i"
    have b: "bit (input ! (i div 8)) (7 - i mod 8) = ?b"
      using i by (simp add: nth_stream_bits)
    have "take (Suc n) (drop i (stream_bits input)) = ?b # take n (drop (Suc i) (stream_bits input))"
      using i by (simp add: Cons_nth_drop_Suc [symmetric])
    moreover have "push_bit 1 (bits_value bs) OR of_bool ?b = (bits_value (bs @ [?b]) :: u32)"
      by (simp only: bits_value_snoc)
    ultimately show ?thesis
      using True i Suc.IH [of "i + 1" "bs @ [?b]"]
      by (auto simp: get_def Let_def byte_bit_value b simp del: push_bit_Suc)
  next
    case False
    then have "8 * length input \<le> i" by (simp add: not_less less_eq_div_iff_mult_less_eq)
    with False show ?thesis by (simp add: get_def)
  qed
qed

lemma lz_peek_bits_value:
  assumes "count \<le> 24"
  shows "lz_peek_bits count r =
    (if count \<le> lz_bits_left r then Inr (bits_value (take count (lz_rest r))) else Inl Truncated)"
proof (cases "count = 0")
  case True
  then show ?thesis by (simp add: lz_peek_bits_def)
next
  case False
  have "lz_peek_loop (lz_input r) (lz_bit_pos r) count (bits_value []) =
    (if lz_bit_pos r + count \<le> 8 * length (lz_input r) \<or> count = 0
     then Inr (bits_value (take count (lz_rest r))) else Inl Truncated)"
    unfolding lz_rest_def lz_peek_loop_value by simp
  with assms False show ?thesis
    by (auto simp: lz_peek_bits_def lz_bits_left_def)
qed

lemma lz_read_bits_value:
  assumes "count \<le> 24"
  shows "lz_read_bits count r =
    (if count \<le> lz_bits_left r
     then Inr (bits_value (take count (lz_rest r)), r\<lparr>lz_bit_pos := lz_bit_pos r + count\<rparr>)
     else Inl Truncated)"
  by (simp add: lz_read_bits_def lz_peek_bits_value [OF assms])

lemma lz_rest_advance:
  "lz_rest (r\<lparr>lz_bit_pos := lz_bit_pos r + n\<rparr>) = drop n (lz_rest r)"
  by (simp add: lz_rest_def add.commute)

lemma lz_bits_left_advance [simp]:
  "lz_bits_left (r\<lparr>lz_bit_pos := lz_bit_pos r + n\<rparr>) = lz_bits_left r - n"
  by (simp add: lz_bits_left_def)

interpretation lz: bit_source lz_rest lz_read_bits 24 "\<lambda>_. True"
  by unfold_locales (auto simp: lz_read_bits_value lz_rest_advance)

text \<open>Progress, in the form the decoders' termination arguments use.\<close>

lemma lz_read_bits_left:
  assumes "lz_read_bits n r = Inr (v, r')"
  shows "n \<le> lz_bits_left r \<and> lz_bits_left r' = lz_bits_left r - n"
proof -
  have "n \<le> 24" using assms by (auto simp: lz_read_bits_def lz_peek_bits_def split: if_splits)
  with assms show ?thesis by (auto simp: lz_read_bits_value split: if_splits)
qed

lemma lz_read_bits_no_panic: "n \<le> 24 \<Longrightarrow> lz_read_bits n r \<noteq> Inl Panic"
  by (auto simp: lz_read_bits_value)

lemma lz_read_bit_value:
  "lz_read_bit r =
     (case lz_rest r of
        [] \<Rightarrow> Inl Truncated
      | b # bs \<Rightarrow> Inr (of_bool b, r\<lparr>lz_bit_pos := lz_bit_pos r + 1\<rparr>))"
proof (cases "lz_rest r")
  case Nil
  then have "lz_bits_left r = 0" by (metis length_lz_rest list.size(3))
  with Nil show ?thesis by (simp add: lz_read_bit_def lz_read_bits_value)
next
  case (Cons b bs)
  then have "1 \<le> lz_bits_left r" by (metis length_lz_rest One_nat_def Suc_leI length_Cons zero_less_Suc)
  with Cons show ?thesis
    using bits_value_snoc [of "[]" b, where 'a = 32]
    by (simp add: lz_read_bit_def lz_read_bits_value)
qed

lemma lz_rest_append:
  "lz_bit_pos r \<le> 8 * length (lz_input r) \<Longrightarrow> lz_rest (lz_append input r) = lz_rest r @ stream_bits input"
proof -
  assume le: "lz_bit_pos r \<le> 8 * length (lz_input r)"
  let ?n = "lz_bit_pos r div 8"
  have "drop (lz_bit_pos r - ?n * 8) (drop (8 * ?n) (stream_bits (lz_input r))) = lz_rest r"
    by (simp add: lz_rest_def)
  then have "drop (lz_bit_pos r - ?n * 8) (stream_bits (drop ?n (lz_input r))) = lz_rest r"
    by (simp only: drop_stream_bits)
  moreover have "lz_bit_pos r - ?n * 8 \<le> 8 * (length (lz_input r) - ?n)" using le by auto
  ultimately show ?thesis
    using le by (auto simp: lz_append_def lz_compact_def lz_rest_def Let_def stream_bits_append)
qed

section \<open>Variable-length integers of the virtual machine\<close>

lemma lz_rest_pos: "lz_rest (r\<lparr>lz_bit_pos := p\<rparr>) = drop p (stream_bits (lz_input r))"
  by (simp add: lz_rest_def)

lemma lz_bits_left_pos: "lz_bits_left (r\<lparr>lz_bit_pos := p\<rparr>) = 8 * length (lz_input r) - p"
  by (simp add: lz_bits_left_def)

lemma vm_tag_cases:
  assumes "2 \<le> length bs"
  shows "(bits_value (take 2 bs) :: u32) \<in> {0, 1, 2, 3}"
proof -
  have "unat (bits_value (take 2 bs) :: u32) < 2 ^ 2"
    using unat_bits_value_less [of "take 2 bs", where 'a = 32] assms by simp
  then have "unat (bits_value (take 2 bs) :: u32) \<in> {0, 1, 2, 3}" by auto
  then show ?thesis by (auto simp: word_unat_eq_iff)
qed

lemma lz_read_encoded_spec:
  "lz_read_encoded_u32 r =
     (case vm_number_bits (lz_rest r) of
        None \<Rightarrow> Inl Truncated
      | Some (v, n) \<Rightarrow> Inr (v, r\<lparr>lz_bit_pos := lz_bit_pos r + n\<rparr>))"
proof -
  let ?bs = "lz_rest r"
  have join: "push_bit 16 (bits_value (take 16 (drop 2 ?bs))) OR bits_value (take 16 (drop 18 ?bs))
      = (bits_value (take 32 (drop 2 ?bs)) :: u32)" if "34 \<le> length ?bs"
  proof -
    have "take 32 (drop 2 ?bs) = take 16 (drop 2 ?bs) @ take 16 (drop 18 ?bs)"
      using take_add [of 16 16 "drop 2 ?bs"] by simp
    then show ?thesis using that by (simp only: bits_value_append) simp
  qed
  show ?thesis
  proof (cases "2 \<le> length ?bs")
    case False
    then show ?thesis
      by (simp add: lz_read_encoded_u32_def lz_read_bits_value vm_number_bits_def)
  next
    case True
    have left: "lz_bits_left r = length ?bs" by simp
    have read: "lz_read_bits n (r\<lparr>lz_bit_pos := lz_bit_pos r + k\<rparr>) =
        (if k + n \<le> length ?bs \<or> n = 0
         then Inr (bits_value (take n (drop k ?bs)), r\<lparr>lz_bit_pos := lz_bit_pos r + (k + n)\<rparr>)
         else Inl Truncated)" if "n \<le> 24" for n k
      using that by (auto simp: lz_read_bits_value lz_rest_advance add.assoc)
    have start: "lz_read_bits 2 r =
        Inr (bits_value (take 2 ?bs), r\<lparr>lz_bit_pos := lz_bit_pos r + 2\<rparr>)"
      using True by (simp add: lz_read_bits_value)
    note unfold = lz_read_encoded_u32_def vm_number_bits_def vm_number_field_def start read Let_def
    from vm_tag_cases [OF True] consider
        "bits_value (take 2 ?bs) = (0 :: u32)" | "bits_value (take 2 ?bs) = (1 :: u32)"
      | "bits_value (take 2 ?bs) = (2 :: u32)" | "bits_value (take 2 ?bs) = (3 :: u32)"
      by auto
    then show ?thesis
    proof cases
      case 1
      then show ?thesis using True by (simp add: unfold del: add_2_eq_Suc')
    next
      case 2
      then show ?thesis using True by (simp add: unfold del: add_2_eq_Suc')
    next
      case 3
      then show ?thesis using True by (simp add: unfold del: add_2_eq_Suc')
    next
      case 4
      then show ?thesis using True join by (simp add: unfold del: add_2_eq_Suc')
    qed
  qed
qed

end
