(* ===== verification/CanonicalCode.thy ===== *)
theory CanonicalCode
  imports Prelude
begin

text \<open>
  Canonical Huffman codes, as both decoders of the repository understand them: the code lengths
  of the symbols fix the codes, the codes of one length being consecutive in symbol order and
  following, shifted left, those of the shorter lengths. This is the specification that the
  table-driven decoders of the legacy family (\<open>LegacyHuffman\<close>) and of RAR5
  (\<open>ModernHuffman\<close>) are measured against.
\<close>

section \<open>First codes\<close>

fun canon_first :: "(nat \<Rightarrow> nat) \<Rightarrow> nat \<Rightarrow> nat" where
  "canon_first c 0 = 0"
| "canon_first c (Suc l) = 2 * (canon_first c l + c l)"

lemma canon_first_numeral:
  "canon_first c (numeral k) = 2 * (canon_first c (pred_numeral k) + c (pred_numeral k))"
  by (simp add: numeral_eq_Suc)

text \<open>One past the last code of a length.\<close>

definition canon_end :: "(nat \<Rightarrow> nat) \<Rightarrow> nat \<Rightarrow> nat" where
  "canon_end c l = canon_first c l + c l"

lemma canon_first_Suc: "canon_first c (Suc l) = 2 * canon_end c l"
  by (simp add: canon_end_def)

lemma canon_first_le_end: "canon_first c l \<le> canon_end c l"
  by (simp add: canon_end_def)

lemma canon_end_shift: "l < m \<Longrightarrow> 2 ^ (m - l) * canon_end c l \<le> canon_first c m"
proof (induction m)
  case 0
  then show ?case by simp
next
  case (Suc m)
  show ?case
  proof (cases "l = m")
    case True
    then show ?thesis by (simp add: canon_end_def)
  next
    case False
    with Suc have IH: "2 ^ (m - l) * canon_end c l \<le> canon_first c m" by simp
    have "2 ^ (Suc m - l) * canon_end c l = 2 * (2 ^ (m - l) * canon_end c l)"
      using False Suc.prems by (simp add: Suc_diff_le)
    also have "\<dots> \<le> 2 * canon_end c m"
      using IH canon_first_le_end [of c m] by simp
    finally show ?thesis by (simp add: canon_end_def)
  qed
qed

lemma canon_kraft_down:
  assumes "canon_end c m \<le> 2 ^ m" "l \<le> m"
  shows "canon_end c l \<le> 2 ^ l"
proof (cases "l = m")
  case False
  with assms have "2 ^ (m - l) * canon_end c l \<le> 2 ^ m"
    using canon_end_shift [of l m c] canon_first_le_end [of c m] by simp
  also have "(2 :: nat) ^ m = 2 ^ (m - l) * 2 ^ l"
    using assms(2) by (simp flip: power_add)
  finally show ?thesis by simp
qed (use assms in simp)

section \<open>Symbols and their codes\<close>

definition canon_positions :: "byte list \<Rightarrow> nat \<Rightarrow> nat list" where
  "canon_positions lengths l = filter (\<lambda>i. unat (lengths ! i) = l) [0..<length lengths]"

definition canon_count :: "byte list \<Rightarrow> nat \<Rightarrow> nat" where
  "canon_count lengths l = (if l = 0 then 0 else length (canon_positions lengths l))"

definition canon_rank :: "byte list \<Rightarrow> nat \<Rightarrow> nat" where
  "canon_rank lengths s = length (filter (\<lambda>i. lengths ! i = lengths ! s) [0..<s])"

definition canon_code :: "byte list \<Rightarrow> nat \<Rightarrow> nat" where
  "canon_code lengths s =
     canon_first (canon_count lengths) (unat (lengths ! s)) + canon_rank lengths s"

text \<open>\<open>canon_next lengths bs s\<close>: the bits \<open>bs\<close> start with the code of \<open>s\<close>.\<close>

definition canon_next :: "byte list \<Rightarrow> bool list \<Rightarrow> nat \<Rightarrow> bool" where
  "canon_next lengths bs s \<longleftrightarrow>
     s < length lengths \<and> 0 < unat (lengths ! s) \<and> unat (lengths ! s) \<le> 15 \<and>
     unat (lengths ! s) \<le> length bs \<and>
     bits_nat (take (unat (lengths ! s)) bs) = canon_code lengths s"

lemma filter_upt_split:
  assumes "s < n" "P s"
  shows "filter P [0..<n] = filter P [0..<s] @ s # filter P [Suc s..<n]"
proof -
  have "[0..<n] = [0..<s] @ s # [Suc s..<n]"
    using assms(1) upt_add_eq_append [of 0 s "n - s"] by (simp add: upt_conv_Cons)
  then show ?thesis using assms(2) by simp
qed

lemma canon_positions_rank:
  assumes "s < length lengths" "unat (lengths ! s) = l"
  shows "canon_rank lengths s < length (canon_positions lengths l)"
    and "canon_positions lengths l ! canon_rank lengths s = s"
proof -
  have "canon_positions lengths l =
      filter (\<lambda>i. lengths ! i = lengths ! s) [0..<s] @ s # filter (\<lambda>i. lengths ! i = lengths ! s) [Suc s..<length lengths]"
    unfolding canon_positions_def assms(2) [symmetric] word_unat_eq_iff [symmetric]
    using assms(1) by (intro filter_upt_split) simp_all
  then show "canon_rank lengths s < length (canon_positions lengths l)"
    and "canon_positions lengths l ! canon_rank lengths s = s"
    by (simp_all add: canon_rank_def nth_append)
qed

lemma canon_positions_nth:
  assumes "k < length (canon_positions lengths l)"
  shows "canon_positions lengths l ! k < length lengths"
    and "unat (lengths ! (canon_positions lengths l ! k)) = l"
    and "canon_rank lengths (canon_positions lengths l ! k) = k"
proof -
  let ?s = "canon_positions lengths l ! k"
  have "?s \<in> set (canon_positions lengths l)" using assms by (rule nth_mem)
  then show s: "?s < length lengths" and l: "unat (lengths ! ?s) = l"
    by (auto simp: canon_positions_def)
  have "distinct (canon_positions lengths l)" by (simp add: canon_positions_def)
  then show "canon_rank lengths ?s = k"
    using canon_positions_rank [OF s l] assms by (simp add: nth_eq_iff_index_eq)
qed

section \<open>Counts and ranks\<close>

lemma canon_count_list:
  "canon_count lengths l = (if l = 0 then 0 else count_list (map unat lengths) l)"
proof -
  have "length (canon_positions lengths l) = length (filter (\<lambda>i. unat i = l) lengths)"
    by (simp add: canon_positions_def length_filter_conv_card cong: conj_cong)
  also have "\<dots> = count_list (map unat lengths) l"
    by (induction lengths) auto
  finally show ?thesis by (simp add: canon_count_def)
qed

lemma canon_count_Cons:
  "canon_count (x # xs) l = (if l \<noteq> 0 \<and> unat x = l then 1 else 0) + canon_count xs l"
  by (simp add: canon_count_list)

lemma canon_count_le: "canon_count lengths l \<le> length lengths"
  using count_le_length [of "map unat lengths" l] by (simp add: canon_count_list)

lemma upt_Suc_shift: "[0..<Suc n] = 0 # map Suc [0..<n]"
  by (simp add: map_Suc_upt upt_conv_Cons del: upt_Suc)

lemma canon_rank_0 [simp]: "canon_rank lengths 0 = 0"
  by (simp add: canon_rank_def)

lemma canon_rank_Cons:
  "canon_rank (x # xs) (Suc i) = (if x = xs ! i then 1 else 0) + canon_rank xs i"
  unfolding canon_rank_def upt_Suc_shift by (simp add: filter_map comp_def)

section \<open>Codes of a length form an interval, and the intervals do not overlap\<close>

definition canon_hit :: "byte list \<Rightarrow> bool list \<Rightarrow> nat \<Rightarrow> bool" where
  "canon_hit lengths bs l \<longleftrightarrow>
     l \<le> length bs \<and> canon_first (canon_count lengths) l \<le> bits_nat (take l bs) \<and>
     bits_nat (take l bs) < canon_end (canon_count lengths) l"

definition canon_symbol :: "byte list \<Rightarrow> bool list \<Rightarrow> nat \<Rightarrow> nat" where
  "canon_symbol lengths bs l =
     canon_positions lengths l ! (bits_nat (take l bs) - canon_first (canon_count lengths) l)"

lemma canon_hit_pos: "canon_hit lengths bs l \<Longrightarrow> 0 < l"
  by (cases l) (auto simp: canon_hit_def canon_end_def canon_count_def)

lemma canon_hit_unique:
  assumes "canon_hit lengths bs l" "canon_hit lengths bs m"
  shows "l = m"
proof -
  have False if "canon_hit lengths bs l" "canon_hit lengths bs m" "l < m" for l m
  proof -
    let ?c = "canon_count lengths"
    have "2 ^ (m - l) * canon_end ?c l \<le> bits_nat (take m bs)"
      using canon_end_shift [OF that(3), of ?c] that(2) by (simp add: canon_hit_def)
    then have "canon_end ?c l \<le> bits_nat (take m bs) div 2 ^ (m - l)"
      by (simp add: less_eq_div_iff_mult_less_eq mult.commute)
    also have "\<dots> = bits_nat (take l bs)"
      using that by (intro bits_nat_take_div [symmetric]) (auto simp: canon_hit_def)
    finally show False using that(1) by (simp add: canon_hit_def)
  qed
  with assms show ?thesis by (metis linorder_neqE_nat)
qed

lemma canon_next_iff_hit:
  assumes "l \<le> 15"
  shows "canon_next lengths bs s \<and> unat (lengths ! s) = l \<longleftrightarrow>
    canon_hit lengths bs l \<and> s = canon_symbol lengths bs l" (is "?L \<longleftrightarrow> ?R")
proof
  assume L: ?L
  then have s: "s < length lengths" "unat (lengths ! s) = l" "0 < l" "l \<le> length bs"
      "bits_nat (take l bs) = canon_first (canon_count lengths) l + canon_rank lengths s"
    by (auto simp: canon_next_def canon_code_def)
  with canon_positions_rank [OF s(1,2)] show ?R
    by (simp add: canon_hit_def canon_end_def canon_symbol_def canon_count_def)
next
  assume R: ?R
  let ?k = "bits_nat (take l bs) - canon_first (canon_count lengths) l"
  have l: "0 < l" using R canon_hit_pos by blast
  then have "?k < length (canon_positions lengths l)"
    using R by (auto simp: canon_hit_def canon_end_def canon_count_def)
  note nth = canon_positions_nth [OF this]
  have s: "s = canon_positions lengths l ! ?k" using R by (simp add: canon_symbol_def)
  show ?L
    unfolding canon_next_def canon_code_def s nth
    using nth R l assms by (auto simp: canon_hit_def)
qed

text \<open>No two symbols have a common continuation: the code is prefix-free.\<close>

lemma canon_next_unique:
  assumes "canon_next lengths bs s" "canon_next lengths bs t"
  shows "s = t"
proof -
  have "unat (lengths ! s) \<le> 15" "unat (lengths ! t) \<le> 15"
    using assms by (auto simp: canon_next_def)
  with assms canon_next_iff_hit have "canon_hit lengths bs (unat (lengths ! s)) \<and> s = canon_symbol lengths bs (unat (lengths ! s))"
    and "canon_hit lengths bs (unat (lengths ! t)) \<and> t = canon_symbol lengths bs (unat (lengths ! t))"
    by blast+
  then show ?thesis by (metis canon_hit_unique)
qed

section \<open>Sizes\<close>

text \<open>Where the symbols of a length start when all are listed in code order.\<close>

definition canon_index :: "(nat \<Rightarrow> nat) \<Rightarrow> nat \<Rightarrow> nat" where
  "canon_index c l = sum_list (map c [0..<l])"

lemma canon_index_0 [simp]: "canon_index c 0 = 0"
  by (simp add: canon_index_def)

lemma canon_index_Suc [simp]: "canon_index c (Suc l) = canon_index c l + c l"
  by (simp add: canon_index_def)

lemma canon_index_mono: "l \<le> m \<Longrightarrow> canon_index c l \<le> canon_index c m"
  by (induction m) (auto simp: le_Suc_eq)

lemma canon_index_inject:
  assumes "canon_index c l + r = canon_index c m + t" "r < c l" "t < c m"
  shows "l = m \<and> r = t"
proof -
  have False if "canon_index c l + r = canon_index c m + t" "r < c l" "l < m" for l m r t
    using that canon_index_mono [of "Suc l" m c] by simp
  from this [of l r m t] this [of m t l r] assms have "l = m" by (metis linorder_neqE_nat)
  with assms(1) show ?thesis by simp
qed

lemma canon_end_bound: "2 * canon_end c l \<le> 2 ^ l * canon_index c (Suc l) + 2 ^ l * c 0"
proof (induction l)
  case 0
  then show ?case by (simp add: canon_end_def canon_index_def)
next
  case (Suc l)
  have "2 * canon_end c (Suc l) = 2 * (2 * canon_end c l) + 2 * c (Suc l)"
    by (simp add: canon_end_def)
  also have "\<dots> \<le> 2 * (2 ^ l * canon_index c (Suc l) + 2 ^ l * c 0) + 2 ^ Suc l * c (Suc l)"
    using Suc by (intro add_mono mult_le_mono) simp_all
  also have "\<dots> = 2 ^ Suc l * canon_index c (Suc (Suc l)) + 2 ^ Suc l * c 0"
    by (simp add: algebra_simps)
  finally show ?case .
qed

lemma canon_index_le: "canon_index (canon_count lengths) l \<le> length lengths"
proof -
  have "canon_index (canon_count lengths) l = length (filter (\<lambda>x. 0 < unat x \<and> unat x < l) lengths)"
  proof (induction lengths)
    case Nil
    then show ?case by (induction l) (simp_all add: canon_count_list)
  next
    case (Cons x xs)
    have "canon_index (canon_count (x # xs)) l = (if 0 < unat x \<and> unat x < l then 1 else 0) + canon_index (canon_count xs) l"
      by (induction l) (auto simp: canon_count_Cons)
    with Cons show ?case by simp
  qed
  then show ?thesis by simp
qed

end
