(* ===== verification/LegacyHuffman.thy ===== *)
theory LegacyHuffman
  imports LegacyBits CanonicalCode "HOL-Library.Product_Lexorder"
begin

text \<open>
  The canonical Huffman tables of the RAR 2.x and RAR 3.x/4.x decoders and the level-run filler
  (\<^verbatim>\<open>crates/rar/src/codec/legacy/lz.rs\<close>, \<open>Huffman\<close>, \<open>validate_huffman_counts\<close>,
  \<open>fill_levels\<close>). Counts and codes are 16-bit words, as in the source; the comparison
  with the canonical code of \<open>CanonicalCode\<close> shows that they never overflow.
\<close>

record huffman_symbol =
  hs_code :: u16
  hs_len :: byte
  hs_symbol :: nat

record huffman =
  hf_symbols :: "huffman_symbol list"
  first_code :: "u16 list"
  first_index :: "nat list"
  hf_counts :: "u16 list"

definition huffman_empty :: huffman where
  "huffman_empty = \<lparr>hf_symbols = [], first_code = replicate 16 0,
     first_index = replicate 16 0, hf_counts = replicate 16 0\<rparr>"

fun count_lengths :: "byte list \<Rightarrow> u16 list \<Rightarrow> lz_error + u16 list" where
  "count_lengths [] count = Inr count"
| "count_lengths (len # lens) count =
     (if 15 < len then Inl (Bad ''Huffman length is too large'')
      else if len \<noteq> 0 then count_lengths lens (count[unat len := count ! unat len + 1])
      else count_lengths lens count)"

fun validate_loop :: "u16 list \<Rightarrow> int \<Rightarrow> lz_error + unit" where
  "validate_loop [] available = Inr ()"
| "validate_loop (n # ns) available =
     (let available = 2 * available - int (unat n) in
      if available < 0 then Inl (Bad ''oversubscribed Huffman table'')
      else validate_loop ns available)"

definition validate_huffman_counts :: "u16 list \<Rightarrow> lz_error + unit" where
  "validate_huffman_counts count = validate_loop (drop 1 count) 1"

text \<open>The loops \<open>for len in 1..=15\<close> over the running code and the running index.\<close>

fun first_codes :: "u16 list \<Rightarrow> nat list \<Rightarrow> u16 \<Rightarrow> u16 list \<Rightarrow> u16 list" where
  "first_codes count [] code acc = acc"
| "first_codes count (len # lens) code acc =
     (let code = push_bit 1 (code + count ! (len - 1)) in
      first_codes count lens code (acc[len := code]))"

fun first_indices :: "u16 list \<Rightarrow> nat list \<Rightarrow> nat \<Rightarrow> nat list \<Rightarrow> nat list" where
  "first_indices count [] index acc = acc"
| "first_indices count (len # lens) index acc =
     first_indices count lens (index + unat (count ! len)) (acc[len := index])"

fun assign_codes :: "u16 list \<Rightarrow> nat \<Rightarrow> byte list \<Rightarrow> huffman_symbol list" where
  "assign_codes next symbol [] = []"
| "assign_codes next symbol (len # lens) =
     (if len = 0 then assign_codes next (symbol + 1) lens
      else \<lparr>hs_code = next ! unat len, hs_len = len, hs_symbol = symbol\<rparr> #
           assign_codes (next[unat len := next ! unat len + 1]) (symbol + 1) lens)"

definition sort_symbols :: "huffman_symbol list \<Rightarrow> huffman_symbol list" where
  "sort_symbols = sort_key (\<lambda>item. (hs_len item, hs_code item, hs_symbol item))"

definition huffman_from_lengths :: "byte list \<Rightarrow> lz_error + huffman" where
  "huffman_from_lengths lengths =
     rbind (count_lengths lengths (replicate 16 0)) (\<lambda>count.
       if list_all (\<lambda>value. value = 0) count then Inr huffman_empty
       else rbind (validate_huffman_counts count) (\<lambda>_.
         let codes = first_codes count [1..<16] 0 (replicate 16 0);
             indices = first_indices count [1..<16] 0 (replicate 16 0);
             symbols = sort_symbols (assign_codes codes 0 lengths)
         in Inr \<lparr>hf_symbols = symbols, first_code = codes,
                 first_index = indices, hf_counts = count\<rparr>))"

fun huffman_decode_loop ::
  "huffman \<Rightarrow> nat list \<Rightarrow> u16 \<Rightarrow> lz_reader \<Rightarrow> lz_error + (nat \<times> lz_reader)" where
  "huffman_decode_loop h [] code r = Inl (Bad ''invalid Huffman code'')"
| "huffman_decode_loop h (len # lens) code r =
     rbind (lz_read_bit r) (\<lambda>(bit, r).
       let code = push_bit 1 code OR ucast bit; count = hf_counts h ! len in
       if count \<noteq> 0 \<and> code - first_code h ! len < count then
         rbind (ok_or Panic (get (hf_symbols h)
             (first_index h ! len + unat (code - first_code h ! len)))) (\<lambda>item.
           Inr (hs_symbol item, r))
       else huffman_decode_loop h lens code r)"

definition huffman_decode :: "huffman \<Rightarrow> lz_reader \<Rightarrow> lz_error + (nat \<times> lz_reader)" where
  "huffman_decode h r =
     (if hf_symbols h = [] then Inl (Bad ''empty Huffman table'')
      else huffman_decode_loop h [1..<16] 0 r)"

definition huffman_is_empty :: "huffman \<Rightarrow> bool" where
  "huffman_is_empty h = (hf_symbols h = [])"

text \<open>
  \<open>fill_levels\<close>: the table after the run and the position after it. \<open>usize\<close>
  addition is checked at \<open>2 ^ 64\<close>; a position past the end is the slice panic of the source.
\<close>

definition fill_levels :: "byte list \<Rightarrow> nat \<Rightarrow> nat \<Rightarrow> byte \<Rightarrow> lz_error + (byte list \<times> nat)" where
  "fill_levels levels pos count value =
     (if 2 ^ 64 \<le> pos + count then Inl (Bad ''table run overflows'')
      else let end = min (pos + count) (length levels) in
        if end < pos then Inl Panic
        else Inr (take pos levels @ replicate (end - pos) value @ drop end levels, end))"

lemma fill_levels_ok:
  assumes "pos \<le> length levels" "pos + count < 2 ^ 64" "fill_levels levels pos count value = Inr (l', p')"
  shows "length l' = length levels \<and> pos \<le> p' \<and> p' \<le> length levels \<and>
    (count = 0 \<or> pos = length levels \<or> pos < p')"
  using assms by (auto simp: fill_levels_def Let_def split: if_splits)

section \<open>The tables of a valid set of lengths\<close>

lemma count_lengths_spec:
  assumes "length count = 16"
  shows "count_lengths lengths count =
    (if list_all (\<lambda>len. len \<le> 15) lengths
     then Inr (map (\<lambda>l. count ! l + word_of_nat (canon_count lengths l)) [0..<16])
     else Inl (Bad ''Huffman length is too large''))"
  using assms
proof (induction lengths arbitrary: count)
  case Nil
  have "map (\<lambda>l. count ! l + word_of_nat (canon_count [] l)) [0..<length count] = count"
    by (rule nth_equalityI) (simp_all add: canon_count_list)
  then show ?case unfolding Nil by simp
next
  case (Cons x xs)
  show ?case
  proof (cases "x \<le> 15")
    case False
    then show ?thesis by (simp add: not_le)
  next
    case True
    have "map (\<lambda>l. (count[unat x := count ! unat x + 1]) ! l + word_of_nat (canon_count xs l)) [0..<16]
        = map (\<lambda>l. count ! l + word_of_nat (canon_count (x # xs) l)) [0..<16]" if "x \<noteq> 0"
      using that Cons.prems
      by (intro map_cong refl) (auto simp: canon_count_Cons nth_list_update unat_gt_0)
    moreover have "map (\<lambda>l. count ! l + word_of_nat (canon_count xs l)) [0..<16]
        = map (\<lambda>l. count ! l + word_of_nat (canon_count (x # xs) l)) [0..<16]" if "x = 0"
      using that by (auto simp: canon_count_Cons)
    moreover have "\<not> 15 < x" using True by simp
    ultimately show ?thesis
      using True Cons.prems Cons.IH [of count] Cons.IH [of "count[unat x := count ! unat x + 1]"]
      by (cases "x = 0") (simp_all del: not_less)
  qed
qed

lemma length_first_codes [simp]: "length (first_codes count lens code acc) = length acc"
  by (induction count lens code acc rule: first_codes.induct) (simp_all add: Let_def)

lemma length_first_indices [simp]: "length (first_indices count lens index acc) = length acc"
  by (induction count lens index acc rule: first_indices.induct) (simp_all add: Let_def)

lemma first_codes_spec:
  assumes "\<And>l. l < 16 \<Longrightarrow> count ! l = word_of_nat (c l)" "length acc = 16" "0 < k" "k \<le> 16"
  shows "l < 16 \<Longrightarrow> first_codes count [k..<16] (word_of_nat (canon_first c (k - 1))) acc ! l =
    (if k \<le> l then word_of_nat (canon_first c l) else acc ! l)"
  using assms
proof (induction "16 - k" arbitrary: k acc)
  case 0
  then show ?case by simp
next
  case (Suc n)
  from Suc have k: "k < 16" "[k..<16] = k # [Suc k..<16]" by (simp_all add: upt_conv_Cons)
  have "push_bit 1 (word_of_nat (canon_first c (k - 1)) + count ! (k - 1)) =
      (word_of_nat (canon_first c k) :: u16)"
  proof (cases k)
    case 0
    with Suc.prems show ?thesis by simp
  next
    case (Suc j)
    with Suc.prems(2) [of j] k(1) show ?thesis
      by (simp add: push_bit_eq_mult algebra_simps)
  qed
  then show ?case
    using Suc.hyps(1) [of "Suc k" "acc[k := word_of_nat (canon_first c k)]"] Suc k
    by (cases "l = k") (auto simp: Let_def nth_list_update)
qed

lemma first_indices_spec:
  assumes "\<And>l. l < 16 \<Longrightarrow> unat (count ! l) = c l" "length acc = 16" "k \<le> 16"
  shows "l < 16 \<Longrightarrow> first_indices count [k..<16] index acc ! l =
    (if k \<le> l then index + sum_list (map c [k..<l]) else acc ! l)"
  using assms
proof (induction "16 - k" arbitrary: k index acc)
  case 0
  then show ?case by simp
next
  case (Suc n)
  from Suc have k: "k < 16" "[k..<16] = k # [Suc k..<16]" by (simp_all add: upt_conv_Cons)
  have "k < l \<Longrightarrow> [k..<l] = k # [Suc k..<l]" by (simp add: upt_conv_Cons)
  then show ?case
    using Suc.hyps(1) [of "Suc k" "acc[k := index]" "index + c k"] Suc k
    by (cases "l = k") (auto simp: Let_def nth_list_update)
qed

lemma validate_loop_spec:
  assumes "\<And>l. l < 16 \<Longrightarrow> c l < 65536" "k \<le> 16" "0 < k"
  shows "validate_loop (map (\<lambda>l. word_of_nat (c l)) [k..<16]) (2 ^ (k - 1) - int (canon_end c (k - 1))) =
    (if \<forall>l. k \<le> l \<and> l < 16 \<longrightarrow> canon_end c l \<le> 2 ^ l then Inr ()
     else Inl (Bad ''oversubscribed Huffman table''))"
  using assms
proof (induction "16 - k" arbitrary: k)
  case 0
  then show ?case by simp
next
  case (Suc n)
  from Suc have k: "k < 16" "[k..<16] = k # [Suc k..<16]" by (simp_all add: upt_conv_Cons)
  have u: "int (unat (word_of_nat (c k) :: u16)) = int (c k)"
    using Suc.prems(1) [OF k(1)] by (simp add: unsigned_of_nat take_bit_nat_eq_self)
  have step: "2 * (2 ^ (k - 1) - int (canon_end c (k - 1))) - int (c k) = 2 ^ k - int (canon_end c k)"
    using Suc.prems(3) by (cases k) (simp_all add: canon_end_def)
  have "(2 :: int) ^ k < int (canon_end c k) \<longleftrightarrow> \<not> canon_end c k \<le> 2 ^ k"
    using of_nat_less_iff [of "2 ^ k" "canon_end c k", where 'a = int] by (simp add: not_le)
  moreover have "(\<forall>l. k \<le> l \<and> l < 16 \<longrightarrow> canon_end c l \<le> 2 ^ l) \<longleftrightarrow>
      canon_end c k \<le> 2 ^ k \<and> (\<forall>l. Suc k \<le> l \<and> l < 16 \<longrightarrow> canon_end c l \<le> 2 ^ l)"
    using k(1) le_eq_less_or_eq [of k] unfolding Suc_le_eq by blast
  moreover have "validate_loop (map (\<lambda>l. word_of_nat (c l)) [k..<16])
      (2 ^ (k - 1) - int (canon_end c (k - 1))) =
    (if 2 ^ k - int (canon_end c k) < 0 then Inl (Bad ''oversubscribed Huffman table'')
     else validate_loop (map (\<lambda>l. word_of_nat (c l)) [Suc k..<16]) (2 ^ k - int (canon_end c k)))"
    by (simp only: k(2) list.map validate_loop.simps Let_def u step)
  ultimately show ?case
    using Suc.hyps(1) [of "Suc k"] Suc.hyps(2) Suc.prems k(1) by auto
qed

section \<open>The sorted symbol table\<close>

definition canon_entry :: "byte list \<Rightarrow> nat \<Rightarrow> huffman_symbol" where
  "canon_entry lengths s =
     \<lparr>hs_code = word_of_nat (canon_code lengths s), hs_len = lengths ! s, hs_symbol = s\<rparr>"

definition canon_table :: "byte list \<Rightarrow> huffman_symbol list" where
  "canon_table lengths =
     concat (map (\<lambda>l. map (canon_entry lengths) (canon_positions lengths l)) [1..<16])"

lemma assign_codes_spec:
  assumes "length next = 16" "list_all (\<lambda>len. len \<le> 15) lengths"
  shows "assign_codes next k lengths =
    map (\<lambda>i. \<lparr>hs_code = next ! unat (lengths ! i) + word_of_nat (canon_rank lengths i),
              hs_len = lengths ! i, hs_symbol = k + i\<rparr>)
      (filter (\<lambda>i. lengths ! i \<noteq> 0) [0..<length lengths])"
  using assms
proof (induction lengths arbitrary: "next" k)
  case Nil
  then show ?case by simp
next
  case (Cons x xs)
  have positions: "filter (\<lambda>i. (x # xs) ! i \<noteq> 0) [0..<length (x # xs)] =
      (if x \<noteq> 0 then [0] else []) @ map Suc (filter (\<lambda>i. xs ! i \<noteq> 0) [0..<length xs])"
    unfolding length_Cons upt_Suc_shift by (simp add: filter_map comp_def)
  show ?case
  proof (cases "x = 0")
    case True
    have "canon_rank (x # xs) (Suc i) = canon_rank xs i" if "xs ! i \<noteq> 0" for i
      using that True by (simp add: canon_rank_Cons)
    with True Cons show ?thesis unfolding positions by simp
  next
    case False
    let ?next = "next[unat x := next ! unat x + 1]"
    have "unat x < 16" using Cons.prems(2) by (simp add: word_le_nat_alt)
    then have "?next ! unat (xs ! i) + word_of_nat (canon_rank xs i) =
        next ! unat (xs ! i) + word_of_nat (canon_rank (x # xs) (Suc i))" for i
      using Cons.prems(1) word_unat_eq_iff [of x "xs ! i"]
      by (auto simp: canon_rank_Cons nth_list_update algebra_simps)
    with False Cons show ?thesis unfolding positions by simp
  qed
qed

lemma sorted_wrt_concat_blocks:
  assumes "sorted_wrt (<) (ls :: nat list)" "\<And>l. l \<in> set ls \<Longrightarrow> sorted_wrt R (f l)"
    and "\<And>l m x y. l \<in> set ls \<Longrightarrow> m \<in> set ls \<Longrightarrow> l < m \<Longrightarrow> x \<in> set (f l) \<Longrightarrow> y \<in> set (f m) \<Longrightarrow> R x y"
  shows "sorted_wrt R (concat (map f ls))"
  using assms
proof (induction ls)
  case Nil
  then show ?case by simp
next
  case (Cons l ls)
  have "sorted_wrt R (concat (map f ls))"
    using Cons.prems by (intro Cons.IH) (auto intro: Cons.prems)
  moreover have "sorted_wrt R (f l)" using Cons.prems(2) by simp
  moreover have "R x y" if "x \<in> set (f l)" "m \<in> set ls" "y \<in> set (f m)" for x y m
    using that Cons.prems(1) by (intro Cons.prems(3) [of l m]) auto
  ultimately show ?case by (auto simp: sorted_wrt_append)
qed

definition symbol_key :: "huffman_symbol \<Rightarrow> byte \<times> u16 \<times> nat" where
  "symbol_key item = (hs_len item, hs_code item, hs_symbol item)"

lemma inj_symbol_key: "inj symbol_key"
  by (rule injI) (simp add: symbol_key_def)

lemma symbol_key_less:
  "symbol_key x < symbol_key y \<longleftrightarrow> hs_len x < hs_len y \<or> hs_len x = hs_len y \<and>
     (hs_code x < hs_code y \<or> hs_code x = hs_code y \<and> hs_symbol x < hs_symbol y)"
  by (auto simp: symbol_key_def less_prod_def)

definition lengths_fit :: "byte list \<Rightarrow> bool" where
  "lengths_fit lengths \<longleftrightarrow>
     list_all (\<lambda>len. len \<le> 15) lengths \<and>
     (\<forall>l<16. canon_end (canon_count lengths) l \<le> 2 ^ l)"

lemma canon_table_sorted:
  assumes "lengths_fit lengths"
  shows "sorted_wrt (<) (map symbol_key (canon_table lengths))"
proof -
  have "sorted_wrt (\<lambda>x y. symbol_key x < symbol_key y) (canon_table lengths)"
    unfolding canon_table_def
  proof (rule sorted_wrt_concat_blocks)
    show "sorted_wrt (<) [1..<16::nat]" by simp
  next
    fix l assume "l \<in> set [1..<16::nat]"
    then have l: "l < 16" by simp
    let ?ps = "canon_positions lengths l"
    show "sorted_wrt (\<lambda>x y. symbol_key x < symbol_key y) (map (canon_entry lengths) ?ps)"
      unfolding sorted_wrt_map unfolding sorted_wrt_iff_nth_less
    proof (intro allI impI)
      fix i j assume ij: "i < j" "j < length ?ps"
      then have i: "i < length ?ps" by simp
      have "canon_end (canon_count lengths) l \<le> 2 ^ l" using assms l by (simp add: lengths_fit_def)
      moreover have "(2 :: nat) ^ l \<le> 2 ^ 15" using l by (intro power_increasing) auto
      moreover have "0 < l \<Longrightarrow> length ?ps = canon_count lengths l" by (simp add: canon_count_def)
      moreover have "0 < l" using \<open>l \<in> set [1..<16::nat]\<close> by simp
      ultimately have "canon_first (canon_count lengths) l + j < 2 ^ 15"
        using ij(2) by (simp add: canon_end_def)
      then have "(word_of_nat (canon_first (canon_count lengths) l + i) :: u16)
          < word_of_nat (canon_first (canon_count lengths) l + j)"
        using ij(1) unfolding word_less_nat_alt unsigned_of_nat
        by (simp add: take_bit_nat_eq_self)
      then show "symbol_key (canon_entry lengths (?ps ! i)) < symbol_key (canon_entry lengths (?ps ! j))"
        using canon_positions_nth [OF i] canon_positions_nth [OF ij(2)]
        by (simp add: symbol_key_less canon_entry_def canon_code_def word_unat_eq_iff)
    qed
  next
    fix l m x y
    assume "l < m" "x \<in> set (map (canon_entry lengths) (canon_positions lengths l))"
      "y \<in> set (map (canon_entry lengths) (canon_positions lengths m))"
    then show "symbol_key x < symbol_key y"
      by (auto simp: symbol_key_less canon_entry_def canon_positions_def word_less_nat_alt)
  qed
  then show ?thesis by (simp add: sorted_wrt_map)
qed

lemma set_canon_table:
  assumes "list_all (\<lambda>len. len \<le> 15) lengths"
  shows "set (canon_table lengths) =
    canon_entry lengths ` {i. i < length lengths \<and> lengths ! i \<noteq> 0}"
proof -
  have "unat (lengths ! i) < 16" if "i < length lengths" for i
    using assms that by (auto simp: list_all_length word_le_nat_alt)
  then have "lengths ! i \<noteq> 0 \<longleftrightarrow> unat (lengths ! i) \<in> {1..<16}" if "i < length lengths" for i
    using that unat_gt_0 [of "lengths ! i"] by (auto simp: Suc_le_eq)
  then have "{i. i < length lengths \<and> lengths ! i \<noteq> 0} =
      (\<Union>l\<in>{1..<16}. {i. i < length lengths \<and> unat (lengths ! i) = l})"
    by blast
  then show ?thesis
    by (simp add: canon_table_def canon_positions_def image_UN del: upt_rec_numeral)
qed

lemma sort_symbols_canon:
  assumes fit: "lengths_fit lengths" and "length next = 16"
    and "\<And>l. l < 16 \<Longrightarrow> 0 < l \<Longrightarrow> next ! l = word_of_nat (canon_first (canon_count lengths) l)"
  shows "sort_symbols (assign_codes next 0 lengths) = canon_table lengths"
proof -
  let ?xs = "assign_codes next 0 lengths"
  have all: "list_all (\<lambda>len. len \<le> 15) lengths" using fit by (simp add: lengths_fit_def)
  have xs: "?xs = map (canon_entry lengths) (filter (\<lambda>i. lengths ! i \<noteq> 0) [0..<length lengths])"
    unfolding assign_codes_spec [OF assms(2) all]
    using all assms(3)
    by (intro map_cong refl)
      (auto simp: canon_entry_def canon_code_def list_all_length word_le_nat_alt unat_gt_0 less_Suc_eq_le)
  have "distinct (map symbol_key ?xs)"
    unfolding xs by (auto simp: distinct_map inj_on_def symbol_key_def canon_entry_def)
  then have "distinct (map symbol_key (sort_symbols ?xs))"
    unfolding sort_symbols_def symbol_key_def distinct_map by simp
  moreover have "sorted (map symbol_key (sort_symbols ?xs))"
    unfolding sort_symbols_def symbol_key_def by (rule sorted_sort_key)
  ultimately have "sorted_wrt (<) (map symbol_key (sort_symbols ?xs))"
    by (simp add: strict_sorted_iff)
  moreover have "set (sort_symbols ?xs) = set (canon_table lengths)"
    using set_canon_table [OF all] by (auto simp: sort_symbols_def xs)
  ultimately have "map symbol_key (sort_symbols ?xs) = map symbol_key (canon_table lengths)"
    using canon_table_sorted [OF fit] by (metis strict_sorted_equal list.set_map)
  then show ?thesis using inj_symbol_key by (simp add: inj_map_eq_map)
qed

section \<open>What the constructor builds\<close>

text \<open>The tables hold the canonical code of \<open>lengths\<close>, with no 16-bit overflow.\<close>

definition huffman_for :: "byte list \<Rightarrow> huffman \<Rightarrow> bool" where
  "huffman_for lengths h \<longleftrightarrow>
     lengths_fit lengths \<and> hf_symbols h = canon_table lengths \<and>
     (\<forall>l<16. hf_counts h ! l = word_of_nat (canon_count lengths l)) \<and>
     (\<forall>l<16. 0 < l \<longrightarrow> first_code h ! l = word_of_nat (canon_first (canon_count lengths) l)) \<and>
     (\<forall>l<16. 0 < l \<longrightarrow> first_index h ! l = sum_list (map (canon_count lengths) [1..<l]))"

lemma word16_of_nat_eq_0: "n < 65536 \<Longrightarrow> (word_of_nat n :: u16) = 0 \<longleftrightarrow> n = 0"
  by (simp add: word_unat_eq_iff unsigned_of_nat take_bit_nat_eq_self)

lemma no_lengths_fit:
  assumes "\<And>l. l < 16 \<Longrightarrow> canon_count lengths l = 0"
  shows "l < 16 \<Longrightarrow> canon_first (canon_count lengths) l = 0"
  by (induction l) (use assms in auto)

lemma huffman_from_lengths_cases:
  assumes short: "length lengths < 65536"
  shows "huffman_from_lengths lengths =
      Inl (Bad ''Huffman length is too large'') \<and> \<not> list_all (\<lambda>len. len \<le> 15) lengths
    \<or> huffman_from_lengths lengths = Inl (Bad ''oversubscribed Huffman table'') \<and> \<not> lengths_fit lengths
    \<or> (\<exists>h. huffman_from_lengths lengths = Inr h \<and> huffman_for lengths h)"
proof (cases "list_all (\<lambda>len. len \<le> 15) lengths")
  case False
  then show ?thesis by (simp add: huffman_from_lengths_def count_lengths_spec)
next
  case all: True
  let ?c = "canon_count lengths"
  let ?count = "map (\<lambda>l. word_of_nat (?c l) :: u16) [0..<16]"
  have c: "?c l < 65536" for l using canon_count_le [of lengths l] short by simp
  have "map (\<lambda>l. replicate 16 0 ! l + word_of_nat (?c l)) [0..<16] = ?count"
    by (intro map_cong refl) simp
  then have count: "count_lengths lengths (replicate 16 0) = Inr ?count"
    using all by (simp only: count_lengths_spec length_replicate if_True)
  have nth: "?count ! l = word_of_nat (?c l)" if "l < 16" for l using that by (simp del: upt_rec_numeral)
  have u: "unat (?count ! l) = ?c l" if "l < 16" for l
    unfolding nth [OF that] using c [of l] by (simp add: unsigned_of_nat take_bit_nat_eq_self)
  have zero: "list_all (\<lambda>v. v = 0) ?count \<longleftrightarrow> (\<forall>l<16. ?c l = 0)"
    using c word16_of_nat_eq_0 by (auto simp: list_all_iff simp del: upt_rec_numeral)
  show ?thesis
  proof (cases "\<forall>l<16. ?c l = 0")
    case True
    then have f: "canon_first ?c l = 0" if "l < 16" for l using no_lengths_fit [of lengths l] that by simp
    have "canon_positions lengths l = []" if "l \<in> set [1..<16]" for l
      using True that by (auto simp: canon_count_def simp del: upt_rec_numeral)
    then have "canon_table lengths = []"
      by (simp add: canon_table_def del: upt_rec_numeral)
    moreover have "sum_list (map ?c [1..<l]) = 0" if "l < 16" for l
      using True that by (simp add: sum_list_eq_0_iff)
    ultimately have "huffman_for lengths huffman_empty"
      using True all f
      by (auto simp: huffman_for_def lengths_fit_def huffman_empty_def canon_end_def)
    moreover have "huffman_from_lengths lengths = Inr huffman_empty"
      using True by (simp only: huffman_from_lengths_def count rbind_Inr zero) simp
    ultimately show ?thesis by blast
  next
    case False
    have drop: "drop 1 ?count = map (\<lambda>l. word_of_nat (?c l)) [1..<16]"
      by (simp add: drop_map del: upt_rec_numeral)
    have fit: "(\<forall>l. 1 \<le> l \<and> l < 16 \<longrightarrow> canon_end ?c l \<le> 2 ^ l) \<longleftrightarrow> lengths_fit lengths"
    proof -
      have "canon_end ?c 0 \<le> 2 ^ 0" by (simp add: canon_end_def canon_count_def)
      then have "(\<forall>l. 1 \<le> l \<and> l < 16 \<longrightarrow> canon_end ?c l \<le> 2 ^ l) \<longleftrightarrow> (\<forall>l<16. canon_end ?c l \<le> 2 ^ l)"
        by (metis One_nat_def Suc_leI neq0_conv)
      with all show ?thesis by (simp add: lengths_fit_def)
    qed
    have "canon_end ?c 0 = 0" by (simp add: canon_end_def canon_count_def)
    then have v: "validate_huffman_counts ?count = (if lengths_fit lengths then Inr () else Inl (Bad ''oversubscribed Huffman table''))"
      using validate_loop_spec [of ?c 1] c unfolding validate_huffman_counts_def drop fit [symmetric]
      by simp
    let ?codes = "first_codes ?count [1..<16] 0 (replicate 16 0)"
    let ?indices = "first_indices ?count [1..<16] 0 (replicate 16 0)"
    have codes: "?codes ! l = word_of_nat (canon_first ?c l)" if "l < 16" "0 < l" for l
      using first_codes_spec [of ?count ?c "replicate 16 0" 1 l] nth that
      by (simp del: upt_rec_numeral)
    have indices: "?indices ! l = sum_list (map ?c [1..<l])" if "l < 16" "0 < l" for l
      using first_indices_spec [of ?count ?c "replicate 16 0" 1 l 0] u that
      by (simp del: upt_rec_numeral)
    show ?thesis
    proof (cases "lengths_fit lengths")
      case True
      have sorted: "sort_symbols (assign_codes ?codes 0 lengths) = canon_table lengths"
        using codes by (intro sort_symbols_canon [OF True]) (simp_all del: upt_rec_numeral)
      have "huffman_from_lengths lengths =
          Inr \<lparr>hf_symbols = canon_table lengths, first_code = ?codes,
               first_index = ?indices, hf_counts = ?count\<rparr>"
        using False True
        by (simp only: huffman_from_lengths_def count rbind_Inr zero v Let_def sorted if_False if_True)
      moreover have "huffman_for lengths \<lparr>hf_symbols = canon_table lengths, first_code = ?codes,
               first_index = ?indices, hf_counts = ?count\<rparr>"
        unfolding huffman_for_def huffman.simps using True nth codes indices by blast
      ultimately show ?thesis by blast
    next
      case notfit: False
      then have "huffman_from_lengths lengths = Inl (Bad ''oversubscribed Huffman table'')"
        using False by (simp only: huffman_from_lengths_def count rbind_Inr zero v if_False rbind_Inl)
      with notfit show ?thesis by blast
    qed
  qed
qed

section \<open>Decoding\<close>

lemma canon_table_nth:
  assumes "0 < l" "l < 16" "k < canon_count lengths l"
  shows "sum_list (map (canon_count lengths) [1..<l]) + k < length (canon_table lengths)"
    and "canon_table lengths ! (sum_list (map (canon_count lengths) [1..<l]) + k)
           = canon_entry lengths (canon_positions lengths l ! k)"
proof -
  let ?f = "\<lambda>l. map (canon_entry lengths) (canon_positions lengths l)"
  let ?pre = "concat (map ?f [1..<l])"
  have "[1..<16] = [1..<l] @ l # [Suc l..<16]"
    using assms(1,2) upt_add_eq_append [of 1 l "16 - l"] upt_conv_Cons [of l 16] by simp
  then have table: "canon_table lengths = ?pre @ ?f l @ concat (map ?f [Suc l..<16])"
    by (simp only: canon_table_def map_append list.map concat_append concat.simps)
  have "map (length \<circ> ?f) [1..<l] = map (canon_count lengths) [1..<l]"
    by (intro map_cong refl) (simp add: canon_count_def)
  then have pre: "length ?pre = sum_list (map (canon_count lengths) [1..<l])"
    by (simp only: length_concat map_map)
  have k: "k < length (canon_positions lengths l)"
    using assms(1,3) by (simp add: canon_count_def)
  show "sum_list (map (canon_count lengths) [1..<l]) + k < length (canon_table lengths)"
    unfolding pre [symmetric] table using k by simp
  show "canon_table lengths ! (sum_list (map (canon_count lengths) [1..<l]) + k)
           = canon_entry lengths (canon_positions lengths l ! k)"
    unfolding pre [symmetric] table using k by (simp add: nth_append)
qed

text \<open>The wrapping comparison \<open>code.wrapping_sub(first) < count\<close> is the interval test.\<close>

lemma offset_in_interval:
  fixes f v n :: nat
  assumes "f + n \<le> 2 ^ 15" "v < 2 ^ 15"
  shows "(word_of_nat n :: u16) \<noteq> 0 \<and> (word_of_nat v - word_of_nat f :: u16) < word_of_nat n \<longleftrightarrow>
      f \<le> v \<and> v < f + n"
    and "f \<le> v \<Longrightarrow> unat (word_of_nat v - word_of_nat f :: u16) = v - f"
proof -
  have u: "unat (word_of_nat k :: u16) = k" if "k < 65536" for k
    using that by (simp add: unsigned_of_nat take_bit_nat_eq_self)
  have le: "word_of_nat v - word_of_nat f = (word_of_nat (v - f) :: u16)" if "f \<le> v"
    using that by (simp add: of_nat_diff)
  then show "f \<le> v \<Longrightarrow> unat (word_of_nat v - word_of_nat f :: u16) = v - f"
    using u [of "v - f"] assms(2) by (simp del: of_nat_diff)
  show "(word_of_nat n :: u16) \<noteq> 0 \<and> (word_of_nat v - word_of_nat f :: u16) < word_of_nat n \<longleftrightarrow>
      f \<le> v \<and> v < f + n"
  proof (cases "f \<le> v")
    case True
    then show ?thesis
      using assms u [of n] u [of "v - f"] unfolding le [OF True] word_less_nat_alt word_unat_eq_iff
      by auto
  next
    case False
    have "(word_of_nat v - word_of_nat f :: u16) = word_of_nat (65536 + v) - word_of_nat f"
      by simp
    also have "\<dots> = word_of_nat (65536 + v - f)"
      using False assms by (subst of_nat_diff) auto
    finally have eq: "(word_of_nat v - word_of_nat f :: u16) = word_of_nat (65536 + v - f)" .
    have "65536 + v - f < 65536" using False by simp
    from u [OF this] have "unat (word_of_nat v - word_of_nat f :: u16) = 65536 + v - f"
      by (simp only: eq)
    then show ?thesis
      using assms False u [of n] unfolding word_less_nat_alt by auto
  qed
qed

text \<open>The decoder as a search for the length whose code interval contains the next bits.\<close>

definition huffman_decode_spec :: "byte list \<Rightarrow> nat list \<Rightarrow> lz_reader \<Rightarrow> lz_error + (nat \<times> lz_reader)" where
  "huffman_decode_spec lengths lens r =
     (case find (canon_hit lengths (lz_rest r)) lens of
        Some l \<Rightarrow> Inr (canon_symbol lengths (lz_rest r) l, r\<lparr>lz_bit_pos := lz_bit_pos r + l\<rparr>)
      | None \<Rightarrow> if lz_bits_left r < 15 then Inl Truncated else Inl (Bad ''invalid Huffman code''))"

lemma huffman_decode_loop_spec:
  assumes h: "huffman_for lengths h" and "0 < l" "l \<le> 16" "l - 1 \<le> lz_bits_left r"
  shows "huffman_decode_loop h [l..<16] (bits_value (take (l - 1) (lz_rest r)))
      (r\<lparr>lz_bit_pos := lz_bit_pos r + (l - 1)\<rparr>) = huffman_decode_spec lengths [l..<16] r"
  using assms(2-)
proof (induction "16 - l" arbitrary: l)
  case 0
  then show ?case by (simp add: huffman_decode_spec_def)
next
  case (Suc n)
  from Suc have l: "l < 16" "[l..<16] = l # [Suc l..<16]" by (simp_all add: upt_conv_Cons)
  let ?bs = "lz_rest r" let ?c = "canon_count lengths"
  let ?r = "\<lambda>k. r\<lparr>lz_bit_pos := lz_bit_pos r + k\<rparr>"
  show ?case
  proof (cases "l \<le> lz_bits_left r")
    case False
    then have "lz_rest (?r (l - 1)) = []" unfolding lz_rest_advance by simp
    then have "lz_read_bit (?r (l - 1)) = Inl Truncated" by (simp add: lz_read_bit_value)
    moreover have "find (canon_hit lengths ?bs) [l..<16] = None"
      using False by (auto simp: find_None_iff canon_hit_def)
    moreover have "lz_bits_left r < 15" using False l(1) Suc.prems by simp
    ultimately show ?thesis
      by (simp only: l(2) huffman_decode_loop.simps rbind_Inl huffman_decode_spec_def) simp
  next
    case True
    define b where "b = ?bs ! (l - 1)"
    define v where "v = bits_nat (take l ?bs)"
    let ?f = "canon_first ?c l" let ?o = "sum_list (map ?c [1..<l])"
    from True Suc.prems have len: "l - 1 < length ?bs" by simp
    have take: "take l ?bs = take (l - 1) ?bs @ [b]"
      using take_Suc_conv_app_nth [OF len] Suc.prems(1) by (simp add: b_def)
    have rest: "lz_rest (?r (l - 1)) = b # drop l ?bs"
      unfolding lz_rest_advance using Cons_nth_drop_Suc [OF len] Suc.prems(1) by (simp add: b_def)
    have next_r: "?r (l - 1)\<lparr>lz_bit_pos := lz_bit_pos (?r (l - 1)) + 1\<rparr> = ?r l"
      using Suc.prems(1) by simp
    have bit: "lz_read_bit (?r (l - 1)) = Inr (of_bool b, ?r l)"
      using next_r by (simp only: lz_read_bit_value rest list.case)
    have "ucast (of_bool b :: byte) = (of_bool b :: u16)" by (cases b) simp_all
    then have code: "push_bit 1 (bits_value (take (l - 1) ?bs)) OR ucast (of_bool b :: byte) =
        (bits_value (take l ?bs) :: u16)"
      by (simp only: take bits_value_snoc)
    have val16: "bits_value (take l ?bs) = (word_of_nat v :: u16)"
      unfolding v_def using l(1) by (intro bits_value_eq_nat) simp
    have v15: "v < 2 ^ 15"
      using bits_nat_less [of "take l ?bs"] power_increasing [of l 15 "2 :: nat"] l(1) True
      by (simp add: v_def min_def split: if_splits)
    have "canon_end ?c l \<le> 2 ^ l" using h l(1) by (simp add: huffman_for_def lengths_fit_def)
    also have "(2 :: nat) ^ l \<le> 2 ^ 15" using l(1) by (intro power_increasing) auto
    finally have f15: "?f + ?c l \<le> 2 ^ 15" by (simp add: canon_end_def)
    have hit: "canon_hit lengths ?bs l \<longleftrightarrow> ?f \<le> v \<and> v < ?f + ?c l"
      using True by (simp add: canon_hit_def canon_end_def v_def)
    have tables: "hf_counts h ! l = word_of_nat (?c l)" "first_code h ! l = word_of_nat ?f"
        "first_index h ! l = ?o" "hf_symbols h = canon_table lengths"
      using h l(1) Suc.prems(1) by (auto simp: huffman_for_def)
    note test = offset_in_interval [OF f15 v15]
    show ?thesis
    proof (cases "canon_hit lengths ?bs l")
      case False
      have "huffman_decode_loop h [l..<16] (bits_value (take (l - 1) ?bs)) (?r (l - 1)) =
          huffman_decode_loop h [Suc l..<16] (bits_value (take (Suc l - 1) ?bs)) (?r (Suc l - 1))"
        using False unfolding hit test(1) [symmetric]
        by (simp only: l(2) huffman_decode_loop.simps bit rbind_Inr prod.case code tables Let_def
            val16 if_False diff_Suc_1)
      also have "\<dots> = huffman_decode_spec lengths [Suc l..<16] r"
        using Suc True l(1) by (intro Suc.hyps(1)) simp_all
      also have "\<dots> = huffman_decode_spec lengths [l..<16] r"
        using False by (simp add: huffman_decode_spec_def l(2))
      finally show ?thesis .
    next
      case True
      then have "v - ?f < ?c l" by (auto simp: hit)
      note nth = canon_table_nth [OF Suc.prems(1) l(1) this]
      have "huffman_decode_loop h [l..<16] (bits_value (take (l - 1) ?bs)) (?r (l - 1)) =
          Inr (hs_symbol (canon_table lengths ! (?o + (v - ?f))), ?r l)"
        using True nth(1) unfolding hit
        by (simp only: l(2) huffman_decode_loop.simps bit rbind_Inr prod.case code tables Let_def
            val16 if_True test get_def ok_or_simps simp_thms)
      moreover have "hs_symbol (canon_table lengths ! (?o + (v - ?f))) = canon_symbol lengths ?bs l"
        by (simp only: nth(2) canon_entry_def canon_symbol_def v_def [symmetric] huffman_symbol.simps)
      moreover have "huffman_decode_spec lengths [l..<16] r = Inr (canon_symbol lengths ?bs l, ?r l)"
        using True by (simp add: l(2) huffman_decode_spec_def)
      ultimately show ?thesis by (simp only:)
    qed
  qed
qed

lemma huffman_decode_eq_spec:
  assumes "huffman_for lengths h"
  shows "huffman_decode h r =
    (if hf_symbols h = [] then Inl (Bad ''empty Huffman table'')
     else huffman_decode_spec lengths [1..<16] r)"
  using huffman_decode_loop_spec [OF assms, of 1 r] by (simp add: huffman_decode_def del: upt_rec_numeral)

lemma canon_table_empty_no_hit:
  assumes "canon_table lengths = []" "0 < l" "l < 16"
  shows "\<not> canon_hit lengths bs l"
proof -
  have "l \<in> {1..<16}" using assms by simp
  with assms(1) have "canon_positions lengths l = []" by (auto simp: canon_table_def)
  then show ?thesis by (simp add: canon_hit_def canon_end_def canon_count_def)
qed

lemma canon_symbol_next:
  assumes "canon_hit lengths bs l" "l \<le> 15"
  shows "canon_next lengths bs (canon_symbol lengths bs l)"
    and "unat (lengths ! canon_symbol lengths bs l) = l"
  using canon_next_iff_hit [OF assms(2), of lengths bs "canon_symbol lengths bs l"] assms(1) by auto

lemma find_canon_hit:
  "find (canon_hit lengths bs) [1..<16] = Some l \<longleftrightarrow> l \<le> 15 \<and> canon_hit lengths bs l"
proof
  assume "find (canon_hit lengths bs) [1..<16] = Some l"
  then show "l \<le> 15 \<and> canon_hit lengths bs l" by (auto simp: find_Some_iff)
next
  assume l: "l \<le> 15 \<and> canon_hit lengths bs l"
  then have "l \<in> set [1..<16]" using canon_hit_pos by fastforce
  then have "find (canon_hit lengths bs) [1..<16] \<noteq> None"
    using l by (metis find_None_iff)
  then obtain m where m: "find (canon_hit lengths bs) [1..<16] = Some m" by blast
  then have "canon_hit lengths bs m" by (auto simp: find_Some_iff)
  with l m show "find (canon_hit lengths bs) [1..<16] = Some l" using canon_hit_unique by metis
qed

lemma huffman_decode_spec_iff:
  "huffman_decode_spec lengths [1..<16] r = Inr (s, r') \<longleftrightarrow>
     canon_next lengths (lz_rest r) s \<and>
     r' = r\<lparr>lz_bit_pos := lz_bit_pos r + unat (lengths ! s)\<rparr>"
proof (cases "find (canon_hit lengths (lz_rest r)) [1..<16]")
  case None
  have "\<not> canon_next lengths (lz_rest r) s"
  proof
    assume s: "canon_next lengths (lz_rest r) s"
    then have "unat (lengths ! s) \<le> 15" by (simp add: canon_next_def)
    with s canon_next_iff_hit find_canon_hit None show False by (metis option.distinct(1))
  qed
  with None show ?thesis by (simp add: huffman_decode_spec_def del: upt_rec_numeral)
next
  case (Some l)
  then have l: "l \<le> 15" "canon_hit lengths (lz_rest r) l" using find_canon_hit by blast+
  with Some canon_symbol_next [OF l(2,1)] show ?thesis
    by (auto simp: huffman_decode_spec_def simp del: upt_rec_numeral dest: canon_next_unique)
qed

lemma huffman_decode_cases:
  assumes "length lengths < 65536" "huffman_from_lengths lengths = Inr h"
  shows "huffman_decode h r = Inr (s, r') \<longleftrightarrow> huffman_decode_spec lengths [1..<16] r = Inr (s, r')"
    and "huffman_decode h r \<noteq> Inl Panic"
proof -
  have h: "huffman_for lengths h" using huffman_from_lengths_cases [OF assms(1)] assms(2) by auto
  have "huffman_decode_spec lengths [1..<16] r \<noteq> Inr (s, r')" if "hf_symbols h = []"
    using canon_table_empty_no_hit [of lengths] h that
    by (auto simp: huffman_decode_spec_def huffman_for_def find_Some_iff split: option.splits)
  then show "huffman_decode h r = Inr (s, r') \<longleftrightarrow> huffman_decode_spec lengths [1..<16] r = Inr (s, r')"
    by (simp add: huffman_decode_eq_spec [OF h] del: upt_rec_numeral)
  show "huffman_decode h r \<noteq> Inl Panic"
    by (auto simp: huffman_decode_eq_spec [OF h] huffman_decode_spec_def split: option.splits)
qed

text \<open>
  What the decoders rely on: reading a symbol of any table the constructor accepted either fails
  or uses at least one bit, and never indexes out of range.
\<close>

lemma huffman_decode_progress:
  assumes "length lengths < 65536" "huffman_from_lengths lengths = Inr h" "huffman_decode h r = Inr (s, r')"
  shows "s < length lengths \<and> lz_bits_left r' < lz_bits_left r"
proof -
  have "canon_next lengths (lz_rest r) s \<and> r' = r\<lparr>lz_bit_pos := lz_bit_pos r + unat (lengths ! s)\<rparr>"
    using huffman_decode_cases(1) [OF assms(1,2)] assms(3) huffman_decode_spec_iff by blast
  then show ?thesis by (auto simp: canon_next_def)
qed

section \<open>Properties\<close>

text \<open>C9: For every table of code lengths the legacy Huffman constructor accepts, the
  decoder returns symbol \<open>s\<close> exactly when the stream continues with the canonical code
  of \<open>s\<close>, and it then consumes exactly that code.\<close>

theorem huffman_decode_iff:
  assumes "length lengths < 65536" "huffman_from_lengths lengths = Inr h"
  shows "huffman_decode h r = Inr (s, r') \<longleftrightarrow>
    canon_next lengths (lz_rest r) s \<and> r' = r\<lparr>lz_bit_pos := lz_bit_pos r + unat (lengths ! s)\<rparr>"
  unfolding huffman_decode_cases(1) [OF assms] by (rule huffman_decode_spec_iff)

definition example_lengths :: "byte list" where
  "example_lengths = [2, 0, 1, 3, 3]"

lemma example_huffman_ok: "\<exists>h. huffman_from_lengths example_lengths = Inr h"
proof -
  have "\<not> isl (huffman_from_lengths example_lengths)" by code_simp
  then show ?thesis by (cases "huffman_from_lengths example_lengths") auto
qed

lemma example_next:
  "lz_rest (lz_from_bytes [0xD0]) = [True, True, False, True, False, False, False, False]"
  "canon_code example_lengths 3 = 6" "unat (example_lengths ! 3) = 3" "length example_lengths = 5"
  "bits_nat [True, True, False] = 6"
  by (simp add: lz_rest_def lz_from_bytes_def) (code_simp+)

theorem huffman_decode_iff_witness:
  "\<exists>h. huffman_decode h (lz_from_bytes [0xD0]) =
     Inr (3, (lz_from_bytes [0xD0])\<lparr>lz_bit_pos := lz_bit_pos (lz_from_bytes [0xD0]) + 3\<rparr>)"
proof -
  obtain h where h: "huffman_from_lengths example_lengths = Inr h" using example_huffman_ok by blast
  have "canon_next example_lengths (lz_rest (lz_from_bytes [0xD0])) 3"
    by (simp add: canon_next_def example_next)
  then show ?thesis
    using huffman_decode_iff [OF _ h, of "lz_from_bytes [0xD0]" 3]
    by (auto simp: example_next)
qed

end
