(* ===== verification/LegacyHistory.thy ===== *)
theory LegacyHistory
  imports LegacyBits
begin

text \<open>
  The retained output of the RAR 2.x and RAR 3.x/4.x decoders
  (\<^verbatim>\<open>crates/rar/src/codec/legacy/lz.rs\<close>, \<open>History\<close>): the bytes since the
  last trim, the stream position they start at, and a match parked at a flush boundary. The
  history is an interpretation of \<open>lz_window\<close>: what it holds is a suffix of the decoded
  stream, at least \<open>limit\<close> bytes long once anything was dropped.
\<close>

record history =
  hist_output :: "byte list"
  base_offset :: nat
  hist_limit :: nat
  pending_match :: "(nat \<times> nat) option"

definition history_new :: "nat \<Rightarrow> history" where
  "history_new limit =
     \<lparr>hist_output = [], base_offset = 0, hist_limit = limit, pending_match = None\<rparr>"

definition current_pos :: "history \<Rightarrow> nat" where
  "current_pos h = base_offset h + length (hist_output h)"

definition raw_byte :: "nat \<Rightarrow> history \<Rightarrow> byte option" where
  "raw_byte position h =
     (if position < base_offset h then None else get (hist_output h) (position - base_offset h))"

definition raw_range :: "nat \<Rightarrow> nat \<Rightarrow> history \<Rightarrow> lz_error + byte list" where
  "raw_range start end h =
     (if start < base_offset h \<or> end < start then Inl (Bad ''retained history is unavailable'')
      else let rel_start = start - base_offset h; rel_end = end - base_offset h in
        if rel_end \<le> length (hist_output h)
        then Inr (take (rel_end - rel_start) (drop rel_start (hist_output h)))
        else Inl (Bad ''retained history is unavailable''))"

definition history_push :: "byte \<Rightarrow> history \<Rightarrow> history" where
  "history_push byte h = h\<lparr>hist_output := hist_output h @ [byte]\<rparr>"

definition history_trim :: "nat \<Rightarrow> history \<Rightarrow> nat \<times> history" where
  "history_trim flushed_pos h =
     (let keep_from = min (current_pos h - hist_limit h) flushed_pos;
          h = (if base_offset h < keep_from
               then h\<lparr>hist_output := drop (keep_from - base_offset h) (hist_output h),
                      base_offset := keep_from\<rparr>
               else h)
      in (base_offset h, h))"

text \<open>
  The copy loop. The first argument counts the bytes still to write, so a parked tail
  \<open>length - index\<close> is that count.
\<close>

fun copy_loop :: "nat \<Rightarrow> nat \<Rightarrow> bool \<Rightarrow> nat \<Rightarrow> history \<Rightarrow> lz_error + history" where
  "copy_loop 0 offset before_window output_size h = Inr h"
| "copy_loop (Suc n) offset before_window output_size h =
     (if output_size \<le> current_pos h then Inr (h\<lparr>pending_match := Some (Suc n, offset)\<rparr>)
      else if before_window then copy_loop n offset before_window output_size (history_push 0 h)
      else if current_pos h < offset then Inl Panic
      else rbind (ok_or (Bad ''match distance is out of range'') (raw_byte (current_pos h - offset) h))
             (\<lambda>byte. copy_loop n offset before_window output_size (history_push byte h)))"

definition history_copy_match :: "nat \<Rightarrow> nat \<Rightarrow> nat \<Rightarrow> history \<Rightarrow> lz_error + history" where
  "history_copy_match len offset output_size h =
     (let offset = if offset = 0 then 1 else offset in
      copy_loop len offset (current_pos h < offset) output_size h)"

definition drain_pending_match :: "nat \<Rightarrow> history \<Rightarrow> lz_error + history" where
  "drain_pending_match output_size h =
     (case pending_match h of
        None \<Rightarrow> Inr h
      | Some (len, offset) \<Rightarrow>
          history_copy_match len offset output_size (h\<lparr>pending_match := None\<rparr>))"

section \<open>The stream behind a history\<close>

definition history_holds :: "history \<Rightarrow> byte list \<Rightarrow> bool" where
  "history_holds h s \<longleftrightarrow>
     base_offset h \<le> length s \<and> hist_output h = drop (base_offset h) s \<and>
     (base_offset h = 0 \<or> hist_limit h \<le> length (hist_output h))"

lemma history_new_holds: "history_holds (history_new limit) []"
  by (simp add: history_holds_def history_new_def)

lemma current_pos_holds: "history_holds h s \<Longrightarrow> current_pos h = length s"
  by (auto simp: history_holds_def current_pos_def)

lemma push_holds: "history_holds h s \<Longrightarrow> history_holds (history_push b h) (s @ [b])"
  by (auto simp: history_holds_def history_push_def)

lemma history_push_fields [simp]:
  "hist_limit (history_push b h) = hist_limit h" "pending_match (history_push b h) = pending_match h"
  "base_offset (history_push b h) = base_offset h"
  by (simp_all add: history_push_def)

lemma pending_holds [simp]:
  "history_holds (h\<lparr>pending_match := p\<rparr>) s = history_holds h s"
  "current_pos (h\<lparr>pending_match := p\<rparr>) = current_pos h"
  by (auto simp: history_holds_def current_pos_def)

lemma raw_byte_holds:
  assumes "history_holds h s" "0 < d" "d \<le> length s" "d \<le> hist_limit h"
  shows "raw_byte (length s - d) h = Some (s ! (length s - d))"
  using assms by (auto simp: history_holds_def raw_byte_def get_def)

lemma trim_holds:
  assumes "history_holds h s"
  shows "history_holds (snd (history_trim flushed h)) s"
  using assms by (auto simp: history_trim_def Let_def history_holds_def current_pos_def)

text \<open>
  What a match appends: the LZ77 copy, or zeroes when it reaches back before the first byte.
\<close>

definition legacy_extend :: "nat \<Rightarrow> nat \<Rightarrow> byte list \<Rightarrow> byte list" where
  "legacy_extend n d s = (if length s < d then s @ replicate n 0 else lz_extend n d s)"

text \<open>The loop, stopped at \<open>output_size\<close>: \<open>m\<close> bytes are written and the rest is parked.\<close>

definition copied :: "nat \<Rightarrow> nat \<Rightarrow> byte list \<Rightarrow> nat" where
  "copied n output_size s = min n (output_size - length s)"

lemma copy_loop_zero:
  assumes "history_holds h s"
  shows "\<exists>h'. copy_loop n d True output_size h = Inr h' \<and>
     history_holds h' (s @ replicate (copied n output_size s) 0) \<and> hist_limit h' = hist_limit h \<and>
     pending_match h' = (if n = copied n output_size s then pending_match h
                         else Some (n - copied n output_size s, d))"
  using assms
proof (induction n arbitrary: h s)
  case 0
  then show ?case by (simp add: copied_def)
next
  case (Suc n)
  show ?case
  proof (cases "output_size \<le> current_pos h")
    case True
    then show ?thesis using Suc.prems by (auto simp: copied_def current_pos_holds)
  next
    case False
    then have less: "length s < output_size" using Suc.prems by (simp add: current_pos_holds)
    then have "copied (Suc n) output_size s = Suc (copied n output_size (s @ [0]))"
      by (auto simp: copied_def)
    with Suc.IH [OF push_holds [OF Suc.prems, of 0]] False show ?thesis by auto
  qed
qed

lemma copy_loop_lz:
  assumes "history_holds h s" "0 < d" "d \<le> length s" "d \<le> hist_limit h"
  shows "\<exists>h'. copy_loop n d False output_size h = Inr h' \<and>
     history_holds h' (lz_extend (copied n output_size s) d s) \<and> hist_limit h' = hist_limit h \<and>
     pending_match h' = (if n = copied n output_size s then pending_match h
                         else Some (n - copied n output_size s, d))"
  using assms
proof (induction n arbitrary: h s)
  case 0
  then show ?case by (simp add: copied_def)
next
  case (Suc n)
  show ?case
  proof (cases "output_size \<le> current_pos h")
    case True
    then show ?thesis using Suc.prems by (auto simp: copied_def current_pos_holds)
  next
    case False
    let ?b = "s ! (length s - d)"
    have less: "length s < output_size" using False Suc.prems by (simp add: current_pos_holds)
    then have "copied (Suc n) output_size s = Suc (copied n output_size (s @ [?b]))"
      by (auto simp: copied_def)
    moreover have "copy_loop (Suc n) d False output_size h = copy_loop n d False output_size (history_push ?b h)"
      using False Suc.prems raw_byte_holds [OF Suc.prems] by (simp add: current_pos_holds)
    ultimately show ?thesis
      using Suc.IH [OF push_holds [OF Suc.prems(1), of ?b]] Suc.prems by auto
  qed
qed

lemma copy_match_holds:
  assumes "history_holds h s" "0 < d" "d \<le> length s \<longrightarrow> d \<le> hist_limit h"
  shows "\<exists>h'. history_copy_match n d output_size h = Inr h' \<and>
     history_holds h' (legacy_extend (copied n output_size s) d s) \<and> hist_limit h' = hist_limit h \<and>
     pending_match h' = (if n = copied n output_size s then pending_match h
                         else Some (n - copied n output_size s, d))"
proof (cases "length s < d")
  case True
  with copy_loop_zero [OF assms(1), of n d output_size] assms(2) show ?thesis
    by (auto simp: history_copy_match_def legacy_extend_def current_pos_holds [OF assms(1)])
next
  case False
  with copy_loop_lz [OF assms(1,2), of n output_size] assms show ?thesis
    by (auto simp: history_copy_match_def legacy_extend_def current_pos_holds [OF assms(1)])
qed

section \<open>The history as a look-behind window\<close>

text \<open>
  With no flush boundary in the way (\<open>output_size\<close> at least the end of the match) the
  copy is the reference one, so a whole token sequence is its reference expansion.
\<close>

definition history_copy :: "nat \<Rightarrow> nat \<Rightarrow> history \<Rightarrow> history" where
  "history_copy d n h =
     (case history_copy_match n d (current_pos h + n) h of Inl _ \<Rightarrow> h | Inr h' \<Rightarrow> h')"

lemma history_copy_holds:
  assumes "history_holds h s" "0 < d" "d \<le> length s" "d \<le> hist_limit h"
  shows "history_holds (history_copy d n h) (lz_extend n d s) \<and>
    hist_limit (history_copy d n h) = hist_limit h"
proof -
  have "copied n (length s + n) s = n" by (simp add: copied_def)
  then show ?thesis
    using copy_match_holds [OF assms(1,2), of n "length s + n"] assms
    by (auto simp: history_copy_def current_pos_holds legacy_extend_def)
qed

interpretation history: lz_window history_holds history_push history_copy hist_limit
  by unfold_locales (simp_all add: push_holds history_copy_holds)

section \<open>Properties\<close>

text \<open>C31: A sequence of literals and matches whose distances stay inside the decoded
  stream and the retention limit leaves the history holding exactly the LZ77 expansion of the
  sequence.\<close>

theorem history_replays_tokens:
  assumes "lz_tokens_fit limit 0 ts"
  shows "history_holds (replay history_push history_copy ts (history_new limit)) (lz_expand [] ts)"
  using history.replay_holds [OF history_new_holds, of limit ts] assms
  by (simp add: history_new_def)

theorem history_replays_tokens_witness:
  "history_holds (replay history_push history_copy [Literal 7, Match 1 3] (history_new 4)) [7, 7, 7, 7]"
  using history_replays_tokens [of 4 "[Literal 7, Match 1 3]"] by (simp add: eval_nat_numeral)

text \<open>Trimming never changes what the history answers about the stream: every range
  of the stream inside the retention limit, and not yet flushed past, reads back as it was decoded.\<close>

theorem trimmed_range_reads_back:
  assumes "history_holds h s" "length s - hist_limit h \<le> start" "start \<le> end" "end \<le> length s"
  shows "raw_range start end (snd (history_trim flushed h)) = Inr (take (end - start) (drop start s))"
proof -
  let ?h = "snd (history_trim flushed h)"
  have "history_holds ?h s" using assms(1) by (rule trim_holds)
  moreover have "hist_limit ?h = hist_limit h" by (simp add: history_trim_def Let_def)
  ultimately have "base_offset ?h \<le> start" and "hist_output ?h = drop (base_offset ?h) s"
    using assms(2) by (auto simp: history_holds_def)
  with assms(3,4) show ?thesis by (auto simp: raw_range_def Let_def)
qed

theorem trimmed_range_reads_back_witness:
  "raw_range 2 4 (snd (history_trim 3
     \<lparr>hist_output = [1, 2, 3, 4], base_offset = 0, hist_limit = 2, pending_match = None\<rparr>)) = Inr [3, 4]"
  using trimmed_range_reads_back [of "\<lparr>hist_output = [1, 2, 3, 4], base_offset = 0, hist_limit = 2,
      pending_match = None\<rparr>" "[1, 2, 3, 4]" 2 4 3]
  by (simp add: history_holds_def)

lemma length_legacy_extend [simp]: "length (legacy_extend n d s) = length s + n"
  by (simp add: legacy_extend_def)

lemma legacy_extend_0 [simp]: "legacy_extend 0 d s = s"
  by (simp add: legacy_extend_def)




text \<open>
  It can differ for a match that starts before the first byte of the stream: the test
  against the start of the stream is repeated when the parked tail is resumed, and by then enough
  bytes may have been written for the tail to copy them.
\<close>

lemma parked_match_before_window_differs:
  "\<exists>h h1 h2 h3. h = history_push 7 (history_new 16) \<and>
     history_copy_match 3 2 4 h = Inr h3 \<and> hist_output h3 = [7, 0, 0, 0] \<and>
     history_copy_match 3 2 2 h = Inr h1 \<and> drain_pending_match 4 h1 = Inr h2 \<and>
     hist_output h2 = [7, 0, 7, 0]"
  by (simp add: history_push_def history_new_def history_copy_match_def drain_pending_match_def
      current_pos_def eval_nat_numeral raw_byte_def get_def)

end
