(* ===== verification/RarVmParse.thy ===== *)
theory RarVmParse
  imports LegacyBits
begin

text \<open>
  The program format of the RAR virtual machine (\<^verbatim>\<open>crates/rar/src/codec/legacy/rarvm.rs\<close>,
  first half and the bit reader): opcodes, operands, and \<open>Program::parse\<close>. The
  bit reader is an interpretation of \<open>bit_source\<close>; every parsed program is well formed,
  which is what the interpreter of \<open>RarVmExec\<close> relies on.
\<close>

datatype vm_error = InvalidData string | NeedMoreInput

definition MEMORY_SIZE :: nat where "MEMORY_SIZE = 0x40000"
definition GLOBAL_BASE :: nat where "GLOBAL_BASE = 0x3c000"
definition SYSTEM_GLOBAL_SIZE :: nat where "SYSTEM_GLOBAL_SIZE = 64"
definition MAX_USER_GLOBAL :: nat where "MAX_USER_GLOBAL = 0x2000 - SYSTEM_GLOBAL_SIZE"
definition MAX_STATIC_DATA :: nat where "MAX_STATIC_DATA = MEMORY_SIZE - GLOBAL_BASE"

section \<open>Instructions\<close>

datatype opcode =
    Mov | Cmp | Add | Sub | Jz | Jnz | Inc | Dec | Jmp | Xor | And | Or | Test | Js | Jns | Jb | Jbe
  | Ja | Jae | Push | Pop | Call | Ret | NotOp | Shl | Shr | Sar | Neg | Pusha | Popa | Pushf | Popf
  | Movzx | Movsx | Xchg | Mul | Div | Adc | Sbb | Print

datatype operand =
    Register nat
  | Immediate u32
  | RegisterIndirect nat
  | Indexed nat u32
  | Absolute u32

record instruction =
  ins_opcode :: opcode
  ins_byte_mode :: bool
  operands :: "operand list"

record program =
  static_data :: "byte list"
  instructions :: "instruction list"

text \<open>The discriminants \<open>0, \<dots>, 39\<close>, which are also the encoding.\<close>

definition opcode_table :: "opcode list" where
  "opcode_table =
    [Mov, Cmp, Add, Sub, Jz, Jnz, Inc, Dec, Jmp, Xor, And, Or, Test, Js, Jns, Jb, Jbe,
     Ja, Jae, Push, Pop, Call, Ret, NotOp, Shl, Shr, Sar, Neg, Pusha, Popa, Pushf, Popf,
     Movzx, Movsx, Xchg, Mul, Div, Adc, Sbb, Print]"

definition opcode_from_u8 :: "byte \<Rightarrow> vm_error + opcode" where
  "opcode_from_u8 v = ok_or (InvalidData ''RARVM opcode is invalid'') (get opcode_table (unat v))"

definition operand_count :: "opcode \<Rightarrow> nat" where
  "operand_count op =
     (if op \<in> {Ret, Pusha, Popa, Pushf, Popf, Print} then 0
      else if op \<in> {Jz, Jnz, Inc, Dec, Jmp, Js, Jns, Jb, Jbe, Ja, Jae, Push, Pop, Call, NotOp, Neg} then 1
      else 2)"

definition supports_byte_mode :: "opcode \<Rightarrow> bool" where
  "supports_byte_mode op \<longleftrightarrow>
     op \<in> {Mov, Cmp, Add, Sub, Inc, Dec, Xor, And, Or, Test, NotOp, Shl, Shr, Sar, Neg, Xchg, Mul, Div,
           Adc, Sbb}"

definition is_jump_or_call :: "opcode \<Rightarrow> bool" where
  "is_jump_or_call op \<longleftrightarrow> op \<in> {Jz, Jnz, Jmp, Js, Jns, Jb, Jbe, Ja, Jae, Call}"

definition is_unconditional_control_transfer :: "opcode \<Rightarrow> bool" where
  "is_unconditional_control_transfer op \<longleftrightarrow> op \<in> {Jmp, Ret}"

section \<open>Bit reader\<close>

record vm_reader =
  vm_input :: "byte list"
  vm_bit_pos :: nat

definition vm_reader_new :: "byte list \<Rightarrow> vm_reader" where
  "vm_reader_new input = \<lparr>vm_input = input, vm_bit_pos = 0\<rparr>"

definition vm_remaining_bits :: "vm_reader \<Rightarrow> nat" where
  "vm_remaining_bits r = length (vm_input r) * 8 - vm_bit_pos r"

fun vm_bits_loop :: "byte list \<Rightarrow> nat \<Rightarrow> nat \<Rightarrow> u32 \<Rightarrow> u32" where
  "vm_bits_loop input pos 0 value = value"
| "vm_bits_loop input pos (Suc n) value =
     (let byte = input ! (pos div 8); bit = drop_bit (7 - pos mod 8) byte AND 1 in
      vm_bits_loop input (pos + 1) n (push_bit 1 value OR ucast bit))"

definition vm_read_bits :: "nat \<Rightarrow> vm_reader \<Rightarrow> vm_error + (u32 \<times> vm_reader)" where
  "vm_read_bits count r =
     (if 32 < count then Inl (InvalidData ''RARVM bit read is too wide'')
      else if vm_remaining_bits r < count then Inl NeedMoreInput
      else Inr (vm_bits_loop (vm_input r) (vm_bit_pos r) count 0, r\<lparr>vm_bit_pos := vm_bit_pos r + count\<rparr>))"

definition vm_read_bit :: "vm_reader \<Rightarrow> vm_error + (u32 \<times> vm_reader)" where
  "vm_read_bit r = vm_read_bits 1 r"

definition read_vm_number :: "vm_reader \<Rightarrow> vm_error + (u32 \<times> vm_reader)" where
  "read_vm_number r =
     rbind (vm_read_bits 2 r) (\<lambda>(tag, r).
       if tag = 0 then vm_read_bits 4 r
       else if tag = 1 then
         rbind (vm_read_bits 8 r) (\<lambda>(high, r).
           if 16 \<le> high then Inr (high, r)
           else rbind (vm_read_bits 4 r) (\<lambda>(low, r). Inr (0xffffff00 OR push_bit 4 high OR low, r)))
       else if tag = 2 then vm_read_bits 16 r
       else vm_read_bits 32 r)"

section \<open>Parsing\<close>

definition parse_operand :: "bool \<Rightarrow> vm_reader \<Rightarrow> vm_error + (operand \<times> vm_reader)" where
  "parse_operand byte_mode r =
     rbind (vm_read_bit r) (\<lambda>(b, r).
     if b \<noteq> 0 then rbind (vm_read_bits 3 r) (\<lambda>(v, r). Inr (Register (unat v), r))
     else rbind (vm_read_bit r) (\<lambda>(b, r).
     if b = 0 then
       (if byte_mode then rbind (vm_read_bits 8 r) (\<lambda>(v, r). Inr (Immediate v, r))
        else rbind (read_vm_number r) (\<lambda>(v, r). Inr (Immediate v, r)))
     else rbind (vm_read_bit r) (\<lambda>(b, r).
     if b = 0 then rbind (vm_read_bits 3 r) (\<lambda>(v, r). Inr (RegisterIndirect (unat v), r))
     else rbind (vm_read_bit r) (\<lambda>(b, r).
     if b = 0 then
       rbind (vm_read_bits 3 r) (\<lambda>(reg, r).
       rbind (read_vm_number r) (\<lambda>(base, r). Inr (Indexed (unat reg) base, r)))
     else rbind (read_vm_number r) (\<lambda>(v, r). Inr (Absolute v, r))))))"

text \<open>The distance is an \<open>i64\<close> between -128 and 255; the sum is cut to 32 bits.\<close>

definition remap_jump_target :: "u32 \<Rightarrow> nat \<Rightarrow> u32" where
  "remap_jump_target v instruction_index =
     (if 256 \<le> v then v - 256
      else let distance = int (unat v);
               distance = (if 136 \<le> distance then distance - 264
                           else if 16 \<le> distance then distance - 8
                           else if 8 \<le> distance then distance - 16
                           else distance)
           in word_of_int (int instruction_index + distance))"

definition remap_operand :: "opcode \<Rightarrow> nat \<Rightarrow> nat \<Rightarrow> operand \<Rightarrow> operand" where
  "remap_operand opcode instruction_index operand_index operand =
     (case operand of
        Immediate v \<Rightarrow>
          if operand_index = 0 \<and> is_jump_or_call opcode
          then Immediate (remap_jump_target v instruction_index) else operand
      | _ \<Rightarrow> operand)"

fun parse_operands ::
  "opcode \<Rightarrow> bool \<Rightarrow> nat \<Rightarrow> nat list \<Rightarrow> vm_reader \<Rightarrow> vm_error + (operand list \<times> vm_reader)" where
  "parse_operands opcode byte_mode instruction_index [] r = Inr ([], r)"
| "parse_operands opcode byte_mode instruction_index (i # is) r =
     rbind (parse_operand byte_mode r) (\<lambda>(operand, r).
     rbind (parse_operands opcode byte_mode instruction_index is r) (\<lambda>(rest, r).
       Inr (remap_operand opcode instruction_index i operand # rest, r)))"

definition parse_opcode :: "vm_reader \<Rightarrow> vm_error + (opcode \<times> vm_reader)" where
  "parse_opcode r =
     rbind (vm_read_bit r) (\<lambda>(b, r).
       if b = 0 then
         rbind (vm_read_bits 3 r) (\<lambda>(v, r). rbind (opcode_from_u8 (ucast v)) (\<lambda>op. Inr (op, r)))
       else
         rbind (vm_read_bits 5 r) (\<lambda>(v, r). rbind (opcode_from_u8 (ucast v + 8)) (\<lambda>op. Inr (op, r))))"

definition parse_byte_mode :: "opcode \<Rightarrow> vm_reader \<Rightarrow> vm_error + (bool \<times> vm_reader)" where
  "parse_byte_mode opcode r =
     (if supports_byte_mode opcode then rbind (vm_read_bit r) (\<lambda>(b, r). Inr (b \<noteq> 0, r))
      else Inr (False, r))"

definition parse_instruction :: "vm_reader \<Rightarrow> nat \<Rightarrow> vm_error + (instruction \<times> vm_reader)" where
  "parse_instruction r instruction_index =
     rbind (parse_opcode r) (\<lambda>(opcode, r).
     rbind (parse_byte_mode opcode r) (\<lambda>(mode, r).
     rbind (parse_operands opcode mode instruction_index [0..<operand_count opcode] r) (\<lambda>(ops, r).
       Inr (\<lparr>ins_opcode = opcode, ins_byte_mode = mode, operands = ops\<rparr>, r))))"

fun read_bytes :: "nat \<Rightarrow> vm_reader \<Rightarrow> vm_error + (byte list \<times> vm_reader)" where
  "read_bytes 0 r = Inr ([], r)"
| "read_bytes (Suc n) r =
     rbind (vm_read_bits 8 r) (\<lambda>(v, r).
     rbind (read_bytes n r) (\<lambda>(bs, r). Inr (ucast v # bs, r)))"

definition parse_static_data :: "vm_reader \<Rightarrow> vm_error + (byte list \<times> vm_reader)" where
  "parse_static_data r =
     rbind (vm_read_bit r) (\<lambda>(b, r).
       if b \<noteq> 0 then
         rbind (read_vm_number r) (\<lambda>(n, r).
           if n = - 1 then Inl (InvalidData ''RARVM static data size overflows'')
           else let size = unat (n + 1) in
             if MAX_STATIC_DATA < size then Inl (InvalidData ''RARVM static data is too large'')
             else read_bytes size r)
       else Inr ([], r))"

section \<open>The reader reads the bits of its input\<close>

definition vm_rest :: "vm_reader \<Rightarrow> bool list" where
  "vm_rest r = drop (vm_bit_pos r) (stream_bits (vm_input r))"

lemma length_vm_rest [simp]: "length (vm_rest r) = vm_remaining_bits r"
  by (simp add: vm_rest_def vm_remaining_bits_def mult.commute)

lemma vm_rest_advance: "vm_rest (r\<lparr>vm_bit_pos := vm_bit_pos r + n\<rparr>) = drop n (vm_rest r)"
  by (simp add: vm_rest_def add.commute)

lemma vm_remaining_advance [simp]:
  "vm_remaining_bits (r\<lparr>vm_bit_pos := vm_bit_pos r + n\<rparr>) = vm_remaining_bits r - n"
  by (simp add: vm_remaining_bits_def)

lemma vm_bits_loop_value:
  "pos + n \<le> 8 * length input \<Longrightarrow>
     vm_bits_loop input pos n (bits_value bs) = bits_value (bs @ take n (drop pos (stream_bits input)))"
proof (induction n arbitrary: pos bs)
  case 0
  then show ?case by simp
next
  case (Suc n)
  then have pos: "pos < 8 * length input" by simp
  let ?b = "stream_bits input ! pos"
  have b: "bit (input ! (pos div 8)) (7 - pos mod 8) = ?b"
    using pos by (simp add: nth_stream_bits)
  have "take (Suc n) (drop pos (stream_bits input)) = ?b # take n (drop (Suc pos) (stream_bits input))"
    using pos by (simp add: Cons_nth_drop_Suc [symmetric])
  moreover have "push_bit 1 (bits_value bs) OR of_bool ?b = (bits_value (bs @ [?b]) :: u32)"
    by (simp only: bits_value_snoc)
  ultimately show ?case
    using Suc.IH [of "pos + 1" "bs @ [?b]"] Suc.prems
    by (simp add: Let_def byte_bit_value b del: push_bit_Suc)
qed

lemma vm_read_bits_value:
  assumes "count \<le> 32"
  shows "vm_read_bits count r =
    (if count \<le> vm_remaining_bits r
     then Inr (bits_value (take count (vm_rest r)), r\<lparr>vm_bit_pos := vm_bit_pos r + count\<rparr>)
     else Inl NeedMoreInput)"
proof (cases "vm_bit_pos r + count \<le> 8 * length (vm_input r)")
  case True
  then show ?thesis
    using assms vm_bits_loop_value [OF True, of "[]"]
    by (simp add: vm_read_bits_def vm_rest_def)
next
  case False
  then show ?thesis
    using assms by (cases "count = 0") (auto simp: vm_read_bits_def vm_remaining_bits_def)
qed

interpretation vm: bit_source vm_rest vm_read_bits 32 "\<lambda>_. True"
  by unfold_locales (auto simp: vm_read_bits_value vm_rest_advance)

lemma vm_read_bits_cases:
  assumes "vm_read_bits n r = Inr (v, r')"
  shows "n \<le> 32 \<and> n \<le> vm_remaining_bits r \<and> vm_remaining_bits r' = vm_remaining_bits r - n \<and>
    v = bits_value (take n (vm_rest r))"
proof -
  have "n \<le> 32" using assms by (auto simp: vm_read_bits_def split: if_splits)
  with assms show ?thesis by (auto simp: vm_read_bits_value split: if_splits)
qed

lemma read_vm_number_spec:
  "read_vm_number r =
     (case vm_number_bits (vm_rest r) of
        None \<Rightarrow> Inl NeedMoreInput
      | Some (v, n) \<Rightarrow> Inr (v, r\<lparr>vm_bit_pos := vm_bit_pos r + n\<rparr>))"
proof -
  let ?bs = "vm_rest r"
  show ?thesis
  proof (cases "2 \<le> length ?bs")
    case False
    then show ?thesis
      by (simp add: read_vm_number_def vm_read_bits_value vm_number_bits_def)
  next
    case True
    have read: "vm_read_bits n (r\<lparr>vm_bit_pos := vm_bit_pos r + k\<rparr>) =
        (if k + n \<le> length ?bs \<or> n = 0
         then Inr (bits_value (take n (drop k ?bs)), r\<lparr>vm_bit_pos := vm_bit_pos r + (k + n)\<rparr>)
         else Inl NeedMoreInput)" if "n \<le> 32" for n k
      using that by (auto simp: vm_read_bits_value vm_rest_advance add.assoc)
    have start: "vm_read_bits 2 r =
        Inr (bits_value (take 2 ?bs), r\<lparr>vm_bit_pos := vm_bit_pos r + 2\<rparr>)"
      using True by (simp add: vm_read_bits_value)
    note unfold = read_vm_number_def vm_number_bits_def vm_number_field_def start read Let_def
    from vm_tag_cases [OF True] consider
        "bits_value (take 2 ?bs) = (0 :: u32)" | "bits_value (take 2 ?bs) = (1 :: u32)"
      | "bits_value (take 2 ?bs) = (2 :: u32)" | "bits_value (take 2 ?bs) = (3 :: u32)"
      by auto
    then show ?thesis
    proof cases
      case 1
      then show ?thesis using True by (simp add: unfold del: add_2_eq_Suc')
    next
      case 2
      then show ?thesis using True by (simp add: unfold del: add_2_eq_Suc')
    next
      case 3
      then show ?thesis using True by (simp add: unfold del: add_2_eq_Suc')
    next
      case 4
      then show ?thesis using True by (simp add: unfold del: add_2_eq_Suc')
    qed
  qed
qed

lemma read_vm_number_left:
  assumes "read_vm_number r = Inr (v, r')"
  shows "vm_remaining_bits r' \<le> vm_remaining_bits r"
  using assms by (auto simp: read_vm_number_spec split: option.splits)

section \<open>Well-formed instructions\<close>

fun operand_ok :: "operand \<Rightarrow> bool" where
  "operand_ok (Register i) \<longleftrightarrow> i < 8"
| "operand_ok (RegisterIndirect i) \<longleftrightarrow> i < 8"
| "operand_ok (Indexed i base) \<longleftrightarrow> i < 8"
| "operand_ok (Immediate v) \<longleftrightarrow> True"
| "operand_ok (Absolute v) \<longleftrightarrow> True"

definition instruction_ok :: "instruction \<Rightarrow> bool" where
  "instruction_ok i \<longleftrightarrow>
     length (operands i) = operand_count (ins_opcode i) \<and> list_all operand_ok (operands i) \<and>
     (ins_byte_mode i \<longrightarrow> supports_byte_mode (ins_opcode i))"

definition program_ok :: "program \<Rightarrow> bool" where
  "program_ok p \<longleftrightarrow>
     list_all instruction_ok (instructions p) \<and> instructions p \<noteq> [] \<and>
     is_unconditional_control_transfer (ins_opcode (last (instructions p))) \<and>
     length (static_data p) \<le> MAX_STATIC_DATA"

text \<open>
  A small logic for the parser: \<open>reads m r P\<close> says that when \<open>m\<close>, started at
  \<open>r\<close>, succeeds, its result satisfies \<open>P\<close> and no bits were added.
\<close>

definition reads :: "vm_error + ('a \<times> vm_reader) \<Rightarrow> vm_reader \<Rightarrow> ('a \<Rightarrow> bool) \<Rightarrow> bool" where
  "reads m r P \<longleftrightarrow>
     (\<forall>a r'. m = Inr (a, r') \<longrightarrow> P a \<and> vm_remaining_bits r' \<le> vm_remaining_bits r)"

named_theorems reads_rules \<open>rules of the parser logic\<close>

lemma reads_bind:
  assumes "reads m r Q" "\<And>a r1. Q a \<Longrightarrow> reads (f (a, r1)) r1 P"
  shows "reads (rbind m f) r P"
  using assms unfolding reads_def rbind_eq_Inr by (fastforce intro: le_trans)

lemma reads_return [reads_rules]: "P a \<Longrightarrow> reads (Inr (a, r)) r P"
  by (simp add: reads_def)

lemma reads_error [reads_rules]: "reads (Inl e) r P"
  by (simp add: reads_def)

lemma reads_if [reads_rules]:
  "(b \<Longrightarrow> reads m r P) \<Longrightarrow> (\<not> b \<Longrightarrow> reads n r P) \<Longrightarrow> reads (if b then m else n) r P"
  by simp

lemma reads_bits: "n \<le> 32 \<Longrightarrow> reads (vm_read_bits n r) r (\<lambda>v. unat v < 2 ^ n)"
  using vm.read_value_bound [where r = r and n = n] unfolding reads_def by (auto dest: vm_read_bits_cases)

lemma reads_bind_bits [reads_rules]:
  assumes "n \<le> 32" "\<And>v r1. unat v < 2 ^ n \<Longrightarrow> reads (f (v, r1)) r1 P"
  shows "reads (rbind (vm_read_bits n r) f) r P"
  using reads_bind [OF reads_bits [OF assms(1)] assms(2)] .

lemma reads_bind_bit [reads_rules]:
  assumes "\<And>v r1. reads (f (v, r1)) r1 P"
  shows "reads (rbind (vm_read_bit r) f) r P"
  unfolding vm_read_bit_def by (rule reads_bind_bits) (simp_all add: assms)

lemma reads_bind_number [reads_rules]:
  assumes "\<And>v r1. reads (f (v, r1)) r1 P"
  shows "reads (rbind (read_vm_number r) f) r P"
proof (rule reads_bind)
  show "reads (read_vm_number r) r (\<lambda>_. True)"
    by (auto simp: reads_def dest: read_vm_number_left)
qed (rule assms)

lemma reads_bind_opcode [reads_rules]:
  assumes "\<And>op. reads (f op) r P"
  shows "reads (rbind (opcode_from_u8 v) f) r P"
  using assms by (cases "opcode_from_u8 v") (simp_all add: reads_error)

lemma parse_operand_reads: "reads (parse_operand mode r) r operand_ok"
  unfolding parse_operand_def
  by (rule reads_rules | simp only: prod.case operand_ok.simps | (simp; fail))+

lemma operand_ok_remap [simp]: "operand_ok (remap_operand opcode i j operand) = operand_ok operand"
  by (cases operand) (auto simp: remap_operand_def)

lemma parse_operands_reads:
  "reads (parse_operands opcode mode index is r) r (\<lambda>ops. length ops = length is \<and> list_all operand_ok ops)"
proof (induction "is" arbitrary: r)
  case Nil
  then show ?case by (auto intro!: reads_rules)
next
  case (Cons i "is")
  show ?case
    unfolding parse_operands.simps
  proof (rule reads_bind [OF parse_operand_reads], unfold prod.case, rule reads_bind [OF Cons], unfold prod.case)
    fix operand rest r2
    assume "operand_ok operand" "length rest = length is \<and> list_all operand_ok rest"
    then show "reads (Inr (remap_operand opcode index i operand # rest, r2)) r2
        (\<lambda>ops. length ops = length (i # is) \<and> list_all operand_ok ops)"
      by (intro reads_return) simp
  qed
qed

text \<open>An opcode takes four bits or more, so every parsed instruction makes progress.\<close>

lemma vm_read_bit_left: "vm_read_bit r = Inr (v, r') \<Longrightarrow> vm_remaining_bits r' < vm_remaining_bits r"
  unfolding vm_read_bit_def by (drule vm_read_bits_cases) simp

lemma parse_opcode_progress:
  assumes "parse_opcode r = Inr (op, r')"
  shows "vm_remaining_bits r' < vm_remaining_bits r"
proof -
  obtain b r1 where b: "vm_read_bit r = Inr (b, r1)"
    using assms by (auto simp: parse_opcode_def rbind_eq_Inr)
  have "reads (parse_opcode r) r1 (\<lambda>_. True)"
    unfolding parse_opcode_def b rbind_Inr prod.case
    by (rule reads_rules TrueI | simp only: prod.case)+
  with assms vm_read_bit_left [OF b] show ?thesis by (auto simp: reads_def)
qed

lemma parse_byte_mode_reads:
  "reads (parse_byte_mode opcode r) r (\<lambda>mode. mode \<longrightarrow> supports_byte_mode opcode)"
  unfolding parse_byte_mode_def by (rule reads_rules | simp only: prod.case | (simp; fail))+

lemma parse_instruction_ok:
  assumes "parse_instruction r index = Inr (i, r')"
  shows "instruction_ok i \<and> vm_remaining_bits r' < vm_remaining_bits r"
proof -
  obtain op r1 mode r2 ops r3 where
      1: "parse_opcode r = Inr (op, r1)" and 2: "parse_byte_mode op r1 = Inr (mode, r2)"
      and 3: "parse_operands op mode index [0..<operand_count op] r2 = Inr (ops, r3)"
      and "i = \<lparr>ins_opcode = op, ins_byte_mode = mode, operands = ops\<rparr>" "r' = r3"
    using assms by (auto simp: parse_instruction_def rbind_eq_Inr)
  moreover have "mode \<longrightarrow> supports_byte_mode op" "vm_remaining_bits r2 \<le> vm_remaining_bits r1"
    using parse_byte_mode_reads [of op r1] 2 by (auto simp: reads_def)
  moreover have "length ops = operand_count op" "list_all operand_ok ops"
      "vm_remaining_bits r3 \<le> vm_remaining_bits r2"
    using parse_operands_reads [of op mode index "[0..<operand_count op]" r2] 3 by (auto simp: reads_def)
  ultimately show ?thesis
    using parse_opcode_progress [OF 1] by (auto simp: instruction_ok_def)
qed

section \<open>Programs\<close>

text \<open>
  \<open>while bits.remaining_bits() >= 8\<close>; running out of bits inside an instruction ends the
  program, any other error is the result.
\<close>

function parse_instructions :: "vm_reader \<Rightarrow> instruction list \<Rightarrow> vm_error + instruction list" where
  "parse_instructions r acc =
     (if vm_remaining_bits r < 8 then Inr acc
      else case parse_instruction r (length acc) of
             Inr (i, r') \<Rightarrow> parse_instructions r' (acc @ [i])
           | Inl NeedMoreInput \<Rightarrow> Inr acc
           | Inl (InvalidData e) \<Rightarrow> Inl (InvalidData e))"
  by pat_completeness auto
termination
  by (relation "measure (\<lambda>(r, _). vm_remaining_bits r)") (auto dest: parse_instruction_ok)

declare parse_instructions.simps [simp del]

definition ret_instruction :: instruction where
  "ret_instruction = \<lparr>ins_opcode = Ret, ins_byte_mode = False, operands = []\<rparr>"

definition close_program :: "instruction list \<Rightarrow> instruction list" where
  "close_program is =
     (if is = [] \<or> \<not> is_unconditional_control_transfer (ins_opcode (last is))
      then is @ [ret_instruction] else is)"

definition program_parse :: "byte list \<Rightarrow> vm_error + program" where
  "program_parse blob =
     (if blob = [] then Inl (InvalidData ''RARVM program blob is empty'')
      else if foldl (\<lambda>acc byte. acc XOR byte) 0 blob \<noteq> 0
      then Inl (InvalidData ''RARVM program checksum mismatch'')
      else rbind (parse_static_data (vm_reader_new (drop 1 blob))) (\<lambda>(static, r).
           rbind (parse_instructions r []) (\<lambda>is.
             Inr \<lparr>static_data = static, instructions = close_program is\<rparr>)))"

lemma parse_instructions_ok:
  "parse_instructions r acc = Inr is \<Longrightarrow> list_all instruction_ok acc \<Longrightarrow> list_all instruction_ok is"
proof (induction r acc rule: parse_instructions.induct)
  case (1 r acc)
  show ?case
  proof (cases "vm_remaining_bits r < 8")
    case True
    with 1 show ?thesis by (simp add: parse_instructions.simps)
  next
    case False
    note step = "1.prems"(1) [unfolded parse_instructions.simps [of r acc]]
    show ?thesis
    proof (cases "parse_instruction r (length acc)")
      case (Inl e)
      with step False "1.prems"(2) show ?thesis by (cases e) auto
    next
      case (Inr x)
      then obtain i r' where i: "parse_instruction r (length acc) = Inr (i, r')" by (cases x) auto
      with step False "1.IH" [OF False i] "1.prems"(2) parse_instruction_ok [OF i]
      show ?thesis by simp
    qed
  qed
qed

lemma close_program_ok:
  "list_all instruction_ok is \<Longrightarrow>
     list_all instruction_ok (close_program is) \<and> close_program is \<noteq> [] \<and>
     is_unconditional_control_transfer (ins_opcode (last (close_program is)))"
  by (auto simp: close_program_def instruction_ok_def ret_instruction_def operand_count_def
      is_unconditional_control_transfer_def)

lemma read_bytes_length: "read_bytes n r = Inr (bs, r') \<Longrightarrow> length bs = n"
  by (induction n arbitrary: r bs) (auto simp: rbind_eq_Inr)

lemma parse_static_data_length:
  "parse_static_data r = Inr (bs, r') \<Longrightarrow> length bs \<le> MAX_STATIC_DATA"
  by (auto simp: parse_static_data_def rbind_eq_Inr Let_def split: if_splits dest: read_bytes_length)

section \<open>Properties\<close>

text \<open>C10: Every program the parser accepts is well formed: each instruction has exactly the
  operands of its opcode, registers are below 8, byte mode only where it is defined, the static
  data fits its area, and the last instruction leaves unconditionally, so execution cannot run
  off the end.\<close>

theorem program_parse_ok:
  assumes "program_parse blob = Inr p"
  shows "program_ok p"
proof -
  obtain static r code where "parse_static_data (vm_reader_new (drop 1 blob)) = Inr (static, r)"
      and "parse_instructions r [] = Inr code"
      and "p = \<lparr>static_data = static, instructions = close_program code\<rparr>"
    using assms by (auto simp: program_parse_def rbind_eq_Inr split: if_splits)
  then show ?thesis
    using parse_static_data_length parse_instructions_ok [of r "[]" code] close_program_ok [of code]
    by (auto simp: program_ok_def)
qed

theorem program_parse_ok_witness:
  "\<exists>p. program_parse [0x5C, 0x5C, 0] = Inr p \<and> program_ok p"
proof -
  have "\<not> isl (program_parse [0x5C, 0x5C, 0])" by code_simp
  then obtain p where p: "program_parse [0x5C, 0x5C, 0] = Inr p"
    by (cases "program_parse [0x5C, 0x5C, 0]") auto
  with program_parse_ok [OF p] show ?thesis by blast
qed

lemma foldl_xor: "foldl (\<lambda>acc byte. acc XOR byte) a bs = a XOR foldl (\<lambda>acc byte. acc XOR byte) (0 :: byte) bs"
proof (induction bs arbitrary: a)
  case Nil
  then show ?case by simp
next
  case (Cons b bs)
  show ?case using Cons [of "a XOR b"] Cons [of b] by (simp add: ac_simps)
qed

text \<open>The program checksum catches every corruption of a single byte of the program.\<close>

theorem program_parse_rejects_corruption:
  assumes "program_parse (pre @ b # post) = Inr p" "c \<noteq> b"
  shows "program_parse (pre @ c # post) = Inl (InvalidData ''RARVM program checksum mismatch'')"
proof -
  let ?x = "foldl (\<lambda>acc byte. acc XOR byte) (0 :: byte)"
  have sum: "?x (pre @ d # post) = d XOR (?x pre XOR ?x post)" for d
    using foldl_xor [of "?x pre XOR d" post] by (simp add: ac_simps)
  have "b XOR (?x pre XOR ?x post) = 0"
    using assms(1) sum [of b] by (auto simp: program_parse_def split: if_splits)
  then have "?x pre XOR ?x post = b" by (metis xor_self_eq bit.xor_left_self xor.right_neutral)
  then have "?x (pre @ c # post) = c XOR b" using sum [of c] by simp
  moreover have "c XOR b \<noteq> 0" using assms(2) by (metis bit.xor_left_self xor.right_neutral)
  ultimately show ?thesis by (simp add: program_parse_def)
qed

theorem program_parse_rejects_corruption_witness:
  "program_parse [0x5C, 0x5D, 0] = Inl (InvalidData ''RARVM program checksum mismatch'')"
proof -
  have "\<not> isl (program_parse [0x5C, 0x5C, 0])" by code_simp
  then obtain p where "program_parse [0x5C, 0x5C, 0] = Inr p"
    by (cases "program_parse [0x5C, 0x5C, 0]") auto
  then show ?thesis
    using program_parse_rejects_corruption [of "[0x5C]" "0x5C" "[0]" p "0x5D"] by simp
qed

text \<open>The two readers of variable-length integers, one in the filter-record parser of the
  decoders and one in the program parser, return the same value and stop at the same bit on every
  input.\<close>

theorem vm_number_readers_agree:
  "case lz_read_encoded_u32 \<lparr>lz_input = bs, lz_bit_pos = pos\<rparr> of
     Inr (v, r) \<Rightarrow> read_vm_number \<lparr>vm_input = bs, vm_bit_pos = pos\<rparr> =
       Inr (v, \<lparr>vm_input = bs, vm_bit_pos = lz_bit_pos r\<rparr>)
   | Inl e \<Rightarrow> e = Truncated \<and> read_vm_number \<lparr>vm_input = bs, vm_bit_pos = pos\<rparr> = Inl NeedMoreInput"
proof -
  have "lz_rest \<lparr>lz_input = bs, lz_bit_pos = pos\<rparr> = vm_rest \<lparr>vm_input = bs, vm_bit_pos = pos\<rparr>"
    by (simp add: lz_rest_def vm_rest_def)
  then show ?thesis
    by (cases "vm_number_bits (vm_rest \<lparr>vm_input = bs, vm_bit_pos = pos\<rparr>)")
      (auto simp: lz_read_encoded_spec read_vm_number_spec)
qed

end
