(* ===== verification/RarVmExec.thy ===== *)
theory RarVmExec
  imports RarVmParse
begin

text \<open>
  The interpreter of the RAR virtual machine (\<^verbatim>\<open>crates/rar/src/codec/legacy/rarvm.rs\<close>,
  \<open>Vm\<close>). The memory of \<open>0x40000\<close> bytes is a function from addresses: every
  access of the source masks its address with \<open>MEMORY_MASK\<close>, so no index is out of range.
  The eight registers are a list of words.
\<close>

definition MEMORY_MASK :: u32 where "MEMORY_MASK = 0x3ffff"
definition MAX_INSTRUCTIONS :: nat where "MAX_INSTRUCTIONS = 25000000"
definition FLAG_C :: u32 where "FLAG_C = 1"
definition FLAG_Z :: u32 where "FLAG_Z = 2"
definition FLAG_S :: u32 where "FLAG_S = 0x80000000"

type_synonym vm_memory = "nat \<Rightarrow> byte"

record invocation =
  inv_input :: "byte list"
  inv_regs :: "u32 list"
  global_data :: "byte list"
  file_offset :: u64
  exec_count :: u32

record execution_result =
  res_output :: "byte list"
  res_globals :: "byte list"
  res_regs :: "u32 list"

record vm =
  memory :: vm_memory
  regs :: "u32 list"
  flags :: u32

section \<open>Memory\<close>

definition mem_get :: "u32 \<Rightarrow> vm_memory \<Rightarrow> byte" where
  "mem_get address mem = mem (unat (address AND MEMORY_MASK))"

definition mem_set :: "u32 \<Rightarrow> byte \<Rightarrow> vm_memory \<Rightarrow> vm_memory" where
  "mem_set address v mem = mem(unat (address AND MEMORY_MASK) := v)"

definition write_u32 :: "nat \<Rightarrow> u32 \<Rightarrow> vm_memory \<Rightarrow> vm_memory" where
  "write_u32 address v mem =
     (let address = word_of_nat address; bytes = u32_to_le v in
      foldl (\<lambda>mem offset. mem_set (address + word_of_nat offset) (bytes ! offset) mem) mem [0..<4])"

definition mem_read_u32 :: "nat \<Rightarrow> vm_memory \<Rightarrow> u32" where
  "mem_read_u32 address mem =
     (let address = word_of_nat address in
      u32_from_le (mem_get address mem) (mem_get (address + 1) mem)
        (mem_get (address + 2) mem) (mem_get (address + 3) mem))"

definition read_mem :: "u32 \<Rightarrow> bool \<Rightarrow> vm \<Rightarrow> u32" where
  "read_mem address byte_mode vm =
     (let address = address AND MEMORY_MASK in
      if byte_mode then ucast (mem_get address (memory vm))
      else mem_read_u32 (unat address) (memory vm))"

definition write_mem :: "u32 \<Rightarrow> u32 \<Rightarrow> bool \<Rightarrow> vm \<Rightarrow> vm" where
  "write_mem address v byte_mode vm =
     (let address = address AND MEMORY_MASK in
      if byte_mode then vm\<lparr>memory := mem_set address (ucast v) (memory vm)\<rparr>
      else vm\<lparr>memory := write_u32 (unat address) v (memory vm)\<rparr>)"

section \<open>Widths and flags\<close>

definition value_mask :: "bool \<Rightarrow> u32" where
  "value_mask byte_mode = (if byte_mode then 0xff else - 1)"

definition mask_width :: "u32 \<Rightarrow> bool \<Rightarrow> u32" where
  "mask_width v byte_mode = v AND value_mask byte_mode"

definition sign_bit :: "bool \<Rightarrow> u32" where
  "sign_bit byte_mode = (if byte_mode then 0x80 else FLAG_S)"

definition set_zs :: "u32 \<Rightarrow> bool \<Rightarrow> vm \<Rightarrow> vm" where
  "set_zs result byte_mode vm =
     vm\<lparr>flags := if result = 0 then FLAG_Z else result AND sign_bit byte_mode\<rparr>"

definition set_zsc :: "u32 \<Rightarrow> bool \<Rightarrow> bool \<Rightarrow> vm \<Rightarrow> vm" where
  "set_zsc result carry byte_mode vm =
     (let vm = set_zs result byte_mode vm in
      if carry then vm\<lparr>flags := flags vm OR FLAG_C\<rparr> else vm)"

text \<open>The sums are \<open>u64\<close> in the source and stay below \<open>2 ^ 33 + 1\<close>; here they are naturals.\<close>

definition set_add_flags :: "u32 \<Rightarrow> u32 \<Rightarrow> u32 \<Rightarrow> u32 \<Rightarrow> bool \<Rightarrow> vm \<Rightarrow> vm" where
  "set_add_flags a b carry result byte_mode vm =
     (let mask = value_mask byte_mode;
          sum = unat (a AND mask) + unat (b AND mask) + unat carry
      in set_zsc result (unat mask < sum) byte_mode vm)"

definition set_sub_flags :: "u32 \<Rightarrow> u32 \<Rightarrow> u32 \<Rightarrow> bool \<Rightarrow> vm \<Rightarrow> vm" where
  "set_sub_flags a b borrow byte_mode vm =
     (let mask = value_mask byte_mode;
          a = a AND mask;
          subtrahend = unat (b AND mask) + unat borrow;
          result = mask_width (a - word_of_nat subtrahend) byte_mode
      in set_zsc result (unat a < subtrahend) byte_mode vm)"

section \<open>Operands and the stack\<close>

definition read_operand :: "operand \<Rightarrow> bool \<Rightarrow> vm \<Rightarrow> u32" where
  "read_operand operand byte_mode vm =
     (case operand of
        Register i \<Rightarrow> if byte_mode then regs vm ! i AND 0xff else regs vm ! i
      | Immediate v \<Rightarrow> mask_width v byte_mode
      | RegisterIndirect i \<Rightarrow> read_mem (regs vm ! i) byte_mode vm
      | Indexed i base \<Rightarrow> read_mem (base + regs vm ! i) byte_mode vm
      | Absolute address \<Rightarrow> read_mem address byte_mode vm)"

definition write_operand :: "operand \<Rightarrow> u32 \<Rightarrow> bool \<Rightarrow> vm \<Rightarrow> vm_error + vm" where
  "write_operand operand v byte_mode vm =
     (case operand of
        Register i \<Rightarrow>
          if byte_mode
          then Inr (vm\<lparr>regs := (regs vm)[i := (regs vm ! i AND 0xffffff00) OR (v AND 0xff)]\<rparr>)
          else Inr (vm\<lparr>regs := (regs vm)[i := v]\<rparr>)
      | RegisterIndirect i \<Rightarrow> Inr (write_mem (regs vm ! i) v byte_mode vm)
      | Indexed i base \<Rightarrow> Inr (write_mem (base + regs vm ! i) v byte_mode vm)
      | Absolute address \<Rightarrow> Inr (write_mem address v byte_mode vm)
      | Immediate _ \<Rightarrow> Inl (InvalidData ''RARVM write to immediate operand''))"

definition vm_push :: "u32 \<Rightarrow> vm \<Rightarrow> vm" where
  "vm_push v vm =
     (let vm = vm\<lparr>regs := (regs vm)[7 := regs vm ! 7 - 4]\<rparr> in write_mem (regs vm ! 7) v False vm)"

definition vm_pop :: "vm \<Rightarrow> u32 \<times> vm" where
  "vm_pop vm =
     (let v = read_mem (regs vm ! 7) False vm in (v, vm\<lparr>regs := (regs vm)[7 := regs vm ! 7 + 4]\<rparr>))"

definition vm_pusha :: "vm \<Rightarrow> vm" where
  "vm_pusha vm = foldl (\<lambda>s v. vm_push v s) vm (regs vm)"

text \<open>\<open>for index in (0..8).rev()\<close>, the stack pointer in a local that the loop does not reload.\<close>

definition vm_popa :: "vm \<Rightarrow> vm" where
  "vm_popa vm =
     snd (foldl (\<lambda>(stack, vm) index.
            (stack + 4, vm\<lparr>regs := (regs vm)[index := read_mem stack False vm]\<rparr>))
          (regs vm ! 7, vm) (rev [0..<8]))"

definition shift_result :: "opcode \<Rightarrow> u32 \<Rightarrow> nat \<Rightarrow> bool \<Rightarrow> u32" where
  "shift_result opcode v count byte_mode =
     (let width = (if byte_mode then 8 else 32) in
      if opcode = Shl then (if count = width then 0 else push_bit count v)
      else if opcode = Shr then (if count = width then 0 else drop_bit count v)
      else if byte_mode then
        (if 8 \<le> count then (if v AND 0x80 \<noteq> 0 then 0xff else 0)
         else ucast (signed_drop_bit count (ucast v :: byte)))
      else if 32 \<le> count then (if v AND 0x80000000 \<noteq> 0 then - 1 else 0)
      else signed_drop_bit count v)"

definition vm_shift :: "opcode \<Rightarrow> operand \<Rightarrow> u32 \<Rightarrow> bool \<Rightarrow> vm \<Rightarrow> vm_error + vm" where
  "vm_shift opcode dst count byte_mode vm =
     (if count = 0 then Inr vm
      else let width = (if byte_mode then 8 else 32);
               count = min (unat count) width;
               v = read_operand dst byte_mode vm;
               result = shift_result opcode v count byte_mode;
               carry = (if opcode = Shl then v AND push_bit (width - count) 1 \<noteq> 0
                        else v AND push_bit (count - 1) 1 \<noteq> 0);
               result = mask_width result byte_mode
           in rbind (write_operand dst result byte_mode vm) (\<lambda>vm.
                Inr (set_zsc result carry byte_mode vm)))"

definition conditional_jump :: "operand \<Rightarrow> bool \<Rightarrow> vm \<Rightarrow> vm_error + (nat option \<times> vm)" where
  "conditional_jump operand condition vm =
     Inr (if condition then Some (unat (read_operand operand False vm)) else None, vm)"

section \<open>One instruction\<close>

definition op_get :: "instruction \<Rightarrow> nat \<Rightarrow> vm_error + operand" where
  "op_get i index = ok_or (InvalidData ''RARVM instruction operand is missing'') (get (operands i) index)"

text \<open>Instructions that do not jump: the next state.\<close>

definition binary_op ::
  "instruction \<Rightarrow> vm \<Rightarrow> (u32 \<Rightarrow> u32 \<Rightarrow> operand \<Rightarrow> operand \<Rightarrow> vm_error + vm) \<Rightarrow> vm_error + (nat option \<times> vm)" where
  "binary_op i vm f =
     rbind (op_get i 0) (\<lambda>p.
     rbind (op_get i 1) (\<lambda>q.
     rbind (f (read_operand p (ins_byte_mode i) vm) (read_operand q (ins_byte_mode i) vm) p q) (\<lambda>vm.
       Inr (None, vm))))"

definition unary_op ::
  "instruction \<Rightarrow> vm \<Rightarrow> (operand \<Rightarrow> vm_error + vm) \<Rightarrow> vm_error + (nat option \<times> vm)" where
  "unary_op i vm f = rbind (op_get i 0) (\<lambda>p. rbind (f p) (\<lambda>vm. Inr (None, vm)))"

definition jump_op :: "instruction \<Rightarrow> vm \<Rightarrow> bool \<Rightarrow> vm_error + (nat option \<times> vm)" where
  "jump_op i vm condition = rbind (op_get i 0) (\<lambda>p. conditional_jump p condition vm)"

definition exec_arith :: "instruction \<Rightarrow> vm \<Rightarrow> vm_error + (nat option \<times> vm)" where
  "exec_arith i vm =
     (let m = ins_byte_mode i in
      case ins_opcode i of
        Cmp \<Rightarrow> binary_op i vm (\<lambda>a b p q. Inr (set_sub_flags a b 0 m vm))
      | Add \<Rightarrow> binary_op i vm (\<lambda>a b p q.
          let result = mask_width (a + b) m in
          rbind (write_operand p result m vm) (\<lambda>vm. Inr (set_add_flags a b 0 result m vm)))
      | Sub \<Rightarrow> binary_op i vm (\<lambda>a b p q.
          let result = mask_width (a - b) m in
          rbind (write_operand p result m vm) (\<lambda>vm. Inr (set_sub_flags a b 0 m vm)))
      | Inc \<Rightarrow> unary_op i vm (\<lambda>p.
          let result = mask_width (read_operand p m vm + 1) m in
          rbind (write_operand p result m vm) (\<lambda>vm. Inr (set_zs result m vm)))
      | Dec \<Rightarrow> unary_op i vm (\<lambda>p.
          let result = mask_width (read_operand p m vm - 1) m in
          rbind (write_operand p result m vm) (\<lambda>vm. Inr (set_zs result m vm)))
      | Neg \<Rightarrow> unary_op i vm (\<lambda>p.
          let result = mask_width (0 - read_operand p m vm) m in
          rbind (write_operand p result m vm) (\<lambda>vm.
            Inr (vm\<lparr>flags := if result = 0 then FLAG_Z else FLAG_C OR (result AND sign_bit m)\<rparr>)))
      | Mul \<Rightarrow> binary_op i vm (\<lambda>a b p q. write_operand p (mask_width (a * b) m) m vm)
      | Div \<Rightarrow> binary_op i vm (\<lambda>a b p q. if b = 0 then Inr vm else write_operand p (a div b) m vm)
      | Adc \<Rightarrow> binary_op i vm (\<lambda>a b p q.
          let carry = of_bool (flags vm AND FLAG_C \<noteq> 0); result = mask_width (a + b + carry) m in
          rbind (write_operand p result m vm) (\<lambda>vm. Inr (set_add_flags a b carry result m vm)))
      | _ \<Rightarrow> binary_op i vm (\<lambda>a b p q.
          let carry = of_bool (flags vm AND FLAG_C \<noteq> 0); result = mask_width (a - b - carry) m in
          rbind (write_operand p result m vm) (\<lambda>vm. Inr (set_sub_flags a b carry m vm))))"

definition exec_bitwise :: "instruction \<Rightarrow> vm \<Rightarrow> vm_error + (nat option \<times> vm)" where
  "exec_bitwise i vm =
     (let m = ins_byte_mode i in
      binary_op i vm (\<lambda>a b p q.
        let result = (if ins_opcode i = Xor then a XOR b else if ins_opcode i = Or then a OR b else a AND b);
            result = mask_width result m
        in if ins_opcode i = Test then Inr (set_zs result m vm)
           else rbind (write_operand p result m vm) (\<lambda>vm. Inr (set_zs result m vm))))"

definition exec_jump :: "instruction \<Rightarrow> vm \<Rightarrow> vm_error + (nat option \<times> vm)" where
  "exec_jump i vm =
     (case ins_opcode i of
        Jz \<Rightarrow> jump_op i vm (flags vm AND FLAG_Z \<noteq> 0)
      | Jnz \<Rightarrow> jump_op i vm (flags vm AND FLAG_Z = 0)
      | Js \<Rightarrow> jump_op i vm (flags vm AND FLAG_S \<noteq> 0)
      | Jns \<Rightarrow> jump_op i vm (flags vm AND FLAG_S = 0)
      | Jb \<Rightarrow> jump_op i vm (flags vm AND FLAG_C \<noteq> 0)
      | Jbe \<Rightarrow> jump_op i vm (flags vm AND (FLAG_C OR FLAG_Z) \<noteq> 0)
      | Ja \<Rightarrow> jump_op i vm (flags vm AND (FLAG_C OR FLAG_Z) = 0)
      | Jae \<Rightarrow> jump_op i vm (flags vm AND FLAG_C = 0)
      | _ \<Rightarrow> jump_op i vm True)"

text \<open>\<open>usize::MAX\<close>, the jump target that ends the program.\<close>

definition USIZE_MAX :: nat where "USIZE_MAX = 2 ^ 64 - 1"

definition exec_stack :: "instruction \<Rightarrow> nat \<Rightarrow> vm \<Rightarrow> vm_error + (nat option \<times> vm)" where
  "exec_stack i ip vm =
     (case ins_opcode i of
        Push \<Rightarrow> unary_op i vm (\<lambda>p. Inr (vm_push (read_operand p False vm) vm))
      | Pop \<Rightarrow> unary_op i vm (\<lambda>p. let (v, vm) = vm_pop vm in write_operand p v False vm)
      | Call \<Rightarrow> rbind (op_get i 0) (\<lambda>p.
          let vm = vm_push (word_of_nat ip) vm in Inr (Some (unat (read_operand p False vm)), vm))
      | Ret \<Rightarrow> if word_of_nat MEMORY_SIZE \<le> regs vm ! 7 then Inr (Some USIZE_MAX, vm)
               else let (v, vm) = vm_pop vm in Inr (Some (unat v), vm)
      | Pusha \<Rightarrow> Inr (None, vm_pusha vm)
      | Popa \<Rightarrow> Inr (None, vm_popa vm)
      | Pushf \<Rightarrow> Inr (None, vm_push (flags vm) vm)
      | _ \<Rightarrow> let (v, vm) = vm_pop vm in Inr (None, vm\<lparr>flags := v\<rparr>))"

definition exec_move :: "instruction \<Rightarrow> vm \<Rightarrow> vm_error + (nat option \<times> vm)" where
  "exec_move i vm =
     (let m = ins_byte_mode i in
      case ins_opcode i of
        Mov \<Rightarrow> binary_op i vm (\<lambda>a b p q. write_operand p b m vm)
      | NotOp \<Rightarrow> unary_op i vm (\<lambda>p. write_operand p (mask_width (NOT (read_operand p m vm)) m) m vm)
      | Movzx \<Rightarrow> binary_op i vm (\<lambda>a b p q. write_operand p (read_operand q True vm AND 0xff) False vm)
      | Movsx \<Rightarrow> binary_op i vm (\<lambda>a b p q.
          write_operand p (scast (ucast (read_operand q True vm) :: byte)) False vm)
      | Xchg \<Rightarrow> binary_op i vm (\<lambda>a b p q.
          rbind (write_operand p b m vm) (\<lambda>vm. write_operand q a m vm))
      | _ \<Rightarrow> binary_op i vm (\<lambda>a b p q. vm_shift (ins_opcode i) p b m vm))"

definition execute_instruction :: "instruction \<Rightarrow> nat \<Rightarrow> vm \<Rightarrow> vm_error + (nat option \<times> vm)" where
  "execute_instruction i ip vm =
     (let op = ins_opcode i in
      if op \<in> {Cmp, Add, Sub, Inc, Dec, Neg, Mul, Div, Adc, Sbb} then exec_arith i vm
      else if op \<in> {Xor, And, Or, Test} then exec_bitwise i vm
      else if op \<in> {Jz, Jnz, Jmp, Js, Jns, Jb, Jbe, Ja, Jae} then exec_jump i vm
      else if op \<in> {Push, Pop, Call, Ret, Pusha, Popa, Pushf, Popf} then exec_stack i ip vm
      else if op = Print then Inr (None, vm)
      else exec_move i vm)"

section \<open>Running a program\<close>

definition copy_slice :: "nat \<Rightarrow> byte list \<Rightarrow> vm_memory \<Rightarrow> vm_memory" where
  "copy_slice base bytes mem =
     (\<lambda>a. if base \<le> a \<and> a < base + length bytes then bytes ! (a - base) else mem a)"

definition vm_new :: "program \<Rightarrow> invocation \<Rightarrow> vm_error + vm" where
  "vm_new p invo =
     (if GLOBAL_BASE < length (inv_input invo)
      then Inl (InvalidData ''RARVM filter input is too large'')
      else let n = length (inv_input invo);
               mem = copy_slice 0 (inv_input invo) (\<lambda>_. 0);
               global_len = min (length (global_data invo)) 0x2000;
               mem = copy_slice GLOBAL_BASE (take global_len (global_data invo)) mem;
               static_start = GLOBAL_BASE + global_len;
               static_len = min (length (static_data p)) (MEMORY_SIZE - static_start);
               mem = copy_slice static_start (take static_len (static_data p)) mem;
               mem = write_u32 (GLOBAL_BASE + 0x1c) (word_of_nat n) mem;
               mem = write_u32 (GLOBAL_BASE + 0x20) 0 mem;
               mem = write_u32 (GLOBAL_BASE + 0x24) (ucast (file_offset invo)) mem;
               mem = write_u32 (GLOBAL_BASE + 0x28) (ucast (drop_bit 32 (file_offset invo))) mem;
               mem = write_u32 (GLOBAL_BASE + 0x2c) (exec_count invo) mem
           in Inr \<lparr>memory = mem,
                   regs = take 3 (inv_regs invo) @
                     [word_of_nat GLOBAL_BASE, word_of_nat n, exec_count invo,
                      ucast (file_offset invo), word_of_nat MEMORY_SIZE],
                   flags = 0\<rparr>)"

datatype run_outcome = Halted vm | Running nat vm

text \<open>One round of the loop in \<open>Vm::run\<close>.\<close>

definition run_step :: "program \<Rightarrow> nat \<Rightarrow> vm \<Rightarrow> vm_error + run_outcome" where
  "run_step p ip vm =
     (case get (instructions p) ip of
        None \<Rightarrow> Inr (Halted vm)
      | Some i \<Rightarrow>
          rbind (execute_instruction i (ip + 1) vm) (\<lambda>(target, vm).
            case target of
              Some next_ip \<Rightarrow>
                if length (instructions p) \<le> next_ip then Inr (Halted vm)
                else if ins_opcode i = Ret \<and> word_of_nat MEMORY_SIZE \<le> regs vm ! 7 then Inr (Halted vm)
                else Inr (Running next_ip vm)
            | None \<Rightarrow>
                if ins_opcode i = Ret \<and> word_of_nat MEMORY_SIZE \<le> regs vm ! 7 then Inr (Halted vm)
                else Inr (Running (ip + 1) vm)))"

fun vm_run_loop :: "nat \<Rightarrow> program \<Rightarrow> nat \<Rightarrow> vm \<Rightarrow> vm_error + vm" where
  "vm_run_loop 0 p ip vm = Inl (InvalidData ''RARVM instruction limit exceeded'')"
| "vm_run_loop (Suc n) p ip vm =
     rbind (run_step p ip vm) (\<lambda>out. case out of Halted vm \<Rightarrow> Inr vm | Running ip vm \<Rightarrow> vm_run_loop n p ip vm)"

definition mem_slice :: "nat \<Rightarrow> nat \<Rightarrow> vm_memory \<Rightarrow> byte list" where
  "mem_slice start n mem = map mem [start..<start + n]"

definition vm_result :: "vm \<Rightarrow> execution_result" where
  "vm_result vm =
     (let output_pos = unat (mem_read_u32 (GLOBAL_BASE + 0x20) (memory vm) AND MEMORY_MASK);
          output_size = unat (mem_read_u32 (GLOBAL_BASE + 0x1c) (memory vm) AND MEMORY_MASK);
          (output_pos, output_size) =
            (if MEMORY_SIZE < output_pos + output_size then (0, 0) else (output_pos, output_size));
          user_global = min (unat (mem_read_u32 (GLOBAL_BASE + 0x30) (memory vm))) MAX_USER_GLOBAL
      in \<lparr>res_output = mem_slice output_pos output_size (memory vm),
          res_globals = mem_slice GLOBAL_BASE (SYSTEM_GLOBAL_SIZE + user_global) (memory vm),
          res_regs = regs vm\<rparr>)"

definition vm_run :: "program \<Rightarrow> vm \<Rightarrow> vm_error + execution_result" where
  "vm_run p vm = rbind (vm_run_loop MAX_INSTRUCTIONS p 0 vm) (\<lambda>vm. Inr (vm_result vm))"

definition program_execute :: "program \<Rightarrow> invocation \<Rightarrow> vm_error + execution_result" where
  "program_execute p invo = rbind (vm_new p invo) (vm_run p)"

section \<open>Every instruction keeps the shape of the machine\<close>

text \<open>
  \<open>vm_safe vm m\<close>: the only error of the step \<open>m\<close> is the write to an immediate operand,
  and a step that succeeds keeps the number of registers.
\<close>

definition immediate_error :: vm_error where
  "immediate_error = InvalidData ''RARVM write to immediate operand''"

definition state_safe :: "vm \<Rightarrow> vm_error + vm \<Rightarrow> bool" where
  "state_safe vm m \<longleftrightarrow>
     (\<forall>e. m = Inl e \<longrightarrow> e = immediate_error) \<and> (\<forall>vm'. m = Inr vm' \<longrightarrow> length (regs vm') = length (regs vm))"

definition vm_safe :: "vm \<Rightarrow> vm_error + (nat option \<times> vm) \<Rightarrow> bool" where
  "vm_safe vm m \<longleftrightarrow>
     (\<forall>e. m = Inl e \<longrightarrow> e = immediate_error) \<and>
     (\<forall>t vm'. m = Inr (t, vm') \<longrightarrow> length (regs vm') = length (regs vm))"

named_theorems vm_safe_rules \<open>steps that keep the shape of the machine\<close>

lemma length_regs_simps [simp]:
  "regs (write_mem a v mode vm) = regs vm"
  "regs (set_zs r mode vm) = regs vm" "regs (set_zsc r c mode vm) = regs vm"
  "regs (set_add_flags a b d r mode vm) = regs vm" "regs (set_sub_flags a b d mode vm) = regs vm"
  "length (regs (vm_push v vm)) = length (regs vm)" "length (regs (snd (vm_pop vm))) = length (regs vm)"
  by (simp_all add: write_mem_def set_zs_def set_zsc_def set_add_flags_def set_sub_flags_def
      vm_push_def vm_pop_def Let_def)

lemma length_regs_pusha [simp]: "length (regs (vm_pusha vm)) = length (regs vm)"
proof -
  have "length (regs (foldl (\<lambda>s v. vm_push v s) vm vs)) = length (regs vm)" for vs
    by (induction vs arbitrary: vm) auto
  then show ?thesis by (simp add: vm_pusha_def)
qed

lemma length_regs_popa [simp]: "length (regs (vm_popa vm)) = length (regs vm)"
proof -
  have "length (regs (snd (foldl (\<lambda>(stack, vm) index.
      (stack + 4, vm\<lparr>regs := (regs vm)[index := read_mem stack False vm]\<rparr>)) (st, vm) ixs))) = length (regs vm)"
    for ixs st by (induction ixs arbitrary: st vm) auto
  then show ?thesis by (simp add: vm_popa_def del: upt_rec_numeral)
qed

lemma state_safe_return [vm_safe_rules]: "length (regs vm') = length (regs vm) \<Longrightarrow> state_safe vm (Inr vm')"
  by (simp add: state_safe_def)

lemma state_safe_write: "state_safe vm (write_operand p v mode vm)"
  by (cases p) (auto simp: state_safe_def write_operand_def immediate_error_def)

lemma state_safe_write_regs [vm_safe_rules]:
  "length (regs vm') = length (regs vm) \<Longrightarrow> state_safe vm (write_operand p v mode vm')"
  using state_safe_write [of vm' p v mode] by (simp add: state_safe_def)

lemma state_safe_bind [vm_safe_rules]:
  assumes "state_safe vm m" "\<And>vm1. length (regs vm1) = length (regs vm) \<Longrightarrow> state_safe vm (f vm1)"
  shows "state_safe vm (rbind m f)"
proof (cases m)
  case (Inl e)
  with assms(1) show ?thesis by (simp add: state_safe_def)
next
  case (Inr vm1)
  then have "length (regs vm1) = length (regs vm)" using assms(1) by (simp add: state_safe_def)
  with assms(2) Inr show ?thesis by simp
qed

lemma state_safe_shift [vm_safe_rules]: "state_safe vm (vm_shift opcode p count mode vm)"
proof (cases "count = 0")
  case True
  then show ?thesis by (simp add: vm_shift_def state_safe_return)
next
  case False
  then show ?thesis
    unfolding vm_shift_def Let_def
    by (simp only: if_False) (rule vm_safe_rules refl | simp only: length_regs_simps)+
qed

lemma binary_op_safe:
  assumes "length (operands i) = 2" "\<And>a b p q. state_safe vm (f a b p q)"
  shows "vm_safe vm (binary_op i vm f)"
proof -
  have "op_get i 0 = Inr (operands i ! 0)" "op_get i 1 = Inr (operands i ! 1)"
    using assms(1) by (simp_all add: op_get_def get_def)
  then show ?thesis
    using assms(2) by (auto simp: binary_op_def vm_safe_def state_safe_def rbind_eq_Inl rbind_eq_Inr)
qed

lemma unary_op_safe:
  assumes "length (operands i) = 1" "\<And>p. state_safe vm (f p)"
  shows "vm_safe vm (unary_op i vm f)"
proof -
  have "op_get i 0 = Inr (operands i ! 0)" using assms(1) by (simp add: op_get_def get_def)
  then show ?thesis
    using assms(2) by (auto simp: unary_op_def vm_safe_def state_safe_def rbind_eq_Inl rbind_eq_Inr)
qed

lemma jump_op_safe: "length (operands i) = 1 \<Longrightarrow> vm_safe vm (jump_op i vm c)"
  by (simp add: jump_op_def op_get_def get_def conditional_jump_def vm_safe_def)

lemma state_safe_if [vm_safe_rules]:
  "state_safe vm m \<Longrightarrow> state_safe vm n \<Longrightarrow> state_safe vm (if b then m else n)"
  by simp

lemma exec_arith_safe:
  assumes "length (operands i) = operand_count (ins_opcode i)"
    and "ins_opcode i \<in> {Cmp, Add, Sub, Inc, Dec, Neg, Mul, Div, Adc, Sbb}"
  shows "vm_safe vm (exec_arith i vm)"
  using assms(2)
  by (elim insertE emptyE)
    (simp only: exec_arith_def Let_def opcode.case,
     (rule binary_op_safe unary_op_safe, use assms(1) in \<open>simp add: operand_count_def\<close>),
     (rule vm_safe_rules refl | simp)+)+

lemma exec_bitwise_safe:
  assumes "length (operands i) = 2"
  shows "vm_safe vm (exec_bitwise i vm)"
  unfolding exec_bitwise_def Let_def
  by (rule binary_op_safe [OF assms]) (rule vm_safe_rules refl | simp)+

lemma exec_jump_safe:
  assumes "length (operands i) = 1"
  shows "vm_safe vm (exec_jump i vm)"
  unfolding exec_jump_def by (simp add: jump_op_safe [OF assms] split: opcode.split)

lemma exec_stack_safe:
  assumes "length (operands i) = operand_count (ins_opcode i)"
    and "ins_opcode i \<in> {Push, Pop, Call, Ret, Pusha, Popa, Pushf, Popf}"
  shows "vm_safe vm (exec_stack i ip vm)"
proof -
  have pop: "state_safe vm (let (v, vm) = vm_pop vm in write_operand p v False vm)" for p
    using length_regs_simps(7) [of vm] state_safe_write_regs [of "snd (vm_pop vm)" vm]
    by (simp add: split_beta Let_def del: length_regs_simps)
  have pop': "length (regs vm') = length (regs vm)" if "vm_pop vm = (v, vm')" for v vm'
    using length_regs_simps(7) [of vm] that by simp
  have one: "op_get i 0 = Inr (operands i ! 0)" if "length (operands i) = 1"
    using that by (simp add: op_get_def get_def)
  show ?thesis
    using assms(2)
  proof (elim insertE emptyE)
    assume op: "ins_opcode i = Push"
    then show ?thesis
      unfolding exec_stack_def using assms(1)
      by (simp only: opcode.case) (rule unary_op_safe, simp add: operand_count_def,
          simp add: state_safe_return)
  next
    assume op: "ins_opcode i = Pop"
    then show ?thesis
      unfolding exec_stack_def using assms(1) pop
      by (simp only: opcode.case) (rule unary_op_safe, simp add: operand_count_def)
  next
    assume op: "ins_opcode i = Call"
    then have "length (operands i) = 1" using assms(1) by (simp add: operand_count_def)
    with op one show ?thesis
      by (simp add: exec_stack_def vm_safe_def Let_def)
  qed (auto simp: exec_stack_def vm_safe_def Let_def split: prod.splits dest: pop')
qed

lemma exec_move_safe:
  assumes "length (operands i) = operand_count (ins_opcode i)"
    and "ins_opcode i \<in> {Mov, NotOp, Movzx, Movsx, Xchg, Shl, Shr, Sar}"
  shows "vm_safe vm (exec_move i vm)"
  using assms(2)
  by (elim insertE emptyE)
    (simp only: exec_move_def Let_def opcode.case,
     (rule binary_op_safe unary_op_safe, use assms(1) in \<open>simp add: operand_count_def\<close>),
     (rule vm_safe_rules refl | simp)+)+

lemma execute_instruction_safe:
  assumes "length (operands i) = operand_count (ins_opcode i)"
  shows "vm_safe vm (execute_instruction i ip vm)"
proof -
  have "ins_opcode i \<in> {Mov, NotOp, Movzx, Movsx, Xchg, Shl, Shr, Sar}"
    if "ins_opcode i \<notin> {Cmp, Add, Sub, Inc, Dec, Neg, Mul, Div, Adc, Sbb}"
      "ins_opcode i \<notin> {Xor, And, Or, Test}" "ins_opcode i \<notin> {Jz, Jnz, Jmp, Js, Jns, Jb, Jbe, Ja, Jae}"
      "ins_opcode i \<notin> {Push, Pop, Call, Ret, Pusha, Popa, Pushf, Popf}" "ins_opcode i \<noteq> Print"
    using that by (cases "ins_opcode i") simp_all
  moreover have "length (operands i) = 2" if "ins_opcode i \<in> {Xor, And, Or, Test}"
    using that assms by (auto simp: operand_count_def)
  moreover have "length (operands i) = 1" if "ins_opcode i \<in> {Jz, Jnz, Jmp, Js, Jns, Jb, Jbe, Ja, Jae}"
    using that assms by (auto simp: operand_count_def)
  moreover have "vm_safe vm (Inr (None, vm))" by (simp add: vm_safe_def)
  ultimately show ?thesis
    unfolding execute_instruction_def Let_def
    using exec_arith_safe [OF assms] exec_bitwise_safe exec_jump_safe
      exec_stack_safe [OF assms] exec_move_safe [OF assms] by presburger
qed

section \<open>The machine as a step relation\<close>

inductive vm_step :: "program \<Rightarrow> nat \<times> vm \<Rightarrow> nat \<times> vm \<Rightarrow> bool" for p where
  "run_step p ip vm = Inr (Running ip' vm') \<Longrightarrow> vm_step p (ip, vm) (ip', vm')"

inductive_cases vm_step_cases: "vm_step p (ip, vm) c"

inductive_simps vm_step_iff: "vm_step p (ip, vm) (ip', vm')"

definition vm_ok :: "program \<Rightarrow> nat \<times> vm \<Rightarrow> bool" where
  "vm_ok p c \<longleftrightarrow> fst c < length (instructions p) \<and> length (regs (snd c)) = 8"

lemma run_step_outcome:
  assumes "program_ok p" "vm_ok p (ip, vm)"
  shows "(\<forall>e. run_step p ip vm = Inl e \<longrightarrow> e = immediate_error) \<and>
    (\<forall>ip' vm'. run_step p ip vm = Inr (Running ip' vm') \<longrightarrow> vm_ok p (ip', vm')) \<and>
    (\<forall>vm'. run_step p ip vm = Inr (Halted vm') \<longrightarrow> length (regs vm') = 8)"
proof -
  let ?i = "instructions p ! ip"
  have ip: "ip < length (instructions p)" and regs: "length (regs vm) = 8"
    using assms(2) by (auto simp: vm_ok_def)
  have i: "instruction_ok ?i" using assms(1) ip by (auto simp: program_ok_def list_all_length)
  then have safe: "vm_safe vm (execute_instruction ?i (ip + 1) vm)"
    by (intro execute_instruction_safe) (simp add: instruction_ok_def)
  show ?thesis
  proof (cases "execute_instruction ?i (ip + 1) vm")
    case (Inl e)
    with safe ip show ?thesis by (simp add: run_step_def get_def vm_safe_def)
  next
    case (Inr x)
    obtain t vm1 where x: "x = (t, vm1)" by (cases x)
    have regs1: "length (regs vm1) = 8" using safe Inr x regs by (simp add: vm_safe_def)
    note step = run_step_def get_def ip if_True option.case Inr x rbind_Inr prod.case
    show ?thesis
    proof (cases t)
      case (Some target)
      have "run_step p ip vm = (if length (instructions p) \<le> target then Inr (Halted vm1)
          else if ins_opcode ?i = Ret \<and> word_of_nat MEMORY_SIZE \<le> regs vm1 ! 7 then Inr (Halted vm1)
          else Inr (Running target vm1))"
        by (simp only: step Some)
      then show ?thesis using regs1 by (auto simp: vm_ok_def split: if_splits)
    next
      case None
      have eq: "run_step p ip vm = (if ins_opcode ?i = Ret \<and> word_of_nat MEMORY_SIZE \<le> regs vm1 ! 7
          then Inr (Halted vm1) else Inr (Running (ip + 1) vm1))"
        by (simp only: step None)
      have "ip + 1 < length (instructions p)"
      proof (rule ccontr)
        assume "\<not> ip + 1 < length (instructions p)"
        then have "ip = length (instructions p) - 1" using ip by simp
        moreover have "instructions p \<noteq> []" using ip by auto
        ultimately have "?i = last (instructions p)" by (simp add: last_conv_nth)
        then have op: "is_unconditional_control_transfer (ins_opcode ?i)"
          using assms(1) by (simp add: program_ok_def)
        then have "ins_opcode ?i = Jmp \<or> ins_opcode ?i = Ret"
          by (auto simp: is_unconditional_control_transfer_def)
        then have "t \<noteq> None"
          using Inr x i by (auto simp: execute_instruction_def exec_jump_def exec_stack_def jump_op_def
              conditional_jump_def rbind_eq_Inr Let_def split: if_splits prod.splits)
        with None show False by simp
      qed
      then show ?thesis using eq regs1 by (auto simp: vm_ok_def split: if_splits)
    qed
  qed
qed

lemma vm_step_preserves:
  assumes "program_ok p" "vm_step p c c'" "vm_ok p c"
  shows "vm_ok p c'"
  using assms(2,3)
proof cases
  case (1 ip vm ip' vm')
  with run_step_outcome [OF assms(1), of ip vm] assms(3) show ?thesis by auto
qed

lemma vm_reachable_ok:
  assumes "program_ok p" "(vm_step p)\<^sup>*\<^sup>* c c'" "vm_ok p c"
  shows "vm_ok p c'"
  using assms(2,3) by (induction rule: rtranclp_induct) (auto intro: vm_step_preserves [OF assms(1)])

lemma relpowp_first: "(R ^^ Suc k) a c \<longleftrightarrow> (\<exists>b. R a b \<and> (R ^^ k) b c)"
  by (metis relpowp_Suc_I2 relpowp_Suc_D2)

text \<open>The bounded loop is the relation followed for fewer than \<open>n\<close> steps and then halted.\<close>

lemma vm_run_loop_steps:
  "vm_run_loop n p ip vm = Inr vm' \<longleftrightarrow>
     (\<exists>k<n. \<exists>ip1 vm1. (vm_step p ^^ k) (ip, vm) (ip1, vm1) \<and> run_step p ip1 vm1 = Inr (Halted vm'))"
proof (induction n arbitrary: ip vm)
  case 0
  then show ?case by simp
next
  case (Suc n)
  show ?case
  proof (cases "run_step p ip vm")
    case (Inl e)
    have "\<not> (vm_step p ^^ Suc k) (ip, vm) c" for k c
      using Inl unfolding relpowp_first by (auto elim!: vm_step_cases)
    then have zero: "k = 0" if "(vm_step p ^^ k) (ip, vm) c" for k c
      using that by (cases k) auto
    have "\<not> ((vm_step p ^^ k) (ip, vm) (ip1, vm1) \<and> run_step p ip1 vm1 = Inr (Halted vm'))" for k ip1 vm1
      using zero [of k "(ip1, vm1)"] Inl by auto
    with Inl show ?thesis by simp
  next
    case (Inr out)
    show ?thesis
    proof (cases out)
      case (Halted v)
      have "\<not> (vm_step p ^^ Suc k) (ip, vm) c" for k c
        using Inr Halted unfolding relpowp_first by (auto elim!: vm_step_cases)
      then have zero: "k = 0" if "(vm_step p ^^ k) (ip, vm) c" for k c
        using that by (cases k) auto
      have "((vm_step p ^^ k) (ip, vm) (ip1, vm1) \<and> run_step p ip1 vm1 = Inr (Halted vm')) \<longleftrightarrow>
          k = 0 \<and> ip1 = ip \<and> vm1 = vm \<and> vm' = v" for k ip1 vm1
        using zero [of k "(ip1, vm1)"] Inr Halted by auto
      with Inr Halted show ?thesis by auto
    next
      case (Running ip2 vm2)
      then have "vm_step p (ip, vm) c \<longleftrightarrow> c = (ip2, vm2)" for c
        using Inr by (cases c) (auto simp: vm_step_iff)
      then have "(vm_step p ^^ Suc k) (ip, vm) c \<longleftrightarrow> (vm_step p ^^ k) (ip2, vm2) c" for k c
        unfolding relpowp_first by simp
      moreover have "\<not> (\<exists>ip1 vm1. (vm_step p ^^ 0) (ip, vm) (ip1, vm1) \<and> run_step p ip1 vm1 = Inr (Halted vm'))"
        using Inr Running by auto
      ultimately show ?thesis
        using Inr Running Suc [of ip2 vm2] by (simp add: Ex_less_Suc2 del: relpowp.simps) blast
    qed
  qed
qed

end
