(* ===== verification/RarVmProps.thy ===== *)
theory RarVmProps
  imports RarVmExec
begin

text \<open>
  What the RAR virtual machine guarantees: which errors a parsed program can end with, the size
  of its result, the meaning of the flags, multi-word arithmetic, and the stack.
\<close>

section \<open>Errors and results\<close>

lemma vm_run_loop_errors:
  "program_ok p \<Longrightarrow> vm_ok p (ip, vm) \<Longrightarrow> vm_run_loop n p ip vm = Inl e \<Longrightarrow>
     e = immediate_error \<or> e = InvalidData ''RARVM instruction limit exceeded''"
proof (induction n arbitrary: ip vm)
  case 0
  then show ?case by simp
next
  case (Suc n)
  note step = run_step_outcome [OF Suc.prems(1,2)]
  show ?case
  proof (cases "run_step p ip vm")
    case (Inl e')
    with step Suc.prems(3) show ?thesis by simp
  next
    case (Inr out)
    with step Suc show ?thesis by (cases out) auto
  qed
qed

lemma vm_run_loop_regs:
  "program_ok p \<Longrightarrow> vm_ok p (ip, vm) \<Longrightarrow> vm_run_loop n p ip vm = Inr vm' \<Longrightarrow> length (regs vm') = 8"
proof (induction n arbitrary: ip vm)
  case 0
  then show ?case by simp
next
  case (Suc n)
  note step = run_step_outcome [OF Suc.prems(1,2)]
  show ?case
  proof (cases "run_step p ip vm")
    case (Inr out)
    with step Suc show ?thesis by (cases out) auto
  qed (use Suc.prems in simp)
qed

lemma vm_new_ok:
  assumes "vm_new p invo = Inr vm" "length (inv_regs invo) = 7" "program_ok p"
  shows "vm_ok p (0, vm)"
  using assms by (auto simp: vm_new_def vm_ok_def program_ok_def Let_def split: if_splits)

text \<open>C26: Executing a parsed program can only fail because the input is too large, because the
  instruction limit is reached, or because the program writes to an immediate operand; in
  particular an operand is never missing.\<close>

theorem vm_execute_errors:
  assumes "program_parse blob = Inr p" "length (inv_regs invo) = 7" "program_execute p invo = Inl e"
  shows "e \<in> {InvalidData ''RARVM filter input is too large'',
              InvalidData ''RARVM instruction limit exceeded'',
              InvalidData ''RARVM write to immediate operand''}"
proof -
  have ok: "program_ok p"
  proof -
    obtain static r code where "parse_static_data (vm_reader_new (drop 1 blob)) = Inr (static, r)"
        and "parse_instructions r [] = Inr code"
        and "p = \<lparr>static_data = static, instructions = close_program code\<rparr>"
      using assms(1) by (auto simp: program_parse_def rbind_eq_Inr split: if_splits)
    then show ?thesis
      using parse_static_data_length parse_instructions_ok [of r "[]" code] close_program_ok [of code]
      by (auto simp: program_ok_def)
  qed
  show ?thesis
  proof (cases "vm_new p invo")
    case (Inl e')
    then show ?thesis
      using assms(3) by (auto simp: program_execute_def vm_new_def Let_def split: if_splits)
  next
    case (Inr vm)
    then have "vm_run_loop MAX_INSTRUCTIONS p 0 vm = Inl e"
      using assms(3) by (auto simp: program_execute_def vm_run_def rbind_eq_Inl)
    then show ?thesis
      using vm_run_loop_errors [OF ok vm_new_ok [OF Inr assms(2) ok]] by (auto simp: immediate_error_def)
  qed
qed

section \<open>Bounds of the result\<close>

lemma unat_memory_mask: "unat (v AND MEMORY_MASK) < MEMORY_SIZE"
proof -
  have eq: "MEMORY_MASK = mask 18" by (simp add: MEMORY_MASK_def mask_eq_exp_minus_1)
  show ?thesis unfolding eq unat_and_mask MEMORY_SIZE_def by simp
qed

text \<open>C29: The output of an execution is smaller than the memory, the saved global data holds
  the 64 system bytes and at most 8192 in all, and all eight registers are returned.\<close>

theorem vm_execute_result_bounds:
  assumes "program_ok p" "length (inv_regs invo) = 7" "program_execute p invo = Inr result"
  shows "length (res_output result) < MEMORY_SIZE \<and>
    SYSTEM_GLOBAL_SIZE \<le> length (res_globals result) \<and> length (res_globals result) \<le> 0x2000 \<and>
    length (res_regs result) = 8"
proof -
  obtain vm vm' where vm: "vm_new p invo = Inr vm"
      and "vm_run_loop MAX_INSTRUCTIONS p 0 vm = Inr vm'" and result: "result = vm_result vm'"
    using assms(3) by (auto simp: program_execute_def vm_run_def rbind_eq_Inr)
  then have "length (regs vm') = 8"
    using vm_run_loop_regs [OF assms(1) vm_new_ok [OF vm assms(2,1)]] by blast
  moreover have "0 < MEMORY_SIZE" by (simp add: MEMORY_SIZE_def)
  ultimately show ?thesis
    using unat_memory_mask
    by (auto simp: result vm_result_def Let_def mem_slice_def SYSTEM_GLOBAL_SIZE_def MAX_USER_GLOBAL_def)
qed

definition ret_program :: program where
  "ret_program = \<lparr>static_data = [], instructions = [ret_instruction]\<rparr>"

definition small_invocation :: invocation where
  "small_invocation = \<lparr>inv_input = [1, 2, 3], inv_regs = replicate 7 0, global_data = [],
     file_offset = 0, exec_count = 0\<rparr>"

lemma ret_program_ok: "program_ok ret_program"
  by (simp add: program_ok_def ret_program_def ret_instruction_def instruction_ok_def operand_count_def
      is_unconditional_control_transfer_def)

lemma run_ret_program:
  "length (regs vm) = 8 \<Longrightarrow> word_of_nat MEMORY_SIZE \<le> regs vm ! 7 \<Longrightarrow>
     vm_run_loop (Suc n) ret_program 0 vm = Inr vm"
  by (simp add: run_step_def ret_program_def ret_instruction_def get_def execute_instruction_def
      exec_stack_def USIZE_MAX_def)

lemma execute_ret_program: "\<exists>result. program_execute ret_program small_invocation = Inr result"
proof -
  have n: "MAX_INSTRUCTIONS = Suc 24999999" by (simp add: MAX_INSTRUCTIONS_def)
  have three: "take 3 (replicate 7 (0 :: u32)) = [0, 0, 0]" by (simp add: numeral_3_eq_3)
  obtain vm where vm: "vm_new ret_program small_invocation = Inr vm"
      "regs vm = [0, 0, 0, word_of_nat GLOBAL_BASE, 3, 0, 0, word_of_nat MEMORY_SIZE]"
    by (simp add: vm_new_def small_invocation_def GLOBAL_BASE_def Let_def three del: take_replicate)
  then have "vm_run_loop MAX_INSTRUCTIONS ret_program 0 vm = Inr vm"
    unfolding n by (intro run_ret_program) simp_all
  with vm show ?thesis by (simp add: program_execute_def vm_run_def)
qed

theorem vm_execute_result_bounds_witness:
  "\<exists>result. program_execute ret_program small_invocation = Inr result \<and>
     length (res_output result) < MEMORY_SIZE \<and> length (res_regs result) = 8"
proof -
  obtain result where "program_execute ret_program small_invocation = Inr result"
    using execute_ret_program by blast
  moreover have "length (inv_regs small_invocation) = 7" by (simp add: small_invocation_def)
  ultimately show ?thesis
    using vm_execute_result_bounds [OF ret_program_ok] by blast
qed

definition big_invocation :: invocation where
  "big_invocation = small_invocation\<lparr>inv_input := replicate 245761 0\<rparr>"

theorem vm_execute_errors_witness:
  "\<exists>p. program_parse [0x5C, 0x5C, 0] = Inr p \<and>
     program_execute p big_invocation = Inl (InvalidData ''RARVM filter input is too large'') \<and>
     InvalidData ''RARVM filter input is too large'' \<noteq> InvalidData ''RARVM instruction operand is missing''"
proof -
  have "\<not> isl (program_parse [0x5C, 0x5C, 0])" by code_simp
  then obtain p where p: "program_parse [0x5C, 0x5C, 0] = Inr p"
    by (cases "program_parse [0x5C, 0x5C, 0]") auto
  have "program_execute p big_invocation = Inl (InvalidData ''RARVM filter input is too large'')"
    by (simp add: program_execute_def vm_new_def big_invocation_def GLOBAL_BASE_def)
  with p vm_execute_errors [OF p, of big_invocation] show ?thesis
    by (auto simp: big_invocation_def small_invocation_def)
qed

text \<open>
  The bounded loop of the source follows the step relation, in which \<open>vm_reachable_ok\<close> is
  proved, for fewer than 25,000,000 steps.
\<close>

lemma vm_run_iff_steps:
  "vm_run p vm = Inr result \<longleftrightarrow>
     (\<exists>k<MAX_INSTRUCTIONS. \<exists>ip1 vm1 vm2. (vm_step p ^^ k) (0, vm) (ip1, vm1) \<and>
        run_step p ip1 vm1 = Inr (Halted vm2) \<and> result = vm_result vm2)"
  by (auto simp: vm_run_def rbind_eq_Inr vm_run_loop_steps)

section \<open>Flags\<close>

lemma bit_sign_bit: "bit (sign_bit m) n \<longleftrightarrow> n = (if m then 7 else 31)"
proof -
  have "sign_bit m = 2 ^ (if m then 7 else 31)" by (simp add: sign_bit_def FLAG_S_def)
  then show ?thesis by (simp only: bit_exp_iff) auto
qed

lemma flag_tests:
  "v AND FLAG_C = 0 \<longleftrightarrow> \<not> bit v 0" "v AND FLAG_Z = 0 \<longleftrightarrow> \<not> bit v 1" "v AND FLAG_S = 0 \<longleftrightarrow> \<not> bit v 31"
  "v AND (FLAG_C OR FLAG_Z) = 0 \<longleftrightarrow> \<not> bit v 0 \<and> \<not> bit v 1"
proof -
  have c: "FLAG_C = 2 ^ 0" and z: "FLAG_Z = 2 ^ 1" and s: "FLAG_S = 2 ^ 31"
    by (simp_all add: FLAG_C_def FLAG_Z_def FLAG_S_def)
  show C: "v AND FLAG_C = 0 \<longleftrightarrow> \<not> bit v 0" unfolding c by (rule and_exp_eq_0_iff_not_bit)
  show Z: "v AND FLAG_Z = 0 \<longleftrightarrow> \<not> bit v 1" unfolding z by (rule and_exp_eq_0_iff_not_bit)
  show "v AND FLAG_S = 0 \<longleftrightarrow> \<not> bit v 31" unfolding s by (rule and_exp_eq_0_iff_not_bit)
  show "v AND (FLAG_C OR FLAG_Z) = 0 \<longleftrightarrow> \<not> bit v 0 \<and> \<not> bit v 1"
    unfolding bit.conj_disj_distrib C [symmetric] Z [symmetric] by (rule or_eq_0_iff)
qed

lemma bit_flag_constants:
  "bit FLAG_C n \<longleftrightarrow> n = 0" "bit FLAG_Z n \<longleftrightarrow> n = 1"
proof -
  have c: "FLAG_C = 2 ^ 0" and z: "FLAG_Z = 2 ^ 1"
    by (simp_all add: FLAG_C_def FLAG_Z_def)
  show "bit FLAG_C n \<longleftrightarrow> n = 0" unfolding c bit_exp_iff by auto
  show "bit FLAG_Z n \<longleftrightarrow> n = 1" unfolding z bit_exp_iff by auto
qed

lemma flags_set_zsc:
  "bit (flags (set_zsc r c m vm)) 0 \<longleftrightarrow> c"
  "bit (flags (set_zsc r c m vm)) 1 \<longleftrightarrow> r = 0"
  "bit (flags (set_zsc r c m vm)) 31 \<longleftrightarrow> \<not> m \<and> bit r 31"
  by (auto simp: set_zsc_def set_zs_def Let_def bit_or_iff bit_and_iff bit_sign_bit bit_flag_constants)

lemma set_zsc_frame [simp]:
  "memory (set_zsc r c m vm) = memory vm" "regs (set_zsc r c m vm) = regs vm"
  by (simp_all add: set_zsc_def set_zs_def Let_def)

lemma read_operand_masked: "read_operand p m vm AND value_mask m = read_operand p m vm"
proof -
  have "ucast (b :: byte) AND (0xff :: u32) = ucast b" for b
  proof -
    have ff: "(0xff :: u32) = mask 8" by (simp add: mask_eq_exp_minus_1)
    show ?thesis
      unfolding ff take_bit_eq_mask [symmetric] by (rule bit_word_eqI) (auto simp: bit_simps dest: bit_imp_le_length)
  qed
  then show ?thesis
    by (cases p) (auto simp: read_operand_def value_mask_def mask_width_def read_mem_def Let_def and.assoc)
qed

lemma masked_diff_eq_0:
  fixes a b :: u32
  assumes "a AND value_mask m = a" "b AND value_mask m = b"
  shows "mask_width (a - b) m = 0 \<longleftrightarrow> a = b"
proof (cases m)
  case False
  then show ?thesis by (simp add: mask_width_def value_mask_def)
next
  case True
  have ff: "value_mask m = mask 8" using True by (simp add: value_mask_def mask_eq_exp_minus_1)
  have u: "unat v mod 256 = unat v" if "v AND value_mask m = v" for v :: u32
    using unat_and_mask [of v 8] that unfolding ff by simp
  have "mask_width (a - b) m = 0 \<longleftrightarrow> unat (a - b) mod 256 = 0"
    unfolding mask_width_def ff using unat_and_mask [of "a - b" 8] by (simp add: word_unat_eq_iff)
  also have "\<dots> \<longleftrightarrow> unat a = unat b"
  proof (cases "unat b \<le> unat a")
    case True
    then show ?thesis
      using u [OF assms(1)] u [OF assms(2)] by (simp add: unat_sub_if_size)
  next
    case False
    have "unat a < 256" "unat b < 256"
      using u [OF assms(1)] u [OF assms(2)] by (metis mod_less_divisor zero_less_numeral)+
    then have eq: "unat (a - b) = 256 - (unat b - unat a) + 256 * 16777215" and less: "256 - (unat b - unat a) < 256"
      using False by (simp_all add: unat_sub_if_size word_size)
    then have "unat (a - b) mod 256 = 256 - (unat b - unat a)"
      unfolding eq mod_mult_self2 using less by (simp only: mod_less)
    then show ?thesis using False \<open>unat b < 256\<close> by simp
  qed
  finally show ?thesis by (simp add: word_unat_eq_iff)
qed

definition plain :: "opcode \<Rightarrow> operand list \<Rightarrow> instruction" where
  "plain op ps = \<lparr>ins_opcode = op, ins_byte_mode = False, operands = ps\<rparr>"

lemma plain_fields [simp]:
  "ins_opcode (plain op ps) = op" "ins_byte_mode (plain op ps) = False" "operands (plain op ps) = ps"
  by (simp_all add: plain_def)

lemma flags_set_sub:
  assumes "a AND value_mask m = a" "b AND value_mask m = b"
  shows "bit (flags (set_sub_flags a b 0 m vm)) 0 \<longleftrightarrow> a < b"
    and "bit (flags (set_sub_flags a b 0 m vm)) 1 \<longleftrightarrow> a = b"
  using masked_diff_eq_0 [OF assms] assms
  by (simp_all add: set_sub_flags_def Let_def flags_set_zsc word_less_nat_alt del: One_nat_def)

text \<open>C28: After a comparison each conditional jump decides as follows, and the comparison changes
  nothing but the flags. In 32-bit and in byte mode, \<open>Jz\<close>, \<open>Jnz\<close>, \<open>Jb\<close>, \<open>Jbe\<close>, \<open>Ja\<close> and \<open>Jae\<close> decide as their
  names say on the compared values as unsigned numbers, and \<open>Jmp\<close> is always taken. \<open>Js\<close> and \<open>Jns\<close> test
  the sign of the 32-bit difference in 32-bit mode; after a byte-mode comparison \<open>Js\<close> is never taken
  and \<open>Jns\<close> always, whatever the sign of the difference.\<close>

theorem cmp_decides_jumps:
  "\<exists>vm'. execute_instruction \<lparr>ins_opcode = Cmp, ins_byte_mode = m, operands = [p, q]\<rparr> ip vm = Inr (None, vm') \<and>
     memory vm' = memory vm \<and> regs vm' = regs vm \<and>
     (let a = read_operand p m vm; b = read_operand q m vm; target = Some (unat (read_operand t False vm'));
          jump = (\<lambda>op taken. execute_instruction (plain op [t]) ip' vm' =
                    Inr (if taken then target else None, vm'))
      in jump Jz (a = b) \<and> jump Jnz (a \<noteq> b) \<and> jump Jb (a < b) \<and> jump Jbe (a \<le> b) \<and>
         jump Ja (b < a) \<and> jump Jae (b \<le> a) \<and> jump Jmp True \<and>
         jump Js (\<not> m \<and> sint (a - b) < 0) \<and> jump Jns (m \<or> 0 \<le> sint (a - b)))"
proof -
  let ?a = "read_operand p m vm" and ?b = "read_operand q m vm"
  let ?vm = "set_sub_flags ?a ?b 0 m vm"
  note bits = flags_set_sub [OF read_operand_masked [of p m vm] read_operand_masked [of q m vm]]
  have sign: "bit (flags ?vm) 31 \<longleftrightarrow> \<not> m \<and> sint (?a - ?b) < 0"
    by (simp add: set_sub_flags_def Let_def flags_set_zsc mask_width_def value_mask_def bit_last_iff [symmetric])
  have run: "execute_instruction \<lparr>ins_opcode = Cmp, ins_byte_mode = m, operands = [p, q]\<rparr> ip vm = Inr (None, ?vm)"
    by (simp add: execute_instruction_def exec_arith_def binary_op_def op_get_def get_def)
  have frame: "memory ?vm = memory vm" "regs ?vm = regs vm"
    by (simp_all add: set_sub_flags_def Let_def)
  have jump: "execute_instruction (plain op [t]) ip' ?vm = exec_jump (plain op [t]) ?vm"
    if "op \<in> {Jz, Jnz, Jmp, Js, Jns, Jb, Jbe, Ja, Jae}" for op
    using that by (auto simp: execute_instruction_def)
  have order: "?a \<le> ?b \<longleftrightarrow> ?a < ?b \<or> ?a = ?b" "?b < ?a \<longleftrightarrow> \<not> ?a < ?b \<and> ?a \<noteq> ?b"
      "?b \<le> ?a \<longleftrightarrow> \<not> ?a < ?b" "m \<or> 0 \<le> sint (?a - ?b) \<longleftrightarrow> \<not> (\<not> m \<and> sint (?a - ?b) < 0)" by auto
  have "let a = ?a; b = ?b; target = Some (unat (read_operand t False ?vm));
          jump = (\<lambda>op taken. execute_instruction (plain op [t]) ip' ?vm =
                    Inr (if taken then target else None, ?vm))
      in jump Jz (a = b) \<and> jump Jnz (a \<noteq> b) \<and> jump Jb (a < b) \<and> jump Jbe (a \<le> b) \<and>
         jump Ja (b < a) \<and> jump Jae (b \<le> a) \<and> jump Jmp True \<and>
         jump Js (\<not> m \<and> sint (a - b) < 0) \<and> jump Jns (m \<or> 0 \<le> sint (a - b))"
    unfolding Let_def order
    by (simp add: jump exec_jump_def jump_op_def op_get_def get_def conditional_jump_def
        flag_tests bits sign del: not_less One_nat_def de_Morgan_conj)
  with run frame show ?thesis by blast
qed

text \<open>
  In byte mode the sign of a result goes to bit 7 of the flags, which no jump tests: \<open>Js\<close> is
  never taken after a byte-mode comparison, even one with a negative difference.
\<close>

lemma byte_sign_is_not_tested:
  "\<exists>vm'. execute_instruction \<lparr>ins_opcode = Cmp, ins_byte_mode = True, operands = [p, q]\<rparr> ip vm = Inr (None, vm') \<and>
     execute_instruction (plain Js [t]) ip' vm' = Inr (None, vm')"
  by (simp add: execute_instruction_def exec_arith_def binary_op_def op_get_def get_def
      exec_jump_def jump_op_def conditional_jump_def flag_tests set_sub_flags_def Let_def flags_set_zsc del: One_nat_def)

section \<open>Multi-word arithmetic\<close>

lemma add_wide_carry:
  fixes a b c :: u32
  assumes "unat c \<le> 1"
  shows "unat (a + b + c) + 2 ^ 32 * (if 2 ^ 32 \<le> unat a + unat b + unat c then 1 else 0) =
    unat a + unat b + unat c"
proof -
  have "unat (a + b + c) = (unat a + unat b + unat c) mod 2 ^ 32"
    by (simp add: unat_word_ariths mod_simps)
  moreover have "unat a < 2 ^ 32" "unat b < 2 ^ 32"
    using unsigned_less [of a, where 'a = nat] unsigned_less [of b, where 'a = nat] by simp_all
  ultimately show ?thesis
    using assms by (auto simp: mod_if)
qed

text \<open>Adding the low words with \<open>Add\<close> and the high words with \<open>Adc\<close>
  computes the 64-bit sum, and the carry flag then tells whether that sum overflowed.\<close>

theorem add_adc_is_64_bit_addition:
  assumes "length (regs vm) = 8" "distinct [lo, hi, lo2, hi2]" "list_all (\<lambda>i. i < 8) [lo, hi, lo2, hi2]"
  shows "\<exists>vm1 vm2.
     execute_instruction (plain Add [Register lo, Register lo2]) ip vm = Inr (None, vm1) \<and>
     execute_instruction (plain Adc [Register hi, Register hi2]) ip' vm1 = Inr (None, vm2) \<and>
     (let x = unat (regs vm ! lo) + 2 ^ 32 * unat (regs vm ! hi);
          y = unat (regs vm ! lo2) + 2 ^ 32 * unat (regs vm ! hi2)
      in unat (regs vm2 ! lo) + 2 ^ 32 * unat (regs vm2 ! hi) +
           2 ^ 64 * (if flags vm2 AND FLAG_C \<noteq> 0 then 1 else 0) = x + y)"
proof -
  let ?a = "regs vm ! lo" and ?b = "regs vm ! lo2" and ?c = "regs vm ! hi" and ?d = "regs vm ! hi2"
  let ?w = "vm\<lparr>regs := (regs vm)[lo := ?a + ?b]\<rparr>"
  let ?vm1 = "set_add_flags ?a ?b 0 (?a + ?b) False ?w"
  let ?k = "of_bool (2 ^ 32 \<le> unat ?a + unat ?b) :: u32"
  let ?w2 = "?vm1\<lparr>regs := (regs ?vm1)[hi := ?c + ?d + ?k]\<rparr>"
  let ?vm2 = "set_add_flags ?c ?d ?k (?c + ?d + ?k) False ?w2"
  have max: "unat (- 1 :: u32) = 2 ^ 32 - 1"
    by (simp only: unsigned_minus_1_eq_mask mask_eq_exp_minus_1 of_nat_1) simp
  have carry1: "bit (flags ?vm1) 0 \<longleftrightarrow> 2 ^ 32 \<le> unat ?a + unat ?b"
    by (auto simp: set_add_flags_def Let_def flags_set_zsc value_mask_def max)
  have carry2: "bit (flags ?vm2) 0 \<longleftrightarrow> 2 ^ 32 \<le> unat ?c + unat ?d + unat ?k"
    by (auto simp: set_add_flags_def Let_def flags_set_zsc value_mask_def max)
  have add: "execute_instruction (plain Add [Register lo, Register lo2]) ip vm = Inr (None, ?vm1)"
    by (simp add: execute_instruction_def exec_arith_def binary_op_def op_get_def get_def Let_def
        read_operand_def write_operand_def mask_width_def value_mask_def)
  have regs1: "regs ?vm1 ! hi = ?c" "regs ?vm1 ! hi2 = ?d"
    using assms(2) by (simp_all add: set_add_flags_def Let_def)
  have adc: "execute_instruction (plain Adc [Register hi, Register hi2]) ip' ?vm1 = Inr (None, ?vm2)"
    using carry1 regs1
    by (simp add: execute_instruction_def exec_arith_def binary_op_def op_get_def get_def Let_def
        read_operand_def write_operand_def mask_width_def value_mask_def flag_tests)
  have "unat (?a + ?b) + 2 ^ 32 * unat ?k = unat ?a + unat ?b"
    using add_wide_carry [of 0 ?a ?b] by (auto split: if_splits)
  moreover have "unat ?k \<le> 1" by simp
  moreover have "regs ?vm2 ! lo = ?a + ?b" "regs ?vm2 ! hi = ?c + ?d + ?k"
    using assms by (simp_all add: set_add_flags_def Let_def)
  ultimately have "unat (regs ?vm2 ! lo) + 2 ^ 32 * unat (regs ?vm2 ! hi) +
      2 ^ 64 * (if bit (flags ?vm2) 0 then 1 else 0) =
      unat ?a + 2 ^ 32 * unat ?c + (unat ?b + 2 ^ 32 * unat ?d)"
    using add_wide_carry [of ?k ?c ?d] carry2 by (auto split: if_splits)
  with add adc show ?thesis unfolding flag_tests not_not Let_def by blast
qed

theorem add_adc_is_64_bit_addition_witness:
  "\<exists>vm1 vm2. execute_instruction (plain Add [Register 0, Register 2]) 1
       \<lparr>memory = (\<lambda>_. 0), regs = [0xffffffff, 1, 1, 2, 0, 0, 0, 0], flags = 0\<rparr> = Inr (None, vm1) \<and>
     execute_instruction (plain Adc [Register 1, Register 3]) 2 vm1 = Inr (None, vm2) \<and>
     unat (regs vm2 ! 0) + 2 ^ 32 * unat (regs vm2 ! 1) +
       2 ^ 64 * (if flags vm2 AND FLAG_C \<noteq> 0 then 1 else 0) = 4 * 2 ^ 32"
  using add_adc_is_64_bit_addition [of "\<lparr>memory = (\<lambda>_. 0), regs = [0xffffffff, 1, 1, 2, 0, 0, 0, 0],
      flags = 0\<rparr>" 0 1 2 3 1 2]
  by simp

section \<open>The stack\<close>

text \<open>Addresses are used modulo \<open>2 ^ 18\<close>.\<close>

definition cell :: "u32 \<Rightarrow> 18 word" where
  "cell a = ucast a"

lemma cell_index: "unat (a AND MEMORY_MASK) = unat (cell a)"
proof -
  have eq: "MEMORY_MASK = mask 18" by (simp add: MEMORY_MASK_def mask_eq_exp_minus_1)
  show ?thesis
    unfolding eq cell_def take_bit_eq_mask [symmetric] by (simp add: unsigned_ucast_eq unsigned_take_bit_eq)
qed

lemma cell_add: "cell (a + b) = cell a + cell b"
  by (simp add: cell_def ucast_add_down)

lemma cell_mask: "cell (a AND MEMORY_MASK) = cell a"
proof -
  have "unat (cell (a AND MEMORY_MASK)) = unat (cell a)"
    unfolding cell_index [symmetric] by (simp add: and.assoc)
  then show ?thesis by (simp only: word_unat_eq_iff)
qed

lemma mem_get_cell: "mem_get a mem = mem (unat (cell a))"
  by (simp add: mem_get_def cell_index)

lemma mem_set_cell: "mem_set a v mem = mem(unat (cell a) := v)"
  by (simp add: mem_set_def cell_index)

lemma cell_of_index: "cell (word_of_nat (unat (a AND MEMORY_MASK)) + b) = cell a + cell b"
  by (simp add: cell_add cell_mask)

lemma cell_small [simp]: "cell 0 = 0" "cell 1 = 1" "cell 2 = 2" "cell 3 = 3"
  by (simp_all add: cell_def)

lemma read_word:
  "read_mem a False vm = u32_from_le (memory vm (unat (cell a))) (memory vm (unat (cell a + 1)))
     (memory vm (unat (cell a + 2))) (memory vm (unat (cell a + 3)))"
  using cell_of_index [of a 0]
  by (simp add: read_mem_def mem_read_u32_def Let_def mem_get_cell cell_of_index cell_add cell_mask)

lemma write_word:
  "memory (write_mem a v False vm) = (memory vm)
     (unat (cell a) := ucast v, unat (cell a + 1) := ucast (drop_bit 8 v),
      unat (cell a + 2) := ucast (drop_bit 16 v), unat (cell a + 3) := ucast (drop_bit 24 v))"
proof -
  have "[0..<4] = [0, 1, 2, 3 :: nat]" by (simp add: upt_rec)
  then show ?thesis
    by (simp add: write_mem_def write_u32_def Let_def mem_set_cell u32_to_le_def cell_add cell_mask
        numeral_2_eq_2 numeral_3_eq_3)
qed

text \<open>The memory is a store of words at addresses at least four apart.\<close>

lemma read_write_same: "read_mem a False (write_mem a v False vm) = v"
  by (simp add: read_word write_word word_unat_eq_iff [symmetric])

lemma read_write_apart:
  assumes "cell a - cell b \<notin> {0, 1, 2, 3, - 1, - 2, - 3}"
  shows "read_mem a False (write_mem b v False vm) = read_mem a False vm"
proof -
  have "cell a + i \<noteq> cell b + j" if "j - i \<in> {0, 1, 2, 3, - 1, - 2, - 3}" for i j
  proof
    assume "cell a + i = cell b + j"
    then have "cell a - cell b = j - i" by (simp add: algebra_simps)
    with that assms show False by simp
  qed
  moreover have "j - i \<in> {0, 1, 2, 3, - 1, - 2, - 3}"
    if "i \<in> {0, 1, 2, 3}" "j \<in> {0, 1, 2, 3}" for i j :: "18 word"
    using that by auto
  ultimately have "\<forall>i\<in>{0, 1, 2, 3}. \<forall>j\<in>{0, 1, 2, 3}. cell a + i \<noteq> cell b + j"
    by blast
  then show ?thesis
    by (simp add: read_word write_word word_unat_eq_iff [symmetric])
qed


section \<open>Integer arithmetic\<close>

definition immediate :: "operand \<Rightarrow> bool" where
  "immediate p \<longleftrightarrow> (case p of Immediate _ \<Rightarrow> True | _ \<Rightarrow> False)"


lemma write_mem_regs [simp]: "regs (write_mem a v m vm) = regs vm"
  by (simp add: write_mem_def Let_def)
















lemma cell_numeral [simp]:
  "cell 4 = 4" "cell 8 = 8" "cell 12 = 12" "cell 16 = 16" "cell 20 = 20" "cell 24 = 24" "cell 28 = 28"
  by (simp_all add: cell_def)

lemma read_mem_regs [simp]: "read_mem a False (vm\<lparr>regs := rs\<rparr>) = read_mem a False vm"
  by (simp add: read_mem_def Let_def)

lemma read_mem_memory: "memory vm = memory vm' \<Longrightarrow> read_mem a False vm = read_mem a False vm'"
  by (simp add: read_mem_def Let_def)

lemma vm_popa_regs:
  assumes "length (regs vm) = 8"
  shows "vm_popa vm = vm\<lparr>regs := map (\<lambda>k. read_mem (regs vm ! 7 + k) False vm) [28, 24, 20, 16, 12, 8, 4, 0]\<rparr>"
proof -
  obtain r0 r1 r2 r3 r4 r5 r6 r7 where regs: "regs vm = [r0, r1, r2, r3, r4, r5, r6, r7]"
    using assms by (auto simp: length_Suc_conv eval_nat_numeral)
  have "rev [0..<8] = [7, 6, 5, 4, 3, 2, 1, 0 :: nat]" by (simp add: upt_rec)
  then show ?thesis by (simp add: vm_popa_def regs ac_simps)
qed

lemma memory_push:
  "memory (vm_push v vm) = memory (write_mem (regs vm ! 7 - 4) v False vm)"
  if "length (regs vm) = 8"
  using that by (simp add: vm_push_def write_mem_def Let_def)

text \<open>\<open>Popa\<close> right after \<open>Pusha\<close> restores all eight registers, wherever the
  stack is and however it wraps around the memory.\<close>

theorem popa_restores_pusha:
  assumes "length (regs vm) = 8"
  shows "regs (vm_popa (vm_pusha vm)) = regs vm \<and> flags (vm_popa (vm_pusha vm)) = flags vm"
proof -
  obtain r0 r1 r2 r3 r4 r5 r6 r7 where regs7: "regs vm = [r0, r1, r2, r3, r4, r5, r6, r7]"
    using assms by (auto simp: length_Suc_conv eval_nat_numeral)
  define b where "b = r7 - 32"
  then have regs: "regs vm = [r0, r1, r2, r3, r4, r5, r6, b + 32]" by (simp add: regs7)
  let ?w = "\<lambda>k v m. write_mem (b + k) v False m"
  define st where
    "st = ?w 0 (b + 32) (?w 4 r6 (?w 8 r5 (?w 12 r4 (?w 16 r3 (?w 20 r2 (?w 24 r1 (?w 28 r0 vm)))))))"
  have pushed: "regs (vm_pusha vm) = [r0, r1, r2, r3, r4, r5, r6, b]"
      "memory (vm_pusha vm) = memory st" "flags (vm_pusha vm) = flags vm"
    by (simp_all add: vm_pusha_def regs vm_push_def st_def write_mem_def Let_def add.commute)
  have read: "read_mem a False (vm_pusha vm) = read_mem a False st" for a
    by (rule read_mem_memory) (rule pushed(2))
  have step: "read_mem (b + i) False (?w j v m) = (if i = j then v else read_mem (b + i) False m)"
    if "i = j \<or> cell i - cell j \<notin> {0, 1, 2, 3, - 1, - 2, - 3}" for i j v m
    using that read_write_same [of "b + i" v m] read_write_apart [of "b + i" "b + j" v m]
    by (auto simp: cell_add)
  have "map (\<lambda>k. read_mem (b + k) False st) [28, 24, 20, 16, 12, 8, 4, 0] = regs vm"
    unfolding st_def regs by (simp add: step del: add_0_right)
  moreover have "vm_popa (vm_pusha vm) = (vm_pusha vm)
      \<lparr>regs := map (\<lambda>k. read_mem (b + k) False st) [28, 24, 20, 16, 12, 8, 4, 0]\<rparr>"
    using vm_popa_regs [of "vm_pusha vm"] pushed(1) by (simp add: read)
  ultimately show ?thesis by (simp add: pushed(3))
qed

theorem popa_restores_pusha_witness:
  "regs (vm_popa (vm_pusha \<lparr>memory = (\<lambda>_. 0), regs = [1, 2, 3, 4, 5, 6, 7, 16], flags = 0\<rparr>)) =
     [1, 2, 3, 4, 5, 6, 7, 16]"
  using popa_restores_pusha [of "\<lparr>memory = (\<lambda>_. 0), regs = [1, 2, 3, 4, 5, 6, 7, 16], flags = 0\<rparr>"]
  by simp

end
