(* ===== verification/Filters.thy ===== *)
theory Filters
  imports Interfaces
begin

text \<open>
  The RAR5 output filters (\<^verbatim>\<open>crates/rar/src/codec/common/filters.rs\<close>, first part):
  delta, x86 call/jump addresses and ARM branches, in both directions. The \<open>simd\<close> feature
  of the crate is an argument of the delta filters, so that both builds are covered.
\<close>

definition FILTER_DELTA :: byte where "FILTER_DELTA = 0"
definition FILTER_E8 :: byte where "FILTER_E8 = 1"
definition FILTER_E8E9 :: byte where "FILTER_E8E9 = 2"
definition FILTER_ARM :: byte where "FILTER_ARM = 3"

datatype filter_error = UnsupportedFilter byte

section \<open>Delta\<close>

text \<open>
  One lane: \<open>while i < n\<close>, from \<open>i = c\<close> in steps of \<open>ch\<close>. The number of
  channels is positive here, the functions below return before the loop otherwise.
\<close>

function delta_decode_lane ::
  "byte list \<Rightarrow> nat \<Rightarrow> nat \<Rightarrow> nat \<Rightarrow> byte \<Rightarrow> byte list \<times> nat \<Rightarrow> byte list \<times> nat" where
  "delta_decode_lane data n ch i prev (result, src) =
     (if i < n \<and> 0 < ch
      then let prev = prev - data ! src in
        delta_decode_lane data n ch (i + ch) prev (result[i := prev], src + 1)
      else (result, src))"
  by pat_completeness auto
termination by (relation "measure (\<lambda>(_, n, ch, i, _). n - i)") auto

function delta_encode_lane ::
  "byte list \<Rightarrow> nat \<Rightarrow> nat \<Rightarrow> nat \<Rightarrow> byte \<Rightarrow> byte list \<times> nat \<Rightarrow> byte list \<times> nat" where
  "delta_encode_lane data n ch i prev (result, dst) =
     (if i < n \<and> 0 < ch
      then let v = data ! i in
        delta_encode_lane data n ch (i + ch) v (result[dst := prev - v], dst + 1)
      else (result, dst))"
  by pat_completeness auto
termination by (relation "measure (\<lambda>(_, n, ch, i, _). n - i)") auto

declare delta_decode_lane.simps [simp del] delta_encode_lane.simps [simp del]

text \<open>The 16-lane variants: whole windows, then a scalar tail.\<close>

fun delta_encode_tail :: "byte \<Rightarrow> byte list \<Rightarrow> byte list" where
  "delta_encode_tail prev [] = []"
| "delta_encode_tail prev (byte # bytes) = (prev - byte) # delta_encode_tail byte bytes"

function delta_encode_simd :: "byte \<Rightarrow> byte list \<Rightarrow> byte list" where
  "delta_encode_simd prev data =
     (if 16 \<le> length data
      then let xa = take 16 data;
               out = (prev - xa ! 0) # map (\<lambda>j. xa ! (j - 1) - xa ! j) [1..<16]
           in out @ delta_encode_simd (xa ! 15) (drop 16 data)
      else delta_encode_tail prev data)"
  by pat_completeness auto
termination by (relation "measure (\<lambda>(_, data). length data)") auto

fun delta_decode_tail :: "byte \<Rightarrow> byte list \<Rightarrow> byte list" where
  "delta_decode_tail prev [] = []"
| "delta_decode_tail prev (byte # bytes) = (prev - byte) # delta_decode_tail (prev - byte) bytes"

text \<open>The wrapping prefix sums: steps 1, 2, 4 and 8, each from the last lane down.\<close>

definition prefix_step :: "nat \<Rightarrow> byte list \<Rightarrow> byte list" where
  "prefix_step step prefix =
     foldl (\<lambda>p j. p[j := p ! j + p ! (j - step)]) prefix (rev [step..<16])"

definition prefix_sums :: "byte list \<Rightarrow> byte list" where
  "prefix_sums prefix = prefix_step 8 (prefix_step 4 (prefix_step 2 (prefix_step 1 prefix)))"

function delta_decode_simd :: "byte \<Rightarrow> byte list \<Rightarrow> byte list" where
  "delta_decode_simd prev data =
     (if 16 \<le> length data
      then let out = map (\<lambda>x. prev - x) (prefix_sums (take 16 data))
           in out @ delta_decode_simd (out ! 15) (drop 16 data)
      else delta_decode_tail prev data)"
  by pat_completeness auto
termination by (relation "measure (\<lambda>(_, data). length data)") auto

declare delta_encode_simd.simps [simp del] delta_decode_simd.simps [simp del]

definition delta_decode :: "bool \<Rightarrow> byte list \<Rightarrow> byte \<Rightarrow> byte list" where
  "delta_decode simd data channels =
     (if channels < 1 then data
      else if simd \<and> channels = 1 then delta_decode_simd 0 data
      else let n = length data; ch = unat channels in
        fst (foldl (\<lambda>st c. delta_decode_lane data n ch c 0 st) (replicate n 0, 0) [0..<ch]))"

definition delta_encode :: "bool \<Rightarrow> byte list \<Rightarrow> byte \<Rightarrow> byte list" where
  "delta_encode simd data channels =
     (if channels < 1 then data
      else if simd \<and> channels = 1 then delta_encode_simd 0 data
      else let n = length data; ch = unat channels in
        fst (foldl (\<lambda>st c. delta_encode_lane data n ch c 0 st) (replicate n 0, 0) [0..<ch]))"

section \<open>x86 call and jump addresses\<close>

definition X86_FILTER_FILE_SIZE :: u32 where "X86_FILTER_FILE_SIZE = 0x01000000"

text \<open>The rewritten address, when there is one.\<close>

definition e8_decode_addr :: "u32 \<Rightarrow> u32 \<Rightarrow> u32 option" where
  "e8_decode_addr addr offset =
     (if addr < 0x01000000 then Some (addr - offset)
      else if addr AND 0x80000000 \<noteq> 0 \<and> (addr + offset) AND 0x80000000 = 0
      then Some (addr + 0x01000000)
      else None)"

definition e8_encode_addr :: "u32 \<Rightarrow> u32 \<Rightarrow> u32 option" where
  "e8_encode_addr addr offset =
     (let candidate = addr + offset in
      if candidate < 0x01000000 then Some candidate
      else let candidate = addr - 0x01000000 in
        if candidate AND 0x80000000 \<noteq> 0 \<and> (candidate + offset) AND 0x80000000 = 0
        then Some candidate else None)"

definition get_u32_le :: "byte list \<Rightarrow> nat \<Rightarrow> u32" where
  "get_u32_le data i = u32_from_le (data ! i) (data ! (i + 1)) (data ! (i + 2)) (data ! (i + 3))"

definition set_u32_le :: "byte list \<Rightarrow> nat \<Rightarrow> u32 \<Rightarrow> byte list" where
  "set_u32_le data i v =
     data[i := ucast v, i + 1 := ucast (drop_bit 8 v), i + 2 := ucast (drop_bit 16 v),
          i + 3 := ucast (drop_bit 24 v)]"

text \<open>\<open>file_offset.wrapping_add(cur_pos as u64) as u32 % X86_FILTER_FILE_SIZE\<close>\<close>

definition x86_offset :: "u64 \<Rightarrow> nat \<Rightarrow> u32" where
  "x86_offset file_offset cur_pos =
     ucast (file_offset + word_of_nat cur_pos) mod X86_FILTER_FILE_SIZE"

text \<open>The loop of \<open>e8_decode\<close> and of \<open>e8_encode\<close>, which differ in the address map.\<close>

function x86_loop ::
  "(u32 \<Rightarrow> u32 \<Rightarrow> u32 option) \<Rightarrow> byte \<Rightarrow> u64 \<Rightarrow> nat \<Rightarrow> nat \<Rightarrow> byte list \<Rightarrow> byte list" where
  "x86_loop convert cmp_mask file_offset limit i data =
     (if i < limit
      then if data ! i AND cmp_mask = 0xE8
        then let cur_pos = i + 1;
                 offset = x86_offset file_offset cur_pos;
                 addr = get_u32_le data cur_pos;
                 data = (case convert addr offset of Some v \<Rightarrow> set_u32_le data cur_pos v | None \<Rightarrow> data)
             in x86_loop convert cmp_mask file_offset limit (cur_pos + 4) data
        else x86_loop convert cmp_mask file_offset limit (i + 1) data
      else data)"
  by pat_completeness auto
termination by (relation "measure (\<lambda>(_, _, _, limit, i, _). limit - i)") auto

declare x86_loop.simps [simp del]

definition e8_mask :: "bool \<Rightarrow> byte" where
  "e8_mask e8_only = (if e8_only then 0xFF else 0xFE)"

definition e8_decode :: "byte list \<Rightarrow> u64 \<Rightarrow> bool \<Rightarrow> byte list" where
  "e8_decode data file_offset e8_only =
     (if length data < 5 then data
      else x86_loop e8_decode_addr (e8_mask e8_only) file_offset (length data - 4) 0 data)"

definition e8_encode :: "byte list \<Rightarrow> u64 \<Rightarrow> bool \<Rightarrow> byte list" where
  "e8_encode data file_offset e8_only =
     (if length data < 5 then data
      else x86_loop e8_encode_addr (e8_mask e8_only) file_offset (length data - 4) 0 data)"

section \<open>ARM branches\<close>

definition arm_offset :: "byte list \<Rightarrow> nat \<Rightarrow> u32" where
  "arm_offset data i = ucast (data ! i) OR push_bit 8 (ucast (data ! (i + 1))) OR push_bit 16 (ucast (data ! (i + 2)))"

definition arm_position :: "u64 \<Rightarrow> nat \<Rightarrow> u32" where
  "arm_position file_offset i = drop_bit 2 (ucast file_offset + word_of_nat i)"

definition arm_store :: "byte list \<Rightarrow> nat \<Rightarrow> u32 \<Rightarrow> byte list" where
  "arm_store data i adj =
     (let masked = adj AND 0xFFFFFF in
      data[i := ucast (masked AND 0xFF), i + 1 := ucast (drop_bit 8 masked AND 0xFF),
           i + 2 := ucast (drop_bit 16 masked AND 0xFF)])"

function arm_loop :: "(u32 \<Rightarrow> u32 \<Rightarrow> u32) \<Rightarrow> u64 \<Rightarrow> nat \<Rightarrow> byte list \<Rightarrow> byte list" where
  "arm_loop convert file_offset i data =
     (if i + 3 < length data
      then arm_loop convert file_offset (i + 4)
        (if data ! (i + 3) = 0xEB
         then arm_store data i (convert (arm_offset data i) (arm_position file_offset i))
         else data)
      else data)"
  by pat_completeness auto
termination
  by (relation "measure (\<lambda>(_, _, i, data). length data - i)") (auto simp: arm_store_def Let_def)

declare arm_loop.simps [simp del]

definition arm_decode :: "byte list \<Rightarrow> u64 \<Rightarrow> byte list" where
  "arm_decode data file_offset =
     (if length data < 4 then data else arm_loop (\<lambda>offset pos. offset - pos) file_offset 0 data)"

definition arm_encode :: "byte list \<Rightarrow> u64 \<Rightarrow> byte list" where
  "arm_encode data file_offset =
     (if length data < 4 then data else arm_loop (\<lambda>offset pos. offset + pos) file_offset 0 data)"

section \<open>Dispatch\<close>

definition apply_filter_decode ::
  "bool \<Rightarrow> byte \<Rightarrow> byte list \<Rightarrow> byte \<Rightarrow> u64 \<Rightarrow> filter_error + byte list" where
  "apply_filter_decode simd filter_type data channels file_offset =
     (if filter_type = FILTER_DELTA then Inr (delta_decode simd data channels)
      else if filter_type = FILTER_E8 then Inr (e8_decode data file_offset True)
      else if filter_type = FILTER_E8E9 then Inr (e8_decode data file_offset False)
      else if filter_type = FILTER_ARM then Inr (arm_decode data file_offset)
      else Inl (UnsupportedFilter filter_type))"

definition apply_filter_encode :: "bool \<Rightarrow> byte \<Rightarrow> byte list \<Rightarrow> byte \<Rightarrow> u64 \<Rightarrow> byte list" where
  "apply_filter_encode simd filter_type data channels file_offset =
     (if filter_type = FILTER_DELTA then delta_encode simd data channels
      else if filter_type = FILTER_E8 then e8_encode data file_offset True
      else if filter_type = FILTER_E8E9 then e8_encode data file_offset False
      else if filter_type = FILTER_ARM then arm_encode data file_offset
      else data)"

section \<open>Delta lanes visit every position once\<close>

function lane_from :: "nat \<Rightarrow> nat \<Rightarrow> nat \<Rightarrow> nat list" where
  "lane_from n ch i = (if i < n \<and> 0 < ch then i # lane_from n ch (i + ch) else [])"
  by pat_completeness auto
termination by (relation "measure (\<lambda>(n, _, i). n - i)") auto

declare lane_from.simps [simp del]

definition lanes :: "nat \<Rightarrow> nat \<Rightarrow> nat list" where
  "lanes n ch = concat (map (lane_from n ch) [0..<ch])"

lemma set_lane_from:
  "0 < ch \<Longrightarrow> set (lane_from n ch i) = {j. i \<le> j \<and> j < n \<and> j mod ch = i mod ch}"
proof (induction n ch i rule: lane_from.induct)
  case (1 n ch i)
  show ?case
  proof (cases "i < n")
    case False
    then show ?thesis by (auto simp: lane_from.simps)
  next
    case True
    have split: "i \<le> j \<and> j mod ch = i mod ch \<longleftrightarrow> j = i \<or> i + ch \<le> j \<and> j mod ch = i mod ch" for j
    proof -
      have "j = i" if "i \<le> j" "j < i + ch" "j mod ch = i mod ch"
      proof -
        have "(j - i) mod ch = 0" using that by (metis mod_eq_dvd_iff_nat mod_eq_0_iff_dvd)
        then show ?thesis using that by simp
      qed
      then show ?thesis by fastforce
    qed
    have "set (lane_from n ch i) = insert i (set (lane_from n ch (i + ch)))"
      using True "1.prems" by (simp add: lane_from.simps [of n ch i])
    also have "\<dots> = {j. i \<le> j \<and> j < n \<and> j mod ch = i mod ch}"
      unfolding "1.IH" [OF conjI [OF True "1.prems"] "1.prems"]
      using True split by (auto simp del: mod_less)
    finally show ?thesis .
  qed
qed

lemma distinct_lane_from: "0 < ch \<Longrightarrow> distinct (lane_from n ch i)"
proof (induction n ch i rule: lane_from.induct)
  case (1 n ch i)
  then show ?case
    by (subst lane_from.simps) (auto simp: set_lane_from)
qed

lemma distinct_lanes:
  assumes "0 < ch"
  shows "distinct (lanes n ch)"
proof -
  have "distinct (concat (map (lane_from n ch) [0..<m]))" if "m \<le> ch" for m
    using that
  proof (induction m)
    case 0
    then show ?case by simp
  next
    case (Suc m)
    have "set (lane_from n ch m) \<inter> set (concat (map (lane_from n ch) [0..<m])) = {}"
      using Suc.prems assms by (auto simp: set_lane_from)
    with Suc assms show ?case by (auto simp: distinct_lane_from)
  qed
  then show ?thesis by (simp add: lanes_def)
qed

lemma set_lanes: "0 < ch \<Longrightarrow> set (lanes n ch) = {..<n}"
proof -
  assume ch: "0 < ch"
  have "j \<in> set (lane_from n ch (j mod ch))" if "j < n" for j
    using ch that by (simp add: set_lane_from)
  with ch show ?thesis
    by (auto simp: lanes_def set_lane_from intro!: bexI [of _ "_ mod ch"])
qed

lemma length_lanes: "0 < ch \<Longrightarrow> length (lanes n ch) = n"
  using distinct_card [OF distinct_lanes, of ch n] by (simp add: set_lanes)

text \<open>The byte a lane holds before position \<open>i\<close>.\<close>

definition lane_pred :: "nat \<Rightarrow> byte list \<Rightarrow> nat \<Rightarrow> byte" where
  "lane_pred ch x i = (if i < ch then 0 else x ! (i - ch))"

definition lane_deltas :: "nat \<Rightarrow> byte list \<Rightarrow> byte list" where
  "lane_deltas ch x = map (\<lambda>i. lane_pred ch x i - x ! i) (lanes (length x) ch)"

lemma delta_encode_lane_fold:
  assumes "0 < ch" "n = length x"
  shows "prev = lane_pred ch x i \<Longrightarrow>
    delta_encode_lane x n ch i prev st =
      foldl (\<lambda>(r, d) j. (r[d := lane_pred ch x j - x ! j], Suc d)) st (lane_from n ch i)"
  using assms(1)
proof (induction n ch i arbitrary: prev st rule: lane_from.induct)
  case (1 n ch i)
  have "x ! i = lane_pred ch x (i + ch)" by (simp add: lane_pred_def)
  with 1 show ?case
    by (cases st) (simp add: delta_encode_lane.simps [of x n ch i] lane_from.simps [of n ch i] Let_def)
qed

lemma foldl_store:
  assumes "length L \<le> length rest"
  shows "foldl (\<lambda>(r, d) j. (r[d := f j], Suc d)) (pre @ rest, length pre) L =
    (pre @ map f L @ drop (length L) rest, length pre + length L)"
  using assms
proof (induction L arbitrary: pre rest)
  case Nil
  then show ?case by simp
next
  case (Cons j L)
  then obtain y ys where rest: "rest = y # ys" by (cases rest) auto
  with Cons Cons.IH [of ys "pre @ [f j]"] show ?case by simp
qed

lemma foldl_lanes:
  "foldl (\<lambda>st c. foldl g st (lane_from n ch c)) st [0..<m] =
     foldl g st (concat (map (lane_from n ch) [0..<m]))"
  by (induction m) simp_all

lemma delta_encode_scalar:
  assumes "0 < ch"
  shows "fst (foldl (\<lambda>st c. delta_encode_lane x (length x) ch c 0 st) (replicate (length x) 0, 0) [0..<ch])
    = lane_deltas ch x"
proof -
  let ?n = "length x"
  let ?g = "\<lambda>(r, d) j. (r[d := lane_pred ch x j - x ! j], Suc d)"
  have "foldl (\<lambda>st c. delta_encode_lane x ?n ch c 0 st) (replicate ?n 0, 0) [0..<ch] =
      foldl (\<lambda>st c. foldl ?g st (lane_from ?n ch c)) (replicate ?n 0, 0) [0..<ch]"
    by (intro foldl_cong refl delta_encode_lane_fold assms) (simp add: lane_pred_def)
  also have "\<dots> = foldl ?g (replicate ?n 0, 0) (lanes ?n ch)"
    by (simp only: foldl_lanes lanes_def)
  also have "\<dots> = (lane_deltas ch x, ?n)"
    using foldl_store [of "lanes ?n ch" "replicate ?n 0" "\<lambda>j. lane_pred ch x j - x ! j" "[]"] assms
    by (simp add: length_lanes lane_deltas_def)
  finally show ?thesis by simp
qed

lemma delta_decode_lane_fold:
  assumes "0 < ch"
  shows "prev = lane_pred ch x i \<Longrightarrow>
    (\<And>k. k < length (lane_from n ch i) \<Longrightarrow>
       e ! (src + k) = lane_pred ch x (lane_from n ch i ! k) - x ! (lane_from n ch i ! k)) \<Longrightarrow>
    delta_decode_lane e n ch i prev (result, src) =
      foldl (\<lambda>(r, s) j. (r[j := x ! j], Suc s)) (result, src) (lane_from n ch i)"
  using assms
proof (induction n ch i arbitrary: prev result src rule: lane_from.induct)
  case (1 n ch i)
  show ?case
  proof (cases "i < n")
    case False
    then show ?thesis by (simp add: delta_decode_lane.simps [of e n ch i] lane_from.simps [of n ch i])
  next
    case True
    have lane: "lane_from n ch i = i # lane_from n ch (i + ch)"
      using True "1.prems"(3) by (simp add: lane_from.simps [of n ch i])
    have "e ! src = lane_pred ch x i - x ! i" using "1.prems"(2) [of 0] lane by simp
    then have prev': "prev - e ! src = x ! i" using "1.prems"(1) by simp
    have "delta_decode_lane e n ch (i + ch) (x ! i) (result[i := x ! i], src + 1) =
        foldl (\<lambda>(r, s) j. (r[j := x ! j], Suc s)) (result[i := x ! i], src + 1) (lane_from n ch (i + ch))"
    proof (rule "1.IH")
      show "i < n \<and> 0 < ch" "0 < ch" using True "1.prems"(3) by auto
      show "x ! i = lane_pred ch x (i + ch)" by (simp add: lane_pred_def)
      fix k assume "k < length (lane_from n ch (i + ch))"
      then show "e ! (src + 1 + k) = lane_pred ch x (lane_from n ch (i + ch) ! k) - x ! (lane_from n ch (i + ch) ! k)"
        using "1.prems"(2) [of "Suc k"] lane by simp
    qed
    then show ?thesis
      using True "1.prems"(3) prev' by (simp add: delta_decode_lane.simps [of e n ch i] Let_def lane)
  qed
qed

lemma foldl_count: "snd (foldl (\<lambda>(r, s) j. (f r j, Suc s)) (r, s :: nat) L) = s + length L"
  by (induction L arbitrary: r s) simp_all

lemma delta_decode_fold:
  assumes "0 < ch" "m \<le> ch" "n = length x"
  shows "foldl (\<lambda>st c. delta_decode_lane (lane_deltas ch x) n ch c 0 st) (r, 0) [0..<m] =
    foldl (\<lambda>(r, s) j. (r[j := x ! j], Suc s)) (r, 0) (concat (map (lane_from n ch) [0..<m]))"
  using assms(2)
proof (induction m)
  case 0
  then show ?case by simp
next
  case (Suc m)
  let ?pre = "concat (map (lane_from n ch) [0..<m])"
  let ?st = "foldl (\<lambda>(r, s) j. (r[j := x ! j], Suc s)) (r, 0) ?pre"
  have snd: "snd ?st = length ?pre"
    using foldl_count [of "\<lambda>r j. r[j := x ! j]" r 0 ?pre] by (simp only: add_0)
  define r' where "r' = fst ?st"
  have st: "?st = (r', length ?pre)"
    by (rule prod_eqI) (simp_all only: r'_def fst_conv snd_conv snd)
  have "[0..<ch] = [0..<m] @ m # [Suc m..<ch]"
    using Suc.prems upt_add_eq_append [of 0 m "ch - m"] by (simp add: upt_conv_Cons)
  then have "lanes n ch = ?pre @ lane_from n ch m @ concat (map (lane_from n ch) [Suc m..<ch])"
    by (simp add: lanes_def)
  then have "lane_deltas ch x ! (length ?pre + k) =
      lane_pred ch x (lane_from n ch m ! k) - x ! (lane_from n ch m ! k)"
    if "k < length (lane_from n ch m)" for k
    using that by (simp add: lane_deltas_def assms(3) nth_append)
  then have "delta_decode_lane (lane_deltas ch x) n ch m 0 (r', length ?pre) =
      foldl (\<lambda>(r, s) j. (r[j := x ! j], Suc s)) (r', length ?pre) (lane_from n ch m)"
    using Suc.prems by (intro delta_decode_lane_fold assms(1)) (simp_all add: lane_pred_def)
  with Suc st show ?case by simp
qed

lemma foldl_restore:
  "length r = length x \<Longrightarrow>
     (\<And>j. j < length x \<Longrightarrow> j \<notin> set L \<Longrightarrow> r ! j = x ! j) \<Longrightarrow>
     fst (foldl (\<lambda>(r, s) j. (r[j := x ! j], Suc s)) (r, s) L) = x"
proof (induction L arbitrary: r s)
  case Nil
  then show ?case by (simp add: nth_equalityI)
next
  case (Cons j L)
  have "(r[j := x ! j]) ! k = x ! k" if "k < length x" "k \<notin> set L" for k
    using Cons.prems that by (cases "k = j") auto
  with Cons show ?case by simp
qed

lemma length_lane_deltas: "0 < ch \<Longrightarrow> length (lane_deltas ch x) = length x"
  by (simp add: lane_deltas_def length_lanes)

lemma delta_decode_scalar:
  assumes "0 < ch"
  shows "fst (foldl (\<lambda>st c. delta_decode_lane (lane_deltas ch x) (length x) ch c 0 st)
    (replicate (length x) 0, 0) [0..<ch]) = x"
proof -
  have "foldl (\<lambda>st c. delta_decode_lane (lane_deltas ch x) (length x) ch c 0 st) (replicate (length x) 0, 0) [0..<ch]
      = foldl (\<lambda>(r, s) j. (r[j := x ! j], Suc s)) (replicate (length x) 0, 0) (lanes (length x) ch)"
    using assms by (simp add: delta_decode_fold lanes_def)
  then show ?thesis
    using foldl_restore [of "replicate (length x) 0" x "lanes (length x) ch" 0] assms
    by (simp add: set_lanes)
qed

section \<open>The 16-lane variants\<close>

lemma length_16_cases:
  assumes "16 \<le> length xs"
  obtains x0 x1 x2 x3 x4 x5 x6 x7 x8 x9 x10 x11 x12 x13 x14 x15 rest where
    "xs = x0 # x1 # x2 # x3 # x4 # x5 # x6 # x7 # x8 # x9 # x10 # x11 # x12 # x13 # x14 # x15 # rest"
proof -
  have "\<exists>y ys. xs = y # ys \<and> n \<le> length ys" if "Suc n \<le> length xs" for n and xs :: "'a list"
    using that by (cases xs) auto
  note cons = this
  obtain x0 r0 where 0: "xs = x0 # r0" "15 \<le> length r0" using cons [of 15 xs] assms by auto
  obtain x1 r1 where 1: "r0 = x1 # r1" "14 \<le> length r1" using cons [of 14 r0] 0 by auto
  obtain x2 r2 where 2: "r1 = x2 # r2" "13 \<le> length r2" using cons [of 13 r1] 1 by auto
  obtain x3 r3 where 3: "r2 = x3 # r3" "12 \<le> length r3" using cons [of 12 r2] 2 by auto
  obtain x4 r4 where 4: "r3 = x4 # r4" "11 \<le> length r4" using cons [of 11 r3] 3 by auto
  obtain x5 r5 where 5: "r4 = x5 # r5" "10 \<le> length r5" using cons [of 10 r4] 4 by auto
  obtain x6 r6 where 6: "r5 = x6 # r6" "9 \<le> length r6" using cons [of 9 r5] 5 by auto
  obtain x7 r7 where 7: "r6 = x7 # r7" "8 \<le> length r7" using cons [of 8 r6] 6 by auto
  obtain x8 r8 where 8: "r7 = x8 # r8" "7 \<le> length r8" using cons [of 7 r7] 7 by auto
  obtain x9 r9 where 9: "r8 = x9 # r9" "6 \<le> length r9" using cons [of 6 r8] 8 by auto
  obtain x10 r10 where 10: "r9 = x10 # r10" "5 \<le> length r10" using cons [of 5 r9] 9 by auto
  obtain x11 r11 where 11: "r10 = x11 # r11" "4 \<le> length r11" using cons [of 4 r10] 10 by auto
  obtain x12 r12 where 12: "r11 = x12 # r12" "3 \<le> length r12" using cons [of 3 r11] 11 by auto
  obtain x13 r13 where 13: "r12 = x13 # r13" "2 \<le> length r13" using cons [of 2 r12] 12 by auto
  obtain x14 r14 where 14: "r13 = x14 # r14" "1 \<le> length r14" using cons [of 1 r13] 13 by auto
  obtain x15 r15 where 15: "r14 = x15 # r15" using cons [of 0 r14] 14 by auto
  show ?thesis
    by (rule that) (simp add: 0(1) 1(1) 2(1) 3(1) 4(1) 5(1) 6(1) 7(1) 8(1) 9(1) 10(1) 11(1) 12(1) 13(1) 14(1) 15)
qed

lemma take_16:
  "take 16 (x0 # x1 # x2 # x3 # x4 # x5 # x6 # x7 # x8 # x9 # x10 # x11 # x12 # x13 # x14 # x15 # rest) =
     [x0, x1, x2, x3, x4, x5, x6, x7, x8, x9, x10, x11, x12, x13, x14, x15]"
  "drop 16 (x0 # x1 # x2 # x3 # x4 # x5 # x6 # x7 # x8 # x9 # x10 # x11 # x12 # x13 # x14 # x15 # rest) = rest"
  by (simp_all add: eval_nat_numeral)

lemma delta_encode_simd_scalar: "delta_encode_simd prev data = delta_encode_tail prev data"
proof (induction prev data rule: delta_encode_simd.induct)
  case (1 prev data)
  show ?case
  proof (cases "16 \<le> length data")
    case False
    then show ?thesis by (simp add: delta_encode_simd.simps)
  next
    case True
    from length_16_cases [OF this] obtain x0 x1 x2 x3 x4 x5 x6 x7 x8 x9 x10 x11 x12 x13 x14 x15 rest where
      data: "data = x0 # x1 # x2 # x3 # x4 # x5 # x6 # x7 # x8 # x9 # x10 # x11 # x12 # x13 # x14 # x15 # rest" .
    have "[1..<16] = [1, 2, 3, 4, 5, 6, 7, 8, 9, 10, 11, 12, 13, 14, 15 :: nat]" by (simp add: upt_rec)
    with "1.IH" [OF True refl refl] True show ?thesis
      unfolding delta_encode_simd.simps [of prev data] by (simp add: Let_def data take_16)
  qed
qed

lemma prefix_sums_16:
  "prefix_sums [x0, x1, x2, x3, x4, x5, x6, x7, x8, x9, x10, x11, x12, x13, x14, x15] =
    [x0, x0+x1, x0+x1+x2, x0+x1+x2+x3, x0+x1+x2+x3+x4, x0+x1+x2+x3+x4+x5, x0+x1+x2+x3+x4+x5+x6,
     x0+x1+x2+x3+x4+x5+x6+x7, x0+x1+x2+x3+x4+x5+x6+x7+x8, x0+x1+x2+x3+x4+x5+x6+x7+x8+x9,
     x0+x1+x2+x3+x4+x5+x6+x7+x8+x9+x10, x0+x1+x2+x3+x4+x5+x6+x7+x8+x9+x10+x11,
     x0+x1+x2+x3+x4+x5+x6+x7+x8+x9+x10+x11+x12, x0+x1+x2+x3+x4+x5+x6+x7+x8+x9+x10+x11+x12+x13,
     x0+x1+x2+x3+x4+x5+x6+x7+x8+x9+x10+x11+x12+x13+x14,
     x0+x1+x2+x3+x4+x5+x6+x7+x8+x9+x10+x11+x12+x13+x14+x15]"
proof -
  have r1: "rev [1..<16] = [15, 14, 13, 12, 11, 10, 9, 8, 7, 6, 5, 4, 3, 2, 1 :: nat]"
    and r2: "rev [2..<16] = [15, 14, 13, 12, 11, 10, 9, 8, 7, 6, 5, 4, 3, 2 :: nat]"
    and r4: "rev [4..<16] = [15, 14, 13, 12, 11, 10, 9, 8, 7, 6, 5, 4 :: nat]"
    and r8: "rev [8..<16] = [15, 14, 13, 12, 11, 10, 9, 8 :: nat]"
    by (simp_all add: upt_rec)
  show ?thesis
    unfolding prefix_sums_def prefix_step_def r1 r2 r4 r8 by (simp add: ac_simps)
qed

lemma delta_decode_simd_scalar: "delta_decode_simd prev data = delta_decode_tail prev data"
proof (induction prev data rule: delta_decode_simd.induct)
  case (1 prev data)
  show ?case
  proof (cases "16 \<le> length data")
    case False
    then show ?thesis by (simp add: delta_decode_simd.simps)
  next
    case True
    from length_16_cases [OF this] obtain x0 x1 x2 x3 x4 x5 x6 x7 x8 x9 x10 x11 x12 x13 x14 x15 rest where
      data: "data = x0 # x1 # x2 # x3 # x4 # x5 # x6 # x7 # x8 # x9 # x10 # x11 # x12 # x13 # x14 # x15 # rest" .
    from "1.IH" [OF True refl] True show ?thesis
      unfolding delta_decode_simd.simps [of prev data]
      by (simp add: Let_def data take_16 prefix_sums_16 diff_diff_eq
          diff_diff_eq2 add.assoc)
  qed
qed

lemma delta_tail_inverse:
  "delta_decode_tail prev (delta_encode_tail prev x) = x"
  "delta_encode_tail prev (delta_decode_tail prev e) = e"
  by (induction x arbitrary: prev, simp_all) (induction e arbitrary: prev, simp_all)

lemma lane_from_1: "i \<le> n \<Longrightarrow> lane_from n 1 i = [i..<n]"
proof (induction n "1 :: nat" i rule: lane_from.induct)
  case (1 n i)
  then show ?case by (subst lane_from.simps) (auto simp: upt_conv_Cons)
qed

lemma lanes_1: "lanes n (Suc 0) = [0..<n]"
  using lane_from_1 [of 0 n] by (simp add: lanes_def)

lemma lane_deltas_1: "lane_deltas (Suc 0) x = delta_encode_tail 0 x"
proof -
  have "map (\<lambda>i. (if i < Suc 0 then p else x ! (i - Suc 0)) - x ! i) [0..<length x] = delta_encode_tail p x" for p
  proof (induction x arbitrary: p)
    case Nil
    then show ?case by simp
  next
    case (Cons b x)
    have upt: "[0..<length (b # x)] = 0 # map Suc [0..<length x]"
      by (simp add: map_Suc_upt upt_conv_Cons del: upt_Suc)
    have shift: "map ((\<lambda>i. (if i < Suc 0 then p else (b # x) ! (i - Suc 0)) - (b # x) ! i) \<circ> Suc) [0..<length x] =
        map (\<lambda>i. (if i < Suc 0 then b else x ! (i - Suc 0)) - x ! i) [0..<length x]"
      by (intro map_cong refl) (auto simp: nth_Cons')
    show ?case
      unfolding upt list.map map_map shift Cons [of b] by simp
  qed
  from this [of 0] show ?thesis
    by (simp add: lane_deltas_def lanes_1 lane_pred_def)
qed

lemma delta_encode_eq:
  "delta_encode simd x channels = (if channels = 0 then x else lane_deltas (unat channels) x)"
proof -
  have "channels < 1 \<longleftrightarrow> channels = 0" by (simp add: word_less_nat_alt unat_eq_0)
  moreover have "0 < unat channels" if "channels \<noteq> 0" using that by (simp add: unat_gt_0)
  ultimately show ?thesis
    using lane_deltas_1 [of x]
    by (auto simp: delta_encode_def Let_def delta_encode_scalar delta_encode_simd_scalar)
qed

lemma delta_decode_lane_deltas:
  "delta_decode simd (if channels = 0 then x else lane_deltas (unat channels) x) channels = x"
proof -
  have "channels < 1 \<longleftrightarrow> channels = 0" by (simp add: word_less_nat_alt unat_eq_0)
  moreover have "0 < unat channels" if "channels \<noteq> 0" using that by (simp add: unat_gt_0)
  moreover have "length (lane_deltas (unat channels) x) = length x" if "channels \<noteq> 0"
    using that by (simp add: length_lane_deltas unat_gt_0)
  ultimately show ?thesis
    using lane_deltas_1 [of x] delta_decode_scalar [of "unat channels" x]
    by (auto simp: delta_decode_def Let_def delta_decode_simd_scalar delta_tail_inverse)
qed

text \<open>The delta filter inverts exactly for every channel count, and it does not matter
  which of the two builds (with or without the \<open>simd\<close> feature) encoded or decoded.\<close>

theorem delta_roundtrip:
  "delta_decode simd' (delta_encode simd data channels) channels = data \<and>
   delta_encode simd data channels = delta_encode simd' data channels"
  by (simp add: delta_encode_eq delta_decode_lane_deltas del: if_split)

section \<open>The address filters, step by step\<close>

definition x86_limit :: "nat \<Rightarrow> nat" where
  "x86_limit n = n - 4"

definition x86_step ::
  "(u32 \<Rightarrow> u32 \<Rightarrow> u32 option) \<Rightarrow> byte \<Rightarrow> u64 \<Rightarrow> nat \<Rightarrow> byte list \<Rightarrow> nat \<times> byte list" where
  "x86_step convert cmp_mask file_offset i data =
     (if data ! i AND cmp_mask = 0xE8
      then (i + 5, case convert (get_u32_le data (i + 1)) (x86_offset file_offset (i + 1)) of
                     Some v \<Rightarrow> set_u32_le data (i + 1) v | None \<Rightarrow> data)
      else (i + 1, data))"

lemmas x86_step_at = x86_step_def [of convert cmp fo i data] for convert cmp fo i data

lemma length_set_u32_le [simp]: "length (set_u32_le data i v) = length data"
  by (simp add: set_u32_le_def)

lemma nth_set_u32_le:
  assumes "i + 3 < length data"
  shows "set_u32_le data i v ! k =
    (if k = i then ucast v else if k = i + 1 then ucast (drop_bit 8 v)
     else if k = i + 2 then ucast (drop_bit 16 v) else if k = i + 3 then ucast (drop_bit 24 v)
     else data ! k)"
  using assms by (simp add: set_u32_le_def nth_list_update)

lemma get_set_u32_le: "i + 3 < length data \<Longrightarrow> get_u32_le (set_u32_le data i v) i = v"
  by (simp add: get_u32_le_def nth_set_u32_le)

lemma set_get_u32_le: "i + 3 < length data \<Longrightarrow> set_u32_le data i (get_u32_le data i) = data"
  using u32_to_from_le [of "data ! i" "data ! (i + 1)" "data ! (i + 2)" "data ! (i + 3)"]
  by (intro nth_equalityI) (simp_all add: nth_set_u32_le get_u32_le_def u32_to_le_def)

lemma set_set_u32_le:
  "i + 3 < length data \<Longrightarrow> set_u32_le (set_u32_le data i v) i w = set_u32_le data i w"
  by (intro nth_equalityI) (simp_all add: nth_set_u32_le)

lemma x86_loop_eq:
  "limit = x86_limit (length data) \<Longrightarrow>
     x86_loop convert cmp fo limit i data = filter_loop x86_limit (x86_step convert cmp fo) i data"
proof (induction convert cmp fo limit i data rule: x86_loop.induct)
  case (1 convert cmp fo limit i data)
  let ?s = "x86_step convert cmp fo i data"
  have len: "length (snd ?s) = length data" by (simp add: x86_step_def split: option.split)
  show ?case
  proof (cases "i < limit")
    case False
    then show ?thesis
      using "1.prems" by (subst x86_loop.simps, subst filter_loop.simps) simp
  next
    case True
    have loop: "filter_loop x86_limit (x86_step convert cmp fo) i data =
        filter_loop x86_limit (x86_step convert cmp fo) (fst ?s) (snd ?s)"
      using True "1.prems" len by (subst filter_loop.simps) (simp add: x86_step_def)
    show ?thesis
    proof (cases "data ! i AND cmp = 0xE8")
      case True
      note IH = "1.IH"(1) [OF \<open>i < limit\<close> True refl refl refl refl]
      have "x86_loop convert cmp fo limit i data = x86_loop convert cmp fo limit (fst ?s) (snd ?s)"
        using True \<open>i < limit\<close>
        by (subst x86_loop.simps) (simp add: x86_step_at [of convert cmp fo i data] Let_def add.commute cong: option.case_cong)
      also have "\<dots> = filter_loop x86_limit (x86_step convert cmp fo) (fst ?s) (snd ?s)"
        using IH "1.prems" len True
        by (simp add: x86_step_at [of convert cmp fo i data] add.commute cong: option.case_cong split: option.splits)
      finally show ?thesis by (simp only: loop)
    next
      case False
      note IH = "1.IH"(2) [OF \<open>i < limit\<close> False]
      have "x86_loop convert cmp fo limit i data = x86_loop convert cmp fo limit (i + 1) data"
        using False \<open>i < limit\<close> by (subst x86_loop.simps) simp
      then show ?thesis using IH "1.prems" False by (simp add: loop x86_step_at [of convert cmp fo i data])
    qed
  qed
qed

lemma x86_inplace: "inplace_step x86_limit (x86_step convert cmp fo)"
proof
  fix i and d :: "byte list" assume i: "i < x86_limit (length d)"
  then have bound: "i + 4 < length d" by (simp add: x86_limit_def)
  show "i < fst (x86_step convert cmp fo i d) \<and> length (snd (x86_step convert cmp fo i d)) = length d"
    by (simp add: x86_step_def split: option.split)
  fix k assume "k < i \<or> fst (x86_step convert cmp fo i d) \<le> k"
  then show "snd (x86_step convert cmp fo i d) ! k = d ! k"
    using bound by (auto simp: x86_step_def nth_set_u32_le split: option.splits if_splits)
next
  fix i and d d' :: "byte list"
  assume i: "i < x86_limit (length d)" and len: "length d' = length d"
    and same: "\<And>k. i \<le> k \<Longrightarrow> k < fst (x86_step convert cmp fo i d) \<Longrightarrow> d' ! k = d ! k"
  from i have bound: "i + 4 < length d" by (simp add: x86_limit_def)
  have "i < fst (x86_step convert cmp fo i d)" by (simp add: x86_step_def)
  then have op: "d' ! i = d ! i" using same by simp
  show "fst (x86_step convert cmp fo i d') = fst (x86_step convert cmp fo i d) \<and>
    (\<forall>k. i \<le> k \<and> k < fst (x86_step convert cmp fo i d) \<longrightarrow>
       snd (x86_step convert cmp fo i d') ! k = snd (x86_step convert cmp fo i d) ! k)"
  proof (cases "d ! i AND cmp = 0xE8")
    case True
    then have byte: "d' ! k = d ! k" if "i \<le> k" "k < i + 5" for k
      using same [of k] that by (simp add: x86_step_def)
    have "get_u32_le d' (i + 1) = get_u32_le d (i + 1)" by (simp add: get_u32_le_def byte)
    with True op bound len byte show ?thesis
      by (auto simp: x86_step_def nth_set_u32_le split: option.splits)
  next
    case False
    with op same show ?thesis by (simp add: x86_step_def)
  qed
qed

text \<open>A pair of address maps that invert each other at every file position.\<close>

definition x86_inverse :: "(u32 \<Rightarrow> u32 \<Rightarrow> u32 option) \<Rightarrow> (u32 \<Rightarrow> u32 \<Rightarrow> u32 option) \<Rightarrow> bool" where
  "x86_inverse f g \<longleftrightarrow>
     (\<forall>a offset. offset < 0x01000000 \<longrightarrow>
        (case f a offset of Some v \<Rightarrow> g v offset = Some a | None \<Rightarrow> g a offset = None))"

lemma x86_inverseD:
  "x86_inverse f g \<Longrightarrow> offset < 0x01000000 \<Longrightarrow>
     (case f a offset of Some v \<Rightarrow> g v offset = Some a | None \<Rightarrow> g a offset = None)"
  by (simp add: x86_inverse_def)

lemma x86_offset_less: "x86_offset fo pos < 0x01000000"
  unfolding x86_offset_def X86_FILTER_FILE_SIZE_def word_less_nat_alt
  by (simp add: unat_mod)

lemma x86_filter:
  assumes inv: "x86_inverse f g"
  shows "inplace_filter x86_limit (x86_step f cmp fo) (x86_step g cmp fo)"
proof (intro inplace_filter.intro x86_inplace inplace_filter_axioms.intro)
  fix i and d :: "byte list" assume "i < x86_limit (length d)"
  then have bound: "i + 4 < length d" by (simp add: x86_limit_def)
  then show "fst (x86_step f cmp fo i d) \<le> length d \<and> fst (x86_step g cmp fo i d) \<le> length d"
    by (simp add: x86_step_def)
  show "x86_step g cmp fo i (snd (x86_step f cmp fo i d)) = (fst (x86_step f cmp fo i d), d)"
  proof (cases "d ! i AND cmp = 0xE8")
    case False
    then show ?thesis by (simp add: x86_step_def)
  next
    case True
    let ?a = "get_u32_le d (i + 1)" and ?o = "x86_offset fo (i + 1)"
    show ?thesis
    proof (cases "f ?a ?o")
      case None
      then have "g ?a ?o = None" using x86_inverseD [OF inv x86_offset_less [of fo "i + 1"], of ?a] by simp
      with None True show ?thesis by (simp add: x86_step_def)
    next
      case (Some v)
      then have "g v ?o = Some ?a" using x86_inverseD [OF inv x86_offset_less [of fo "i + 1"], of ?a] by simp
      with Some True bound show ?thesis
        by (simp add: x86_step_def nth_set_u32_le get_set_u32_le set_get_u32_le set_set_u32_le)
    qed
  qed
qed

lemma sign_clear: "(v :: u32) AND 0x80000000 = 0 \<longleftrightarrow> unat v < 2 ^ 31"
proof -
  have "(0x80000000 :: u32) = 2 ^ 31" by simp
  then have "v AND 0x80000000 = 0 \<longleftrightarrow> \<not> bit v 31" by (metis and_exp_eq_0_iff_not_bit)
  also have "\<dots> \<longleftrightarrow> even (unat v div 2 ^ 31)"
  proof -
    have "bit v 31 \<longleftrightarrow> odd (unat v div 2 ^ 31)"
      using bit_unsigned_iff [of v 31, where 'a = nat] by (simp add: bit_iff_odd [of "unat v"])
    then show ?thesis by simp
  qed
  also have "\<dots> \<longleftrightarrow> unat v < 2 ^ 31"
  proof -
    have "unat v < 2 ^ 32" using unsigned_less [of v, where 'a = nat] by simp
    then have "unat v div 2 ^ 31 < 2" by (simp add: div_less_iff_less_mult)
    then have "even (unat v div 2 ^ 31) \<longleftrightarrow> unat v div 2 ^ 31 = 0" by (cases "unat v div 2 ^ 31") auto
    then show ?thesis by (simp add: div_eq_0_iff)
  qed
  finally show ?thesis .
qed

lemma unat_u32_less: "unat (v :: u32) < 4294967296"
  using unsigned_less [of v, where 'a = nat] by simp

lemma unat_add_u32:
  "unat ((a :: u32) + b) = (if unat a + unat b < 4294967296 then unat a + unat b else unat a + unat b - 4294967296)"
  by (simp add: unat_plus_if_size word_size)

lemma unat_sub_u32:
  "unat ((a :: u32) - b) = (if unat b \<le> unat a then unat a - unat b else unat a + 4294967296 - unat b)"
  by (simp add: unat_sub_if_size word_size)

lemma e8_encode_addr_cases:
  assumes "b < 0x01000000"
  shows "unat a + unat b < 0x01000000 \<or> 4294967296 \<le> unat a + unat b \<Longrightarrow> e8_encode_addr a b = Some (a + b)"
    and "0x01000000 \<le> unat a + unat b \<Longrightarrow> unat a < 0x01000000 \<Longrightarrow> e8_encode_addr a b = Some (a - 0x01000000)"
    and "0x01000000 \<le> unat a \<Longrightarrow> unat a + unat b < 4294967296 \<Longrightarrow> e8_encode_addr a b = None"
proof -
  have B: "unat b < 0x01000000" using assms by (simp add: word_less_nat_alt)
  note A = unat_u32_less [of a]
  note nat = word_less_nat_alt sign_clear
  show "unat a + unat b < 0x01000000 \<or> 4294967296 \<le> unat a + unat b \<Longrightarrow> e8_encode_addr a b = Some (a + b)"
    using A B by (auto simp: e8_encode_addr_def Let_def nat unat_add_u32)
  show "0x01000000 \<le> unat a + unat b \<Longrightarrow> unat a < 0x01000000 \<Longrightarrow> e8_encode_addr a b = Some (a - 0x01000000)"
    using B by (simp add: e8_encode_addr_def Let_def nat unat_add_u32 unat_sub_u32)
  show "0x01000000 \<le> unat a \<Longrightarrow> unat a + unat b < 4294967296 \<Longrightarrow> e8_encode_addr a b = None"
    using B by (auto simp: e8_encode_addr_def Let_def nat unat_add_u32 unat_sub_u32)
qed

lemma e8_decode_addr_cases:
  assumes "b < 0x01000000"
  shows "unat a < 0x01000000 \<Longrightarrow> e8_decode_addr a b = Some (a - b)"
    and "0x01000000 \<le> unat a \<Longrightarrow> 4294967296 \<le> unat a + unat b \<Longrightarrow> e8_decode_addr a b = Some (a + 0x01000000)"
    and "0x01000000 \<le> unat a \<Longrightarrow> unat a + unat b < 4294967296 \<Longrightarrow> e8_decode_addr a b = None"
proof -
  have B: "unat b < 0x01000000" using assms by (simp add: word_less_nat_alt)
  note A = unat_u32_less [of a]
  note nat = word_less_nat_alt sign_clear
  show "unat a < 0x01000000 \<Longrightarrow> e8_decode_addr a b = Some (a - b)"
    by (simp add: e8_decode_addr_def nat)
  show "0x01000000 \<le> unat a \<Longrightarrow> 4294967296 \<le> unat a + unat b \<Longrightarrow> e8_decode_addr a b = Some (a + 0x01000000)"
    using A B by (simp add: e8_decode_addr_def nat unat_add_u32)
  show "0x01000000 \<le> unat a \<Longrightarrow> unat a + unat b < 4294967296 \<Longrightarrow> e8_decode_addr a b = None"
    using B by (auto simp: e8_decode_addr_def nat unat_add_u32)
qed

lemma e8_inverse: "x86_inverse e8_encode_addr e8_decode_addr" "x86_inverse e8_decode_addr e8_encode_addr"
proof -
  have "case e8_encode_addr a b of Some v \<Rightarrow> e8_decode_addr v b = Some a | None \<Rightarrow> e8_decode_addr a b = None"
    if b: "b < 0x01000000" for a b
  proof -
    have B: "unat b < 0x01000000" using b by (simp add: word_less_nat_alt)
    note A = unat_u32_less [of a]
    consider "unat a + unat b < 0x01000000 \<or> 4294967296 \<le> unat a + unat b"
      | "0x01000000 \<le> unat a + unat b" "unat a < 0x01000000"
      | "0x01000000 \<le> unat a" "unat a + unat b < 4294967296" by linarith
    then show ?thesis
    proof cases
      case 1
      then have "unat (a + b) < 0x01000000" using A B by (auto simp: unat_add_u32)
      then show ?thesis by (simp add: e8_encode_addr_cases(1) [OF b 1] e8_decode_addr_cases(1) [OF b])
    next
      case 2
      have "unat (a - 0x01000000) = unat a + 4278190080" using 2 by (simp add: unat_sub_u32)
      then show ?thesis using 2 by (simp add: e8_encode_addr_cases(2) [OF b 2] e8_decode_addr_cases(2) [OF b])
    next
      case 3
      then show ?thesis by (simp add: e8_encode_addr_cases(3) [OF b 3] e8_decode_addr_cases(3) [OF b 3])
    qed
  qed
  then show "x86_inverse e8_encode_addr e8_decode_addr" by (simp add: x86_inverse_def)
  have "case e8_decode_addr a b of Some v \<Rightarrow> e8_encode_addr v b = Some a | None \<Rightarrow> e8_encode_addr a b = None"
    if b: "b < 0x01000000" for a b
  proof -
    have B: "unat b < 0x01000000" using b by (simp add: word_less_nat_alt)
    note A = unat_u32_less [of a]
    consider "unat a < 0x01000000" | "0x01000000 \<le> unat a" "4294967296 \<le> unat a + unat b"
      | "0x01000000 \<le> unat a" "unat a + unat b < 4294967296" by linarith
    then show ?thesis
    proof cases
      case 1
      have "e8_encode_addr (a - b) b = Some (a - b + b)"
      proof (rule e8_encode_addr_cases(1) [OF b])
        show "unat (a - b) + unat b < 0x01000000 \<or> 4294967296 \<le> unat (a - b) + unat b"
          using 1 B by (simp add: unat_sub_u32)
      qed
      then show ?thesis by (simp add: e8_decode_addr_cases(1) [OF b 1])
    next
      case 2
      have "unat (a + 0x01000000) = unat a - 4278190080" using 2 A B by (simp add: unat_add_u32)
      then have "0x01000000 \<le> unat (a + 0x01000000) + unat b" "unat (a + 0x01000000) < 0x01000000"
        using 2 A B by simp_all
      then show ?thesis by (simp add: e8_decode_addr_cases(2) [OF b 2] e8_encode_addr_cases(2) [OF b])
    next
      case 3
      then show ?thesis by (simp add: e8_encode_addr_cases(3) [OF b 3] e8_decode_addr_cases(3) [OF b 3])
    qed
  qed
  then show "x86_inverse e8_decode_addr e8_encode_addr" by (simp add: x86_inverse_def)
qed

interpretation e8: inplace_filter x86_limit "x86_step e8_encode_addr cmp fo" "x86_step e8_decode_addr cmp fo"
  for cmp fo by (rule x86_filter [OF e8_inverse(1)])

interpretation e8_back: inplace_filter x86_limit "x86_step e8_decode_addr cmp fo" "x86_step e8_encode_addr cmp fo"
  for cmp fo by (rule x86_filter [OF e8_inverse(2)])

lemma length_x86_loop: "limit = x86_limit (length data) \<Longrightarrow> length (x86_loop f cmp fo limit i data) = length data"
  using inplace_step.loop_frame [OF x86_inplace] by (simp add: x86_loop_eq)

text \<open>The x86 filters, with calls only or with calls and jumps, invert exactly in both
  directions, at every file offset, and keep the length.\<close>

theorem e8_roundtrip:
  "e8_decode (e8_encode data fo e8_only) fo e8_only = data \<and>
   e8_encode (e8_decode data fo e8_only) fo e8_only = data \<and>
   length (e8_decode data fo e8_only) = length data"
proof -
  have "x86_limit n = n - 4" for n by (simp add: x86_limit_def)
  then show ?thesis
    using e8.roundtrip [of "e8_mask e8_only" fo 0 data] e8_back.roundtrip [of "e8_mask e8_only" fo 0 data]
    by (simp add: e8_decode_def e8_encode_def length_x86_loop x86_loop_eq [symmetric])
qed

section \<open>The ARM filter as a pair of steps\<close>

definition arm_limit :: "nat \<Rightarrow> nat" where
  "arm_limit n = n - 3"

definition arm_step :: "(u32 \<Rightarrow> u32 \<Rightarrow> u32) \<Rightarrow> u64 \<Rightarrow> nat \<Rightarrow> byte list \<Rightarrow> nat \<times> byte list" where
  "arm_step convert file_offset i data =
     (i + 4, if data ! (i + 3) = 0xEB
             then arm_store data i (convert (arm_offset data i) (arm_position file_offset i)) else data)"

lemma length_arm_store [simp]: "length (arm_store data i v) = length data"
  by (simp add: arm_store_def Let_def)

lemma nth_arm_store:
  assumes "i + 3 < length data"
  shows "arm_store data i v ! k =
    (if k = i then ucast v else if k = i + 1 then ucast (drop_bit 8 v)
     else if k = i + 2 then ucast (drop_bit 16 v) else data ! k)"
proof -
  have m: "(0xFFFFFF :: u32) = mask 24" "(0xFF :: u32) = mask 8" by (simp_all add: mask_eq_exp_minus_1)
  have "ucast ((v AND 0xFFFFFF) AND 0xFF) = (ucast v :: byte)"
    "ucast (drop_bit 8 (v AND 0xFFFFFF) AND 0xFF) = (ucast (drop_bit 8 v) :: byte)"
    "ucast (drop_bit 16 (v AND 0xFFFFFF) AND 0xFF) = (ucast (drop_bit 16 v) :: byte)"
    unfolding m take_bit_eq_mask [symmetric] by (rule bit_word_eqI, auto simp: bit_simps)+
  with assms show ?thesis by (simp add: arm_store_def Let_def nth_list_update)
qed

lemma arm_offset_store:
  fixes v :: u32
  assumes "i + 3 < length data"
  shows "arm_offset (arm_store data i v) i = take_bit 24 v"
proof -
  have "ucast (ucast v :: byte) OR push_bit 8 (ucast (ucast (drop_bit 8 v) :: byte)) OR
      push_bit 16 (ucast (ucast (drop_bit 16 v) :: byte)) = take_bit 24 (v :: u32)"
  proof (rule bit_word_eqI)
    fix n assume "n < LENGTH(32)"
    then show "bit (ucast (ucast v :: byte) OR push_bit 8 (ucast (ucast (drop_bit 8 v) :: byte)) OR
        push_bit 16 (ucast (ucast (drop_bit 16 v) :: byte)) :: u32) n = bit (take_bit 24 v) n"
      by (cases "n < 8"; cases "n < 16"; cases "n < 24") (auto simp: bit_simps)
  qed
  with assms show ?thesis by (simp add: arm_offset_def nth_arm_store)
qed

lemma arm_store_store:
  "i + 3 < length data \<Longrightarrow> arm_store (arm_store data i v) i w = arm_store data i w"
  by (intro nth_equalityI) (simp_all add: nth_arm_store)

lemma arm_store_cut:
  assumes "i + 3 < length data" "take_bit 24 v = take_bit 24 w"
  shows "arm_store data i v = arm_store data i w"
proof -
  have "v AND 0xFFFFFF = w AND 0xFFFFFF"
    using assms(2) by (simp add: take_bit_eq_mask mask_eq_exp_minus_1)
  then show ?thesis by (simp add: arm_store_def Let_def)
qed

lemma arm_store_offset: "i + 3 < length data \<Longrightarrow> arm_store data i (arm_offset data i) = data"
proof (intro nth_equalityI)
  fix k assume "i + 3 < length data"
  moreover have "ucast (arm_offset data i) = data ! i" "ucast (drop_bit 8 (arm_offset data i)) = data ! (i + 1)"
    "ucast (drop_bit 16 (arm_offset data i)) = data ! (i + 2)"
    unfolding arm_offset_def by (rule bit_word_eqI, auto simp: bit_simps)+
  ultimately show "arm_store data i (arm_offset data i) ! k = data ! k" by (simp add: nth_arm_store)
qed simp

lemma arm_loop_eq: "arm_loop convert fo i data = filter_loop arm_limit (arm_step convert fo) i data"
proof (induction convert fo i data rule: arm_loop.induct)
  case (1 convert fo i data)
  let ?d = "if data ! (i + 3) = 0xEB
    then arm_store data i (convert (arm_offset data i) (arm_position fo i)) else data"
  have step: "arm_step convert fo i data = (i + 4, ?d)" by (simp add: arm_step_def)
  have lim: "i < arm_limit (length data) \<longleftrightarrow> i + 3 < length data" by (auto simp: arm_limit_def)
  show ?case
  proof (cases "i + 3 < length data")
    case False
    then show ?thesis
      by (subst arm_loop.simps, subst filter_loop.simps) (simp only: lim if_False simp_thms)
  next
    case True
    have "filter_loop arm_limit (arm_step convert fo) i data = filter_loop arm_limit (arm_step convert fo) (i + 4) ?d"
      by (subst filter_loop.simps) (simp add: lim True step)
    with 1 [OF True] True show ?thesis by (subst arm_loop.simps) simp
  qed
qed

lemma arm_inplace: "inplace_step arm_limit (arm_step convert fo)"
proof
  fix i and d :: "byte list" assume i: "i < arm_limit (length d)"
  then have bound: "i + 3 < length d" by (simp add: arm_limit_def)
  show "i < fst (arm_step convert fo i d) \<and> length (snd (arm_step convert fo i d)) = length d"
    by (simp add: arm_step_def)
  fix k assume "k < i \<or> fst (arm_step convert fo i d) \<le> k"
  then show "snd (arm_step convert fo i d) ! k = d ! k"
    using bound by (auto simp: arm_step_def nth_arm_store)
next
  fix i and d d' :: "byte list"
  assume i: "i < arm_limit (length d)" and len: "length d' = length d"
    and same: "\<And>k. i \<le> k \<Longrightarrow> k < fst (arm_step convert fo i d) \<Longrightarrow> d' ! k = d ! k"
  from i have bound: "i + 3 < length d" by (simp add: arm_limit_def)
  have byte: "d' ! k = d ! k" if "i \<le> k" "k < i + 4" for k
    using same [of k] that by (simp add: arm_step_def)
  have "arm_offset d' i = arm_offset d i" by (simp add: arm_offset_def byte)
  then show "fst (arm_step convert fo i d') = fst (arm_step convert fo i d) \<and>
    (\<forall>k. i \<le> k \<and> k < fst (arm_step convert fo i d) \<longrightarrow>
       snd (arm_step convert fo i d') ! k = snd (arm_step convert fo i d) ! k)"
    using bound len byte by (simp add: arm_step_def nth_arm_store)
qed

lemma take_bit_24_iff: "take_bit 24 v = take_bit 24 w \<longleftrightarrow> (ucast v :: 24 word) = ucast (w :: u32)"
proof -
  have "unat (take_bit 24 v) = unat (ucast v :: 24 word)" for v :: u32
    by (simp add: unat_take_bit unat_ucast_mod)
  then show ?thesis by (metis word_unat_eq_iff)
qed

lemma arm_filter:
  assumes "\<And>a p. take_bit 24 (g (take_bit 24 (f a p)) p) = take_bit 24 a"
  shows "inplace_filter arm_limit (arm_step f fo) (arm_step g fo)"
proof (intro inplace_filter.intro arm_inplace inplace_filter_axioms.intro)
  fix i and d :: "byte list" assume "i < arm_limit (length d)"
  then have bound: "i + 3 < length d" by (simp add: arm_limit_def)
  then show "fst (arm_step f fo i d) \<le> length d \<and> fst (arm_step g fo i d) \<le> length d"
    by (simp add: arm_step_def)
  let ?o = "arm_offset d i" and ?p = "arm_position fo i"
  have "arm_store d i (g (take_bit 24 (f ?o ?p)) ?p) = arm_store d i ?o"
    using bound assms by (intro arm_store_cut)
  with bound show "arm_step g fo i (snd (arm_step f fo i d)) = (fst (arm_step f fo i d), d)"
    by (simp add: arm_step_def nth_arm_store arm_offset_store arm_store_store arm_store_offset)
qed

lemma ucast_take_bit_24: "(ucast (take_bit 24 v :: u32) :: 24 word) = ucast v"
  by (simp add: take_bit_24_iff [symmetric])

interpretation arm: inplace_filter arm_limit "arm_step (\<lambda>offset pos. offset + pos) fo"
    "arm_step (\<lambda>offset pos. offset - pos) fo" for fo
  by (rule arm_filter) (simp add: take_bit_24_iff ucast_add_down ucast_diff_down ucast_take_bit_24)

interpretation arm_back: inplace_filter arm_limit "arm_step (\<lambda>offset pos. offset - pos) fo"
    "arm_step (\<lambda>offset pos. offset + pos) fo" for fo
  by (rule arm_filter) (simp add: take_bit_24_iff ucast_add_down ucast_diff_down ucast_take_bit_24)

lemma length_arm_loop: "length (arm_loop f fo i data) = length data"
  using inplace_step.loop_frame [OF arm_inplace] by (simp add: arm_loop_eq)

text \<open>The ARM branch filter inverts exactly in both directions, at every file offset.\<close>

theorem arm_roundtrip:
  "arm_decode (arm_encode data fo) fo = data \<and> arm_encode (arm_decode data fo) fo = data \<and>
   length (arm_decode data fo) = length data"
  using arm.roundtrip [of fo 0 data] arm_back.roundtrip [of fo 0 data]
  by (simp add: arm_decode_def arm_encode_def length_arm_loop arm_loop_eq [symmetric])

text \<open>No filter changes the length of its region.\<close>

lemma length_delta_decode_lane: "length (fst (delta_decode_lane data n ch i prev st)) = length (fst st)"
proof (induction data n ch i prev st rule: delta_decode_lane.induct)
  case (1 data n ch i prev result src)
  then show ?case by (subst delta_decode_lane.simps) (simp add: Let_def)
qed

lemma length_delta_decode: "length (delta_decode simd data channels) = length data"
proof -
  have lanes: "length (fst (foldl (\<lambda>st c. delta_decode_lane data n ch c 0 st) st cs)) = length (fst st)" for n ch st cs
    by (induction cs arbitrary: st) (simp_all add: length_delta_decode_lane)
  have "length (delta_decode_tail prev data) = length data" for prev
    by (induction data arbitrary: prev) simp_all
  then show ?thesis by (simp add: delta_decode_def Let_def lanes delta_decode_simd_scalar)
qed

lemma length_apply_filter_decode:
  assumes "apply_filter_decode simd filter_type data channels fo = Inr out"
  shows "length out = length data"
proof -
  have "length (e8_decode data fo b) = length data" for b
    by (simp add: e8_decode_def length_x86_loop x86_limit_def)
  moreover have "length (arm_decode data fo) = length data"
    by (simp add: arm_decode_def length_arm_loop)
  ultimately show ?thesis
    using assms by (auto simp: apply_filter_decode_def length_delta_decode split: if_splits)
qed

text \<open>C30: Every filter the decoder accepts restores what the encoder's filter of the same
  type, channel count and position produced; every other type is refused by the decoder.\<close>

theorem filter_dispatch_roundtrip:
  "apply_filter_decode simd filter_type (apply_filter_encode simd' filter_type data channels fo) channels fo =
     (if filter_type \<in> {FILTER_DELTA, FILTER_E8, FILTER_E8E9, FILTER_ARM} then Inr data
      else Inl (UnsupportedFilter filter_type))"
proof -
  have "delta_decode simd (delta_encode simd' data channels) channels = data"
    by (simp add: delta_encode_eq delta_decode_lane_deltas)
  moreover have "e8_decode (e8_encode data fo b) fo b = data" for b
  proof -
    have "x86_limit n = n - 4" for n by (simp add: x86_limit_def)
    then show ?thesis
      using e8.roundtrip [of "e8_mask b" fo 0 data]
      by (simp add: e8_decode_def e8_encode_def length_x86_loop x86_loop_eq [symmetric])
  qed
  moreover have "arm_decode (arm_encode data fo) fo = data"
    using arm.roundtrip [of fo 0 data]
    by (simp add: arm_decode_def arm_encode_def length_arm_loop arm_loop_eq [symmetric])
  ultimately show ?thesis by (auto simp: apply_filter_decode_def apply_filter_encode_def)
qed

end
