(* ===== verification/BitStream.thy ===== *)
theory BitStream
  imports Interfaces
begin

text \<open>
  The bit stream of the RAR5 codec (codec/common/bitstream.rs): the buffered MSB-first reader and
  the writer. The reader keeps the unread bits that it has already loaded in the high
  \<open>br_bits\<close> bits of a 64-bit word; an eight-byte load leaves further stream bits below
  them, which the next load ORs over. Every operation of the reader threads its state, the failing
  ones included: a failed peek has already refilled the buffer.
\<close>

section \<open>Fallible operations that keep their state\<close>

definition sbind :: "('s \<Rightarrow> ('e + 'a) \<times> 's) \<Rightarrow> ('a \<Rightarrow> 's \<Rightarrow> ('e + 'b) \<times> 's) \<Rightarrow> 's \<Rightarrow> ('e + 'b) \<times> 's" where
  "sbind m f s = (case m s of (Inl e, s') \<Rightarrow> (Inl e, s') | (Inr a, s') \<Rightarrow> f a s')"

definition sreturn :: "'a \<Rightarrow> 's \<Rightarrow> ('e + 'a) \<times> 's" where
  "sreturn a s = (Inr a, s)"

definition sfail :: "'e \<Rightarrow> 's \<Rightarrow> ('e + 'a) \<times> 's" where
  "sfail e s = (Inl e, s)"

definition smap_err :: "('e \<Rightarrow> 'f) \<Rightarrow> ('s \<Rightarrow> ('e + 'a) \<times> 's) \<Rightarrow> 's \<Rightarrow> ('f + 'a) \<times> 's" where
  "smap_err g m s = (case m s of (x, s') \<Rightarrow> (map_err g x, s'))"

lemma sbind_simps [simp, result_simps]:
  "m s = (Inl e, s') \<Longrightarrow> sbind m f s = (Inl e, s')"
  "m s = (Inr a, s') \<Longrightarrow> sbind m f s = f a s'"
  "sreturn a s = (Inr a, s)"
  "sfail e s = (Inl e, s)"
  by (simp_all add: sbind_def sreturn_def sfail_def)

lemma sbind_eq_Inr:
  "sbind m f s = (Inr b, s'') \<longleftrightarrow> (\<exists>a s'. m s = (Inr a, s') \<and> f a s' = (Inr b, s''))"
  by (cases "m s"; cases "fst (m s)") (auto simp: sbind_def)

lemma smap_err_eq_Inr [simp]: "smap_err g m s = (Inr a, s') \<longleftrightarrow> m s = (Inr a, s')"
  by (auto simp: smap_err_def map_err_eq_Inr split: prod.split)

lemma sbind_cong [fundef_cong]:
  "m s = m' s' \<Longrightarrow> (\<And>a t. m' s' = (Inr a, t) \<Longrightarrow> f a t = f' a t) \<Longrightarrow> sbind m f s = sbind m' f' s'"
  by (auto simp: sbind_def split: prod.split sum.split)

text \<open>
  \<open>pays cost d m\<close>: a success of \<open>m\<close> lowers the cost of the state by at least
  \<open>d\<close>, a failure never raises it. This is what the decoders' loops terminate by.
\<close>

definition pays :: "('s \<Rightarrow> nat) \<Rightarrow> nat \<Rightarrow> ('s \<Rightarrow> ('e + 'a) \<times> 's) \<Rightarrow> bool" where
  "pays cost d m \<longleftrightarrow> (\<forall>s. cost (snd (m s)) + (case fst (m s) of Inl _ \<Rightarrow> 0 | Inr _ \<Rightarrow> d) \<le> cost s)"

lemma pays_sbind:
  assumes "pays cost d m" and "\<And>a. pays cost e (f a)"
  shows "pays cost (d + e) (sbind m f)"
  unfolding pays_def
proof
  fix s
  obtain x s' where m: "m s = (x, s')" by (cases "m s") auto
  show "cost (snd (sbind m f s)) + (case fst (sbind m f s) of Inl _ \<Rightarrow> 0 | Inr _ \<Rightarrow> d + e) \<le> cost s"
  proof (cases x)
    case (Inl err)
    then show ?thesis using m assms(1) by (auto simp: pays_def sbind_def dest: spec [of _ s])
  next
    case (Inr a)
    have "cost s' + d \<le> cost s" using m assms(1) Inr by (auto simp: pays_def dest: spec [of _ s])
    moreover have "cost (snd (f a s')) + (case fst (f a s') of Inl _ \<Rightarrow> 0 | Inr _ \<Rightarrow> e) \<le> cost s'"
      using assms(2) by (auto simp: pays_def)
    ultimately show ?thesis using m Inr by (auto simp: sbind_def split: sum.splits)
  qed
qed

lemma pays_sreturn [simp]: "pays cost 0 (sreturn a)"
  by (simp add: pays_def)

lemma pays_sfail [simp]: "pays cost d (sfail e)"
  by (simp add: pays_def)

lemma pays_smap_err: "pays cost d m \<Longrightarrow> pays cost d (smap_err g m)"
  unfolding pays_def
  by (erule all_forward) (auto simp: smap_err_def map_err_def split: prod.split sum.splits)

lemma pays_mono: "pays cost d m \<Longrightarrow> e \<le> d \<Longrightarrow> pays cost e m"
  unfolding pays_def by (fastforce split: sum.splits)

section \<open>The reader\<close>

record bitreader =
  br_data :: "byte list"
  br_pos :: nat
  br_buf :: u64
  br_bits :: nat

definition br_new :: "byte list \<Rightarrow> bitreader" where
  "br_new data = \<lparr>br_data = data, br_pos = 0, br_buf = 0, br_bits = 0\<rparr>"

definition u64_from_be :: "byte list \<Rightarrow> u64" where
  "u64_from_be bs = foldl (\<lambda>v b. push_bit 8 v OR ucast b) 0 bs"

function br_fill :: "bitreader \<Rightarrow> bitreader" where
  "br_fill r =
     (if br_bits r < 56 then
        if br_pos r + 8 \<le> length (br_data r) then
          let word = u64_from_be (take 8 (drop (br_pos r) (br_data r)));
              r' = r\<lparr>br_buf := br_buf r OR drop_bit (br_bits r) word\<rparr>;
              added = (63 - br_bits r) div 8 in
          if added = 0 then r'
          else br_fill (r'\<lparr>br_pos := br_pos r + added, br_bits := br_bits r + added * 8\<rparr>)
        else if br_pos r < length (br_data r) then
          br_fill (r\<lparr>br_buf := br_buf r OR push_bit (56 - br_bits r) (ucast (br_data r ! br_pos r)),
                     br_pos := br_pos r + 1, br_bits := br_bits r + 8\<rparr>)
        else r
      else r)"
  by pat_completeness auto
termination
  by (relation "measure (\<lambda>r. 56 - br_bits r)") auto

declare br_fill.simps [simp del]

definition br_bits_remaining :: "bitreader \<Rightarrow> nat" where
  "br_bits_remaining r = br_bits r + (length (br_data r) - br_pos r) * 8"

definition br_consumed_bits :: "bitreader \<Rightarrow> nat" where
  "br_consumed_bits r = br_pos r * 8 - br_bits r"

definition br_byte_position :: "bitreader \<Rightarrow> nat" where
  "br_byte_position r = br_pos r - (br_bits r + 7) div 8"

definition br_bit_position :: "bitreader \<Rightarrow> nat" where
  "br_bit_position r = (8 - br_bits r mod 8) mod 8"

definition END_OF_DATA :: string where
  "END_OF_DATA = ''BitReader: end of data''"

definition br_peek_bits :: "nat \<Rightarrow> bitreader \<Rightarrow> (string + u32) \<times> bitreader" where
  "br_peek_bits n r =
     (if n = 0 then (Inr 0, r)
      else let r' = br_fill r in
        if br_bits_remaining r' < n \<or> br_bits r' < n then (Inl END_OF_DATA, r')
        else (Inr (ucast (drop_bit (64 - n) (br_buf r'))), r'))"

definition br_skip_bits :: "nat \<Rightarrow> bitreader \<Rightarrow> bitreader" where
  "br_skip_bits n r =
     (if n = 0 then r
      else let r' = (if br_bits r < n then br_fill r else r) in
        if br_bits r' \<le> n then r'\<lparr>br_buf := 0, br_bits := 0\<rparr>
        else r'\<lparr>br_buf := push_bit n (br_buf r'), br_bits := br_bits r' - n\<rparr>)"

text \<open>A field of at most 32 bits is one peek and one skip; a wider one is read in pieces of 16.\<close>

definition br_read_narrow :: "nat \<Rightarrow> bitreader \<Rightarrow> (string + u32) \<times> bitreader" where
  "br_read_narrow n =
     (if n = 0 then sreturn 0
      else sbind (br_peek_bits n) (\<lambda>value r. (Inr value, br_skip_bits n r)))"

function br_read_wide :: "nat \<Rightarrow> u32 \<Rightarrow> bitreader \<Rightarrow> (string + u32) \<times> bitreader" where
  "br_read_wide left result =
     (if 0 < left then
        let k = min left 16 in
        sbind (br_read_narrow k) (\<lambda>v. br_read_wide (left - k) (push_bit k result OR (v AND (push_bit k 1 - 1))))
      else sreturn result)"
  by pat_completeness auto
termination
  by (relation "measure (\<lambda>(left, result). left)") auto

declare br_read_wide.simps [simp del]

definition br_read_bits :: "nat \<Rightarrow> bitreader \<Rightarrow> (string + u32) \<times> bitreader" where
  "br_read_bits n = (if n \<le> 32 then br_read_narrow n else br_read_wide n 0)"

definition br_read_bits_u64 :: "nat \<Rightarrow> bitreader \<Rightarrow> (string + u64) \<times> bitreader" where
  "br_read_bits_u64 n =
     (if 32 < n
      then sbind (br_read_bits (n - 32)) (\<lambda>high. sbind (br_read_bits 32) (\<lambda>low.
             sreturn (push_bit 32 (ucast high) OR ucast low)))
      else sbind (br_read_bits n) (\<lambda>low. sreturn (ucast low)))"

definition br_align :: "bitreader \<Rightarrow> bitreader" where
  "br_align r = (if 0 < br_bits r mod 8 then br_skip_bits (br_bits r mod 8) r else r)"

definition br_read_byte :: "bitreader \<Rightarrow> (string + byte) \<times> bitreader" where
  "br_read_byte r =
     (let r' = br_fill (br_align r) in
      if br_bits r' < 8 then (Inl END_OF_DATA, r')
      else (Inr (ucast (drop_bit 56 (br_buf r'))), br_skip_bits 8 r'))"

definition br_set_position :: "nat \<Rightarrow> nat \<Rightarrow> bitreader \<Rightarrow> bitreader" where
  "br_set_position byte_pos bit_pos r =
     (let r' = r\<lparr>br_pos := byte_pos, br_buf := 0, br_bits := 0\<rparr> in
      if 0 < bit_pos then
        let r'' = br_fill r' in
        if bit_pos \<le> br_bits r'' then br_skip_bits bit_pos r'' else r''
      else r')"

definition br_read_bytes :: "nat \<Rightarrow> bitreader \<Rightarrow> (string + byte list) \<times> bitreader" where
  "br_read_bytes n r =
     (let r' = br_align r; start = br_byte_position r' in
      if length (br_data r') < start + n then (Inl END_OF_DATA, r')
      else (Inr (take n (drop start (br_data r'))), br_set_position (start + n) 0 r'))"

section \<open>What the buffer holds\<close>

text \<open>The unread stream, and the contract of the buffer: see the theory's header.\<close>

definition br_rest :: "bitreader \<Rightarrow> bool list" where
  "br_rest r = drop (br_consumed_bits r) (stream_bits (br_data r))"

definition br_cell :: "bitreader \<Rightarrow> nat \<Rightarrow> bool" where
  "br_cell r i \<longleftrightarrow> i < length (br_rest r) \<and> br_rest r ! i"

definition br_ok :: "bitreader \<Rightarrow> bool" where
  "br_ok r \<longleftrightarrow> br_bits r \<le> 64 \<and> br_bits r \<le> 8 * br_pos r \<and> br_pos r \<le> length (br_data r) \<and>
     (\<forall>i<64. (i < br_bits r \<longrightarrow> bit (br_buf r) (63 - i) = br_cell r i) \<and>
             (bit (br_buf r) (63 - i) \<longrightarrow> br_cell r i))"

lemma br_new_ok [simp]: "br_ok (br_new data)"
  by (simp add: br_ok_def br_new_def)

lemma br_new_rest [simp]: "br_rest (br_new data) = stream_bits data"
  by (simp add: br_rest_def br_new_def br_consumed_bits_def)

lemma br_okD:
  assumes "br_ok r"
  shows "br_bits r \<le> 64" "br_bits r \<le> 8 * br_pos r" "br_pos r \<le> length (br_data r)"
    and "i < br_bits r \<Longrightarrow> bit (br_buf r) (63 - i) = br_cell r i"
    and "i < 64 \<Longrightarrow> bit (br_buf r) (63 - i) \<Longrightarrow> br_cell r i"
  using assms by (auto simp: br_ok_def)

lemma length_br_rest: "br_ok r \<Longrightarrow> length (br_rest r) = br_bits_remaining r"
  by (auto simp: br_ok_def br_rest_def br_consumed_bits_def br_bits_remaining_def diff_mult_distrib)

lemma bit_u64_from_be:
  assumes "length bs \<le> 8"
  shows "u64_from_be bs = bits_value (stream_bits bs)"
  using assms
proof (induction bs rule: rev_induct)
  case Nil
  then show ?case by (simp add: u64_from_be_def)
next
  case (snoc b bs)
  have "(ucast b :: u64) = bits_value (byte_bits b)"
  proof (rule bit_word_eqI)
    show "bit (ucast b :: u64) n = bit (bits_value (byte_bits b) :: u64) n" if "n < LENGTH(64)" for n
      using that by (cases "n < 8") (auto simp: bit_simps bit_bits_value nth_byte_bits)
  qed
  with snoc show ?case
    by (simp add: u64_from_be_def stream_bits_append stream_bits_Cons bits_value_append)
qed

lemma length_filled_pos: "br_pos (br_fill r) \<le> max (br_pos r) (length (br_data r))"
proof (induction r rule: br_fill.induct)
  case (1 r)
  show ?case
  proof (cases "br_bits r < 56")
    case True
    then have "(63 - br_bits r) div 8 \<noteq> 0" "(63 - br_bits r) div 8 \<le> 8" by auto
    then show ?thesis using True 1 by (subst br_fill.simps) (auto simp: Let_def)
  qed (simp add: br_fill.simps)
qed

lemma br_fill_step:
  assumes ok: "br_ok r" and "br_bits r < 56" "br_bits r + 8 * k \<le> 64" "br_pos r + k \<le> length (br_data r)"
    and buf: "\<And>i. i < 64 \<Longrightarrow> bit w (63 - i) \<Longrightarrow> br_bits r \<le> i \<and> br_cell r i"
    and full: "\<And>i. br_bits r \<le> i \<Longrightarrow> i < br_bits r + 8 * k \<Longrightarrow> bit w (63 - i) = br_cell r i"
  shows "br_ok (r\<lparr>br_buf := br_buf r OR w, br_pos := br_pos r + k, br_bits := br_bits r + k * 8\<rparr>) \<and>
    br_rest (r\<lparr>br_buf := br_buf r OR w, br_pos := br_pos r + k, br_bits := br_bits r + k * 8\<rparr>) = br_rest r"
proof -
  let ?r = "r\<lparr>br_buf := br_buf r OR w, br_pos := br_pos r + k, br_bits := br_bits r + k * 8\<rparr>"
  note d = br_okD [OF ok]
  have rest: "br_rest ?r = br_rest r"
    using d(2) by (simp add: br_rest_def br_consumed_bits_def algebra_simps)
  then have cell: "br_cell ?r i = br_cell r i" for i by (simp add: br_cell_def)
  have "bit (br_buf ?r) (63 - i) = br_cell r i" if "i < br_bits r + k * 8" for i
  proof (cases "i < br_bits r")
    case True
    then have "\<not> bit w (63 - i)" using buf [of i] assms(2) by force
    then show ?thesis using d(4) [OF True] by (simp add: bit_or_iff)
  next
    case False
    then have "bit w (63 - i) = br_cell r i" using full [of i] that by simp
    then show ?thesis using d(5) [of i] that assms(3) by (auto simp: bit_or_iff)
  qed
  moreover have "br_cell r i" if "bit (br_buf ?r) (63 - i)" "i < 64" for i
    using that d(5) [of i] buf [of i] by (auto simp: bit_or_iff)
  ultimately show ?thesis
    using rest assms(3,4) d(2) by (auto simp: br_ok_def cell)
qed

lemma br_rest_nth_pos:
  assumes "br_ok r" "br_bits r \<le> i" "i < br_bits r + 8 * k" "br_pos r + k \<le> length (br_data r)"
  shows "i < length (br_rest r)"
    and "br_rest r ! i = stream_bits (drop (br_pos r) (br_data r)) ! (i - br_bits r)"
proof -
  have "br_rest r = drop (br_pos r * 8 - br_bits r) (stream_bits (br_data r))"
    by (simp add: br_rest_def br_consumed_bits_def)
  with assms br_okD(2) [OF assms(1)] show "i < length (br_rest r)"
    and "br_rest r ! i = stream_bits (drop (br_pos r) (br_data r)) ! (i - br_bits r)"
    by (auto simp: drop_stream_bits [symmetric] mult.commute [of _ 8])
qed

lemma br_fill_word:
  assumes ok: "br_ok r" and bits: "br_bits r < 56" and pos: "br_pos r + 8 \<le> length (br_data r)"
  defines "w \<equiv> drop_bit (br_bits r) (u64_from_be (take 8 (drop (br_pos r) (br_data r))))"
  shows "i < 64 \<Longrightarrow> bit w (63 - i) \<longleftrightarrow> br_bits r \<le> i \<and> br_cell r i"
proof -
  let ?s = "stream_bits (take 8 (drop (br_pos r) (br_data r)))"
  assume i: "i < 64"
  have len: "length ?s = 64" using pos by simp
  have w: "bit w j \<longleftrightarrow> j + br_bits r < 64 \<and> ?s ! (63 - (j + br_bits r))" for j
    using pos len by (auto simp: w_def bit_drop_bit_eq bit_u64_from_be bit_bits_value add.commute)
  have s: "?s ! k = stream_bits (drop (br_pos r) (br_data r)) ! k" if "k < 64" for k
  proof -
    have "stream_bits (drop (br_pos r) (br_data r)) = ?s @ stream_bits (drop 8 (drop (br_pos r) (br_data r)))"
      by (simp only: stream_bits_append [symmetric] append_take_drop_id)
    then show ?thesis using that len by (simp add: nth_append)
  qed
  show "bit w (63 - i) \<longleftrightarrow> br_bits r \<le> i \<and> br_cell r i"
  proof (cases "br_bits r \<le> i")
    case True
    have "br_cell r i = stream_bits (drop (br_pos r) (br_data r)) ! (i - br_bits r)"
      using br_rest_nth_pos [OF ok True, of 8] i bits pos by (auto simp: br_cell_def)
    moreover have "63 - (63 - i + br_bits r) = i - br_bits r" "63 - i + br_bits r < 64"
      using True i by auto
    ultimately show ?thesis using True s [of "i - br_bits r"] i by (simp add: w)
  next
    case False
    then have "\<not> 63 - i + br_bits r < 64" using i by linarith
    then show ?thesis using False by (simp only: w) simp
  qed
qed

lemma br_fill_spec:
  assumes "br_ok r"
  shows "br_ok (br_fill r) \<and> br_rest (br_fill r) = br_rest r \<and> br_data (br_fill r) = br_data r \<and>
    br_bits r \<le> br_bits (br_fill r) \<and>
    (56 \<le> br_bits (br_fill r) \<or> br_pos (br_fill r) = length (br_data r))"
  using assms
proof (induction r rule: br_fill.induct)
  case (1 r)
  note d = br_okD [OF 1(3)]
  show ?case
  proof (cases "br_bits r < 56")
    case False
    then show ?thesis using 1 by (simp add: br_fill.simps [of r])
  next
    case bits: True
    define added where "added = (63 - br_bits r) div 8"
    have added: "added \<noteq> 0" "br_bits r + 8 * added \<le> 64" "added \<le> 8"
      using bits by (auto simp: added_def)
    show ?thesis
    proof (cases "br_pos r + 8 \<le> length (br_data r)")
      case pos: True
      let ?w = "drop_bit (br_bits r) (u64_from_be (take 8 (drop (br_pos r) (br_data r))))"
      let ?r = "r\<lparr>br_buf := br_buf r OR ?w, br_pos := br_pos r + added, br_bits := br_bits r + added * 8\<rparr>"
      note w = br_fill_word [OF 1(3) bits pos]
      have step: "br_ok ?r \<and> br_rest ?r = br_rest r"
      proof (rule br_fill_step [OF 1(3) bits added(2)])
        show "br_pos r + added \<le> length (br_data r)" using pos added(3) by simp
        show "br_bits r \<le> i \<and> br_cell r i" if "i < 64" "bit ?w (63 - i)" for i
          using w [OF that(1)] that(2) by blast
        show "bit ?w (63 - i) = br_cell r i" if "br_bits r \<le> i" "i < br_bits r + 8 * added" for i
          using w [of i] that added(2) by simp
      qed
      have "br_fill r = br_fill ?r"
        using bits pos added(1) by (subst br_fill.simps) (simp add: Let_def added_def)
      moreover have "br_ok (br_fill ?r) \<and> br_rest (br_fill ?r) = br_rest ?r \<and> br_data (br_fill ?r) = br_data ?r \<and>
          br_bits ?r \<le> br_bits (br_fill ?r) \<and>
          (56 \<le> br_bits (br_fill ?r) \<or> br_pos (br_fill ?r) = length (br_data ?r))"
        using 1(1) [OF bits pos refl refl added_def] added(1) step by simp
      ultimately show ?thesis using step by simp
    next
      case nopos: False
      show ?thesis
      proof (cases "br_pos r < length (br_data r)")
        case pos: True
        let ?w = "push_bit (56 - br_bits r) (ucast (br_data r ! br_pos r)) :: u64"
        let ?r = "r\<lparr>br_buf := br_buf r OR ?w, br_pos := br_pos r + 1, br_bits := br_bits r + 1 * 8\<rparr>"
        have cell: "br_cell r i = bit (br_data r ! br_pos r) (7 - (i - br_bits r))"
          if "br_bits r \<le> i" "i < br_bits r + 8" for i
        proof -
          have "stream_bits (drop (br_pos r) (br_data r)) ! (i - br_bits r) =
              bit (drop (br_pos r) (br_data r) ! 0) (7 - (i - br_bits r))"
            using that pos by (subst nth_stream_bits) auto
          then show ?thesis
            using br_rest_nth_pos [OF 1(3) that(1), of 1] that pos by (simp add: br_cell_def)
        qed
        have w: "bit ?w (63 - i) \<longleftrightarrow> br_bits r \<le> i \<and> i < br_bits r + 8 \<and>
            bit (br_data r ! br_pos r) (7 - (i - br_bits r))" if "i < 64" for i
        proof (cases "br_bits r \<le> i \<and> i < br_bits r + 8")
          case True
          then have "56 - br_bits r \<le> 63 - i" "63 - i - (56 - br_bits r) = 7 - (i - br_bits r)"
            "63 - i < 64" "7 + br_bits r - i < 64"
            using bits by linarith+
          then show ?thesis using True by (simp add: bit_simps)
        next
          case False
          then have "63 - i < 56 - br_bits r \<or> 8 \<le> 63 - i - (56 - br_bits r)"
            using bits that by linarith
          then show ?thesis using False by (auto simp: bit_simps)
        qed
        have step: "br_ok ?r \<and> br_rest ?r = br_rest r"
        proof (rule br_fill_step [OF 1(3) bits])
          show "br_bits r + 8 * 1 \<le> 64" using bits by simp
          show "br_pos r + 1 \<le> length (br_data r)" using pos by simp
          show "br_bits r \<le> i \<and> br_cell r i" if "i < 64" "bit ?w (63 - i)" for i
            using w [OF that(1)] that(2) cell [of i] by blast
          show "bit ?w (63 - i) = br_cell r i" if "br_bits r \<le> i" "i < br_bits r + 8 * 1" for i
            using w [of i] cell [of i] that bits by simp
        qed
        have "br_fill r = br_fill ?r"
          using bits pos nopos by (subst br_fill.simps) simp
        moreover have "br_ok (br_fill ?r) \<and> br_rest (br_fill ?r) = br_rest ?r \<and> br_data (br_fill ?r) = br_data ?r \<and>
            br_bits ?r \<le> br_bits (br_fill ?r) \<and>
            (56 \<le> br_bits (br_fill ?r) \<or> br_pos (br_fill ?r) = length (br_data ?r))"
          using 1(2) [OF bits nopos pos] step by simp
        ultimately show ?thesis using step by simp
      next
        case False
        then show ?thesis using 1(3) bits nopos d(3) by (simp add: br_fill.simps [of r])
      qed
    qed
  qed
qed

text \<open>Without any assumption a refill loses no bit.\<close>

lemma br_fill_remaining: "br_bits_remaining (br_fill r) = br_bits_remaining r"
proof (induction r rule: br_fill.induct)
  case (1 r)
  show ?case
  proof (cases "br_bits r < 56")
    case True
    then have "(63 - br_bits r) div 8 \<noteq> 0" "(63 - br_bits r) div 8 \<le> 8" by auto
    moreover have "k * 8 + (n - (p + k)) * 8 = (n - p) * 8" if "p + k \<le> n" for k n p :: nat
      using that by (simp add: diff_mult_distrib)
    note this [of _ "(63 - br_bits r) div 8"] this [of _ 1]
    ultimately show ?thesis
      using True 1 by (subst br_fill.simps) (simp add: Let_def br_bits_remaining_def)
  qed (simp add: br_fill.simps)
qed

lemma br_data_fill [simp]: "br_data (br_fill r) = br_data r"
proof (induction r rule: br_fill.induct)
  case (1 r)
  then show ?case by (subst br_fill.simps) (auto simp: Let_def)
qed

lemma br_data_skip [simp]: "br_data (br_skip_bits n r) = br_data r"
  by (simp add: br_skip_bits_def Let_def)

lemma br_consumed_rest:
  "br_ok r \<Longrightarrow> br_consumed_bits r + length (br_rest r) = 8 * length (br_data r)"
  using br_okD(2,3) [of r] by (simp add: br_rest_def br_consumed_bits_def)

section \<open>Peeking, skipping and reading\<close>

lemma br_buffered:
  assumes "br_ok r" "n \<le> br_bits r" "n \<le> LENGTH('a)" "n \<le> 64"
  shows "(ucast (drop_bit (64 - n) (br_buf r)) :: 'a::len word) = bits_value (take n (br_rest r))"
proof (rule bit_word_eqI)
  fix j assume j: "j < LENGTH('a)"
  note d = br_okD [OF assms(1)]
  have len: "length (take n (br_rest r)) = n"
    using assms(1,2) by (simp add: length_br_rest br_bits_remaining_def)
  show "bit (ucast (drop_bit (64 - n) (br_buf r)) :: 'a word) j = bit (bits_value (take n (br_rest r)) :: 'a word) j"
  proof (cases "j < n")
    case True
    then have "64 - n + j = 63 - (n - Suc j)" "n - Suc j < br_bits r" using assms(2,4) by auto
    then have "bit (br_buf r) (64 - n + j) = br_cell r (n - Suc j)" using d(4) by metis
    moreover have "n - Suc j < length (br_rest r)" "n - Suc j < n" using True len by auto
    ultimately show ?thesis
      using True j len assms(4) by (simp add: bit_ucast_iff bit_drop_bit_eq bit_bits_value br_cell_def)
  next
    case False
    then have "\<not> bit (br_buf r) (64 - n + j)"
      using assms(4) bit_imp_le_length [of "br_buf r" "64 - n + j"] by auto
    then show ?thesis using False len by (simp add: bit_ucast_iff bit_drop_bit_eq bit_bits_value)
  qed
qed

lemma br_enough:
  assumes "br_ok r" "n \<le> 56"
  shows "n \<le> br_bits (br_fill r) \<longleftrightarrow> n \<le> length (br_rest r)"
proof -
  have ok: "br_ok (br_fill r)" "br_rest (br_fill r) = br_rest r" using br_fill_spec [OF assms(1)] by auto
  have len: "length (br_rest r) = br_bits (br_fill r) + (length (br_data r) - br_pos (br_fill r)) * 8"
    using length_br_rest [OF ok(1)] ok(2) by (simp add: br_bits_remaining_def)
  then show ?thesis using br_fill_spec [OF assms(1)] assms(2) by auto
qed

lemma br_peek_bits_spec:
  assumes "br_ok r" "n \<le> 32"
  shows "br_peek_bits n r =
    (if n \<le> length (br_rest r) then Inr (bits_value (take n (br_rest r))) else Inl END_OF_DATA,
     if n = 0 then r else br_fill r)"
proof (cases "n = 0")
  case False
  have ok: "br_ok (br_fill r)" "br_rest (br_fill r) = br_rest r" using br_fill_spec [OF assms(1)] by auto
  have "br_bits (br_fill r) \<le> br_bits_remaining (br_fill r)" by (simp add: br_bits_remaining_def)
  then show ?thesis
    using False br_enough [OF assms(1), of n] assms(2) br_buffered [OF ok(1), of n, where 'a = 32] ok(2)
    by (auto simp: br_peek_bits_def Let_def)
qed (simp add: br_peek_bits_def)

lemma br_skip_buffered:
  assumes "br_ok r" "n < br_bits r"
  shows "br_ok (r\<lparr>br_buf := push_bit n (br_buf r), br_bits := br_bits r - n\<rparr>) \<and>
    br_rest (r\<lparr>br_buf := push_bit n (br_buf r), br_bits := br_bits r - n\<rparr>) = drop n (br_rest r)"
proof -
  let ?r = "r\<lparr>br_buf := push_bit n (br_buf r), br_bits := br_bits r - n\<rparr>"
  note d = br_okD [OF assms(1)]
  have "br_pos r * 8 - (br_bits r - n) = br_pos r * 8 - br_bits r + n" using d(2) assms(2) by simp
  then have rest: "br_rest ?r = drop n (br_rest r)"
    by (simp add: br_rest_def br_consumed_bits_def add.commute)
  have len: "n < length (br_rest r)" using assms by (simp add: length_br_rest br_bits_remaining_def)
  have cell: "br_cell ?r i = br_cell r (i + n)" for i
    using len by (auto simp: br_cell_def rest add.commute)
  have bit: "bit (br_buf ?r) (63 - i) = (i + n < 64 \<and> bit (br_buf r) (63 - (i + n)))" if "i < 64" for i
  proof (cases "i + n < 64")
    case True
    then have "63 - i - n = 63 - (i + n)" "n \<le> 63 - i" "63 - i < 64" by auto
    then show ?thesis using True by (simp add: bit_push_bit_iff)
  next
    case False
    then have "63 - i < n" using that by linarith
    then show ?thesis using False by (simp add: bit_push_bit_iff)
  qed
  have "br_ok ?r"
    unfolding br_ok_def
  proof (intro conjI allI impI)
    show "br_bits ?r \<le> 64" "br_bits ?r \<le> 8 * br_pos ?r" "br_pos ?r \<le> length (br_data ?r)"
      using d(1-3) by auto
    fix i :: nat assume i: "i < 64"
    show "bit (br_buf ?r) (63 - i) = br_cell ?r i" if "i < br_bits ?r"
    proof -
      have "i + n < 64" "i + n < br_bits r" using that d(1) by auto
      then show ?thesis using d(4) [of "i + n"] bit [OF i] by (simp add: cell)
    qed
    show "br_cell ?r i" if "bit (br_buf ?r) (63 - i)"
      using that bit [OF i] d(5) [of "i + n"] by (simp add: cell)
  qed
  then show ?thesis using rest by simp
qed

lemma br_skip_bits_spec:
  assumes ok: "br_ok r" and "n \<le> 56"
  shows "br_ok (br_skip_bits n r) \<and> br_rest (br_skip_bits n r) = drop n (br_rest r)"
proof (cases "n = 0")
  case True
  then show ?thesis using ok by (simp add: br_skip_bits_def)
next
  case False
  define r' where "r' = (if br_bits r < n then br_fill r else r)"
  have ok': "br_ok r'" "br_rest r' = br_rest r" "br_data r' = br_data r"
    using br_fill_spec [OF ok] ok by (auto simp: r'_def)
  have empty: "br_pos r' = length (br_data r')" if "br_bits r' < n"
    using that br_fill_spec [OF ok] assms(2) by (auto simp: r'_def split: if_splits)
  show ?thesis
  proof (cases "br_bits r' \<le> n")
    case True
    let ?r = "r'\<lparr>br_buf := 0, br_bits := 0\<rparr>"
    have "br_rest ?r = drop (br_bits r') (br_rest r')"
      using br_okD(2) [OF ok'(1)] by (simp add: br_rest_def br_consumed_bits_def)
    also have "\<dots> = drop n (br_rest r')"
      using True empty length_br_rest [OF ok'(1)]
      by (cases "br_bits r' = n") (auto simp: br_bits_remaining_def)
    finally have "br_rest ?r = drop n (br_rest r')" .
    moreover have "br_ok ?r" using br_okD(3) [OF ok'(1)] by (simp add: br_ok_def)
    ultimately show ?thesis using False True ok' by (simp add: br_skip_bits_def r'_def [symmetric] Let_def)
  next
    case big: False
    then show ?thesis
      using br_skip_buffered [OF ok'(1), of n] False ok' by (simp add: br_skip_bits_def r'_def [symmetric] Let_def)
  qed
qed

lemma br_read_narrow_spec:
  assumes "br_ok r" "n \<le> 32"
  shows "if n \<le> length (br_rest r)
    then \<exists>r'. br_read_narrow n r = (Inr (bits_value (take n (br_rest r))), r') \<and> br_ok r' \<and>
           br_rest r' = drop n (br_rest r) \<and> br_data r' = br_data r
    else \<exists>r'. br_read_narrow n r = (Inl END_OF_DATA, r') \<and> br_ok r' \<and> br_rest r' = br_rest r \<and>
           br_data r' = br_data r"
proof (cases "n = 0")
  case True
  then show ?thesis using assms by (simp add: br_read_narrow_def)
next
  case False
  have ok: "br_ok (br_fill r)" "br_rest (br_fill r) = br_rest r" using br_fill_spec [OF assms(1)] by auto
  show ?thesis
    using False assms br_peek_bits_spec [OF assms] br_skip_bits_spec [OF ok(1), of n] ok
    by (simp add: br_read_narrow_def sbind_def)
qed

lemma bits_value_take_mask:
  assumes "length bs = k" "k \<le> 16"
  shows "bits_value bs AND (push_bit k 1 - 1) = (bits_value bs :: u32)"
proof -
  have "push_bit k 1 - 1 = (mask k :: u32)" by (simp add: mask_eq_exp_minus_1 push_bit_eq_mult)
  moreover have "take_bit k (bits_value bs) = (bits_value bs :: u32)"
    using assms by (intro bit_word_eqI) (auto simp: bit_simps bit_bits_value)
  ultimately show ?thesis by (simp add: take_bit_eq_mask)
qed

lemma br_read_wide_spec:
  assumes "br_ok r"
  shows "if n \<le> length (br_rest r)
    then \<exists>r'. br_read_wide n v r = (Inr (push_bit n v OR bits_value (take n (br_rest r))), r') \<and> br_ok r' \<and>
           br_rest r' = drop n (br_rest r) \<and> br_data r' = br_data r
    else \<exists>r'. br_read_wide n v r = (Inl END_OF_DATA, r') \<and> br_ok r' \<and> br_data r' = br_data r"
  using assms
proof (induction n arbitrary: v r rule: less_induct)
  case (less n)
  show ?case
  proof (cases "n = 0")
    case True
    then show ?thesis using less(2) by (simp add: br_read_wide.simps [of 0 v])
  next
    case False
    define k where "k = min n 16"
    have k: "0 < k" "k \<le> 16" "k \<le> n" using False by (auto simp: k_def)
    note narrow = br_read_narrow_spec [OF less(2), of k]
    let ?bs = "take k (br_rest r)"
    let ?v = "push_bit k v OR bits_value ?bs"
    show ?thesis
    proof (cases "k \<le> length (br_rest r)")
      case short: False
      then show ?thesis
        using narrow k False by (auto simp: br_read_wide.simps [of n v] k_def [symmetric] Let_def sbind_def)
    next
      case enough: True
      with narrow k(2) obtain r1 where r1: "br_read_narrow k r = (Inr (bits_value ?bs), r1)" "br_ok r1"
          "br_rest r1 = drop k (br_rest r)" "br_data r1 = br_data r" by auto
      have step: "br_read_wide n v r = br_read_wide (n - k) ?v r1"
        using False r1(1) enough k(2) bits_value_take_mask [of ?bs k]
        by (simp add: br_read_wide.simps [of n v] k_def [symmetric] Let_def sbind_def)
      have IH: "if n - k \<le> length (br_rest r1)
        then \<exists>r'. br_read_wide (n - k) ?v r1 = (Inr (push_bit (n - k) ?v OR bits_value (take (n - k) (br_rest r1))), r') \<and>
               br_ok r' \<and> br_rest r' = drop (n - k) (br_rest r1) \<and> br_data r' = br_data r1
        else \<exists>r'. br_read_wide (n - k) ?v r1 = (Inl END_OF_DATA, r') \<and> br_ok r' \<and> br_data r' = br_data r1"
        using less(1) [of "n - k" r1 ?v] k r1(2) by simp
      have join: "push_bit (n - k) ?v OR bits_value (take (n - k) (br_rest r1)) =
          push_bit n v OR bits_value (take n (br_rest r))" if "n \<le> length (br_rest r)"
      proof -
        have "take n (br_rest r) = ?bs @ take (n - k) (br_rest r1)"
          using take_add [of k "n - k" "br_rest r"] k(3) r1(3) by simp
        moreover have "length (take (n - k) (br_rest r1)) = n - k" using that k(3) r1(3) by simp
        ultimately have "bits_value (take n (br_rest r)) =
            push_bit (n - k) (bits_value ?bs) OR (bits_value (take (n - k) (br_rest r1)) :: u32)"
          by (simp only: bits_value_append)
        then show ?thesis using k(3) by (simp add: push_bit_or or.assoc)
      qed
      have len: "n - k \<le> length (br_rest r1) \<longleftrightarrow> n \<le> length (br_rest r)"
        "drop (n - k) (br_rest r1) = drop n (br_rest r)"
        using k(3) enough r1(3) by auto
      show ?thesis
        using IH by (cases "n \<le> length (br_rest r)") (simp_all only: step len join r1(4) if_True if_False)
    qed
  qed
qed

lemma br_read_bits_spec:
  assumes "br_ok r"
  shows "if n \<le> length (br_rest r)
    then \<exists>r'. br_read_bits n r = (Inr (bits_value (take n (br_rest r))), r') \<and> br_ok r' \<and>
           br_rest r' = drop n (br_rest r) \<and> br_data r' = br_data r
    else \<exists>r'. br_read_bits n r = (Inl END_OF_DATA, r') \<and> br_ok r' \<and> br_data r' = br_data r"
  using br_read_narrow_spec [OF assms, of n] br_read_wide_spec [OF assms, of n 0]
  by (cases "n \<le> 32") (auto simp: br_read_bits_def split: if_splits)

text \<open>The reader as a bit source; a failing read is reported without the reader's state.\<close>

definition br_read :: "nat \<Rightarrow> bitreader \<Rightarrow> string + (u32 \<times> bitreader)" where
  "br_read n r = (case br_read_bits n r of (Inl e, _) \<Rightarrow> Inl e | (Inr v, r') \<Rightarrow> Inr (v, r'))"

interpretation br: bit_source br_rest br_read 255 br_ok
proof unfold_locales
  fix r n assume "br_ok r" "n \<le> 255" "n \<le> length (br_rest r)"
  then show "\<exists>r'. br_read n r = Inr (bits_value (take n (br_rest r)), r') \<and> br_ok r' \<and> br_rest r' = drop n (br_rest r)"
    using br_read_bits_spec [of r n] by (auto simp: br_read_def)
next
  fix r n assume "br_ok r" "n \<le> 255" "length (br_rest r) < n"
  then show "\<exists>e. br_read n r = Inl e"
    using br_read_bits_spec [of r n] by (auto simp: br_read_def)
qed

lemma br_read_bits_u64_spec:
  assumes "br_ok r" "n \<le> 64"
  shows "if n \<le> length (br_rest r)
    then \<exists>r'. br_read_bits_u64 n r = (Inr (bits_value (take n (br_rest r))), r') \<and> br_ok r' \<and>
           br_rest r' = drop n (br_rest r) \<and> br_data r' = br_data r
    else \<exists>r'. br_read_bits_u64 n r = (Inl END_OF_DATA, r') \<and> br_ok r' \<and> br_data r' = br_data r"
proof -
  have widen: "(ucast (bits_value bs :: u32) :: u64) = bits_value bs" if "length bs \<le> 32" for bs
    using that by (intro bit_word_eqI) (auto simp: bit_simps bit_bits_value)
  show ?thesis
  proof (cases "32 < n")
    case False
    then show ?thesis
      using br_read_bits_spec [OF assms(1), of n] widen [of "take n (br_rest r)"]
      by (auto simp: br_read_bits_u64_def sbind_def split: if_splits)
  next
    case True
    let ?m = "n - 32"
    note high = br_read_bits_spec [OF assms(1), of ?m]
    show ?thesis
    proof (cases "?m \<le> length (br_rest r)")
      case short: False
      then show ?thesis using high True by (auto simp: br_read_bits_u64_def sbind_def)
    next
      case enough: True
      with high obtain r1 where r1: "br_read_bits ?m r = (Inr (bits_value (take ?m (br_rest r))), r1)" "br_ok r1"
          "br_rest r1 = drop ?m (br_rest r)" "br_data r1 = br_data r" by auto
      note low = br_read_bits_spec [OF r1(2), of 32]
      have len: "32 \<le> length (br_rest r1) \<longleftrightarrow> n \<le> length (br_rest r)"
        "drop 32 (br_rest r1) = drop n (br_rest r)"
        using True enough r1(3) by auto
      have join: "push_bit 32 (bits_value (take ?m (br_rest r))) OR bits_value (take 32 (br_rest r1)) =
          (bits_value (take n (br_rest r)) :: u64)" if "n \<le> length (br_rest r)"
      proof -
        have "take n (br_rest r) = take ?m (br_rest r) @ take 32 (br_rest r1)"
          using take_add [of ?m 32 "br_rest r"] True r1(3) by simp
        moreover have "length (take 32 (br_rest r1)) = 32" using that len by simp
        ultimately show ?thesis by (simp only: bits_value_append)
      qed
      show ?thesis
        using low widen [of "take ?m (br_rest r)"] widen [of "take 32 (br_rest r1)"] True r1 assms(2) join len
        by (auto simp: br_read_bits_u64_def sbind_def split: if_splits)
    qed
  qed
qed

section \<open>Positions and bytes\<close>

lemma br_position:
  "br_ok r \<Longrightarrow> br_byte_position r * 8 + br_bit_position r = br_consumed_bits r"
proof -
  assume "br_ok r"
  then have le: "br_bits r \<le> 8 * br_pos r" by (rule br_okD)
  have "p * 8 - b = (p - (b + 7) div 8) * 8 + (8 - b mod 8) mod 8" if "b \<le> 8 * p" for p b :: nat
  proof (cases "b mod 8 = 0")
    case True
    then obtain c where "b = 8 * c" by (metis mod_0_imp_dvd dvdE)
    then show ?thesis by (simp add: diff_mult_distrib)
  next
    case False
    define c where "c = b div 8"
    have b: "b = 8 * c + b mod 8" by (simp add: c_def)
    then have "(b + 7) div 8 = Suc c" using False by linarith
    moreover have "c < p" using that b False by linarith
    ultimately show ?thesis using False b by (simp add: diff_mult_distrib)
  qed
  from this [OF le] show ?thesis
    by (simp add: br_byte_position_def br_bit_position_def br_consumed_bits_def)
qed

lemma br_align_spec:
  assumes "br_ok r"
  shows "br_ok (br_align r) \<and> br_bits (br_align r) mod 8 = 0 \<and>
    br_rest (br_align r) = drop (br_bits r mod 8) (br_rest r) \<and> br_data (br_align r) = br_data r"
proof (cases "br_bits r mod 8 = 0")
  case True
  then show ?thesis using assms by (simp add: br_align_def)
next
  case False
  let ?n = "br_bits r mod 8"
  have n: "0 < ?n" "?n \<le> br_bits r" "?n < 8" using False by auto
  have "br_bits (br_skip_bits ?n r) = br_bits r - ?n"
  proof -
    have "\<not> br_bits r < ?n" using n(2) by linarith
    then show ?thesis using n(1) by (auto simp: br_skip_bits_def Let_def)
  qed
  then show ?thesis
    using False n br_skip_bits_spec [OF assms, of ?n] by (simp add: br_align_def minus_mod_eq_mult_div)
qed

text \<open>Aligning drops what is left of the byte the reader stands in.\<close>

lemma br_align_rest:
  assumes "br_ok r"
  shows "br_rest (br_align r) = stream_bits (drop ((br_consumed_bits r + 7) div 8) (br_data r))"
    and "br_byte_position (br_align r) = (br_consumed_bits r + 7) div 8"
proof -
  let ?a = "br_align r"
  have a: "br_ok ?a" "br_bits ?a mod 8 = 0" "br_data ?a = br_data r" using br_align_spec [OF assms] by auto
  then obtain c where c: "br_bits ?a = 8 * c" by (metis mod_0_imp_dvd dvdE)
  have le: "br_bits r \<le> 8 * br_pos r" by (rule br_okD [OF assms])
  have pos: "br_pos ?a = br_pos r" "br_bits ?a = br_bits r - br_bits r mod 8"
  proof -
    have "br_bits r mod 8 \<le> br_bits r" by simp
    then have "\<not> br_bits r < br_bits r mod 8" by linarith
    then show "br_pos ?a = br_pos r" "br_bits ?a = br_bits r - br_bits r mod 8"
      by (auto simp: br_align_def br_skip_bits_def Let_def)
  qed
  have "(br_consumed_bits r + 7) div 8 = br_pos r - c" "br_consumed_bits ?a = 8 * (br_pos r - c)"
  proof -
    have "8 * c = br_bits r - br_bits r mod 8" using c pos by simp
    then have b: "br_bits r = 8 * c + br_bits r mod 8" "br_bits r mod 8 < 8" by simp_all
    show "br_consumed_bits ?a = 8 * (br_pos r - c)"
      using c pos le by (simp add: br_consumed_bits_def diff_mult_distrib2)
    have ceil: "(p * 8 - (8 * c + m) + 7) div 8 = p - c" if "m < 8" "8 * c + m \<le> 8 * p" for p m :: nat
    proof -
      have "p * 8 - (8 * c + m) + 7 = 8 * (p - c) + (7 - m)"
        using that by (simp add: diff_mult_distrib2)
      moreover have "(7 - m) div 8 = 0" by simp
      ultimately show ?thesis by simp
    qed
    show "(br_consumed_bits r + 7) div 8 = br_pos r - c"
    proof -
      obtain m where m: "br_bits r = 8 * c + m" "m < 8" using b by blast
      show ?thesis using ceil [OF m(2), of "br_pos r"] le by (simp add: br_consumed_bits_def m(1))
    qed
  qed
  then show "br_rest ?a = stream_bits (drop ((br_consumed_bits r + 7) div 8) (br_data r))"
    using a(3) by (simp add: br_rest_def drop_stream_bits)
  show "br_byte_position ?a = (br_consumed_bits r + 7) div 8"
  proof -
    have "(br_bits ?a + 7) div 8 = c" unfolding c by simp
    then show ?thesis
      by (simp only: br_byte_position_def pos(1) \<open>(br_consumed_bits r + 7) div 8 = br_pos r - c\<close>)
  qed
qed

lemma br_set_position_spec:
  assumes "byte_pos \<le> length (br_data r)" "bit_pos < 8"
  shows "br_ok (br_set_position byte_pos bit_pos r) \<and> br_data (br_set_position byte_pos bit_pos r) = br_data r \<and>
    (byte_pos * 8 + bit_pos \<le> 8 * length (br_data r) \<longrightarrow>
     br_rest (br_set_position byte_pos bit_pos r) = drop (byte_pos * 8 + bit_pos) (stream_bits (br_data r)))"
proof -
  let ?r = "r\<lparr>br_pos := byte_pos, br_buf := 0, br_bits := 0\<rparr>"
  have ok: "br_ok ?r" "br_rest ?r = drop (byte_pos * 8) (stream_bits (br_data r))"
    using assms by (simp_all add: br_ok_def br_rest_def br_consumed_bits_def)
  have f: "br_ok (br_fill ?r)" "br_rest (br_fill ?r) = br_rest ?r" using br_fill_spec [OF ok(1)] by auto
  have enough: "bit_pos \<le> br_bits (br_fill ?r) \<longleftrightarrow> byte_pos * 8 + bit_pos \<le> 8 * length (br_data r)"
    using br_enough [OF ok(1), of bit_pos] assms ok(2) by auto
  have skip: "br_ok (br_skip_bits bit_pos (br_fill ?r))"
    "br_rest (br_skip_bits bit_pos (br_fill ?r)) = drop (byte_pos * 8 + bit_pos) (stream_bits (br_data r))"
    using br_skip_bits_spec [OF f(1), of bit_pos] f(2) ok(2) assms(2) by (simp_all add: add.commute)
  show ?thesis
  proof (cases "bit_pos = 0")
    case True
    then show ?thesis using ok by (simp add: br_set_position_def)
  next
    case False
    then show ?thesis using f(1) enough skip by (simp add: br_set_position_def Let_def)
  qed
qed

lemma bits_value_byte_bits [simp]: "bits_value (byte_bits b) = b"
proof (rule bit_word_eqI)
  show "bit (bits_value (byte_bits b) :: byte) n = bit b n" if "n < LENGTH(8)" for n
    using that by (simp add: bit_bits_value nth_byte_bits)
qed

lemma br_read_byte_spec:
  fixes r defines "k \<equiv> (br_consumed_bits r + 7) div 8"
  assumes "br_ok r"
  shows "br_ok (snd (br_read_byte r)) \<and> br_data (snd (br_read_byte r)) = br_data r \<and>
    (if k < length (br_data r)
     then fst (br_read_byte r) = Inr (br_data r ! k) \<and> br_rest (snd (br_read_byte r)) = stream_bits (drop (Suc k) (br_data r))
     else fst (br_read_byte r) = Inl END_OF_DATA)"
proof -
  have a: "br_ok (br_align r)" "br_data (br_align r) = br_data r"
    "br_rest (br_align r) = stream_bits (drop k (br_data r))"
    using br_align_spec [OF assms(2)] br_align_rest(1) [OF assms(2)] by (auto simp: k_def)
  let ?f = "br_fill (br_align r)"
  have f: "br_ok ?f" "br_rest ?f = stream_bits (drop k (br_data r))" "br_data ?f = br_data r"
    using br_fill_spec [OF a(1)] a by auto
  have enough: "8 \<le> br_bits ?f \<longleftrightarrow> k < length (br_data r)"
    using br_enough [OF a(1), of 8] a(3) by auto
  show ?thesis
  proof (cases "k < length (br_data r)")
    case True
    have "drop k (br_data r) = br_data r ! k # drop (Suc k) (br_data r)"
      using True by (simp add: Cons_nth_drop_Suc)
    then have split: "br_rest ?f = byte_bits (br_data r ! k) @ stream_bits (drop (Suc k) (br_data r))"
      using f(2) by (simp add: stream_bits_Cons)
    have "(ucast (drop_bit 56 (br_buf ?f)) :: byte) = bits_value (take 8 (br_rest ?f))"
      using br_buffered [OF f(1), of 8, where 'a = 8] enough True by simp
    then have "(ucast (drop_bit 56 (br_buf ?f)) :: byte) = br_data r ! k"
      by (simp add: split)
    then show ?thesis
      using True enough br_skip_bits_spec [OF f(1), of 8] f(3) split by (simp add: br_read_byte_def Let_def)
  next
    case False
    then show ?thesis using enough f by (simp add: br_read_byte_def Let_def)
  qed
qed

lemma br_read_bytes_spec:
  fixes r defines "k \<equiv> (br_consumed_bits r + 7) div 8"
  assumes "br_ok r"
  shows "br_ok (snd (br_read_bytes n r)) \<and> br_data (snd (br_read_bytes n r)) = br_data r \<and>
    (if k + n \<le> length (br_data r)
     then fst (br_read_bytes n r) = Inr (take n (drop k (br_data r))) \<and>
       br_rest (snd (br_read_bytes n r)) = stream_bits (drop (k + n) (br_data r))
     else fst (br_read_bytes n r) = Inl END_OF_DATA)"
proof -
  have a: "br_ok (br_align r)" "br_data (br_align r) = br_data r" "br_byte_position (br_align r) = k"
    using br_align_spec [OF assms(2)] br_align_rest(2) [OF assms(2)] by (auto simp: k_def)
  show ?thesis
    using a br_set_position_spec [of "k + n" "br_align r" 0]
    by (auto simp: br_read_bytes_def Let_def not_less drop_stream_bits [symmetric] mult.commute [of _ 8])
qed

text \<open>What each operation costs, whatever the state of the reader.\<close>

lemma br_skip_remaining: "br_bits_remaining (br_skip_bits n r) \<le> br_bits_remaining r"
proof -
  define r' where "r' = (if br_bits r < n then br_fill r else r)"
  have "br_bits_remaining r' = br_bits_remaining r" by (simp add: r'_def br_fill_remaining)
  moreover have "br_bits_remaining (r'\<lparr>br_buf := w, br_bits := b\<rparr>) \<le> br_bits_remaining r'"
    if "b \<le> br_bits r'" for w b using that by (simp add: br_bits_remaining_def)
  ultimately show ?thesis
    by (auto simp: br_skip_bits_def r'_def [symmetric] Let_def)
qed

lemma br_skip_remaining_less:
  assumes "0 < n" "0 < br_bits r"
  shows "br_bits_remaining (br_skip_bits n r) < br_bits_remaining r"
proof (cases "br_bits r < n")
  case False
  then show ?thesis using assms by (auto simp: br_skip_bits_def Let_def br_bits_remaining_def)
next
  case True
  let ?f = "br_fill r"
  have "0 < br_bits ?f"
    using assms(2)
  proof (induction r rule: br_fill.induct)
    case (1 r)
    then show ?case by (subst br_fill.simps) (auto simp: Let_def)
  qed
  moreover have "br_bits_remaining (?f\<lparr>br_buf := w, br_bits := b\<rparr>) < br_bits_remaining ?f"
    if "b < br_bits ?f" for w b using that by (simp add: br_bits_remaining_def)
  ultimately show ?thesis
    using True assms br_fill_remaining [of r] by (auto simp: br_skip_bits_def Let_def)
qed

lemma pays_br_peek_bits: "pays br_bits_remaining 0 (br_peek_bits n)"
  by (auto simp: pays_def br_peek_bits_def Let_def br_fill_remaining)

lemma pays_br_read_narrow: "pays br_bits_remaining 0 (br_read_narrow n)"
proof -
  have "pays br_bits_remaining 0 (\<lambda>r. (Inr v, br_skip_bits n r))" for v
    by (simp add: pays_def br_skip_remaining)
  from pays_sbind [OF pays_br_peek_bits this] show ?thesis
    by (auto simp: br_read_narrow_def)
qed

lemma pays_br_read_wide: "pays br_bits_remaining 0 (br_read_wide n v)"
proof (induction n arbitrary: v rule: less_induct)
  case (less n)
  show ?case
  proof (cases "n = 0")
    case True
    then show ?thesis by (simp add: br_read_wide.simps [of 0 v] pays_def)
  next
    case False
    have "pays br_bits_remaining 0 (br_read_wide (n - min n 16) w)" for w
      using less [of "n - min n 16" w] False by simp
    from pays_sbind [OF pays_br_read_narrow this] False show ?thesis
      by (simp add: br_read_wide.simps [of n v] Let_def)
  qed
qed

lemma pays_br_read_bits: "pays br_bits_remaining 0 (br_read_bits n)"
  by (simp add: br_read_bits_def pays_br_read_narrow pays_br_read_wide)

lemma pays_br_read_bits_u64: "pays br_bits_remaining 0 (br_read_bits_u64 n)"
proof -
  note read = pays_br_read_bits
  have low: "pays br_bits_remaining (0 + 0) (sbind (br_read_bits 32) (\<lambda>low. sreturn (f low)))" for f :: "u32 \<Rightarrow> u64"
    by (rule pays_sbind) (simp_all add: read)
  have "pays br_bits_remaining (0 + 0) (sbind (br_read_bits n) (\<lambda>low. sreturn (f low)))" for f :: "u32 \<Rightarrow> u64"
    by (rule pays_sbind) (simp_all add: read)
  moreover have "pays br_bits_remaining (0 + 0)
      (sbind (br_read_bits (n - 32)) (\<lambda>high. sbind (br_read_bits 32) (\<lambda>low. sreturn (g high low))))"
    for g :: "u32 \<Rightarrow> u32 \<Rightarrow> u64"
    using low by (intro pays_sbind) (simp_all add: read)
  ultimately show ?thesis by (simp add: br_read_bits_u64_def)
qed

section \<open>The writer\<close>

text \<open>
  \<open>bw_bit_pos\<close> counts the bits already in the partial byte. It stays below 8
  (\<open>bw_write_ok\<close>); the loop asks for it only so that it is a total function.
\<close>

record bitwriter =
  bw_buf :: "byte list"
  bw_current :: byte
  bw_bit_pos :: nat

definition bw_new :: bitwriter where
  "bw_new = \<lparr>bw_buf = [], bw_current = 0, bw_bit_pos = 0\<rparr>"

definition bw_put :: "u32 \<Rightarrow> nat \<Rightarrow> bitwriter \<Rightarrow> bitwriter" where
  "bw_put value remaining w =
     (let avail = 8 - bw_bit_pos w;
          k = min avail remaining;
          bits = ucast (drop_bit (remaining - k) value AND (push_bit k 1 - 1)) :: byte;
          current = bw_current w OR push_bit (avail - k) bits;
          bit_pos = bw_bit_pos w + k in
      if 8 \<le> bit_pos then w\<lparr>bw_buf := bw_buf w @ [current], bw_current := 0, bw_bit_pos := 0\<rparr>
      else w\<lparr>bw_current := current, bw_bit_pos := bit_pos\<rparr>)"

function bw_write_bits :: "u32 \<Rightarrow> nat \<Rightarrow> bitwriter \<Rightarrow> bitwriter" where
  "bw_write_bits value remaining w =
     (if 0 < remaining \<and> bw_bit_pos w < 8
      then bw_write_bits value (remaining - min (8 - bw_bit_pos w) remaining) (bw_put value remaining w)
      else w)"
  by pat_completeness auto
termination
  by (relation "measure (\<lambda>(value, remaining, w). remaining)") auto

declare bw_write_bits.simps [simp del]

definition bw_flush_align :: "bitwriter \<Rightarrow> bitwriter" where
  "bw_flush_align w =
     (if 0 < bw_bit_pos w then w\<lparr>bw_buf := bw_buf w @ [bw_current w], bw_current := 0, bw_bit_pos := 0\<rparr> else w)"

definition bw_bit_count :: "bitwriter \<Rightarrow> nat" where
  "bw_bit_count w = length (bw_buf w) * 8 + bw_bit_pos w"

definition bw_into_bytes :: "bitwriter \<Rightarrow> byte list" where
  "bw_into_bytes w = bw_buf (bw_flush_align w)"

text \<open>Handing over the complete bytes (the pair is what the sink receives and what is kept).\<close>

definition bw_drain_to :: "bitwriter \<Rightarrow> byte list \<times> bitwriter" where
  "bw_drain_to w = (bw_buf w, w\<lparr>bw_buf := []\<rparr>)"

definition bw_finish_to :: "bitwriter \<Rightarrow> byte list \<times> bitwriter" where
  "bw_finish_to w = bw_drain_to (bw_flush_align w)"

text \<open>The bits written so far; those of the partial byte still to come are clear.\<close>

definition bw_bits :: "bitwriter \<Rightarrow> bool list" where
  "bw_bits w = stream_bits (bw_buf w) @ take (bw_bit_pos w) (byte_bits (bw_current w))"

definition bw_ok :: "bitwriter \<Rightarrow> bool" where
  "bw_ok w \<longleftrightarrow> bw_bit_pos w < 8 \<and> (\<forall>i<8 - bw_bit_pos w. \<not> bit (bw_current w) i)"

text \<open>The bits of a field: the low \<open>n\<close> bits of the value, high one first.\<close>

definition field_bits :: "nat \<Rightarrow> u32 \<Rightarrow> bool list" where
  "field_bits n v = map (\<lambda>i. bit v (n - Suc i)) [0..<n]"

lemma length_field_bits [simp]: "length (field_bits n v) = n"
  by (simp add: field_bits_def)

lemma field_bits_value: "n \<le> 32 \<Longrightarrow> bits_value (field_bits n v) = take_bit n v"
  by (rule bit_word_eqI) (auto simp: bit_simps bit_bits_value field_bits_def)

lemma field_bits_split:
  "k \<le> n \<Longrightarrow> field_bits n v = field_bits k (drop_bit (n - k) v) @ field_bits (n - k) v"
  by (rule nth_equalityI) (auto simp: field_bits_def nth_append bit_drop_bit_eq)

lemma bw_new_ok [simp]: "bw_ok bw_new" "bw_bits bw_new = []"
  by (simp_all add: bw_ok_def bw_new_def bw_bits_def)

lemma length_bw_bits: "bw_ok w \<Longrightarrow> length (bw_bits w) = bw_bit_count w"
  by (simp add: bw_bits_def bw_bit_count_def bw_ok_def)

lemma bw_put_spec:
  assumes ok: "bw_ok w" and "0 < n"
  defines "k \<equiv> min (8 - bw_bit_pos w) n"
  shows "bw_ok (bw_put v n w) \<and> bw_bits (bw_put v n w) = bw_bits w @ field_bits k (drop_bit (n - k) v)"
proof -
  let ?p = "bw_bit_pos w" and ?x = "drop_bit (n - k) v"
  have p: "?p < 8" "0 < k" "?p + k \<le> 8" using ok assms(2) by (auto simp: bw_ok_def k_def)
  let ?bits = "ucast (?x AND (push_bit k 1 - 1)) :: byte"
  let ?c = "bw_current w OR push_bit (8 - ?p - k) ?bits"
  have bits: "bit ?bits i \<longleftrightarrow> i < k \<and> bit ?x i" for i
  proof -
    have "push_bit k 1 - 1 = (mask k :: u32)" by (simp add: mask_eq_exp_minus_1 push_bit_eq_mult)
    moreover have "i < 8" if "i < k" using that p by simp
    ultimately show ?thesis by (auto simp: bit_simps)
  qed
  have c: "bit ?c i \<longleftrightarrow> bit (bw_current w) i \<or> (8 - ?p - k \<le> i \<and> i < 8 - ?p \<and> bit ?x (i - (8 - ?p - k)))" for i
    using p by (simp only: bit_or_iff bit_push_bit_iff bits) auto
  have low: "\<not> bit (bw_current w) i" if "i < 8 - ?p" for i using ok that by (simp add: bw_ok_def)
  have tk: "take (?p + k) (byte_bits ?c) = take ?p (byte_bits (bw_current w)) @ field_bits k ?x"
  proof (rule nth_equalityI)
    show "length (take (?p + k) (byte_bits ?c)) = length (take ?p (byte_bits (bw_current w)) @ field_bits k ?x)"
      using p by simp
    fix i assume "i < length (take (?p + k) (byte_bits ?c))"
    then have i: "i < ?p + k" "i < 8" using p by auto
    show "take (?p + k) (byte_bits ?c) ! i = (take ?p (byte_bits (bw_current w)) @ field_bits k ?x) ! i"
    proof (cases "i < ?p")
      case True
      then have "\<not> 7 - i < 8 - ?p" using i by linarith
      then show ?thesis using True i p c [of "7 - i"] by (simp add: nth_append nth_byte_bits)
    next
      case False
      then have "7 - i < 8 - ?p" "8 - ?p - k \<le> 7 - i" "7 - i - (8 - ?p - k) = k - Suc (i - ?p)" "i - ?p < k"
        using i p by linarith+
      then show ?thesis
        using False i p c [of "7 - i"] low [of "7 - i"] by (simp add: nth_append nth_byte_bits field_bits_def)
    qed
  qed
  have put: "bw_put v n w =
      (if 8 \<le> ?p + k then w\<lparr>bw_buf := bw_buf w @ [?c], bw_current := 0, bw_bit_pos := 0\<rparr>
       else w\<lparr>bw_current := ?c, bw_bit_pos := ?p + k\<rparr>)"
    by (simp add: bw_put_def Let_def k_def)
  show ?thesis
  proof (cases "8 \<le> ?p + k")
    case True
    then have "?p + k = 8" using p by simp
    then show ?thesis
      using tk by (simp add: put bw_ok_def bw_bits_def stream_bits_append stream_bits_Cons)
  next
    case False
    have "\<not> bit ?c i" if "i < 8 - (?p + k)" for i
      using that low [of i] by (simp only: c) auto
    then show ?thesis using False tk by (simp add: put bw_ok_def bw_bits_def del: take_append)
  qed
qed

lemma bw_write_bits_spec:
  "bw_ok w \<Longrightarrow> bw_ok (bw_write_bits v n w) \<and> bw_bits (bw_write_bits v n w) = bw_bits w @ field_bits n v"
proof (induction v n w rule: bw_write_bits.induct)
  case (1 v n w)
  show ?case
  proof (cases "n = 0")
    case True
    then show ?thesis using 1(2) by (simp add: bw_write_bits.simps [of v 0 w] field_bits_def)
  next
    case False
    let ?k = "min (8 - bw_bit_pos w) n"
    have pos: "0 < n \<and> bw_bit_pos w < 8" using False 1(2) by (simp add: bw_ok_def)
    note put = bw_put_spec [OF 1(2), of n v]
    have "bw_write_bits v n w = bw_write_bits v (n - ?k) (bw_put v n w)"
      using pos by (subst bw_write_bits.simps) simp
    then show ?thesis
      using 1(1) [OF pos] put pos field_bits_split [of ?k n v] by simp
  qed
qed

lemma bw_into_bytes_bits:
  assumes "bw_ok w"
  shows "\<exists>pad. stream_bits (bw_into_bytes w) = bw_bits w @ pad \<and> length pad < 8 \<and> True \<notin> set pad"
proof (cases "bw_bit_pos w = 0")
  case True
  then show ?thesis by (simp add: bw_into_bytes_def bw_flush_align_def bw_bits_def)
next
  case False
  let ?pad = "drop (bw_bit_pos w) (byte_bits (bw_current w))"
  have "stream_bits (bw_into_bytes w) = bw_bits w @ ?pad"
    using False by (simp add: bw_into_bytes_def bw_flush_align_def bw_bits_def stream_bits_append stream_bits_Cons)
  moreover have "\<not> ?pad ! i" if "i < length ?pad" for i
    using that assms by (auto simp: nth_byte_bits bw_ok_def)
  ultimately show ?thesis using False by (auto simp: in_set_conv_nth)
qed

section \<open>What is written is what is read\<close>

fun write_fields :: "(nat \<times> u32) list \<Rightarrow> bitwriter \<Rightarrow> bitwriter" where
  "write_fields [] w = w"
| "write_fields ((n, v) # fs) w = write_fields fs (bw_write_bits v n w)"

fun read_fields :: "nat list \<Rightarrow> bitreader \<Rightarrow> (string + u32 list) \<times> bitreader" where
  "read_fields [] = sreturn []"
| "read_fields (n # ns) =
     sbind (br_read_bits n) (\<lambda>v. sbind (read_fields ns) (\<lambda>vs. sreturn (v # vs)))"

lemma write_fields_bits:
  "bw_ok w \<Longrightarrow> bw_ok (write_fields fs w) \<and>
     bw_bits (write_fields fs w) = bw_bits w @ concat (map (\<lambda>(n, v). field_bits n v) fs)"
  by (induction fs w rule: write_fields.induct) (auto simp: bw_write_bits_spec)

lemma read_fields_bits:
  assumes "br_ok r" "br_rest r = concat (map (\<lambda>(n, v). field_bits n v) fs) @ rest" "\<forall>(n, v) \<in> set fs. n \<le> 32"
  shows "\<exists>r'. read_fields (map fst fs) r = (Inr (map (\<lambda>(n, v). take_bit n v) fs), r') \<and> br_ok r' \<and> br_rest r' = rest"
  using assms
proof (induction fs arbitrary: r)
  case Nil
  then show ?case by simp
next
  case (Cons f fs)
  obtain n v where f: "f = (n, v)" by (cases f)
  have n: "n \<le> 32" "n \<le> length (br_rest r)" using Cons.prems f by auto
  obtain r1 where r1: "br_read_bits n r = (Inr (take_bit n v), r1)" "br_ok r1"
      "br_rest r1 = concat (map (\<lambda>(n, v). field_bits n v) fs) @ rest"
    using br_read_bits_spec [OF Cons.prems(1), of n] n Cons.prems(2) f by (auto simp: field_bits_value)
  obtain r2 where "read_fields (map fst fs) r1 = (Inr (map (\<lambda>(n, v). take_bit n v) fs), r2)"
      "br_ok r2" "br_rest r2 = rest"
    using Cons.IH [OF r1(2,3)] Cons.prems(3) by auto
  with r1 show ?case by (auto simp: f sbind_def sreturn_def)
qed

text \<open>C24: Bit fields written with BitWriter, flushed to bytes and read back with BitReader come
  out as they went in, cut to their widths, whatever the mix of widths up to 32 bits and whatever
  bytes follow in the buffer.\<close>

theorem bit_fields_roundtrip:
  assumes "\<forall>(n, v) \<in> set fs. n \<le> 32"
  shows "fst (read_fields (map fst fs) (br_new (bw_into_bytes (write_fields fs bw_new) @ suffix))) =
    Inr (map (\<lambda>(n, v). take_bit n v) fs)"
proof -
  let ?w = "write_fields fs bw_new"
  have w: "bw_ok ?w" "bw_bits ?w = concat (map (\<lambda>(n, v). field_bits n v) fs)"
    using write_fields_bits [of bw_new fs] by auto
  obtain pad where "stream_bits (bw_into_bytes ?w) = bw_bits ?w @ pad"
    using bw_into_bytes_bits [OF w(1)] by blast
  then have "br_rest (br_new (bw_into_bytes ?w @ suffix)) =
      concat (map (\<lambda>(n, v). field_bits n v) fs) @ pad @ stream_bits suffix"
    by (simp add: stream_bits_append w(2))
  from read_fields_bits [OF br_new_ok this assms] show ?thesis by auto
qed

theorem bit_fields_roundtrip_witness:
  "fst (read_fields [3, 5, 16] (br_new (bw_into_bytes (write_fields [(3, 6), (5, 10), (16, 0xBEEF)] bw_new) @ [0xFF]))) =
    Inr [take_bit 3 6, take_bit 5 10, take_bit 16 0xBEEF]"
  using bit_fields_roundtrip [of "[(3, 6), (5, 10), (16, 0xBEEF)]" "[0xFF]"] by simp

text \<open>C23: The buffered reader of the RAR5 codec refines the plain bit list: at every point its
  position is the number of bits read, read_bits of any width returns the value of the next bits or
  reports the end of the data, and neither the eight-byte loads nor the stray bits they leave in the
  buffer are ever seen.\<close>

theorem buffered_reader_refines_bits:
  assumes "br_ok r"
  shows "br_byte_position r * 8 + br_bit_position r = br_consumed_bits r \<and>
    br_bits_remaining r = length (br_rest r) \<and>
    (if n \<le> length (br_rest r)
     then fst (br_read_bits n r) = Inr (bits_value (take n (br_rest r))) \<and> br_ok (snd (br_read_bits n r)) \<and>
       br_rest (snd (br_read_bits n r)) = drop n (br_rest r) \<and>
       br_consumed_bits (snd (br_read_bits n r)) = br_consumed_bits r + n
     else fst (br_read_bits n r) = Inl END_OF_DATA)"
proof (intro conjI)
  show "br_byte_position r * 8 + br_bit_position r = br_consumed_bits r" by (rule br_position [OF assms])
  show "br_bits_remaining r = length (br_rest r)" by (simp add: length_br_rest assms)
  note spec = br_read_bits_spec [OF assms, of n]
  show "if n \<le> length (br_rest r)
     then fst (br_read_bits n r) = Inr (bits_value (take n (br_rest r))) \<and> br_ok (snd (br_read_bits n r)) \<and>
       br_rest (snd (br_read_bits n r)) = drop n (br_rest r) \<and>
       br_consumed_bits (snd (br_read_bits n r)) = br_consumed_bits r + n
     else fst (br_read_bits n r) = Inl END_OF_DATA"
  proof (cases "n \<le> length (br_rest r)")
    case True
    with spec obtain r' where r': "br_read_bits n r = (Inr (bits_value (take n (br_rest r))), r')" "br_ok r'"
        "br_rest r' = drop n (br_rest r)" "br_data r' = br_data r" by auto
    with br_consumed_rest [OF assms] br_consumed_rest [OF r'(2)] True
    have "br_consumed_bits r' = br_consumed_bits r + n" by simp
    with r' True show ?thesis by simp
  qed (use spec in auto)
qed

theorem buffered_reader_refines_bits_witness:
  "fst (br_read_bits 12 (br_new [0xAB, 0xCD])) = Inr (bits_value (take 12 (stream_bits [0xAB, 0xCD])))"
  using buffered_reader_refines_bits [OF br_new_ok, where n = 12 and data1 = "[0xAB, 0xCD]"] by simp

end
