(* ===== verification/RingWindow.thy ===== *)
theory RingWindow
  imports Interfaces
begin

text \<open>
  The sliding window of the RAR5 codec (codec/common/window.rs): a ring of a power of two bytes
  with a write cursor. A match is copied by whole-slice moves where source and destination do not
  wrap, doubling the copied prefix when the match overlaps itself, and byte by byte otherwise; the
  ring can grow while it is in use. The window is measured against the stream it has received:
  \<open>win_keeps k w s\<close> says that the last \<open>k\<close> bytes of \<open>s\<close> can be read back.
\<close>

section \<open>The ring\<close>

record window =
  win_buf :: "byte list"
  win_mask :: nat
  win_pos :: nat
  win_total :: nat

definition win_new :: "nat \<Rightarrow> window" where
  "win_new cap = \<lparr>win_buf = replicate cap 0, win_mask = cap - 1, win_pos = 0, win_total = 0\<rparr>"

definition win_capacity :: "window \<Rightarrow> nat" where
  "win_capacity w = length (win_buf w)"

text \<open>\<open>usize::wrapping_sub\<close> on a 64-bit host.\<close>

definition usize_wrapping_sub :: "nat \<Rightarrow> nat \<Rightarrow> nat" where
  "usize_wrapping_sub a b = (a + (2 ^ 64 - b mod 2 ^ 64)) mod 2 ^ 64"

text \<open>
  \<open>append_output_into\<close>: the request may not exceed the ring (\<open>None\<close> is the failing
  assertion); a region that runs over the end of the ring is two slices.
\<close>

definition win_get_output :: "nat \<Rightarrow> nat \<Rightarrow> window \<Rightarrow> byte list option" where
  "win_get_output start_total n w =
     (if win_capacity w < n then None
      else let start_pos = usize_wrapping_sub (win_pos w) (win_total w - start_total) AND win_mask w in
        if start_pos + n \<le> win_capacity w then Some (take n (drop start_pos (win_buf w)))
        else Some (drop start_pos (win_buf w) @ take (n - (win_capacity w - start_pos)) (win_buf w)))"

definition win_append_output :: "nat \<Rightarrow> nat \<Rightarrow> window \<Rightarrow> byte list \<Rightarrow> byte list option" where
  "win_append_output start_total n w out = map_option (\<lambda>bs. out @ bs) (win_get_output start_total n w)"

definition win_put_byte :: "byte \<Rightarrow> window \<Rightarrow> window" where
  "win_put_byte b w =
     w\<lparr>win_buf := (win_buf w)[win_pos w := b], win_pos := (win_pos w + 1) AND win_mask w,
       win_total := win_total w + 1\<rparr>"

text \<open>\<open>slice::copy_within\<close> of \<open>n\<close> bytes: the source is read before anything is written.\<close>

definition copy_within :: "nat \<Rightarrow> nat \<Rightarrow> nat \<Rightarrow> byte list \<Rightarrow> byte list" where
  "copy_within src n dst buf = take dst buf @ take n (drop src buf) @ drop (dst + n) buf"

text \<open>The doubling of an overlapping copy (\<open>done\<close> is the distance at the start, so never 0).\<close>

function double_loop :: "nat \<Rightarrow> nat \<Rightarrow> nat \<Rightarrow> byte list \<Rightarrow> byte list" where
  "double_loop finished n dst buf =
     (if finished < n \<and> 0 < finished
      then let k = min finished (n - finished) in
        double_loop (finished + k) n dst (copy_within dst k (dst + finished) buf)
      else buf)"
  by pat_completeness auto
termination
  by (relation "measure (\<lambda>(finished, n, dst, buf). n - finished)") auto

declare double_loop.simps [simp del]

fun byte_loop :: "nat \<Rightarrow> nat \<Rightarrow> nat \<Rightarrow> nat \<Rightarrow> byte list \<Rightarrow> byte list \<times> nat" where
  "byte_loop msk 0 src dst buf = (buf, dst)"
| "byte_loop msk (Suc n) src dst buf =
     byte_loop msk n ((src + 1) AND msk) ((dst + 1) AND msk) (buf[dst := buf ! src])"

definition win_copy_match :: "nat \<Rightarrow> nat \<Rightarrow> window \<Rightarrow> window" where
  "win_copy_match dist n w =
     (let cap = win_capacity w;
          src = usize_wrapping_sub (win_pos w) dist AND win_mask w;
          dst = win_pos w in
      if 0 < dist \<and> src < dst \<and> src + n \<le> cap \<and> dst + n \<le> cap then
        w\<lparr>win_buf := (if n \<le> dist then copy_within src n dst (win_buf w)
                       else double_loop dist n dst (copy_within src dist dst (win_buf w))),
          win_pos := (dst + n) AND win_mask w, win_total := win_total w + n\<rparr>
      else
        let (buf, dst') = byte_loop (win_mask w) n src dst (win_buf w) in
        w\<lparr>win_buf := buf, win_pos := dst', win_total := win_total w + n\<rparr>)"

fun grow_loop :: "nat \<Rightarrow> nat \<Rightarrow> byte list \<Rightarrow> byte list \<Rightarrow> byte list" where
  "grow_loop cap p [] buf = buf"
| "grow_loop cap p (b # bs) buf = grow_loop cap (p + 1) bs (buf[p mod cap := b])"

definition win_grow :: "nat \<Rightarrow> window \<Rightarrow> window option" where
  "win_grow new_size w =
     (if new_size \<le> win_capacity w then Some w
      else let preserve = min (win_total w) (win_capacity w); new_pos = win_total w mod new_size in
        case win_get_output (win_total w - preserve) preserve w of
          None \<Rightarrow> None
        | Some tail \<Rightarrow>
            Some (w\<lparr>win_buf := grow_loop new_size (new_pos + new_size - preserve) tail (replicate new_size 0),
                    win_mask := new_size - 1, win_pos := new_pos\<rparr>))"

section \<open>The stream behind the ring\<close>

text \<open>The shape of every window: a power of two, at most the address space, the cursor inside.\<close>

definition win_ok :: "window \<Rightarrow> bool" where
  "win_ok w \<longleftrightarrow> (\<exists>k\<le>63. win_capacity w = 2 ^ k \<and> win_mask w = 2 ^ k - 1) \<and>
     win_pos w = win_total w mod win_capacity w"

definition win_keeps :: "nat \<Rightarrow> window \<Rightarrow> byte list \<Rightarrow> bool" where
  "win_keeps k w s \<longleftrightarrow> win_ok w \<and> k \<le> win_capacity w \<and> win_total w = length s \<and>
     (\<forall>i<length s. length s \<le> i + k \<longrightarrow> win_buf w ! (i mod win_capacity w) = s ! i)"

lemma and_mask_nat: "x AND (2 ^ k - 1) = (x :: nat) mod 2 ^ k"
  by (metis mask_nat_def take_bit_eq_mask take_bit_eq_mod)

lemma win_okD:
  assumes "win_ok w"
  shows "0 < win_capacity w" "win_capacity w \<le> 2 ^ 63" "win_pos w = win_total w mod win_capacity w"
    "win_pos w < win_capacity w" "x AND win_mask w = x mod win_capacity w" "win_capacity w dvd 2 ^ 64"
proof -
  obtain k where k: "k \<le> 63" "win_capacity w = 2 ^ k" "win_mask w = 2 ^ k - 1"
      "win_pos w = win_total w mod win_capacity w"
    using assms by (auto simp: win_ok_def)
  then show "0 < win_capacity w" "win_pos w = win_total w mod win_capacity w" by simp_all
  then show "win_pos w < win_capacity w" by simp
  show "win_capacity w \<le> 2 ^ 63"
    unfolding k(2) by (rule power_increasing [OF k(1)]) simp
  show "x AND win_mask w = x mod win_capacity w" by (simp only: k and_mask_nat)
  show "win_capacity w dvd 2 ^ 64"
    unfolding k(2) by (rule le_imp_power_dvd) (use k(1) in simp)
qed

text \<open>Subtraction around the ring.\<close>

lemma win_sub:
  assumes "win_ok w" "d \<le> win_total w" "d \<le> win_capacity w"
  shows "usize_wrapping_sub (win_pos w) d AND win_mask w = (win_total w - d) mod win_capacity w"
proof -
  note ok = win_okD [OF assms(1)]
  let ?n = "win_capacity w"
  have "d \<le> 2 ^ 63" using assms(3) ok(2) by (rule order.trans)
  moreover have "(2 :: nat) ^ 63 < 2 ^ 64" by (rule power_strict_increasing) simp_all
  ultimately have d: "d < 2 ^ 64" by (rule order.strict_trans1)
  have dm: "d mod 2 ^ 64 = d" using d by (rule mod_less)
  have "(a + (m - d)) mod n = (t - d) mod n"
    if "a mod n = t mod n" "m mod n = 0" "d \<le> m" "d \<le> t" for a m t n :: nat
  proof -
    have "(int a + int m) mod int n = int t mod int n"
      using that(1,2) by (metis add.right_neutral mod_add_right_eq of_nat_0 of_nat_add zmod_int)
    then have "(int a + int m - int d) mod int n = (int t - int d) mod int n"
      by (rule mod_diff_cong) simp
    then have "int ((a + (m - d)) mod n) = int ((t - d) mod n)"
      using that(3,4) by (simp add: zmod_int of_nat_diff add_diff_eq)
    then show ?thesis by simp
  qed
  note sub = this
  have "usize_wrapping_sub (win_pos w) d AND win_mask w = (win_pos w + (2 ^ 64 - d)) mod 2 ^ 64 mod ?n"
    by (simp only: usize_wrapping_sub_def ok(5) dm)
  also have "\<dots> = (win_pos w + (2 ^ 64 - d)) mod ?n"
    by (rule mod_mod_cancel [OF ok(6)])
  also have "\<dots> = (win_total w - d) mod ?n"
    using ok(3,6) d assms(2) by (intro sub) (simp_all only: mod_mod_trivial dvd_eq_mod_eq_0 [symmetric] less_imp_le)
  finally show ?thesis .
qed

lemma win_new_ok:
  assumes "k \<le> 63"
  shows "win_ok (win_new (2 ^ k))" "win_keeps (2 ^ k) (win_new (2 ^ k)) []" "win_capacity (win_new (2 ^ k)) = 2 ^ k"
  using assms by (auto simp: win_ok_def win_keeps_def win_new_def win_capacity_def)

lemma capacity_put [simp]: "win_capacity (win_put_byte b w) = win_capacity w"
  by (simp add: win_capacity_def win_put_byte_def)

lemma mod_eq_near:
  assumes "i mod n = j mod n" "i < j" "j < i + (n :: nat)"
  shows False
proof -
  from assms(1,2) have "n dvd j - i" by (metis mod_eq_dvd_iff_nat less_imp_le)
  then have "n \<le> j - i" using assms(2) by (intro dvd_imp_le) simp_all
  with assms(2,3) show False by linarith
qed

text \<open>Writing the next byte of the stream at the cursor keeps the window a window.\<close>

lemma win_write_next:
  assumes keeps: "win_keeps k w s" and "win_buf w' = (win_buf w)[win_pos w := b]"
    "win_pos w' = (win_pos w + 1) mod win_capacity w" "win_total w' = win_total w + 1" "win_mask w' = win_mask w"
  shows "win_keeps k w' (s @ [b])"
proof -
  have ok: "win_ok w" and len: "win_total w = length s" "k \<le> win_capacity w"
    using keeps by (auto simp: win_keeps_def)
  note d = win_okD [OF ok]
  have cap: "win_capacity w' = win_capacity w" by (simp add: win_capacity_def assms(2))
  have "win_ok w'" using ok assms(3-5) by (auto simp: win_ok_def cap mod_simps)
  moreover have "win_buf w' ! (i mod win_capacity w') = (s @ [b]) ! i"
    if "i < length (s @ [b])" "length (s @ [b]) \<le> i + k" for i
  proof (cases "i = length s")
    case True
    then show ?thesis using d(3,4) len by (simp add: assms(2) win_capacity_def [of w] cap)
  next
    case False
    then have i: "i < length s" "length s < i + win_capacity w" using that len by auto
    then have "i mod win_capacity w \<noteq> length s mod win_capacity w" using mod_eq_near by blast
    moreover have "win_buf w ! (i mod win_capacity w) = s ! i" using keeps i that by (auto simp: win_keeps_def)
    ultimately show ?thesis using i d(3) len by (simp add: assms(2) cap nth_append)
  qed
  ultimately show ?thesis using len assms(4) by (simp add: win_keeps_def cap)
qed

lemma win_put_keeps: "win_keeps k w s \<Longrightarrow> win_keeps k (win_put_byte b w) (s @ [b])"
  by (rule win_write_next) (auto simp: win_put_byte_def win_keeps_def win_okD)

section \<open>Copying a match\<close>

lemma lz_extend_period:
  assumes "0 < d" "d \<le> length s" "j < n"
  shows "lz_extend n d s ! (length s + j) = s ! (length s - d + j mod d)"
  using assms(3)
proof (induction j rule: less_induct)
  case (less j)
  note step = nth_lz_extend [OF assms(1,2) less.prems]
  show ?case
  proof (cases "j < d")
    case True
    then have "length s + j - d = length s - d + j" using assms(2) by simp
    with step have "lz_extend n d s ! (length s + j) = lz_extend n d s ! (length s - d + j)" by simp
    also have "\<dots> = s ! (length s - d + j)" using True assms(1,2) by (intro lz_extend_prefix) linarith
    finally show ?thesis using True by simp
  next
    case False
    then have j: "length s + j - d = length s + (j - d)" "j - d < j" "j mod d = (j - d) mod d"
      using assms(1) by (simp_all add: le_mod_geq)
    have "lz_extend n d s ! (length s + j) = lz_extend n d s ! (length s + (j - d))"
      using step by (simp only: j(1))
    also have "\<dots> = s ! (length s - d + (j - d) mod d)" using less.IH [OF j(2)] less.prems by simp
    finally show ?thesis by (simp only: j(3))
  qed
qed

text \<open>A run of bytes written at the cursor without wrapping.\<close>

lemma win_write_run:
  assumes keeps: "win_keeps k w s" and "win_pos w + n \<le> win_capacity w"
    and "length buf = win_capacity w" and "length t = length s + n" "take (length s) t = s"
    and new: "\<And>j. j < n \<Longrightarrow> buf ! (win_pos w + j) = t ! (length s + j)"
    and old: "\<And>p. p < win_capacity w \<Longrightarrow> p < win_pos w \<or> win_pos w + n \<le> p \<Longrightarrow> buf ! p = win_buf w ! p"
  shows "win_keeps k (w\<lparr>win_buf := buf, win_pos := (win_pos w + n) AND win_mask w, win_total := win_total w + n\<rparr>) t"
proof -
  let ?n = "win_capacity w"
  have ok: "win_ok w" and len: "win_total w = length s" "k \<le> ?n"
    using keeps by (auto simp: win_keeps_def)
  note d = win_okD [OF ok]
  have slot: "(length s + j) mod ?n = win_pos w + j" if "j < n" for j
  proof -
    have "(length s + j) mod ?n = (win_pos w + j) mod ?n" using d(3) len by (simp add: mod_simps)
    also have "\<dots> = win_pos w + j" using that assms(2) by (intro mod_less) linarith
    finally show ?thesis .
  qed
  let ?w = "w\<lparr>win_buf := buf, win_pos := (win_pos w + n) AND win_mask w, win_total := win_total w + n\<rparr>"
  have cap: "win_capacity (w\<lparr>win_buf := buf, win_pos := p, win_total := m\<rparr>) = ?n" for p m
    by (simp add: win_capacity_def [of "w\<lparr>win_buf := buf, win_pos := p, win_total := m\<rparr>"] assms(3))
  have "win_ok ?w"
    using ok d(3) unfolding win_ok_def cap by (simp add: d(5) mod_simps)
  moreover have "buf ! (i mod ?n) = t ! i" if i: "i < length t" "length t \<le> i + k" for i
  proof (cases "i < length s")
    case False
    then obtain j where "i = length s + j" "j < n" using i assms(4) by (metis add_diff_inverse nat_add_left_cancel_less)
    then show ?thesis using new slot by simp
  next
    case True
    have "i mod ?n < ?n" using d(1) by simp
    moreover have "i mod ?n < win_pos w \<or> win_pos w + n \<le> i mod ?n"
    proof (rule ccontr)
      assume "\<not> ?thesis"
      then obtain j where j: "i mod ?n = win_pos w + j" "j < n"
        by (metis add_less_cancel_left le_add_diff_inverse linorder_not_le)
      then have "i mod ?n = (length s + j) mod ?n" using slot by simp
      moreover have "length s + j < i + ?n" using i(2) j(2) assms(4) len(2) by linarith
      ultimately show False using mod_eq_near True by (meson trans_less_add1)
    qed
    ultimately have "buf ! (i mod ?n) = win_buf w ! (i mod ?n)" using old by blast
    also have "\<dots> = s ! i" using keeps True i assms(4) by (simp add: win_keeps_def)
    also have "\<dots> = t ! i" using True assms(5) by (metis nth_take)
    finally show ?thesis .
  qed
  ultimately show ?thesis using len assms(4) by (simp add: win_keeps_def cap)
qed

lemma nth_copy_within:
  assumes "dst + n \<le> length buf" "src + n \<le> length buf"
  shows "length (copy_within src n dst buf) = length buf"
    and "p < length buf \<Longrightarrow> copy_within src n dst buf ! p =
      (if dst \<le> p \<and> p < dst + n then buf ! (src + (p - dst)) else buf ! p)"
proof -
  have len: "length (take dst buf) = dst" "length (take n (drop src buf)) = n" using assms by auto
  then show "length (copy_within src n dst buf) = length buf" using assms by (simp add: copy_within_def)
  assume p: "p < length buf"
  consider "p < dst" | "dst \<le> p" "p < dst + n" | "dst + n \<le> p" by linarith
  then show "copy_within src n dst buf ! p =
      (if dst \<le> p \<and> p < dst + n then buf ! (src + (p - dst)) else buf ! p)"
  proof cases
    case 1
    then show ?thesis using len by (simp add: copy_within_def nth_append)
  next
    case 2
    then have "p - dst < n" by simp
    then show ?thesis using 2 len assms by (simp add: copy_within_def nth_append)
  next
    case 3
    then have "\<not> p < dst" "\<not> p - dst < n" "dst + n + (p - dst - n) = p" by auto
    then show ?thesis using 3 len assms by (simp add: copy_within_def nth_append)
  qed
qed

lemma double_loop_spec:
  assumes "0 < finished" "finished \<le> n" "d dvd finished \<or> finished = n" "dst + n \<le> length buf"
    and "\<And>j. j < finished \<Longrightarrow> buf ! (dst + j) = g (j mod d)"
  shows "length (double_loop finished n dst buf) = length buf \<and>
    (\<forall>j<n. double_loop finished n dst buf ! (dst + j) = g (j mod d)) \<and>
    (\<forall>p<length buf. p < dst \<or> dst + n \<le> p \<longrightarrow> double_loop finished n dst buf ! p = buf ! p)"
  using assms
proof (induction finished n dst buf rule: double_loop.induct)
  case (1 finished n dst buf)
  show ?case
  proof (cases "finished < n")
    case False
    then have "double_loop finished n dst buf = buf" by (subst double_loop.simps) simp
    moreover have "finished = n" using False 1(3) by simp
    ultimately show ?thesis using 1(6) by simp
  next
    case True
    define k where "k = min finished (n - finished)"
    let ?b = "copy_within dst k (dst + finished) buf"
    have k: "dst + finished + k \<le> length buf" "dst + k \<le> length buf" "finished + k \<le> n" "k \<le> finished"
      using 1(5) True by (auto simp: k_def)
    note nth = nth_copy_within [OF k(1,2)]
    have d: "d dvd finished" using 1(4) True by auto
    have step: "?b ! (dst + j) = g (j mod d)" if j: "j < finished + k" for j
    proof (cases "j < finished")
      case True
      then show ?thesis using nth(2) [of "dst + j"] k 1(6) by simp
    next
      case False
      then have "?b ! (dst + j) = buf ! (dst + (j - finished))"
        using nth(2) [of "dst + j"] k j by simp
      also have "\<dots> = g ((j - finished) mod d)" using 1(6) [of "j - finished"] j k(4) False by simp
      also have "(j - finished) mod d = j mod d"
        using d False by (metis le_add_diff_inverse linorder_not_le mod_add_self1 dvdE mod_mult_self4)
      finally show ?thesis .
    qed
    have dvd: "d dvd finished + k \<or> finished + k = n"
      using d by (cases "finished \<le> n - finished") (auto simp: k_def)
    have eq: "double_loop finished n dst buf = double_loop (finished + k) n dst ?b"
      using True 1(2) by (subst double_loop.simps) (simp add: k_def Let_def)
    have IH: "length (double_loop (finished + k) n dst ?b) = length ?b \<and>
      (\<forall>j<n. double_loop (finished + k) n dst ?b ! (dst + j) = g (j mod d)) \<and>
      (\<forall>p<length ?b. p < dst \<or> dst + n \<le> p \<longrightarrow> double_loop (finished + k) n dst ?b ! p = ?b ! p)"
      using 1(1) [OF _ k_def] True 1(2,5) k(3) dvd step nth(1) by simp
    have "?b ! p = buf ! p" if "p < length buf" "p < dst \<or> dst + n \<le> p" for p
      using nth(2) [OF that(1)] that(2) k(3) by auto
    then show ?thesis using IH nth(1) by (simp add: eq)
  qed
qed

lemma byte_loop_keeps:
  assumes "win_keeps k w s" "0 < d" "d \<le> length s" "d \<le> k"
  shows "case byte_loop (win_mask w) n ((length s - d) mod win_capacity w) (win_pos w) (win_buf w) of
    (buf, dst) \<Rightarrow> win_keeps k (w\<lparr>win_buf := buf, win_pos := dst, win_total := win_total w + n\<rparr>) (lz_extend n d s)"
  using assms
proof (induction n arbitrary: w s)
  case 0
  then show ?case by simp
next
  case (Suc n)
  have ok: "win_ok w" and len: "win_total w = length s" using Suc.prems(1) by (auto simp: win_keeps_def)
  note wd = win_okD [OF ok]
  let ?b = "s ! (length s - d)"
  let ?w = "w\<lparr>win_buf := (win_buf w)[win_pos w := ?b], win_pos := (win_pos w + 1) mod win_capacity w,
      win_total := win_total w + 1\<rparr>"
  have src: "win_buf w ! ((length s - d) mod win_capacity w) = ?b"
    using Suc.prems by (auto simp: win_keeps_def)
  have keeps: "win_keeps k ?w (s @ [?b])" by (rule win_write_next [OF Suc.prems(1)]) simp_all
  have "((length s - d) mod win_capacity w + 1) mod win_capacity w = (length (s @ [?b]) - d) mod win_capacity ?w"
    using Suc.prems(3) by (simp add: mod_simps Suc_diff_le win_capacity_def)
  then show ?case
    using Suc.IH [OF keeps Suc.prems(2)] Suc.prems(3,4) src wd(5) by (simp add: Let_def)
qed

lemma win_copy_keeps:
  assumes keeps: "win_keeps k w s" and d: "0 < d" "d \<le> length s" "d \<le> k"
  shows "win_keeps k (win_copy_match d n w) (lz_extend n d s)"
proof -
  let ?n = "win_capacity w" and ?buf = "win_buf w" and ?dst = "win_pos w"
  have ok: "win_ok w" and len: "win_total w = length s" "k \<le> ?n"
    using keeps by (auto simp: win_keeps_def)
  note wd = win_okD [OF ok]
  let ?src = "(length s - d) mod ?n"
  have src: "usize_wrapping_sub ?dst d AND win_mask w = ?src"
    using win_sub [OF ok, of d] d len by simp
  show ?thesis
  proof (cases "0 < d \<and> ?src < ?dst \<and> ?src + n \<le> ?n \<and> ?dst + n \<le> ?n")
    case False
    then have "win_copy_match d n w = (case byte_loop (win_mask w) n ?src ?dst ?buf of (buf, dst') \<Rightarrow>
        w\<lparr>win_buf := buf, win_pos := dst', win_total := win_total w + n\<rparr>)"
      by (simp only: win_copy_match_def Let_def src if_False)
    then show ?thesis
      using byte_loop_keeps [OF keeps d, of n] by (simp split: prod.split_asm)
  next
    case True
    have dst: "?dst = ?src + d"
    proof -
      have e: "(?src + d) mod ?n = ?dst" using wd(3) len d(2) by (simp add: mod_simps)
      have lt: "?src < ?n" using wd(1) by simp
      show ?thesis
      proof (cases "?src + d < ?n")
        case True
        have "?src + d = (?src + d) mod ?n" by (rule mod_less [OF True, symmetric])
        then show ?thesis by (simp only: e)
      next
        case False
        then have "(?src + d) mod ?n = (?src + d - ?n) mod ?n" by (intro le_mod_geq) linarith
        also have "\<dots> = ?src + d - ?n" using lt d(3) len(2) by (intro mod_less) linarith
        finally have "?dst = ?src + d - ?n" by (simp only: e)
        then show ?thesis using True d(3) len(2) by linarith
      qed
    qed
    have slot: "?buf ! (?src + j) = s ! (length s - d + j)" if "j < d" for j
    proof -
      have "(length s - d + j) mod ?n = (?src + j) mod ?n" by (simp add: mod_simps)
      also have "\<dots> = ?src + j" using that dst wd(4) by (intro mod_less) linarith
      finally have e: "(length s - d + j) mod ?n = ?src + j" .
      have lt: "length s - d + j < length s" "length s \<le> length s - d + j + k" using that d by auto
      have "?buf ! ((length s - d + j) mod ?n) = s ! (length s - d + j)"
        using keeps lt unfolding win_keeps_def by blast
      then show ?thesis by (simp only: e)
    qed
    let ?b = "if n \<le> d then copy_within ?src n ?dst ?buf else double_loop d n ?dst (copy_within ?src d ?dst ?buf)"
    have cap: "length ?buf = ?n" by (simp add: win_capacity_def)
    have b: "length ?b = ?n \<and> (\<forall>j<n. ?b ! (?dst + j) = ?buf ! (?src + j mod d)) \<and>
        (\<forall>p<?n. p < ?dst \<or> ?dst + n \<le> p \<longrightarrow> ?b ! p = ?buf ! p)"
    proof (cases "n \<le> d")
      case short: True
      have "?dst + n \<le> length ?buf" "?src + n \<le> length ?buf" using True cap by auto
      note nth = nth_copy_within [OF this]
      show ?thesis using nth cap True short by simp
    next
      case long: False
      have bounds: "?dst + d \<le> length ?buf" "?src + d \<le> length ?buf" using True long cap by auto
      note nth = nth_copy_within [OF bounds]
      let ?c = "copy_within ?src d ?dst ?buf"
      have period: "?c ! (?dst + j) = ?buf ! (?src + j mod d)" if "j < d" for j
        using nth(2) [of "?dst + j"] that bounds by simp
      have "length (double_loop d n ?dst ?c) = length ?c \<and>
          (\<forall>j<n. double_loop d n ?dst ?c ! (?dst + j) = ?buf ! (?src + j mod d)) \<and>
          (\<forall>p<length ?c. p < ?dst \<or> ?dst + n \<le> p \<longrightarrow> double_loop d n ?dst ?c ! p = ?c ! p)"
        using d(1) long True cap nth(1) period by (intro double_loop_spec) auto
      moreover have "?c ! p = ?buf ! p" if "p < ?n" "p < ?dst \<or> ?dst + n \<le> p" for p
        using nth(2) [of p] that cap long by auto
      ultimately show ?thesis using long cap nth(1) by simp
    qed
    have "win_copy_match d n w =
        w\<lparr>win_buf := ?b, win_pos := (?dst + n) AND win_mask w, win_total := win_total w + n\<rparr>"
      using True by (simp add: win_copy_match_def Let_def src)
    moreover have "win_keeps k (w\<lparr>win_buf := ?b, win_pos := (?dst + n) AND win_mask w, win_total := win_total w + n\<rparr>)
        (lz_extend n d s)"
    proof (rule win_write_run [OF keeps])
      show "?dst + n \<le> ?n" using True by simp
      show "length ?b = ?n" using b by blast
      show "length (lz_extend n d s) = length s + n" "take (length s) (lz_extend n d s) = s" by simp_all
      show "?b ! (?dst + j) = lz_extend n d s ! (length s + j)" if "j < n" for j
        using b slot [of "j mod d"] that d(1) lz_extend_period [OF d(1,2) that] by simp
      show "?b ! p = ?buf ! p" if "p < ?n" "p < ?dst \<or> ?dst + n \<le> p" for p
        using b that by blast
    qed
    ultimately show ?thesis by simp
  qed
qed

lemma capacity_copy [simp]:
  assumes "win_keeps k w s" "0 < d" "d \<le> length s" "d \<le> k"
  shows "win_capacity (win_copy_match d n w) = win_capacity w"
proof -
  have mask: "win_mask (win_copy_match d n w) = win_mask w"
    by (simp add: win_copy_match_def Let_def split: prod.split)
  have "win_ok (win_copy_match d n w)" "win_ok w"
    using win_copy_keeps [OF assms] assms(1) by (auto simp: win_keeps_def)
  then obtain a b where "win_capacity (win_copy_match d n w) = 2 ^ a" "win_capacity w = 2 ^ b"
      "2 ^ a - 1 = (2 ^ b - 1 :: nat)"
    using mask by (auto simp: win_ok_def)
  then show ?thesis
    by (metis Suc_diff_1 zero_less_numeral zero_less_power)
qed

interpretation ring: lz_window "\<lambda>w s. win_keeps (win_capacity w) w s" win_put_byte win_copy_match win_capacity
proof unfold_locales
  fix w s b assume "win_keeps (win_capacity w) w s"
  then show "win_keeps (win_capacity (win_put_byte b w)) (win_put_byte b w) (s @ [b]) \<and>
      win_capacity (win_put_byte b w) = win_capacity w"
    by (simp add: win_put_keeps)
next
  fix w s d n assume w: "win_keeps (win_capacity w) w s" "0 < d" "d \<le> length s" "d \<le> win_capacity w"
  then show "win_keeps (win_capacity (win_copy_match d n w)) (win_copy_match d n w) (lz_extend n d s) \<and>
      win_capacity (win_copy_match d n w) = win_capacity w"
    by (simp add: win_copy_keeps)
qed

section \<open>Reading back and growing\<close>

lemma win_get_output_keeps:
  assumes keeps: "win_keeps k w s" and "start + n \<le> length s" "length s \<le> start + k"
  shows "win_get_output start n w = Some (take n (drop start s))"
proof -
  let ?n = "win_capacity w"
  have ok: "win_ok w" and len: "win_total w = length s" "k \<le> ?n"
    using keeps by (auto simp: win_keeps_def)
  note wd = win_okD [OF ok]
  have n: "n \<le> ?n" using assms(2,3) len(2) by linarith
  let ?p = "start mod ?n"
  have p: "usize_wrapping_sub (win_pos w) (win_total w - start) AND win_mask w = ?p"
    using win_sub [OF ok, of "length s - start"] assms(2,3) len by simp
  have slot: "win_buf w ! ((start + j) mod ?n) = s ! (start + j)" if "j < n" for j
    using keeps that assms(2,3) by (simp add: win_keeps_def)
  have cap: "length (win_buf w) = ?n" by (simp add: win_capacity_def)
  have plt: "?p < ?n" using wd(1) by simp
  show ?thesis
  proof (cases "?p + n \<le> ?n")
    case True
    have "take n (drop ?p (win_buf w)) = take n (drop start s)"
    proof (rule nth_equalityI)
      show "length (take n (drop ?p (win_buf w))) = length (take n (drop start s))"
        using True cap assms(2) by simp
      fix j assume "j < length (take n (drop ?p (win_buf w)))"
      then have j: "j < n" by simp
      have "(start + j) mod ?n = (?p + j) mod ?n" by (simp add: mod_simps)
      also have "\<dots> = ?p + j" using j True by (intro mod_less) linarith
      finally show "take n (drop ?p (win_buf w)) ! j = take n (drop start s) ! j"
        using slot [OF j] j True cap assms(2) by simp
    qed
    then show ?thesis using n True by (simp add: win_get_output_def p Let_def)
  next
    case False
    let ?m = "?n - ?p"
    have "drop ?p (win_buf w) @ take (n - ?m) (win_buf w) = take n (drop start s)"
    proof (rule nth_equalityI)
      show "length (drop ?p (win_buf w) @ take (n - ?m) (win_buf w)) = length (take n (drop start s))"
        using False cap n assms(2) plt by simp
      fix j assume "j < length (drop ?p (win_buf w) @ take (n - ?m) (win_buf w))"
      then have j: "j < n" using False cap n plt by simp
      have e: "(start + j) mod ?n = (?p + j) mod ?n" by (simp add: mod_simps)
      show "(drop ?p (win_buf w) @ take (n - ?m) (win_buf w)) ! j = take n (drop start s) ! j"
      proof (cases "j < ?m")
        case True
        then have "(?p + j) mod ?n = ?p + j" by (intro mod_less) linarith
        then show ?thesis using True e slot [OF j] j cap assms(2) plt by (simp add: nth_append)
      next
        case ge: False
        then have "(?p + j) mod ?n = (?p + j - ?n) mod ?n" by (intro le_mod_geq) linarith
        also have "\<dots> = ?p + j - ?n" using j n plt by (intro mod_less) linarith
        also have "\<dots> = j - ?m" using ge plt by linarith
        finally have "win_buf w ! (j - ?m) = s ! (start + j)" using slot [OF j] e by simp
        then show ?thesis using ge j cap assms(2) plt by (simp add: nth_append)
      qed
    qed
    then show ?thesis using n False by (simp add: win_get_output_def p Let_def)
  qed
qed

lemma grow_loop_nth:
  "length (grow_loop c p bs buf) = length buf \<and>
   (length bs \<le> c \<longrightarrow> c = length buf \<longrightarrow> (\<forall>i<length bs. grow_loop c p bs buf ! ((p + i) mod c) = bs ! i) \<and>
     (\<forall>q<c. (\<forall>i<length bs. q \<noteq> (p + i) mod c) \<longrightarrow> grow_loop c p bs buf ! q = buf ! q))"
proof (induction c p bs buf rule: grow_loop.induct)
  case (1 c p buf)
  then show ?case by simp
next
  case (2 c p b bs buf)
  let ?buf = "buf[p mod c := b]"
  have l: "length (grow_loop c (p + 1) bs ?buf) = length ?buf" using 2 by blast
  show ?case
  proof (intro conjI impI)
    show "length (grow_loop c p (b # bs) buf) = length buf" using l by simp
    assume len: "length (b # bs) \<le> c" "c = length buf"
    then have IH: "\<And>i. i < length bs \<Longrightarrow> grow_loop c (p + 1) bs ?buf ! ((p + 1 + i) mod c) = bs ! i"
      "\<And>q. q < c \<Longrightarrow> \<forall>i<length bs. q \<noteq> (p + 1 + i) mod c \<Longrightarrow> grow_loop c (p + 1) bs ?buf ! q = ?buf ! q"
      using 2 by auto
    have "0 < c" using len by (cases c) auto
    then have pc: "p mod c < c" by simp
    show "\<forall>i<length (b # bs). grow_loop c p (b # bs) buf ! ((p + i) mod c) = (b # bs) ! i"
    proof (intro allI impI)
      fix i assume i: "i < length (b # bs)"
      show "grow_loop c p (b # bs) buf ! ((p + i) mod c) = (b # bs) ! i"
      proof (cases i)
        case 0
        have "p mod c \<noteq> (p + 1 + j) mod c" if "j < length bs" for j
          using mod_eq_near [of p c "p + 1 + j"] that len by auto
        then show ?thesis using 0 IH(2) [OF pc] pc len by simp
      next
        case (Suc j)
        then show ?thesis using IH(1) [of j] i by simp
      qed
    qed
    show "\<forall>q<c. (\<forall>i<length (b # bs). q \<noteq> (p + i) mod c) \<longrightarrow> grow_loop c p (b # bs) buf ! q = buf ! q"
    proof (intro allI impI)
      fix q assume q: "q < c" "\<forall>i<length (b # bs). q \<noteq> (p + i) mod c"
      then have "q \<noteq> p mod c" "\<forall>i<length bs. q \<noteq> (p + 1 + i) mod c" by (force, auto)
      then show "grow_loop c p (b # bs) buf ! q = buf ! q" using IH(2) [OF q(1)] by simp
    qed
  qed
qed

lemma win_grow_keeps:
  assumes keeps: "win_keeps (win_capacity w) w s" and "m \<le> 63"
  shows "\<exists>w'. win_grow (2 ^ m) w = Some w' \<and> win_keeps (win_capacity w) w' s \<and>
    win_capacity w' = max (win_capacity w) (2 ^ m)"
proof (cases "2 ^ m \<le> win_capacity w")
  case True
  then show ?thesis using keeps by (simp add: win_grow_def)
next
  case False
  let ?n = "win_capacity w" and ?c = "2 ^ m :: nat"
  have ok: "win_ok w" and len: "win_total w = length s" using keeps by (auto simp: win_keeps_def)
  let ?k = "min (length s) ?n" and ?p = "length s mod ?c"
  let ?tail = "drop (length s - ?k) s"
  have get: "win_get_output (win_total w - ?k) ?k w = Some ?tail"
    using win_get_output_keeps [OF keeps, of "length s - ?k" ?k] len by simp
  define buf where "buf = grow_loop ?c (?p + ?c - ?k) ?tail (replicate ?c 0)"
  let ?w = "w\<lparr>win_buf := buf, win_mask := ?c - 1, win_pos := ?p\<rparr>"
  have grow: "win_grow ?c w = Some ?w"
    using False get len by (simp add: win_grow_def Let_def buf_def)
  have lt: "length ?tail = ?k" "?k \<le> ?c" using False by auto
  have nth: "length buf = ?c" "\<And>i. i < ?k \<Longrightarrow> buf ! ((?p + ?c - ?k + i) mod ?c) = ?tail ! i"
    using grow_loop_nth [of ?c "?p + ?c - ?k" ?tail "replicate ?c 0"] lt by (auto simp: buf_def)
  have cap: "win_capacity ?w = ?c" by (simp add: win_capacity_def nth(1))
  have "buf ! (i mod ?c) = s ! i" if i: "i < length s" "length s \<le> i + ?n" for i
  proof -
    define j where "j = i - (length s - ?k)"
    have j: "j < ?k" "i = length s - ?k + j" using i by (auto simp: j_def)
    have "?p + ?c - ?k + j = ?p + (?c - ?k + j)" using lt(2) by linarith
    then have "(?p + ?c - ?k + j) mod ?c = (?p + (?c - ?k + j)) mod ?c" by (rule arg_cong)
    also have "\<dots> = (length s + (?c - ?k + j)) mod ?c" by (simp add: mod_simps)
    also have "length s + (?c - ?k + j) = i + ?c" using j lt(2) by (simp add: min_def)
    finally have "(?p + ?c - ?k + j) mod ?c = i mod ?c" by simp
    then show ?thesis using nth(2) [OF j(1)] by (simp only: j(2)) simp
  qed
  then have "win_keeps ?n ?w s"
    using cap False assms(2) len by (auto simp: win_keeps_def win_ok_def)
  with grow cap False show ?thesis by (intro exI [of _ ?w]) auto
qed

section \<open>Properties\<close>

text \<open>C21: Whatever sequence of literals and matches is run through the ring (every distance at
  most the bytes produced and the ring's capacity), the ring holds the tail of the LZ77 expansion of
  that sequence: every region of it that fits the ring reads back exactly, across the wrap and
  through the doubling copies.\<close>

theorem ring_replays_tokens:
  assumes "k \<le> 63" "lz_tokens_fit (2 ^ k) 0 ts"
    and "start + n \<le> length (lz_expand [] ts)" "length (lz_expand [] ts) \<le> start + 2 ^ k"
  shows "win_get_output start n (replay win_put_byte win_copy_match ts (win_new (2 ^ k))) =
    Some (take n (drop start (lz_expand [] ts)))"
proof -
  let ?w = "win_new (2 ^ k)"
  note new = win_new_ok [OF assms(1)]
  have "win_keeps (win_capacity ?w) ?w []" "lz_tokens_fit (win_capacity ?w) (length []) ts"
    using new assms(2) by simp_all
  from ring.replay_holds [OF this] have "win_keeps (2 ^ k) (replay win_put_byte win_copy_match ts ?w) (lz_expand [] ts)"
    using new(3) by metis
  from win_get_output_keeps [OF this assms(3,4)] show ?thesis .
qed

theorem ring_replays_tokens_witness:
  "win_get_output 2 4 (replay win_put_byte win_copy_match
      [Literal 1, Literal 2, Match 2 3, Match 1 1] (win_new (2 ^ 2))) = Some [1, 2, 1, 1]"
  using ring_replays_tokens [of 2 "[Literal 1, Literal 2, Match 2 3, Match 1 1]" 2 4]
  by (simp add: eval_nat_numeral)

text \<open>C25: Growing the ring keeps every byte that the smaller ring could still serve at its
  offset in the stream, and the write cursor: what is appended afterwards continues the same
  stream.\<close>

theorem grow_keeps_stream:
  assumes "win_keeps (win_capacity w) w s" "m \<le> 63"
  shows "\<exists>w'. win_grow (2 ^ m) w = Some w' \<and> win_capacity w' = max (win_capacity w) (2 ^ m) \<and>
    win_total w' = win_total w \<and>
    (\<forall>bs. win_keeps (win_capacity w) (fold win_put_byte bs w') (s @ bs)) \<and>
    (\<forall>start n. start + n \<le> length s \<longrightarrow> length s \<le> start + win_capacity w \<longrightarrow>
       win_get_output start n w' = Some (take n (drop start s)))"
proof -
  obtain w' where w': "win_grow (2 ^ m) w = Some w'" "win_keeps (win_capacity w) w' s"
      "win_capacity w' = max (win_capacity w) (2 ^ m)"
    using win_grow_keeps [OF assms] by blast
  have "win_keeps (win_capacity w) (fold win_put_byte bs v) (t @ bs)"
    if "win_keeps (win_capacity w) v t" for bs v t
    using that
  proof (induction bs arbitrary: v t)
    case (Cons b bs)
    show ?case using Cons.IH [OF win_put_keeps [OF Cons.prems, of b]] by simp
  qed simp
  with w' show ?thesis
    using win_get_output_keeps [OF w'(2)] assms(1) by (auto simp: win_keeps_def)
qed

theorem grow_keeps_stream_witness:
  "\<exists>w'. win_grow (2 ^ 1) (win_put_byte 7 (win_new (2 ^ 0))) = Some w' \<and> win_get_output 0 1 w' = Some [7]"
proof -
  have "win_keeps (2 ^ 0) (win_put_byte 7 (win_new (2 ^ 0))) ([] @ [7])"
    using win_new_ok(2) [of 0] by (intro win_put_keeps) simp
  then have keeps: "win_keeps (win_capacity (win_put_byte 7 (win_new (2 ^ 0)))) (win_put_byte 7 (win_new (2 ^ 0))) [7]"
    using win_new_ok(3) [of 0] by simp
  have "1 \<le> win_capacity (win_put_byte 7 (win_new (2 ^ 0)))" using win_new_ok(3) [of 0] by simp
  with grow_keeps_stream [OF keeps, of 1] show ?thesis by fastforce
qed

end
