(* ===== verification/ModernHuffman.thy ===== *)
theory ModernHuffman
  imports BitStream CanonicalCode
begin

text \<open>
  The canonical Huffman codec of RAR5 (codec/common/huffman.rs): the decoding tables (a limit per
  length, the symbols in code order, and a direct table for codes of up to ten bits), the decoder
  with its fast and its slow path, and the encoder. All are compared with the canonical code of
  \<open>CanonicalCode\<close>; the tables need no assumption on the lengths, oversubscribed or incomplete
  codes included.
\<close>

section \<open>Tables\<close>

definition MAX_CODE_LENGTH :: nat where "MAX_CODE_LENGTH = 15"
definition QUICK_BITS :: nat where "QUICK_BITS = 10"
definition QUICK_SIZE :: nat where "QUICK_SIZE = 2 ^ QUICK_BITS"

record decode_table =
  num_symbols :: nat
  decode_len :: "u32 list"
  decode_pos :: "nat list"
  decode_num :: "u16 list"
  decode_count :: "u32 list"
  dt_quick :: "u32 list"

fun length_counts :: "byte list \<Rightarrow> u32 list \<Rightarrow> u32 list" where
  "length_counts [] len_count = len_count"
| "length_counts (cl # cls) len_count =
     (if 0 < unat cl \<and> unat cl \<le> MAX_CODE_LENGTH
      then length_counts cls (len_count[unat cl := len_count ! unat cl + 1])
      else length_counts cls len_count)"

fun limits :: "u32 list \<Rightarrow> nat list \<Rightarrow> u32 \<Rightarrow> nat \<Rightarrow> u32 list \<times> nat list \<Rightarrow> u32 list \<times> nat list" where
  "limits len_count [] code pos (dlen, dpos) = (dlen, dpos)"
| "limits len_count (i # is) code pos (dlen, dpos) =
     (let code = push_bit 1 code in
      limits len_count is (code + len_count ! i) (pos + unat (len_count ! i))
        (dlen[i - 1 := push_bit (MAX_CODE_LENGTH - i) code], dpos[i := pos]))"

fun number_symbols :: "nat \<Rightarrow> byte list \<Rightarrow> u16 list \<Rightarrow> nat list \<Rightarrow> u16 list" where
  "number_symbols s [] dnum tracker = dnum"
| "number_symbols s (cl # cls) dnum tracker =
     (if 0 < unat cl \<and> unat cl \<le> MAX_CODE_LENGTH
      then number_symbols (s + 1) cls (dnum[tracker ! unat cl := word_of_nat s])
             (tracker[unat cl := tracker ! unat cl + 1])
      else number_symbols (s + 1) cls dnum tracker)"

definition quick_fill :: "u32 \<Rightarrow> nat \<Rightarrow> u32 \<Rightarrow> u32 list \<Rightarrow> u32 list" where
  "quick_fill prefix fill v quick =
     fold (\<lambda>k q. let entry = unat (prefix + word_of_nat k) in
             if entry < QUICK_SIZE then q[entry := v] else q) [0..<fill] quick"

fun quick_symbols :: "u16 list \<Rightarrow> nat \<Rightarrow> nat \<Rightarrow> nat list \<Rightarrow> u32 \<times> u32 list \<Rightarrow> u32 \<times> u32 list" where
  "quick_symbols dnum start_pos cl [] (code, quick) = (code, quick)"
| "quick_symbols dnum start_pos cl (j # js) (code, quick) =
     quick_symbols dnum start_pos cl js
       (code + 1,
        quick_fill (push_bit (QUICK_BITS - cl) code) (2 ^ (QUICK_BITS - cl))
          (push_bit 16 (word_of_nat cl) OR ucast (dnum ! (start_pos + j))) quick)"

fun quick_lengths :: "u32 list \<Rightarrow> nat list \<Rightarrow> u16 list \<Rightarrow> nat list \<Rightarrow> u32 \<times> u32 list \<Rightarrow> u32 list" where
  "quick_lengths len_count dpos dnum [] (code, quick) = quick"
| "quick_lengths len_count dpos dnum (cl # cls) (code, quick) =
     (case quick_symbols dnum (dpos ! cl) cl [0..<unat (len_count ! cl)] (code, quick) of
        (code, quick) \<Rightarrow> quick_lengths len_count dpos dnum cls (push_bit 1 code, quick))"

definition dt_new :: "byte list \<Rightarrow> decode_table" where
  "dt_new code_lengths =
     (let n = length code_lengths;
          len_count = length_counts code_lengths (replicate (MAX_CODE_LENGTH + 2) 0);
          (dlen, dpos) = limits len_count [1..<MAX_CODE_LENGTH + 1] 0 0
             (replicate (MAX_CODE_LENGTH + 2) 0, replicate (MAX_CODE_LENGTH + 2) 0);
          dnum = number_symbols 0 code_lengths (replicate (max n 1) 0) dpos
      in \<lparr>num_symbols = n, decode_len = dlen[MAX_CODE_LENGTH := 2 ^ MAX_CODE_LENGTH], decode_pos = dpos,
          decode_num = dnum, decode_count = len_count,
          dt_quick = quick_lengths len_count dpos dnum [1..<QUICK_BITS + 1] (0, replicate QUICK_SIZE 0)\<rparr>)"

section \<open>Decoding\<close>

text \<open>An index out of bounds, the panic of the source, is an error of its own; it never comes.\<close>

definition PANIC :: string where "PANIC = ''index out of bounds''"

fun slow_loop :: "decode_table \<Rightarrow> u32 \<Rightarrow> nat list \<Rightarrow> bitreader \<Rightarrow> (string + nat) \<times> bitreader" where
  "slow_loop table bits [] r = (Inl ''Huffman decode: invalid code'', r)"
| "slow_loop table bits (i # is) r =
     (if bits < decode_len table ! i then
        let prev_boundary = (if 1 < i then decode_len table ! (i - 1) else 0);
            offset = unat (drop_bit (MAX_CODE_LENGTH - i) (bits - prev_boundary)) in
        if offset < unat (decode_count table ! i)
        then (ok_or PANIC (map_option unat (get (decode_num table) (decode_pos table ! i + offset))),
              br_skip_bits i r)
        else (Inl ''Huffman decode: invalid code'', r)
      else slow_loop table bits is r)"

definition decode_symbol_slow :: "decode_table \<Rightarrow> bitreader \<Rightarrow> (string + nat) \<times> bitreader" where
  "decode_symbol_slow table r =
     (let available = br_bits_remaining r; peek_count = min MAX_CODE_LENGTH available in
      if available = 0 then (Inl ''Huffman decode: no bits remaining'', r)
      else sbind (br_peek_bits peek_count) (\<lambda>bits.
        slow_loop table (if peek_count < MAX_CODE_LENGTH then push_bit (MAX_CODE_LENGTH - peek_count) bits else bits)
          [1..<MAX_CODE_LENGTH + 1]) r)"

definition decode_symbol :: "decode_table \<Rightarrow> bitreader \<Rightarrow> (string + nat) \<times> bitreader" where
  "decode_symbol table r =
     (case br_peek_bits QUICK_BITS r of
        (Inr prefix, r) \<Rightarrow>
          let entry = dt_quick table ! unat prefix; cl = drop_bit 16 entry in
          if cl \<noteq> 0 then (Inr (unat (entry AND 0xffff)), br_skip_bits (unat cl) r)
          else decode_symbol_slow table r
      | (Inl _, r) \<Rightarrow> decode_symbol_slow table r)"

section \<open>Encoding\<close>

record encode_table =
  et_codes :: "u32 list"
  et_lengths :: "byte list"

fun next_codes :: "u32 list \<Rightarrow> nat list \<Rightarrow> u32 \<Rightarrow> u32 list \<Rightarrow> u32 list" where
  "next_codes len_count [] code next_code = next_code"
| "next_codes len_count (bits # rest) code next_code =
     (let code = push_bit 1 code in
      next_codes len_count rest (code + len_count ! bits) (next_code[bits := code]))"

fun symbol_codes :: "byte list \<Rightarrow> u32 list \<Rightarrow> u32 list" where
  "symbol_codes [] next_code = []"
| "symbol_codes (cl # cls) next_code =
     (if 0 < unat cl \<and> unat cl \<le> MAX_CODE_LENGTH
      then next_code ! unat cl # symbol_codes cls (next_code[unat cl := next_code ! unat cl + 1])
      else 0 # symbol_codes cls next_code)"

definition et_new :: "byte list \<Rightarrow> encode_table" where
  "et_new code_lengths =
     (let len_count = length_counts code_lengths (replicate (MAX_CODE_LENGTH + 2) 0);
          next_code = next_codes len_count [1..<MAX_CODE_LENGTH + 1] 0 (replicate (MAX_CODE_LENGTH + 2) 0)
      in \<lparr>et_codes = symbol_codes code_lengths next_code, et_lengths = code_lengths\<rparr>)"

definition encode_symbol :: "encode_table \<Rightarrow> nat \<Rightarrow> bitwriter \<Rightarrow> bitwriter" where
  "encode_symbol table symbol w =
     bw_write_bits (et_codes table ! symbol) (unat (et_lengths table ! symbol)) w"

section \<open>The tables of a list of lengths\<close>

lemma length_counts_spec:
  assumes "length count = 17"
  shows "length (length_counts lengths count) = 17 \<and>
    (\<forall>l<17. length_counts lengths count ! l = count ! l + (if l \<le> 15 then word_of_nat (canon_count lengths l) else 0))"
  using assms
proof (induction lengths arbitrary: count)
  case Nil
  then show ?case by (simp add: canon_count_list)
next
  case (Cons x xs)
  show ?case
  proof (cases "0 < unat x \<and> unat x \<le> 15")
    case False
    then have "canon_count (x # xs) l = canon_count xs l" if "l \<le> 15" for l
      using that by (auto simp: canon_count_Cons)
    with False Cons show ?thesis by (auto simp: MAX_CODE_LENGTH_def)
  next
    case True
    with Cons.IH [of "count[unat x := count ! unat x + 1]"] Cons.prems show ?thesis
      by (auto simp: MAX_CODE_LENGTH_def canon_count_Cons nth_list_update)
  qed
qed

lemma counts_nth:
  assumes "l \<le> 15"
  shows "length_counts lengths (replicate 17 0) ! l = word_of_nat (canon_count lengths l)"
  using length_counts_spec [of "replicate 17 0" lengths] assms by simp

lemma unat_counts_nth:
  assumes "length lengths \<le> 65536" "l \<le> 15"
  shows "unat (length_counts lengths (replicate 17 0) ! l) = canon_count lengths l"
proof -
  have "canon_count lengths l < 2 ^ LENGTH(32)"
    using canon_count_le [of lengths l] assms(1) by simp
  then show ?thesis using counts_nth [OF assms(2), of lengths]
    by (simp add: unsigned_of_nat take_bit_nat_eq_self)
qed

lemma limits_spec:
  assumes "\<And>l. 0 < l \<Longrightarrow> l < 16 \<Longrightarrow> count ! l = word_of_nat (c l) \<and> unat (count ! l) = c l" "c 0 = 0"
    and "length dlen = 17" "length dpos = 17" "0 < k" "k \<le> 16"
  shows "case limits count [k..<16] (word_of_nat (canon_end c (k - 1))) (canon_index c k) (dlen, dpos) of
    (dlen', dpos') \<Rightarrow> length dlen' = 17 \<and> length dpos' = 17 \<and>
      (\<forall>l<15. dlen' ! l = (if k \<le> Suc l then word_of_nat (2 ^ (15 - l) * canon_end c l) else dlen ! l)) \<and>
      (\<forall>l<16. dpos' ! l = (if k \<le> l then canon_index c l else dpos ! l))"
  using assms(3-6)
proof (induction "16 - k" arbitrary: k dlen dpos)
  case 0
  then show ?case by simp
next
  case (Suc n)
  from Suc have k: "k < 16" "[k..<16] = k # [Suc k..<16]" by (simp_all add: upt_conv_Cons)
  obtain j where j: "k = Suc j" using Suc.prems(3) by (cases k) auto
  let ?dlen = "dlen[j := word_of_nat (2 ^ (15 - j) * canon_end c j)]" and ?dpos = "dpos[k := canon_index c k]"
  have j': "k - 1 = j" by (simp add: j)
  have u: "unat (count ! k) = c k" using assms(1) [of k] Suc.prems(3) k(1) by blast
  have code: "push_bit 1 (word_of_nat (canon_end c j)) = (word_of_nat (canon_first c k) :: u32)"
    by (simp add: j canon_end_def push_bit_eq_mult algebra_simps)
  have "word_of_nat (canon_first c k) + count ! k = (word_of_nat (canon_end c k) :: u32)"
    using assms(1) [of k] Suc.prems(3) k(1) by (simp add: canon_end_def)
  moreover have "push_bit (15 - k) (word_of_nat (canon_first c k)) =
      (word_of_nat (2 ^ (15 - j) * canon_end c j) :: u32)"
  proof -
    have "15 - j = Suc (15 - k)" using j k(1) by simp
    then have "(2 :: u32) ^ (15 - j) = 2 ^ (15 - k) * 2" by (simp only: power_Suc2)
    then show ?thesis by (simp add: j canon_end_def push_bit_eq_mult algebra_simps)
  qed
  ultimately have step: "limits count [k..<16] (word_of_nat (canon_end c (k - 1))) (canon_index c k) (dlen, dpos) =
      limits count [Suc k..<16] (word_of_nat (canon_end c k)) (canon_index c (Suc k)) (?dlen, ?dpos)"
    by (simp only: k(2) limits.simps Let_def MAX_CODE_LENGTH_def j' code u canon_index_Suc)
  obtain x1 x2 where x: "limits count [Suc k..<16] (word_of_nat (canon_end c k)) (canon_index c (Suc k)) (?dlen, ?dpos) = (x1, x2)"
    by fastforce
  have IH: "length x1 = 17 \<and> length x2 = 17 \<and>
      (\<forall>l<15. x1 ! l = (if Suc k \<le> Suc l then word_of_nat (2 ^ (15 - l) * canon_end c l) else ?dlen ! l)) \<and>
      (\<forall>l<16. x2 ! l = (if Suc k \<le> l then canon_index c l else ?dpos ! l))"
    using Suc.hyps(1) [of "Suc k" ?dlen ?dpos] Suc.hyps(2) Suc.prems k(1) x by simp
  have "x1 ! l = (if k \<le> Suc l then word_of_nat (2 ^ (15 - l) * canon_end c l) else dlen ! l)" if "l < 15" for l
    using IH that j Suc.prems(1) by (cases "l = j") auto
  moreover have "x2 ! l = (if k \<le> l then canon_index c l else dpos ! l)" if "l < 16" for l
    using IH that Suc.prems(2) by (cases "l = k") auto
  ultimately show ?case using IH unfolding step x prod.case by blast
qed

text \<open>The symbols in code order: the number of a symbol stands at its length's start plus its rank.\<close>

lemma number_symbols_spec:
  assumes "length dnum = N" "length tracker = 17"
    and "\<And>l. 0 < l \<Longrightarrow> l \<le> 15 \<Longrightarrow> tracker ! l = P l + m l"
    and "\<And>l. 0 < l \<Longrightarrow> l \<le> 15 \<Longrightarrow> m l + canon_count lengths l \<le> c l \<and> P l + c l \<le> N"
    and "\<And>l k r t. 0 < l \<Longrightarrow> 0 < k \<Longrightarrow> P l + r = P k + t \<Longrightarrow> r < c l \<Longrightarrow> t < c k \<Longrightarrow> l = k \<and> r = t"
  shows "length (number_symbols s lengths dnum tracker) = N \<and>
    (\<forall>i<length lengths. 0 < unat (lengths ! i) \<and> unat (lengths ! i) \<le> 15 \<longrightarrow>
       number_symbols s lengths dnum tracker ! (P (unat (lengths ! i)) + m (unat (lengths ! i)) + canon_rank lengths i) =
         word_of_nat (s + i)) \<and>
    (\<forall>l r. 0 < l \<and> l \<le> 15 \<and> r < m l \<longrightarrow> number_symbols s lengths dnum tracker ! (P l + r) = dnum ! (P l + r))"
  using assms(1-4)
proof (induction lengths arbitrary: s dnum tracker m)
  case Nil
  then show ?case by simp
next
  case (Cons x xs)
  let ?l = "unat x"
  show ?case
  proof (cases "0 < ?l \<and> ?l \<le> 15")
    case False
    have "number_symbols s (x # xs) dnum tracker = number_symbols (s + 1) xs dnum tracker"
      using False by (auto simp: MAX_CODE_LENGTH_def)
    moreover have "length (number_symbols (s + 1) xs dnum tracker) = N \<and>
      (\<forall>i<length xs. 0 < unat (xs ! i) \<and> unat (xs ! i) \<le> 15 \<longrightarrow>
         number_symbols (s + 1) xs dnum tracker ! (P (unat (xs ! i)) + m (unat (xs ! i)) + canon_rank xs i) =
           word_of_nat (s + 1 + i)) \<and>
      (\<forall>l r. 0 < l \<and> l \<le> 15 \<and> r < m l \<longrightarrow> number_symbols (s + 1) xs dnum tracker ! (P l + r) = dnum ! (P l + r))"
    proof (rule Cons.IH [OF Cons.prems(1-3)])
      show "m l + canon_count xs l \<le> c l \<and> P l + c l \<le> N" if "0 < l" "l \<le> 15" for l
        using Cons.prems(4) [OF that] by (simp add: canon_count_Cons split: if_splits)
    qed
    moreover have "canon_rank (x # xs) (Suc i) = canon_rank xs i"
      if "0 < unat (xs ! i) \<and> unat (xs ! i) \<le> 15" for i
      using that False by (auto simp: canon_rank_Cons)
    ultimately show ?thesis using False by (auto simp: less_Suc_eq_0_disj)
  next
    case True
    let ?m = "m(?l := m ?l + 1)"
    let ?d = "dnum[tracker ! ?l := word_of_nat s]" and ?t = "tracker[?l := tracker ! ?l + 1]"
    have tr: "tracker ! ?l = P ?l + m ?l" using Cons.prems(3) True by simp
    have count: "canon_count (x # xs) ?l = Suc (canon_count xs ?l)" using True by (simp add: canon_count_Cons)
    have room: "m ?l < c ?l" "P ?l + c ?l \<le> N" using Cons.prems(4) [of ?l] True count by auto
    have eq: "number_symbols s (x # xs) dnum tracker = number_symbols (s + 1) xs ?d ?t"
      using True by (simp add: MAX_CODE_LENGTH_def)
    have IH: "length (number_symbols (s + 1) xs ?d ?t) = N \<and>
      (\<forall>i<length xs. 0 < unat (xs ! i) \<and> unat (xs ! i) \<le> 15 \<longrightarrow>
         number_symbols (s + 1) xs ?d ?t ! (P (unat (xs ! i)) + ?m (unat (xs ! i)) + canon_rank xs i) =
           word_of_nat (s + 1 + i)) \<and>
      (\<forall>l r. 0 < l \<and> l \<le> 15 \<and> r < ?m l \<longrightarrow> number_symbols (s + 1) xs ?d ?t ! (P l + r) = ?d ! (P l + r))"
    proof (rule Cons.IH)
      show "length ?d = N" "length ?t = 17" using Cons.prems by simp_all
      show "?t ! l = P l + ?m l" if "0 < l" "l \<le> 15" for l
        using Cons.prems(2,3) that by (cases "l = ?l") (auto simp: nth_list_update)
      show "?m l + canon_count xs l \<le> c l \<and> P l + c l \<le> N" if "0 < l" "l \<le> 15" for l
        using Cons.prems(4) [OF that] True by (cases "l = ?l") (auto simp: canon_count_Cons)
    qed
    have here: "number_symbols (s + 1) xs ?d ?t ! (P ?l + m ?l) = word_of_nat s"
      using IH True tr room Cons.prems(1) by simp
    have old: "?d ! (P l + r) = dnum ! (P l + r)" if "0 < l" "l \<le> 15" "r < m l" for l r
    proof -
      have "P l + r \<noteq> P ?l + m ?l"
        using assms(5) [of l ?l r "m ?l"] that True room(1) Cons.prems(4) [OF that(1,2)] by auto
      then show ?thesis by (simp add: tr)
    qed
    have index: "?m (unat (xs ! i)) + canon_rank xs i = m (unat (xs ! i)) + canon_rank (x # xs) (Suc i)" for i
      by (auto simp: canon_rank_Cons word_unat_eq_iff)
    show ?thesis
    proof (intro conjI allI impI)
      show "length (number_symbols s (x # xs) dnum tracker) = N" using IH eq by simp
    next
      fix i assume i: "i < length (x # xs)" "0 < unat ((x # xs) ! i) \<and> unat ((x # xs) ! i) \<le> 15"
      show "number_symbols s (x # xs) dnum tracker !
          (P (unat ((x # xs) ! i)) + m (unat ((x # xs) ! i)) + canon_rank (x # xs) i) = word_of_nat (s + i)"
      proof (cases i)
        case 0
        then show ?thesis using here eq by simp
      next
        case (Suc j)
        then have "number_symbols (s + 1) xs ?d ?t ! (P (unat (xs ! j)) + ?m (unat (xs ! j)) + canon_rank xs j) =
            word_of_nat (s + 1 + j)"
          using IH i by simp
        then show ?thesis using eq index [of j] Suc by (simp only: nth_Cons_Suc add.assoc) simp
      qed
    next
      fix l r assume "0 < l \<and> l \<le> 15 \<and> r < m l"
      then have "number_symbols (s + 1) xs ?d ?t ! (P l + r) = ?d ! (P l + r)"
        using IH by (cases "l = ?l") auto
      then show "number_symbols s (x # xs) dnum tracker ! (P l + r) = dnum ! (P l + r)"
        using eq old \<open>0 < l \<and> l \<le> 15 \<and> r < m l\<close> by simp
    qed
  qed
qed

section \<open>The direct table\<close>

lemma quick_fill_nth:
  assumes "p + fill < 2 ^ 32" "length q = QUICK_SIZE"
  shows "length (quick_fill (word_of_nat p) fill v q) = QUICK_SIZE \<and>
    (\<forall>e<QUICK_SIZE. quick_fill (word_of_nat p) fill v q ! e = (if p \<le> e \<and> e < p + fill then v else q ! e))"
  using assms(1)
proof (induction fill)
  case 0
  then show ?case using assms(2) by (auto simp: quick_fill_def)
next
  case (Suc k)
  have u: "unat (word_of_nat p + word_of_nat k :: u32) = p + k"
  proof -
    have "word_of_nat p + word_of_nat k = (word_of_nat (p + k) :: u32)" by simp
    then show ?thesis using Suc.prems by (simp only: unsigned_of_nat) (simp add: take_bit_nat_eq_self)
  qed
  have step: "quick_fill (word_of_nat p) (Suc k) v q =
      (if p + k < QUICK_SIZE then (quick_fill (word_of_nat p) k v q)[p + k := v] else quick_fill (word_of_nat p) k v q)"
    by (simp add: quick_fill_def u Let_def)
  show ?case using Suc by (auto simp: step nth_list_update not_less less_Suc_eq)
qed

definition quick_inv ::
  "(nat \<Rightarrow> nat) \<Rightarrow> (nat \<Rightarrow> nat \<Rightarrow> u32) \<Rightarrow> nat \<Rightarrow> u32 list \<Rightarrow> bool" where
  "quick_inv c E b q \<longleftrightarrow> length q = QUICK_SIZE \<and>
     (\<forall>e<QUICK_SIZE. if e < b
        then \<exists>l j. 0 < l \<and> l \<le> 10 \<and> j < c l \<and> e div 2 ^ (10 - l) = canon_first c l + j \<and> q ! e = E l j
        else q ! e = 0)"

lemma quick_inv_fill:
  assumes "quick_inv c E ((canon_first c l + j) * 2 ^ (10 - l)) q" "0 < l" "l \<le> 10" "j < c l"
    and "(canon_first c l + j + 1) * 2 ^ (10 - l) < 2 ^ 32"
  shows "quick_inv c E ((canon_first c l + Suc j) * 2 ^ (10 - l))
    (quick_fill (push_bit (QUICK_BITS - l) (word_of_nat (canon_first c l + j))) (2 ^ (QUICK_BITS - l)) (E l j) q)"
proof -
  let ?p = "(canon_first c l + j) * 2 ^ (10 - l)" and ?f = "2 ^ (10 - l) :: nat"
  have prefix: "push_bit (QUICK_BITS - l) (word_of_nat (canon_first c l + j)) = (word_of_nat ?p :: u32)"
    by (simp add: push_bit_eq_mult QUICK_BITS_def)
  have next_b: "(canon_first c l + Suc j) * 2 ^ (10 - l) = ?p + ?f" by simp
  have nth: "length (quick_fill (word_of_nat ?p) ?f (E l j) q) = QUICK_SIZE \<and>
    (\<forall>e<QUICK_SIZE. quick_fill (word_of_nat ?p) ?f (E l j) q ! e = (if ?p \<le> e \<and> e < ?p + ?f then E l j else q ! e))"
    using assms(1,5) next_b by (intro quick_fill_nth) (simp_all add: quick_inv_def)
  show ?thesis
    unfolding quick_inv_def prefix next_b
  proof (intro conjI allI impI)
    show "length (quick_fill (word_of_nat ?p) (2 ^ (QUICK_BITS - l)) (E l j) q) = QUICK_SIZE"
      using nth by (simp add: QUICK_BITS_def)
    fix e assume e: "e < QUICK_SIZE"
    let ?q = "quick_fill (word_of_nat ?p) (2 ^ (QUICK_BITS - l)) (E l j) q"
    have q: "?q ! e = (if ?p \<le> e \<and> e < ?p + ?f then E l j else q ! e)"
      using nth e by (simp add: QUICK_BITS_def)
    consider "e < ?p" | "?p \<le> e" "e < ?p + ?f" | "?p + ?f \<le> e" by linarith
    then show "if e < ?p + ?f
      then \<exists>l j. 0 < l \<and> l \<le> 10 \<and> j < c l \<and> e div 2 ^ (10 - l) = canon_first c l + j \<and> ?q ! e = E l j
      else ?q ! e = 0"
    proof cases
      case 1
      then show ?thesis using assms(1) e q by (auto simp: quick_inv_def)
    next
      case 2
      have "e div ?f = canon_first c l + j"
        using 2 by (intro div_nat_eqI) (simp_all add: algebra_simps)
      then show ?thesis using 2 q assms(2-4) by auto
    next
      case 3
      then show ?thesis using assms(1) e q by (auto simp: quick_inv_def)
    qed
  qed
qed

lemma quick_symbols_inv:
  assumes "quick_inv c E ((canon_first c l + j) * 2 ^ (10 - l)) q" "0 < l" "l \<le> 10" "j \<le> c l"
    and "canon_end c l * 2 ^ (10 - l) < 2 ^ 32"
    and "\<And>i. i < c l \<Longrightarrow> E l i = push_bit 16 (word_of_nat l) OR ucast (dnum ! (start + i))"
  shows "\<exists>q'. quick_symbols dnum start l [j..<c l] (word_of_nat (canon_first c l + j), q) =
      (word_of_nat (canon_end c l), q') \<and> quick_inv c E (canon_end c l * 2 ^ (10 - l)) q'"
  using assms(1,4)
proof (induction "c l - j" arbitrary: j q)
  case 0
  then show ?case by (simp add: canon_end_def)
next
  case (Suc n)
  then have j: "j < c l" "[j..<c l] = j # [Suc j..<c l]" by (simp_all add: upt_conv_Cons)
  let ?q = "quick_fill (push_bit (QUICK_BITS - l) (word_of_nat (canon_first c l + j))) (2 ^ (QUICK_BITS - l)) (E l j) q"
  have "(canon_first c l + j + 1) * 2 ^ (10 - l) \<le> canon_end c l * 2 ^ (10 - l)"
    using j by (intro mult_le_mono1) (simp add: canon_end_def)
  then have "(canon_first c l + j + 1) * 2 ^ (10 - l) < 2 ^ 32" using assms(5) by (rule order.strict_trans1)
  note inv = quick_inv_fill [OF Suc.prems(1) assms(2,3) j(1) this]
  have "quick_symbols dnum start l [j..<c l] (word_of_nat (canon_first c l + j), q) =
      quick_symbols dnum start l [Suc j..<c l] (word_of_nat (canon_first c l + Suc j), ?q)"
    by (simp add: j(2) assms(6) [OF j(1)] add.commute)
  then show ?case using Suc.hyps(1) [OF _ inv] Suc.hyps(2) j(1) by simp
qed

lemma quick_lengths_inv:
  assumes "quick_inv c E (canon_first c k * 2 ^ (10 - k)) q" "0 < k" "k \<le> 11"
    and "\<And>l. 0 < l \<Longrightarrow> l \<le> 10 \<Longrightarrow> unat (len_count ! l) = c l \<and> canon_end c l * 2 ^ (10 - l) < 2 ^ 32"
    and "\<And>l i. 0 < l \<Longrightarrow> l \<le> 10 \<Longrightarrow> i < c l \<Longrightarrow> E l i = push_bit 16 (word_of_nat l) OR ucast (dnum ! (dpos ! l + i))"
    and "k = 11 \<longrightarrow> quick_inv c E (canon_end c 10) q"
  shows "quick_inv c E (canon_end c 10) (quick_lengths len_count dpos dnum [k..<11] (word_of_nat (canon_first c k), q))"
  using assms(1-3,6)
proof (induction "11 - k" arbitrary: k q)
  case 0
  then show ?case by simp
next
  case (Suc n)
  then have k: "k \<le> 10" "[k..<11] = k # [Suc k..<11]" by (simp_all add: upt_conv_Cons)
  note count = assms(4) [OF Suc.prems(2) k(1)]
  obtain q' where q': "quick_symbols dnum (dpos ! k) k [0..<c k] (word_of_nat (canon_first c k), q) =
      (word_of_nat (canon_end c k), q')" "quick_inv c E (canon_end c k * 2 ^ (10 - k)) q'"
    using quick_symbols_inv [of c E k 0 q dnum "dpos ! k"] Suc.prems k(1) count assms(5) [of k] by auto
  have step: "quick_lengths len_count dpos dnum [k..<11] (word_of_nat (canon_first c k), q) =
      quick_lengths len_count dpos dnum [Suc k..<11] (word_of_nat (canon_first c (Suc k)), q')"
    using q'(1) count by (simp add: k(2) canon_end_def push_bit_eq_mult algebra_simps)
  show ?case
  proof (cases "k = 10")
    case True
    then show ?thesis unfolding step using q'(2) by simp
  next
    case False
    have "10 - k = Suc (10 - Suc k)" using False k(1) by simp
    then have "canon_first c (Suc k) * 2 ^ (10 - Suc k) = canon_end c k * 2 ^ (10 - k)"
      by (simp only: canon_first_Suc power_Suc)
    then show ?thesis
      using Suc.hyps(1) [of "Suc k" q'] Suc.hyps(2) q'(2) k(1) False by (simp add: step)
  qed
qed

section \<open>The tables that dt_new builds\<close>

lemma canon_count_0 [simp]: "canon_count lengths 0 = 0"
  by (simp add: canon_count_def)

lemma canon_end_size:
  assumes "length lengths \<le> 65536" "l \<le> m" "m \<le> 15"
  shows "2 ^ (m - l) * canon_end (canon_count lengths) l < 2 ^ 32"
proof -
  let ?c = "canon_count lengths"
  have "2 * canon_end ?c l \<le> 2 ^ l * length lengths"
    using canon_end_bound [of ?c l] canon_index_le [of lengths "Suc l"]
    by (simp add: canon_count_0) (meson le_trans mult_le_mono2)
  then have "2 ^ (m - l) * (2 * canon_end ?c l) \<le> 2 ^ (m - l) * (2 ^ l * 65536)"
    using assms(1) by (meson le_trans mult_le_mono2)
  also have "\<dots> = 2 ^ m * 65536" using assms(2) by (simp flip: power_add mult.assoc)
  also have "\<dots> \<le> 2 ^ 15 * 65536" using assms(3) by (intro mult_le_mono1 power_increasing) simp_all
  finally show ?thesis by (simp add: mult.commute)
qed

definition dt_entry :: "byte list \<Rightarrow> nat \<Rightarrow> nat \<Rightarrow> u32" where
  "dt_entry lengths l j =
     push_bit 16 (word_of_nat l) OR ucast (word_of_nat (canon_positions lengths l ! j) :: u16)"

lemma length_canon_positions: "0 < l \<Longrightarrow> length (canon_positions lengths l) = canon_count lengths l"
  by (simp add: canon_count_def)

lemma number_symbols_new:
  assumes "length dpos = 17" "\<And>l. l < 16 \<Longrightarrow> 0 < l \<Longrightarrow> dpos ! l = canon_index (canon_count lengths) l"
    and "0 < l" "l \<le> 15" "r < canon_count lengths l"
  defines "dnum \<equiv> number_symbols 0 lengths (replicate (max (length lengths) 1) 0) dpos"
  shows "dnum ! (canon_index (canon_count lengths) l + r) = word_of_nat (canon_positions lengths l ! r)"
    and "canon_index (canon_count lengths) l + r < length dnum"
proof -
  let ?c = "canon_count lengths"
  have spec: "length dnum = max (length lengths) 1 \<and>
    (\<forall>i<length lengths. 0 < unat (lengths ! i) \<and> unat (lengths ! i) \<le> 15 \<longrightarrow>
       dnum ! (canon_index ?c (unat (lengths ! i)) + 0 + canon_rank lengths i) = word_of_nat (0 + i)) \<and>
    (\<forall>l r. 0 < l \<and> l \<le> 15 \<and> r < 0 \<longrightarrow> dnum ! (canon_index ?c l + r) =
       replicate (max (length lengths) 1) 0 ! (canon_index ?c l + r))"
    unfolding dnum_def
  proof (rule number_symbols_spec [where c = ?c])
    show "0 + ?c l \<le> ?c l \<and> canon_index ?c l + ?c l \<le> max (length lengths) 1" for l
      using canon_index_le [of lengths "Suc l"] by simp
    show "l = k \<and> r = t" if "canon_index ?c l + r = canon_index ?c k + t" "r < ?c l" "t < ?c k" for l k r t
      using canon_index_inject [OF that] .
  qed (use assms in auto)
  have k: "r < length (canon_positions lengths l)" using assms by (simp add: length_canon_positions)
  note pos = canon_positions_nth [OF k]
  show "dnum ! (canon_index ?c l + r) = word_of_nat (canon_positions lengths l ! r)"
    using spec pos assms(3,4) by fastforce
  have "canon_index ?c l + r < canon_index ?c (Suc l)" using assms(5) by simp
  then show "canon_index ?c l + r < length dnum" using spec canon_index_le [of lengths "Suc l"] by simp
qed

lemma dt_new_spec:
  assumes n: "length lengths \<le> 65536"
  defines "t \<equiv> dt_new lengths" and "c \<equiv> canon_count lengths"
  shows "num_symbols t = length lengths"
    and "l < 15 \<Longrightarrow> unat (decode_len t ! l) = 2 ^ (15 - l) * canon_end c l"
    and "decode_len t ! 15 = 2 ^ 15"
    and "0 < l \<Longrightarrow> l \<le> 15 \<Longrightarrow> decode_pos t ! l = canon_index c l"
    and "0 < l \<Longrightarrow> l \<le> 15 \<Longrightarrow> unat (decode_count t ! l) = c l"
    and "0 < l \<Longrightarrow> l \<le> 15 \<Longrightarrow> r < c l \<Longrightarrow>
      decode_num t ! (canon_index c l + r) = word_of_nat (canon_positions lengths l ! r) \<and>
      canon_index c l + r < length (decode_num t)"
    and "quick_inv c (dt_entry lengths) (canon_end c 10) (dt_quick t)"
proof -
  let ?count = "length_counts lengths (replicate 17 0)"
  have count: "?count ! l = word_of_nat (c l) \<and> unat (?count ! l) = c l" if "l < 16" for l
    using that counts_nth [of l lengths] unat_counts_nth [OF n, of l] by (simp add: c_def)
  obtain dlen dpos where lim: "limits ?count [1..<16] (word_of_nat (canon_end c 0)) (canon_index c 1)
      (replicate 17 0, replicate 17 0) = (dlen, dpos)" by fastforce
  have c0: "c 0 = 0" "canon_end c 0 = 0" "canon_index c 1 = 0" "canon_index c (Suc 0) = 0"
    by (simp_all add: c_def canon_end_def)
  have d: "length dlen = 17" "length dpos = 17"
    "\<And>l. l < 15 \<Longrightarrow> dlen ! l = word_of_nat (2 ^ (15 - l) * canon_end c l)"
    "\<And>l. l < 16 \<Longrightarrow> 0 < l \<Longrightarrow> dpos ! l = canon_index c l"
  proof -
    have "case limits ?count [1..<16] (word_of_nat (canon_end c (1 - 1))) (canon_index c 1)
        (replicate 17 0, replicate 17 0) of (dlen', dpos') \<Rightarrow> length dlen' = 17 \<and> length dpos' = 17 \<and>
      (\<forall>l<15. dlen' ! l = (if 1 \<le> Suc l then word_of_nat (2 ^ (15 - l) * canon_end c l) else replicate 17 0 ! l)) \<and>
      (\<forall>l<16. dpos' ! l = (if 1 \<le> l then canon_index c l else replicate 17 0 ! l))"
      by (rule limits_spec) (use count c0(1) in blast, simp_all add: c0(1))
    from this [unfolded diff_self_eq_0 lim prod.case] show "length dlen = 17" "length dpos = 17"
      "\<And>l. l < 15 \<Longrightarrow> dlen ! l = word_of_nat (2 ^ (15 - l) * canon_end c l)"
      "\<And>l. l < 16 \<Longrightarrow> 0 < l \<Longrightarrow> dpos ! l = canon_index c l"
      by auto
  qed
  let ?dnum = "number_symbols 0 lengths (replicate (max (length lengths) 1) 0) dpos"
  have t: "t = \<lparr>num_symbols = length lengths, decode_len = dlen[15 := 2 ^ 15], decode_pos = dpos,
      decode_num = ?dnum, decode_count = ?count,
      dt_quick = quick_lengths ?count dpos ?dnum [1..<11] (0, replicate QUICK_SIZE 0)\<rparr>"
    using lim c0 by (simp add: t_def dt_new_def MAX_CODE_LENGTH_def QUICK_BITS_def Let_def)
  note num = number_symbols_new [OF d(2) d(4) [unfolded c_def], folded c_def]
  show "num_symbols t = length lengths" by (simp add: t)
  show "unat (decode_len t ! l) = 2 ^ (15 - l) * canon_end c l" if "l < 15"
    using canon_end_size [OF n, of l 15] that d(3) [OF that] unfolding c_def
    by (simp add: t unsigned_of_nat take_bit_nat_eq_self del: of_nat_mult)
  show "decode_len t ! 15 = 2 ^ 15" using d(1) by (simp add: t)
  show "decode_pos t ! l = canon_index c l" if "0 < l" "l \<le> 15" using d(4) that by (simp add: t)
  have dc: "decode_count t = ?count" by (simp add: t)
  show "unat (decode_count t ! l) = c l" if "0 < l" "l \<le> 15"
    unfolding dc using count [of l] that by linarith
  show "decode_num t ! (canon_index c l + r) = word_of_nat (canon_positions lengths l ! r) \<and>
      canon_index c l + r < length (decode_num t)" if "0 < l" "l \<le> 15" "r < c l"
    using num that by (simp add: t)
  have "quick_inv c (dt_entry lengths) (canon_end c 10)
      (quick_lengths ?count dpos ?dnum [1..<11] (word_of_nat (canon_first c 1), replicate QUICK_SIZE 0))"
  proof (rule quick_lengths_inv)
    show "quick_inv c (dt_entry lengths) (canon_first c 1 * 2 ^ (10 - 1)) (replicate QUICK_SIZE 0)"
      by (simp add: quick_inv_def c0)
    show "unat (?count ! l) = c l \<and> canon_end c l * 2 ^ (10 - l) < 2 ^ 32" if "0 < l" "l \<le> 10" for l
      by (rule conjI, use count [of l] that in linarith)
        (use that canon_end_size [OF n, of l 10] in \<open>simp add: c_def mult.commute\<close>)
    show "dt_entry lengths l i = push_bit 16 (word_of_nat l) OR ucast (?dnum ! (dpos ! l + i))"
      if "0 < l" "l \<le> 10" "i < c l" for l i
      using that num(1) [of l i] d(4) [of l] by (simp add: dt_entry_def)
  qed simp_all
  then show "quick_inv c (dt_entry lengths) (canon_end c 10) (dt_quick t)" using c0(1) by (simp add: t)
qed

section \<open>Decoding finds the canonical code\<close>

text \<open>Past the end of the stream the decoder sees zeroes.\<close>

definition padded :: "bool list \<Rightarrow> bool list" where
  "padded bs = bs @ replicate (15 - length bs) False"

lemma length_padded: "15 \<le> length (padded bs)"
  by (simp add: padded_def)

lemma bits_value_zeroes: "bits_value (bs @ replicate k False) = (push_bit k (bits_value bs) :: 'a::len word)"
proof (induction k)
  case 0
  then show ?case by simp
next
  case (Suc k)
  have "bits_value (bs @ replicate (Suc k) False) = (bits_value ((bs @ replicate k False) @ [False]) :: 'a word)"
    by (simp add: replicate_append_same)
  also have "\<dots> = push_bit 1 (push_bit k (bits_value bs))" unfolding bits_value_snoc Suc by simp
  finally show ?case by (simp add: push_bit_push_bit)
qed

lemma canon_hit_div:
  assumes "15 \<le> length bs" "l \<le> 15"
  shows "canon_hit lengths bs l \<longleftrightarrow>
    canon_first (canon_count lengths) l \<le> bits_nat (take 15 bs) div 2 ^ (15 - l) \<and>
    bits_nat (take 15 bs) div 2 ^ (15 - l) < canon_end (canon_count lengths) l"
  using assms bits_nat_take_div [of l 15 bs] by (simp add: canon_hit_def)

lemma slow_loop_spec:
  assumes n: "length lengths \<le> 65536" and bs: "15 \<le> length bs" and bits: "unat bits = bits_nat (take 15 bs)"
    and "0 < k" "k \<le> 15"
    and "canon_first (canon_count lengths) k \<le> bits_nat (take 15 bs) div 2 ^ (15 - k)"
  shows "(\<exists>l. k \<le> l \<and> l \<le> 15 \<and> canon_hit lengths bs l \<and>
      slow_loop (dt_new lengths) bits [k..<16] r = (Inr (canon_symbol lengths bs l), br_skip_bits l r)) \<or>
    ((\<forall>l. k \<le> l \<and> l \<le> 15 \<longrightarrow> \<not> canon_hit lengths bs l) \<and>
      slow_loop (dt_new lengths) bits [k..<16] r = (Inl ''Huffman decode: invalid code'', r))"
  using assms(4-6)
proof (induction "15 - k" arbitrary: k rule: less_induct)
  case less
  let ?t = "dt_new lengths" and ?c = "canon_count lengths" and ?V = "bits_nat (take 15 bs)"
  note t = dt_new_spec [OF n]
  have upt: "[k..<16] = k # [Suc k..<16]" using less.prems by (simp add: upt_conv_Cons)
  have V: "?V < 2 ^ 15" using bits_nat_less [of "take 15 bs"] bs by simp
  define x where "x = ?V div 2 ^ (15 - k)"
  have x: "canon_first ?c k \<le> x" using less.prems(3) by (simp add: x_def)
  have limit: "bits < decode_len ?t ! k \<longleftrightarrow> k = 15 \<or> x < canon_end ?c k"
  proof (cases "k = 15")
    case True
    then show ?thesis using V t(3) by (simp add: word_less_nat_alt bits)
  next
    case False
    then have "unat (decode_len ?t ! k) = 2 ^ (15 - k) * canon_end ?c k" using t(2) [of k] less.prems(2) by simp
    then show ?thesis
      using False by (simp add: word_less_nat_alt bits x_def div_less_iff_less_mult mult.commute)
  qed
  let ?prev = "if 1 < k then decode_len ?t ! (k - 1) else 0"
  have prev: "unat ?prev = canon_first ?c k * 2 ^ (15 - k)"
  proof (cases "1 < k")
    case True
    then obtain j where j: "k = Suc j" "0 < j" by (cases k) auto
    have "15 - j = Suc (15 - k)" using j less.prems(2) by simp
    then show ?thesis using True t(2) [of j] j less.prems(2) by (simp add: canon_end_def)
  next
    case False
    then have "k = Suc 0" using less.prems(1) by simp
    then show ?thesis by (simp add: canon_end_def)
  qed
  have "canon_first ?c k * 2 ^ (15 - k) \<le> ?V"
    using x unfolding x_def by (simp add: less_eq_div_iff_mult_less_eq)
  then have offset: "unat (drop_bit (15 - k) (bits - ?prev)) = x - canon_first ?c k"
    using prev bits by (simp add: unat_drop_bit unat_sub word_le_nat_alt x_def)
  (metis (no_types, lifting) add.commute add_diff_cancel_right' div_mult_self1 le_add_diff_inverse mult.commute power_not_zero zero_neq_numeral)
  note count = t(5) [OF less.prems(1,2)]
  have hit: "canon_hit lengths bs k \<longleftrightarrow> x < canon_end ?c k"
    using canon_hit_div [OF bs less.prems(2)] x by (simp add: x_def)
  show ?case
  proof (cases "x < canon_end ?c k")
    case True
    then have lt: "x - canon_first ?c k < ?c k" using x by (simp add: canon_end_def)
    note num = t(6) [OF less.prems(1,2) lt]
    have pos: "canon_positions lengths k ! (x - canon_first ?c k) < length lengths"
      using lt less.prems(1) by (intro canon_positions_nth) (simp add: length_canon_positions)
    have take: "bits_nat (take k bs) = x"
      using bits_nat_take_div [of k 15 bs] bs less.prems(2) by (simp add: x_def)
    have "unat (decode_num ?t ! (canon_index ?c k + (x - canon_first ?c k))) = canon_symbol lengths bs k"
      using num pos n by (simp add: canon_symbol_def take unsigned_of_nat take_bit_nat_eq_self)
    then have "slow_loop ?t bits [k..<16] r = (Inr (canon_symbol lengths bs k), br_skip_bits k r)"
      using True limit lt num count offset t(4) [OF less.prems(1,2)]
      by (simp add: upt Let_def MAX_CODE_LENGTH_def get_def)
    then show ?thesis using hit True less.prems(2) by blast
  next
    case False
    show ?thesis
    proof (cases "k = 15")
      case True
      have "\<not> x - canon_first ?c k < ?c k" using False x by (simp add: canon_end_def)
      then have "slow_loop ?t bits [k..<16] r = (Inl ''Huffman decode: invalid code'', r)"
        using True limit count offset by (simp add: upt Let_def MAX_CODE_LENGTH_def)
      then show ?thesis using hit False True by (metis le_antisym)
    next
      case neq: False
      have step: "slow_loop ?t bits [k..<16] r = slow_loop ?t bits [Suc k..<16] r"
        using False neq limit by (simp add: upt)
      have "canon_first ?c (Suc k) \<le> ?V div 2 ^ (15 - Suc k)"
      proof -
        have "15 - k = Suc (15 - Suc k)" using neq less.prems(2) by simp
        then have "x = ?V div 2 ^ (15 - Suc k) div 2" by (simp only: x_def power_Suc2 div_mult2_eq)
        then show ?thesis using False by (simp only: canon_first_Suc)
      qed
      then have IH: "(\<exists>l. Suc k \<le> l \<and> l \<le> 15 \<and> canon_hit lengths bs l \<and>
          slow_loop ?t bits [Suc k..<16] r = (Inr (canon_symbol lengths bs l), br_skip_bits l r)) \<or>
        ((\<forall>l. Suc k \<le> l \<and> l \<le> 15 \<longrightarrow> \<not> canon_hit lengths bs l) \<and>
          slow_loop ?t bits [Suc k..<16] r = (Inl ''Huffman decode: invalid code'', r))"
        using neq less.prems by (intro less.hyps) auto
      then show ?thesis
        unfolding step using hit False by (metis Suc_leD Suc_leI le_neq_implies_less)
    qed
  qed
qed

lemma canon_hit_unpadded:
  assumes "l \<le> length bs"
  shows "canon_hit lengths (padded bs) l = canon_hit lengths bs l"
    and "canon_symbol lengths (padded bs) l = canon_symbol lengths bs l"
proof -
  have "take l (padded bs) = take l bs" using assms by (simp add: padded_def)
  then show "canon_hit lengths (padded bs) l = canon_hit lengths bs l"
    and "canon_symbol lengths (padded bs) l = canon_symbol lengths bs l"
    using assms by (simp_all add: canon_hit_def canon_symbol_def padded_def)
qed

definition huffman_errors :: "string set" where
  "huffman_errors = {''Huffman decode: no bits remaining'', ''Huffman decode: invalid code''}"

definition decodes :: "byte list \<Rightarrow> bitreader \<Rightarrow> (string + nat) \<times> bitreader \<Rightarrow> bool" where
  "decodes lengths r res \<longleftrightarrow>
     (if br_rest r \<noteq> [] \<and> (\<exists>s. canon_next lengths (padded (br_rest r)) s)
      then \<exists>s. canon_next lengths (padded (br_rest r)) s \<and> fst res = Inr s \<and> br_ok (snd res) \<and>
        br_rest (snd res) = drop (unat (lengths ! s)) (br_rest r) \<and> br_data (snd res) = br_data r
      else \<exists>e\<in>huffman_errors. fst res = Inl e \<and> br_ok (snd res) \<and> br_rest (snd res) = br_rest r \<and>
        br_data (snd res) = br_data r)"

lemma decodes_hit:
  assumes "br_ok r" "br_rest r \<noteq> []" "canon_hit lengths (padded (br_rest r)) l" "l \<le> 15"
    and "fst res = Inr (canon_symbol lengths (padded (br_rest r)) l)" "br_ok (snd res)"
    and "br_rest (snd res) = drop l (br_rest r)" "br_data (snd res) = br_data r"
  shows "decodes lengths r res"
proof -
  let ?s = "canon_symbol lengths (padded (br_rest r)) l"
  have "canon_next lengths (padded (br_rest r)) ?s" "unat (lengths ! ?s) = l"
    using canon_next_iff_hit [OF assms(4), of lengths "padded (br_rest r)" ?s] assms(3) by auto
  with assms show ?thesis by (auto simp: decodes_def)
qed

lemma canon_next_hit:
  assumes "canon_next lengths bs s"
  shows "\<exists>l. 0 < l \<and> l \<le> 15 \<and> canon_hit lengths bs l"
proof -
  have l: "unat (lengths ! s) \<le> 15" "0 < unat (lengths ! s)" using assms by (auto simp: canon_next_def)
  then have "canon_hit lengths bs (unat (lengths ! s))"
    using canon_next_iff_hit [OF l(1), of lengths bs s] assms by blast
  with l show ?thesis by blast
qed

lemma decode_symbol_slow_spec:
  assumes n: "length lengths \<le> 65536" and ok: "br_ok r"
  shows "decodes lengths r (decode_symbol_slow (dt_new lengths) r)"
proof (cases "br_rest r = []")
  case True
  then have "br_bits_remaining r = 0" using length_br_rest [OF ok] by simp
  with True ok show ?thesis by (simp add: decodes_def huffman_errors_def decode_symbol_slow_def)
next
  case False
  let ?B = "br_rest r" and ?P = "padded (br_rest r)"
  have avail: "br_bits_remaining r = length ?B" "0 < length ?B"
    using length_br_rest [OF ok] False by (simp, blast)
  let ?pc = "min 15 (length ?B)"
  have peek: "br_peek_bits ?pc r = (Inr (bits_value (take ?pc ?B)), br_fill r)"
  proof -
    have "?pc \<noteq> 0" "?pc \<le> length ?B" "?pc \<le> 32" using avail(2) by linarith+
    then show ?thesis using br_peek_bits_spec [OF ok, of ?pc] by (simp only: if_True if_False)
  qed
  define bits where "bits = (if ?pc < 15 then push_bit (15 - ?pc) (bits_value (take ?pc ?B)) else bits_value (take ?pc ?B) :: u32)"
  have "bits = bits_value (take 15 ?P)"
    by (auto simp: bits_def padded_def bits_value_zeroes min_def not_le)
  then have bits: "unat bits = bits_nat (take 15 ?P)" by (simp add: unat_bits_value padded_def)
  have f: "br_ok (br_fill r)" "br_rest (br_fill r) = ?B" "br_data (br_fill r) = br_data r"
    using br_fill_spec [OF ok] by auto
  have slow: "decode_symbol_slow (dt_new lengths) r = slow_loop (dt_new lengths) bits [1..<16] (br_fill r)"
    using avail peek by (simp add: decode_symbol_slow_def MAX_CODE_LENGTH_def Let_def bits_def)
  have first: "canon_first (canon_count lengths) 1 \<le> bits_nat (take 15 ?P) div 2 ^ (15 - 1)"
    by (simp add: canon_end_def)
  from slow_loop_spec [OF n length_padded bits _ _ first, of "br_fill r"]
  consider l where "1 \<le> l" "l \<le> 15" "canon_hit lengths ?P l"
      "slow_loop (dt_new lengths) bits [1..<16] (br_fill r) = (Inr (canon_symbol lengths ?P l), br_skip_bits l (br_fill r))"
    | "\<forall>l. 1 \<le> l \<and> l \<le> 15 \<longrightarrow> \<not> canon_hit lengths ?P l"
      "slow_loop (dt_new lengths) bits [1..<16] (br_fill r) = (Inl ''Huffman decode: invalid code'', br_fill r)"
    by auto
  then show ?thesis
  proof cases
    case 1
    then show ?thesis
      using br_skip_bits_spec [OF f(1), of l] f by (intro decodes_hit [OF ok False 1(3,2)]) (simp_all add: slow)
  next
    case 2
    then have "\<not> canon_next lengths ?P s" for s using canon_next_hit [of lengths ?P s] by auto
    then show ?thesis using 2(2) f by (simp add: decodes_def huffman_errors_def slow)
  qed
qed

lemma decode_symbol_spec:
  assumes n: "length lengths \<le> 65536" and ok: "br_ok r"
  shows "decodes lengths r (decode_symbol (dt_new lengths) r)"
proof -
  let ?t = "dt_new lengths" and ?c = "canon_count lengths" and ?B = "br_rest r"
  note peek = br_peek_bits_spec [OF ok, of 10]
  have f: "br_ok (br_fill r)" "br_rest (br_fill r) = ?B" "br_data (br_fill r) = br_data r"
    using br_fill_spec [OF ok] by auto
  have slow: "decodes lengths r (decode_symbol_slow ?t (br_fill r))"
    using decode_symbol_slow_spec [OF n f(1)] unfolding decodes_def f .
  show ?thesis
  proof (cases "10 \<le> length ?B")
    case False
    then show ?thesis using peek slow by (simp add: decode_symbol_def QUICK_BITS_def)
  next
    case True
    let ?e = "bits_nat (take 10 ?B)"
    have e: "?e < QUICK_SIZE" using bits_nat_less [of "take 10 ?B"] True by (simp add: QUICK_SIZE_def QUICK_BITS_def)
    have prefix: "unat (bits_value (take 10 ?B) :: u32) = ?e" using True by (simp add: unat_bits_value)
    have dec: "decode_symbol ?t r = (let entry = dt_quick ?t ! ?e; cl = drop_bit 16 entry in
        if cl \<noteq> 0 then (Inr (unat (entry AND 0xffff)), br_skip_bits (unat cl) (br_fill r))
        else decode_symbol_slow ?t (br_fill r))"
      using True peek by (simp add: decode_symbol_def QUICK_BITS_def prefix)
    have quick: "if ?e < canon_end ?c 10
      then \<exists>l j. 0 < l \<and> l \<le> 10 \<and> j < ?c l \<and> ?e div 2 ^ (10 - l) = canon_first ?c l + j \<and>
        dt_quick ?t ! ?e = dt_entry lengths l j
      else dt_quick ?t ! ?e = 0"
      using dt_new_spec(7) [OF n] e unfolding quick_inv_def by blast
    show ?thesis
    proof (cases "?e < canon_end ?c 10")
      case False
      then show ?thesis using quick slow by (simp add: dec)
    next
      case small: True
      then obtain l j where l: "0 < l" "l \<le> 10" "j < ?c l" "?e div 2 ^ (10 - l) = canon_first ?c l + j"
          "dt_quick ?t ! ?e = dt_entry lengths l j" using quick by auto
      have take: "bits_nat (take l ?B) = canon_first ?c l + j"
        using bits_nat_take_div [of l 10 ?B] l True by simp
      have "l \<le> length ?B" using l True by simp
      note pad = canon_hit_unpadded [OF this]
      have hit: "canon_hit lengths (padded ?B) l" unfolding pad
        using take l True by (simp add: canon_hit_def canon_end_def)
      have symbol: "canon_symbol lengths (padded ?B) l = canon_positions lengths l ! j"
        unfolding pad by (simp add: canon_symbol_def take)
      have pos: "canon_positions lengths l ! j < length lengths"
        using l by (intro canon_positions_nth) (simp add: length_canon_positions)
      have u: "unat (word_of_nat (canon_positions lengths l ! j) :: u16) = canon_positions lengths l ! j"
        using n pos by (simp add: unsigned_of_nat take_bit_nat_eq_self)
      have entry: "unat (drop_bit 16 (dt_entry lengths l j)) = l"
        "unat (dt_entry lengths l j AND 0xffff) = canon_positions lengths l ! j"
      proof -
        let ?u = "word_of_nat (canon_positions lengths l ! j) :: u16"
        have "drop_bit 16 (dt_entry lengths l j) = word_of_nat l"
        proof (rule bit_word_eqI)
          fix i assume "i < LENGTH(32)"
          have "i < 16" if "bit (word_of_nat l :: u32) i"
          proof -
            have "take_bit 16 (word_of_nat l :: u32) = word_of_nat l"
              using l(2) by (simp add: word_unat_eq_iff unat_take_bit unsigned_of_nat take_bit_nat_eq_self)
            then have "bit (word_of_nat l :: u32) i = bit (take_bit 16 (word_of_nat l :: u32)) i" by (simp only:)
            then show ?thesis using that by (metis bit_take_bit_iff)
          qed
          then show "bit (drop_bit 16 (dt_entry lengths l j)) i = bit (word_of_nat l :: u32) i"
            unfolding dt_entry_def
            by (auto simp: bit_drop_bit_eq bit_or_iff bit_push_bit_iff bit_ucast_iff dest: bit_imp_le_length)
        qed
        then show "unat (drop_bit 16 (dt_entry lengths l j)) = l"
          using l(2) by (simp add: unsigned_of_nat take_bit_nat_eq_self)
        have "(0xffff :: u32) = mask 16" by (simp add: mask_eq_exp_minus_1)
        then have "dt_entry lengths l j AND 0xffff = take_bit 16 (dt_entry lengths l j)"
          by (simp only: take_bit_eq_mask)
        also have "\<dots> = ucast ?u"
          unfolding dt_entry_def
          by (rule bit_word_eqI) (auto simp: bit_take_bit_iff bit_or_iff bit_push_bit_iff bit_ucast_iff dest: bit_imp_le_length)
        finally have "dt_entry lengths l j AND 0xffff = ucast ?u" .
        then show "unat (dt_entry lengths l j AND 0xffff) = canon_positions lengths l ! j"
          using u n pos by (simp add: unat_ucast_mod)
      qed
      have "drop_bit 16 (dt_entry lengths l j) \<noteq> 0" using entry(1) l(1) by auto
      then have dec': "decode_symbol ?t r = (Inr (canon_positions lengths l ! j), br_skip_bits l (br_fill r))"
        using l(5) entry by (simp add: dec)
      have "?B \<noteq> []" using True by auto
      then show ?thesis
        using br_skip_bits_spec [OF f(1), of l] f l(2) hit symbol
        by (intro decodes_hit [OF ok _ hit]) (simp_all add: dec')
    qed
  qed
qed

text \<open>A decoded symbol costs at least one bit, whatever the tables hold.\<close>

lemma br_peek_bits_Inr:
  "0 < n \<Longrightarrow> br_peek_bits n r = (Inr v, r') \<Longrightarrow> 0 < br_bits r' \<and> br_bits_remaining r' = br_bits_remaining r"
  by (auto simp: br_peek_bits_def Let_def br_fill_remaining split: if_splits)

lemma pays_slow_loop:
  assumes "0 < br_bits r" "\<forall>i\<in>set is. 0 < i"
  shows "br_bits_remaining (snd (slow_loop t bits is r)) +
    (case fst (slow_loop t bits is r) of Inl _ \<Rightarrow> 0 | Inr _ \<Rightarrow> 1) \<le> br_bits_remaining r"
  using assms
proof (induction t bits "is" r rule: slow_loop.induct)
  case (1 t bits r)
  then show ?case by simp
next
  case (2 t bits i "is" r)
  then show ?case
    using br_skip_remaining_less [OF _ 2(2), of i] br_skip_remaining [of i r]
    by (auto simp: Let_def ok_or_def Suc_le_eq split: option.splits)
qed

lemma pays_decode_symbol_slow: "pays br_bits_remaining 1 (decode_symbol_slow t)"
  unfolding pays_def
proof
  fix r
  show "br_bits_remaining (snd (decode_symbol_slow t r)) +
    (case fst (decode_symbol_slow t r) of Inl _ \<Rightarrow> 0 | Inr _ \<Rightarrow> 1) \<le> br_bits_remaining r"
  proof (cases "br_bits_remaining r = 0")
    case True
    then show ?thesis by (simp add: decode_symbol_slow_def)
  next
    case False
    let ?n = "min 15 (br_bits_remaining r)"
    obtain x r' where peek: "br_peek_bits ?n r = (x, r')" by fastforce
    have fill: "br_bits_remaining r' = br_bits_remaining r"
      using peek by (auto simp: br_peek_bits_def Let_def br_fill_remaining split: if_splits)
    show ?thesis
    proof (cases x)
      case (Inl e)
      then show ?thesis using peek fill False by (simp add: decode_symbol_slow_def MAX_CODE_LENGTH_def Let_def)
    next
      case (Inr v)
      then have "0 < br_bits r'" using br_peek_bits_Inr [of ?n r v r'] peek False by simp
      then show ?thesis
        using pays_slow_loop [of r' "[1..<16]"] peek fill False Inr
        by (simp add: decode_symbol_slow_def MAX_CODE_LENGTH_def Let_def del: upt_rec_numeral)
    qed
  qed
qed

lemma pays_decode_symbol: "pays br_bits_remaining 1 (decode_symbol t)"
  unfolding pays_def
proof
  fix r
  obtain x r' where peek: "br_peek_bits 10 r = (x, r')" by fastforce
  have fill: "br_bits_remaining r' = br_bits_remaining r"
    using peek by (auto simp: br_peek_bits_def Let_def br_fill_remaining split: if_splits)
  have slow: "br_bits_remaining (snd (decode_symbol_slow t r')) +
    (case fst (decode_symbol_slow t r') of Inl _ \<Rightarrow> 0 | Inr _ \<Rightarrow> 1) \<le> br_bits_remaining r"
    using pays_decode_symbol_slow fill by (metis pays_def)
  show "br_bits_remaining (snd (decode_symbol t r)) +
    (case fst (decode_symbol t r) of Inl _ \<Rightarrow> 0 | Inr _ \<Rightarrow> 1) \<le> br_bits_remaining r"
  proof (cases x)
    case (Inl e)
    then show ?thesis using peek slow by (simp add: decode_symbol_def QUICK_BITS_def)
  next
    case (Inr v)
    then have "0 < br_bits r'" using br_peek_bits_Inr [of 10 r v r'] peek by simp
    then have "cl \<noteq> 0 \<Longrightarrow> br_bits_remaining (br_skip_bits (unat cl) r') < br_bits_remaining r" for cl :: u32
      using br_skip_remaining_less [of "unat cl" r'] fill by (simp add: unat_gt_0)
    then show ?thesis
      using peek slow Inr by (auto simp: decode_symbol_def QUICK_BITS_def Let_def Suc_le_eq)
  qed
qed

section \<open>Encoding writes the canonical code\<close>

lemma next_codes_spec:
  assumes "\<And>l. 0 < l \<Longrightarrow> l < 16 \<Longrightarrow> count ! l = word_of_nat (c l)" "length acc = 17" "0 < k" "k \<le> 16"
  shows "length (next_codes count [k..<16] (word_of_nat (canon_end c (k - 1))) acc) = 17 \<and>
    (\<forall>l<16. next_codes count [k..<16] (word_of_nat (canon_end c (k - 1))) acc ! l =
       (if k \<le> l then word_of_nat (canon_first c l) else acc ! l))"
  using assms(2-4)
proof (induction "16 - k" arbitrary: k acc)
  case 0
  then show ?case by simp
next
  case (Suc n)
  from Suc have k: "k < 16" "[k..<16] = k # [Suc k..<16]" by (simp_all add: upt_conv_Cons)
  obtain j where j: "k = Suc j" using Suc.prems(2) by (cases k) auto
  have "push_bit 1 (word_of_nat (canon_end c j)) = (word_of_nat (canon_first c k) :: u32)"
    by (simp add: j canon_end_def push_bit_eq_mult algebra_simps)
  moreover have "word_of_nat (canon_first c k) + count ! k = (word_of_nat (canon_end c k) :: u32)"
    using assms(1) [of k] Suc.prems(2) k(1) by (simp add: canon_end_def)
  moreover have "k - 1 = j" "Suc k - 1 = k" by (simp_all add: j)
  ultimately have step: "next_codes count [k..<16] (word_of_nat (canon_end c (k - 1))) acc =
      next_codes count [Suc k..<16] (word_of_nat (canon_end c (Suc k - 1))) (acc[k := word_of_nat (canon_first c k)])"
    by (simp only: k(2) next_codes.simps Let_def)
  let ?acc = "acc[k := word_of_nat (canon_first c k)]"
  let ?r = "next_codes count [Suc k..<16] (word_of_nat (canon_end c (Suc k - 1))) ?acc"
  have IH: "length ?r = 17 \<and> (\<forall>l<16. ?r ! l = (if Suc k \<le> l then word_of_nat (canon_first c l) else ?acc ! l))"
    using Suc.hyps(1) [of "Suc k" ?acc] Suc.hyps(2) Suc.prems k(1) by simp
  have "?r ! l = (if k \<le> l then word_of_nat (canon_first c l) else acc ! l)" if "l < 16" for l
    using IH that Suc.prems(1) by (cases "l = k") auto
  then show ?case unfolding step using IH by blast
qed

lemma symbol_codes_spec:
  assumes "length nc = 17" "i < length lengths" "0 < unat (lengths ! i)" "unat (lengths ! i) \<le> 15"
  shows "symbol_codes lengths nc ! i = nc ! unat (lengths ! i) + word_of_nat (canon_rank lengths i)"
  using assms
proof (induction lengths arbitrary: nc i)
  case Nil
  then show ?case by simp
next
  case (Cons x xs)
  show ?case
  proof (cases i)
    case 0
    then show ?thesis using Cons.prems by (simp add: MAX_CODE_LENGTH_def)
  next
    case (Suc j)
    show ?thesis
    proof (cases "0 < unat x \<and> unat x \<le> 15")
      case False
      then have "x \<noteq> xs ! j" using Cons.prems Suc by auto
      then show ?thesis
        using False Suc Cons.IH [of nc j] Cons.prems by (auto simp: MAX_CODE_LENGTH_def canon_rank_Cons)
    next
      case True
      then show ?thesis
        using Suc Cons.IH [of "nc[unat x := nc ! unat x + 1]" j] Cons.prems
        by (auto simp: MAX_CODE_LENGTH_def canon_rank_Cons nth_list_update word_unat_eq_iff add.assoc)
    qed
  qed
qed

lemma et_new_codes:
  assumes "length lengths \<le> 65536" "s < length lengths" "0 < unat (lengths ! s)" "unat (lengths ! s) \<le> 15"
  shows "et_codes (et_new lengths) ! s = word_of_nat (canon_code lengths s)"
proof -
  let ?count = "length_counts lengths (replicate 17 0)" and ?c = "canon_count lengths"
  let ?nc = "next_codes ?count [1..<16] (word_of_nat (canon_end ?c (1 - 1))) (replicate 17 0)"
  have nc: "length ?nc = 17 \<and> (\<forall>l<16. ?nc ! l = (if 1 \<le> l then word_of_nat (canon_first ?c l) else replicate 17 0 ! l))"
    by (rule next_codes_spec) (simp_all add: counts_nth)
  have "et_codes (et_new lengths) = symbol_codes lengths ?nc"
    by (simp add: et_new_def MAX_CODE_LENGTH_def Let_def canon_end_def)
  then show ?thesis
    using symbol_codes_spec [of ?nc s lengths] nc assms by (simp add: canon_code_def)
qed

section \<open>Properties\<close>

text \<open>The lengths a writer may use: at most 15 bits, not oversubscribed.\<close>

definition kraft_ok :: "byte list \<Rightarrow> bool" where
  "kraft_ok lengths \<longleftrightarrow> canon_end (canon_count lengths) 15 \<le> 2 ^ 15"

fun encode_symbols :: "encode_table \<Rightarrow> nat list \<Rightarrow> bitwriter \<Rightarrow> bitwriter" where
  "encode_symbols t [] w = w"
| "encode_symbols t (s # ss) w = encode_symbols t ss (encode_symbol t s w)"

fun decode_symbols :: "decode_table \<Rightarrow> nat \<Rightarrow> bitreader \<Rightarrow> (string + nat list) \<times> bitreader" where
  "decode_symbols t 0 = sreturn []"
| "decode_symbols t (Suc n) =
     sbind (decode_symbol t) (\<lambda>s. sbind (decode_symbols t n) (\<lambda>ss. sreturn (s # ss)))"

definition code_bits :: "byte list \<Rightarrow> nat \<Rightarrow> bool list" where
  "code_bits lengths s = field_bits (unat (lengths ! s)) (word_of_nat (canon_code lengths s))"

lemma length_code_bits [simp]: "length (code_bits lengths s) = unat (lengths ! s)"
  by (simp add: code_bits_def)

definition coded :: "byte list \<Rightarrow> nat \<Rightarrow> bool" where
  "coded lengths s \<longleftrightarrow> s < length lengths \<and> 0 < unat (lengths ! s) \<and> unat (lengths ! s) \<le> 15"

lemma encode_symbols_bits:
  assumes "length lengths \<le> 65536"
  shows "\<forall>s\<in>set ss. coded lengths s \<Longrightarrow> bw_ok w \<Longrightarrow> bw_ok (encode_symbols (et_new lengths) ss w) \<and>
    bw_bits (encode_symbols (et_new lengths) ss w) = bw_bits w @ concat (map (code_bits lengths) ss)"
proof (induction ss arbitrary: w)
  case Nil
  then show ?case by simp
next
  case (Cons s ss)
  have "et_lengths (et_new lengths) = lengths" by (simp add: et_new_def Let_def)
  then have "encode_symbol (et_new lengths) s w =
      bw_write_bits (word_of_nat (canon_code lengths s)) (unat (lengths ! s)) w"
    using Cons.prems(1) et_new_codes [OF assms, of s] by (simp add: encode_symbol_def coded_def)
  then show ?case
    using Cons bw_write_bits_spec [OF Cons.prems(2)] by (simp add: code_bits_def)
qed

lemma canon_next_code_bits:
  assumes "kraft_ok lengths" "coded lengths s"
  shows "canon_next lengths (code_bits lengths s @ rest) s"
proof -
  let ?l = "unat (lengths ! s)" and ?c = "canon_count lengths"
  have s: "s < length lengths" "0 < ?l" "?l \<le> 15" using assms(2) by (auto simp: coded_def)
  have "canon_code lengths s < canon_end ?c ?l"
    using canon_positions_rank(1) [OF s(1) refl] s(2) by (simp add: canon_code_def canon_end_def canon_count_def)
  also have "\<dots> \<le> 2 ^ ?l" using canon_kraft_down [of ?c 15 ?l] assms(1) s(3) by (simp add: kraft_ok_def)
  finally have less: "canon_code lengths s < 2 ^ ?l" .
  have "(2 :: nat) ^ ?l \<le> 2 ^ 15" using s(3) by (intro power_increasing) simp_all
  with less have small: "canon_code lengths s < 2 ^ 32" by simp
  have "unat (bits_value (code_bits lengths s) :: u32) = canon_code lengths s"
    using field_bits_value [of ?l "word_of_nat (canon_code lengths s)"] s(3) less small
    by (simp add: code_bits_def unat_take_bit unsigned_of_nat take_bit_nat_eq_self)
  then have "bits_nat (code_bits lengths s) = canon_code lengths s"
    using unat_bits_value [of "code_bits lengths s", where 'a = 32] s(3) by (simp add: code_bits_def)
  then show ?thesis using s by (simp add: canon_next_def code_bits_def)
qed

lemma canon_next_padded: "canon_next lengths bs s \<Longrightarrow> canon_next lengths (padded bs) s"
  by (simp add: canon_next_def padded_def)

lemma decode_symbol_next:
  assumes "length lengths \<le> 65536" "br_ok r" "canon_next lengths (br_rest r) s"
  shows "\<exists>r'. decode_symbol (dt_new lengths) r = (Inr s, r') \<and> br_ok r' \<and>
    br_rest r' = drop (unat (lengths ! s)) (br_rest r) \<and> br_data r' = br_data r"
proof -
  have "br_rest r \<noteq> []" using assms(3) by (auto simp: canon_next_def)
  moreover have "\<exists>t. canon_next lengths (padded (br_rest r)) t" using canon_next_padded [OF assms(3)] by blast
  ultimately obtain t where t: "canon_next lengths (padded (br_rest r)) t" "fst (decode_symbol (dt_new lengths) r) = Inr t"
      "br_ok (snd (decode_symbol (dt_new lengths) r))"
      "br_rest (snd (decode_symbol (dt_new lengths) r)) = drop (unat (lengths ! t)) (br_rest r)"
      "br_data (snd (decode_symbol (dt_new lengths) r)) = br_data r"
    using decode_symbol_spec [OF assms(1,2)] by (auto simp: decodes_def split: if_splits)
  then have "t = s" using canon_next_unique canon_next_padded [OF assms(3)] by blast
  with t show ?thesis by (metis prod.collapse)
qed

lemma decode_symbols_bits:
  assumes "length lengths \<le> 65536" "kraft_ok lengths"
  shows "\<forall>s\<in>set ss. coded lengths s \<Longrightarrow> br_ok r \<Longrightarrow>
    br_rest r = concat (map (code_bits lengths) ss) @ rest \<Longrightarrow>
    fst (decode_symbols (dt_new lengths) (length ss) r) = Inr ss"
proof (induction ss arbitrary: r)
  case Nil
  then show ?case by simp
next
  case (Cons s ss)
  have "canon_next lengths (br_rest r) s"
    using canon_next_code_bits [OF assms(2), of s] Cons.prems by simp
  from decode_symbol_next [OF assms(1) Cons.prems(2) this]
  obtain r' where r': "decode_symbol (dt_new lengths) r = (Inr s, r')" "br_ok r'"
      "br_rest r' = concat (map (code_bits lengths) ss) @ rest"
    using Cons.prems(3) by auto
  obtain x r'' where rec: "decode_symbols (dt_new lengths) (length ss) r' = (x, r'')" by fastforce
  have "x = Inr ss" using Cons.IH [OF _ r'(2,3)] Cons.prems(1) rec by simp
  then show ?case using r'(1) rec by (simp add: sbind_def sreturn_def)
qed

text \<open>C20: The RAR5 Huffman decoder returns a symbol exactly when bits are left and the canonical
  code of that symbol is the next thing in the stream, the stream being continued with zeroes past
  its end, and then consumes exactly that code; for every other stream it fails without consuming
  anything. The fast table, the length table and the tail of the stream agree, for every list of
  lengths, oversubscribed and incomplete ones included.\<close>

theorem decode_symbol_iff:
  assumes "length lengths \<le> 65536" "br_ok r"
  shows "(fst (decode_symbol (dt_new lengths) r) = Inr s \<longleftrightarrow>
      br_rest r \<noteq> [] \<and> canon_next lengths (padded (br_rest r)) s) \<and>
    br_ok (snd (decode_symbol (dt_new lengths) r)) \<and>
    br_rest (snd (decode_symbol (dt_new lengths) r)) =
      (case fst (decode_symbol (dt_new lengths) r) of
         Inl _ \<Rightarrow> br_rest r | Inr t \<Rightarrow> drop (unat (lengths ! t)) (br_rest r))"
  using decode_symbol_spec [OF assms] canon_next_unique [of lengths "padded (br_rest r)"]
  by (auto simp: decodes_def split: if_splits)

theorem decode_symbol_iff_witness:
  "fst (decode_symbol (dt_new [1, 2, 2]) (br_new [0x80])) = Inr 1"
proof -
  have "canon_next [1, 2, 2] (padded (br_rest (br_new [0x80]))) 1"
    by code_simp
  then show ?thesis
    using decode_symbol_iff [of "[1, 2, 2]" "br_new [0x80]" 1] by (simp add: stream_bits_Cons byte_bits_def)
qed

text \<open>C22: A sequence of symbols encoded with EncodeTable decodes to itself, symbol by symbol, for
  every list of at most 65536 lengths that satisfies Kraft's inequality and every sequence of symbols
  that have a code, whatever follows in the stream.\<close>

theorem huffman_roundtrip:
  assumes "length lengths \<le> 65536" "kraft_ok lengths" "\<forall>s\<in>set ss. coded lengths s"
  shows "fst (decode_symbols (dt_new lengths) (length ss)
      (br_new (bw_into_bytes (encode_symbols (et_new lengths) ss bw_new) @ suffix))) = Inr ss"
proof -
  let ?w = "encode_symbols (et_new lengths) ss bw_new"
  have w: "bw_ok ?w" "bw_bits ?w = concat (map (code_bits lengths) ss)"
    using encode_symbols_bits [OF assms(1,3), of bw_new] by auto
  obtain pad where "stream_bits (bw_into_bytes ?w) = bw_bits ?w @ pad"
    using bw_into_bytes_bits [OF w(1)] by blast
  then have "br_rest (br_new (bw_into_bytes ?w @ suffix)) =
      concat (map (code_bits lengths) ss) @ pad @ stream_bits suffix"
    by (simp add: stream_bits_append w(2))
  from decode_symbols_bits [OF assms(1,2,3) br_new_ok this] show ?thesis .
qed

theorem huffman_roundtrip_witness:
  "fst (decode_symbols (dt_new [1, 0, 3, 3, 2]) 4
      (br_new (bw_into_bytes (encode_symbols (et_new [1, 0, 3, 3, 2]) [3, 0, 4, 2] bw_new) @ [0xFF]))) = Inr [3, 0, 4, 2]"
proof -
  have lengths: "length [1, 0, 3, 3, 2 :: byte] \<le> 65536" by simp
  have kraft: "kraft_ok [1, 0, 3, 3, 2]"
    by (simp add: kraft_ok_def canon_end_def canon_first_numeral canon_count_list)
  have coded: "\<forall>s\<in>set [3, 0, 4, 2]. coded [1, 0, 3, 3, 2] s" by (simp add: coded_def)
  have four: "length [3, 0, 4, 2 :: nat] = 4" by simp
  show ?thesis using huffman_roundtrip [OF lengths kraft coded, of "[0xFF]"] unfolding four .
qed

end
