(* ===== verification/Rar5Tables.thy ===== *)
theory Rar5Tables
  imports ModernHuffman
begin

text \<open>
  The bit-level primitives of the RAR5/RAR7 decoder (codec/modern/lzss_huff/decoder/tables.rs): the
  Huffman tables of a block, the length and distance codes, the distance cache and the filter
  records. Errors of the bit stream and of the Huffman decoder become \<open>Format\<close> errors as they
  cross into this layer.
\<close>

section \<open>Vocabulary\<close>

text \<open>\<open>Panic\<close> stands for the failing assertions and underflows of the source.\<close>

datatype rar_error = Format string | Panic

definition HUFF_BC :: nat where "HUFF_BC = 20"
definition HUFF_NC :: nat where "HUFF_NC = 306"
definition HUFF_DC :: nat where "HUFF_DC = 64"
definition HUFF_DCX :: nat where "HUFF_DCX = 80"
definition HUFF_LDC :: nat where "HUFF_LDC = 16"
definition HUFF_RC :: nat where "HUFF_RC = 44"
definition NIBBLE_ESCAPE :: byte where "NIBBLE_ESCAPE = 15"

definition format_err :: "(bitreader \<Rightarrow> (string + 'a) \<times> bitreader) \<Rightarrow> bitreader \<Rightarrow> (rar_error + 'a) \<times> bitreader" where
  "format_err = smap_err Format"

section \<open>Code lengths\<close>

text \<open>
  The twenty lengths of the table that codes the other tables: nibbles, with 15 as an escape for
  runs of zeroes.
\<close>

function read_bc_lengths :: "byte list \<Rightarrow> bitreader \<Rightarrow> (rar_error + byte list) \<times> bitreader" where
  "read_bc_lengths bc_lengths =
     (if length bc_lengths < HUFF_BC then
        sbind (format_err (br_read_bits 4)) (\<lambda>val.
          if (ucast val :: byte) = NIBBLE_ESCAPE then
            sbind (format_err (br_read_bits 4)) (\<lambda>next_val.
              if (ucast next_val :: byte) = 0 then read_bc_lengths (bc_lengths @ [15])
              else read_bc_lengths (bc_lengths @
                replicate (min (unat (ucast next_val :: byte) + 2) (HUFF_BC - length bc_lengths)) 0))
          else read_bc_lengths (bc_lengths @ [ucast val]))
      else sreturn bc_lengths)"
  by pat_completeness auto
termination
  by (relation "measure (\<lambda>bc_lengths. HUFF_BC - length bc_lengths)") auto

declare read_bc_lengths.simps [simp del]

fun fill_run :: "nat \<Rightarrow> byte \<Rightarrow> nat \<Rightarrow> nat \<Rightarrow> byte list \<Rightarrow> byte list \<times> nat" where
  "fill_run 0 v count i lengths = (lengths, i)"
| "fill_run (Suc n) v count i lengths =
     (if count \<le> i then (lengths, i) else fill_run n v count (i + 1) (lengths[i := v]))"

lemma fill_run_spec:
  "length (fst (fill_run n v count i lengths)) = length lengths \<and>
   snd (fill_run n v count i lengths) = (if count \<le> i then i else min (i + n) count)"
  by (induction n v count i lengths rule: fill_run.induct) auto

lemma fill_run_less:
  assumes "(lengths', j) = fill_run n v count i lengths" "0 < n" "i < count"
  shows "count - j < count - i"
proof -
  have "j = snd (fill_run n v count i lengths)" using assms(1) by (metis snd_conv)
  with assms(2,3) fill_run_spec [of n v count i lengths] show ?thesis by auto
qed

function read_lengths_loop ::
  "decode_table \<Rightarrow> nat \<Rightarrow> nat \<Rightarrow> byte list \<Rightarrow> bitreader \<Rightarrow> (rar_error + byte list) \<times> bitreader" where
  "read_lengths_loop bc count i lengths =
     (if i < count then
        sbind (format_err (decode_symbol bc)) (\<lambda>s.
          if s < 16 then read_lengths_loop bc count (i + 1) (lengths[i := word_of_nat s])
          else if s < 18 then
            if i = 0 then sfail (Format ''run-length repeat with no previous length'')
            else
              sbind (if s = 16 then format_err (br_read_bits 3) else format_err (br_read_bits 7)) (\<lambda>extra.
                let repeat = (if s = 16 then 3 else 11) + unat extra;
                    (lengths, i) = fill_run repeat (lengths ! (i - 1)) count i lengths in
                read_lengths_loop bc count i lengths)
          else
            sbind (if s = 18 then format_err (br_read_bits 3) else format_err (br_read_bits 7)) (\<lambda>extra.
              let repeat = (if s = 18 then 3 else 11) + unat extra;
                  (lengths, i) = fill_run repeat 0 count i lengths in
              read_lengths_loop bc count i lengths))
      else sreturn lengths)"
  by pat_completeness auto
termination
  by (relation "measure (\<lambda>(bc, count, i, lengths). count - i)") (auto dest!: fill_run_less split: if_splits)

declare read_lengths_loop.simps [simp del]

definition read_code_lengths ::
  "decode_table \<Rightarrow> nat \<Rightarrow> bitreader \<Rightarrow> (rar_error + byte list) \<times> bitreader" where
  "read_code_lengths bc count = read_lengths_loop bc count 0 (replicate count 0)"

definition read_tables ::
  "bool \<Rightarrow> bitreader \<Rightarrow>
    (rar_error + decode_table \<times> decode_table \<times> decode_table \<times> decode_table) \<times> bitreader" where
  "read_tables extra_dist =
     (let dc_count = (if extra_dist then HUFF_DCX else HUFF_DC) in
      sbind (read_bc_lengths []) (\<lambda>bc_lengths.
        sbind (read_code_lengths (dt_new bc_lengths) (HUFF_NC + dc_count + HUFF_LDC + HUFF_RC)) (\<lambda>all_lengths.
          sreturn (dt_new (take HUFF_NC all_lengths),
                   dt_new (take dc_count (drop HUFF_NC all_lengths)),
                   dt_new (take HUFF_LDC (drop (HUFF_NC + dc_count) all_lengths)),
                   dt_new (drop (HUFF_NC + dc_count + HUFF_LDC) all_lengths)))))"

section \<open>Lengths and distances\<close>

definition decode_length :: "nat \<Rightarrow> bitreader \<Rightarrow> (string + u32) \<times> bitreader" where
  "decode_length slot =
     (if slot < 8 then sreturn (2 + word_of_nat slot)
      else let lbits = slot div 4 - 1;
               base = 2 + word_of_nat (push_bit lbits (4 OR (slot AND 3))) in
        if 0 < lbits then sbind (br_read_bits lbits) (\<lambda>extra. sreturn (base + extra))
        else sreturn base)"

definition decode_distance :: "nat \<Rightarrow> decode_table \<Rightarrow> bitreader \<Rightarrow> (string + u64) \<times> bitreader" where
  "decode_distance dist_slot table_ldc =
     (if dist_slot < 4 then sreturn (1 + word_of_nat dist_slot)
      else let dbits = dist_slot div 2 - 1;
               dist = 1 + push_bit dbits (word_of_nat (2 OR (dist_slot AND 1))) in
        if 0 < dbits then
          if 4 \<le> dbits then
            sbind (if 4 < dbits then
                     let extra_bits = dbits - 4 in
                     sbind (if 32 < extra_bits then br_read_bits_u64 extra_bits
                            else sbind (br_read_bits extra_bits) (\<lambda>v. sreturn (ucast v)))
                       (\<lambda>upper. sreturn (dist + push_bit 4 upper))
                   else sreturn dist) (\<lambda>dist.
              sbind (decode_symbol table_ldc) (\<lambda>low_dist. sreturn (dist + word_of_nat low_dist)))
          else sbind (br_read_bits dbits) (\<lambda>extra. sreturn (dist + ucast extra))
        else sreturn dist)"

section \<open>Distance cache and length bonus\<close>

definition dist_cache_push :: "u64 list \<Rightarrow> u64 \<Rightarrow> u64 list" where
  "dist_cache_push cache value =
     (let cache = cache[3 := cache ! 2]; cache = cache[2 := cache ! 1]; cache = cache[1 := cache ! 0] in
      cache[0 := value])"

fun shift_down :: "nat \<Rightarrow> u64 list \<Rightarrow> u64 list" where
  "shift_down 0 cache = cache"
| "shift_down (Suc i) cache = shift_down i (cache[Suc i := cache ! i])"

definition dist_cache_touch :: "u64 list \<Rightarrow> nat \<Rightarrow> u64 \<times> u64 list" where
  "dist_cache_touch cache idx =
     (let value = cache ! idx in (value, (shift_down idx cache)[0 := value]))"

definition apply_length_bonus_u64 :: "u32 \<Rightarrow> u64 \<Rightarrow> u32" where
  "apply_length_bonus_u64 n dist =
     (let l = n;
          l = (if 0x100 < dist then l + 1 else l);
          l = (if 0x2000 < dist then l + 1 else l);
          l = (if 0x40000 < dist then l + 1 else l) in l)"

section \<open>Filter records\<close>

record pending_filter =
  pf_type :: byte
  pf_start :: nat
  pf_length :: nat
  pf_channels :: byte
  pf_applied :: bool

fun filter_bytes :: "nat list \<Rightarrow> u32 \<Rightarrow> bitreader \<Rightarrow> (rar_error + u32) \<times> bitreader" where
  "filter_bytes [] value = sreturn value"
| "filter_bytes (i # is) value =
     sbind (format_err (br_read_bits 8)) (\<lambda>b. filter_bytes is (value OR push_bit (i * 8) b))"

definition parse_filter_data :: "bitreader \<Rightarrow> (rar_error + u32) \<times> bitreader" where
  "parse_filter_data =
     sbind (format_err (br_read_bits 2)) (\<lambda>v.
       let byte_count = unat (v + 1) in filter_bytes [0..<byte_count] 0)"

definition parse_filter :: "nat \<Rightarrow> bitreader \<Rightarrow> (rar_error + pending_filter) \<times> bitreader" where
  "parse_filter write_pos =
     sbind parse_filter_data (\<lambda>start. sbind parse_filter_data (\<lambda>len.
       sbind (format_err (br_read_bits 3)) (\<lambda>ty.
         sbind (if (ucast ty :: byte) = 0
                then sbind (format_err (br_read_bits 5)) (\<lambda>c. sreturn (ucast c + 1 :: byte))
                else sreturn 0) (\<lambda>channels.
           sreturn \<lparr>pf_type = ucast ty, pf_start = write_pos + unat start, pf_length = unat len,
                    pf_channels = channels, pf_applied = False\<rparr>))))"

section \<open>Keeping the reader sound\<close>

text \<open>
  \<open>keeps m\<close>: a success of \<open>m\<close> leaves a sound reader of the same data, no earlier in
  the stream. \<open>table_ok\<close>: the tables that the decoder builds.
\<close>

definition keeps :: "(bitreader \<Rightarrow> ('e + 'a) \<times> bitreader) \<Rightarrow> bool" where
  "keeps m \<longleftrightarrow> (\<forall>r a r'. br_ok r \<longrightarrow> m r = (Inr a, r') \<longrightarrow>
     br_ok r' \<and> br_data r' = br_data r \<and> br_consumed_bits r \<le> br_consumed_bits r')"

definition table_ok :: "decode_table \<Rightarrow> bool" where
  "table_ok t \<longleftrightarrow> (\<exists>lengths. length lengths \<le> 65536 \<and> t = dt_new lengths)"

named_theorems keeps_intros \<open>operations that keep the reader sound\<close>
named_theorems pays_intros \<open>operations that never unread bits\<close>

lemma keepsD:
  "keeps m \<Longrightarrow> br_ok r \<Longrightarrow> m r = (Inr a, r') \<Longrightarrow>
     br_ok r' \<and> br_data r' = br_data r \<and> br_consumed_bits r \<le> br_consumed_bits r'"
  unfolding keeps_def by blast

lemma keeps_sreturn [keeps_intros]: "keeps (sreturn a)"
  by (simp add: keeps_def)

lemma keeps_sfail [keeps_intros]: "keeps (sfail e)"
  by (simp add: keeps_def)

lemma keeps_Pair [keeps_intros]: "keeps (Pair x)"
  by (simp add: keeps_def)

lemma keeps_sbind [keeps_intros]:
  assumes "keeps m" "\<And>a. keeps (f a)"
  shows "keeps (sbind m f)"
  unfolding keeps_def sbind_eq_Inr
proof (intro allI impI)
  fix r b r'' assume r: "br_ok r" "\<exists>a r'. m r = (Inr a, r') \<and> f a r' = (Inr b, r'')"
  then obtain a r' where m: "m r = (Inr a, r')" "f a r' = (Inr b, r'')" by blast
  note k = keepsD [OF assms(1) r(1) m(1)]
  with keepsD [OF assms(2) _ m(2)] show "br_ok r'' \<and> br_data r'' = br_data r \<and> br_consumed_bits r \<le> br_consumed_bits r''"
    by auto
qed

lemma keeps_format_err [keeps_intros]: "keeps m \<Longrightarrow> keeps (format_err m)"
  unfolding keeps_def format_err_def smap_err_eq_Inr .

lemma keeps_rest:
  assumes "\<And>r a r'. br_ok r \<Longrightarrow> m r = (Inr a, r') \<Longrightarrow>
    br_ok r' \<and> br_data r' = br_data r \<and> length (br_rest r') \<le> length (br_rest r)"
  shows "keeps m"
  unfolding keeps_def
proof (intro allI impI)
  fix r a r' assume r: "br_ok r" "m r = (Inr a, r')"
  note k = assms [OF r]
  with br_consumed_rest [of r] br_consumed_rest [of r'] r(1)
  show "br_ok r' \<and> br_data r' = br_data r \<and> br_consumed_bits r \<le> br_consumed_bits r'" by auto
qed

lemma keeps_br_read_bits [keeps_intros]: "keeps (br_read_bits n)"
proof (rule keeps_rest)
  fix r a r' assume "br_ok r" "br_read_bits n r = (Inr a, r')"
  with br_read_bits_spec [of r n] show "br_ok r' \<and> br_data r' = br_data r \<and> length (br_rest r') \<le> length (br_rest r)"
    by (auto split: if_splits)
qed

lemma keeps_br_read_bits_u64 [keeps_intros]: "n \<le> 64 \<Longrightarrow> keeps (br_read_bits_u64 n)"
proof (rule keeps_rest)
  fix r a r' assume "n \<le> 64" "br_ok r" "br_read_bits_u64 n r = (Inr a, r')"
  with br_read_bits_u64_spec [of r n] show "br_ok r' \<and> br_data r' = br_data r \<and> length (br_rest r') \<le> length (br_rest r)"
    by (auto split: if_splits)
qed

lemma table_okD: "table_ok t \<Longrightarrow> \<exists>lengths. length lengths \<le> 65536 \<and> t = dt_new lengths"
  by (simp add: table_ok_def)

lemma keeps_decode_symbol [keeps_intros]:
  assumes "table_ok t"
  shows "keeps (decode_symbol t)"
proof -
  obtain lengths where l: "length lengths \<le> 65536" "t = dt_new lengths" using table_okD [OF assms] by blast
  show ?thesis
  proof (rule keeps_rest)
    fix r s r' assume r: "br_ok r" "decode_symbol t r = (Inr s, r')"
    have "decodes lengths r (Inr s, r')" using decode_symbol_spec [OF l(1) r(1)] r(2) l(2) by simp
    then show "br_ok r' \<and> br_data r' = br_data r \<and> length (br_rest r') \<le> length (br_rest r)"
      by (auto simp: decodes_def split: if_splits)
  qed
qed

lemma decode_symbol_bound:
  assumes "length lengths \<le> 65536" "br_ok r" "decode_symbol (dt_new lengths) r = (Inr s, r')"
  shows "s < length lengths"
proof -
  have "decodes lengths r (Inr s, r')" using decode_symbol_spec [OF assms(1,2)] assms(3) by simp
  then show ?thesis by (auto simp: decodes_def canon_next_def split: if_splits)
qed

section \<open>The lengths that are read\<close>

lemma ucast_nibble:
  assumes "br_ok r" "br_read_bits 4 r = (Inr v, r')"
  shows "unat (ucast v :: byte) \<le> 15"
proof -
  have "v = bits_value (take 4 (br_rest r))" "4 \<le> length (br_rest r)"
    using br_read_bits_spec [OF assms(1), of 4] assms(2) by (auto split: if_splits)
  then have "unat v < 2 ^ 4"
    using unat_bits_value_less [of "take 4 (br_rest r)", where 'a = 32] by simp
  then show ?thesis by (simp add: unat_ucast_mod)
qed

lemma format_err_eq_Inr [simp]: "format_err m r = (Inr a, r') \<longleftrightarrow> m r = (Inr a, r')"
  by (simp add: format_err_def)

lemma read_bc_lengths_spec:
  assumes "br_ok r" "\<forall>l\<in>set ls. unat l \<le> 15" "length ls \<le> HUFF_BC" "read_bc_lengths ls r = (Inr ls', r')"
  shows "length ls' = HUFF_BC \<and> (\<forall>l\<in>set ls'. unat l \<le> 15) \<and>
    br_ok r' \<and> br_data r' = br_data r \<and> br_consumed_bits r \<le> br_consumed_bits r'"
  using assms
proof (induction "HUFF_BC - length ls" arbitrary: ls r rule: less_induct)
  case less
  show ?case
  proof (cases "length ls < HUFF_BC")
    case False
    then show ?thesis using less.prems by (auto simp: read_bc_lengths.simps [of ls])
  next
    case True
    obtain v r1 where r1: "br_read_bits 4 r = (Inr v, r1)"
        "(if (ucast v :: byte) = NIBBLE_ESCAPE then
            sbind (format_err (br_read_bits 4)) (\<lambda>next_val.
              if (ucast next_val :: byte) = 0 then read_bc_lengths (ls @ [15])
              else read_bc_lengths (ls @ replicate (min (unat (ucast next_val :: byte) + 2) (HUFF_BC - length ls)) 0))
          else read_bc_lengths (ls @ [ucast v])) r1 = (Inr ls', r')"
      using less.prems(4) True by (auto simp: read_bc_lengths.simps [of ls] sbind_eq_Inr)
    note k1 = keepsD [OF keeps_br_read_bits less.prems(1) r1(1)]
    show ?thesis
    proof (cases "(ucast v :: byte) = NIBBLE_ESCAPE")
      case False
      have lt: "HUFF_BC - length (ls @ [ucast v]) < HUFF_BC - length ls" using True by simp
      have "\<forall>l\<in>set (ls @ [ucast v]). unat l \<le> 15"
        using less.prems(2) ucast_nibble [OF less.prems(1) r1(1)] by simp
      from less.hyps [OF lt _ this, of r1] show ?thesis
        using r1 k1 True False by (auto intro: order.trans)
    next
      case escape: True
      obtain w r2 where r2: "br_read_bits 4 r1 = (Inr w, r2)"
          "(if (ucast w :: byte) = 0 then read_bc_lengths (ls @ [15])
            else read_bc_lengths (ls @ replicate (min (unat (ucast w :: byte) + 2) (HUFF_BC - length ls)) 0)) r2 = (Inr ls', r')"
        using r1(2) escape by (auto simp: sbind_eq_Inr)
      note k2 = keepsD [OF keeps_br_read_bits _ r2(1)]
      show ?thesis
      proof (cases "(ucast w :: byte) = 0")
        case True
        then show ?thesis
          using less.hyps [of "ls @ [15]" r2] diff_less_mono2 [OF lessI \<open>length ls < HUFF_BC\<close>] r2 k1 k2 less.prems(2) \<open>length ls < HUFF_BC\<close> by (auto intro: order.trans)
      next
        case False
        then show ?thesis
          using less.hyps [of "ls @ replicate (min (unat (ucast w :: byte) + 2) (HUFF_BC - length ls)) 0" r2]
            r2 k1 k2 less.prems(2) \<open>length ls < HUFF_BC\<close> by (auto intro: order.trans)
      qed
    qed
  qed
qed

lemma fill_run_set:
  "set (fst (fill_run n v count i lengths)) \<subseteq> insert v (set lengths)"
  by (induction n v count i lengths rule: fill_run.induct) (auto dest!: subsetD [OF set_update_subset_insert])

lemma read_lengths_loop_spec:
  assumes "br_ok r" "length bc = 20" "\<forall>l\<in>set lengths. unat l \<le> 15" "length lengths = count"
    and "read_lengths_loop (dt_new bc) count i lengths r = (Inr ls, r')"
  shows "length ls = count \<and> (\<forall>l\<in>set ls. unat l \<le> 15) \<and>
    br_ok r' \<and> br_data r' = br_data r \<and> br_consumed_bits r \<le> br_consumed_bits r'"
  using assms
proof (induction "count - i" arbitrary: i lengths r rule: less_induct)
  case less
  let ?t = "dt_new bc"
  have t: "table_ok ?t" using less.prems(2) unfolding table_ok_def by (intro exI [of _ bc]) simp
  show ?case
  proof (cases "i < count")
    case False
    then show ?thesis using less.prems by (auto simp: read_lengths_loop.simps [of ?t count i])
  next
    case True
    obtain s r1 where s: "decode_symbol ?t r = (Inr s, r1)"
      and rest: "(if s < 16 then read_lengths_loop ?t count (i + 1) (lengths[i := word_of_nat s])
          else if s < 18 then
            if i = 0 then sfail (Format ''run-length repeat with no previous length'')
            else
              sbind (if s = 16 then format_err (br_read_bits 3) else format_err (br_read_bits 7)) (\<lambda>extra.
                let repeat = (if s = 16 then 3 else 11) + unat extra;
                    (lengths, i) = fill_run repeat (lengths ! (i - 1)) count i lengths in
                read_lengths_loop ?t count i lengths)
          else
            sbind (if s = 18 then format_err (br_read_bits 3) else format_err (br_read_bits 7)) (\<lambda>extra.
              let repeat = (if s = 18 then 3 else 11) + unat extra;
                  (lengths, i) = fill_run repeat 0 count i lengths in
              read_lengths_loop ?t count i lengths)) r1 = (Inr ls, r')"
      using less.prems(5) True unfolding read_lengths_loop.simps [of ?t count i] sbind_eq_Inr if_P [OF True] format_err_eq_Inr
      by blast
    note k1 = keepsD [OF keeps_decode_symbol [OF t] less.prems(1) s]
    show ?thesis
    proof (cases "s < 16")
      case small: True
      have "\<forall>l\<in>set (lengths[i := word_of_nat s]). unat l \<le> 15"
        using less.prems(3) small set_update_subset_insert [of lengths i "word_of_nat s"]
        by (auto simp: unsigned_of_nat take_bit_nat_eq_self)
      then show ?thesis
        using less.hyps [of "i + 1" r1 "lengths[i := word_of_nat s]"] rest k1 small less.prems(2,4) True
        by (auto intro: order.trans)
    next
      case False
      obtain n v w x r2 where run: "0 < n" "v = 0 \<or> v \<in> set lengths" "br_read_bits w r1 = (Inr x, r2)"
          "read_lengths_loop ?t count (snd (fill_run n v count i lengths))
             (fst (fill_run n v count i lengths)) r2 = (Inr ls, r')"
      proof (cases "s < 18")
        case True
        then have i: "i \<noteq> 0" using rest False by (auto split: if_splits)
        then have "lengths ! (i - 1) \<in> set lengths" using \<open>i < count\<close> less.prems(4) by simp
        then show ?thesis
          using rest True False i
            that [of "3 + _" "lengths ! (i - 1)" 3] that [of "11 + _" "lengths ! (i - 1)" 7]
          by (cases "s = 16") (auto simp: sbind_eq_Inr Let_def split_beta)
      next
        case False
        then show ?thesis
          using rest \<open>\<not> s < 16\<close> that [of "3 + _" 0 3] that [of "11 + _" 0 7]
          by (cases "s = 18") (auto simp: sbind_eq_Inr Let_def split_beta)
      qed
      note k2 = keepsD [OF keeps_br_read_bits _ run(3)]
      let ?f = "fill_run n v count i lengths"
      have f: "length (fst ?f) = count" "snd ?f = min (i + n) count"
        using fill_run_spec [of n v count i lengths] less.prems(4) True by simp_all
      have "\<forall>l\<in>set (fst ?f). unat l \<le> 15"
        using fill_run_set [of n v count i lengths] run(2) less.prems(3) by auto
      moreover have "count - snd ?f < count - i" using f(2) run(1) True by simp
      ultimately show ?thesis
        using less.hyps [of "snd ?f" r2 "fst ?f"] k1 k2 run(4) f(1) less.prems(2) by (auto intro: order.trans)
    qed
  qed
qed

definition table_of :: "nat \<Rightarrow> decode_table \<Rightarrow> bool" where
  "table_of n t \<longleftrightarrow> (\<exists>lengths. length lengths = n \<and> (\<forall>l\<in>set lengths. unat l \<le> 15) \<and> t = dt_new lengths)"

lemma table_of_ok: "table_of n t \<Longrightarrow> n \<le> 65536 \<Longrightarrow> table_ok t"
  by (auto simp: table_of_def table_ok_def)

lemma table_of_decode:
  assumes "table_of n t" "n \<le> 65536" "br_ok r" "decode_symbol t r = (Inr s, r')"
  shows "s < n"
  using assms decode_symbol_bound by (auto simp: table_of_def)

definition dc_count :: "bool \<Rightarrow> nat" where
  "dc_count extra_dist = (if extra_dist then HUFF_DCX else HUFF_DC)"

lemma read_tables_spec:
  assumes "br_ok r" "read_tables extra_dist r = (Inr (nc, dc, ldc, rc), r')"
  shows "table_of HUFF_NC nc \<and> table_of (dc_count extra_dist) dc \<and> table_of HUFF_LDC ldc \<and> table_of HUFF_RC rc \<and>
    br_ok r' \<and> br_data r' = br_data r \<and> br_consumed_bits r \<le> br_consumed_bits r'"
proof -
  let ?dc = "dc_count extra_dist"
  obtain bc r1 ls where bc: "read_bc_lengths [] r = (Inr bc, r1)"
    and ls: "read_code_lengths (dt_new bc) (HUFF_NC + ?dc + HUFF_LDC + HUFF_RC) r1 = (Inr ls, r')"
    and t: "nc = dt_new (take HUFF_NC ls)" "dc = dt_new (take ?dc (drop HUFF_NC ls))"
      "ldc = dt_new (take HUFF_LDC (drop (HUFF_NC + ?dc) ls))" "rc = dt_new (drop (HUFF_NC + ?dc + HUFF_LDC) ls)"
    using assms(2) by (auto simp: read_tables_def sbind_eq_Inr Let_def dc_count_def)
  have s1: "length bc = 20 \<and> (\<forall>l\<in>set bc. unat l \<le> 15) \<and> br_ok r1 \<and> br_data r1 = br_data r \<and>
      br_consumed_bits r \<le> br_consumed_bits r1"
    using read_bc_lengths_spec [OF assms(1) _ _ bc] by (simp add: HUFF_BC_def)
  have s2: "length ls = HUFF_NC + ?dc + HUFF_LDC + HUFF_RC \<and> (\<forall>l\<in>set ls. unat l \<le> 15) \<and>
      br_ok r' \<and> br_data r' = br_data r1 \<and> br_consumed_bits r1 \<le> br_consumed_bits r'"
    using read_lengths_loop_spec [of r1 bc "replicate (HUFF_NC + ?dc + HUFF_LDC + HUFF_RC) 0"
        "HUFF_NC + ?dc + HUFF_LDC + HUFF_RC" 0 ls r'] ls s1 by (simp add: read_code_lengths_def)
  have part: "table_of n (dt_new xs)" if "length xs = n" "set xs \<subseteq> set ls" for n xs
    using that s2 by (auto simp: table_of_def)
  have "table_of HUFF_NC nc" unfolding t using s2 by (intro part) (auto dest: in_set_takeD)
  moreover have "table_of ?dc dc" unfolding t
    using s2 by (intro part) (auto simp: HUFF_LDC_def dest!: in_set_takeD in_set_dropD)
  moreover have "table_of HUFF_LDC ldc" unfolding t
    using s2 by (intro part) (auto dest!: in_set_takeD in_set_dropD)
  moreover have "table_of HUFF_RC rc" unfolding t using s2 by (intro part) (auto dest!: in_set_dropD)
  ultimately show ?thesis using s1 s2 by auto
qed

section \<open>Lengths, distances and records\<close>

lemma keeps_decode_length [keeps_intros]: "keeps (decode_length slot)"
  by (auto simp: decode_length_def Let_def intro!: keeps_intros)

lemma keeps_decode_distance [keeps_intros]:
  assumes "table_ok t" "slot < 80"
  shows "keeps (decode_distance slot t)"
proof -
  have "slot div 2 - 1 - 4 \<le> 64" using assms(2) by simp
  then show ?thesis
    using assms(1) by (auto simp: decode_distance_def Let_def intro!: keeps_intros)
qed

lemma keeps_filter_bytes [keeps_intros]: "keeps (filter_bytes is v)"
  by (induction "is" v rule: filter_bytes.induct) (auto intro!: keeps_intros)

lemma keeps_parse_filter [keeps_intros]: "keeps (parse_filter pos)"
  by (auto simp: parse_filter_def parse_filter_data_def Let_def intro!: keeps_intros)

lemma parse_filter_start:
  assumes "parse_filter pos r = (Inr f, r')"
  shows "pos \<le> pf_start f \<and> \<not> pf_applied f"
  using assms by (auto simp: parse_filter_def sbind_eq_Inr)

text \<open>No operation ever unreads a bit, whatever the state (the termination of the symbol loop).\<close>

lemma pays0_sbind [pays_intros]:
  "pays cost 0 m \<Longrightarrow> (\<And>a. pays cost 0 (f a)) \<Longrightarrow> pays cost 0 (sbind m f)"
  using pays_sbind [of cost 0 m 0 f] by simp

lemma pays0_format_err [pays_intros]: "pays cost 0 m \<Longrightarrow> pays cost 0 (format_err m)"
  unfolding format_err_def by (rule pays_smap_err)

lemma pays0_decode_symbol [pays_intros]: "pays br_bits_remaining 0 (decode_symbol t)"
  by (rule pays_mono [OF pays_decode_symbol]) simp

lemma pays_Pair [pays_intros]: "pays cost 0 (Pair x)"
  by (auto simp: pays_def split: sum.split)

lemmas pays_readers [pays_intros] =
  pays_sreturn pays_sfail pays_br_read_bits pays_br_read_bits_u64

lemma pays_filter_bytes [pays_intros]: "pays br_bits_remaining 0 (filter_bytes is v)"
  by (induction "is" v rule: filter_bytes.induct) (auto intro!: pays_intros)

lemma pays_parse_filter: "pays br_bits_remaining 0 (parse_filter pos)"
  by (auto simp: parse_filter_def parse_filter_data_def Let_def intro!: pays_intros)

section \<open>The slots of lengths and distances\<close>

text \<open>
  The reference reading: a slot has a number of extra bits, and starts where the earlier slots,
  each taking two to the number of its extra bits of values, end.
\<close>

definition length_slot_bits :: "nat \<Rightarrow> nat" where
  "length_slot_bits slot = (if slot < 8 then 0 else slot div 4 - 1)"

definition dist_slot_bits :: "nat \<Rightarrow> nat" where
  "dist_slot_bits slot = (if slot < 4 then 0 else slot div 2 - 1)"

fun slot_base :: "(nat \<Rightarrow> nat) \<Rightarrow> nat \<Rightarrow> nat \<Rightarrow> nat" where
  "slot_base bits start 0 = start"
| "slot_base bits start (Suc slot) = slot_base bits start slot + 2 ^ bits slot"

lemma slot_base_run:
  "(\<And>i. m \<le> i \<Longrightarrow> i < m + n \<Longrightarrow> bits i = b) \<Longrightarrow> slot_base bits start (m + n) = slot_base bits start m + n * 2 ^ b"
  by (induction n) auto

lemma slot_base_mono: "i \<le> j \<Longrightarrow> slot_base bits start i \<le> slot_base bits start j"
  by (induction j) (auto simp: le_Suc_eq)

lemma slot_tile:
  assumes "start \<le> v" "v < slot_base bits start n"
  shows "\<exists>!p. fst p < n \<and> snd p < 2 ^ bits (fst p) \<and> slot_base bits start (fst p) + snd p = v"
proof -
  have mono: "slot_base bits start i + 2 ^ bits i \<le> slot_base bits start j" if "i < j" for i j
    using that by (induction j) (auto simp: less_Suc_eq)
  have ex: "\<exists>p. fst p < n \<and> snd p < 2 ^ bits (fst p) \<and> slot_base bits start (fst p) + snd p = v"
    using assms(2)
  proof (induction n)
    case 0
    then show ?case using assms(1) by simp
  next
    case (Suc n)
    show ?case
    proof (cases "v < slot_base bits start n")
      case True
      then show ?thesis using Suc.IH by (metis less_SucI)
    next
      case False
      then show ?thesis
        using Suc.prems by (intro exI [of _ "(n, v - slot_base bits start n)"]) auto
    qed
  qed
  have "p = q" if "fst p < n \<and> snd p < 2 ^ bits (fst p) \<and> slot_base bits start (fst p) + snd p = v"
    "fst q < n \<and> snd q < 2 ^ bits (fst q) \<and> slot_base bits start (fst q) + snd q = v" for p q
  proof -
    have "fst p = fst q"
      using that mono [of "fst p" "fst q"] mono [of "fst q" "fst p"] by (cases "fst p" "fst q" rule: linorder_cases) auto
    with that show ?thesis by (auto intro: prod_eqI)
  qed
  with ex show ?thesis by blast
qed

lemma or_low_bits:
  assumes "x < 2 ^ k"
  shows "2 ^ k OR x = 2 ^ k + (x :: nat)"
proof -
  have "2 ^ k AND x = 0"
  proof (rule bit_eqI)
    fix n
    have "\<not> bit x k" using assms by (metis bit_take_bit_iff order_less_irrefl take_bit_nat_eq_self)
    then show "bit (2 ^ k AND x) n = bit (0 :: nat) n" by (auto simp: bit_and_iff bit_exp_iff)
  qed
  then show ?thesis by (rule disjunctive_add_eq_or [symmetric])
qed

lemma small_slots:
  "slot \<le> 8 \<Longrightarrow> slot_base length_slot_bits 2 slot = 2 + slot"
  "slot \<le> 4 \<Longrightarrow> slot_base dist_slot_bits 1 slot = 1 + slot"
proof -
  show "slot_base length_slot_bits 2 slot = 2 + slot" if "slot \<le> 8"
    using slot_base_run [of 0 slot length_slot_bits 0 2] that by (simp add: length_slot_bits_def)
  show "slot_base dist_slot_bits 1 slot = 1 + slot" if "slot \<le> 4"
    using slot_base_run [of 0 slot dist_slot_bits 0 1] that by (simp add: dist_slot_bits_def)
qed

lemma length_slot_base:
  assumes "8 \<le> slot"
  shows "slot_base length_slot_bits 2 slot = 2 + push_bit (slot div 4 - 1) (4 OR (slot AND 3))"
proof -
  have four: "slot_base length_slot_bits 2 (4 * k) = 2 + 4 * 2 ^ (k - 1)" if "2 \<le> k" for k
    using that
  proof (induction k rule: dec_induct)
    case base
    show ?case using small_slots(1) [of 8] by simp
  next
    case (step k)
    have "length_slot_bits i = k - 1" if "4 * k \<le> i" "i < 4 * k + 4" for i
    proof -
      have "i div 4 = k" using that by (intro div_nat_eqI) auto
      then show ?thesis using step(1) that by (simp add: length_slot_bits_def)
    qed
    from slot_base_run [of "4 * k" 4 length_slot_bits "k - 1" 2, OF this]
    have "slot_base length_slot_bits 2 (4 * k + 4) = slot_base length_slot_bits 2 (4 * k) + 4 * 2 ^ (k - 1)" .
    moreover have "(2 :: nat) ^ (Suc k - 1) = 2 * 2 ^ (k - 1)" using step(1) by (cases k) auto
    moreover have "4 * Suc k = 4 * k + 4" by simp
    ultimately show ?case using step(3) by (simp only:)
  qed
  define k b where "k = slot div 4" and "b = slot mod 4"
  have slot: "slot = 4 * k + b" "2 \<le> k" "b < 4" using assms by (auto simp: k_def b_def)
  have "length_slot_bits i = k - 1" if "4 * k \<le> i" "i < 4 * k + b" for i
  proof -
    have "i div 4 = k" using that slot(3) by (intro div_nat_eqI) auto
    then show ?thesis using slot(2) that by (simp add: length_slot_bits_def)
  qed
  from slot_base_run [of "4 * k" b length_slot_bits "k - 1" 2, OF this] four [OF slot(2)]
  have "slot_base length_slot_bits 2 slot = 2 + (4 + b) * 2 ^ (k - 1)"
    by (simp add: slot(1) algebra_simps)
  moreover have "4 OR (slot AND 3) = 4 + b"
  proof -
    have "slot AND 3 = slot AND mask 2" by (simp add: mask_nat_def)
    then have "slot AND 3 = b" by (simp only: take_bit_eq_mask [symmetric] take_bit_eq_mod b_def) simp
    then show ?thesis using or_low_bits [of b 2] slot(3) by simp
  qed
  ultimately show ?thesis by (simp add: push_bit_eq_mult k_def)
qed

lemma dist_slot_base:
  assumes "4 \<le> slot"
  shows "slot_base dist_slot_bits 1 slot = 1 + push_bit (slot div 2 - 1) (2 OR (slot AND 1))"
proof -
  have two: "slot_base dist_slot_bits 1 (2 * k) = 1 + 2 * 2 ^ (k - 1)" if "2 \<le> k" for k
    using that
  proof (induction k rule: dec_induct)
    case base
    show ?case using small_slots(2) [of 4] by simp
  next
    case (step k)
    have "dist_slot_bits i = k - 1" if "2 * k \<le> i" "i < 2 * k + 2" for i
    proof -
      have "i div 2 = k" using that by (intro div_nat_eqI) auto
      then show ?thesis using step(1) that by (simp add: dist_slot_bits_def)
    qed
    from slot_base_run [of "2 * k" 2 dist_slot_bits "k - 1" 1, OF this]
    have "slot_base dist_slot_bits 1 (2 * k + 2) = slot_base dist_slot_bits 1 (2 * k) + 2 * 2 ^ (k - 1)" .
    moreover have "(2 :: nat) ^ (Suc k - 1) = 2 * 2 ^ (k - 1)" using step(1) by (cases k) auto
    moreover have "2 * Suc k = 2 * k + 2" by simp
    ultimately show ?case using step(3) by (simp only:)
  qed
  define k b where "k = slot div 2" and "b = slot mod 2"
  have slot: "slot = 2 * k + b" "2 \<le> k" "b < 2" using assms by (auto simp: k_def b_def)
  have "dist_slot_bits i = k - 1" if "2 * k \<le> i" "i < 2 * k + b" for i
  proof -
    have "i div 2 = k" using that slot(3) by (intro div_nat_eqI) auto
    then show ?thesis using slot(2) that by (simp add: dist_slot_bits_def)
  qed
  from slot_base_run [of "2 * k" b dist_slot_bits "k - 1" 1, OF this] two [OF slot(2)]
  have "slot_base dist_slot_bits 1 slot = 1 + (2 + b) * 2 ^ (k - 1)"
    by (simp add: slot(1) algebra_simps)
  moreover have "2 OR (slot AND 1) = 2 + b"
  proof -
    have "slot AND 1 = b" by (simp add: b_def and_one_eq)
    then show ?thesis using or_low_bits [of b 1] slot(3) by simp
  qed
  ultimately show ?thesis by (simp add: push_bit_eq_mult k_def)
qed

lemma unat_word_of_nat: "x < 2 ^ LENGTH('a) \<Longrightarrow> unat (word_of_nat x :: 'a::len word) = x"
  by (simp add: unsigned_of_nat take_bit_nat_eq_self)

lemma decode_length_value:
  assumes "br_ok r" "length_slot_bits slot \<le> length (br_rest r)" "length_slot_bits slot \<le> 32"
  shows "fst (decode_length slot r) =
    Inr (word_of_nat (slot_base length_slot_bits 2 slot + bits_nat (take (length_slot_bits slot) (br_rest r))))"
proof (cases "slot < 8")
  case True
  then show ?thesis using small_slots(1) [of slot] by (simp add: decode_length_def length_slot_bits_def)
next
  case False
  let ?b = "slot div 4 - 1"
  have b: "length_slot_bits slot = ?b" "0 < ?b" using False by (auto simp: length_slot_bits_def)
  obtain r' where "br_read_bits ?b r = (Inr (bits_value (take ?b (br_rest r))), r')"
    using br_read_bits_spec [OF assms(1), of ?b] assms(2) b(1) by auto
  moreover have "(bits_value (take ?b (br_rest r)) :: u32) = word_of_nat (bits_nat (take ?b (br_rest r)))"
    using assms(3) b(1) by (intro bits_value_eq_nat) simp
  ultimately show ?thesis
    using False b length_slot_base [of slot] by (simp add: decode_length_def Let_def sbind_def sreturn_def)
qed

lemma distance_bits:
  assumes "br_ok r" "n \<le> 64"
    "(if 32 < n then br_read_bits_u64 n else sbind (br_read_bits n) (\<lambda>v. sreturn (ucast v))) r = (Inr v, r')"
  shows "unat v < 2 ^ n \<and> br_ok r'"
proof (cases "32 < n")
  case True
  with assms br_read_bits_u64_spec [OF assms(1,2)] have v: "v = bits_value (take n (br_rest r))" "n \<le> length (br_rest r)" "br_ok r'"
    by (auto split: if_splits)
  then show ?thesis using unat_bits_value_less [of "take n (br_rest r)", where 'a = 64] assms(2) by simp
next
  case False
  then obtain w where w: "br_read_bits n r = (Inr w, r')" "v = ucast w"
    using assms(3) by (auto simp: sbind_eq_Inr)
  then have "w = bits_value (take n (br_rest r))" "n \<le> length (br_rest r)" "br_ok r'"
    using br_read_bits_spec [OF assms(1), of n] by (auto split: if_splits)
  then have "unat w < 2 ^ n" using unat_bits_value_less [of "take n (br_rest r)", where 'a = 32] False by simp
  moreover have "unat v = unat w"
  proof -
    have "unat w < 2 ^ LENGTH(32)" by (rule unsigned_less)
    then show ?thesis using w(2) by (simp add: unat_ucast_mod)
  qed
  ultimately show ?thesis using \<open>br_ok r'\<close> by simp
qed

lemma decode_distance_value:
  assumes r: "br_ok r" and slot: "slot < 80" and t: "table_of 16 ldc" and "decode_distance slot ldc r = (Inr d, r')"
  shows "\<exists>extra<2 ^ dist_slot_bits slot. unat d = slot_base dist_slot_bits 1 slot + extra"
proof (cases "slot < 4")
  case True
  then have "d = word_of_nat (1 + slot)" using assms(4) by (simp add: decode_distance_def)
  moreover have "unat (word_of_nat (1 + slot) :: u64) = 1 + slot"
    using True by (intro unat_word_of_nat) simp
  ultimately show ?thesis
    using True small_slots(2) [of slot] by (simp add: dist_slot_bits_def)
next
  case False
  define b where "b = slot div 2 - 1"
  have b: "dist_slot_bits slot = b" "0 < b" "b \<le> 38" using False slot by (auto simp: dist_slot_bits_def b_def)
  let ?base = "slot_base dist_slot_bits 1 slot"
  define dist :: u64 where "dist = 1 + push_bit b (word_of_nat (2 OR (slot AND 1)))"
  have dist: "dist = word_of_nat ?base"
    using dist_slot_base [of slot] False by (simp add: dist_def b_def push_bit_eq_mult)
  have dec: "decode_distance slot ldc =
      (if 4 \<le> b then
         sbind (if 4 < b then
                  sbind (if 32 < b - 4 then br_read_bits_u64 (b - 4)
                         else sbind (br_read_bits (b - 4)) (\<lambda>v. sreturn (ucast v)))
                    (\<lambda>upper. sreturn (dist + push_bit 4 upper))
                else sreturn dist) (\<lambda>dist.
           sbind (decode_symbol ldc) (\<lambda>low_dist. sreturn (dist + word_of_nat low_dist)))
       else sbind (br_read_bits b) (\<lambda>extra. sreturn (dist + ucast extra)))"
    using b(2) by (simp only: decode_distance_def Let_def b_def [symmetric] dist_def [symmetric] False if_False if_True)
  have small: "?base + extra < 2 ^ 64" if "extra < 2 ^ b" for extra
  proof -
    have "slot AND 1 \<le> 1" by (simp add: and_one_eq)
    then have "2 OR (slot AND 1) \<le> 3" using or_low_bits [of "slot AND 1" 1] by simp
    then have "(2 OR (slot AND 1)) * 2 ^ b \<le> 3 * 2 ^ 38"
      using power_increasing [OF b(3), of "2 :: nat"] by (intro mult_le_mono) simp_all
    then have "?base \<le> 1 + 3 * 2 ^ 38"
      using dist_slot_base [of slot] False by (simp only: push_bit_eq_mult b_def)
    moreover have "(2 :: nat) ^ b \<le> 2 ^ 38" using b(3) by (intro power_increasing) simp_all
    ultimately show ?thesis using that by simp
  qed
  have fin: ?thesis if "d = word_of_nat (?base + extra)" "extra < 2 ^ b" for extra
    using that small [OF that(2)] b(1) by (auto simp: unsigned_of_nat take_bit_nat_eq_self simp del: of_nat_add)
  show ?thesis
  proof (cases "4 \<le> b")
    case narrow: False
    then obtain v where v: "br_read_bits b r = (Inr v, r')" "d = dist + ucast v"
      using assms(4) by (auto simp: dec sbind_eq_Inr)
    then have "(if 32 < b then br_read_bits_u64 b else sbind (br_read_bits b) (\<lambda>v. sreturn (ucast v))) r = (Inr (ucast v :: u64), r')"
      using narrow by (auto simp: sbind_def sreturn_def)
    from distance_bits [OF r _ this] have "unat (ucast v :: u64) < 2 ^ b" using b(3) by simp
    moreover have "d = word_of_nat (?base + unat (ucast v :: u64))" using v(2) dist by simp
    ultimately show ?thesis by (rule fin [rotated])
  next
    case wide: True
    obtain dist' r1 low where low: "decode_symbol ldc r1 = (Inr low, r')" "d = dist' + word_of_nat low" "br_ok r1"
      and dist': "\<exists>u < 2 ^ (b - 4). dist' = word_of_nat (?base + 16 * u)"
    proof (cases "4 < b")
      case False
      then show ?thesis
        using that [of r] assms(4) wide r dist
        by (auto simp: dec sbind_eq_Inr)
    next
      case True
      then obtain u r1 low where u: "(if 32 < b - 4 then br_read_bits_u64 (b - 4)
            else sbind (br_read_bits (b - 4)) (\<lambda>v. sreturn (ucast v))) r = (Inr u, r1)"
          "decode_symbol ldc r1 = (Inr low, r')" "d = dist + push_bit 4 u + word_of_nat low"
        using assms(4) wide by (auto simp: dec sbind_eq_Inr)
      have ub: "unat u < 2 ^ (b - 4) \<and> br_ok r1" using distance_bits [OF r _ u(1)] b(3) by simp
      have "dist + push_bit 4 u = word_of_nat (?base + 16 * unat u)"
        using dist by (simp add: push_bit_eq_mult mult.commute)
      then show ?thesis using that [OF u(2,3)] ub by blast
    qed
    obtain u where u: "u < 2 ^ (b - 4)" "dist' = word_of_nat (?base + 16 * u)" using dist' by blast
    have "low < 16" using table_of_decode [OF t _ low(3,1)] by simp
    have "16 * u + low < 16 * 2 ^ (b - 4)" using u(1) \<open>low < 16\<close> by linarith
    also have "\<dots> = 2 ^ (4 + (b - 4))" by (simp only: power_add) simp
    also have "4 + (b - 4) = b" using wide by simp
    finally have "16 * u + low < 2 ^ b" .
    moreover have "d = word_of_nat (?base + (16 * u + low))" using low(2) u(2) by (simp add: add.assoc)
    ultimately show ?thesis by (rule fin [rotated])
  qed
qed

lemma decode_distance_bound:
  assumes "br_ok r" "slot < 80" "table_of 16 ldc" "decode_distance slot ldc r = (Inr d, r')"
  shows "1 \<le> unat d \<and> unat d \<le> 2 ^ 40"
proof -
  let ?base = "slot_base dist_slot_bits 1"
  obtain extra where extra: "extra < 2 ^ dist_slot_bits slot" "unat d = ?base slot + extra"
    using decode_distance_value [OF assms] by blast
  have "unat d < ?base (Suc slot)" using extra by simp
  also have "\<dots> \<le> ?base 80" using assms(2) by (intro slot_base_mono) simp
  also have "\<dots> = 1 + 2 ^ 40" using dist_slot_base [of 80] by (simp add: push_bit_eq_mult)
  finally have "unat d < 1 + 2 ^ 40" .
  moreover have "1 \<le> unat d" using slot_base_mono [of 0 slot dist_slot_bits 1] extra(2) by simp
  ultimately show ?thesis by simp
qed

section \<open>The errors of the stream\<close>

text \<open>
  \<open>fails_in E m\<close>: on a sound reader \<open>m\<close> fails with an error of \<open>E\<close> only. So no index
  of the tables is ever out of bounds.
\<close>

definition bit_errors :: "string set" where
  "bit_errors = insert END_OF_DATA huffman_errors"

definition table_errors :: "rar_error set" where
  "table_errors = insert (Format ''run-length repeat with no previous length'') (Format ` bit_errors)"

definition fails_in :: "'e set \<Rightarrow> (bitreader \<Rightarrow> ('e + 'a) \<times> bitreader) \<Rightarrow> bool" where
  "fails_in E m \<longleftrightarrow> (\<forall>r e r'. br_ok r \<longrightarrow> m r = (Inl e, r') \<longrightarrow> e \<in> E)"

named_theorems fails_intros \<open>operations that fail with known errors only\<close>

lemma fails_inD: "fails_in E m \<Longrightarrow> br_ok r \<Longrightarrow> m r = (Inl e, r') \<Longrightarrow> e \<in> E"
  unfolding fails_in_def by blast

lemma fails_mono: "fails_in E m \<Longrightarrow> E \<subseteq> F \<Longrightarrow> fails_in F m"
  unfolding fails_in_def by blast

lemma fails_sreturn [fails_intros]: "fails_in E (sreturn a)" "fails_in E (Pair (Inr a))"
  by (simp_all add: fails_in_def sreturn_def)

lemma fails_sbind [fails_intros]:
  assumes "keeps m" "fails_in E m" "\<And>a. fails_in E (f a)"
  shows "fails_in E (sbind m f)"
  unfolding fails_in_def
proof (intro allI impI)
  fix r e r'' assume r: "br_ok r" "sbind m f r = (Inl e, r'')"
  show "e \<in> E"
  proof (cases "m r")
    case (Pair x r')
    show ?thesis
    proof (cases x)
      case (Inl e')
      then show ?thesis using Pair r(2) fails_inD [OF assms(2) r(1)] by (simp add: sbind_def)
    next
      case (Inr a)
      then have "f a r' = (Inl e, r'')" using Pair r(2) by (simp add: sbind_def)
      moreover have "br_ok r'" using keepsD [OF assms(1) r(1)] Pair Inr by blast
      ultimately show ?thesis using fails_inD [OF assms(3)] by blast
    qed
  qed
qed

lemma fails_format_err [fails_intros]: "fails_in bit_errors m \<Longrightarrow> fails_in table_errors (format_err m)"
  by (fastforce simp: fails_in_def format_err_def smap_err_def table_errors_def map_err_def split: prod.splits sum.splits)

lemma fails_br_read_bits [fails_intros]: "fails_in bit_errors (br_read_bits n)"
  unfolding fails_in_def
proof (intro allI impI)
  fix r e r' assume "br_ok r" "br_read_bits n r = (Inl e, r')"
  with br_read_bits_spec [of r n] show "e \<in> bit_errors" by (auto simp: bit_errors_def split: if_splits)
qed

lemma fails_br_read_bits_u64 [fails_intros]: "n \<le> 64 \<Longrightarrow> fails_in bit_errors (br_read_bits_u64 n)"
  unfolding fails_in_def
proof (intro allI impI)
  fix r e r' assume "n \<le> 64" "br_ok r" "br_read_bits_u64 n r = (Inl e, r')"
  with br_read_bits_u64_spec [of r n] show "e \<in> bit_errors" by (auto simp: bit_errors_def split: if_splits)
qed

lemma fails_decode_symbol [fails_intros]:
  assumes "table_ok t"
  shows "fails_in bit_errors (decode_symbol t)"
  unfolding fails_in_def
proof (intro allI impI)
  fix r e r' assume r: "br_ok r" "decode_symbol t r = (Inl e, r')"
  obtain lengths where l: "length lengths \<le> 65536" "t = dt_new lengths" using table_okD [OF assms] by blast
  from decode_symbol_spec [OF l(1) r(1)] r(2) l(2) have "decodes lengths r (Inl e, r')" by simp
  then show "e \<in> bit_errors" by (auto simp: decodes_def bit_errors_def split: if_splits)
qed

lemma fails_decode_length [fails_intros]: "fails_in bit_errors (decode_length slot)"
  by (auto simp: decode_length_def Let_def intro!: fails_intros keeps_intros)

lemma fails_decode_distance [fails_intros]:
  assumes "table_ok t" "slot < 80"
  shows "fails_in bit_errors (decode_distance slot t)"
proof -
  have "slot div 2 - 1 - 4 \<le> 64" using assms(2) by simp
  then show ?thesis
    using assms(1) by (auto simp: decode_distance_def Let_def intro!: fails_intros keeps_intros)
qed

lemma fails_filter_bytes [fails_intros]: "fails_in table_errors (filter_bytes is v)"
  by (induction "is" v rule: filter_bytes.induct) (auto intro!: fails_intros keeps_intros)

lemma fails_parse_filter [fails_intros]: "fails_in table_errors (parse_filter pos)"
  by (auto simp: parse_filter_def parse_filter_data_def Let_def intro!: fails_intros keeps_intros)

lemma keeps_read_bc_lengths [keeps_intros]: "keeps (read_bc_lengths ls)"
proof (induction ls rule: read_bc_lengths.induct)
  case (1 ls)
  then show ?case by (subst read_bc_lengths.simps) (auto intro!: keeps_intros)
qed

lemma fails_read_bc_lengths [fails_intros]: "fails_in table_errors (read_bc_lengths ls)"
proof (induction ls rule: read_bc_lengths.induct)
  case (1 ls)
  then show ?case by (subst read_bc_lengths.simps) (auto intro!: fails_intros keeps_intros)
qed

lemma fails_read_lengths_loop:
  assumes "table_ok bc"
  shows "fails_in table_errors (read_lengths_loop bc count i lengths)"
proof (induction "count - i" arbitrary: i lengths rule: less_induct)
  case less
  have fail: "fails_in table_errors (sfail (Format ''run-length repeat with no previous length''))"
    by (simp add: fails_in_def sfail_def table_errors_def)
  show ?case
  proof (cases "i < count")
    case False
    then show ?thesis by (simp add: read_lengths_loop.simps [of bc count i] fails_intros)
  next
    case True
    have run: "fails_in table_errors
        (sbind (if c then format_err (br_read_bits a) else format_err (br_read_bits b)) (\<lambda>extra.
           let repeat = (if c then 3 else 11) + unat extra; (lengths, i) = fill_run repeat v count i lengths in
           read_lengths_loop bc count i lengths))" for c a b v
    proof (intro fails_intros keeps_intros)
      fix x :: u32
      let ?f = "fill_run ((if c then 3 else 11) + unat x) v count i lengths"
      have "count - snd ?f < count - i" using fill_run_spec [of _ v count i lengths] True by auto
      then show "fails_in table_errors (let repeat = (if c then 3 else 11) + unat x;
          (lengths, i) = fill_run repeat v count i lengths in read_lengths_loop bc count i lengths)"
        using less by (simp add: Let_def split_beta)
    qed (auto intro!: fails_intros keeps_intros)
    show ?thesis unfolding read_lengths_loop.simps [of bc count i] if_P [OF True]
    proof (rule fails_sbind)
      fix s
      show "fails_in table_errors
         (if s < 16 then read_lengths_loop bc count (i + 1) (lengths[i := word_of_nat s])
          else if s < 18 then
            if i = 0 then sfail (Format ''run-length repeat with no previous length'')
            else
              sbind (if s = 16 then format_err (br_read_bits 3) else format_err (br_read_bits 7)) (\<lambda>extra.
                let repeat = (if s = 16 then 3 else 11) + unat extra;
                    (lengths, i) = fill_run repeat (lengths ! (i - 1)) count i lengths in
                read_lengths_loop bc count i lengths)
          else
            sbind (if s = 18 then format_err (br_read_bits 3) else format_err (br_read_bits 7)) (\<lambda>extra.
              let repeat = (if s = 18 then 3 else 11) + unat extra;
                  (lengths, i) = fill_run repeat 0 count i lengths in
              read_lengths_loop bc count i lengths))"
        using less [of "i + 1"] True fail run [of "s = 16" 3 7] run [of "s = 18" 3 7] by (auto simp del: fill_run.simps)
    qed (intro fails_intros keeps_intros assms)+
  qed
qed

lemma fails_read_tables: "fails_in table_errors (read_tables extra_dist)"
  unfolding fails_in_def
proof (intro allI impI)
  fix r e r' assume r: "br_ok r" "read_tables extra_dist r = (Inl e, r')"
  let ?n = "HUFF_NC + (if extra_dist then HUFF_DCX else HUFF_DC) + HUFF_LDC + HUFF_RC"
  show "e \<in> table_errors"
  proof (cases "read_bc_lengths [] r")
    case (Pair x r1)
    show ?thesis
    proof (cases x)
      case (Inl e')
      then show ?thesis using r Pair fails_inD [OF fails_read_bc_lengths r(1)] by (simp add: read_tables_def Let_def sbind_def)
    next
      case (Inr bc)
      have s1: "length bc = 20 \<and> br_ok r1"
        using read_bc_lengths_spec [OF r(1) _ _ Pair [unfolded Inr]] by (simp add: HUFF_BC_def)
      then have "table_ok (dt_new bc)" unfolding table_ok_def by (intro exI [of _ bc]) simp
      note f = fails_read_lengths_loop [OF this, of ?n 0 "replicate ?n 0"]
      have "\<exists>r2. read_code_lengths (dt_new bc) ?n r1 = (Inl e, r2)"
        using r(2) Pair Inr by (auto simp: read_tables_def Let_def sbind_def split: prod.splits sum.splits)
      then show ?thesis using fails_inD [OF f] s1 by (auto simp: read_code_lengths_def)
    qed
  qed
qed

section \<open>Properties\<close>

text \<open>C17: Whatever the bits of a block header, reading its Huffman tables either fails or yields
  four tables of the sizes of the format (306 literals and lengths, 64 or 80 distances, 16 low
  distances, 44 repeat lengths), each built from code lengths of at most 15 bits, so that a symbol
  decoded from any of the four, at any place of the stream, is below its table's size; the reader has
  only moved forward.\<close>

theorem read_tables_typed:
  assumes "br_ok r" "read_tables extra_dist r = (Inr (nc, dc, ldc, rc), r')"
  defines "distances \<equiv> (if extra_dist then 80 else 64)"
  shows "table_of 306 nc \<and> table_of distances dc \<and> table_of 16 ldc \<and> table_of 44 rc \<and>
    br_ok r' \<and> br_consumed_bits r \<le> br_consumed_bits r' \<and>
    (\<forall>q q' s. br_ok q \<longrightarrow>
      (decode_symbol nc q = (Inr s, q') \<longrightarrow> s < 306) \<and> (decode_symbol dc q = (Inr s, q') \<longrightarrow> s < distances) \<and>
      (decode_symbol ldc q = (Inr s, q') \<longrightarrow> s < 16) \<and> (decode_symbol rc q = (Inr s, q') \<longrightarrow> s < 44))"
proof -
  have "table_of 306 nc \<and> table_of distances dc \<and> table_of 16 ldc \<and> table_of 44 rc \<and>
      br_ok r' \<and> br_consumed_bits r \<le> br_consumed_bits r'"
    using read_tables_spec [OF assms(1,2)]
    by (auto simp: distances_def dc_count_def HUFF_NC_def HUFF_DC_def HUFF_DCX_def HUFF_LDC_def HUFF_RC_def)
  moreover have "distances \<le> 65536" by (simp add: distances_def)
  ultimately show ?thesis
    using table_of_decode [of 306 nc] table_of_decode [of distances dc] table_of_decode [of 16 ldc] table_of_decode [of 44 rc]
    by auto
qed

text \<open>
  A header on which it succeeds: the code of the code lengths has the two codes 0 (length 1) and 1
  (a run of zeroes), and in every table the symbols 0 and 1 get codes of one bit.
\<close>

definition runs :: "(bitreader \<Rightarrow> ('e + 'a) \<times> bitreader) \<Rightarrow> bool list \<Rightarrow> 'a \<Rightarrow> bool list \<Rightarrow> bool" where
  "runs m bs v bs' \<longleftrightarrow> (\<forall>r. br_ok r \<longrightarrow> br_rest r = bs \<longrightarrow> (\<exists>r'. m r = (Inr v, r') \<and> br_ok r' \<and> br_rest r' = bs'))"

lemma runs_return: "runs (sreturn v) bs v bs"
  by (simp add: runs_def sreturn_def)

lemma runs_bind: "runs m bs u bs1 \<Longrightarrow> runs (f u) bs1 v bs2 \<Longrightarrow> runs (sbind m f) bs v bs2"
  unfolding runs_def sbind_eq_Inr by blast

lemma runs_format_err: "runs m bs v bs' \<Longrightarrow> runs (format_err m) bs v bs'"
  unfolding runs_def format_err_eq_Inr .

lemma runs_bits: "n \<le> length bs \<Longrightarrow> runs (br_read_bits n) bs (bits_value (take n bs)) (drop n bs)"
  unfolding runs_def using br_read_bits_spec [of _ n] by (metis (full_types))

lemma runs_symbol:
  "length lengths \<le> 65536 \<Longrightarrow> canon_next lengths bs s \<Longrightarrow> runs (decode_symbol (dt_new lengths)) bs s (drop (unat (lengths ! s)) bs)"
  unfolding runs_def using decode_symbol_next by blast

lemma fill_run_zeroes:
  "\<forall>j<length ls. i \<le> j \<longrightarrow> ls ! j = 0 \<Longrightarrow> fill_run n 0 count i ls = (ls, if count \<le> i then i else min (i + n) count)"
proof (induction n arbitrary: i)
  case (Suc n)
  have "ls[i := 0] = ls" using Suc.prems by (cases "i < length ls") (metis le_refl list_update_id, simp add: list_update_beyond)
  then show ?case using Suc.IH [of "i + 1"] Suc.prems by auto
qed simp

definition two_codes :: "byte list" where
  "two_codes = 0 # 1 # replicate 17 0 @ [1]"

lemma two_codes_next: "canon_next two_codes (False # bs) 1" "canon_next two_codes (True # bs) 19"
proof -
  have code: "canon_code two_codes 1 = 0" "canon_code two_codes 19 = 1" by code_simp+
  have len: "length two_codes = 20" "two_codes ! 1 = 1" "two_codes ! 19 = 1" by (simp_all add: two_codes_def nth_append)
  show "canon_next two_codes (False # bs) 1" "canon_next two_codes (True # bs) 19"
    by (simp_all add: canon_next_def code [simplified] len [simplified] bits_nat_def)
qed

lemma runs_one:
  assumes "runs (read_lengths_loop (dt_new two_codes) count (i + 1) (ls[i := 1])) bs v bs'" "i < count"
  shows "runs (read_lengths_loop (dt_new two_codes) count i ls) (False # bs) v bs'"
proof -
  have "runs (format_err (decode_symbol (dt_new two_codes))) (False # bs) 1 bs"
    using runs_format_err [OF runs_symbol [OF _ two_codes_next(1) [of bs]]] by (simp add: two_codes_def)
  then show ?thesis
    using assms unfolding read_lengths_loop.simps [of "dt_new two_codes" count i ls]
    by (simp only: if_True) (erule runs_bind, simp)
qed

lemma runs_zeroes:
  assumes "runs (read_lengths_loop (dt_new two_codes) count (min (i + (11 + unat (bits_value (take 7 bs) :: u32))) count) ls) (drop 7 bs) v bs'"
    and "i < count" "\<forall>j<length ls. i \<le> j \<longrightarrow> ls ! j = 0" "7 \<le> length bs"
  shows "runs (read_lengths_loop (dt_new two_codes) count i ls) (True # bs) v bs'"
proof -
  have "runs (format_err (decode_symbol (dt_new two_codes))) (True # bs) 19 bs"
    using runs_format_err [OF runs_symbol [OF _ two_codes_next(2) [of bs]]] by (simp add: two_codes_def nth_append)
  moreover have "runs (format_err (br_read_bits 7)) bs (bits_value (take 7 bs)) (drop 7 bs)"
    using assms(4) by (intro runs_format_err runs_bits)
  ultimately show ?thesis
    using assms unfolding read_lengths_loop.simps [of "dt_new two_codes" count i ls]
    by (simp only: if_True) (erule runs_bind, simp, erule runs_bind, simp add: fill_run_zeroes)
qed

definition table_bytes :: "byte list" where
  "table_bytes = [0x01, 0xff, 0x13, 0xff, 0xfe, 0x44, 0xb3, 0x20, 0xc9, 0xf8]"

definition table_lengths :: "byte list" where
  "table_lengths = (replicate 430 0)[0 := 1, 1 := 1, 306 := 1, 307 := 1, 370 := 1, 371 := 1, 386 := 1, 387 := 1]"

lemma table_lengths_read:
  "runs (read_code_lengths (dt_new two_codes) 430) (drop 20 (stream_bits table_bytes)) table_lengths [True, False, False, False]"
proof -
  let ?loop = "read_lengths_loop (dt_new two_codes) 430"
  have s14: "runs (?loop 430 table_lengths) [True, False, False, False] table_lengths [True, False, False, False]"
    by (simp add: read_lengths_loop.simps runs_return)
  have s13: "runs (?loop 388 ((replicate 430 0)[0 := 1, 1 := 1, 306 := 1, 307 := 1, 370 := 1, 371 := 1, 386 := 1, 387 := 1])) [True, False, False, True, True, True, True, True, True, False, False, False] table_lengths [True, False, False, False]"
    by (rule runs_zeroes) (use s14 in \<open>simp_all add: table_lengths_def bits_value_def nth_list_update\<close>)
  have s12: "runs (?loop 387 ((replicate 430 0)[0 := 1, 1 := 1, 306 := 1, 307 := 1, 370 := 1, 371 := 1, 386 := 1])) [False, True, False, False, True, True, True, True, True, True, False, False, False] table_lengths [True, False, False, False]"
    by (rule runs_one) (use s13 in \<open>simp_all add: table_lengths_def\<close>)
  have s11: "runs (?loop 386 ((replicate 430 0)[0 := 1, 1 := 1, 306 := 1, 307 := 1, 370 := 1, 371 := 1])) [False, False, True, False, False, True, True, True, True, True, True, False, False, False] table_lengths [True, False, False, False]"
    by (rule runs_one) (use s12 in \<open>simp_all add: table_lengths_def\<close>)
  have s10: "runs (?loop 372 ((replicate 430 0)[0 := 1, 1 := 1, 306 := 1, 307 := 1, 370 := 1, 371 := 1])) [True, False, False, False, False, False, True, True, False, False, True, False, False, True, True, True, True, True, True, False, False, False] table_lengths [True, False, False, False]"
    by (rule runs_zeroes) (use s11 in \<open>simp_all add: table_lengths_def bits_value_def nth_list_update\<close>)
  have s9: "runs (?loop 371 ((replicate 430 0)[0 := 1, 1 := 1, 306 := 1, 307 := 1, 370 := 1])) [False, True, False, False, False, False, False, True, True, False, False, True, False, False, True, True, True, True, True, True, False, False, False] table_lengths [True, False, False, False]"
    by (rule runs_one) (use s10 in \<open>simp_all add: table_lengths_def\<close>)
  have s8: "runs (?loop 370 ((replicate 430 0)[0 := 1, 1 := 1, 306 := 1, 307 := 1])) [False, False, True, False, False, False, False, False, True, True, False, False, True, False, False, True, True, True, True, True, True, False, False, False] table_lengths [True, False, False, False]"
    by (rule runs_one) (use s9 in \<open>simp_all add: table_lengths_def\<close>)
  have s7: "runs (?loop 308 ((replicate 430 0)[0 := 1, 1 := 1, 306 := 1, 307 := 1])) [True, False, True, True, False, False, True, True, False, False, True, False, False, False, False, False, True, True, False, False, True, False, False, True, True, True, True, True, True, False, False, False] table_lengths [True, False, False, False]"
    by (rule runs_zeroes) (use s8 in \<open>simp_all add: table_lengths_def bits_value_def nth_list_update\<close>)
  have s6: "runs (?loop 307 ((replicate 430 0)[0 := 1, 1 := 1, 306 := 1])) [False, True, False, True, True, False, False, True, True, False, False, True, False, False, False, False, False, True, True, False, False, True, False, False, True, True, True, True, True, True, False, False, False] table_lengths [True, False, False, False]"
    by (rule runs_one) (use s7 in \<open>simp_all add: table_lengths_def\<close>)
  have s5: "runs (?loop 306 ((replicate 430 0)[0 := 1, 1 := 1])) [False, False, True, False, True, True, False, False, True, True, False, False, True, False, False, False, False, False, True, True, False, False, True, False, False, True, True, True, True, True, True, False, False, False] table_lengths [True, False, False, False]"
    by (rule runs_one) (use s6 in \<open>simp_all add: table_lengths_def\<close>)
  have s4: "runs (?loop 278 ((replicate 430 0)[0 := 1, 1 := 1])) [True, False, False, True, False, False, False, True, False, False, True, False, True, True, False, False, True, True, False, False, True, False, False, False, False, False, True, True, False, False, True, False, False, True, True, True, True, True, True, False, False, False] table_lengths [True, False, False, False]"
    by (rule runs_zeroes) (use s5 in \<open>simp_all add: table_lengths_def bits_value_def nth_list_update\<close>)
  have s3: "runs (?loop 140 ((replicate 430 0)[0 := 1, 1 := 1])) [True, True, True, True, True, True, True, True, True, False, False, True, False, False, False, True, False, False, True, False, True, True, False, False, True, True, False, False, True, False, False, False, False, False, True, True, False, False, True, False, False, True, True, True, True, True, True, False, False, False] table_lengths [True, False, False, False]"
    by (rule runs_zeroes) (use s4 in \<open>simp_all add: table_lengths_def bits_value_def nth_list_update\<close>)
  have s2: "runs (?loop 2 ((replicate 430 0)[0 := 1, 1 := 1])) [True, True, True, True, True, True, True, True, True, True, True, True, True, True, True, True, True, False, False, True, False, False, False, True, False, False, True, False, True, True, False, False, True, True, False, False, True, False, False, False, False, False, True, True, False, False, True, False, False, True, True, True, True, True, True, False, False, False] table_lengths [True, False, False, False]"
    by (rule runs_zeroes) (use s3 in \<open>simp_all add: table_lengths_def bits_value_def nth_list_update\<close>)
  have s1: "runs (?loop 1 ((replicate 430 0)[0 := 1])) [False, True, True, True, True, True, True, True, True, True, True, True, True, True, True, True, True, True, False, False, True, False, False, False, True, False, False, True, False, True, True, False, False, True, True, False, False, True, False, False, False, False, False, True, True, False, False, True, False, False, True, True, True, True, True, True, False, False, False] table_lengths [True, False, False, False]"
    by (rule runs_one) (use s2 in \<open>simp_all add: table_lengths_def numeral_2_eq_2\<close>)
  have s0: "runs (?loop 0 ((replicate 430 0))) [False, False, True, True, True, True, True, True, True, True, True, True, True, True, True, True, True, True, True, False, False, True, False, False, False, True, False, False, True, False, True, True, False, False, True, True, False, False, True, False, False, False, False, False, True, True, False, False, True, False, False, True, True, True, True, True, True, False, False, False] table_lengths [True, False, False, False]"
    by (rule runs_one) (use s1 in \<open>simp_all add: table_lengths_def\<close>)
  have "drop 20 (stream_bits table_bytes) = [False, False, True, True, True, True, True, True, True, True, True, True, True, True, True, True, True, True, True, False, False, True, False, False, False, True, False, False, True, False, True, True, False, False, True, True, False, False, True, False, False, False, False, False, True, True, False, False, True, False, False, True, True, True, True, True, True, False, False, False]"
    by code_simp
  with s0 show ?thesis by (simp add: read_code_lengths_def)
qed

lemma runs_nibble: "runs (format_err (br_read_bits 4)) (a # b # c # d # bs) (bits_value [a, b, c, d]) bs"
  using runs_format_err [OF runs_bits [of 4 "a # b # c # d # bs"]] by simp

lemma runs_length:
  assumes "runs (read_bc_lengths (ls @ [ucast (bits_value [a, b, c, d] :: u32)])) bs v bs'" "length ls < 20"
    and "(ucast (bits_value [a, b, c, d] :: u32) :: byte) \<noteq> 15"
  shows "runs (read_bc_lengths ls) (a # b # c # d # bs) v bs'"
  using assms unfolding read_bc_lengths.simps [of ls] HUFF_BC_def NIBBLE_ESCAPE_def
  by (simp only: if_True) (rule runs_bind [OF runs_nibble], simp)

lemma runs_escape:
  assumes "runs (read_bc_lengths (ls @ replicate (min (unat (ucast (bits_value [a, b, c, d] :: u32) :: byte) + 2) (20 - length ls)) 0)) bs v bs'"
    and "length ls < 20" "(ucast (bits_value [a, b, c, d] :: u32) :: byte) \<noteq> 0"
  shows "runs (read_bc_lengths ls) (True # True # True # True # a # b # c # d # bs) v bs'"
proof -
  have "(ucast (bits_value [True, True, True, True] :: u32) :: byte) = 15" by (simp add: bits_value_def)
  then show ?thesis
    using assms unfolding read_bc_lengths.simps [of ls] HUFF_BC_def NIBBLE_ESCAPE_def
    by (simp only: if_True) (rule runs_bind [OF runs_nibble], simp, rule runs_bind [OF runs_nibble], simp)
qed

lemma two_codes_read: "runs (read_bc_lengths []) (stream_bits table_bytes) two_codes (drop 20 (stream_bits table_bytes))"
proof -
  have bits: "stream_bits table_bytes = [False, False, False, False, False, False, False, True, True, True, True, True,
      True, True, True, True, False, False, False, True] @ drop 20 (stream_bits table_bytes)"
    by code_simp
  have "runs (read_bc_lengths two_codes) (drop 20 (stream_bits table_bytes)) two_codes (drop 20 (stream_bits table_bytes))"
    unfolding read_bc_lengths.simps [of two_codes] by (simp add: HUFF_BC_def two_codes_def runs_return)
  then show ?thesis
    apply (subst bits)
    apply (simp only: append.simps)
    apply (rule runs_length)
    apply (rule runs_length)
    apply (rule runs_escape)
    apply (rule runs_length)
    apply (simp_all add: bits_value_def two_codes_def)
    done
qed

theorem read_tables_typed_witness:
  "\<exists>nc dc ldc rc r' q. read_tables False (br_new table_bytes) = (Inr (nc, dc, ldc, rc), r') \<and>
     decode_symbol nc r' = (Inr 1, q) \<and> table_of 306 nc \<and> table_of 64 dc \<and> table_of 16 ldc \<and> table_of 44 rc"
proof -
  have "br_rest (br_new table_bytes) = stream_bits table_bytes" by simp
  then obtain r1 where r1: "read_bc_lengths [] (br_new table_bytes) = (Inr two_codes, r1)" "br_ok r1"
      "br_rest r1 = drop 20 (stream_bits table_bytes)"
    using two_codes_read br_new_ok unfolding runs_def by blast
  then obtain r2 where r2: "read_code_lengths (dt_new two_codes) 430 r1 = (Inr table_lengths, r2)" "br_ok r2"
      "br_rest r2 = [True, False, False, False]"
    using table_lengths_read unfolding runs_def by blast
  let ?nc = "dt_new (take 306 table_lengths)"
  have nc: "take 306 table_lengths = 1 # 1 # replicate 304 0" by code_simp
  have "canon_code (1 # 1 # replicate 304 0) 1 = 1" by code_simp
  then have "canon_next (take 306 table_lengths) (br_rest r2) 1"
    by (simp add: nc r2(3) canon_next_def bits_nat_def)
  moreover have "length (take 306 table_lengths) \<le> 65536" by (simp add: nc)
  ultimately obtain q where q: "decode_symbol ?nc r2 = (Inr 1, q)"
    using decode_symbol_next [OF _ r2(2)] by blast
  obtain dc ldc rc where run: "read_tables False (br_new table_bytes) = (Inr (?nc, dc, ldc, rc), r2)"
    using r1(1) r2(1) by (simp add: read_tables_def sbind_def sreturn_def HUFF_NC_def HUFF_DC_def HUFF_LDC_def HUFF_RC_def)
  show ?thesis using read_tables_typed [OF br_new_ok run] run q by auto
qed

text \<open>C19: The length codes are read as documented by their slots: a slot stands for as many
  lengths as its extra bits can say, starting where the slots before it end; so the 44 slots name
  each length from 2 to 4097 exactly once, and the closed formula of decode_length computes it.\<close>

theorem length_slots_tile:
  assumes "br_ok r" "slot < 44" "length_slot_bits slot \<le> length (br_rest r)"
  shows "fst (decode_length slot r) =
      Inr (word_of_nat (slot_base length_slot_bits 2 slot + bits_nat (take (length_slot_bits slot) (br_rest r)))) \<and>
    (\<forall>v. 2 \<le> v \<and> v \<le> 4097 \<longrightarrow>
      (\<exists>!p. fst p < 44 \<and> snd p < 2 ^ length_slot_bits (fst p) \<and> slot_base length_slot_bits 2 (fst p) + snd p = v))"
proof (intro conjI allI impI)
  have "slot div 4 \<le> 44 div 4" using assms(2) by (intro div_le_mono) simp
  then have "length_slot_bits slot \<le> 32" unfolding length_slot_bits_def by (split if_split) linarith
  from decode_length_value [OF assms(1,3) this]
  show "fst (decode_length slot r) =
      Inr (word_of_nat (slot_base length_slot_bits 2 slot + bits_nat (take (length_slot_bits slot) (br_rest r))))" .
  fix v :: nat assume v: "2 \<le> v \<and> v \<le> 4097"
  have "44 AND 3 = (0 :: nat)" by simp
  then have "slot_base length_slot_bits 2 44 = 4098"
    using length_slot_base [of 44] by (simp add: push_bit_eq_mult)
  then show "\<exists>!p. fst p < 44 \<and> snd p < 2 ^ length_slot_bits (fst p) \<and> slot_base length_slot_bits 2 (fst p) + snd p = v"
    using slot_tile [of 2 v length_slot_bits 44] v by simp
qed

theorem length_slots_tile_witness: "fst (decode_length 3 (br_new [0x80])) = Inr 5"
proof -
  have bits: "length_slot_bits 3 = 0" by (simp add: length_slot_bits_def)
  have lt: "(3 :: nat) < 44" and le: "length_slot_bits 3 \<le> length (br_rest (br_new [0x80]))"
    by (simp_all add: bits)
  from conjunct1 [OF length_slots_tile [OF br_new_ok lt le]] show ?thesis
    using small_slots(1) [of 3] by (simp add: bits)
qed

text \<open>C18: A decoded distance lies in its slot, reckoned as for the lengths (the extra bits being
  read as a field and a low-distance symbol), for both the RAR5 and the RAR7 tables; it is at least
  1 and at most 2^40, so the 64-bit additions of decode_distance never wrap.\<close>

theorem distance_in_slot:
  assumes "br_ok r" "slot < 80" "table_of 16 ldc" "decode_distance slot ldc r = (Inr d, r')"
  shows "(\<exists>extra<2 ^ dist_slot_bits slot. unat d = slot_base dist_slot_bits 1 slot + extra) \<and>
    1 \<le> unat d \<and> unat d \<le> 2 ^ 40"
  using decode_distance_value [OF assms] decode_distance_bound [OF assms] by blast

text \<open>Slot 9 has three extra bits; on the bits \<open>101\<close> it is the distance 30.\<close>

theorem distance_in_slot_witness:
  "\<exists>d r'. decode_distance 9 (dt_new (replicate 16 4)) (br_new [0xA0]) = (Inr d, r') \<and> unat d = 30 \<and>
     (\<exists>extra<2 ^ dist_slot_bits 9. unat d = slot_base dist_slot_bits 1 9 + extra) \<and> 1 \<le> unat d \<and> unat d \<le> 2 ^ 40"
proof -
  have bits: "take 3 (br_rest (br_new [0xA0])) = [True, False, True]" "3 \<le> length (br_rest (br_new [0xA0]))" by code_simp+
  then obtain r' where "br_read_bits 3 (br_new [0xA0]) = (Inr (bits_value [True, False, True]), r')"
    using br_read_bits_spec [OF br_new_ok, of 3 "[0xA0]"] by (auto simp only: if_True)
  then have d: "decode_distance 9 (dt_new (replicate 16 4)) (br_new [0xA0]) = (Inr 30, r')"
    by (simp add: decode_distance_def sbind_def sreturn_def bits_value_def)
  have t: "table_of 16 (dt_new (replicate 16 4))"
    unfolding table_of_def by (intro exI [of _ "replicate 16 4"]) simp
  have "(9 :: nat) < 80" by simp
  from distance_in_slot [OF br_new_ok this t d] d show ?thesis by auto
qed

end
