(* ===== verification/Rar5Symbols.thy ===== *)
theory Rar5Symbols
  imports Rar5Tables
begin

text \<open>
  The symbol stream of a RAR5/RAR7 member (codec/modern/lzss_huff/decoder/symbols.rs): a state
  machine that frames the packed bytes into blocks, checks their headers, refreshes the Huffman
  tables and resolves the distance cache and the repeats. A malformed stream is not a result of the
  operations but a field of the state, as in the source: \<open>sr_error\<close>.
\<close>

section \<open>State\<close>

definition BLOCK_CHECKSUM_SEED :: byte where "BLOCK_CHECKSUM_SEED = 0x5A"
definition SYM_FILTER :: nat where "SYM_FILTER = 256"
definition SYM_REPEAT :: nat where "SYM_REPEAT = 257"
definition SYM_CACHE_BASE :: nat where "SYM_CACHE_BASE = 258"
definition SYM_MATCH_BASE :: nat where "SYM_MATCH_BASE = 262"
definition DIST_CACHE_SIZE :: nat where "DIST_CACHE_SIZE = 4"

record block_info =
  block_size :: u32
  table_present :: bool
  bi_nc :: nat
  bi_dc :: nat
  bi_ldc :: nat
  bi_rc :: nat

datatype match_kind = FullMatch | CacheMatch | RepeatMatch

datatype symbol =
    SLiteral byte
  | SMatch u64 u32 match_kind
  | SFilter pending_filter
  | SBlockStart block_info

record symbol_state =
  dist_cache :: "u64 list"
  last_length :: u32
  table_nc :: "decode_table option"
  table_dc :: "decode_table option"
  table_ldc :: "decode_table option"
  table_rc :: "decode_table option"

definition symbol_state_default :: symbol_state where
  "symbol_state_default = \<lparr>dist_cache = replicate DIST_CACHE_SIZE 0, last_length = 0,
     table_nc = None, table_dc = None, table_ldc = None, table_rc = None\<rparr>"

record active_block =
  start_bits :: nat
  ab_bits :: nat
  is_last :: bool

record symbol_reader =
  sr_reader :: bitreader
  sr_extra_dist :: bool
  sr_state :: symbol_state
  sr_pos :: nat
  sr_end :: nat
  sr_max_filter_end :: nat
  sr_block :: "active_block option"
  sr_error :: "rar_error option"

text \<open>\<open>u64::saturating_add\<close>.\<close>

definition saturating_add :: "nat \<Rightarrow> nat \<Rightarrow> nat" where
  "saturating_add a b = min (a + b) (2 ^ 64 - 1)"

definition sr_new :: "byte list \<Rightarrow> bool \<Rightarrow> nat \<Rightarrow> nat \<Rightarrow> symbol_state \<Rightarrow> symbol_reader" where
  "sr_new data extra_dist start_pos unpacked_size state =
     \<lparr>sr_reader = br_new data, sr_extra_dist = extra_dist, sr_state = state, sr_pos = start_pos,
      sr_end = saturating_add start_pos unpacked_size, sr_max_filter_end = start_pos,
      sr_block = None, sr_error = None\<rparr>"

definition sr_fail :: "rar_error \<Rightarrow> symbol_reader \<Rightarrow> symbol option \<times> symbol_reader" where
  "sr_fail err s = (None, s\<lparr>sr_error := Some err\<rparr>)"

definition no_huffman_tables :: rar_error where
  "no_huffman_tables = Format ''no Huffman tables defined''"

text \<open>
  \<open>match reader_op \{ Ok(x) => .., Err(e) => return self.fail(e) \}\<close> and
  \<open>let Some(table) = .. else \{ return self.fail(..) \}\<close>.
\<close>

definition attempt ::
  "(bitreader \<Rightarrow> (rar_error + 'a) \<times> bitreader) \<Rightarrow> ('a \<Rightarrow> symbol_reader \<Rightarrow> symbol option \<times> symbol_reader) \<Rightarrow>
    symbol_reader \<Rightarrow> symbol option \<times> symbol_reader" where
  "attempt m f s =
     (case m (sr_reader s) of
        (Inl err, r) \<Rightarrow> sr_fail err (s\<lparr>sr_reader := r\<rparr>)
      | (Inr a, r) \<Rightarrow> f a (s\<lparr>sr_reader := r\<rparr>))"

definition with_table ::
  "decode_table option \<Rightarrow> (decode_table \<Rightarrow> symbol_reader \<Rightarrow> symbol option \<times> symbol_reader) \<Rightarrow>
    symbol_reader \<Rightarrow> symbol option \<times> symbol_reader" where
  "with_table t f s = (case t of None \<Rightarrow> sr_fail no_huffman_tables s | Some table \<Rightarrow> f table s)"

section \<open>Symbols\<close>

definition decode_cache_match :: "nat \<Rightarrow> symbol_reader \<Rightarrow> symbol option \<times> symbol_reader" where
  "decode_cache_match idx s =
     (let (dist, cache) = dist_cache_touch (dist_cache (sr_state s)) idx;
          s = s\<lparr>sr_state := (sr_state s)\<lparr>dist_cache := cache\<rparr>\<rparr> in
      with_table (table_rc (sr_state s)) (\<lambda>table.
        attempt (format_err (decode_symbol table)) (\<lambda>len_slot.
          attempt (format_err (decode_length len_slot)) (\<lambda>n s.
            (Some (SMatch dist n CacheMatch),
             s\<lparr>sr_state := (sr_state s)\<lparr>last_length := n\<rparr>, sr_pos := sr_pos s + unat n\<rparr>)))) s)"

definition decode_full_match :: "nat \<Rightarrow> symbol_reader \<Rightarrow> symbol option \<times> symbol_reader" where
  "decode_full_match len_slot =
     attempt (format_err (decode_length len_slot)) (\<lambda>n s.
       with_table (table_dc (sr_state s)) (\<lambda>table.
         attempt (format_err (decode_symbol table)) (\<lambda>dist_slot s.
           with_table (table_ldc (sr_state s)) (\<lambda>table.
             attempt (format_err (decode_distance dist_slot table)) (\<lambda>dist s.
               let n = apply_length_bonus_u64 n dist in
               (Some (SMatch dist n FullMatch),
                s\<lparr>sr_state := (sr_state s)\<lparr>last_length := n,
                                        dist_cache := dist_cache_push (dist_cache (sr_state s)) dist\<rparr>,
                  sr_pos := sr_pos s + unat n\<rparr>))) s)) s)"

definition decode_non_literal :: "nat \<Rightarrow> symbol_reader \<Rightarrow> symbol option \<times> symbol_reader" where
  "decode_non_literal n s =
     (if n = SYM_FILTER then
        attempt (parse_filter (sr_pos s)) (\<lambda>filter s.
          (Some (SFilter filter),
           s\<lparr>sr_max_filter_end := max (sr_max_filter_end s) (saturating_add (pf_start filter) (pf_length filter))\<rparr>)) s
      else if n = SYM_REPEAT then
        let dist = dist_cache (sr_state s) ! 0; len = last_length (sr_state s) in
        if 0 < len \<and> 0 < dist then (Some (SMatch dist len RepeatMatch), s\<lparr>sr_pos := sr_pos s + unat len\<rparr>)
        else (None, s)
      else if SYM_CACHE_BASE \<le> n \<and> n \<le> SYM_CACHE_BASE + 3 then decode_cache_match (n - SYM_CACHE_BASE) s
      else decode_full_match (n - SYM_MATCH_BASE) s)"

definition sr_decode_symbol :: "symbol_reader \<Rightarrow> symbol option \<times> symbol_reader" where
  "sr_decode_symbol s =
     with_table (table_nc (sr_state s)) (\<lambda>table.
       attempt (format_err (decode_symbol table)) (\<lambda>n s.
         if n < 256 then (Some (SLiteral (word_of_nat n)), s\<lparr>sr_pos := sr_pos s + 1\<rparr>)
         else decode_non_literal n s)) s"

section \<open>Block headers\<close>

text \<open>The bytes of the size, low byte first, and the checksum over the header.\<close>

fun size_from_bytes :: "nat \<Rightarrow> byte list \<Rightarrow> u32 \<Rightarrow> u32" where
  "size_from_bytes i [] v = v"
| "size_from_bytes i (b # bs) v = size_from_bytes (i + 1) bs (v OR push_bit (i * 8) (ucast b))"

definition header_checksum :: "byte \<Rightarrow> byte list \<Rightarrow> byte" where
  "header_checksum flags size_bytes = foldl (XOR) (BLOCK_CHECKSUM_SEED XOR flags) size_bytes"

definition read_header_bytes :: "bitreader \<Rightarrow> (rar_error + byte \<times> byte \<times> byte list) \<times> bitreader" where
  "read_header_bytes =
     sbind (format_err br_read_byte) (\<lambda>flags.
       let byte_count = (drop_bit 3 flags AND 3) + 1 in
       sbind (format_err br_read_byte) (\<lambda>checksum.
         sbind (format_err (br_read_bytes (unat byte_count))) (\<lambda>size_bytes.
           sreturn (flags, checksum, size_bytes))))"

text \<open>
  The header up to the tables: size, whether tables follow, and the block. Bit 7 of the flags says
  that tables follow, bit 6 that the block is the last, the low three bits give the bits used in the
  last byte.
\<close>

definition check_header ::
  "byte \<times> byte \<times> byte list \<Rightarrow> bitreader \<Rightarrow> (rar_error + u32 \<times> bool \<times> active_block) \<times> bitreader" where
  "check_header h r =
     (let (flags, checksum, size_bytes) = h; sz = size_from_bytes 0 size_bytes 0 in
      if checksum \<noteq> header_checksum flags size_bytes then (Inl (Format ''block checksum mismatch''), r)
      else if sz = 0 then (Inl (Format ''zero-length block''), r)
      else (Inr (sz, drop_bit 7 flags AND 1 \<noteq> 0,
              \<lparr>start_bits = br_byte_position r * 8 + br_bit_position r,
               ab_bits = (unat sz - 1) * 8 + (1 + unat (flags AND 7)),
               is_last = (drop_bit 6 flags AND 1 \<noteq> 0)\<rparr>), r))"

definition read_block_header :: "symbol_reader \<Rightarrow> (rar_error + block_info) \<times> symbol_reader" where
  "read_block_header s =
     (case sbind read_header_bytes check_header (sr_reader s) of
        (Inl err, r) \<Rightarrow> (Inl err, s\<lparr>sr_reader := r\<rparr>)
      | (Inr (sz, present, block), r) \<Rightarrow>
          if present then
            (case read_tables (sr_extra_dist s) r of
               (Inl err, r) \<Rightarrow> (Inl err, s\<lparr>sr_reader := r\<rparr>)
             | (Inr (nc, dc, ldc, rc), r) \<Rightarrow>
                 (Inr \<lparr>block_size = sz, table_present = True, bi_nc = num_symbols nc,
                       bi_dc = num_symbols dc, bi_ldc = num_symbols ldc, bi_rc = num_symbols rc\<rparr>,
                  s\<lparr>sr_reader := r,
                    sr_state := (sr_state s)\<lparr>table_nc := Some nc, table_dc := Some dc,
                                           table_ldc := Some ldc, table_rc := Some rc\<rparr>,
                    sr_block := Some block\<rparr>))
          else
            (Inr \<lparr>block_size = sz, table_present = False, bi_nc = 0, bi_dc = 0, bi_ldc = 0, bi_rc = 0\<rparr>,
             s\<lparr>sr_reader := r, sr_block := Some block\<rparr>))"

section \<open>The loop over the blocks\<close>

text \<open>What one pass of the loop does when a block is active: a symbol, or on with the loop.\<close>

lemma attempt_cases:
  "attempt m f s = (case m (sr_reader s) of
     (Inl err, r) \<Rightarrow> (None, s\<lparr>sr_reader := r, sr_error := Some err\<rparr>)
   | (Inr a, r) \<Rightarrow> f a (s\<lparr>sr_reader := r\<rparr>))"
  by (auto simp: attempt_def sr_fail_def split: prod.split sum.split)

lemma decode_symbol_continues:
  assumes "sr_decode_symbol s = (None, s')" "sr_error s' = None"
  shows "br_bits_remaining (sr_reader s') < br_bits_remaining (sr_reader s) \<and> sr_block s' = sr_block s \<and>
    s' = s\<lparr>sr_reader := sr_reader s'\<rparr>"
proof -
  obtain table where table: "table_nc (sr_state s) = Some table"
    using assms by (auto simp: sr_decode_symbol_def with_table_def sr_fail_def split: option.splits)
  obtain x r where dec: "format_err (decode_symbol table) (sr_reader s) = (x, r)" by fastforce
  have "pays br_bits_remaining 1 (format_err (decode_symbol table))"
    unfolding format_err_def by (intro pays_smap_err pays_decode_symbol)
  then have cost: "br_bits_remaining r + (case x of Inl _ \<Rightarrow> 0 | Inr _ \<Rightarrow> 1) \<le> br_bits_remaining (sr_reader s)"
    using dec by (metis pays_def fst_conv snd_conv)
  have eq: "sr_decode_symbol s = (case x of
      Inl err \<Rightarrow> (None, s\<lparr>sr_reader := r, sr_error := Some err\<rparr>)
    | Inr n \<Rightarrow> if n < 256 then (Some (SLiteral (word_of_nat n)), s\<lparr>sr_reader := r, sr_pos := sr_pos s + 1\<rparr>)
        else decode_non_literal n (s\<lparr>sr_reader := r\<rparr>))"
    by (simp add: sr_decode_symbol_def with_table_def table attempt_cases dec split: sum.split)
  obtain n where n: "x = Inr n" "256 \<le> n" "decode_non_literal n (s\<lparr>sr_reader := r\<rparr>) = (None, s')"
    using assms eq by (auto split: sum.splits if_splits)
  have "s' = s\<lparr>sr_reader := r\<rparr>"
    using n(3) assms(2)
    by (auto simp: decode_non_literal_def decode_cache_match_def decode_full_match_def attempt_cases
        with_table_def sr_fail_def Let_def split: if_splits prod.splits sum.splits option.splits)
  then show ?thesis using cost n(1) by simp
qed

function sr_next_symbol :: "symbol_reader \<Rightarrow> symbol option \<times> symbol_reader" where
  "sr_next_symbol s =
     (if sr_end s \<le> sr_pos s then (None, s)
      else case sr_block s of
        Some block \<Rightarrow>
          let end_bits = start_bits block + ab_bits block in
          if br_consumed_bits (sr_reader s) < end_bits then
            case sr_decode_symbol s of
              (Some sy, s) \<Rightarrow> (Some sy, s)
            | (None, s) \<Rightarrow> if sr_error s \<noteq> None then (None, s) else sr_next_symbol s
          else
            let s = s\<lparr>sr_reader := br_set_position (end_bits div 8) (end_bits mod 8) (sr_reader s),
                      sr_block := None\<rparr> in
            if is_last block then (None, s) else sr_next_symbol s
      | None \<Rightarrow>
          case read_block_header s of
            (Inr info, s) \<Rightarrow> (Some (SBlockStart info), s)
          | (Inl err, s) \<Rightarrow> sr_fail err s)"
  by pat_completeness auto
termination
proof (relation "measure (\<lambda>s. case sr_block s of None \<Rightarrow> 0 | Some _ \<Rightarrow> Suc (br_bits_remaining (sr_reader s)))", goal_cases)
  case (2 s block end_bits p s')
  then show ?case using decode_symbol_continues [of s s'] by (simp add: eq_commute [of "(None, s')"])
qed auto

declare sr_next_symbol.simps [simp del]

text \<open>\<open>next\<close>: a member may not end inside the region of a filter.\<close>

definition sr_next :: "symbol_reader \<Rightarrow> symbol option \<times> symbol_reader" where
  "sr_next s =
     (case sr_next_symbol s of
        (Some sy, s) \<Rightarrow> (Some sy, s)
      | (None, s) \<Rightarrow>
          if sr_error s = None \<and> sr_end s < sr_max_filter_end s
          then sr_fail (Format ''unapplied RAR5 filter at end of stream'') s
          else (None, s))"

section \<open>The invariant of the stream\<close>

text \<open>
  The tables, when there are any, are the ones that \<open>read_tables\<close> builds; the cached
  distances are zero or within reach of the codes; the block starts behind the cursor.
\<close>

definition state_ok :: "symbol_state \<Rightarrow> bool" where
  "state_ok st \<longleftrightarrow> length (dist_cache st) = 4 \<and> (\<forall>d\<in>set (dist_cache st). unat d \<le> 2 ^ 40) \<and>
     unat (last_length st) \<le> 4100 \<and> (\<forall>t. table_nc st = Some t \<longrightarrow> table_of 306 t) \<and>
     (\<forall>t. table_dc st = Some t \<longrightarrow> (\<exists>n\<le>80. table_of n t)) \<and>
     (\<forall>t. table_ldc st = Some t \<longrightarrow> table_of 16 t) \<and>
     (\<forall>t. table_rc st = Some t \<longrightarrow> table_of 44 t)"

definition sr_ok :: "symbol_reader \<Rightarrow> bool" where
  "sr_ok s \<longleftrightarrow> br_ok (sr_reader s) \<and> state_ok (sr_state s) \<and>
     (\<forall>b. sr_block s = Some b \<longrightarrow> start_bits b \<le> br_consumed_bits (sr_reader s) \<and> 0 < ab_bits b)"

fun symbol_len :: "symbol \<Rightarrow> nat" where
  "symbol_len (SLiteral b) = 1"
| "symbol_len (SMatch dist n kind) = unat n"
| "symbol_len _ = 0"

fun symbol_ok :: "nat \<Rightarrow> symbol \<Rightarrow> bool" where
  "symbol_ok p (SMatch dist n kind) \<longleftrightarrow> 0 < n \<and> unat n \<le> 4100 \<and> unat dist \<le> 2 ^ 40"
| "symbol_ok p (SFilter f) \<longleftrightarrow> p \<le> pf_start f \<and> \<not> pf_applied f"
| "symbol_ok p _ \<longleftrightarrow> True"

fun symbol_filter_end :: "symbol \<Rightarrow> nat" where
  "symbol_filter_end (SFilter f) = saturating_add (pf_start f) (pf_length f)"
| "symbol_filter_end _ = 0"

text \<open>What a step that yields a symbol does to the stream.\<close>

definition advances :: "symbol_reader \<Rightarrow> symbol \<Rightarrow> symbol_reader \<Rightarrow> bool" where
  "advances s sy s' \<longleftrightarrow> br_ok (sr_reader s') \<and> state_ok (sr_state s') \<and> br_data (sr_reader s') = br_data (sr_reader s) \<and>
     br_consumed_bits (sr_reader s) \<le> br_consumed_bits (sr_reader s') \<and> sr_end s' = sr_end s \<and> sr_error s' = sr_error s \<and>
     sr_extra_dist s' = sr_extra_dist s \<and> sr_pos s' = sr_pos s + symbol_len sy \<and> symbol_ok (sr_pos s) sy \<and>
     sr_max_filter_end s' = max (sr_max_filter_end s) (symbol_filter_end sy)"

lemma state_ok_default: "state_ok symbol_state_default"
  by (simp add: state_ok_def symbol_state_default_def DIST_CACHE_SIZE_def)

lemma sr_new_ok: "state_ok st \<Longrightarrow> sr_ok (sr_new data extra start n st)"
  by (simp add: sr_ok_def sr_new_def)

lemma attempt_Some:
  "attempt m f s = (Some sy, s') \<longleftrightarrow>
     (\<exists>a r. m (sr_reader s) = (Inr a, r) \<and> f a (s\<lparr>sr_reader := r\<rparr>) = (Some sy, s'))"
  by (auto simp: attempt_cases split: prod.split sum.split)

lemma with_table_Some:
  "with_table t f s = (Some sy, s') \<longleftrightarrow> (\<exists>table. t = Some table \<and> f table s = (Some sy, s'))"
  by (auto simp: with_table_def sr_fail_def split: option.split)

lemma dist_cache_push_4: "dist_cache_push [a, b, c, d] v = [v, a, b, c]"
  by (simp add: dist_cache_push_def Let_def eval_nat_numeral)

lemma length_4: "length xs = 4 \<longleftrightarrow> (\<exists>a b c d. xs = [a, b, c, d])"
  by (auto simp: eval_nat_numeral length_Suc_conv)

lemma dist_cache_touch_4:
  assumes "length cache = 4" "idx < 4"
  shows "fst (dist_cache_touch cache idx) \<in> set cache" "length (snd (dist_cache_touch cache idx)) = 4"
    "set (snd (dist_cache_touch cache idx)) = set cache"
proof -
  obtain a b c d where cache: "cache = [a, b, c, d]" using iffD1 [OF length_4 assms(1)] by (elim exE)
  have "idx = 0 \<or> idx = 1 \<or> idx = 2 \<or> idx = 3" using assms(2) by auto
  then show "fst (dist_cache_touch cache idx) \<in> set cache" "length (snd (dist_cache_touch cache idx)) = 4"
    "set (snd (dist_cache_touch cache idx)) = set cache"
    by (auto simp: cache dist_cache_touch_def Let_def eval_nat_numeral)
qed

text \<open>The lengths that the slots of the tables stand for.\<close>

lemma decode_length_bounds:
  assumes "br_ok r" "slot < 44" "decode_length slot r = (Inr n, r')"
  shows "2 \<le> unat n \<and> unat n \<le> 4097"
proof -
  let ?b = "length_slot_bits slot" and ?base = "slot_base length_slot_bits 2"
  have b: "?b \<le> 32" using assms(2) by (auto simp: length_slot_bits_def)
  have enough: "?b \<le> length (br_rest r)"
  proof (rule ccontr)
    assume "\<not> ?thesis"
    then have "\<not> slot < 8" "?b = slot div 4 - 1" "0 < ?b" "length (br_rest r) < ?b"
      by (auto simp: length_slot_bits_def split: if_splits)
    then show False
      using assms(3) br_read_bits_spec [OF assms(1), of ?b] by (auto simp: decode_length_def Let_def sbind_eq_Inr)
  qed
  define x where "x = bits_nat (take ?b (br_rest r))"
  have "x < 2 ^ ?b" using bits_nat_less [of "take ?b (br_rest r)"] enough by (simp add: x_def)
  then have "?base slot + x < ?base (Suc slot)" by simp
  also have "\<dots> \<le> ?base 44" using assms(2) by (intro slot_base_mono) simp
  also have "?base 44 = 4098" using length_slot_base [of 44] by (simp add: push_bit_eq_mult)
  finally have less: "?base slot + x < 4098" .
  moreover have "2 \<le> ?base slot" using slot_base_mono [of 0 slot length_slot_bits 2] by simp
  moreover have "n = word_of_nat (?base slot + x)"
    using decode_length_value [OF assms(1) enough b] assms(3) by (simp add: x_def)
  ultimately show ?thesis by (simp add: unat_word_of_nat del: of_nat_add)
qed

lemma state_okD:
  assumes "state_ok st"
  shows "length (dist_cache st) = 4" "d \<in> set (dist_cache st) \<Longrightarrow> unat d \<le> 2 ^ 40"
    "table_nc st = Some t \<Longrightarrow> table_of 306 t" "table_dc st = Some t \<Longrightarrow> \<exists>n\<le>80. table_of n t"
    "table_ldc st = Some t \<Longrightarrow> table_of 16 t" "table_rc st = Some t \<Longrightarrow> table_of 44 t"
    "unat (last_length st) \<le> 4100"
  using assms by (auto simp: state_ok_def)

lemma length_bonus_bounds:
  assumes "2 \<le> unat n \<and> unat n \<le> 4097"
  shows "2 \<le> unat (apply_length_bonus_u64 n d) \<and> unat (apply_length_bonus_u64 n d) \<le> 4100"
proof -
  define k :: nat where "k = of_bool (0x100 < d) + of_bool (0x2000 < d) + of_bool (0x40000 < d)"
  have "apply_length_bonus_u64 n d = n + word_of_nat k"
    by (simp add: apply_length_bonus_u64_def k_def)
  also have "\<dots> = word_of_nat (unat n + k)" by simp
  finally have "unat (apply_length_bonus_u64 n d) = unat n + k"
    using assms unat_word_of_nat [of "unat n + k", where 'a = 32] by (simp add: k_def del: of_nat_add split: if_splits)
  moreover have "k \<le> 3" by (simp add: k_def)
  ultimately show ?thesis using assms by linarith
qed

text \<open>A match moves the position by its length and keeps the tables.\<close>

lemma advances_match:
  assumes "state_ok (sr_state s)" "br_ok r" "br_data r = br_data (sr_reader s)"
    "br_consumed_bits (sr_reader s) \<le> br_consumed_bits r" "0 < n" "unat n \<le> 4100" "unat dist \<le> 2 ^ 40"
    "length cache = 4" "set cache \<subseteq> insert dist (set (dist_cache (sr_state s)))"
  shows "advances s (SMatch dist n k)
    (s\<lparr>sr_reader := r, sr_state := (sr_state s)\<lparr>last_length := n, dist_cache := cache\<rparr>, sr_pos := sr_pos s + unat n\<rparr>)"
proof -
  have "\<forall>d\<in>set cache. unat d \<le> 2 ^ 40"
    using assms(7,9) state_okD(2) [OF assms(1)] by blast
  then have "state_ok ((sr_state s)\<lparr>last_length := n, dist_cache := cache\<rparr>)"
    using assms(1,6,8) by (simp add: state_ok_def)
  then show ?thesis using assms by (simp add: advances_def)
qed

lemma cache_match_advances:
  assumes ok: "br_ok (sr_reader s)" "state_ok (sr_state s)" and idx: "idx < 4"
    and "decode_cache_match idx s = (Some sy, s')"
  shows "advances s sy s'"
proof -
  obtain dist cache where touch: "dist_cache_touch (dist_cache (sr_state s)) idx = (dist, cache)" by fastforce
  obtain table slot r1 n r where dec: "table_rc (sr_state s) = Some table"
      "decode_symbol table (sr_reader s) = (Inr slot, r1)" "decode_length slot r1 = (Inr n, r)"
    and sy: "sy = SMatch dist n CacheMatch"
    and s': "s' = s\<lparr>sr_reader := r, sr_state := (sr_state s)\<lparr>last_length := n, dist_cache := cache\<rparr>,
      sr_pos := sr_pos s + unat n\<rparr>"
    using assms(4) by (auto simp: decode_cache_match_def touch Let_def with_table_Some attempt_Some)
  have t: "table_of 44 table" using state_okD(6) [OF ok(2) dec(1)] .
  note k1 = keepsD [OF keeps_decode_symbol [OF table_of_ok [OF t]] ok(1) dec(2)]
  have k1: "br_ok r1 \<and> br_data r1 = br_data (sr_reader s) \<and> br_consumed_bits (sr_reader s) \<le> br_consumed_bits r1"
    using k1 by simp
  have "slot < 44" using table_of_decode [OF t _ ok(1) dec(2)] by simp
  then have "2 \<le> unat n" "unat n \<le> 4097" using decode_length_bounds [OF _ _ dec(3)] k1 by blast+
  then have n: "0 < n" "unat n \<le> 4100" by (simp_all add: word_less_nat_alt)
  note k2 = keepsD [OF keeps_decode_length conjunct1 [OF k1] dec(3)]
  note touched = dist_cache_touch_4 [OF state_okD(1) [OF ok(2)] idx, unfolded touch fst_conv snd_conv]
  show ?thesis unfolding sy s'
    using advances_match [OF ok(2), of r n dist cache CacheMatch] k1 k2 n touched state_okD(2) [OF ok(2) touched(1)] by auto
qed

lemma full_match_advances:
  assumes ok: "br_ok (sr_reader s)" "state_ok (sr_state s)" and slot: "slot < 44"
    and "decode_full_match slot s = (Some sy, s')"
  shows "advances s sy s'"
proof -
  let ?cache = "dist_cache (sr_state s)"
  obtain n r1 dct dslot r2 ldct dist r where dec: "decode_length slot (sr_reader s) = (Inr n, r1)"
      "table_dc (sr_state s) = Some dct" "decode_symbol dct r1 = (Inr dslot, r2)"
      "table_ldc (sr_state s) = Some ldct" "decode_distance dslot ldct r2 = (Inr dist, r)"
    and sy: "sy = SMatch dist (apply_length_bonus_u64 n dist) FullMatch"
    and s': "s' = s\<lparr>sr_reader := r, sr_state := (sr_state s)\<lparr>last_length := apply_length_bonus_u64 n dist,
        dist_cache := dist_cache_push ?cache dist\<rparr>, sr_pos := sr_pos s + unat (apply_length_bonus_u64 n dist)\<rparr>"
    using assms(4) by (auto simp: decode_full_match_def Let_def with_table_Some attempt_Some)
  note k1 = keepsD [OF keeps_decode_length ok(1) dec(1)]
  obtain m where m: "m \<le> 80" "table_of m dct" using state_okD(4) [OF ok(2) dec(2)] by blast
  have k2: "br_ok r2 \<and> br_data r2 = br_data r1 \<and> br_consumed_bits r1 \<le> br_consumed_bits r2"
    using keepsD [OF keeps_decode_symbol [OF table_of_ok [OF m(2)]] conjunct1 [OF k1] dec(3)] m(1) by simp
  have "dslot < m" using table_of_decode [OF m(2) _ _ dec(3)] m(1) k1 by simp
  then have dslot: "dslot < 80" using m(1) by simp
  have ldc: "table_of 16 ldct" using state_okD(5) [OF ok(2) dec(4)] .
  have k3: "br_ok r \<and> br_data r = br_data r2 \<and> br_consumed_bits r2 \<le> br_consumed_bits r"
    using keepsD [OF keeps_decode_distance [OF table_of_ok [OF ldc] dslot] conjunct1 [OF k2] dec(5)] by simp
  have dist: "unat dist \<le> 2 ^ 40"
    using decode_distance_bound [OF conjunct1 [OF k2] dslot ldc dec(5)] by simp
  have n: "2 \<le> unat n \<and> unat n \<le> 4097" using decode_length_bounds [OF ok(1) slot dec(1)] .
  then have "0 < apply_length_bonus_u64 n dist" "unat (apply_length_bonus_u64 n dist) \<le> 4100"
    using length_bonus_bounds [of n dist] by (simp_all add: word_less_nat_alt)
  moreover have "set (dist_cache_push ?cache dist) \<subseteq> insert dist (set ?cache)" "length (dist_cache_push ?cache dist) = 4"
  proof -
    obtain a b c d where "?cache = [a, b, c, d]" using iffD1 [OF length_4 state_okD(1) [OF ok(2)]] by (elim exE)
    then show "set (dist_cache_push ?cache dist) \<subseteq> insert dist (set ?cache)" "length (dist_cache_push ?cache dist) = 4"
      by (auto simp: dist_cache_push_4)
  qed
  ultimately show ?thesis unfolding sy s'
    using k1 k2 k3 dist by (intro advances_match [OF ok(2)]) auto
qed

lemma non_literal_advances:
  assumes ok: "br_ok (sr_reader s)" "state_ok (sr_state s)" and n: "256 \<le> n" "n < 306"
    and "decode_non_literal n s = (Some sy, s')"
  shows "advances s sy s'"
proof -
  consider "n = SYM_FILTER" | "n = SYM_REPEAT" | "SYM_CACHE_BASE \<le> n" "n \<le> SYM_CACHE_BASE + 3" | "SYM_MATCH_BASE \<le> n"
    using n(1) unfolding SYM_FILTER_def SYM_REPEAT_def SYM_CACHE_BASE_def SYM_MATCH_BASE_def by linarith
  then show ?thesis
  proof cases
    case 1
    then obtain f r where f: "parse_filter (sr_pos s) (sr_reader s) = (Inr f, r)" "sy = SFilter f"
        "s' = s\<lparr>sr_reader := r, sr_max_filter_end := max (sr_max_filter_end s) (saturating_add (pf_start f) (pf_length f))\<rparr>"
      using assms(5) by (auto simp: decode_non_literal_def attempt_Some)
    with keepsD [OF keeps_parse_filter ok(1) f(1)] parse_filter_start [OF f(1)] ok(2)
    show ?thesis by (simp add: advances_def)
  next
    case 2
    let ?d = "dist_cache (sr_state s) ! 0" and ?n = "last_length (sr_state s)"
    have res: "sy = SMatch ?d ?n RepeatMatch" "s' = s\<lparr>sr_pos := sr_pos s + unat ?n\<rparr>" "0 < ?n"
      using assms(5) 2 by (auto simp: decode_non_literal_def SYM_FILTER_def SYM_REPEAT_def Let_def split: if_splits)
    have "?d \<in> set (dist_cache (sr_state s))" using state_okD(1) [OF ok(2)] by simp
    then have d: "unat ?d \<le> 2 ^ 40" by (rule state_okD(2) [OF ok(2)])
    show ?thesis using res d ok state_okD(7) [OF ok(2)] by (simp add: advances_def)
  next
    case 3
    then have "decode_cache_match (n - SYM_CACHE_BASE) s = (Some sy, s')" "n - SYM_CACHE_BASE < 4"
      using assms(5) by (auto simp: decode_non_literal_def SYM_FILTER_def SYM_REPEAT_def SYM_CACHE_BASE_def split: if_splits)
    then show ?thesis using cache_match_advances [OF ok] by blast
  next
    case 4
    then have "decode_full_match (n - SYM_MATCH_BASE) s = (Some sy, s')" "n - SYM_MATCH_BASE < 44"
      using assms(5) n(2)
      by (auto simp: decode_non_literal_def SYM_FILTER_def SYM_REPEAT_def SYM_CACHE_BASE_def SYM_MATCH_BASE_def split: if_splits)
    then show ?thesis using full_match_advances [OF ok] by blast
  qed
qed

text \<open>A decoded Huffman symbol costs at least a bit.\<close>

lemma decode_symbol_forward:
  assumes "table_of n t" "n \<le> 65536" "br_ok r" "decode_symbol t r = (Inr v, r')"
  shows "br_ok r' \<and> br_data r' = br_data r \<and> br_consumed_bits r < br_consumed_bits r'"
proof -
  note k = keepsD [OF keeps_decode_symbol [OF table_of_ok [OF assms(1,2)]] assms(3,4)]
  have "br_bits_remaining r' + 1 \<le> br_bits_remaining r"
    using pays_decode_symbol [of t] assms(4) unfolding pays_def by (metis fst_conv snd_conv sum.case(2))
  with k br_consumed_rest [of r] br_consumed_rest [of r'] length_br_rest [of r] length_br_rest [of r'] assms(3)
  show ?thesis by auto
qed

lemma sr_decode_symbol_advances:
  assumes ok: "br_ok (sr_reader s)" "state_ok (sr_state s)" and "sr_decode_symbol s = (Some sy, s')"
  shows "advances s sy s' \<and> sr_block s' = sr_block s \<and> br_consumed_bits (sr_reader s) < br_consumed_bits (sr_reader s')"
proof -
  obtain table n r where t: "table_nc (sr_state s) = Some table" "decode_symbol table (sr_reader s) = (Inr n, r)"
      "(if n < 256 then (Some (SLiteral (word_of_nat n)), s\<lparr>sr_reader := r\<rparr>\<lparr>sr_pos := sr_pos (s\<lparr>sr_reader := r\<rparr>) + 1\<rparr>)
        else decode_non_literal n (s\<lparr>sr_reader := r\<rparr>)) = (Some sy, s')"
    using assms(3) unfolding sr_decode_symbol_def with_table_Some attempt_Some format_err_eq_Inr by blast
  have table: "table_of 306 table" using state_okD(3) [OF ok(2) t(1)] .
  note fwd = decode_symbol_forward [OF table _ ok(1) t(2)]
  have fwd: "br_ok r \<and> br_data r = br_data (sr_reader s) \<and> br_consumed_bits (sr_reader s) < br_consumed_bits r"
    using fwd by simp
  have "n < 306" using table_of_decode [OF table _ ok(1) t(2)] by simp
  have block: "sr_block s' = sr_block s"
    using t(3) by (auto simp: decode_non_literal_def decode_cache_match_def decode_full_match_def attempt_Some
        with_table_Some Let_def split: if_splits prod.splits)
  show ?thesis
  proof (cases "n < 256")
    case True
    then show ?thesis using t(3) fwd ok(2) block by (auto simp: advances_def)
  next
    case False
    then have "advances (s\<lparr>sr_reader := r\<rparr>) sy s'"
      using non_literal_advances [of "s\<lparr>sr_reader := r\<rparr>" n sy s'] fwd ok(2) \<open>n < 306\<close> t(3) by simp
    then show ?thesis using fwd block by (auto simp: advances_def)
  qed
qed

text \<open>A byte is read whole, from the next byte boundary.\<close>

lemma read_byte_forward:
  assumes "br_ok r" "br_read_byte r = (Inr b, r')"
  shows "br_ok r' \<and> br_data r' = br_data r \<and> br_consumed_bits r < br_consumed_bits r'"
proof -
  let ?k = "(br_consumed_bits r + 7) div 8"
  have s: "br_ok r'" "br_data r' = br_data r" "?k < length (br_data r)" "br_rest r' = stream_bits (drop (Suc ?k) (br_data r))"
    using br_read_byte_spec [OF assms(1)] assms(2) by (auto split: if_splits)
  have "br_consumed_bits r' = 8 * Suc ?k"
    using br_consumed_rest [OF s(1)] s(2-4) by simp
  then show ?thesis using s by simp
qed

lemma keeps_br_read_byte [keeps_intros]: "keeps br_read_byte"
  unfolding keeps_def using read_byte_forward by (meson less_imp_le)

lemma keeps_br_read_bytes [keeps_intros]: "keeps (br_read_bytes n)"
  unfolding keeps_def
proof (intro allI impI)
  fix r bs r' assume r: "br_ok r" "br_read_bytes n r = (Inr bs, r')"
  let ?k = "(br_consumed_bits r + 7) div 8"
  have s: "br_ok r'" "br_data r' = br_data r" "?k + n \<le> length (br_data r)" "br_rest r' = stream_bits (drop (?k + n) (br_data r))"
    using br_read_bytes_spec [OF r(1), of n] r(2) by (auto split: if_splits)
  have "br_consumed_bits r' = 8 * (?k + n)"
    using br_consumed_rest [OF s(1)] s(2-4) by simp
  then show "br_ok r' \<and> br_data r' = br_data r \<and> br_consumed_bits r \<le> br_consumed_bits r'" using s by simp
qed

lemma read_header_bytes_forward:
  assumes "br_ok r" "read_header_bytes r = (Inr h, r')"
  shows "br_ok r' \<and> br_data r' = br_data r \<and> br_consumed_bits r < br_consumed_bits r'"
proof -
  obtain flags r1 where flags: "br_read_byte r = (Inr flags, r1)"
      "sbind (format_err br_read_byte) (\<lambda>checksum.
         sbind (format_err (br_read_bytes (unat ((drop_bit 3 flags AND 3) + 1)))) (\<lambda>size_bytes.
           sreturn (flags, checksum, size_bytes))) r1 = (Inr h, r')"
    using assms(2) unfolding read_header_bytes_def Let_def sbind_eq_Inr [of "format_err br_read_byte"] format_err_eq_Inr
    by (auto simp: sbind_eq_Inr)
  note k1 = read_byte_forward [OF assms(1) flags(1)]
  have "keeps (sbind (format_err br_read_byte) (\<lambda>checksum.
         sbind (format_err (br_read_bytes (unat ((drop_bit 3 flags AND 3) + 1)))) (\<lambda>size_bytes.
           sreturn (flags, checksum, size_bytes))))"
    by (intro keeps_intros)
  from keepsD [OF this conjunct1 [OF k1] flags(2)] k1 show ?thesis by auto
qed

lemma check_header_Inr:
  assumes "check_header h r = (Inr (sz, present, block), r')" "br_ok r"
  shows "r' = r \<and> start_bits block = br_consumed_bits r \<and> 0 < ab_bits block"
  using assms by (auto simp: check_header_def Let_def br_position split: prod.splits if_splits)

lemma read_block_header_spec:
  assumes "sr_ok s" "read_block_header s = (Inr info, s')"
  shows "sr_ok s' \<and> br_data (sr_reader s') = br_data (sr_reader s) \<and> sr_end s' = sr_end s \<and> sr_error s' = sr_error s \<and>
    sr_extra_dist s' = sr_extra_dist s \<and> sr_pos s' = sr_pos s \<and> sr_max_filter_end s' = sr_max_filter_end s \<and>
    (\<exists>b. sr_block s' = Some b \<and> br_consumed_bits (sr_reader s) < start_bits b)"
proof -
  have ok: "br_ok (sr_reader s)" "state_ok (sr_state s)" using assms(1) by (auto simp: sr_ok_def)
  obtain sz present block r where hd: "sbind read_header_bytes check_header (sr_reader s) = (Inr (sz, present, block), r)"
    using assms(2) by (auto simp: read_block_header_def split: prod.splits sum.splits)
  then obtain h r0 where h: "read_header_bytes (sr_reader s) = (Inr h, r0)" "check_header h r0 = (Inr (sz, present, block), r)"
    by (auto simp: sbind_eq_Inr)
  note f = read_header_bytes_forward [OF ok(1) h(1)]
  note c = check_header_Inr [OF h(2) conjunct1 [OF f]]
  show ?thesis
  proof (cases present)
    case False
    then show ?thesis
      using assms hd f c ok by (auto simp: read_block_header_def sr_ok_def)
  next
    case True
    obtain nc dc ldc rc r1 where t: "read_tables (sr_extra_dist s) r = (Inr (nc, dc, ldc, rc), r1)"
      "s' = s\<lparr>sr_reader := r1,
              sr_state := (sr_state s)\<lparr>table_nc := Some nc, table_dc := Some dc, table_ldc := Some ldc, table_rc := Some rc\<rparr>,
              sr_block := Some block\<rparr>"
      using assms(2) hd True by (auto simp: read_block_header_def split: prod.splits sum.splits)
    have "br_ok r" using f c by simp
    note spec = read_tables_spec [OF this t(1)]
    have "dc_count (sr_extra_dist s) \<le> 80" by (simp add: dc_count_def HUFF_DC_def HUFF_DCX_def)
    with spec have "\<exists>n\<le>80. table_of n dc" by blast
    then have "state_ok ((sr_state s)\<lparr>table_nc := Some nc, table_dc := Some dc, table_ldc := Some ldc, table_rc := Some rc\<rparr>)"
      using spec ok(2) by (simp add: state_ok_def HUFF_NC_def HUFF_LDC_def HUFF_RC_def)
    then show ?thesis using spec t f c by (auto simp: sr_ok_def)
  qed
qed

text \<open>
  The position in the packed data that the engine's progress is measured by: inside a block it
  never counts bits beyond the block's end, where the cursor is put back.
\<close>

definition sr_progress :: "symbol_reader \<Rightarrow> nat" where
  "sr_progress s = (case sr_block s of None \<Rightarrow> br_consumed_bits (sr_reader s)
     | Some b \<Rightarrow> min (br_consumed_bits (sr_reader s)) (start_bits b + ab_bits b))"

lemma sr_progress_bound: "sr_ok s \<Longrightarrow> sr_progress s \<le> 8 * length (br_data (sr_reader s))"
  using br_consumed_rest [of "sr_reader s"] by (auto simp: sr_progress_def sr_ok_def split: option.split)

lemma set_position_back:
  assumes "br_ok r" "n \<le> br_consumed_bits r"
  shows "br_ok (br_set_position (n div 8) (n mod 8) r) \<and> br_data (br_set_position (n div 8) (n mod 8) r) = br_data r \<and>
    br_consumed_bits (br_set_position (n div 8) (n mod 8) r) = n"
proof -
  have le: "n \<le> 8 * length (br_data r)" using assms(2) br_consumed_rest [OF assms(1)] by simp
  then have "n div 8 \<le> length (br_data r)" by (simp add: div_le_mono less_mult_imp_div_less)
  note s = br_set_position_spec [OF this, of "n mod 8"]
  have n: "n div 8 * 8 + n mod 8 = n" by simp
  show ?thesis
    using s le br_consumed_rest [of "br_set_position (n div 8) (n mod 8) r"] unfolding n by simp
qed

text \<open>A step that yields nothing and no error leaves the stream sound.\<close>

lemma sr_decode_symbol_none:
  assumes "sr_ok s" "sr_decode_symbol s = (None, s')" "sr_error s' = None"
  shows "sr_ok s' \<and> s' = s\<lparr>sr_reader := sr_reader s'\<rparr> \<and> br_data (sr_reader s') = br_data (sr_reader s) \<and>
    br_consumed_bits (sr_reader s) < br_consumed_bits (sr_reader s')"
proof -
  have s': "s' = s\<lparr>sr_reader := sr_reader s'\<rparr>" using decode_symbol_continues [OF assms(2,3)] by blast
  have ok: "br_ok (sr_reader s)" "state_ok (sr_state s)" using assms(1) by (auto simp: sr_ok_def)
  obtain table n r where t: "table_nc (sr_state s) = Some table" "decode_symbol table (sr_reader s) = (Inr n, r)"
      "(if n < 256 then (Some (SLiteral (word_of_nat n)), s\<lparr>sr_reader := r\<rparr>\<lparr>sr_pos := sr_pos (s\<lparr>sr_reader := r\<rparr>) + 1\<rparr>)
        else decode_non_literal n (s\<lparr>sr_reader := r\<rparr>)) = (None, s')"
    using assms(2,3) by (auto simp: sr_decode_symbol_def with_table_def attempt_cases sr_fail_def
        split: option.splits sum.splits prod.splits)
  have "table_of 306 table" using state_okD(3) [OF ok(2) t(1)] .
  from decode_symbol_forward [OF this _ ok(1) t(2)]
  have fwd: "br_ok r \<and> br_data r = br_data (sr_reader s) \<and> br_consumed_bits (sr_reader s) < br_consumed_bits r"
    by simp
  have "sr_reader s' = r"
    using t(3) assms(3)
    by (auto simp: decode_non_literal_def decode_cache_match_def decode_full_match_def attempt_cases
        with_table_def sr_fail_def Let_def split: if_splits prod.splits sum.splits option.splits)
  moreover have "sr_ok (s\<lparr>sr_reader := r\<rparr>)" using assms(1) fwd by (auto simp: sr_ok_def)
  ultimately show ?thesis using s' fwd by metis
qed

section \<open>The errors of the stream\<close>

definition stream_errors :: "rar_error set" where
  "stream_errors = table_errors \<union>
     Format ` {''no Huffman tables defined'', ''block checksum mismatch'', ''zero-length block'',
       ''unapplied RAR5 filter at end of stream''}"

lemma no_tables_error: "no_huffman_tables \<in> stream_errors"
  by (simp add: stream_errors_def no_huffman_tables_def)

text \<open>The same for the operations of the stream, which record their error.\<close>

definition stream_fails :: "(symbol_reader \<Rightarrow> symbol option \<times> symbol_reader) \<Rightarrow> bool" where
  "stream_fails g \<longleftrightarrow> (\<forall>s x s' e. br_ok (sr_reader s) \<longrightarrow> state_ok (sr_state s) \<longrightarrow> sr_error s = None \<longrightarrow>
     g s = (x, s') \<longrightarrow> sr_error s' = Some e \<longrightarrow> e \<in> stream_errors)"

lemma stream_failsD:
  assumes "stream_fails g" "br_ok (sr_reader s)" "state_ok (sr_state s)" "sr_error s = None" "g s = (x, s')" "sr_error s' = Some e"
  shows "e \<in> stream_errors"
  using assms unfolding stream_fails_def by blast

lemma stream_fails_quiet: "(\<And>s. sr_error (snd (g s)) = sr_error s) \<Longrightarrow> stream_fails g"
  unfolding stream_fails_def by (metis option.distinct(1) snd_conv)

lemma stream_fails_attempt:
  assumes "keeps m" "fails_in table_errors m"
    and "\<And>r a r'. br_ok r \<Longrightarrow> m r = (Inr a, r') \<Longrightarrow> stream_fails (f a)"
  shows "stream_fails (attempt m f)"
  unfolding stream_fails_def
proof (intro allI impI)
  fix s x s' e assume s: "br_ok (sr_reader s)" "state_ok (sr_state s)" "sr_error s = None"
    and res: "attempt m f s = (x, s')" "sr_error s' = Some e"
  obtain y r where m: "m (sr_reader s) = (y, r)" by fastforce
  show "e \<in> stream_errors"
  proof (cases y)
    case (Inl err)
    then have "err = e" using res m by (auto simp: attempt_cases)
    then show ?thesis using fails_inD [OF assms(2) s(1)] m Inl by (auto simp: stream_errors_def)
  next
    case (Inr a)
    then have "f a (s\<lparr>sr_reader := r\<rparr>) = (x, s')" using res m by (simp add: attempt_cases)
    moreover have "br_ok r" using keepsD [OF assms(1) s(1)] m Inr by blast
    ultimately show ?thesis
      using stream_failsD [OF assms(3) [OF s(1)], of a r "s\<lparr>sr_reader := r\<rparr>"] m Inr s res by simp
  qed
qed

lemma stream_fails_table:
  assumes "\<And>st table. state_ok st \<Longrightarrow> sel st = Some table \<Longrightarrow> stream_fails (f table)"
  shows "stream_fails (\<lambda>s. with_table (sel (sr_state s)) f s)"
  unfolding stream_fails_def
proof (intro allI impI)
  fix s x s' e assume s: "br_ok (sr_reader s)" "state_ok (sr_state s)" "sr_error s = None"
    and res: "with_table (sel (sr_state s)) f s = (x, s')" "sr_error s' = Some e"
  show "e \<in> stream_errors"
  proof (cases "sel (sr_state s)")
    case None
    then have "e = no_huffman_tables" using res by (auto simp: with_table_def sr_fail_def)
    then show ?thesis by (simp only: no_tables_error)
  next
    case (Some table)
    then show ?thesis using stream_failsD [OF assms [OF s(2) Some] s] res by (simp add: with_table_def)
  qed
qed

lemma stream_fails_cache_match:
  assumes "idx < 4"
  shows "stream_fails (decode_cache_match idx)"
  unfolding stream_fails_def
proof (intro allI impI)
  fix s x s' e assume s: "br_ok (sr_reader s)" "state_ok (sr_state s)" "sr_error s = None"
    and res: "decode_cache_match idx s = (x, s')" "sr_error s' = Some e"
  obtain dist cache where touch: "dist_cache_touch (dist_cache (sr_state s)) idx = (dist, cache)" by fastforce
  let ?s = "s\<lparr>sr_state := (sr_state s)\<lparr>dist_cache := cache\<rparr>\<rparr>"
  let ?g = "\<lambda>table. attempt (format_err (decode_symbol table)) (\<lambda>len_slot.
      attempt (format_err (decode_length len_slot)) (\<lambda>n s.
        (Some (SMatch dist n CacheMatch), s\<lparr>sr_state := (sr_state s)\<lparr>last_length := n\<rparr>, sr_pos := sr_pos s + unat n\<rparr>)))"
  have ok: "state_ok (sr_state ?s)"
    using dist_cache_touch_4 [OF state_okD(1) [OF s(2)] assms] s(2) touch by (simp add: state_ok_def)
  have "stream_fails (\<lambda>s. with_table (table_rc (sr_state s)) ?g s)"
  proof (rule stream_fails_table)
    fix st table assume "state_ok st" "table_rc st = Some table"
    then have "table_ok table" using table_of_ok state_okD(6) by fastforce
    then show "stream_fails (?g table)"
      by (intro stream_fails_attempt fails_intros keeps_intros) (auto intro: stream_fails_quiet)
  qed
  from stream_failsD [OF this _ ok] show "e \<in> stream_errors"
    using s res by (simp add: decode_cache_match_def touch)
qed

lemma stream_fails_full_match:
  shows "stream_fails (decode_full_match slot)"
  unfolding decode_full_match_def
proof (rule stream_fails_attempt)
  show "keeps (format_err (decode_length slot))" "fails_in table_errors (format_err (decode_length slot))"
    by (intro fails_intros keeps_intros)+
  fix n
  let ?h = "\<lambda>dist s. let n = apply_length_bonus_u64 n dist in
      (Some (SMatch dist n FullMatch),
       s\<lparr>sr_state := (sr_state s)\<lparr>last_length := n, dist_cache := dist_cache_push (dist_cache (sr_state s)) dist\<rparr>,
         sr_pos := sr_pos s + unat n\<rparr>)"
  have ldc: "stream_fails (\<lambda>s. with_table (table_ldc (sr_state s)) (\<lambda>table.
      attempt (format_err (decode_distance dist_slot table)) ?h) s)" if "dist_slot < 80" for dist_slot
  proof (rule stream_fails_table)
    fix st table assume "state_ok st" "table_ldc st = Some table"
    then have "table_ok table" using table_of_ok state_okD(5) by fastforce
    then show "stream_fails (attempt (format_err (decode_distance dist_slot table)) ?h)"
      using that by (intro stream_fails_attempt fails_intros keeps_intros) (auto intro: stream_fails_quiet simp: Let_def)
  qed
  show "stream_fails (\<lambda>s. with_table (table_dc (sr_state s)) (\<lambda>table.
      attempt (format_err (decode_symbol table)) (\<lambda>dist_slot s. with_table (table_ldc (sr_state s)) (\<lambda>table.
        attempt (format_err (decode_distance dist_slot table)) ?h) s)) s)"
  proof (rule stream_fails_table)
    fix st table assume "state_ok st" "table_dc st = Some table"
    then obtain m where m: "m \<le> 80" "table_of m table" using state_okD(4) by blast
    then have t: "table_ok table" using table_of_ok by fastforce
    show "stream_fails (attempt (format_err (decode_symbol table)) (\<lambda>dist_slot s. with_table (table_ldc (sr_state s)) (\<lambda>table.
        attempt (format_err (decode_distance dist_slot table)) ?h) s))"
    proof (rule stream_fails_attempt)
      fix r slot r' assume r: "br_ok r" "format_err (decode_symbol table) r = (Inr slot, r')"
      then have "slot < m" using table_of_decode [OF m(2) _ r(1)] m(1) by simp
      then show "stream_fails (\<lambda>s. with_table (table_ldc (sr_state s)) (\<lambda>table.
        attempt (format_err (decode_distance slot table)) ?h) s)" using m(1) by (intro ldc) simp
    qed (intro fails_intros keeps_intros t)+
  qed
qed

lemma stream_fails_non_literal:
  "stream_fails (decode_non_literal n)"
proof -
  consider "n = SYM_FILTER" | "n = SYM_REPEAT" | "n \<noteq> SYM_FILTER" "n \<noteq> SYM_REPEAT" "SYM_CACHE_BASE \<le> n \<and> n \<le> SYM_CACHE_BASE + 3"
    | "n \<noteq> SYM_FILTER" "n \<noteq> SYM_REPEAT" "\<not> (SYM_CACHE_BASE \<le> n \<and> n \<le> SYM_CACHE_BASE + 3)" by blast
  then show ?thesis
  proof cases
    case 1
    have "stream_fails (attempt (parse_filter (sr_pos s0)) (\<lambda>filter s. (Some (SFilter filter),
        s\<lparr>sr_max_filter_end := max (sr_max_filter_end s) (saturating_add (pf_start filter) (pf_length filter))\<rparr>)))" for s0
      by (intro stream_fails_attempt fails_intros keeps_intros stream_fails_quiet) simp
    then show ?thesis unfolding stream_fails_def decode_non_literal_def using 1 by (simp only: if_True simp_thms) blast
  next
    case 2
    then show ?thesis
      by (intro stream_fails_quiet) (simp add: decode_non_literal_def SYM_FILTER_def SYM_REPEAT_def Let_def)
  next
    case 3
    then have "decode_non_literal n = decode_cache_match (n - SYM_CACHE_BASE)" by (auto simp: decode_non_literal_def)
    moreover have "n - SYM_CACHE_BASE < 4" using 3(3) by linarith
    ultimately show ?thesis by (simp add: stream_fails_cache_match)
  next
    case 4
    then have "decode_non_literal n = decode_full_match (n - SYM_MATCH_BASE)" by (auto simp: decode_non_literal_def)
    then show ?thesis by (simp add: stream_fails_full_match)
  qed
qed

lemma stream_fails_decode_symbol: "stream_fails sr_decode_symbol"
  unfolding sr_decode_symbol_def
proof (rule stream_fails_table)
  fix st table assume "state_ok st" "table_nc st = Some table"
  then have "table_ok table" using table_of_ok state_okD(3) by fastforce
  moreover have "stream_fails (\<lambda>s. if n < 256 then (Some (SLiteral (word_of_nat n)), s\<lparr>sr_pos := sr_pos s + 1\<rparr>)
      else decode_non_literal n s)" for n
    using stream_fails_non_literal [of n] by (cases "n < 256") (auto intro: stream_fails_quiet)
  ultimately show "stream_fails (attempt (format_err (decode_symbol table)) (\<lambda>n s.
      if n < 256 then (Some (SLiteral (word_of_nat n)), s\<lparr>sr_pos := sr_pos s + 1\<rparr>) else decode_non_literal n s))"
    by (intro stream_fails_attempt fails_intros keeps_intros)
qed

lemma read_block_header_error:
  assumes "sr_ok s" "read_block_header s = (Inl e, s')"
  shows "e \<in> stream_errors"
proof -
  have ok: "br_ok (sr_reader s)" using assms(1) by (simp add: sr_ok_def)
  have byte: "fails_in bit_errors br_read_byte" "fails_in bit_errors (br_read_bytes n)" for n
    using br_read_byte_spec br_read_bytes_spec [of _ n]
    by (fastforce simp: fails_in_def bit_errors_def split: if_splits)+
  have hd: "fails_in stream_errors read_header_bytes"
    unfolding read_header_bytes_def Let_def
    by (rule fails_mono [of table_errors]) (intro fails_intros keeps_intros byte, auto simp: stream_errors_def)
  have chk: "fails_in stream_errors (check_header h)" for h
    by (auto simp: fails_in_def check_header_def Let_def stream_errors_def split: prod.splits if_splits)
  have k: "keeps read_header_bytes" unfolding keeps_def using read_header_bytes_forward by (meson less_imp_le)
  note both = fails_sbind [OF k hd chk]
  obtain y r where yr: "sbind read_header_bytes check_header (sr_reader s) = (y, r)" by fastforce
  show ?thesis
  proof (cases y)
    case (Inl err)
    then show ?thesis using assms(2) yr fails_inD [OF both ok] by (simp add: read_block_header_def)
  next
    case (Inr z)
    obtain sz present block where z: "z = (sz, present, block)" by (cases z)
    obtain h r0 where h: "read_header_bytes (sr_reader s) = (Inr h, r0)" "check_header h r0 = (Inr z, r)"
      using yr Inr by (auto simp: sbind_eq_Inr)
    have "br_ok r" using check_header_Inr [OF h(2) [unfolded z]] read_header_bytes_forward [OF ok h(1)] by simp
    then show ?thesis
      using assms(2) yr Inr z fails_inD [OF fails_read_tables, of r _ e]
      by (auto simp: read_block_header_def stream_errors_def split: if_splits prod.splits sum.splits)
  qed
qed

section \<open>The stream as a whole\<close>

definition sr_step :: "symbol_reader \<Rightarrow> symbol \<Rightarrow> symbol_reader \<Rightarrow> bool" where
  "sr_step s sy s' \<longleftrightarrow> sr_ok s' \<and> br_data (sr_reader s') = br_data (sr_reader s) \<and> sr_end s' = sr_end s \<and>
     sr_error s' = None \<and> sr_pos s' = sr_pos s + symbol_len sy \<and> symbol_ok (sr_pos s) sy \<and> sr_pos s < sr_end s \<and>
     sr_max_filter_end s' = max (sr_max_filter_end s) (symbol_filter_end sy) \<and> sr_progress s < sr_progress s'"

definition sr_stop :: "symbol_reader \<Rightarrow> symbol_reader \<Rightarrow> bool" where
  "sr_stop s s' \<longleftrightarrow> sr_ok s' \<and> br_data (sr_reader s') = br_data (sr_reader s) \<and> sr_end s' = sr_end s \<and>
     sr_pos s' = sr_pos s \<and> sr_max_filter_end s' = sr_max_filter_end s"

lemma block_end_ok:
  assumes "sr_ok s" "sr_block s = Some b" "start_bits b + ab_bits b \<le> br_consumed_bits (sr_reader s)"
  defines "e \<equiv> start_bits b + ab_bits b"
  defines "s' \<equiv> s\<lparr>sr_reader := br_set_position (e div 8) (e mod 8) (sr_reader s), sr_block := None\<rparr>"
  shows "sr_ok s'" "sr_progress s' = sr_progress s" "br_data (sr_reader s') = br_data (sr_reader s)"
  using set_position_back [of "sr_reader s" e] assms by (auto simp: sr_ok_def sr_progress_def)

lemma sr_next_symbol_spec:
  assumes "sr_ok s" "sr_error s = None" "sr_next_symbol s = (x, s')"
  shows "case x of Some sy \<Rightarrow> sr_step s sy s' | None \<Rightarrow> (case sr_error s' of None \<Rightarrow> sr_stop s s' | Some e \<Rightarrow> e \<in> stream_errors)"
  using assms
proof (induction s rule: sr_next_symbol.induct)
  case (1 s)
  note eq = sr_next_symbol.simps [of s]
  show ?case
  proof (cases "sr_end s \<le> sr_pos s")
    case True
    then show ?thesis using 1(3-5) by (auto simp: eq sr_stop_def)
  next
    case False
    show ?thesis
    proof (cases "sr_block s")
      case None
      show ?thesis
      proof (cases "read_block_header s")
        case (Pair y t)
        show ?thesis
        proof (cases y)
          case (Inl err)
          then show ?thesis using 1(5) False None Pair read_block_header_error [OF 1(3), of err t]
            by (auto simp: eq sr_fail_def)
        next
          case (Inr info)
          then have "x = Some (SBlockStart info)" "s' = t" using 1(5) False None Pair by (auto simp: eq)
          with read_block_header_spec [OF 1(3), of info t] Pair Inr 1(4) False None show ?thesis
            by (auto simp: sr_step_def sr_progress_def sr_ok_def)
        qed
      qed
    next
      case (Some b)
      let ?e = "start_bits b + ab_bits b"
      show ?thesis
      proof (cases "br_consumed_bits (sr_reader s) < ?e")
        case outside: False
        let ?t = "s\<lparr>sr_reader := br_set_position (?e div 8) (?e mod 8) (sr_reader s), sr_block := None\<rparr>"
        note t = block_end_ok [OF 1(3) Some, folded not_less, OF outside]
        show ?thesis
        proof (cases "is_last b")
          case True
          then show ?thesis using 1(4,5) False Some outside t by (auto simp: eq Let_def sr_stop_def)
        next
          case more: False
          then have "sr_next_symbol ?t = (x, s')" using 1(5) False Some outside by (simp add: eq Let_def)
          from 1(2) [OF False Some refl outside refl more t(1) _ this] 1(4) show ?thesis
            using t by (auto simp: sr_step_def sr_stop_def split: option.splits)
        qed
      next
        case inside: True
        show ?thesis
        proof (cases "sr_decode_symbol s")
          case (Pair y t)
          show ?thesis
          proof (cases y)
            case (Some sy)
            then have res: "x = Some sy" "s' = t" using 1(5) False \<open>sr_block s = Some b\<close> inside Pair by (auto simp: eq)
            have ok: "br_ok (sr_reader s)" "state_ok (sr_state s)" using 1(3) by (auto simp: sr_ok_def)
            note adv = sr_decode_symbol_advances [OF ok, of sy t]
            then show ?thesis using res Pair Some \<open>sr_block s = Some b\<close> inside False 1(3,4)
              by (auto simp: sr_step_def advances_def sr_ok_def sr_progress_def)
          next
            case None
            show ?thesis
            proof (cases "sr_error t")
              case (Some err)
              have "br_ok (sr_reader s)" "state_ok (sr_state s)" using 1(3) by (auto simp: sr_ok_def)
              from stream_failsD [OF stream_fails_decode_symbol this 1(4) Pair Some]
              show ?thesis using 1(5) False \<open>sr_block s = Some b\<close> inside Pair None Some by (auto simp: eq)
            next
              case noerr: None
              have "sr_decode_symbol s = (None, t)" using Pair None by simp
              note dn = sr_decode_symbol_none [OF 1(3) this noerr]
              have "sr_next_symbol t = (x, s')" using 1(5) False \<open>sr_block s = Some b\<close> inside Pair None noerr by (simp add: eq)
              then have ih: "case x of Some sy \<Rightarrow> sr_step t sy s' | None \<Rightarrow> (case sr_error s' of None \<Rightarrow> sr_stop t s' | Some e \<Rightarrow> e \<in> stream_errors)"
                using 1(1) [OF False \<open>sr_block s = Some b\<close> refl inside Pair [symmetric] None _ conjunct1 [OF dn] noerr] noerr
                by simp
              have same: "sr_end t = sr_end s" "sr_pos t = sr_pos s" "sr_max_filter_end t = sr_max_filter_end s"
                  "sr_block t = sr_block s" "br_data (sr_reader t) = br_data (sr_reader s)"
              proof -
                obtain r where t: "t = s\<lparr>sr_reader := r\<rparr>" using dn by blast
                have "br_data (sr_reader t) = br_data (sr_reader s)" using dn by blast
                then show "sr_end t = sr_end s" "sr_pos t = sr_pos s" "sr_max_filter_end t = sr_max_filter_end s"
                  "sr_block t = sr_block s" "br_data (sr_reader t) = br_data (sr_reader s)" by (simp_all add: t)
              qed
              then have "sr_progress s \<le> sr_progress t"
                using dn by (auto simp: sr_progress_def split: option.split)
              then show ?thesis using ih same by (auto simp: sr_step_def sr_stop_def split: option.splits)
            qed
          qed
        qed
      qed
    qed
  qed
qed

lemma sr_next_spec:
  assumes "sr_ok s" "sr_error s = None" "sr_next s = (x, s')"
  shows "case x of Some sy \<Rightarrow> sr_step s sy s'
    | None \<Rightarrow> (case sr_error s' of
        None \<Rightarrow> sr_stop s s' \<and> sr_max_filter_end s \<le> sr_end s | Some e \<Rightarrow> e \<in> stream_errors)"
proof -
  obtain y t where nxt: "sr_next_symbol s = (y, t)" by fastforce
  note spec = sr_next_symbol_spec [OF assms(1,2) nxt]
  show ?thesis
  proof (cases y)
    case (Some sy)
    then show ?thesis using assms(3) nxt spec by (auto simp: sr_next_def)
  next
    case None
    then show ?thesis using assms(3) nxt spec
      by (auto simp: sr_next_def sr_fail_def sr_stop_def stream_errors_def split: option.splits if_splits)
  qed
qed

end
