(* ===== verification/Rar5Engine.thy ===== *)
theory Rar5Engine
  imports "HOL-Library.Multiset" Rar5Symbols RingWindow Filters
begin

text \<open>
  The decoding engine of a RAR5/RAR7 member (codec/modern/lzss_huff/decoder/engine.rs and mod.rs):
  every symbol is applied to the ring window; whenever 64 KiB have been produced they move from the
  ring to a staging buffer, the filters whose regions are complete are applied there, and what
  lies before the first open filter is written out. The writer is a byte vector, as in
  \<open>decode_raw\<close>. Offsets into the output are naturals.
\<close>

section \<open>Dictionary sizes\<close>

text \<open>\<open>usize::checked_next_power_of_two\<close> on a 64-bit host.\<close>

function next_power_from :: "nat \<Rightarrow> nat \<Rightarrow> nat" where
  "next_power_from p n = (if n \<le> p \<or> p = 0 then p else next_power_from (2 * p) n)"
  by pat_completeness auto
termination
  by (relation "measure (\<lambda>(p, n). n - p)") auto

declare next_power_from.simps [simp del]

definition checked_next_power_of_two :: "nat \<Rightarrow> nat option" where
  "checked_next_power_of_two n =
     (let p = next_power_from 1 n in if p < 2 ^ 64 then Some p else None)"

definition checked_dict_size :: "nat \<Rightarrow> nat option \<Rightarrow> rar_error + nat" where
  "checked_dict_size dict_size_log dict_size_bytes =
     (case dict_size_bytes of
        Some bytes \<Rightarrow> ok_or (Format ''dictionary size overflows host address space'') (checked_next_power_of_two bytes)
      | None \<Rightarrow>
          if 15 < dict_size_log then Inl (Format ''dictionary size log exceeds supported maximum 15'')
          else ok_or (Format ''dictionary size overflows host address space'')
            (checked_next_power_of_two (push_bit dict_size_log (128 * 1024))))"

section \<open>The output sink\<close>

definition MAX_STREAMING_FILTER_BUFFER :: nat where "MAX_STREAMING_FILTER_BUFFER = 64 * 1024 * 1024"
definition COPY_THRESHOLD :: nat where "COPY_THRESHOLD = 64 * 1024"

record output_sink =
  snk_out :: "byte list"
  snk_staging :: "byte list"
  snk_start :: nat
  snk_member :: nat
  snk_consumed :: nat

definition sink_new :: "nat \<Rightarrow> output_sink" where
  "sink_new start = \<lparr>snk_out = [], snk_staging = [], snk_start = start, snk_member = start, snk_consumed = 0\<rparr>"

definition staging_len :: "output_sink \<Rightarrow> nat" where
  "staging_len s = length (snk_staging s) - snk_consumed s"

definition append_window :: "window \<Rightarrow> nat \<Rightarrow> nat \<Rightarrow> output_sink \<Rightarrow> rar_error + output_sink" where
  "append_window w start stop s =
     (if stop \<le> start then Inr s
      else if MAX_STREAMING_FILTER_BUFFER < staging_len s + (stop - start)
        then Inl (Format ''filtered output region exceeds streaming buffer limit'')
      else case win_append_output start (stop - start) w (snk_staging s) of
          None \<Rightarrow> Inl Panic
        | Some staging \<Rightarrow> Inr (s\<lparr>snk_staging := staging\<rparr>))"

text \<open>The body of the loop over the filters that are not applied yet.\<close>

definition apply_one_filter :: "bool \<Rightarrow> pending_filter \<Rightarrow> output_sink \<Rightarrow> rar_error + pending_filter \<times> output_sink" where
  "apply_one_filter simd filt s =
     (let staging_end = snk_start s + staging_len s in
      if staging_end < pf_start filt + pf_length filt then Inr (filt, s)
      else if pf_start filt < snk_start s \<or> pf_start filt < snk_member s then Inl Panic
      else
        let start_off = pf_start filt - snk_start s; end_off = start_off + pf_length filt; base = snk_consumed s in
        if length (snk_staging s) < base + end_off then Inl (Format ''filter region out of staging bounds'')
        else
          let region = take (pf_length filt) (drop (base + start_off) (snk_staging s)) in
          case apply_filter_decode simd (pf_type filt) region (pf_channels filt)
                 (word_of_nat (pf_start filt - snk_member s)) of
            Inl _ \<Rightarrow> Inl (Format ''unsupported RAR5 filter type'')
          | Inr filtered \<Rightarrow>
              if length filtered \<noteq> length region then Inl (Format ''RAR5 filter changed output length'')
              else Inr (filt\<lparr>pf_applied := True\<rparr>,
                s\<lparr>snk_staging := take (base + start_off) (snk_staging s) @ filtered @
                                   drop (base + end_off) (snk_staging s)\<rparr>))"

fun apply_complete_filters ::
  "bool \<Rightarrow> pending_filter list \<Rightarrow> output_sink \<Rightarrow> rar_error + pending_filter list \<times> output_sink" where
  "apply_complete_filters simd [] s = Inr ([], s)"
| "apply_complete_filters simd (filt # rest) s =
     rbind (if pf_applied filt then Inr (filt, s) else apply_one_filter simd filt s) (\<lambda>(filt, s).
       rbind (apply_complete_filters simd rest s) (\<lambda>(rest, s). Inr (filt # rest, s)))"

fun earliest_filter :: "pending_filter list \<Rightarrow> nat option" where
  "earliest_filter [] = None"
| "earliest_filter (f # fs) =
     (if pf_applied f then earliest_filter fs
      else Some (case earliest_filter fs of None \<Rightarrow> pf_start f | Some m \<Rightarrow> min (pf_start f) m))"

definition drain_up_to :: "nat \<Rightarrow> pending_filter list \<Rightarrow> output_sink \<Rightarrow> rar_error + output_sink" where
  "drain_up_to written pending s =
     (let drain_to = min (case earliest_filter pending of None \<Rightarrow> written | Some m \<Rightarrow> m) written in
      if drain_to < snk_start s then Inl Panic
      else let n = drain_to - snk_start s in
        if staging_len s < n then Inl (Format ''internal drain beyond staging'')
        else if 0 < n then
          let s = s\<lparr>snk_out := snk_out s @ take n (drop (snk_consumed s) (snk_staging s)),
                    snk_consumed := snk_consumed s + n, snk_start := snk_start s + n\<rparr> in
          if 1024 * 1024 < snk_consumed s \<or> snk_consumed s = length (snk_staging s)
          then Inr (s\<lparr>snk_staging := drop (snk_consumed s) (snk_staging s), snk_consumed := 0\<rparr>)
          else Inr s
        else Inr s)"

section \<open>The engine\<close>

record engine =
  eng_window :: window
  eng_symbols :: symbol_reader
  eng_pending :: "pending_filter list"
  eng_sink :: output_sink
  eng_copied :: nat

fun engine_symbol :: "symbol \<Rightarrow> engine \<Rightarrow> rar_error + engine" where
  "engine_symbol (SLiteral b) e = Inr (e\<lparr>eng_window := win_put_byte b (eng_window e)\<rparr>)"
| "engine_symbol (SMatch dist n kind) e =
     (let max_dist = min (win_total (eng_window e)) (win_capacity (eng_window e)) in
      if dist = 0 \<or> max_dist < unat dist then Inl (Format ''match distance exceeds the window'')
      else Inr (e\<lparr>eng_window := win_copy_match (unat dist) (unat n) (eng_window e)\<rparr>))"
| "engine_symbol (SFilter filt) e = Inr (e\<lparr>eng_pending := eng_pending e @ [filt]\<rparr>)"
| "engine_symbol (SBlockStart info) e = Inr e"

definition engine_flush :: "bool \<Rightarrow> engine \<Rightarrow> rar_error + engine" where
  "engine_flush simd e =
     (let written = win_total (eng_window e) in
      if COPY_THRESHOLD \<le> written - eng_copied e then
        rbind (append_window (eng_window e) (eng_copied e) written (eng_sink e)) (\<lambda>sink.
          rbind (apply_complete_filters simd (eng_pending e) sink) (\<lambda>(pending, sink).
            rbind (drain_up_to written pending sink) (\<lambda>sink.
              Inr (e\<lparr>eng_sink := sink, eng_pending := pending, eng_copied := written\<rparr>))))
      else Inr e)"

text \<open>The loop over the symbols; that it ends is proved below.\<close>

partial_function (option) engine_loop :: "bool \<Rightarrow> engine \<Rightarrow> (rar_error + engine) option" where
  "engine_loop simd e =
     (case sr_next (eng_symbols e) of
        (None, symbols) \<Rightarrow> Some (Inr (e\<lparr>eng_symbols := symbols\<rparr>))
      | (Some sy, symbols) \<Rightarrow>
          (case rbind (engine_symbol sy (e\<lparr>eng_symbols := symbols\<rparr>)) (engine_flush simd) of
             Inl err \<Rightarrow> Some (Inl err)
           | Inr e \<Rightarrow> engine_loop simd e))"

definition engine_finish :: "bool \<Rightarrow> nat \<Rightarrow> nat \<Rightarrow> engine \<Rightarrow> rar_error + engine" where
  "engine_finish simd output_start unpacked_size e =
     (case sr_error (eng_symbols e) of
        Some err \<Rightarrow> Inl err
      | None \<Rightarrow>
          let written = win_total (eng_window e) in
          rbind (if eng_copied e < written
                then append_window (eng_window e) (eng_copied e) written (eng_sink e) else Inr (eng_sink e)) (\<lambda>sink.
            rbind (apply_complete_filters simd (eng_pending e) sink) (\<lambda>(pending, sink).
              rbind (drain_up_to written pending sink) (\<lambda>sink.
                if list_ex (\<lambda>f. \<not> pf_applied f) pending
                then Inl (Format ''unapplied RAR5 filter at end of stream'')
                else if staging_len sink \<noteq> 0 then Inl (Format ''internal streaming decode staging error'')
                else if written - output_start \<noteq> unpacked_size then Inl (Format ''decompressed size mismatch'')
                else Inr (e\<lparr>eng_sink := sink, eng_pending := pending\<rparr>)))))"

text \<open>What a member needs and leaves behind: the window and the state of the symbols.\<close>

record decoder_state =
  ds_window :: window
  ds_symbols :: symbol_state

definition decoder_state_new :: "nat \<Rightarrow> decoder_state" where
  "decoder_state_new dict_size = \<lparr>ds_window = win_new dict_size, ds_symbols = symbol_state_default\<rparr>"

definition grow_window :: "nat \<Rightarrow> decoder_state \<Rightarrow> decoder_state option" where
  "grow_window new_capacity st = map_option (\<lambda>w. st\<lparr>ds_window := w\<rparr>) (win_grow new_capacity (ds_window st))"

definition engine_new :: "byte list \<Rightarrow> nat \<Rightarrow> decoder_state \<Rightarrow> bool \<Rightarrow> engine" where
  "engine_new data unpacked_size st extra_dist =
     (let output_start = win_total (ds_window st) in
      \<lparr>eng_window = ds_window st,
       eng_symbols = sr_new data extra_dist output_start unpacked_size (ds_symbols st),
       eng_pending = [], eng_sink = sink_new output_start, eng_copied = output_start\<rparr>)"

definition run_engine ::
  "bool \<Rightarrow> byte list \<Rightarrow> nat \<Rightarrow> decoder_state \<Rightarrow> bool \<Rightarrow> (rar_error + byte list \<times> decoder_state) option" where
  "run_engine simd data unpacked_size st extra_dist =
     (case engine_loop simd (engine_new data unpacked_size st extra_dist) of
        None \<Rightarrow> None
      | Some loop \<Rightarrow>
          Some (rbind loop (\<lambda>e.
            rbind (engine_finish simd (win_total (ds_window st)) unpacked_size e) (\<lambda>e.
              Inr (snk_out (eng_sink e), \<lparr>ds_window = eng_window e, ds_symbols = sr_state (eng_symbols e)\<rparr>)))))"

definition decode_standalone ::
  "bool \<Rightarrow> byte list \<Rightarrow> nat \<Rightarrow> nat \<Rightarrow> nat option \<Rightarrow> bool \<Rightarrow> (rar_error + byte list) option" where
  "decode_standalone simd data unpacked_size dict_size_log dict_size_bytes extra_dist =
     (case checked_dict_size dict_size_log dict_size_bytes of
        Inl err \<Rightarrow> Some (Inl err)
      | Inr dict_size \<Rightarrow>
          map_option (map_sum id fst) (run_engine simd data unpacked_size (decoder_state_new dict_size) extra_dist))"

text \<open>
  \<open>decode_raw\<close> with its options: with a carried state the dictionary fields are ignored and
  the state moves on; an empty member touches nothing.
\<close>

record decode_options =
  opt_dict_size_log :: nat
  opt_dict_size_bytes :: "nat option"
  opt_extra_dist :: bool
  opt_state :: "decoder_state option"

definition decode_raw ::
  "bool \<Rightarrow> byte list \<Rightarrow> nat \<Rightarrow> decode_options \<Rightarrow> (rar_error + byte list \<times> decoder_state option) option" where
  "decode_raw simd data unpacked_size opts =
     (if unpacked_size = 0 then Some (Inr ([], opt_state opts))
      else case opt_state opts of
        Some st \<Rightarrow>
          map_option (map_sum id (\<lambda>(out, st). (out, Some st)))
            (run_engine simd data unpacked_size st (opt_extra_dist opts))
      | None \<Rightarrow>
          map_option (map_sum id (\<lambda>out. (out, None)))
            (decode_standalone simd data unpacked_size (opt_dict_size_log opts) (opt_dict_size_bytes opts)
               (opt_extra_dist opts)))"

section \<open>What a filter does to the member\<close>

text \<open>
  The reference: a filter rewrites its region of the member's bytes, at its offset in the member.
\<close>

definition apply_region :: "bool \<Rightarrow> nat \<Rightarrow> pending_filter \<Rightarrow> byte list \<Rightarrow> byte list" where
  "apply_region simd member f x =
     (let i = pf_start f - member; region = take (pf_length f) (drop i x) in
      take i x @
      (case apply_filter_decode simd (pf_type f) region (pf_channels f) (word_of_nat i) of
         Inl _ \<Rightarrow> region | Inr y \<Rightarrow> y) @
      drop (i + pf_length f) x)"

definition region_in :: "nat \<Rightarrow> nat \<Rightarrow> pending_filter \<Rightarrow> bool" where
  "region_in member n f \<longleftrightarrow> member \<le> pf_start f \<and> pf_start f + pf_length f \<le> member + n"

lemma length_apply_region [simp]: "length (apply_region simd member f x) = length x"
proof -
  let ?i = "pf_start f - member"
  let ?r = "take (pf_length f) (drop ?i x)"
  let ?y = "case apply_filter_decode simd (pf_type f) ?r (pf_channels f) (word_of_nat ?i) of Inl _ \<Rightarrow> ?r | Inr y \<Rightarrow> y"
  have "length ?y = length ?r"
    using length_apply_filter_decode by (cases "apply_filter_decode simd (pf_type f) ?r (pf_channels f) (word_of_nat ?i)") auto
  then have "length (take ?i x @ ?y @ drop (?i + pf_length f) x) = length x" by (auto simp: min_def)
  then show ?thesis by (simp only: apply_region_def Let_def)
qed

lemma apply_region_append:
  assumes "region_in member (length x) f"
  shows "apply_region simd member f (x @ y) = apply_region simd member f x @ y"
proof -
  let ?i = "pf_start f - member" and ?n = "pf_length f"
  have le: "?i \<le> length x" "?i + ?n \<le> length x" using assms by (auto simp: region_in_def)
  then have "take ?i (x @ y) = take ?i x" "take ?n (drop ?i (x @ y)) = take ?n (drop ?i x)"
    "drop (?i + ?n) (x @ y) = drop (?i + ?n) x @ y" by simp_all
  then show ?thesis by (simp only: apply_region_def Let_def append_assoc)
qed

lemma length_fold_regions [simp]: "length (fold (apply_region simd member) fs x) = length x"
  by (induction fs arbitrary: x) simp_all

lemma fold_regions_append:
  "\<forall>f\<in>set fs. region_in member (length x) f \<Longrightarrow>
     fold (apply_region simd member) fs (x @ y) = fold (apply_region simd member) fs x @ y"
  by (induction fs arbitrary: x) (simp_all add: apply_region_append)

section \<open>The sink\<close>

text \<open>
  \<open>sink_holds m s p\<close>: the sink has received the member's bytes in their present state
  \<open>p\<close>, a part of which has left.
\<close>

definition sink_holds :: "nat \<Rightarrow> output_sink \<Rightarrow> byte list \<Rightarrow> bool" where
  "sink_holds m s p \<longleftrightarrow> snk_member s = m \<and> snk_consumed s \<le> length (snk_staging s) \<and>
     snk_start s = m + length (snk_out s) \<and> p = snk_out s @ drop (snk_consumed s) (snk_staging s)"

definition open_filters_ahead :: "pending_filter list \<Rightarrow> output_sink \<Rightarrow> bool" where
  "open_filters_ahead fs s \<longleftrightarrow> (\<forall>f\<in>set fs. \<not> pf_applied f \<longrightarrow> snk_start s \<le> pf_start f)"

lemma sink_holds_len: "sink_holds m s p \<Longrightarrow> snk_start s + staging_len s = m + length p"
  by (auto simp: sink_holds_def staging_len_def)

lemma sink_new_holds: "sink_holds m (sink_new m) []"
  by (simp add: sink_holds_def sink_new_def)

lemma append_window_spec:
  assumes "sink_holds m s p" "win_keeps k w S" "start \<le> stop" "stop \<le> length S" "length S \<le> start + k"
  shows "append_window w start stop s = Inl (Format ''filtered output region exceeds streaming buffer limit'') \<or>
    (\<exists>s'. append_window w start stop s = Inr s' \<and> snk_start s' = snk_start s \<and>
      sink_holds m s' (p @ take (stop - start) (drop start S)))"
proof (cases "start = stop")
  case True
  then show ?thesis using assms(1) by (auto simp: append_window_def)
next
  case False
  have "win_get_output start (stop - start) w = Some (take (stop - start) (drop start S))"
    using win_get_output_keeps [OF assms(2)] assms(3-5) by simp
  then show ?thesis using False assms(1,3) by (auto simp: append_window_def win_append_output_def sink_holds_def)
qed

definition ready :: "nat \<Rightarrow> pending_filter \<Rightarrow> bool" where
  "ready stop f \<longleftrightarrow> \<not> pf_applied f \<and> pf_start f + pf_length f \<le> stop"

definition marked :: "nat \<Rightarrow> pending_filter \<Rightarrow> pending_filter" where
  "marked stop f = (if ready stop f then f\<lparr>pf_applied := True\<rparr> else f)"

definition unsupported :: rar_error where
  "unsupported = Format ''unsupported RAR5 filter type''"

lemma apply_one_filter_spec:
  assumes s: "sink_holds m s p" and f: "\<not> pf_applied f" "snk_start s \<le> pf_start f"
  shows "apply_one_filter simd f s = Inl unsupported \<or>
    (\<exists>s'. apply_one_filter simd f s = Inr (marked (m + length p) f, s') \<and> snk_start s' = snk_start s \<and>
      sink_holds m s' (if ready (m + length p) f then apply_region simd m f p else p))"
proof (cases "pf_start f + pf_length f \<le> m + length p")
  case False
  then show ?thesis using sink_holds_len [OF s] s by (auto simp: apply_one_filter_def ready_def marked_def)
next
  case True
  define out st c where "out = snk_out s" "st = snk_staging s" "c = snk_consumed s"
  have inv: "snk_member s = m" "c \<le> length st" "snk_start s = m + length out" "p = out @ drop c st"
    using s by (auto simp: sink_holds_def out_st_c_def)
  define o1 where "o1 = pf_start f - snk_start s"
  have o1: "pf_start f - m = length out + o1" "o1 + pf_length f \<le> length st - c"
    using True f(2) inv by (auto simp: o1_def)
  have region: "take (pf_length f) (drop (c + o1) st) = take (pf_length f) (drop (pf_start f - m) p)"
    using o1 inv(4) by (simp add: add.commute)
  have ap: "apply_region simd m f p = out @ take o1 (drop c st) @
      (case apply_filter_decode simd (pf_type f) (take (pf_length f) (drop (c + o1) st)) (pf_channels f)
         (word_of_nat (pf_start f - m)) of Inl _ \<Rightarrow> take (pf_length f) (drop (c + o1) st) | Inr y \<Rightarrow> y) @
      drop (c + (o1 + pf_length f)) st"
    unfolding apply_region_def Let_def region [symmetric]
    using o1 inv(4) by (simp add: add.commute add.left_commute)
  have n: "\<not> (snk_start s + staging_len s < pf_start f + pf_length f)"
    "\<not> (pf_start f < snk_start s \<or> pf_start f < m)"
    "\<not> (length st < c + (o1 + pf_length f))"
    using True f(2) inv o1 sink_holds_len [OF s] by auto
  define fo :: u64 where "fo = word_of_nat (pf_start f - m)"
  note step = apply_one_filter_def [of simd f s, unfolded Let_def inv(1), folded o1_def out_st_c_def fo_def,
      unfolded if_not_P [OF n(1)] if_not_P [OF n(2)] if_not_P [OF n(3)]]
  show ?thesis
  proof (cases "apply_filter_decode simd (pf_type f) (take (pf_length f) (drop (c + o1) st)) (pf_channels f)
         fo")
    case (Inl e)
    then show ?thesis by (simp add: step unsupported_def)
  next
    case (Inr y)
    let ?st = "take (c + o1) st @ y @ drop (c + (o1 + pf_length f)) st"
    have y: "length y = length (take (pf_length f) (drop (c + o1) st))" using length_apply_filter_decode [OF Inr] .
    have "apply_one_filter simd f s = Inr (marked (m + length p) f, s\<lparr>snk_staging := ?st\<rparr>)"
      using True f(1) y by (simp add: step Inr marked_def ready_def del: length_take length_drop)
    moreover have "apply_region simd m f p = out @ take o1 (drop c st) @ y @ drop (c + (o1 + pf_length f)) st"
      using ap unfolding fo_def [symmetric] Inr sum.case .
    then have "sink_holds m (s\<lparr>snk_staging := ?st\<rparr>) (apply_region simd m f p)"
      using inv(1-3) o1 by (simp add: sink_holds_def out_st_c_def [symmetric] drop_take)
    ultimately show ?thesis using True f(1) by (auto simp: ready_def)
  qed
qed

lemma apply_complete_filters_spec:
  assumes "sink_holds m s p" "open_filters_ahead fs s"
  shows "apply_complete_filters simd fs s = Inl unsupported \<or>
    (\<exists>s'. apply_complete_filters simd fs s = Inr (map (marked (m + length p)) fs, s') \<and> snk_start s' = snk_start s \<and>
      sink_holds m s' (fold (apply_region simd m) (filter (ready (m + length p)) fs) p))"
  using assms
proof (induction fs arbitrary: s p)
  case Nil
  then show ?case by simp
next
  case (Cons f fs)
  let ?n = "m + length p"
  have ahead: "open_filters_ahead fs s'" if "snk_start s' = snk_start s" for s'
    using Cons.prems(2) that by (simp add: open_filters_ahead_def)
  show ?case
  proof (cases "pf_applied f")
    case True
    then have "marked ?n f = f" "\<not> ready ?n f" by (simp_all add: marked_def ready_def)
    then show ?thesis using Cons.IH [OF Cons.prems(1) ahead [OF refl]] True by auto
  next
    case False
    then have start: "snk_start s \<le> pf_start f" using Cons.prems(2) by (simp add: open_filters_ahead_def)
    show ?thesis
    proof (cases "apply_one_filter simd f s = Inl unsupported")
      case True
      then show ?thesis using False by simp
    next
      case ok: False
      let ?p = "if ready ?n f then apply_region simd m f p else p"
      obtain s1 where s1: "apply_one_filter simd f s = Inr (marked ?n f, s1)" "snk_start s1 = snk_start s" "sink_holds m s1 ?p"
        using apply_one_filter_spec [OF Cons.prems(1) False start] ok by blast
      have "length ?p = length p" by simp
      then show ?thesis using Cons.IH [OF s1(3) ahead [OF s1(2)]] False s1 by auto
    qed
  qed
qed

lemma earliest_filter_cases:
  "case earliest_filter fs of
     None \<Rightarrow> (\<forall>f\<in>set fs. pf_applied f)
   | Some m \<Rightarrow> (\<exists>f\<in>set fs. \<not> pf_applied f \<and> pf_start f = m) \<and> (\<forall>f\<in>set fs. \<not> pf_applied f \<longrightarrow> m \<le> pf_start f)"
proof (induction fs)
  case Nil
  then show ?case by simp
next
  case (Cons f fs)
  then show ?case by (cases "pf_applied f"; cases "earliest_filter fs") (auto simp: min_def)
qed

lemma drain_up_to_spec:
  assumes s: "sink_holds m s p" and ahead: "open_filters_ahead fs s"
  shows "\<exists>s'. drain_up_to (m + length p) fs s = Inr s' \<and> sink_holds m s' p \<and> open_filters_ahead fs s' \<and>
    ((\<forall>f\<in>set fs. pf_applied f) \<longrightarrow> snk_out s' = p \<and> staging_len s' = 0)"
proof -
  define d where "d = min (case earliest_filter fs of None \<Rightarrow> m + length p | Some k \<Rightarrow> k) (m + length p)"
  note len = sink_holds_len [OF s]
  have le: "snk_start s \<le> d"
    using ahead len earliest_filter_cases [of fs] by (auto simp: d_def open_filters_ahead_def split: option.splits)
  define n where "n = d - snk_start s"
  have n: "n \<le> staging_len s" using len by (simp add: n_def d_def)
  have all: "n = staging_len s" if "\<forall>f\<in>set fs. pf_applied f"
    using that len earliest_filter_cases [of fs] by (auto simp: n_def d_def split: option.splits)
  have ahead': "open_filters_ahead fs s'" if "snk_start s' = d" for s' :: output_sink
    using that earliest_filter_cases [of fs] by (auto simp: open_filters_ahead_def d_def split: option.splits)
  define s1 where "s1 = s\<lparr>snk_out := snk_out s @ take n (drop (snk_consumed s) (snk_staging s)),
    snk_consumed := snk_consumed s + n, snk_start := snk_start s + n\<rparr>"
  define s2 where "s2 = s1\<lparr>snk_staging := drop (snk_consumed s1) (snk_staging s1), snk_consumed := 0\<rparr>"
  have sd: "snk_start s1 = d" "snk_start s2 = d" using le by (simp_all add: s1_def s2_def n_def)
  have "snk_consumed s + n \<le> length (snk_staging s)"
    using n s by (auto simp: sink_holds_def staging_len_def)
  moreover have "snk_out s @ take n (drop (snk_consumed s) (snk_staging s)) @ drop (snk_consumed s + n) (snk_staging s) = p"
    using s by (simp add: sink_holds_def drop_drop [symmetric] add.commute del: drop_drop)
  ultimately have h: "sink_holds m s1 p" "sink_holds m s2 p" using s by (auto simp: sink_holds_def s1_def s2_def)
  have out: "snk_out s1 = p" "snk_out s2 = p" "staging_len s1 = 0" "staging_len s2 = 0" if "n = staging_len s"
    using that h s by (auto simp: sink_holds_def s1_def s2_def staging_len_def)
  define r where "r = (if n = 0 then s
    else if 1024 * 1024 < snk_consumed s1 \<or> snk_consumed s1 = length (snk_staging s1) then s2 else s1)"
  have "drain_up_to (m + length p) fs s = Inr r"
    using le n by (auto simp: drain_up_to_def d_def [symmetric] n_def [symmetric] s2_def s1_def r_def Let_def)
  moreover have "sink_holds m r p" using h s by (simp add: r_def)
  moreover have "snk_start r = d" using le sd by (simp add: r_def n_def)
  then have "open_filters_ahead fs r" by (rule ahead')
  moreover have "snk_out r = p \<and> staging_len r = 0" if "\<forall>f\<in>set fs. pf_applied f"
  proof (cases "n = 0")
    case True
    then have "staging_len s = 0" using all [OF that] by simp
    then show ?thesis using True s by (simp add: r_def sink_holds_def staging_len_def)
  next
    case False
    then show ?thesis using out [OF all [OF that]] by (simp add: r_def)
  qed
  ultimately show ?thesis by blast
qed

text \<open>Sixty-four kilobytes at a time: append, apply, drain.\<close>

definition flush_sink :: "bool \<Rightarrow> window \<Rightarrow> nat \<Rightarrow> pending_filter list \<Rightarrow> output_sink \<Rightarrow> rar_error + pending_filter list \<times> output_sink" where
  "flush_sink simd w copied pending sink =
     rbind (append_window w copied (win_total w) sink) (\<lambda>sink.
       rbind (apply_complete_filters simd pending sink) (\<lambda>(pending, sink).
         rbind (drain_up_to (win_total w) pending sink) (\<lambda>sink. Inr (pending, sink))))"

definition sink_errors :: "rar_error set" where
  "sink_errors = {Format ''filtered output region exceeds streaming buffer limit'', unsupported}"

lemma marked_simps [simp]:
  "pf_start (marked n f) = pf_start f" "pf_length (marked n f) = pf_length f"
  "pf_applied (marked n f) \<longleftrightarrow> pf_applied f \<or> ready n f"
  by (simp_all add: marked_def)

lemma flush_sink_spec:
  assumes s: "sink_holds m s p" "open_filters_ahead fs s" and w: "win_keeps k w S"
    and len: "m + length p \<le> length S" "length S \<le> m + length p + k"
  defines "q \<equiv> p @ drop (m + length p) S" and "n \<equiv> length S"
  shows "(\<exists>e\<in>sink_errors. flush_sink simd w (m + length p) fs s = Inl e) \<or>
    (\<exists>s'. flush_sink simd w (m + length p) fs s = Inr (map (marked n) fs, s') \<and>
       sink_holds m s' (fold (apply_region simd m) (filter (ready n) fs) q) \<and>
       open_filters_ahead (map (marked n) fs) s' \<and>
       ((\<forall>f\<in>set (map (marked n) fs). pf_applied f) \<longrightarrow>
          snk_out s' = fold (apply_region simd m) (filter (ready n) fs) q \<and> staging_len s' = 0))"
proof (cases "append_window w (m + length p) (win_total w) s = Inl (Format ''filtered output region exceeds streaming buffer limit'')")
  case True
  then show ?thesis by (simp add: flush_sink_def sink_errors_def)
next
  case False
  have total: "win_total w = length S" using w by (simp add: win_keeps_def)
  obtain s1 where s1: "append_window w (m + length p) (win_total w) s = Inr s1" "snk_start s1 = snk_start s" "sink_holds m s1 q"
    using append_window_spec [OF s(1) w len(1) order.refl len(2)] False total by (auto simp: q_def)
  have q: "m + length q = n" using len(1) by (simp add: q_def n_def)
  have ahead1: "open_filters_ahead fs s1" using s(2) s1(2) by (simp add: open_filters_ahead_def)
  show ?thesis
  proof (cases "apply_complete_filters simd fs s1 = Inl unsupported")
    case True
    then show ?thesis by (simp add: flush_sink_def s1 sink_errors_def)
  next
    case ok: False
    obtain s2 where s2: "apply_complete_filters simd fs s1 = Inr (map (marked n) fs, s2)" "snk_start s2 = snk_start s1"
        "sink_holds m s2 (fold (apply_region simd m) (filter (ready n) fs) q)"
      using apply_complete_filters_spec [OF s1(3) ahead1, of simd] ok q by auto
    have "open_filters_ahead (map (marked n) fs) s2" using ahead1 s2(2) by (auto simp: open_filters_ahead_def)
    from drain_up_to_spec [OF s2(3) this] q
    obtain s3 where s3: "drain_up_to n (map (marked n) fs) s2 = Inr s3"
      "sink_holds m s3 (fold (apply_region simd m) (filter (ready n) fs) q)" "open_filters_ahead (map (marked n) fs) s3"
      "(\<forall>f\<in>set (map (marked n) fs). pf_applied f) \<longrightarrow>
         snk_out s3 = fold (apply_region simd m) (filter (ready n) fs) q \<and> staging_len s3 = 0" by auto
    have "flush_sink simd w (m + length p) fs s = Inr (map (marked n) fs, s3)"
      using s1(1) s2(1) s3(1) total by (simp add: flush_sink_def n_def)
    then show ?thesis using s3(2-4) by blast
  qed
qed

section \<open>The invariant of the engine\<close>

text \<open>
  \<open>engine_inv simd s0 syms gap e\<close>: the engine, started after the stream \<open>s0\<close>, has applied
  the symbols \<open>syms\<close>; at most \<open>gap\<close> bytes wait in the ring. The staged and written bytes are the
  expansion of the symbols with the filters \<open>fs\<close>, those whose regions were complete, applied.
\<close>

fun symbol_tokens :: "symbol list \<Rightarrow> lz_token list" where
  "symbol_tokens [] = []"
| "symbol_tokens (SLiteral b # syms) = Literal b # symbol_tokens syms"
| "symbol_tokens (SMatch dist n kind # syms) = Match (unat dist) (unat n) # symbol_tokens syms"
| "symbol_tokens (SFilter f # syms) = symbol_tokens syms"
| "symbol_tokens (SBlockStart info # syms) = symbol_tokens syms"

fun symbol_filters :: "symbol list \<Rightarrow> pending_filter list" where
  "symbol_filters [] = []"
| "symbol_filters (SFilter f # syms) = f # symbol_filters syms"
| "symbol_filters (_ # syms) = symbol_filters syms"

definition expansion :: "byte list \<Rightarrow> symbol list \<Rightarrow> byte list" where
  "expansion s0 syms = lz_expand s0 (symbol_tokens syms)"

definition unapplied :: "pending_filter list \<Rightarrow> pending_filter list" where
  "unapplied = filter (\<lambda>f. \<not> pf_applied f)"

definition engine_inv :: "bool \<Rightarrow> byte list \<Rightarrow> symbol list \<Rightarrow> nat \<Rightarrow> engine \<Rightarrow> bool" where
  "engine_inv simd s0 syms gap e \<longleftrightarrow>
     (let m = length s0; S = expansion s0 syms in
      win_keeps (win_capacity (eng_window e)) (eng_window e) S \<and> 2 ^ 17 \<le> win_capacity (eng_window e) \<and>
      lz_tokens_fit (win_capacity (eng_window e)) m (symbol_tokens syms) \<and>
      m \<le> eng_copied e \<and> eng_copied e \<le> length S \<and> length S \<le> eng_copied e + gap \<and>
      open_filters_ahead (eng_pending e) (eng_sink e) \<and> (\<forall>f\<in>set (eng_pending e). m \<le> pf_start f) \<and>
      (\<exists>fs. mset fs + mset (unapplied (eng_pending e)) = mset (symbol_filters syms) \<and>
        (\<forall>f\<in>set fs. region_in m (eng_copied e - m) f) \<and>
        sink_holds m (eng_sink e) (fold (apply_region simd m) fs (take (eng_copied e - m) (drop m S)))))"

definition stream_inv :: "byte list \<Rightarrow> symbol list \<Rightarrow> symbol_reader \<Rightarrow> bool" where
  "stream_inv s0 syms rd \<longleftrightarrow> sr_ok rd \<and> sr_error rd = None \<and> sr_pos rd = length (expansion s0 syms)"

lemma symbol_tokens_append: "symbol_tokens (xs @ ys) = symbol_tokens xs @ symbol_tokens ys"
  by (induction xs rule: symbol_tokens.induct) simp_all

lemma symbol_filters_append: "symbol_filters (xs @ ys) = symbol_filters xs @ symbol_filters ys"
  by (induction xs rule: symbol_filters.induct) simp_all

lemma lz_expand_append: "lz_expand s (ts @ us) = lz_expand (lz_expand s ts) us"
  by (induction s ts rule: lz_expand.induct) simp_all

lemma lz_tokens_fit_append:
  "lz_tokens_fit r (length s) (ts @ us) \<longleftrightarrow>
     lz_tokens_fit r (length s) ts \<and> lz_tokens_fit r (length (lz_expand s ts)) us"
proof (induction s ts rule: lz_expand.induct)
  case (2 s b ts)
  then show ?case by simp
next
  case (3 s d n ts)
  then show ?case by simp
qed simp

lemma expansion_snoc:
  "expansion s0 (syms @ [sy]) = lz_expand (expansion s0 syms) (symbol_tokens [sy])"
  by (simp add: expansion_def symbol_tokens_append lz_expand_append)

lemma length_expansion_snoc: "length (expansion s0 (syms @ [sy])) = length (expansion s0 syms) + symbol_len sy"
  by (cases sy) (simp_all add: expansion_snoc)

lemma expansion_prefix:
  "\<exists>x. expansion s0 (syms @ [sy]) = expansion s0 syms @ x"
proof (cases sy)
  case (SMatch dist n kind)
  have "lz_extend (unat n) (unat dist) S = S @ drop (length S) (lz_extend (unat n) (unat dist) S)" for S :: "byte list"
    using append_take_drop_id [of "length S" "lz_extend (unat n) (unat dist) S"] by simp
  then show ?thesis using SMatch unfolding expansion_snoc by auto
qed (simp_all add: expansion_snoc)

text \<open>A symbol.\<close>

definition engine_errors :: "rar_error set" where
  "engine_errors = sink_errors \<union> {Format ''match distance exceeds the window''}"

lemma engine_symbol_window:
  assumes w: "win_keeps (win_capacity w) w S" and "symbol_ok p sy" and "eng_window e = w" "2 ^ 17 \<le> win_capacity w"
  shows "engine_symbol sy e = Inl (Format ''match distance exceeds the window'') \<or>
    (\<exists>w'. engine_symbol sy e = Inr (e\<lparr>eng_window := w', eng_pending := eng_pending e @ symbol_filters [sy]\<rparr>) \<and>
       win_capacity w' = win_capacity w \<and> win_keeps (win_capacity w) w' (lz_expand S (symbol_tokens [sy])) \<and>
       lz_tokens_fit (win_capacity w) (length S) (symbol_tokens [sy]))"
proof (cases sy)
  case (SLiteral b)
  have "e\<lparr>eng_window := w', eng_pending := eng_pending e @ []\<rparr> = e\<lparr>eng_window := w'\<rparr>" for w' by simp
  then show ?thesis using SLiteral win_put_keeps [OF w] assms(3) by auto
next
  case (SMatch dist n kind)
  show ?thesis
  proof (cases "dist = 0 \<or> min (win_total w) (win_capacity w) < unat dist")
    case True
    then show ?thesis using SMatch assms(3) by auto
  next
    case False
    have total: "win_total w = length S" using w by (simp add: win_keeps_def)
    then have d: "0 < unat dist" "unat dist \<le> length S" "unat dist \<le> win_capacity w"
      using False by (auto simp: unat_gt_0)
    have "unat n \<le> win_capacity w" using assms(2,4) SMatch by simp
    moreover have "engine_symbol sy e = Inr (e\<lparr>eng_window := win_copy_match (unat dist) (unat n) w\<rparr>)"
      using False SMatch assms(3) by auto
    ultimately show ?thesis using SMatch d win_copy_keeps [OF w d, of "unat n"] capacity_copy [OF w d, of "unat n"]
      by auto
  qed
next
  case (SFilter f)
  then show ?thesis using w assms(3) by (intro disjI2 exI [of _ w]) auto
next
  case (SBlockStart info)
  then show ?thesis using w assms(3) by (intro disjI2 exI [of _ w]) auto
qed

lemma engine_symbol_inv:
  assumes inv: "engine_inv simd s0 syms gap e" and st: "stream_inv s0 syms rd" and step: "sr_step rd sy rd'"
  shows "engine_symbol sy (e\<lparr>eng_symbols := rd'\<rparr>) = Inl (Format ''match distance exceeds the window'') \<or>
    (\<exists>e'. engine_symbol sy (e\<lparr>eng_symbols := rd'\<rparr>) = Inr e' \<and> engine_inv simd s0 (syms @ [sy]) (gap + 4100) e' \<and>
       eng_symbols e' = rd' \<and> win_capacity (eng_window e') = win_capacity (eng_window e)) "
proof -
  let ?S = "expansion s0 syms" and ?w = "eng_window e" and ?m = "length s0" and ?e = "e\<lparr>eng_symbols := rd'\<rparr>"
  have w: "win_keeps (win_capacity ?w) ?w ?S" "2 ^ 17 \<le> win_capacity ?w"
    and fit: "lz_tokens_fit (win_capacity ?w) ?m (symbol_tokens syms)"
    and copied: "?m \<le> eng_copied e" "eng_copied e \<le> length ?S" "length ?S \<le> eng_copied e + gap"
    and pend: "open_filters_ahead (eng_pending e) (eng_sink e)" "\<forall>f\<in>set (eng_pending e). ?m \<le> pf_start f"
    using inv by (auto simp: engine_inv_def Let_def)
  obtain fs where fs: "mset fs + mset (unapplied (eng_pending e)) = mset (symbol_filters syms)"
      "\<forall>f\<in>set fs. region_in ?m (eng_copied e - ?m) f"
      "sink_holds ?m (eng_sink e) (fold (apply_region simd ?m) fs (take (eng_copied e - ?m) (drop ?m ?S)))"
    using inv by (auto simp: engine_inv_def Let_def)
  have sy: "symbol_ok (length ?S) sy" using st step by (simp add: stream_inv_def sr_step_def)
  have "win_keeps (win_capacity ?w) ?w ?S" "eng_window ?e = ?w" using w by simp_all
  from engine_symbol_window [OF this(1) sy this(2) w(2)] show ?thesis
  proof (elim disjE exE conjE)
    assume "engine_symbol sy ?e = Inl (Format ''match distance exceeds the window'')"
    then show ?thesis by blast
  next
    fix w' assume w': "engine_symbol sy ?e = Inr (?e\<lparr>eng_window := w', eng_pending := eng_pending ?e @ symbol_filters [sy]\<rparr>)"
      "win_capacity w' = win_capacity ?w" "win_keeps (win_capacity ?w) w' (lz_expand ?S (symbol_tokens [sy]))"
      "lz_tokens_fit (win_capacity ?w) (length ?S) (symbol_tokens [sy])"
    let ?e' = "?e\<lparr>eng_window := w', eng_pending := eng_pending ?e @ symbol_filters [sy]\<rparr>"
    let ?S' = "expansion s0 (syms @ [sy])"
    obtain x where x: "?S' = ?S @ x" using expansion_prefix by blast
    have len: "length ?S' = length ?S + symbol_len sy" by (rule length_expansion_snoc)
    have "symbol_len sy \<le> 4100" using sy by (cases sy) auto
    then have gap: "length ?S' \<le> eng_copied e + (gap + 4100)" using len copied(3) by linarith
    have new: "\<forall>f\<in>set (symbol_filters [sy]). length ?S \<le> pf_start f \<and> \<not> pf_applied f"
      using sy by (cases sy) auto
    have "snk_start (eng_sink e) \<le> length ?S"
      using sink_holds_len [OF fs(3)] copied by simp
    then have "open_filters_ahead (eng_pending e @ symbol_filters [sy]) (eng_sink e)"
      using pend(1) new by (auto simp: open_filters_ahead_def)
    moreover have "\<forall>f\<in>set (eng_pending e @ symbol_filters [sy]). ?m \<le> pf_start f"
      using pend(2) new copied by (auto dest: order.trans)
    moreover have "mset fs + mset (unapplied (eng_pending e @ symbol_filters [sy])) = mset (symbol_filters (syms @ [sy]))"
    proof -
      have "unapplied (symbol_filters [sy]) = symbol_filters [sy]" using new by (simp add: unapplied_def filter_id_conv)
      then have "unapplied (eng_pending e @ symbol_filters [sy]) = unapplied (eng_pending e) @ symbol_filters [sy]"
        by (simp add: unapplied_def)
      then show ?thesis using fs(1) by (simp add: symbol_filters_append add.assoc [symmetric])
    qed
    moreover have "take (eng_copied e - ?m) (drop ?m ?S') = take (eng_copied e - ?m) (drop ?m ?S)"
      using copied by (simp add: x)
    moreover have "lz_tokens_fit (win_capacity ?w) ?m (symbol_tokens (syms @ [sy]))"
      using fit w'(4) by (simp only: symbol_tokens_append lz_tokens_fit_append expansion_def simp_thms)
    ultimately have "engine_inv simd s0 (syms @ [sy]) (gap + 4100) ?e'"
      using w'(2,3) w(2) copied len gap fs(2,3) unfolding expansion_snoc [symmetric]
      by (auto simp: engine_inv_def Let_def)
    moreover have "eng_symbols ?e' = rd'" "win_capacity (eng_window ?e') = win_capacity ?w" using w'(2) by simp_all
    ultimately show ?thesis using w'(1) by blast
  qed
qed

text \<open>The staging pass.\<close>

lemma ready_split:
  "mset (unapplied fs) = mset (filter (ready n) fs) + mset (unapplied (map (marked n) fs))"
  by (induction fs) (auto simp: unapplied_def ready_def marked_def)

lemma fold_regions_flush:
  assumes "\<forall>f\<in>set fs. region_in m (length x) f"
  shows "fold (apply_region simd m) gs (fold (apply_region simd m) fs x @ y) = fold (apply_region simd m) (fs @ gs) (x @ y)"
  using assms by (simp add: fold_regions_append)

lemma flush_sink_inv:
  assumes inv: "engine_inv simd s0 syms gap e" and gap: "gap \<le> 2 ^ 17"
  shows "(\<exists>err\<in>sink_errors. flush_sink simd (eng_window e) (eng_copied e) (eng_pending e) (eng_sink e) = Inl err) \<or>
    (\<exists>fs pending sink. flush_sink simd (eng_window e) (eng_copied e) (eng_pending e) (eng_sink e) = Inr (pending, sink) \<and>
       engine_inv simd s0 syms 0
         (e\<lparr>eng_sink := sink, eng_pending := pending, eng_copied := win_total (eng_window e)\<rparr>) \<and>
       mset fs + mset (unapplied pending) = mset (symbol_filters syms) \<and>
       ((\<forall>f\<in>set pending. pf_applied f) \<longrightarrow> staging_len sink = 0 \<and>
         snk_out sink = fold (apply_region simd (length s0)) fs (drop (length s0) (expansion s0 syms))))"
proof -
  let ?S = "expansion s0 syms" and ?w = "eng_window e" and ?m = "length s0" and ?fs = "eng_pending e"
  have w: "win_keeps (win_capacity ?w) ?w ?S" "2 ^ 17 \<le> win_capacity ?w"
    and fit: "lz_tokens_fit (win_capacity ?w) ?m (symbol_tokens syms)"
    and copied: "?m \<le> eng_copied e" "eng_copied e \<le> length ?S" "length ?S \<le> eng_copied e + gap"
    and pend: "open_filters_ahead ?fs (eng_sink e)" "\<forall>f\<in>set ?fs. ?m \<le> pf_start f"
    using inv by (auto simp: engine_inv_def Let_def)
  let ?x = "take (eng_copied e - ?m) (drop ?m ?S)"
  obtain fs where fs: "mset fs + mset (unapplied ?fs) = mset (symbol_filters syms)"
      "\<forall>f\<in>set fs. region_in ?m (eng_copied e - ?m) f"
      "sink_holds ?m (eng_sink e) (fold (apply_region simd ?m) fs ?x)"
    using inv by (auto simp: engine_inv_def Let_def)
  let ?n = "length ?S"
  have total: "win_total ?w = ?n" using w by (simp add: win_keeps_def)
  have x: "?m + length ?x = eng_copied e" "length ?x = eng_copied e - ?m" using copied by simp_all
  have join: "?x @ drop (eng_copied e) ?S = drop ?m ?S"
  proof -
    have "drop (eng_copied e) ?S = drop (eng_copied e - ?m) (drop ?m ?S)" using copied by simp
    then show ?thesis by (simp only: append_take_drop_id)
  qed
  let ?new = "fs @ filter (ready ?n) ?fs" and ?pending = "map (marked ?n) ?fs"
  have q: "fold (apply_region simd ?m) (filter (ready ?n) ?fs) (fold (apply_region simd ?m) fs ?x @ drop (eng_copied e) ?S)
      = fold (apply_region simd ?m) ?new (drop ?m ?S)"
    using fold_regions_flush [of fs ?m ?x simd "filter (ready ?n) ?fs" "drop (eng_copied e) ?S"] fs(2)
    unfolding x(2) join by blast
  have count: "mset ?new + mset (unapplied ?pending) = mset (symbol_filters syms)"
    using fs(1) ready_split [of ?fs ?n] by (simp add: add.assoc)
  have regions: "\<forall>f\<in>set ?new. region_in ?m (?n - ?m) f"
    using fs(2) copied pend(2) by (auto simp: region_in_def ready_def)
  have whole: "take (?n - ?m) (drop ?m ?S) = drop ?m ?S" by simp
  have "?m + length (fold (apply_region simd ?m) fs ?x) = eng_copied e" using x by simp
  moreover have "?n \<le> eng_copied e + win_capacity ?w" using copied(3) gap w(2) by linarith
  ultimately have spec: "(\<exists>err\<in>sink_errors. flush_sink simd ?w (eng_copied e) ?fs (eng_sink e) = Inl err) \<or>
    (\<exists>s'. flush_sink simd ?w (eng_copied e) ?fs (eng_sink e) = Inr (?pending, s') \<and>
       sink_holds ?m s' (fold (apply_region simd ?m) ?new (drop ?m ?S)) \<and> open_filters_ahead ?pending s' \<and>
       ((\<forall>f\<in>set ?pending. pf_applied f) \<longrightarrow>
          snk_out s' = fold (apply_region simd ?m) ?new (drop ?m ?S) \<and> staging_len s' = 0))"
    using flush_sink_spec [OF fs(3) pend(1) w(1), of simd] copied unfolding q [symmetric] by auto
  show ?thesis
  proof (cases "\<exists>err\<in>sink_errors. flush_sink simd ?w (eng_copied e) ?fs (eng_sink e) = Inl err")
    case True
    then show ?thesis by blast
  next
    case False
    then obtain s' where s': "flush_sink simd ?w (eng_copied e) ?fs (eng_sink e) = Inr (?pending, s')"
       "sink_holds ?m s' (fold (apply_region simd ?m) ?new (drop ?m ?S))" "open_filters_ahead ?pending s'"
       "(\<forall>f\<in>set ?pending. pf_applied f) \<longrightarrow>
          snk_out s' = fold (apply_region simd ?m) ?new (drop ?m ?S) \<and> staging_len s' = 0"
      using spec by blast
    let ?e = "e\<lparr>eng_sink := s', eng_pending := ?pending, eng_copied := win_total ?w\<rparr>"
    have "engine_inv simd s0 syms 0 ?e"
      unfolding engine_inv_def Let_def
      using w fit copied pend s'(2,3) count regions whole total
      by (auto intro!: exI [of _ ?new] simp del: mset_append set_append fold_append filter_append)
    then show ?thesis using s'(1,4) count by blast
  qed
qed

section \<open>The loop\<close>

text \<open>The symbols that a stream yields, up to its end or its error.\<close>

inductive reads :: "symbol_reader \<Rightarrow> symbol list \<Rightarrow> symbol_reader \<Rightarrow> bool" where
  reads_end: "sr_next s = (None, s') \<Longrightarrow> reads s [] s'"
| reads_symbol: "sr_next s = (Some sy, s1) \<Longrightarrow> reads s1 syms s' \<Longrightarrow> reads s (sy # syms) s'"

inductive_cases reads_NilE: "reads s [] s'"
inductive_cases reads_ConsE: "reads s (sy # syms) s'"

lemma engine_inv_symbols [simp]: "engine_inv simd s0 syms gap (e\<lparr>eng_symbols := rd\<rparr>) = engine_inv simd s0 syms gap e"
  by (simp add: engine_inv_def)

lemma engine_inv_gap: "engine_inv simd s0 syms gap e \<Longrightarrow> gap \<le> gap' \<Longrightarrow> engine_inv simd s0 syms gap' e"
  unfolding engine_inv_def Let_def by (auto intro: order.trans)

lemma engine_flush_sink:
  "engine_flush simd e =
     (if COPY_THRESHOLD \<le> win_total (eng_window e) - eng_copied e then
        rbind (flush_sink simd (eng_window e) (eng_copied e) (eng_pending e) (eng_sink e)) (\<lambda>(pending, sink).
          Inr (e\<lparr>eng_sink := sink, eng_pending := pending, eng_copied := win_total (eng_window e)\<rparr>))
      else Inr e)"
  by (auto simp: engine_flush_def flush_sink_def Let_def rbind_assoc split_beta intro!: rbind_cong)

lemma engine_flush_inv:
  assumes "engine_inv simd s0 syms (65535 + 4100) e"
  shows "(\<exists>err\<in>engine_errors. engine_flush simd e = Inl err) \<or>
    (\<exists>e'. engine_flush simd e = Inr e' \<and> engine_inv simd s0 syms 65535 e' \<and> eng_symbols e' = eng_symbols e \<and>
       win_capacity (eng_window e') = win_capacity (eng_window e))"
proof (cases "COPY_THRESHOLD \<le> win_total (eng_window e) - eng_copied e")
  case True
  have "(65535 + 4100 :: nat) \<le> 2 ^ 17" by simp
  from flush_sink_inv [OF assms this] True show ?thesis
    by (auto simp: engine_flush_sink engine_errors_def intro!: engine_inv_gap [of _ _ _ 0 _ 65535])
next
  case False
  then have "win_total (eng_window e) \<le> eng_copied e + 65535" by (simp add: COPY_THRESHOLD_def)
  then have "engine_inv simd s0 syms 65535 e"
    using assms by (auto simp: engine_inv_def Let_def win_keeps_def)
  then show ?thesis using False by (simp add: engine_flush_sink)
qed

lemma engine_loop_spec:
  assumes "engine_inv simd s0 syms 65535 e" "stream_inv s0 syms (eng_symbols e)"
  shows "\<exists>r. engine_loop simd e = Some r \<and>
    (case r of
       Inl err \<Rightarrow> err \<in> engine_errors
     | Inr e' \<Rightarrow> win_capacity (eng_window e') = win_capacity (eng_window e) \<and>
         (\<exists>new. reads (eng_symbols e) new (eng_symbols e') \<and> engine_inv simd s0 (syms @ new) 65535 e') \<and>
         (case sr_error (eng_symbols e') of Some err \<Rightarrow> err \<in> stream_errors | None \<Rightarrow> sr_ok (eng_symbols e')))"
  using assms
proof (induction "8 * length (br_data (sr_reader (eng_symbols e))) - sr_progress (eng_symbols e)"
    arbitrary: e syms rule: less_induct)
  case less
  let ?rd = "eng_symbols e"
  have rd: "sr_ok ?rd" "sr_error ?rd = None" using less.prems(2) by (auto simp: stream_inv_def)
  obtain x rd' where nxt: "sr_next ?rd = (x, rd')" by fastforce
  note spec = sr_next_spec [OF rd nxt]
  show ?case
  proof (cases x)
    case None
    then have "engine_loop simd e = Some (Inr (e\<lparr>eng_symbols := rd'\<rparr>))"
      using nxt by (subst engine_loop.simps) simp
    moreover have "reads ?rd [] rd'" using nxt None by (simp add: reads_end)
    ultimately show ?thesis
      using spec None less.prems(1) by (auto simp: sr_stop_def split: option.splits intro!: exI [of _ "[]"])
  next
    case (Some sy)
    then have step: "sr_step ?rd sy rd'" using spec by simp
    have loop: "engine_loop simd e = (case rbind (engine_symbol sy (e\<lparr>eng_symbols := rd'\<rparr>)) (engine_flush simd) of
        Inl err \<Rightarrow> Some (Inl err) | Inr e \<Rightarrow> engine_loop simd e)"
      using nxt Some by (subst engine_loop.simps) simp
    from engine_symbol_inv [OF less.prems step] show ?thesis
    proof (elim disjE exE conjE)
      assume "engine_symbol sy (e\<lparr>eng_symbols := rd'\<rparr>) = Inl (Format ''match distance exceeds the window'')"
      then show ?thesis by (simp add: loop engine_errors_def)
    next
      fix e1 assume e1: "engine_symbol sy (e\<lparr>eng_symbols := rd'\<rparr>) = Inr e1" "engine_inv simd s0 (syms @ [sy]) (65535 + 4100) e1"
        "eng_symbols e1 = rd'" "win_capacity (eng_window e1) = win_capacity (eng_window e)"
      from engine_flush_inv [OF e1(2)] show ?thesis
      proof (elim disjE exE conjE bexE)
        fix err assume "engine_flush simd e1 = Inl err" "err \<in> engine_errors"
        then show ?thesis by (simp add: loop e1)
      next
        fix e2 assume e2: "engine_flush simd e1 = Inr e2" "engine_inv simd s0 (syms @ [sy]) 65535 e2"
          "eng_symbols e2 = eng_symbols e1" "win_capacity (eng_window e2) = win_capacity (eng_window e1)"
        have stream: "stream_inv s0 (syms @ [sy]) (eng_symbols e2)"
          using less.prems(2) step e1(3) e2(3) by (simp add: stream_inv_def sr_step_def length_expansion_snoc)
        have "sr_progress rd' \<le> 8 * length (br_data (sr_reader rd'))"
          using step sr_progress_bound [of rd'] by (simp add: sr_step_def)
        then have "8 * length (br_data (sr_reader (eng_symbols e2))) - sr_progress (eng_symbols e2) <
            8 * length (br_data (sr_reader ?rd)) - sr_progress ?rd"
          using diff_less_mono2 [of "sr_progress ?rd" "sr_progress rd'" "8 * length (br_data (sr_reader rd'))"]
            step e1(3) e2(3) by (simp add: sr_step_def)
        from less.hyps [OF this e2(2) stream]
        obtain r where r: "engine_loop simd e2 = Some r" "case r of
            Inl err \<Rightarrow> err \<in> engine_errors
          | Inr e' \<Rightarrow> win_capacity (eng_window e') = win_capacity (eng_window e2) \<and>
              (\<exists>new. reads (eng_symbols e2) new (eng_symbols e') \<and> engine_inv simd s0 ((syms @ [sy]) @ new) 65535 e') \<and>
              (case sr_error (eng_symbols e') of Some err \<Rightarrow> err \<in> stream_errors | None \<Rightarrow> sr_ok (eng_symbols e'))"
          by blast
        have "engine_loop simd e = Some r" using e1(1) e2(1) r(1) by (simp add: loop)
        moreover have more: "reads ?rd (sy # new) rd''" if "reads (eng_symbols e2) new rd''" for new rd''
          using that nxt Some e1(3) e2(3) by (auto intro: reads_symbol)
        moreover have "\<exists>new. reads ?rd new rd'' \<and> engine_inv simd s0 (syms @ new) 65535 e'"
          if "\<exists>new. reads (eng_symbols e2) new rd'' \<and> engine_inv simd s0 ((syms @ [sy]) @ new) 65535 e'" for rd'' e'
        proof -
          from that obtain new where "reads (eng_symbols e2) new rd''" "engine_inv simd s0 (syms @ (sy # new)) 65535 e'"
            by auto
          then show ?thesis using more by blast
        qed
        ultimately show ?thesis
          using r(2) e1(4) e2(4) by (intro exI [of _ r]) (cases r, simp_all)
      qed
    qed
  qed
qed

text \<open>The end of the member.\<close>

definition finish_errors :: "rar_error set" where
  "finish_errors = engine_errors \<union> stream_errors \<union> {Format ''decompressed size mismatch''}"

lemma engine_finish_sink:
  "engine_finish simd start n e =
     (case sr_error (eng_symbols e) of
        Some err \<Rightarrow> Inl err
      | None \<Rightarrow>
          rbind (flush_sink simd (eng_window e) (eng_copied e) (eng_pending e) (eng_sink e)) (\<lambda>(pending, sink).
            if list_ex (\<lambda>f. \<not> pf_applied f) pending
            then Inl (Format ''unapplied RAR5 filter at end of stream'')
            else if staging_len sink \<noteq> 0 then Inl (Format ''internal streaming decode staging error'')
            else if win_total (eng_window e) - start \<noteq> n then Inl (Format ''decompressed size mismatch'')
            else Inr (e\<lparr>eng_sink := sink, eng_pending := pending\<rparr>)))"
proof -
  have "(if c < w then append_window v c w s else Inr s) = append_window v c w s" for c w v s
    by (simp add: append_window_def)
  then show ?thesis
    by (auto simp: engine_finish_def flush_sink_def Let_def rbind_assoc split_beta intro!: rbind_cong split: option.split)
qed

lemma engine_finish_spec:
  assumes inv: "engine_inv simd s0 syms 65535 e"
    and err: "case sr_error (eng_symbols e) of Some err \<Rightarrow> err \<in> stream_errors | None \<Rightarrow> sr_ok (eng_symbols e)"
  shows "(\<exists>err\<in>finish_errors. engine_finish simd (length s0) n e = Inl err) \<or>
    (\<exists>fs e'. engine_finish simd (length s0) n e = Inr e' \<and> eng_symbols e' = eng_symbols e \<and> eng_window e' = eng_window e \<and>
       sr_error (eng_symbols e) = None \<and> length (expansion s0 syms) = length s0 + n \<and>
       mset fs = mset (symbol_filters syms) \<and>
       snk_out (eng_sink e') = fold (apply_region simd (length s0)) fs (drop (length s0) (expansion s0 syms)))"
proof (cases "sr_error (eng_symbols e)")
  case (Some x)
  then show ?thesis using err by (simp add: engine_finish_sink finish_errors_def)
next
  case None
  have total: "win_total (eng_window e) = length (expansion s0 syms)" "length s0 \<le> length (expansion s0 syms)"
    using inv by (auto simp: engine_inv_def Let_def win_keeps_def)
  have "(65535 :: nat) \<le> 2 ^ 17" by simp
  from flush_sink_inv [OF inv this] show ?thesis
  proof (elim disjE exE conjE bexE)
    fix x assume "flush_sink simd (eng_window e) (eng_copied e) (eng_pending e) (eng_sink e) = Inl x" "x \<in> sink_errors"
    then show ?thesis using None by (simp add: engine_finish_sink finish_errors_def engine_errors_def)
  next
    fix fs pending sink
    assume f: "flush_sink simd (eng_window e) (eng_copied e) (eng_pending e) (eng_sink e) = Inr (pending, sink)"
      "mset fs + mset (unapplied pending) = mset (symbol_filters syms)"
      "(\<forall>f\<in>set pending. pf_applied f) \<longrightarrow> staging_len sink = 0 \<and>
         snk_out sink = fold (apply_region simd (length s0)) fs (drop (length s0) (expansion s0 syms))"
    show ?thesis
    proof (cases "\<forall>f\<in>set pending. pf_applied f")
      case False
      then show ?thesis using None f(1)
        by (simp add: engine_finish_sink finish_errors_def stream_errors_def list_ex_iff)
    next
      case True
      then have all: "\<not> list_ex (\<lambda>f. \<not> pf_applied f) pending" "unapplied pending = []"
        by (simp_all add: list_ex_iff unapplied_def)
      show ?thesis
      proof (cases "win_total (eng_window e) - length s0 = n")
        case False
        then show ?thesis using None f True all by (simp add: engine_finish_sink finish_errors_def)
      next
        case eq: True
        then have "engine_finish simd (length s0) n e = Inr (e\<lparr>eng_sink := sink, eng_pending := pending\<rparr>)"
          using None f True all by (simp add: engine_finish_sink)
        then show ?thesis using None f True all eq total by auto
      qed
    qed
  qed
qed

text \<open>
  \<open>decoder_ok st s\<close>: the carried state of a chain that has produced the stream \<open>s\<close>, on a
  window of at least 128 KiB.
\<close>

definition decoder_ok :: "decoder_state \<Rightarrow> byte list \<Rightarrow> bool" where
  "decoder_ok st s \<longleftrightarrow> win_keeps (win_capacity (ds_window st)) (ds_window st) s \<and>
     2 ^ 17 \<le> win_capacity (ds_window st) \<and> state_ok (ds_symbols st)"

lemma decoder_state_new_ok:
  assumes "17 \<le> k" "k \<le> 63"
  shows "decoder_ok (decoder_state_new (2 ^ k)) []"
proof -
  have "(2 :: nat) ^ 17 \<le> 2 ^ k" using assms(1) by (intro power_increasing) simp_all
  then show ?thesis using win_new_ok [OF assms(2)] state_ok_default by (simp add: decoder_ok_def decoder_state_new_def)
qed

lemma run_engine_spec:
  assumes "decoder_ok st s"
  shows "\<exists>r. run_engine simd data n st extra = Some r \<and>
    (case r of
       Inl err \<Rightarrow> err \<in> finish_errors
     | Inr (out, st') \<Rightarrow>
         (\<exists>syms rd fs. reads (sr_new data extra (length s) n (ds_symbols st)) syms rd \<and> sr_error rd = None \<and>
            lz_tokens_fit (win_capacity (ds_window st)) (length s) (symbol_tokens syms) \<and>
            length (expansion s syms) = length s + n \<and> mset fs = mset (symbol_filters syms) \<and>
            out = fold (apply_region simd (length s)) fs (drop (length s) (expansion s syms)) \<and>
            decoder_ok st' (expansion s syms) \<and> ds_symbols st' = sr_state rd))"
proof -
  let ?e = "engine_new data n st extra"
  have w: "win_keeps (win_capacity (ds_window st)) (ds_window st) s" "2 ^ 17 \<le> win_capacity (ds_window st)"
    and ok: "state_ok (ds_symbols st)" using assms by (auto simp: decoder_ok_def)
  have total: "win_total (ds_window st) = length s" using w by (simp add: win_keeps_def)
  have inv: "engine_inv simd s [] 65535 ?e"
    unfolding engine_inv_def Let_def
    using w total sink_new_holds [of "length s"]
    by (auto simp: engine_new_def expansion_def unapplied_def open_filters_ahead_def Let_def)
  have "stream_inv s [] (eng_symbols ?e)"
    using sr_new_ok [OF ok] total by (simp add: stream_inv_def engine_new_def Let_def expansion_def sr_new_def)
  from engine_loop_spec [OF inv this]
  obtain r where r: "engine_loop simd ?e = Some r" "case r of
       Inl err \<Rightarrow> err \<in> engine_errors
     | Inr e' \<Rightarrow> win_capacity (eng_window e') = win_capacity (eng_window ?e) \<and>
         (\<exists>new. reads (eng_symbols ?e) new (eng_symbols e') \<and> engine_inv simd s ([] @ new) 65535 e') \<and>
         (case sr_error (eng_symbols e') of Some err \<Rightarrow> err \<in> stream_errors | None \<Rightarrow> sr_ok (eng_symbols e'))"
    by blast
  show ?thesis
  proof (cases r)
    case (Inl err)
    then show ?thesis using r by (simp add: run_engine_def finish_errors_def)
  next
    case (Inr e')
    then obtain syms where e': "reads (sr_new data extra (length s) n (ds_symbols st)) syms (eng_symbols e')"
        "engine_inv simd s syms 65535 e'" "win_capacity (eng_window e') = win_capacity (ds_window st)"
        "case sr_error (eng_symbols e') of Some err \<Rightarrow> err \<in> stream_errors | None \<Rightarrow> sr_ok (eng_symbols e')"
      using r total by (auto simp: engine_new_def Let_def)
    have run: "run_engine simd data n st extra = Some (rbind (engine_finish simd (length s) n e')
        (\<lambda>e. Inr (snk_out (eng_sink e), \<lparr>ds_window = eng_window e, ds_symbols = sr_state (eng_symbols e)\<rparr>)))"
      using r(1) Inr total by (simp add: run_engine_def)
    from engine_finish_spec [OF e'(2,4), of n] show ?thesis
    proof (elim disjE exE conjE bexE)
      fix x assume "engine_finish simd (length s) n e' = Inl x" "x \<in> finish_errors"
      then show ?thesis using run by simp
    next
      fix fs e2
      assume e2: "engine_finish simd (length s) n e' = Inr e2" "eng_symbols e2 = eng_symbols e'" "eng_window e2 = eng_window e'"
        "sr_error (eng_symbols e') = None" "length (expansion s syms) = length s + n" "mset fs = mset (symbol_filters syms)"
        "snk_out (eng_sink e2) = fold (apply_region simd (length s)) fs (drop (length s) (expansion s syms))"
      let ?st' = "\<lparr>ds_window = eng_window e2, ds_symbols = sr_state (eng_symbols e2)\<rparr>"
      have "decoder_ok ?st' (expansion s syms)"
        using e'(2,4) e2(2-4) by (auto simp: decoder_ok_def engine_inv_def Let_def sr_ok_def)
      moreover have "lz_tokens_fit (win_capacity (ds_window st)) (length s) (symbol_tokens syms)"
        using e'(2,3) by (auto simp: engine_inv_def Let_def)
      moreover have "run_engine simd data n st extra = Some (Inr (snk_out (eng_sink e2), ?st'))"
        using run e2(1) by simp
      ultimately show ?thesis using e'(1) e2(2-7)
        by (intro exI [of _ "Inr (snk_out (eng_sink e2), ?st')"]) auto
    qed
  qed
qed

end
