(* ===== verification/Rar5Decode.thy ===== *)
theory Rar5Decode
  imports Rar5Engine
begin

text \<open>
  What the RAR5/RAR7 engine guarantees for a whole member: that every run ends, with which results
  and errors, and that its output is the expansion of the symbols with the filters applied. The
  definitions of this theory are the reference notions; the model is in \<open>Rar5Engine\<close>.
\<close>

section \<open>Filters with disjoint regions\<close>

text \<open>
  The engine applies a filter when its region is complete, so overlapping filters may be applied
  in another order than they were sent in. With disjoint regions the order does not matter.
\<close>

definition patch :: "nat \<Rightarrow> nat \<Rightarrow> ('a list \<Rightarrow> 'a list) \<Rightarrow> 'a list \<Rightarrow> 'a list" where
  "patch i n f x = take i x @ f (take n (drop i x)) @ drop (i + n) x"

lemma patch_commute:
  assumes f: "\<And>r. length (f r) = length r" and g: "\<And>r. length (g r) = length r" and "i + n \<le> j"
  shows "patch i n f (patch j k g x) = patch j k g (patch i n f x)"
proof -
  have nil: "g [] = []" using g [of "[]"] by simp
  have len: "length (patch i n f y) = length y" for y by (auto simp: patch_def f min_def)
  show ?thesis
  proof (cases "j \<le> length x")
    case False
    have none: "patch j k g y = y" if "length y < j" for y using that nil by (simp add: patch_def)
    show ?thesis using False none [of x] none [of "patch i n f x"] len [of x] by simp
  next
    case True
    define a b where "a = take j x" and "b = drop j x"
    have x: "x = a @ b" "length a = j" using True by (simp_all add: a_def b_def)
    have right: "patch j k g (c @ b) = c @ patch 0 k g b" if "length c = j" for c
      using that by (simp add: patch_def)
    have left: "patch i n f (a @ c) = patch i n f a @ c" for c
      using assms(3) x(2) by (simp add: patch_def)
    show ?thesis unfolding x(1) right [OF x(2)] left right [OF trans [OF len x(2)]] ..
  qed
qed

definition region_filter :: "bool \<Rightarrow> nat \<Rightarrow> pending_filter \<Rightarrow> byte list \<Rightarrow> byte list" where
  "region_filter simd member f r =
     (case apply_filter_decode simd (pf_type f) r (pf_channels f) (word_of_nat (pf_start f - member)) of
        Inl _ \<Rightarrow> r | Inr y \<Rightarrow> y)"

lemma apply_region_patch:
  "apply_region simd member f = patch (pf_start f - member) (pf_length f) (region_filter simd member f)"
  by (rule ext) (simp add: apply_region_def patch_def region_filter_def Let_def)

lemma length_region_filter: "length (region_filter simd member f r) = length r"
  using length_apply_filter_decode by (auto simp: region_filter_def split: sum.split)

definition disjoint_filters :: "pending_filter list \<Rightarrow> bool" where
  "disjoint_filters fs \<longleftrightarrow> (\<forall>f\<in>set fs. \<forall>g\<in>set fs. f = g \<or>
     pf_start f + pf_length f \<le> pf_start g \<or> pf_start g + pf_length g \<le> pf_start f)"

lemma fold_regions_order:
  assumes "mset fs = mset gs" "disjoint_filters gs" "\<forall>f\<in>set gs. member \<le> pf_start f"
  shows "fold (apply_region simd member) fs x = fold (apply_region simd member) gs x"
proof -
  have swap: "apply_region simd member f \<circ> apply_region simd member g = apply_region simd member g \<circ> apply_region simd member f"
    if "pf_start f + pf_length f \<le> pf_start g" "member \<le> pf_start f" for f g
    unfolding apply_region_patch using that
    by (intro ext) (auto intro!: patch_commute simp: length_region_filter)
  have "apply_region simd member f \<circ> apply_region simd member g = apply_region simd member g \<circ> apply_region simd member f"
    if "f \<in> set gs" "g \<in> set gs" for f g
  proof -
    have "f = g \<or> pf_start f + pf_length f \<le> pf_start g \<or> pf_start g + pf_length g \<le> pf_start f"
      using assms(2) that unfolding disjoint_filters_def by blast
    then show ?thesis using assms(3) that swap [of f g] swap [of g f] by auto
  qed
  moreover have "set fs = set gs" using assms(1) by (metis set_mset_mset)
  ultimately have "fold (apply_region simd member) fs = fold (apply_region simd member) gs"
    by (intro fold_multiset_equiv) (auto simp: assms(1))
  then show ?thesis by simp
qed

text \<open>Every filter of a stream starts at or after the position it was read at.\<close>

lemma reads_filters:
  assumes "reads rd syms rd'" "sr_ok rd" "sr_error rd = None"
  shows "\<forall>f\<in>set (symbol_filters syms). sr_pos rd \<le> pf_start f \<and> \<not> pf_applied f"
  using assms
proof (induction rule: reads.induct)
  case (reads_end s s')
  then show ?case by simp
next
  case (reads_symbol s sy s1 syms s')
  then have step: "sr_step s sy s1" using sr_next_spec [OF reads_symbol.prems reads_symbol.hyps(1)] by simp
  then have ih: "\<forall>f\<in>set (symbol_filters syms). sr_pos s \<le> pf_start f \<and> \<not> pf_applied f"
    using reads_symbol.IH by (auto simp: sr_step_def)
  have "symbol_ok (sr_pos s) sy" using step by (simp add: sr_step_def)
  then show ?case using ih by (cases sy) auto
qed

section \<open>Dictionary sizes\<close>

lemma next_power_from_spec:
  assumes "p = 2 ^ k"
  shows "\<exists>j\<ge>k. next_power_from p n = 2 ^ j \<and> n \<le> 2 ^ j"
  using assms
proof (induction p n arbitrary: k rule: next_power_from.induct)
  case (1 p n)
  show ?case
  proof (cases "n \<le> p")
    case True
    then show ?thesis using 1(2) by (intro exI [of _ k]) (subst next_power_from.simps, simp)
  next
    case False
    then have "\<not> (n \<le> p \<or> p = 0)" using 1(2) by simp
    moreover have "2 * p = 2 ^ Suc k" using 1(2) by simp
    ultimately obtain j where "Suc k \<le> j" "next_power_from (2 * p) n = 2 ^ j" "n \<le> 2 ^ j" using 1(1) by blast
    then show ?thesis using \<open>\<not> (n \<le> p \<or> p = 0)\<close> by (auto simp: next_power_from.simps [of p n] intro: exI [of _ j])
  qed
qed

lemma checked_next_power_spec:
  assumes "checked_next_power_of_two n = Some p"
  shows "\<exists>k\<le>63. p = 2 ^ k \<and> n \<le> p"
proof -
  obtain k where k: "next_power_from 1 n = 2 ^ k" "n \<le> 2 ^ k"
    using next_power_from_spec [of 1 0 n] by auto
  then have p: "p = 2 ^ k" "(2 :: nat) ^ k < 2 ^ 64"
    using assms by (auto simp: checked_next_power_of_two_def Let_def split: if_splits)
  then have "k < 64" by (metis power_less_imp_less_exp one_less_numeral_iff semiring_norm(76))
  then show ?thesis using p k by (intro exI [of _ k]) auto
qed

definition dict_errors :: "rar_error set" where
  "dict_errors = {Format ''dictionary size overflows host address space'',
     Format ''dictionary size log exceeds supported maximum 15''}"

lemma checked_dict_size_cases:
  assumes "\<And>b. bytes = Some b \<Longrightarrow> 2 ^ 16 < b"
  shows "case checked_dict_size lg bytes of
    Inl err \<Rightarrow> err \<in> dict_errors
  | Inr dict \<Rightarrow> \<exists>k. 17 \<le> k \<and> k \<le> 63 \<and> dict = 2 ^ k"
proof -
  have big: "\<exists>k. 17 \<le> k \<and> k \<le> 63 \<and> p = 2 ^ k" if "checked_next_power_of_two n = Some p" "2 ^ 16 < n" for n p
  proof -
    from checked_next_power_spec [OF that(1)] obtain k where k: "k \<le> 63" "p = 2 ^ k" "n \<le> p" by blast
    with that(2) have "(2 :: nat) ^ 16 < 2 ^ k" by simp
    then have "16 < k" by (metis power_less_imp_less_exp one_less_numeral_iff semiring_norm(76))
    then show ?thesis using k by auto
  qed
  have "(2 :: nat) ^ 16 < push_bit lg (128 * 1024)"
  proof -
    have "1 \<le> (2 :: nat) ^ lg" by simp
    then have "Suc 0 < 2 * 2 ^ lg" by linarith
    then show ?thesis by (simp add: push_bit_eq_mult)
  qed
  then show ?thesis
    using big assms
    by (auto simp: checked_dict_size_def dict_errors_def ok_or_def split: option.splits sum.splits)
qed

section \<open>Properties\<close>

definition decode_errors :: "rar_error set" where
  "decode_errors = finish_errors \<union> dict_errors"

text \<open>
  The dictionaries the engine is made for: a carried state with a window of at least 128 KiB, or a
  fresh window of more than 64 KiB (it is rounded up to a power of two, and 128 KiB is the least that an
  archive can declare) and at most 2^62 bytes (beyond that the allocation of the window panics).
\<close>

definition dictionary_supported :: "decode_options \<Rightarrow> bool" where
  "dictionary_supported opts \<longleftrightarrow>
     (case opt_state opts of
        Some st \<Rightarrow> \<exists>s. decoder_ok st s
      | None \<Rightarrow> (case opt_dict_size_bytes opts of None \<Rightarrow> True | Some b \<Rightarrow> 2 ^ 16 < b \<and> b \<le> 2 ^ 62))"

text \<open>C6: With a supported dictionary, decoding a member comes to an end whatever its bytes: it
  returns the decoded bytes or one of the documented errors, and none of the assertions, underflows
  and internal consistency errors of the engine is reached. The dictionary is supported when an
  archive declares it (at least 128 KiB), not for every value a direct caller may pass: with a window
  below 64 KiB the engine can panic. That memory can be allocated is taken for granted.\<close>

theorem decode_raw_returns:
  assumes "dictionary_supported opts"
  shows "(\<exists>r. decode_raw simd data n opts = Some r \<and> (\<forall>err. r = Inl err \<longrightarrow> err \<in> decode_errors)) \<and>
    decode_errors \<inter> {Panic, Format PANIC, Format ''internal drain beyond staging'',
      Format ''internal streaming decode staging error'', Format ''filter region out of staging bounds'',
      Format ''RAR5 filter changed output length''} = {}"
proof
  have run: "\<exists>r. run_engine simd data n st extra = Some r \<and> (\<forall>err. r = Inl err \<longrightarrow> err \<in> decode_errors)"
    if "decoder_ok st s" for st s extra
    using run_engine_spec [OF that, of simd data n extra] by (auto simp: decode_errors_def)
  have map_error: "map_sum id g r = Inl err \<longleftrightarrow> r = Inl err" for g :: "'x \<Rightarrow> 'y" and r :: "rar_error + 'x" and err
    by (cases r) simp_all
  show "\<exists>r. decode_raw simd data n opts = Some r \<and> (\<forall>err. r = Inl err \<longrightarrow> err \<in> decode_errors)"
  proof (cases "opt_state opts")
    case (Some st)
    then obtain s where "decoder_ok st s" using assms by (auto simp: dictionary_supported_def)
    from run [OF this, of "opt_extra_dist opts"] Some show ?thesis
      by (auto simp: decode_raw_def map_error)
  next
    case None
    then have "\<And>b. opt_dict_size_bytes opts = Some b \<Longrightarrow> 2 ^ 16 < b" using assms by (simp add: dictionary_supported_def)
    note size = checked_dict_size_cases [OF this, of "opt_dict_size_bytes opts" "opt_dict_size_log opts", simplified]
    show ?thesis
    proof (cases "checked_dict_size (opt_dict_size_log opts) (opt_dict_size_bytes opts)")
      case (Inl err)
      then show ?thesis using None size by (auto simp: decode_raw_def decode_standalone_def decode_errors_def)
    next
      case (Inr dict)
      then obtain k where "17 \<le> k" "k \<le> 63" "dict = 2 ^ k" using size by auto
      with decoder_state_new_ok have "decoder_ok (decoder_state_new dict) []" by simp
      from run [OF this, of "opt_extra_dist opts"] None Inr show ?thesis
        by (auto simp: decode_raw_def decode_standalone_def map_error)
    qed
  qed
  show "decode_errors \<inter> {Panic, Format PANIC, Format ''internal drain beyond staging'',
      Format ''internal streaming decode staging error'', Format ''filter region out of staging bounds'',
      Format ''RAR5 filter changed output length''} = {}"
    by (auto simp: decode_errors_def finish_errors_def engine_errors_def sink_errors_def stream_errors_def table_errors_def
        bit_errors_def huffman_errors_def dict_errors_def unsupported_def PANIC_def END_OF_DATA_def)
qed

theorem decode_raw_returns_witness:
  "\<exists>r. decode_raw True [0x41, 0x1B, 0x00, 0xFF] 5
     \<lparr>opt_dict_size_log = 3, opt_dict_size_bytes = None, opt_extra_dist = False, opt_state = None\<rparr> = Some r"
proof -
  let ?opts = "\<lparr>opt_dict_size_log = 3, opt_dict_size_bytes = None, opt_extra_dist = False, opt_state = None\<rparr>"
  have "dictionary_supported ?opts" by (simp add: dictionary_supported_def)
  from conjunct1 [OF decode_raw_returns [OF this, of True "[0x41, 0x1B, 0x00, 0xFF]" 5]] show ?thesis by blast
qed

lemma reads_total:
  assumes "sr_ok rd" "sr_error rd = None"
  shows "\<exists>syms rd'. reads rd syms rd' \<and> length syms + sr_progress rd \<le> 8 * length (br_data (sr_reader rd)) \<and>
    (case sr_error rd' of None \<Rightarrow> sr_pos rd' = sr_pos rd + sum_list (map symbol_len syms) | Some e \<Rightarrow> e \<in> stream_errors)"
  using assms
proof (induction "8 * length (br_data (sr_reader rd)) - sr_progress rd" arbitrary: rd rule: less_induct)
  case less
  obtain x rd1 where nxt: "sr_next rd = (x, rd1)" by fastforce
  note spec = sr_next_spec [OF less.prems nxt]
  show ?case
  proof (cases x)
    case None
    then have "reads rd [] rd1" using nxt by (simp add: reads_end)
    then show ?thesis
      using spec None sr_progress_bound [OF less.prems(1)]
      by (intro exI [of _ "[]"] exI [of _ rd1]) (auto simp: sr_stop_def split: option.splits)
  next
    case (Some sy)
    then have step: "sr_ok rd1" "sr_error rd1 = None" "br_data (sr_reader rd1) = br_data (sr_reader rd)"
        "sr_progress rd < sr_progress rd1" "sr_pos rd1 = sr_pos rd + symbol_len sy"
      using spec by (auto simp: sr_step_def)
    have "sr_progress rd1 \<le> 8 * length (br_data (sr_reader rd))" using sr_progress_bound [OF step(1)] step(3) by simp
    then have "8 * length (br_data (sr_reader rd1)) - sr_progress rd1 < 8 * length (br_data (sr_reader rd)) - sr_progress rd"
      using step(3,4) diff_less_mono2 [of "sr_progress rd" "sr_progress rd1"] by simp
    from less.hyps [OF this step(1,2)] obtain syms rd' where
      ih: "reads rd1 syms rd'" "length syms + sr_progress rd1 \<le> 8 * length (br_data (sr_reader rd1))"
        "case sr_error rd' of None \<Rightarrow> sr_pos rd' = sr_pos rd1 + sum_list (map symbol_len syms) | Some e \<Rightarrow> e \<in> stream_errors"
      by blast
    have "reads rd (sy # syms) rd'" using reads_symbol nxt Some ih(1) by blast
    then show ?thesis using ih(2,3) step(3-5)
      by (intro exI [of _ "sy # syms"] exI [of _ rd']) (auto split: option.splits)
  qed
qed

text \<open>C11: The stream of symbols of any packed bytes ends: after at most as many symbols as the
  bytes have bits it stops or records an error of the stream, whether or not the blocks, tables
  and codes in it make sense, and each symbol moves the output position by the bytes it stands for.\<close>

theorem symbol_stream_ends:
  assumes "state_ok st"
  shows "\<exists>syms rd. reads (sr_new data extra p n st) syms rd \<and> length syms \<le> 8 * length data \<and>
    (case sr_error rd of
       None \<Rightarrow> sr_pos rd = p + sum_list (map symbol_len syms)
     | Some e \<Rightarrow> e \<in> stream_errors)"
proof -
  have "sr_error (sr_new data extra p n st) = None" by (simp add: sr_new_def)
  moreover have "br_data (sr_reader (sr_new data extra p n st)) = data" "sr_pos (sr_new data extra p n st) = p"
    by (simp_all add: sr_new_def br_new_def)
  ultimately show ?thesis
    using reads_total [OF sr_new_ok [OF assms], of data extra p n] by (metis add_leD1)
qed

theorem symbol_stream_ends_witness:
  "\<exists>syms rd. reads (sr_new [0xC0, 0x98, 0x02, 0, 7] False 0 9 symbol_state_default) syms rd \<and> length syms \<le> 40"
  using symbol_stream_ends [OF state_ok_default, of "[0xC0, 0x98, 0x02, 0, 7]" False 0 9] by auto

text \<open>C5: What a member decodes to is determined by the symbols its bits stand for and by the
  stream before it: when decoding succeeds, the output is exactly the LZ77 expansion of the
  symbols (every match reaching back within the window) with each filter of the stream applied
  once, has the declared length, and does not depend on where the flushes fell if the filtered
  regions are disjoint; the state left behind carries on from the unfiltered stream.\<close>

theorem run_engine_refines:
  assumes "decoder_ok st s" "run_engine simd data n st extra = Some (Inr (out, st'))"
  shows "\<exists>syms rd fs. reads (sr_new data extra (length s) n (ds_symbols st)) syms rd \<and> sr_error rd = None \<and>
    lz_tokens_fit (win_capacity (ds_window st)) (length s) (symbol_tokens syms) \<and>
    mset fs = mset (symbol_filters syms) \<and>
    out = fold (apply_region simd (length s)) fs (drop (length s) (lz_expand s (symbol_tokens syms))) \<and>
    (disjoint_filters (symbol_filters syms) \<longrightarrow>
      out = fold (apply_region simd (length s)) (symbol_filters syms) (drop (length s) (lz_expand s (symbol_tokens syms)))) \<and>
    length out = n \<and> decoder_ok st' (lz_expand s (symbol_tokens syms)) \<and> ds_symbols st' = sr_state rd"
proof -
  obtain syms rd fs where r: "reads (sr_new data extra (length s) n (ds_symbols st)) syms rd" "sr_error rd = None"
      "lz_tokens_fit (win_capacity (ds_window st)) (length s) (symbol_tokens syms)"
      "length (expansion s syms) = length s + n" "mset fs = mset (symbol_filters syms)"
      "out = fold (apply_region simd (length s)) fs (drop (length s) (expansion s syms))"
      "decoder_ok st' (expansion s syms)" "ds_symbols st' = sr_state rd"
    using run_engine_spec [OF assms(1), of simd data n extra] assms(2) by auto
  have "state_ok (ds_symbols st)" using assms(1) by (simp add: decoder_ok_def)
  from reads_filters [OF r(1) sr_new_ok [OF this]]
  have ahead: "\<forall>f\<in>set (symbol_filters syms). length s \<le> pf_start f" by (simp add: sr_new_def)
  have "length out = n" using r(4,6) by simp
  with r fold_regions_order [OF r(5) _ ahead] show ?thesis
    unfolding expansion_def by (intro exI [of _ syms] exI [of _ rd] exI [of _ fs]) simp
qed

lemma run_engine_empty:
  assumes "win_total (ds_window st) = 0"
  shows "run_engine simd data 0 st extra = Some (Inr ([], st))"
proof -
  let ?rd = "sr_new data extra 0 0 (ds_symbols st)"
  have "sr_next_symbol ?rd = (None, ?rd)" by (subst sr_next_symbol.simps) (simp add: sr_new_def saturating_add_def)
  then have "sr_next ?rd = (None, ?rd)" by (simp add: sr_next_def) (simp add: sr_new_def saturating_add_def)
  then have "engine_loop simd (engine_new data 0 st extra) = Some (Inr (engine_new data 0 st extra))"
    using assms by (subst engine_loop.simps) (simp add: engine_new_def Let_def)
  then show ?thesis using assms
    by (simp add: run_engine_def engine_finish_def engine_new_def Let_def sr_new_def drain_up_to_def sink_new_def
        staging_len_def)
qed

theorem run_engine_refines_witness:
  "\<exists>syms rd. reads (sr_new [1, 2] True 0 0 symbol_state_default) syms rd \<and>
     lz_tokens_fit (win_capacity (win_new (2 ^ 17))) 0 (symbol_tokens syms)"
proof -
  let ?st = "decoder_state_new (2 ^ 17)"
  have ok: "decoder_ok ?st []" by (rule decoder_state_new_ok) simp_all
  have "win_total (ds_window ?st) = 0" by (simp add: decoder_state_new_def win_new_def)
  from run_engine_refines [OF ok run_engine_empty [OF this, of True "[1, 2]" True]]
  show ?thesis by (auto simp: decoder_state_new_def)
qed

end
