(* ===== verification/Rar20Decoder.thy ===== *)
theory Rar20Decoder
  imports LegacyHuffman LegacyHistory
begin

text \<open>
  The RAR 2.x member decoder (\<^verbatim>\<open>crates/rar/src/codec/legacy/rar20.rs\<close>, with the shared
  slot tables of encode_core.rs): blocks of LZ symbols or of audio bytes, each with its own Huffman
  tables, over the retained history. The 32-bit arithmetic of the audio predictor is written on
  integers; \<open>audio_in_range\<close> shows that no operation leaves the range of an \<open>i32\<close>.
  The loops are partial functions; that they end is proved.
\<close>

section \<open>Tables\<close>

definition LENGTH_COUNT :: nat where "LENGTH_COUNT = 28"

definition LENGTH_BASES :: "nat list" where
  "LENGTH_BASES = [0, 1, 2, 3, 4, 5, 6, 7, 8, 10, 12, 14, 16, 20, 24, 28, 32, 40, 48, 56, 64, 80,
     96, 112, 128, 160, 192, 224]"

definition LENGTH_BITS :: "nat list" where
  "LENGTH_BITS = [0, 0, 0, 0, 0, 0, 0, 0, 1, 1, 1, 1, 2, 2, 2, 2, 3, 3, 3, 3, 4, 4, 4, 4, 5, 5, 5, 5]"

definition SHORT_BASES :: "nat list" where
  "SHORT_BASES = [0, 4, 8, 16, 32, 64, 128, 192]"

definition SHORT_BITS :: "nat list" where
  "SHORT_BITS = [2, 2, 3, 4, 5, 6, 6, 6]"

definition MAIN_COUNT :: nat where "MAIN_COUNT = 298"
definition OFFSET_COUNT :: nat where "OFFSET_COUNT = 48"
definition LEVEL_COUNT :: nat where "LEVEL_COUNT = 19"
definition TABLE_COUNT :: nat where "TABLE_COUNT = MAIN_COUNT + OFFSET_COUNT + LENGTH_COUNT"
definition AUDIO_COUNT :: nat where "AUDIO_COUNT = 257"
definition MAX_CHANNELS :: nat where "MAX_CHANNELS = 4"
definition OLD_LEVEL_COUNT :: nat where "OLD_LEVEL_COUNT = AUDIO_COUNT * MAX_CHANNELS"
definition MAX_HISTORY :: nat where "MAX_HISTORY = 1024 * 1024"

definition OFFSET_BASES :: "nat list" where
  "OFFSET_BASES = [0, 1, 2, 3, 4, 6, 8, 12, 16, 24, 32, 48, 64, 96, 128, 192, 256, 384, 512, 768,
     1024, 1536, 2048, 3072, 4096, 6144, 8192, 12288, 16384, 24576, 32768, 49152, 65536, 98304,
     131072, 196608, 262144, 327680, 393216, 458752, 524288, 589824, 655360, 720896, 786432, 851968,
     917504, 983040]"

definition OFFSET_BITS :: "nat list" where
  "OFFSET_BITS = [0, 0, 0, 0, 1, 1, 2, 2, 3, 3, 4, 4, 5, 5, 6, 6, 7, 7, 8, 8, 9, 9, 10, 10, 11, 11,
     12, 12, 13, 13, 14, 14, 15, 15, 16, 16, 16, 16, 16, 16, 16, 16, 16, 16, 16, 16, 16, 16]"

definition push_old_offset :: "nat list \<Rightarrow> nat \<Rightarrow> nat list" where
  "push_old_offset old_offsets offset =
     (let ring = old_offsets[3 := old_offsets ! 2]; ring = ring[2 := ring ! 1]; ring = ring[1 := ring ! 0] in
      ring[0 := offset])"

section \<open>State\<close>

record audio_state =
  aud_k :: "int list"
  aud_d1 :: int
  aud_d2 :: int
  aud_d3 :: int
  aud_d4 :: int
  last_delta :: int
  last_char :: int
  byte_count :: u32
  aud_dif :: "u32 list"

definition audio_default :: audio_state where
  "audio_default = \<lparr>aud_k = replicate 5 0, aud_d1 = 0, aud_d2 = 0, aud_d3 = 0, aud_d4 = 0,
     last_delta = 0, last_char = 0, byte_count = 0, aud_dif = replicate 11 0\<rparr>"

record rar20_decoder =
  r20_bits :: lz_reader
  r20_levels :: "byte list"
  r20_main :: huffman
  r20_offsets :: huffman
  r20_lengths :: huffman
  audio_tables :: "huffman list"
  audio_block :: bool
  r20_channels :: nat
  cur_channel :: nat
  r20_audio :: "audio_state list"
  channel_delta :: int
  old_offsets :: "nat list"
  r20_last_offset :: nat
  r20_last_length :: nat
  r20_history :: history
  in_block :: bool

definition rar20_decoder_new :: rar20_decoder where
  "rar20_decoder_new =
     \<lparr>r20_bits = lz_reader_new, r20_levels = replicate OLD_LEVEL_COUNT 0, r20_main = huffman_empty,
      r20_offsets = huffman_empty, r20_lengths = huffman_empty,
      audio_tables = replicate MAX_CHANNELS huffman_empty, audio_block = False, r20_channels = 1,
      cur_channel = 0, r20_audio = replicate MAX_CHANNELS audio_default, channel_delta = 0,
      old_offsets = replicate 4 0, r20_last_offset = 0, r20_last_length = 0,
      r20_history = history_new MAX_HISTORY, in_block = False\<rparr>"

section \<open>Reading tables\<close>

text \<open>
  A reader operation run on the decoder's bit stream (\<open>?\<close> on \<open>self.bits\<close> and on a
  Huffman table of \<open>self\<close>).
\<close>

definition on_bits ::
  "(lz_reader \<Rightarrow> lz_error + ('a \<times> lz_reader)) \<Rightarrow> rar20_decoder \<Rightarrow> lz_error + ('a \<times> rar20_decoder)" where
  "on_bits f s = rbind (f (r20_bits s)) (\<lambda>(a, r). Inr (a, s\<lparr>r20_bits := r\<rparr>))"

fun read_nibbles :: "nat \<Rightarrow> lz_reader \<Rightarrow> lz_error + (byte list \<times> lz_reader)" where
  "read_nibbles 0 r = Inr ([], r)"
| "read_nibbles (Suc n) r =
     rbind (lz_read_bits 4 r) (\<lambda>(v, r). rbind (read_nibbles n r) (\<lambda>(vs, r). Inr (ucast v # vs, r)))"

definition read_level_lengths :: "lz_reader \<Rightarrow> lz_error + (byte list \<times> lz_reader)" where
  "read_level_lengths = read_nibbles LEVEL_COUNT"

text \<open>
  The loop over the level symbols. \<open>fill_levels\<close> works on the slice below
  \<open>table_size\<close>; what lies above keeps the old levels.
\<close>

definition fill_below :: "nat \<Rightarrow> byte list \<Rightarrow> nat \<Rightarrow> nat \<Rightarrow> byte \<Rightarrow> lz_error + (byte list \<times> nat)" where
  "fill_below table_size levels pos count value =
     rbind (fill_levels (take table_size levels) pos count value) (\<lambda>(front, pos).
       Inr (front @ drop table_size levels, pos))"

definition level_step ::
  "byte list \<Rightarrow> huffman \<Rightarrow> nat \<Rightarrow> byte list \<times> nat \<times> lz_reader \<Rightarrow> lz_error + (byte list \<times> nat \<times> lz_reader)" where
  "level_step old level_decoder table_size =
     (\<lambda>(new_levels, pos, r).
       rbind (huffman_decode level_decoder r) (\<lambda>(symbol, r).
         if symbol \<le> 15 then Inr (new_levels[pos := (old ! pos + word_of_nat symbol) AND 0x0f], pos + 1, r)
         else if symbol = 16 then
           if pos = 0 then Inl (Bad ''table repeat at start'')
           else rbind (lz_read_bits 2 r) (\<lambda>(v, r).
             rbind (fill_below table_size new_levels pos (3 + unat v) (new_levels ! (pos - 1))) (\<lambda>(l, p). Inr (l, p, r)))
         else if symbol = 17 then
           rbind (lz_read_bits 3 r) (\<lambda>(v, r).
             rbind (fill_below table_size new_levels pos (3 + unat v) 0) (\<lambda>(l, p). Inr (l, p, r)))
         else if symbol = 18 then
           rbind (lz_read_bits 7 r) (\<lambda>(v, r).
             rbind (fill_below table_size new_levels pos (11 + unat v) 0) (\<lambda>(l, p). Inr (l, p, r)))
         else Inl (Bad ''invalid level symbol'')))"

partial_function (option) level_loop ::
  "byte list \<Rightarrow> huffman \<Rightarrow> nat \<Rightarrow> byte list \<times> nat \<times> lz_reader \<Rightarrow> (lz_error + (byte list \<times> lz_reader)) option" where
  "level_loop old level_decoder table_size st =
     (if fst (snd st) < table_size then
        (case level_step old level_decoder table_size st of
           Inl e \<Rightarrow> Some (Inl e)
         | Inr st \<Rightarrow> level_loop old level_decoder table_size st)
      else Some (Inr (fst st, snd (snd st))))"

text \<open>The header of a block: sixteen bits are peeked, two or four consumed.\<close>

definition table_header :: "rar20_decoder \<Rightarrow> lz_error + (nat \<times> rar20_decoder)" where
  "table_header s =
     rbind (lz_peek_bits 16 (r20_bits s)) (\<lambda>bit_field.
       let s = s\<lparr>audio_block := (bit_field AND 0x8000 \<noteq> 0)\<rparr>; keep_tables = (bit_field AND 0x4000 \<noteq> 0) in
       rbind (on_bits (lz_read_bits 2) s) (\<lambda>(_, s).
         let s = (if keep_tables then s else s\<lparr>r20_levels := replicate OLD_LEVEL_COUNT 0\<rparr>) in
         if audio_block s then
           let s = s\<lparr>r20_channels := unat (drop_bit 12 bit_field AND 3) + 1\<rparr>;
               s = (if r20_channels s \<le> cur_channel s then s\<lparr>cur_channel := 0\<rparr> else s) in
           rbind (on_bits (lz_read_bits 2) s) (\<lambda>(_, s). Inr (AUDIO_COUNT * r20_channels s, s))
         else Inr (TABLE_COUNT, s)))"

fun channel_tables :: "byte list \<Rightarrow> nat list \<Rightarrow> huffman list \<Rightarrow> lz_error + huffman list" where
  "channel_tables levels [] tables = Inr tables"
| "channel_tables levels (channel # channels) tables =
     rbind (huffman_from_lengths (take AUDIO_COUNT (drop (channel * AUDIO_COUNT) levels))) (\<lambda>h.
       channel_tables levels channels (tables[channel := h]))"

definition build_tables :: "rar20_decoder \<Rightarrow> lz_error + rar20_decoder" where
  "build_tables s =
     (let levels = r20_levels s in
      if audio_block s then
        rbind (channel_tables levels [0..<r20_channels s] (audio_tables s)) (\<lambda>tables. Inr (s\<lparr>audio_tables := tables\<rparr>))
      else
        rbind (huffman_from_lengths (take MAIN_COUNT levels)) (\<lambda>main.
          rbind (huffman_from_lengths (take OFFSET_COUNT (drop MAIN_COUNT levels))) (\<lambda>offsets.
            rbind (huffman_from_lengths (take LENGTH_COUNT (drop (MAIN_COUNT + OFFSET_COUNT) levels))) (\<lambda>lengths.
              Inr (s\<lparr>r20_main := main, r20_offsets := offsets, r20_lengths := lengths\<rparr>)))))"

definition rar20_read_tables :: "rar20_decoder \<Rightarrow> (lz_error + rar20_decoder) option" where
  "rar20_read_tables s =
     (case rbind (table_header s) (\<lambda>(table_size, s).
             rbind (on_bits read_level_lengths s) (\<lambda>(level_lengths, s).
               rbind (huffman_from_lengths level_lengths) (\<lambda>level_decoder. Inr (table_size, level_decoder, s)))) of
        Inl e \<Rightarrow> Some (Inl e)
      | Inr (table_size, level_decoder, s) \<Rightarrow>
          map_option (\<lambda>res. rbind res (\<lambda>(new_levels, r).
              build_tables (s\<lparr>r20_bits := r, r20_levels := new_levels\<rparr>)))
            (level_loop (r20_levels s) level_decoder table_size (r20_levels s, 0, r20_bits s)))"

section \<open>The audio predictor\<close>

definition abs_diff_word :: "int \<Rightarrow> u32" where
  "abs_diff_word v = word_of_int \<bar>v\<bar>"

text \<open>Which of the eleven running differences is the smallest, and all of them reset.\<close>

fun min_dif_index :: "u32 list \<Rightarrow> nat \<Rightarrow> u32 \<Rightarrow> nat \<Rightarrow> nat" where
  "min_dif_index [] index min_dif num = num"
| "min_dif_index (d # ds) index min_dif num =
     (if d < min_dif then min_dif_index ds (index + 1) d index
      else min_dif_index ds (index + 1) min_dif num)"

text \<open>Odd entries lower, even entries raise the coefficient of their pair.\<close>

definition adjust_k :: "nat \<Rightarrow> int list \<Rightarrow> int list" where
  "adjust_k num k =
     (if num = 0 \<or> 10 < num then k
      else let i = (num - 1) div 2 in
        if odd num then (if - 16 \<le> k ! i then k[i := k ! i - 1] else k)
        else (if k ! i < 16 then k[i := k ! i + 1] else k))"

definition predicted_value :: "audio_state \<Rightarrow> int \<Rightarrow> int" where
  "predicted_value st chan =
     8 * last_char st + aud_k st ! 0 * aud_d1 st + aud_k st ! 1 * aud_d2 st + aud_k st ! 2 * aud_d3 st +
     aud_k st ! 3 * aud_d4 st + aud_k st ! 4 * chan"

definition dif_terms :: "int \<Rightarrow> audio_state \<Rightarrow> int \<Rightarrow> int list" where
  "dif_terms d st chan = [d, d - aud_d1 st, d + aud_d1 st, d - aud_d2 st, d + aud_d2 st, d - aud_d3 st,
     d + aud_d3 st, d - aud_d4 st, d + aud_d4 st, d - chan, d + chan]"

definition audio_step :: "byte \<Rightarrow> audio_state \<Rightarrow> int \<Rightarrow> byte \<times> audio_state \<times> int" where
  "audio_step delta st chan =
     (let st = st\<lparr>byte_count := byte_count st + 1, aud_d4 := aud_d3 st, aud_d3 := aud_d2 st,
                 aud_d2 := last_delta st - aud_d1 st, aud_d1 := last_delta st\<rparr>;
          predicted = drop_bit 3 (predicted_value st chan) AND 0xff;
          byte = word_of_int (predicted - uint delta) :: byte;
          d = sint delta * 8;
          st = st\<lparr>aud_dif := map2 (\<lambda>x v. x + abs_diff_word v) (aud_dif st) (dif_terms d st chan)\<rparr>;
          chan = sint (byte - word_of_int (last_char st));
          st = st\<lparr>last_delta := chan, last_char := uint byte\<rparr>;
          st = (if byte_count st AND 0x1f = 0
                then st\<lparr>aud_k := adjust_k (min_dif_index (tl (aud_dif st)) 1 (hd (aud_dif st)) 0) (aud_k st),
                        aud_dif := replicate 11 0\<rparr>
                else st) in
      (byte, st, chan))"

definition decode_audio :: "byte \<Rightarrow> rar20_decoder \<Rightarrow> byte \<times> rar20_decoder" where
  "decode_audio delta s =
     (let (byte, st, chan) = audio_step delta (r20_audio s ! cur_channel s) (channel_delta s) in
      (byte, s\<lparr>r20_audio := (r20_audio s)[cur_channel s := st], channel_delta := chan\<rparr>))"

definition decode_audio_byte :: "rar20_decoder \<Rightarrow> lz_error + rar20_decoder" where
  "decode_audio_byte s =
     rbind (on_bits (huffman_decode (audio_tables s ! cur_channel s)) s) (\<lambda>(symbol, s).
       if symbol = 256 then Inr (s\<lparr>in_block := False\<rparr>)
       else if 256 < symbol then Inl (Bad ''invalid audio symbol'')
       else let (byte, s) = decode_audio (word_of_nat symbol) s;
                s = s\<lparr>r20_history := history_push byte (r20_history s), cur_channel := cur_channel s + 1\<rparr> in
         Inr (if cur_channel s = r20_channels s then s\<lparr>cur_channel := 0\<rparr> else s))"

section \<open>LZ symbols\<close>

definition read_extra :: "nat \<Rightarrow> rar20_decoder \<Rightarrow> lz_error + (nat \<times> rar20_decoder)" where
  "read_extra bits s =
     (if bits \<noteq> 0 then rbind (on_bits (lz_read_bits bits) s) (\<lambda>(v, s). Inr (unat v, s)) else Inr (0, s))"

definition read_offset :: "rar20_decoder \<Rightarrow> lz_error + (nat \<times> rar20_decoder)" where
  "read_offset s =
     rbind (on_bits (huffman_decode (r20_offsets s)) s) (\<lambda>(slot, s).
       if OFFSET_COUNT \<le> slot then Inl (Bad ''invalid offset slot'')
       else rbind (read_extra (OFFSET_BITS ! slot) s) (\<lambda>(extra, s). Inr (OFFSET_BASES ! slot + 1 + extra, s)))"

definition copy_to_history :: "nat \<Rightarrow> nat \<Rightarrow> nat \<Rightarrow> rar20_decoder \<Rightarrow> lz_error + rar20_decoder" where
  "copy_to_history len offset output_size s =
     rbind (history_copy_match len offset output_size (r20_history s)) (\<lambda>h. Inr (s\<lparr>r20_history := h\<rparr>))"

text \<open>\<open>push_old_offset\<close>, the last offset and length, and the copy.\<close>

definition match_symbol :: "nat \<Rightarrow> nat \<Rightarrow> nat \<Rightarrow> rar20_decoder \<Rightarrow> lz_error + rar20_decoder" where
  "match_symbol len offset output_size s =
     copy_to_history len offset output_size
       (s\<lparr>old_offsets := push_old_offset (old_offsets s) offset, r20_last_offset := offset, r20_last_length := len\<rparr>)"

definition old_offset_symbol :: "nat \<Rightarrow> nat \<Rightarrow> rar20_decoder \<Rightarrow> lz_error + rar20_decoder" where
  "old_offset_symbol symbol output_size s =
     (let offset = old_offsets s ! (symbol - 257) in
      rbind (on_bits (huffman_decode (r20_lengths s)) s) (\<lambda>(length_slot, s).
        if LENGTH_COUNT \<le> length_slot then Inl (Bad ''invalid repeat length slot'')
        else rbind (read_extra (LENGTH_BITS ! length_slot) s) (\<lambda>(extra, s).
          let len = LENGTH_BASES ! length_slot + 2 + extra;
              len = (if 0x101 \<le> offset then len + 1 else len);
              len = (if 0x2000 \<le> offset then len + 1 else len);
              len = (if 0x40000 \<le> offset then len + 1 else len) in
          match_symbol len offset output_size s)))"

definition short_symbol :: "nat \<Rightarrow> nat \<Rightarrow> rar20_decoder \<Rightarrow> lz_error + rar20_decoder" where
  "short_symbol symbol output_size s =
     rbind (read_extra (SHORT_BITS ! (symbol - 261)) s) (\<lambda>(extra, s).
       match_symbol 2 (SHORT_BASES ! (symbol - 261) + 1 + extra) output_size s)"

definition long_symbol :: "nat \<Rightarrow> nat \<Rightarrow> rar20_decoder \<Rightarrow> lz_error + rar20_decoder" where
  "long_symbol symbol output_size s =
     rbind (read_extra (LENGTH_BITS ! (symbol - 270)) s) (\<lambda>(extra, s).
       rbind (read_offset s) (\<lambda>(offset, s).
         let len = LENGTH_BASES ! (symbol - 270) + 3 + extra;
             len = (if 0x2000 \<le> offset then len + 1 else len);
             len = (if 0x40000 \<le> offset then len + 1 else len) in
         match_symbol len offset output_size s))"

text \<open>One pass of the loop of \<open>decode_lz\<close>: whether the loop goes on, and the state.\<close>

definition lz_step :: "nat \<Rightarrow> rar20_decoder \<Rightarrow> lz_error + (bool \<times> rar20_decoder)" where
  "lz_step output_size s =
     (if audio_block s then
        rbind (decode_audio_byte s) (\<lambda>s. Inr (in_block s, s))
      else
        rbind (on_bits (huffman_decode (r20_main s)) s) (\<lambda>(symbol, s).
          if symbol < 256 then
            Inr (True, s\<lparr>r20_history := history_push (word_of_nat symbol) (r20_history s)\<rparr>)
          else if symbol = 256 then
            if r20_last_length s \<noteq> 0 then
              rbind (copy_to_history (r20_last_length s) (r20_last_offset s) output_size
                  (s\<lparr>old_offsets := push_old_offset (old_offsets s) (r20_last_offset s)\<rparr>)) (\<lambda>s. Inr (True, s))
            else Inr (True, s)
          else if symbol \<le> 260 then rbind (old_offset_symbol symbol output_size s) (\<lambda>s. Inr (True, s))
          else if symbol \<le> 268 then rbind (short_symbol symbol output_size s) (\<lambda>s. Inr (True, s))
          else if symbol = 269 then Inr (False, s\<lparr>in_block := False\<rparr>)
          else if symbol \<le> 297 then rbind (long_symbol symbol output_size s) (\<lambda>s. Inr (True, s))
          else Inl (Bad ''invalid main symbol'')))"

partial_function (option) rar20_decode_lz :: "nat \<Rightarrow> rar20_decoder \<Rightarrow> (lz_error + rar20_decoder) option" where
  "rar20_decode_lz output_size s =
     (if current_pos (r20_history s) < output_size then
        (case lz_step output_size s of
           Inl e \<Rightarrow> Some (Inl e)
         | Inr (continue, s) \<Rightarrow> if continue then rar20_decode_lz output_size s else Some (Inr s))
      else Some (Inr s))"

section \<open>Members\<close>

definition enter_block :: "rar20_decoder \<Rightarrow> (lz_error + rar20_decoder) option" where
  "enter_block s =
     (if in_block s then Some (Inr s)
      else map_option (\<lambda>res. rbind res (\<lambda>s. Inr (s\<lparr>in_block := True\<rparr>))) (rar20_read_tables s))"

partial_function (option) rar20_decode_until :: "nat \<Rightarrow> rar20_decoder \<Rightarrow> (lz_error + rar20_decoder) option" where
  "rar20_decode_until target s =
     (if current_pos (r20_history s) < target then
        (case drain_pending_match target (r20_history s) of
           Inl e \<Rightarrow> Some (Inl e)
         | Inr h \<Rightarrow>
             let s = s\<lparr>r20_history := h\<rparr> in
             if target \<le> current_pos (r20_history s) then Some (Inr s)
             else
               (case enter_block s of
                  None \<Rightarrow> None
                | Some (Inl e) \<Rightarrow> Some (Inl e)
                | Some (Inr s) \<Rightarrow>
                    (case rar20_decode_lz target s of
                       None \<Rightarrow> None
                     | Some (Inl e) \<Rightarrow> Some (Inl e)
                     | Some (Inr s) \<Rightarrow> rar20_decode_until target s)))
      else Some (Inr s))"

definition read_last_tables :: "rar20_decoder \<Rightarrow> (lz_error + rar20_decoder) option" where
  "read_last_tables s =
     (if lz_remaining_bytes (r20_bits s) < 5 then Some (Inr s)
      else
        let (table, stop) = (if audio_block s then (audio_tables s ! cur_channel s, 256) else (r20_main s, 269)) in
        if huffman_is_empty table then Some (Inr s)
        else case on_bits (huffman_decode table) s of
            Inl e \<Rightarrow> Some (Inl e)
          | Inr (symbol, s) \<Rightarrow>
              if symbol = stop
              then map_option (\<lambda>res. rbind res (\<lambda>s. Inr (s\<lparr>in_block := True\<rparr>))) (rar20_read_tables s)
              else Some (Inr s))"

text \<open>The bits of the member: a new reader unless there are none.\<close>

definition feed :: "byte list \<Rightarrow> rar20_decoder \<Rightarrow> rar20_decoder" where
  "feed packed s =
     (let bits = (if packed = [] then r20_bits s else lz_reader_new) in s\<lparr>r20_bits := lz_append packed bits\<rparr>)"

definition rar20_decode_member ::
  "byte list \<Rightarrow> nat \<Rightarrow> rar20_decoder \<Rightarrow> (lz_error + byte list \<times> rar20_decoder) option" where
  "rar20_decode_member packed output_size s =
     (let start = current_pos (r20_history s); target = start + output_size in
      if 2 ^ 64 \<le> target then Some (Inl (Bad ''RAR 2.0 output size overflows''))
      else case rar20_decode_until target (feed packed s) of
          None \<Rightarrow> None
        | Some (Inl e) \<Rightarrow> Some (Inl e)
        | Some (Inr s) \<Rightarrow>
            map_option (\<lambda>res. rbind res (\<lambda>s.
                rbind (raw_range start target (r20_history s)) (\<lambda>out.
                  Inr (out, s\<lparr>r20_history := snd (history_trim target (r20_history s))\<rparr>))))
              (read_last_tables s))"

text \<open>The streaming variant hands the bytes over in chunks and trims after each.\<close>

definition FLUSH :: nat where "FLUSH = 1024 * 1024"

function stream_chunks ::
  "nat \<Rightarrow> nat \<Rightarrow> byte list \<Rightarrow> rar20_decoder \<Rightarrow> (lz_error + byte list \<times> rar20_decoder) option" where
  "stream_chunks flushed target out s =
     (if flushed < target then
        (case rar20_decode_until (min (flushed + FLUSH) target) s of
           None \<Rightarrow> None
         | Some (Inl e) \<Rightarrow> Some (Inl e)
         | Some (Inr s) \<Rightarrow>
             let pos = current_pos (r20_history s) in
             (case raw_range flushed pos (r20_history s) of
                Inl e \<Rightarrow> Some (Inl e)
              | Inr chunk \<Rightarrow>
                  if pos \<le> flushed then None
                  else stream_chunks pos target (out @ chunk)
                    (s\<lparr>r20_history := snd (history_trim pos (r20_history s))\<rparr>)))
      else Some (Inr (out, s)))"
  by pat_completeness auto
termination
  by (relation "measure (\<lambda>(flushed, target, out, s). target - flushed)") auto

declare stream_chunks.simps [simp del]

definition rar20_decode_member_streaming ::
  "byte list \<Rightarrow> nat \<Rightarrow> rar20_decoder \<Rightarrow> (lz_error + byte list \<times> rar20_decoder) option" where
  "rar20_decode_member_streaming packed output_size s =
     (let start = current_pos (r20_history s); target = start + output_size in
      if 2 ^ 64 \<le> target then Some (Inl (Bad ''RAR 2.0 output size overflows''))
      else case stream_chunks start target [] (feed packed s) of
          None \<Rightarrow> None
        | Some (Inl e) \<Rightarrow> Some (Inl e)
        | Some (Inr (out, s)) \<Rightarrow>
            map_option (\<lambda>res. rbind res (\<lambda>s.
                Inr (out, s\<lparr>r20_history := snd (history_trim target (r20_history s))\<rparr>)))
              (read_last_tables s))"

section \<open>The predictor stays in range\<close>

definition audio_ok :: "audio_state \<Rightarrow> bool" where
  "audio_ok st \<longleftrightarrow> length (aud_k st) = 5 \<and> (\<forall>x\<in>set (aud_k st). - 17 \<le> x \<and> x \<le> 16) \<and>
     \<bar>aud_d1 st\<bar> \<le> 128 \<and> \<bar>aud_d2 st\<bar> \<le> 256 \<and> \<bar>aud_d3 st\<bar> \<le> 256 \<and> \<bar>aud_d4 st\<bar> \<le> 256 \<and>
     \<bar>last_delta st\<bar> \<le> 128 \<and> 0 \<le> last_char st \<and> last_char st \<le> 255 \<and> length (aud_dif st) = 11"

text \<open>The state after the shift of the deltas, and every \<open>i32\<close> value the step computes.\<close>

definition shifted :: "audio_state \<Rightarrow> audio_state" where
  "shifted st = st\<lparr>byte_count := byte_count st + 1, aud_d4 := aud_d3 st, aud_d3 := aud_d2 st,
                 aud_d2 := last_delta st - aud_d1 st, aud_d1 := last_delta st\<rparr>"

definition predictor_terms :: "audio_state \<Rightarrow> int \<Rightarrow> int list" where
  "predictor_terms st chan = [8 * last_char st, aud_k st ! 0 * aud_d1 st, aud_k st ! 1 * aud_d2 st,
     aud_k st ! 2 * aud_d3 st, aud_k st ! 3 * aud_d4 st, aud_k st ! 4 * chan]"

definition i32_values :: "byte \<Rightarrow> audio_state \<Rightarrow> int \<Rightarrow> int list" where
  "i32_values delta st chan =
     (let st = shifted st; terms = predictor_terms st chan in
      [aud_d2 st] @ terms @ map (\<lambda>n. sum_list (take n terms)) [1..<7] @
      [(drop_bit 3 (predicted_value st chan) AND 0xff) - uint delta, sint delta * 8] @
      dif_terms (sint delta * 8) st chan)"

lemma adjust_k_ok:
  assumes "length k = 5" "\<forall>x\<in>set k. - 17 \<le> x \<and> x \<le> 16"
  shows "length (adjust_k num k) = 5 \<and> (\<forall>x\<in>set (adjust_k num k). - 17 \<le> x \<and> x \<le> 16)"
proof (cases "num = 0 \<or> 10 < num")
  case True
  then show ?thesis using assms by (simp add: adjust_k_def)
next
  case False
  define i where "i = (num - 1) div 2"
  have "i < 5" using False by (auto simp: i_def)
  then have i: "i < length k" using assms(1) by simp
  then have k: "- 17 \<le> k ! i \<and> k ! i \<le> 16" using assms(2) by simp
  have upd: "length (k[i := v]) = 5 \<and> (\<forall>x\<in>set (k[i := v]). - 17 \<le> x \<and> x \<le> 16)"
    if "- 17 \<le> v" "v \<le> 16" for v
    using assms that set_update_subset_insert [of k i v] by auto
  have "adjust_k num k = k \<or> - 16 \<le> k ! i \<and> adjust_k num k = k[i := k ! i - 1] \<or>
      k ! i < 16 \<and> adjust_k num k = k[i := k ! i + 1]"
    using False unfolding adjust_k_def Let_def i_def by presburger
  then consider "adjust_k num k = k" | v where "- 17 \<le> v" "v \<le> 16" "adjust_k num k = k[i := v]"
  proof (elim disjE conjE, goal_cases)
    case 2
    have "- 17 \<le> k ! i - 1" "k ! i - 1 \<le> 16" using 2(3) k by linarith+
    then show ?thesis using 2(4) by (rule 2(2))
  next
    case 3
    have "- 17 \<le> k ! i + 1" "k ! i + 1 \<le> 16" using 3(3) k by linarith+
    then show ?thesis using 3(4) by (rule 3(2))
  qed
  then show ?thesis
  proof cases
    case 1
    show ?thesis unfolding 1 using assms by blast
  next
    case 2
    show ?thesis unfolding 2(3) by (rule upd [OF 2(1,2)])
  qed
qed

lemma sint_byte: "- 128 \<le> sint (b :: byte)" "sint (b :: byte) \<le> 127"
  using sint_range_size [of b] by (simp_all add: word_size)

lemma audio_step_ok:
  assumes "audio_ok st" "audio_step delta st chan = (byte, st', chan')"
  shows "audio_ok st' \<and> - 128 \<le> chan' \<and> chan' \<le> 127"
proof -
  define st2 where "st2 = st\<lparr>byte_count := byte_count st + 1, aud_d4 := aud_d3 st, aud_d3 := aud_d2 st,
      aud_d2 := last_delta st - aud_d1 st, aud_d1 := last_delta st,
      aud_dif := map2 (\<lambda>x v. x + abs_diff_word v) (aud_dif st) (dif_terms (sint delta * 8) (shifted st) chan),
      last_delta := chan', last_char := uint byte\<rparr>"
  have chan: "- 128 \<le> chan'" "chan' \<le> 127"
    using assms(2) sint_byte by (auto simp: audio_step_def Let_def)
  have res: "st' = (if byte_count st2 AND 0x1f = 0
      then st2\<lparr>aud_k := adjust_k (min_dif_index (tl (aud_dif st2)) 1 (hd (aud_dif st2)) 0) (aud_k st2),
               aud_dif := replicate 11 0\<rparr> else st2)"
    using assms(2) unfolding st2_def shifted_def by (auto simp: audio_step_def Let_def)
  have "uint byte < 256" using uint_bounded [of byte] by simp
  moreover have "0 \<le> uint byte" by simp
  moreover have "length (dif_terms d s c) = 11" for d s c by (simp add: dif_terms_def)
  ultimately have "audio_ok st2"
    using assms(1) chan unfolding st2_def audio_ok_def by (auto simp: abs_le_iff)
  moreover have "audio_ok (st2\<lparr>aud_k := adjust_k n (aud_k st2), aud_dif := replicate 11 0\<rparr>)" for n
    using \<open>audio_ok st2\<close> adjust_k_ok [of "aud_k st2" n] by (simp add: audio_ok_def)
  ultimately have "audio_ok st'" unfolding res by simp
  then show ?thesis using chan by simp
qed

text \<open>C16: The audio predictor never overflows: from any state it can reach, with any input byte,
  all the 32-bit values it computes (the coefficients times the deltas and each partial sum, the
  differences) stay far within an i32, and the state it leaves is again such a state.\<close>

theorem audio_in_range:
  assumes "audio_ok st" "\<bar>chan\<bar> \<le> 128"
  shows "list_all (\<lambda>v. \<bar>v\<bar> < 2 ^ 15) (i32_values delta st chan) \<and>
    (case audio_step delta st chan of (byte, st', chan') \<Rightarrow> audio_ok st' \<and> \<bar>chan'\<bar> \<le> 128)"
proof
  let ?st = "shifted st"
  have k: "\<bar>aud_k ?st ! i\<bar> \<le> 17" if "i < 5" for i
  proof -
    have "aud_k st ! i \<in> set (aud_k st)" using assms(1) that by (simp add: audio_ok_def)
    then show ?thesis using assms(1) by (auto simp: audio_ok_def shifted_def abs_le_iff)
  qed
  have d: "\<bar>aud_d1 ?st\<bar> \<le> 256" "\<bar>aud_d2 ?st\<bar> \<le> 256" "\<bar>aud_d3 ?st\<bar> \<le> 256" "\<bar>aud_d4 ?st\<bar> \<le> 256" "\<bar>chan\<bar> \<le> 256"
    "\<bar>8 * last_char ?st\<bar> \<le> 2040"
    using assms by (auto simp: audio_ok_def shifted_def abs_le_iff)
  have prod: "\<bar>aud_k ?st ! i * v\<bar> \<le> 4352" if "i < 5" "\<bar>v\<bar> \<le> 256" for i v
    using mult_mono [OF k [OF that(1)] that(2)] by (simp add: abs_mult)
  note t = d(6) prod [of 0, OF _ d(1)] prod [of 1, OF _ d(2)] prod [of 2, OF _ d(3)] prod [of 3, OF _ d(4)]
    prod [of 4, OF _ d(5)]
  have terms: "\<forall>v\<in>set (predictor_terms ?st chan). \<bar>v\<bar> \<le> 4352"
    using t by (simp add: predictor_terms_def)
  have sums: "\<bar>sum_list (take n (predictor_terms ?st chan))\<bar> < 2 ^ 15" if "n \<in> set [1..<7]" for n
  proof -
    have "\<bar>sum_list (take n xs)\<bar> \<le> 4352 * int n" if "\<forall>v\<in>set xs. \<bar>v\<bar> \<le> 4352" for n and xs :: "int list"
      using that
    proof (induction xs arbitrary: n)
      case (Cons x xs)
      then show ?case by (cases n) (auto intro: order.trans [OF abs_triangle_ineq] simp: algebra_simps add_mono)
    qed simp
    from this [OF terms, of n] that show ?thesis by auto
  qed
  have "\<bar>(drop_bit 3 (predicted_value ?st chan) AND 0xff) - uint delta\<bar> < 2 ^ 15"
  proof -
    have "(drop_bit 3 (predicted_value ?st chan) AND 0xff) = drop_bit 3 (predicted_value ?st chan) mod 256"
      using take_bit_eq_mask [of 8 "drop_bit 3 (predicted_value ?st chan)"]
      by (simp add: take_bit_eq_mod mask_eq_exp_minus_1)
    moreover have "uint delta < 256" "0 \<le> uint delta" using uint_bounded [of delta] by simp_all
    moreover have "0 \<le> m mod 256" "m mod 256 < 256" for m :: int by simp_all
    ultimately have "- 256 < (drop_bit 3 (predicted_value ?st chan) AND 0xff) - uint delta"
      "(drop_bit 3 (predicted_value ?st chan) AND 0xff) - uint delta < 256"
      by (smt (verit))+
    then show ?thesis by simp
  qed
  moreover have "\<bar>v\<bar> < 2 ^ 15" if "v \<in> set (dif_terms (sint delta * 8) ?st chan)" for v
    using that d sint_byte [of delta] by (auto simp: dif_terms_def)
  moreover have "\<bar>sint delta * 8\<bar> < 2 ^ 15" using sint_byte [of delta] by simp
  ultimately have "\<forall>v\<in>set (i32_values delta st chan). \<bar>v\<bar> < 2 ^ 15"
    using terms sums d(2) by (auto simp: i32_values_def Let_def)
  then show "list_all (\<lambda>v. \<bar>v\<bar> < 2 ^ 15) (i32_values delta st chan)" by (simp add: list_all_iff)
  show "case audio_step delta st chan of (byte, st', chan') \<Rightarrow> audio_ok st' \<and> \<bar>chan'\<bar> \<le> 128"
    using audio_step_ok [OF assms(1), of delta chan] by (auto split: prod.split)
qed

theorem audio_in_range_witness:
  "list_all (\<lambda>v. \<bar>v\<bar> < 2 ^ 15) (i32_values 200 audio_default 5) \<and>
    (case audio_step 200 audio_default 5 of (byte, st', chan') \<Rightarrow> audio_ok st' \<and> \<bar>chan'\<bar> \<le> 128)"
  by (rule audio_in_range) (simp_all add: audio_ok_def audio_default_def)

end
