(* ===== verification/Rar20Decode.thy ===== *)
theory Rar20Decode
  imports Rar20Decoder
begin

text \<open>
  The invariant of the RAR 2.x decoder and what it gives: on any input the decoder ends, fails only
  for reasons that lie in the input, never by an index out of range, and on success hands out
  exactly the bytes asked for. \<open>yields Q m\<close> is the partial-correctness triple of the
  fallible operations, \<open>returns Q m\<close> the total one of the loops.
\<close>

definition r20_errors :: "lz_error set" where
  "r20_errors = {Truncated, Bad ''empty Huffman table'', Bad ''invalid Huffman code'',
     Bad ''table repeat at start'', Bad ''oversubscribed Huffman table''}"

definition yields :: "('a \<Rightarrow> bool) \<Rightarrow> lz_error + 'a \<Rightarrow> bool" where
  "yields Q m = (case m of Inl e \<Rightarrow> e \<in> r20_errors | Inr a \<Rightarrow> Q a)"

definition returns :: "('a \<Rightarrow> bool) \<Rightarrow> (lz_error + 'a) option \<Rightarrow> bool" where
  "returns Q m = (case m of None \<Rightarrow> False | Some r \<Rightarrow> yields Q r)"

lemma yields_simps [simp]:
  "yields Q (Inr a) = Q a" "yields Q (Inl e) = (e \<in> r20_errors)"
  by (simp_all add: yields_def)

lemma returns_simps [simp]: "returns Q (Some r) = yields Q r" "returns Q None = False"
  by (simp_all add: returns_def)

lemma yields_bind:
  assumes "yields Q m" "\<And>a. Q a \<Longrightarrow> yields R (f a)"
  shows "yields R (rbind m f)"
  using assms by (cases m) auto

lemma yields_mono: "yields Q m \<Longrightarrow> (\<And>a. Q a \<Longrightarrow> R a) \<Longrightarrow> yields R m"
  by (cases m) auto

lemma returns_mono: "returns Q m \<Longrightarrow> (\<And>a. Q a \<Longrightarrow> R a) \<Longrightarrow> returns R m"
  by (cases m) (auto elim: yields_mono)

lemma returns_bind:
  assumes "returns Q m" "\<And>a. Q a \<Longrightarrow> yields R (f a)"
  shows "returns R (map_option (\<lambda>r. rbind r f) m)"
  using assms by (cases m) (auto intro: yields_bind)

section \<open>The reader and the tables\<close>

definition table_for :: "nat \<Rightarrow> huffman \<Rightarrow> bool" where
  "table_for n h \<longleftrightarrow> (\<exists>lens. length lens = n \<and> huffman_from_lengths lens = Inr h)"

lemma count_lengths_zero: "count_lengths (replicate n 0) c = Inr c"
  by (induction n) auto

lemma empty_table: "table_for n huffman_empty"
  unfolding table_for_def
  by (rule exI [of _ "replicate n 0"]) (simp add: huffman_from_lengths_def count_lengths_zero list_all_length)

lemma read_yields:
  assumes "n \<le> 24"
  shows "yields (\<lambda>(v, r'). unat v < 2 ^ n \<and> n + lz_bits_left r' = lz_bits_left r) (lz_read_bits n r)"
proof -
  have "unat (bits_value (take n (lz_rest r)) :: u32) < 2 ^ n" if "n \<le> lz_bits_left r"
    using unat_bits_value_less [of "take n (lz_rest r)", where 'a = 32] that assms by simp
  then show ?thesis using assms by (simp add: lz_read_bits_value r20_errors_def)
qed

lemma decode_yields:
  assumes "table_for n h" "n < 65536"
  shows "yields (\<lambda>(s, r'). s < n \<and> lz_bits_left r' < lz_bits_left r) (huffman_decode h r)"
proof -
  obtain lens where lens: "length lens = n" "huffman_from_lengths lens = Inr h"
    using assms(1) by (auto simp: table_for_def)
  have "huffman_for lens h" using huffman_from_lengths_cases [of lens] lens assms(2) by auto
  then have "e \<in> r20_errors" if "huffman_decode h r = Inl e" for e
    using that by (auto simp: huffman_decode_eq_spec huffman_decode_spec_def r20_errors_def
        split: option.splits if_splits)
  moreover have "s < n \<and> lz_bits_left r' < lz_bits_left r" if "huffman_decode h r = Inr (s, r')" for s r'
    using huffman_decode_progress [OF _ lens(2) that] lens(1) assms(2) by simp
  ultimately show ?thesis by (auto simp: yields_def split: sum.split)
qed

lemma from_lengths_yields:
  assumes "length lens = n" "n < 65536" "\<forall>x\<in>set lens. x \<le> 15"
  shows "yields (table_for n) (huffman_from_lengths lens)"
  using huffman_from_lengths_cases [of lens] assms
  by (auto simp: table_for_def r20_errors_def list_all_iff)

lemma nibbles_yields:
  "yields (\<lambda>(vs, r'). length vs = n \<and> (\<forall>x\<in>set vs. x \<le> 15) \<and> lz_bits_left r' \<le> lz_bits_left r) (read_nibbles n r)"
proof (induction n arbitrary: r)
  case (Suc n)
  have le: "(ucast v :: byte) \<le> 15" if "unat v < 16" for v :: u32
    using that by (simp add: word_le_nat_alt unsigned_ucast_eq take_bit_eq_mod)
  show ?case unfolding read_nibbles.simps
  proof (rule yields_bind [OF read_yields])
    fix a assume a: "case a of (v :: u32, r') \<Rightarrow> unat v < 2 ^ 4 \<and> 4 + lz_bits_left r' = lz_bits_left r"
    obtain v r' where [simp]: "a = (v, r')" by (cases a)
    show "yields (\<lambda>(vs, r'). length vs = Suc n \<and> (\<forall>x\<in>set vs. x \<le> 15) \<and> lz_bits_left r' \<le> lz_bits_left r)
      (case a of (v, r) \<Rightarrow> rbind (read_nibbles n r) (\<lambda>(vs, r). Inr (ucast v # vs, r)))"
      using a le by (simp, intro yields_bind [OF Suc.IH [of r']]) auto
  qed simp
qed simp

definition levels_ok :: "byte list \<Rightarrow> bool" where
  "levels_ok l \<longleftrightarrow> length l = OLD_LEVEL_COUNT \<and> (\<forall>x\<in>set l. x \<le> 15)"

lemma levels_ok_update: "levels_ok l \<Longrightarrow> x \<le> 15 \<Longrightarrow> levels_ok (l[i := x])"
  using set_update_subset_insert [of l i x] by (auto simp: levels_ok_def)

lemma fill_below_yields:
  assumes "levels_ok l" "pos < n" "n \<le> OLD_LEVEL_COUNT" "count < 1024" "v \<le> 15"
  shows "yields (\<lambda>(l', p). levels_ok l' \<and> p \<le> n) (fill_below n l pos count v)"
proof -
  have "set (take pos (take n l) @ replicate k v @ drop m (take n l)) \<subseteq> insert v (set l)" for k m
    by (auto dest: in_set_takeD in_set_dropD)
  then have "set ((take pos (take n l) @ replicate k v @ drop m (take n l)) @ drop n l) \<subseteq> insert v (set l)" for k m
    by (auto dest: in_set_takeD in_set_dropD)
  then have "\<forall>x\<in>set ((take pos (take n l) @ replicate k v @ drop m (take n l)) @ drop n l). x \<le> 15" for k m
    using assms(1,5) unfolding levels_ok_def by blast
  moreover have "pos + count < 2 ^ 64" using assms by (simp add: OLD_LEVEL_COUNT_def AUDIO_COUNT_def MAX_CHANNELS_def)
  ultimately show ?thesis
    using assms by (auto simp: fill_below_def fill_levels_def Let_def levels_ok_def min_def)
qed

lemma level_step_yields:
  assumes "levels_ok old" "table_for LEVEL_COUNT h" "n \<le> OLD_LEVEL_COUNT" "levels_ok l" "pos < n"
  shows "yields (\<lambda>(l', p, r'). levels_ok l' \<and> p \<le> n \<and> lz_bits_left r' < lz_bits_left r)
    (level_step old h n (l, pos, r))"
proof -
  have run: "yields (\<lambda>(l', p, r'). levels_ok l' \<and> p \<le> n \<and> lz_bits_left r' < lz_bits_left r)
      (rbind (lz_read_bits k r1) (\<lambda>(v, r). rbind (fill_below n l pos (c + unat v) x) (\<lambda>(l, p). Inr (l, p, r))))"
    if "k \<le> 7" "c \<le> 11" "x \<le> 15" "lz_bits_left r1 < lz_bits_left r" for k c x r1
  proof (rule yields_bind [OF read_yields])
    fix a assume a: "case a of (v :: u32, r') \<Rightarrow> unat v < 2 ^ k \<and> k + lz_bits_left r' = lz_bits_left r1"
    obtain v r' where [simp]: "a = (v, r')" by (cases a)
    have "(2 :: nat) ^ k \<le> 2 ^ 7" using that(1) by (intro power_increasing) auto
    then have "c + unat v < 1024" using a that(2) by simp
    from fill_below_yields [OF assms(4,5,3) this that(3)]
    show "yields (\<lambda>(l', p, r'). levels_ok l' \<and> p \<le> n \<and> lz_bits_left r' < lz_bits_left r)
       (case a of (v, r) \<Rightarrow> rbind (fill_below n l pos (c + unat v) x) (\<lambda>(l, p). Inr (l, p, r)))"
      using a that(4) by (simp, elim yields_bind) auto
  qed (use that in simp)
  have nth: "l ! (pos - 1) \<le> 15"
    using assms by (simp add: levels_ok_def)
  show ?thesis unfolding level_step_def prod.case
  proof (rule yields_bind [OF decode_yields [OF assms(2)]])
    fix a assume a: "case a of (s, r') \<Rightarrow> s < LEVEL_COUNT \<and> lz_bits_left r' < lz_bits_left r"
    obtain s r' where [simp]: "a = (s, r')" by (cases a)
    have s: "s < 19" "lz_bits_left r' < lz_bits_left r" using a by (simp_all add: LEVEL_COUNT_def)
    consider "s \<le> 15" | "s = 16" | "s = 17" | "s = 18" using s by linarith
    then show "yields (\<lambda>(l', p, r'). levels_ok l' \<and> p \<le> n \<and> lz_bits_left r' < lz_bits_left r)
      (case a of (symbol, r) \<Rightarrow>
         if symbol \<le> 15 then Inr (l[pos := (old ! pos + word_of_nat symbol) AND 0x0f], pos + 1, r)
         else if symbol = 16 then
           if pos = 0 then Inl (Bad ''table repeat at start'')
           else rbind (lz_read_bits 2 r) (\<lambda>(v, r).
             rbind (fill_below n l pos (3 + unat v) (l ! (pos - 1))) (\<lambda>(l, p). Inr (l, p, r)))
         else if symbol = 17 then
           rbind (lz_read_bits 3 r) (\<lambda>(v, r).
             rbind (fill_below n l pos (3 + unat v) 0) (\<lambda>(l, p). Inr (l, p, r)))
         else if symbol = 18 then
           rbind (lz_read_bits 7 r) (\<lambda>(v, r).
             rbind (fill_below n l pos (11 + unat v) 0) (\<lambda>(l, p). Inr (l, p, r)))
         else Inl (Bad ''invalid level symbol''))"
    proof cases
      case 1
      then show ?thesis using assms s by (auto intro!: levels_ok_update word_and_le1)
    next
      case 2
      then show ?thesis using run [OF _ _ nth s(2), of 2 3] by (auto simp: r20_errors_def)
    next
      case 3
      then show ?thesis using run [OF _ _ _ s(2), of 3 3 0] by auto
    next
      case 4
      then show ?thesis using run [OF _ _ _ s(2), of 7 11 0] by auto
    qed
  qed (simp add: LEVEL_COUNT_def)
qed

lemma level_loop_returns:
  assumes "levels_ok old" "table_for LEVEL_COUNT h" "n \<le> OLD_LEVEL_COUNT" "levels_ok l" "pos \<le> n"
  shows "returns (\<lambda>(l', r'). levels_ok l' \<and> lz_bits_left r' \<le> lz_bits_left r) (level_loop old h n (l, pos, r))"
  using assms(4,5)
proof (induction "lz_bits_left r" arbitrary: l pos r rule: less_induct)
  case less
  show ?case
  proof (cases "pos < n")
    case False
    then show ?thesis using less.prems by (simp add: level_loop.simps)
  next
    case True
    note step = level_step_yields [OF assms(1-3) less.prems(1) True, of r]
    show ?thesis
    proof (cases "level_step old h n (l, pos, r)")
      case (Inl e)
      then show ?thesis using step True by (subst level_loop.simps) simp
    next
      case (Inr st)
      obtain l' p r' where st: "st = (l', p, r')" by (cases st)
      have s: "levels_ok l'" "p \<le> n" "lz_bits_left r' < lz_bits_left r" using step Inr st by auto
      have "returns (\<lambda>(l'', r''). levels_ok l'' \<and> lz_bits_left r'' \<le> lz_bits_left r') (level_loop old h n (l', p, r'))"
        using less.hyps [OF s(3,1,2)] .
      then have "returns (\<lambda>(l'', r''). levels_ok l'' \<and> lz_bits_left r'' \<le> lz_bits_left r) (level_loop old h n (l', p, r'))"
        by (rule returns_mono) (use s(3) in auto)
      then show ?thesis using True Inr st by (subst level_loop.simps) simp
    qed
  qed
qed

section \<open>The invariant\<close>

text \<open>What holds of the tables, the predictor and the offsets, and what of the history.\<close>

definition r20_fixed :: "rar20_decoder \<Rightarrow> bool" where
  "r20_fixed s \<longleftrightarrow> levels_ok (r20_levels s) \<and> table_for MAIN_COUNT (r20_main s) \<and>
     table_for OFFSET_COUNT (r20_offsets s) \<and> table_for LENGTH_COUNT (r20_lengths s) \<and>
     length (audio_tables s) = MAX_CHANNELS \<and> (\<forall>h\<in>set (audio_tables s). table_for AUDIO_COUNT h) \<and>
     r20_channels s \<le> MAX_CHANNELS \<and> cur_channel s < r20_channels s \<and>
     length (r20_audio s) = MAX_CHANNELS \<and> (\<forall>a\<in>set (r20_audio s). audio_ok a) \<and> \<bar>channel_delta s\<bar> \<le> 128 \<and>
     length (old_offsets s) = 4 \<and> (\<forall>d\<in>set (old_offsets s). d \<le> MAX_HISTORY) \<and> r20_last_offset s \<le> MAX_HISTORY"

definition hist_ok :: "history \<Rightarrow> byte list \<Rightarrow> bool" where
  "hist_ok h S \<longleftrightarrow> history_holds h S \<and> hist_limit h = MAX_HISTORY \<and>
     (case pending_match h of None \<Rightarrow> True | Some (n, d) \<Rightarrow> d \<le> MAX_HISTORY)"

definition r20_ok :: "rar20_decoder \<Rightarrow> byte list \<Rightarrow> bool" where
  "r20_ok s S \<longleftrightarrow> r20_fixed s \<and> hist_ok (r20_history s) S"

abbreviation bits_left :: "rar20_decoder \<Rightarrow> nat" where
  "bits_left s \<equiv> lz_bits_left (r20_bits s)"

lemma r20_fixed_simps [simp]:
  "r20_fixed (s\<lparr>r20_bits := b\<rparr>) = r20_fixed s" "r20_fixed (s\<lparr>r20_history := h\<rparr>) = r20_fixed s"
  "r20_fixed (s\<lparr>in_block := i\<rparr>) = r20_fixed s" "r20_fixed (s\<lparr>r20_last_length := n\<rparr>) = r20_fixed s"
  "r20_fixed (s\<lparr>audio_block := a\<rparr>) = r20_fixed s"
  by (simp_all add: r20_fixed_def)

lemma new_decoder_ok: "r20_ok rar20_decoder_new []"
  by (auto simp: r20_ok_def r20_fixed_def rar20_decoder_new_def hist_ok_def history_new_holds levels_ok_def
      history_new_def empty_table MAX_CHANNELS_def audio_ok_def audio_default_def)
    (simp add: history_holds_def)

lemma on_bits_yields:
  assumes "yields (\<lambda>(a, r). Q a r) (f (r20_bits s))"
  shows "yields (\<lambda>(a, s'). \<exists>r. s' = s\<lparr>r20_bits := r\<rparr> \<and> Q a r) (on_bits f s)"
  unfolding on_bits_def by (rule yields_bind [OF assms]) auto

text \<open>
  \<open>later s s'\<close>: table reading keeps the invariant and touches neither the history nor more
  input than there is.
\<close>

definition later :: "rar20_decoder \<Rightarrow> rar20_decoder \<Rightarrow> bool" where
  "later s s' \<longleftrightarrow> r20_fixed s' \<and> r20_history s' = r20_history s \<and> bits_left s' < bits_left s"

lemma table_header_yields:
  assumes "r20_fixed s"
  shows "yields (\<lambda>(n, s'). later s s' \<and>
      n = (if audio_block s' then AUDIO_COUNT * r20_channels s' else TABLE_COUNT)) (table_header s)"
proof -
  have peek: "yields (\<lambda>_. 16 \<le> bits_left s) (lz_peek_bits 16 (r20_bits s))"
    by (simp add: lz_peek_bits_value r20_errors_def)
  have read: "yields (\<lambda>(v, s'). \<exists>r. s' = s1\<lparr>r20_bits := r\<rparr> \<and> 2 + lz_bits_left r = bits_left s1)
      (on_bits (lz_read_bits 2) s1)" for s1
    by (rule yields_mono [OF on_bits_yields [OF read_yields]]) auto
  have levels: "r20_fixed s1 \<Longrightarrow> r20_fixed (s1\<lparr>r20_levels := replicate OLD_LEVEL_COUNT 0\<rparr>)" for s1
    by (auto simp: r20_fixed_def levels_ok_def)
  have ch: "unat (drop_bit 12 w AND 3 :: u32) \<le> 3" for w
    using word_and_le1 [of "drop_bit 12 w" "3 :: u32"] by (simp add: word_le_nat_alt)
  let ?Q = "\<lambda>(n, s'). later s s' \<and> n = (if audio_block s' then AUDIO_COUNT * r20_channels s' else TABLE_COUNT)"
  have channels: "yields ?Q
      (if audio_block s1 then
         let s = s1\<lparr>r20_channels := unat (drop_bit 12 w AND 3 :: u32) + 1\<rparr>;
             s = (if r20_channels s \<le> cur_channel s then s\<lparr>cur_channel := 0\<rparr> else s) in
         rbind (on_bits (lz_read_bits 2) s) (\<lambda>(_, s). Inr (AUDIO_COUNT * r20_channels s, s))
       else Inr (TABLE_COUNT, s1))"
    if s1: "later s s1" for s1 w
  proof (cases "audio_block s1")
    case True
    define s2 where "s2 = s1\<lparr>r20_channels := unat (drop_bit 12 w AND 3 :: u32) + 1\<rparr>"
    define s3 where "s3 = (if r20_channels s2 \<le> cur_channel s2 then s2\<lparr>cur_channel := 0\<rparr> else s2)"
    have "later s s3" "audio_block s3"
      using s1 ch [of w] True by (auto simp: later_def s3_def s2_def r20_fixed_def MAX_CHANNELS_def)
    then have "yields ?Q (rbind (on_bits (lz_read_bits 2) s3) (\<lambda>(_, s). Inr (AUDIO_COUNT * r20_channels s, s)))"
      by (intro yields_bind [OF read]) (auto simp: later_def)
    then show ?thesis unfolding Let_def s3_def s2_def by (simp only: True if_True)
  next
    case False
    then show ?thesis using s1 by simp
  qed
  show ?thesis
    unfolding table_header_def Let_def
  proof (rule yields_bind [OF peek], rule yields_bind [OF read])
    fix w :: u32 and a assume left: "16 \<le> bits_left s"
      and a: "case a of (v :: u32, s') \<Rightarrow> \<exists>r. s' = s\<lparr>audio_block := w AND 0x8000 \<noteq> 0, r20_bits := r\<rparr> \<and>
        2 + lz_bits_left r = bits_left (s\<lparr>audio_block := w AND 0x8000 \<noteq> 0\<rparr>)"
    then obtain v r where r: "a = (v, s\<lparr>audio_block := w AND 0x8000 \<noteq> 0, r20_bits := r\<rparr>)"
      "2 + lz_bits_left r = bits_left s" by (cases a) auto
    define s1 where "s1 = (if w AND 0x4000 \<noteq> 0 then snd a else (snd a)\<lparr>r20_levels := replicate OLD_LEVEL_COUNT 0\<rparr>)"
    have "later s s1" using r assms levels by (auto simp: s1_def later_def)
    from channels [OF this, of w]
    show "yields ?Q (case a of (_, s) \<Rightarrow>
        if audio_block (if w AND 0x4000 \<noteq> 0 then s else s\<lparr>r20_levels := replicate OLD_LEVEL_COUNT 0\<rparr>)
        then rbind (on_bits (lz_read_bits 2)
              (if r20_channels ((if w AND 0x4000 \<noteq> 0 then s else s\<lparr>r20_levels := replicate OLD_LEVEL_COUNT 0\<rparr>)
                    \<lparr>r20_channels := unat (drop_bit 12 w AND 3) + 1\<rparr>)
                 \<le> cur_channel ((if w AND 0x4000 \<noteq> 0 then s else s\<lparr>r20_levels := replicate OLD_LEVEL_COUNT 0\<rparr>)
                    \<lparr>r20_channels := unat (drop_bit 12 w AND 3) + 1\<rparr>)
               then (if w AND 0x4000 \<noteq> 0 then s else s\<lparr>r20_levels := replicate OLD_LEVEL_COUNT 0\<rparr>)
                    \<lparr>r20_channels := unat (drop_bit 12 w AND 3) + 1, cur_channel := 0\<rparr>
               else (if w AND 0x4000 \<noteq> 0 then s else s\<lparr>r20_levels := replicate OLD_LEVEL_COUNT 0\<rparr>)
                    \<lparr>r20_channels := unat (drop_bit 12 w AND 3) + 1\<rparr>))
              (\<lambda>(_, s). Inr (AUDIO_COUNT * r20_channels s, s))
        else Inr (TABLE_COUNT, if w AND 0x4000 \<noteq> 0 then s else s\<lparr>r20_levels := replicate OLD_LEVEL_COUNT 0\<rparr>))"
      unfolding Let_def s1_def by (simp add: split_def)
  qed
qed

lemma levels_slice: "levels_ok l \<Longrightarrow> \<forall>x\<in>set (take n (drop k l)). x \<le> 15"
  by (auto simp: levels_ok_def dest: in_set_takeD in_set_dropD)

lemma channel_tables_yields:
  assumes "levels_ok l" "set cs \<subseteq> {..<MAX_CHANNELS}" "length ts = MAX_CHANNELS" "\<forall>h\<in>set ts. table_for AUDIO_COUNT h"
  shows "yields (\<lambda>ts'. length ts' = MAX_CHANNELS \<and> (\<forall>h\<in>set ts'. table_for AUDIO_COUNT h)) (channel_tables l cs ts)"
  using assms(2-)
proof (induction cs arbitrary: ts)
  case (Cons c cs)
  have "c < 4" using Cons.prems(1) by (simp add: MAX_CHANNELS_def)
  then have "length (take AUDIO_COUNT (drop (c * AUDIO_COUNT) l)) = AUDIO_COUNT"
    using assms(1) by (simp add: levels_ok_def OLD_LEVEL_COUNT_def AUDIO_COUNT_def MAX_CHANNELS_def)
  from from_lengths_yields [OF this _ levels_slice [OF assms(1)]]
  show ?case unfolding channel_tables.simps
  proof (rule yields_bind)
    fix h assume h: "table_for AUDIO_COUNT h"
    show "yields (\<lambda>ts'. length ts' = MAX_CHANNELS \<and> (\<forall>h\<in>set ts'. table_for AUDIO_COUNT h))
        (channel_tables l cs (ts[c := h]))"
      using Cons.prems h set_update_subset_insert [of ts c h] by (intro Cons.IH) auto
  qed (simp add: AUDIO_COUNT_def)
qed simp

lemma build_tables_yields:
  assumes "r20_fixed s"
  shows "yields (\<lambda>s'. r20_fixed s' \<and> r20_history s' = r20_history s \<and> r20_bits s' = r20_bits s) (build_tables s)"
proof (cases "audio_block s")
  case True
  have "set [0..<r20_channels s] \<subseteq> {..<MAX_CHANNELS}" using assms by (auto simp: r20_fixed_def)
  then have "yields (\<lambda>ts'. length ts' = MAX_CHANNELS \<and> (\<forall>h\<in>set ts'. table_for AUDIO_COUNT h))
      (channel_tables (r20_levels s) [0..<r20_channels s] (audio_tables s))"
    using assms by (intro channel_tables_yields) (auto simp: r20_fixed_def)
  then show ?thesis
    using True assms by (auto simp: build_tables_def Let_def r20_fixed_def elim!: yields_bind)
next
  case False
  have l: "levels_ok (r20_levels s)" using assms by (simp add: r20_fixed_def)
  have part: "yields (table_for n) (huffman_from_lengths (take n (drop k (r20_levels s))))"
    if "n + k \<le> 500" for n k
    using l that by (intro from_lengths_yields levels_slice)
      (auto simp: levels_ok_def OLD_LEVEL_COUNT_def AUDIO_COUNT_def MAX_CHANNELS_def)
  have le: "MAIN_COUNT + 0 \<le> 500" "OFFSET_COUNT + MAIN_COUNT \<le> 500" "LENGTH_COUNT + (MAIN_COUNT + OFFSET_COUNT) \<le> 500"
    by (simp_all add: MAIN_COUNT_def OFFSET_COUNT_def LENGTH_COUNT_def)
  have main: "yields (table_for MAIN_COUNT) (huffman_from_lengths (take MAIN_COUNT (r20_levels s)))"
    using part [OF le(1)] by simp
  show ?thesis
    using False assms unfolding build_tables_def Let_def
    by (simp, intro yields_bind [OF main] yields_bind [OF part [OF le(2)]] yields_bind [OF part [OF le(3)]])
      (simp add: r20_fixed_def)
qed

lemma read_tables_returns:
  assumes "r20_fixed s"
  shows "returns (later s) (rar20_read_tables s)"
proof -
  let ?n = "\<lambda>s'. if audio_block s' then AUDIO_COUNT * r20_channels s' else TABLE_COUNT"
  let ?start = "rbind (table_header s) (\<lambda>(table_size, s). rbind (on_bits read_level_lengths s) (\<lambda>(level_lengths, s).
       rbind (huffman_from_lengths level_lengths) (\<lambda>level_decoder. Inr (table_size, level_decoder, s))))"
  have start: "yields (\<lambda>(n, h, s'). later s s' \<and> n = ?n s' \<and> table_for LEVEL_COUNT h) ?start"
  proof (rule yields_bind [OF table_header_yields [OF assms]], clarify)
    fix n s1 assume s1: "later s s1"
    show "yields (\<lambda>(n, h, s'). later s s' \<and> n = ?n s' \<and> table_for LEVEL_COUNT h)
      (rbind (on_bits read_level_lengths s1) (\<lambda>(level_lengths, s').
         rbind (huffman_from_lengths level_lengths) (\<lambda>level_decoder. Inr (?n s1, level_decoder, s'))))"
      unfolding read_level_lengths_def
    proof (rule yields_bind [OF on_bits_yields [OF nibbles_yields]], clarify)
      fix lens :: "byte list" and r assume l: "\<forall>x\<in>set lens. x \<le> 15" "length lens = LEVEL_COUNT" "lz_bits_left r \<le> bits_left s1"
      have "yields (table_for LEVEL_COUNT) (huffman_from_lengths lens)"
        using l by (intro from_lengths_yields) (auto simp: LEVEL_COUNT_def)
      then show "yields (\<lambda>(n, h, s'). later s s' \<and> n = ?n s' \<and> table_for LEVEL_COUNT h)
         (rbind (huffman_from_lengths lens) (\<lambda>level_decoder. Inr (?n s1, level_decoder, s1\<lparr>r20_bits := r\<rparr>)))"
        using s1 l by (elim yields_bind) (simp add: later_def)
    qed
  qed
  show ?thesis
  proof (cases ?start)
    case (Inl e)
    then show ?thesis using start unfolding rar20_read_tables_def by simp
  next
    case (Inr res)
    obtain n h s1 where res: "res = (n, h, s1)" by (cases res)
    have s1: "later s s1" "n = ?n s1" "table_for LEVEL_COUNT h" using start Inr res by auto
    have l: "levels_ok (r20_levels s1)" "r20_channels s1 \<le> 4"
      using s1(1) by (auto simp: later_def r20_fixed_def MAX_CHANNELS_def)
    have n: "n \<le> OLD_LEVEL_COUNT"
      using s1(2) l(2) by (simp add: OLD_LEVEL_COUNT_def MAX_CHANNELS_def AUDIO_COUNT_def TABLE_COUNT_def
          MAIN_COUNT_def OFFSET_COUNT_def LENGTH_COUNT_def)
    have "returns (later s) (map_option (\<lambda>res. rbind res (\<lambda>(new_levels, r).
        build_tables (s1\<lparr>r20_bits := r, r20_levels := new_levels\<rparr>)))
        (level_loop (r20_levels s1) h n (r20_levels s1, 0, r20_bits s1)))"
    proof (rule returns_bind [OF level_loop_returns [OF l(1) s1(3) n l(1) le0]], clarify)
      fix ls r assume r: "levels_ok ls" "lz_bits_left r \<le> bits_left s1"
      have "r20_fixed (s1\<lparr>r20_bits := r, r20_levels := ls\<rparr>)" using s1(1) r(1) by (simp add: later_def r20_fixed_def)
      from yields_mono [OF build_tables_yields [OF this]]
      show "yields (later s) (build_tables (s1\<lparr>r20_bits := r, r20_levels := ls\<rparr>))"
        using s1(1) r(2) by (simp add: later_def)
    qed
    then show ?thesis unfolding rar20_read_tables_def Inr res by simp
  qed
qed

section \<open>Copies\<close>

text \<open>
  \<open>reaches target S base s\<close>: the decoder is in order, its history holds \<open>S\<close>
  continued to at most \<open>target\<close> bytes, and nothing has been trimmed.
\<close>

definition reaches :: "nat \<Rightarrow> byte list \<Rightarrow> nat \<Rightarrow> rar20_decoder \<Rightarrow> bool" where
  "reaches target S base s \<longleftrightarrow> r20_fixed s \<and> base_offset (r20_history s) = base \<and>
     (\<exists>ys. hist_ok (r20_history s) (S @ ys) \<and> length (S @ ys) \<le> target)"

lemma copy_loop_base: "copy_loop n d b out h = Inr h' \<Longrightarrow> base_offset h' = base_offset h"
proof (induction n d b out h rule: copy_loop.induct)
  case (2 n offset before_window output_size h)
  then show ?case by (auto simp: result_simps split: if_splits)
qed simp

lemma legacy_extend_extends: "\<exists>ys. legacy_extend n d S = S @ ys \<and> length ys = n"
proof (cases "length S < d")
  case False
  have "lz_extend n d S = S @ drop (length S) (lz_extend n d S)"
    using append_take_drop_id [of "length S" "lz_extend n d S"] by simp
  then show ?thesis using False by (auto simp: legacy_extend_def intro!: exI [of _ "drop (length S) (lz_extend n d S)"])
qed (simp add: legacy_extend_def)

lemma copy_match_ok:
  assumes "hist_ok h S" "d \<le> MAX_HISTORY" "length S \<le> target"
  shows "\<exists>h' ys. history_copy_match n d target h = Inr h' \<and> hist_ok h' (S @ ys) \<and>
    base_offset h' = base_offset h \<and> length (S @ ys) \<le> target"
proof -
  define e where "e = (if d = 0 then 1 else d)"
  have e: "0 < e" "e \<le> MAX_HISTORY" "history_copy_match n d target h = history_copy_match n e target h"
    using assms(2) by (auto simp: e_def history_copy_match_def MAX_HISTORY_def)
  have h: "history_holds h S" "hist_limit h = MAX_HISTORY" using assms(1) by (simp_all add: hist_ok_def)
  obtain h' where h': "history_copy_match n e target h = Inr h'"
      "history_holds h' (legacy_extend (copied n target S) e S)" "hist_limit h' = hist_limit h"
      "pending_match h' = (if n = copied n target S then pending_match h else Some (n - copied n target S, e))"
    using copy_match_holds [OF h(1) e(1), of n target] e(2) h(2) by auto
  obtain ys where ys: "legacy_extend (copied n target S) e S = S @ ys" "length ys = copied n target S"
    using legacy_extend_extends by blast
  have "base_offset h' = base_offset h"
    using copy_loop_base h'(1) by (auto simp: history_copy_match_def Let_def)
  moreover have "hist_ok h' (S @ ys)"
    using h' ys h assms(1) e(2) by (auto simp: hist_ok_def)
  moreover have "length (S @ ys) \<le> target" using assms(3) ys(2) by (simp add: copied_def)
  ultimately show ?thesis using h'(1) e(3) by auto
qed

lemma hist_ok_pos: "hist_ok h S \<Longrightarrow> current_pos h = length S"
  by (simp add: hist_ok_def current_pos_holds)

lemma drain_ok:
  assumes "hist_ok h S" "length S \<le> target"
  shows "\<exists>h' ys. drain_pending_match target h = Inr h' \<and> hist_ok h' (S @ ys) \<and>
    base_offset h' = base_offset h \<and> length (S @ ys) \<le> target"
proof (cases "pending_match h")
  case None
  then show ?thesis using assms by (auto simp: drain_pending_match_def intro!: exI [of _ "[]"])
next
  case (Some p)
  obtain n d where p: "p = (n, d)" by (cases p)
  have "hist_ok (h\<lparr>pending_match := None\<rparr>) S" "d \<le> MAX_HISTORY" using assms(1) Some p by (auto simp: hist_ok_def)
  from copy_match_ok [OF this assms(2), of n] Some p show ?thesis by (simp add: drain_pending_match_def)
qed

lemma push_reaches:
  assumes "reaches target S base s" "current_pos (r20_history s) < target"
  shows "reaches target S base (s\<lparr>r20_history := history_push b (r20_history s)\<rparr>)"
proof -
  obtain ys where ys: "hist_ok (r20_history s) (S @ ys)" using assms(1) by (auto simp: reaches_def)
  have "hist_ok (history_push b (r20_history s)) (S @ (ys @ [b]))"
    using ys push_holds [of "r20_history s" "S @ ys" b] by (simp add: hist_ok_def)
  moreover have "length (S @ (ys @ [b])) \<le> target" using assms(2) hist_ok_pos [OF ys] by simp
  ultimately show ?thesis
    using assms(1) unfolding reaches_def by (auto simp del: append_assoc intro!: exI [of _ "ys @ [b]"])
qed

lemma reaches_cong:
  "r20_fixed s' \<Longrightarrow> r20_history s' = r20_history s \<Longrightarrow> reaches target S base s \<Longrightarrow> reaches target S base s'"
  by (simp add: reaches_def)

lemma copy_yields:
  assumes "reaches target S base s" "d \<le> MAX_HISTORY"
  shows "yields (\<lambda>s'. reaches target S base s' \<and> bits_left s' = bits_left s) (copy_to_history n d target s)"
proof -
  obtain ys where ys: "hist_ok (r20_history s) (S @ ys)" "length (S @ ys) \<le> target"
    using assms(1) by (auto simp: reaches_def)
  from copy_match_ok [OF ys(1) assms(2) ys(2), of n] obtain h zs where
    "history_copy_match n d target (r20_history s) = Inr h" "hist_ok h (S @ (ys @ zs))"
    "base_offset h = base_offset (r20_history s)" "length (S @ (ys @ zs)) \<le> target" by auto
  then show ?thesis using assms(1) unfolding copy_to_history_def reaches_def by auto
qed

section \<open>Symbols\<close>

lemma push_old_offset_ok:
  assumes "length ds = 4" "\<forall>x\<in>set ds. x \<le> n" "d \<le> n"
  shows "length (push_old_offset ds d) = 4 \<and> (\<forall>x\<in>set (push_old_offset ds d). x \<le> n)"
proof -
  from assms(1) obtain a b c e where "ds = [a, b, c, e]" by (auto simp: length_Suc_conv eval_nat_numeral)
  then show ?thesis using assms by (auto simp: push_old_offset_def)
qed

lemma match_yields:
  assumes "reaches target S base s" "d \<le> MAX_HISTORY"
  shows "yields (\<lambda>s'. reaches target S base s' \<and> bits_left s' = bits_left s) (match_symbol n d target s)"
proof -
  have "reaches target S base (s\<lparr>old_offsets := push_old_offset (old_offsets s) d, r20_last_offset := d, r20_last_length := n\<rparr>)"
    using assms push_old_offset_ok [of "old_offsets s" MAX_HISTORY d] by (auto simp: reaches_def r20_fixed_def)
  from copy_yields [OF this assms(2), of n] show ?thesis by (simp add: match_symbol_def)
qed

lemma read_extra_yields:
  assumes "n \<le> 16" "reaches target S base s"
  shows "yields (\<lambda>(v, s'). v < 2 ^ n \<and> (\<exists>r. s' = s\<lparr>r20_bits := r\<rparr>) \<and> reaches target S base s' \<and> bits_left s' \<le> bits_left s)
    (read_extra n s)"
proof (cases "n = 0")
  case True
  have "s = s\<lparr>r20_bits := r20_bits s\<rparr>" by simp
  then show ?thesis using assms True by (auto simp: read_extra_def intro!: exI [of _ "r20_bits s"])
next
  case False
  have "yields (\<lambda>(v, s'). \<exists>r. s' = s\<lparr>r20_bits := r\<rparr> \<and> unat v < 2 ^ n \<and> n + lz_bits_left r = bits_left s)
      (on_bits (lz_read_bits n) s)"
    using on_bits_yields [OF read_yields [of n]] assms(1) by simp
  then show ?thesis
    using False assms by (auto simp: read_extra_def reaches_def elim!: yields_bind)
qed

text \<open>
  A pass that has read at least one bit: \<open>stepped\<close> adds it to \<open>reaches\<close>.
\<close>

definition stepped :: "nat \<Rightarrow> byte list \<Rightarrow> nat \<Rightarrow> rar20_decoder \<Rightarrow> rar20_decoder \<Rightarrow> bool" where
  "stepped target S base s s' \<longleftrightarrow> reaches target S base s' \<and> bits_left s' < bits_left s"

lemma table_entries_small:
  "slot < LENGTH_COUNT \<Longrightarrow> LENGTH_BITS ! slot \<le> 16" "slot < OFFSET_COUNT \<Longrightarrow> OFFSET_BITS ! slot \<le> 16"
  "slot < 8 \<Longrightarrow> SHORT_BITS ! slot \<le> 16"
proof -
  have small: "slot < length xs \<Longrightarrow> list_all (\<lambda>x. x \<le> 16) xs \<Longrightarrow> xs ! slot \<le> 16" for xs :: "nat list"
    by (simp add: list_all_length)
  show "slot < LENGTH_COUNT \<Longrightarrow> LENGTH_BITS ! slot \<le> 16"
    by (rule small) (simp_all add: LENGTH_BITS_def LENGTH_COUNT_def)
  show "slot < OFFSET_COUNT \<Longrightarrow> OFFSET_BITS ! slot \<le> 16"
    by (rule small) (simp_all add: OFFSET_BITS_def OFFSET_COUNT_def)
  show "slot < 8 \<Longrightarrow> SHORT_BITS ! slot \<le> 16" by (rule small) (simp_all add: SHORT_BITS_def)
qed

lemma offset_bounded:
  assumes "slot < OFFSET_COUNT" "extra < 2 ^ (OFFSET_BITS ! slot)"
  shows "Suc (OFFSET_BASES ! slot + extra) \<le> MAX_HISTORY"
proof -
  have "list_all2 (\<lambda>b n. b + 2 ^ n \<le> MAX_HISTORY) OFFSET_BASES OFFSET_BITS" "length OFFSET_BASES = OFFSET_COUNT"
    by (simp_all add: OFFSET_BASES_def OFFSET_BITS_def MAX_HISTORY_def OFFSET_COUNT_def)
  from list_all2_nthD [OF this(1), of slot] this(2) assms show ?thesis by simp
qed

lemma short_bounded:
  assumes "slot < 8" "extra < 2 ^ (SHORT_BITS ! slot)"
  shows "Suc (SHORT_BASES ! slot + extra) \<le> MAX_HISTORY"
proof -
  have "list_all2 (\<lambda>b n. b + 2 ^ n \<le> MAX_HISTORY) SHORT_BASES SHORT_BITS" "length SHORT_BASES = 8"
    by (simp_all add: SHORT_BASES_def SHORT_BITS_def MAX_HISTORY_def)
  from list_all2_nthD [OF this(1), of slot] this(2) assms show ?thesis by simp
qed

lemma decode_on_yields:
  assumes "table_for n h" "n < 65536" "reaches target S base s"
  shows "yields (\<lambda>(sym, s'). sym < n \<and> (\<exists>r. s' = s\<lparr>r20_bits := r\<rparr>) \<and> stepped target S base s s')
    (on_bits (huffman_decode h) s)"
  by (rule yields_mono [OF on_bits_yields [OF decode_yields [OF assms(1,2)]]])
    (use assms(3) in \<open>auto simp: stepped_def reaches_def\<close>)

lemma reaches_tables:
  assumes "reaches target S base s"
  shows "table_for MAIN_COUNT (r20_main s)" "table_for OFFSET_COUNT (r20_offsets s)" "table_for LENGTH_COUNT (r20_lengths s)"
    "table_for AUDIO_COUNT (audio_tables s ! cur_channel s)"
    "k < 4 \<Longrightarrow> old_offsets s ! k \<le> MAX_HISTORY" "r20_last_offset s \<le> MAX_HISTORY"
  using assms by (auto simp: reaches_def r20_fixed_def)

lemma table_counts_small: "MAIN_COUNT < 65536" "OFFSET_COUNT < 65536" "LENGTH_COUNT < 65536" "AUDIO_COUNT < 65536"
  by (simp_all add: MAIN_COUNT_def OFFSET_COUNT_def LENGTH_COUNT_def AUDIO_COUNT_def)

lemma match_stepped:
  assumes "stepped target S base s s1" "d \<le> MAX_HISTORY"
  shows "yields (stepped target S base s) (match_symbol n d target s1)"
  by (rule yields_mono [OF match_yields]) (use assms in \<open>auto simp: stepped_def\<close>)

lemma read_extra_stepped:
  assumes "stepped target S base s s1" "n \<le> 16"
  shows "yields (\<lambda>(v, s'). v < 2 ^ n \<and> (\<exists>r. s' = s1\<lparr>r20_bits := r\<rparr>) \<and> stepped target S base s s') (read_extra n s1)"
  by (rule yields_mono [OF read_extra_yields]) (use assms in \<open>auto simp: stepped_def\<close>)

lemma short_yields:
  assumes "stepped target S base s s1" "symbol \<in> {261..268}"
  shows "yields (stepped target S base s) (short_symbol symbol target s1)"
proof -
  have i: "symbol - 261 < 8" using assms(2) by auto
  show ?thesis unfolding short_symbol_def
    by (rule yields_bind [OF read_extra_stepped [OF assms(1) table_entries_small(3) [OF i]]])
      (auto intro!: match_stepped short_bounded [OF i])
qed

lemma old_offset_yields:
  assumes "stepped target S base s s1" "symbol \<in> {257..260}"
  shows "yields (stepped target S base s) (old_offset_symbol symbol target s1)"
proof -
  have r: "reaches target S base s1" using assms(1) by (simp add: stepped_def)
  have d: "old_offsets s1 ! (symbol - 257) \<le> MAX_HISTORY" using assms(2) by (intro reaches_tables(5) [OF r]) auto
  show ?thesis unfolding old_offset_symbol_def Let_def
  proof (rule yields_bind [OF decode_on_yields [OF reaches_tables(3) [OF r] table_counts_small(3) r]], clarify)
    fix slot b assume slot: "slot < LENGTH_COUNT" "stepped target S base s1 (s1\<lparr>r20_bits := b\<rparr>)"
    have st: "stepped target S base s (s1\<lparr>r20_bits := b\<rparr>)" using slot(2) assms(1) by (simp add: stepped_def)
    have nle: "\<not> LENGTH_COUNT \<le> slot" using slot(1) by simp
    show "yields (stepped target S base s)
        (if LENGTH_COUNT \<le> slot then Inl (Bad ''invalid repeat length slot'')
         else rbind (read_extra (LENGTH_BITS ! slot) (s1\<lparr>r20_bits := b\<rparr>)) (\<lambda>(extra, s).
           match_symbol
             (if 0x40000 \<le> old_offsets s1 ! (symbol - 257)
              then (if 0x2000 \<le> old_offsets s1 ! (symbol - 257)
                    then (if 0x101 \<le> old_offsets s1 ! (symbol - 257) then LENGTH_BASES ! slot + 2 + extra + 1
                          else LENGTH_BASES ! slot + 2 + extra) + 1
                    else if 0x101 \<le> old_offsets s1 ! (symbol - 257) then LENGTH_BASES ! slot + 2 + extra + 1
                         else LENGTH_BASES ! slot + 2 + extra) + 1
              else if 0x2000 \<le> old_offsets s1 ! (symbol - 257)
                   then (if 0x101 \<le> old_offsets s1 ! (symbol - 257) then LENGTH_BASES ! slot + 2 + extra + 1
                         else LENGTH_BASES ! slot + 2 + extra) + 1
                   else if 0x101 \<le> old_offsets s1 ! (symbol - 257) then LENGTH_BASES ! slot + 2 + extra + 1
                        else LENGTH_BASES ! slot + 2 + extra)
             (old_offsets s1 ! (symbol - 257)) target s))"
      unfolding if_not_P [OF nle]
      by (rule yields_bind [OF read_extra_stepped [OF st table_entries_small(1) [OF slot(1)]]], clarify)
        (rule match_stepped [OF _ d])
  qed
qed

lemma read_offset_yields:
  assumes "stepped target S base s s1"
  shows "yields (\<lambda>(d, s'). d \<le> MAX_HISTORY \<and> stepped target S base s s') (read_offset s1)"
proof -
  have r: "reaches target S base s1" using assms(1) by (simp add: stepped_def)
  show ?thesis unfolding read_offset_def
  proof (rule yields_bind [OF decode_on_yields [OF reaches_tables(2) [OF r] table_counts_small(2) r]], clarify)
    fix slot b assume slot: "slot < OFFSET_COUNT" "stepped target S base s1 (s1\<lparr>r20_bits := b\<rparr>)"
    have st: "stepped target S base s (s1\<lparr>r20_bits := b\<rparr>)" using slot(2) assms(1) by (simp add: stepped_def)
    have nle: "\<not> OFFSET_COUNT \<le> slot" using slot(1) by simp
    show "yields (\<lambda>(d, s'). d \<le> MAX_HISTORY \<and> stepped target S base s s')
       (if OFFSET_COUNT \<le> slot then Inl (Bad ''invalid offset slot'')
        else rbind (read_extra (OFFSET_BITS ! slot) (s1\<lparr>r20_bits := b\<rparr>)) (\<lambda>(extra, s).
          Inr (OFFSET_BASES ! slot + 1 + extra, s)))"
      unfolding if_not_P [OF nle]
      by (rule yields_bind [OF read_extra_stepped [OF st table_entries_small(2) [OF slot(1)]]])
        (auto dest: offset_bounded [OF slot(1)])
  qed
qed

lemma long_yields:
  assumes "stepped target S base s s1" "symbol \<in> {270..297}"
  shows "yields (stepped target S base s) (long_symbol symbol target s1)"
proof -
  have i: "symbol - 270 < LENGTH_COUNT" using assms(2) by (auto simp: LENGTH_COUNT_def)
  show ?thesis unfolding long_symbol_def Let_def
    by (rule yields_bind [OF read_extra_stepped [OF assms(1) table_entries_small(1) [OF i]]], clarify,
        rule yields_bind [OF read_offset_yields], assumption, clarify, erule (1) match_stepped)
qed

lemma audio_yields:
  assumes "reaches target S base s" "current_pos (r20_history s) < target"
  shows "yields (stepped target S base s) (decode_audio_byte s)"
  unfolding decode_audio_byte_def
proof (rule yields_bind [OF decode_on_yields [OF reaches_tables(4) [OF assms(1)] table_counts_small(4) assms(1)]], clarify)
  fix symbol b assume sy: "symbol < AUDIO_COUNT" "stepped target S base s (s\<lparr>r20_bits := b\<rparr>)"
  let ?s = "s\<lparr>r20_bits := b\<rparr>"
  obtain byte s1 where s1: "decode_audio (word_of_nat symbol) ?s = (byte, s1)" by (cases "decode_audio (word_of_nat symbol) ?s")
  have cur: "cur_channel s < length (r20_audio s)" using assms(1) by (auto simp: reaches_def r20_fixed_def)
  then have st: "audio_ok (r20_audio s ! cur_channel s)" "\<bar>channel_delta s\<bar> \<le> 128"
    using assms(1) by (auto simp: reaches_def r20_fixed_def)
  have fixed: "r20_fixed s1 \<and> r20_history s1 = r20_history s \<and> r20_bits s1 = b"
  proof -
    obtain st' chan' where a: "audio_step (word_of_nat symbol) (r20_audio s ! cur_channel s) (channel_delta s) = (byte, st', chan')"
      and s1': "s1 = ?s\<lparr>r20_audio := (r20_audio s)[cur_channel s := st'], channel_delta := chan'\<rparr>"
      using s1 by (auto simp: decode_audio_def split: prod.splits)
    have "audio_ok st' \<and> - 128 \<le> chan' \<and> chan' \<le> 127" using audio_step_ok [OF st(1) a] .
    then show ?thesis
      using assms(1) set_update_subset_insert [of "r20_audio s" "cur_channel s" st']
      unfolding s1' reaches_def r20_fixed_def by (auto simp: abs_le_iff)
  qed
  have "reaches target S base s1" using fixed assms(1) by (auto intro: reaches_cong)
  then have pushed: "reaches target S base (s1\<lparr>r20_history := history_push byte (r20_history s1)\<rparr>)"
    by (rule push_reaches) (use fixed assms(2) in simp)
  have next_channel: "r20_fixed (let s' = s2\<lparr>cur_channel := cur_channel s2 + 1\<rparr> in
      if cur_channel s' = r20_channels s' then s'\<lparr>cur_channel := 0\<rparr> else s')" if "r20_fixed s2" for s2
    using that by (auto simp: r20_fixed_def Let_def)
  define s2 where "s2 = s1\<lparr>r20_history := history_push byte (r20_history s1)\<rparr>"
  define s3 where "s3 = (let s' = s2\<lparr>cur_channel := cur_channel s2 + 1\<rparr> in
      if cur_channel s' = r20_channels s' then s'\<lparr>cur_channel := 0\<rparr> else s')"
  have "r20_history s3 = r20_history s2" "r20_bits s3 = b" using fixed by (auto simp: s3_def s2_def Let_def)
  moreover have "r20_fixed s3" unfolding s3_def using pushed by (intro next_channel) (simp add: s2_def reaches_def)
  ultimately have "stepped target S base s s3"
    using pushed sy(2) by (simp add: stepped_def s2_def reaches_def)
  moreover have "stepped target S base s (?s\<lparr>in_block := False\<rparr>)" using sy(2) by (simp add: stepped_def reaches_def)
  moreover have "\<not> 256 < symbol" using sy(1) by (simp add: AUDIO_COUNT_def)
  ultimately show "yields (stepped target S base s)
     (if symbol = 256 then Inr (?s\<lparr>in_block := False\<rparr>)
      else if 256 < symbol then Inl (Bad ''invalid audio symbol'')
      else let (byte, s) = decode_audio (word_of_nat symbol) ?s;
               s = s\<lparr>r20_history := history_push byte (r20_history s), cur_channel := cur_channel s + 1\<rparr> in
        Inr (if cur_channel s = r20_channels s then s\<lparr>cur_channel := 0\<rparr> else s))"
    unfolding s1 by (simp add: s3_def s2_def Let_def)
qed

section \<open>The loops end\<close>

lemma lz_step_yields:
  assumes "reaches target S base s" "current_pos (r20_history s) < target"
  shows "yields (\<lambda>(c, s'). stepped target S base s s') (lz_step target s)"
proof (cases "audio_block s")
  case True
  then show ?thesis unfolding lz_step_def
    by (simp, intro yields_bind [OF audio_yields [OF assms]]) simp
next
  case False
  let ?body = "\<lambda>symbol s. if symbol < 256 then
            Inr (True, s\<lparr>r20_history := history_push (word_of_nat symbol) (r20_history s)\<rparr>)
          else if symbol = 256 then
            if r20_last_length s \<noteq> 0 then
              rbind (copy_to_history (r20_last_length s) (r20_last_offset s) target
                  (s\<lparr>old_offsets := push_old_offset (old_offsets s) (r20_last_offset s)\<rparr>)) (\<lambda>s. Inr (True, s))
            else Inr (True, s)
          else if symbol \<le> 260 then rbind (old_offset_symbol symbol target s) (\<lambda>s. Inr (True, s))
          else if symbol \<le> 268 then rbind (short_symbol symbol target s) (\<lambda>s. Inr (True, s))
          else if symbol = 269 then Inr (False, s\<lparr>in_block := False\<rparr>)
          else if symbol \<le> 297 then rbind (long_symbol symbol target s) (\<lambda>s. Inr (True, s))
          else Inl (Bad ''invalid main symbol'')"
  have "yields (\<lambda>(c, s'). stepped target S base s s') (?body symbol s1)"
    if sy: "symbol < MAIN_COUNT" and s1: "stepped target S base s s1" "r20_history s1 = r20_history s" for symbol s1
  proof -
    have r: "reaches target S base s1" using s1 by (simp add: stepped_def)
    consider "symbol < 256" | "symbol = 256" | "symbol \<in> {257..260}" | "symbol \<in> {261..268}" | "symbol = 269"
      | "symbol \<in> {270..297}" using sy unfolding MAIN_COUNT_def atLeastAtMost_iff by linarith
    then show ?thesis
    proof cases
      case 1
      then show ?thesis using push_reaches [OF r] s1 assms(2) by (simp add: stepped_def)
    next
      case 2
      have "reaches target S base (s1\<lparr>old_offsets := push_old_offset (old_offsets s1) (r20_last_offset s1)\<rparr>)"
        using r push_old_offset_ok [of "old_offsets s1" MAX_HISTORY "r20_last_offset s1"]
        by (auto simp: reaches_def r20_fixed_def)
      from copy_yields [OF this reaches_tables(6) [OF r], of "r20_last_length s1"]
      show ?thesis using 2 s1 by (auto simp: stepped_def elim!: yields_bind)
    next
      case 3
      then show ?thesis by (auto intro!: yields_bind [OF old_offset_yields [OF s1(1) 3]])
    next
      case 4
      then show ?thesis by (auto intro!: yields_bind [OF short_yields [OF s1(1) 4]])
    next
      case 5
      then show ?thesis using s1 by (simp add: stepped_def reaches_def)
    next
      case 6
      then show ?thesis by (auto intro!: yields_bind [OF long_yields [OF s1(1) 6]])
    qed
  qed
  then show ?thesis
    unfolding lz_step_def if_not_P [OF False]
    by (intro yields_bind [OF decode_on_yields [OF reaches_tables(1) [OF assms(1)] table_counts_small(1) assms(1)]])
      (clarify, simp only: prod.case, fastforce)
qed

lemma decode_lz_returns:
  assumes "reaches target S base s"
  shows "returns (\<lambda>s'. reaches target S base s' \<and> bits_left s' \<le> bits_left s \<and>
     (current_pos (r20_history s) < target \<longrightarrow> bits_left s' < bits_left s)) (rar20_decode_lz target s)"
  using assms
proof (induction "bits_left s" arbitrary: s rule: less_induct)
  case less
  show ?case
  proof (cases "current_pos (r20_history s) < target")
    case False
    then show ?thesis using less.prems by (simp add: rar20_decode_lz.simps)
  next
    case True
    note step = lz_step_yields [OF less.prems True]
    show ?thesis
    proof (cases "lz_step target s")
      case (Inl e)
      then show ?thesis using step True by (subst rar20_decode_lz.simps) simp
    next
      case (Inr p)
      obtain c s' where p: "p = (c, s')" by (cases p)
      have s': "reaches target S base s'" "bits_left s' < bits_left s" using step Inr p by (auto simp: stepped_def)
      have "returns (\<lambda>s''. reaches target S base s'' \<and> bits_left s'' < bits_left s) (rar20_decode_lz target s')"
        by (rule returns_mono [OF less.hyps [OF s'(2,1)]]) (use s'(2) in auto)
      then show ?thesis using True Inr p s' by (subst rar20_decode_lz.simps) (auto elim: returns_mono)
    qed
  qed
qed

lemma enter_block_returns:
  assumes "reaches target S base s"
  shows "returns (\<lambda>s'. reaches target S base s' \<and> r20_history s' = r20_history s \<and> bits_left s' \<le> bits_left s) (enter_block s)"
proof (cases "in_block s")
  case False
  have "r20_fixed s" using assms by (simp add: reaches_def)
  from read_tables_returns [OF this]
  show ?thesis using False assms unfolding enter_block_def
    by (auto simp: later_def reaches_def elim!: returns_bind)
qed (use assms in \<open>simp add: enter_block_def\<close>)

lemma decode_until_returns:
  assumes "reaches target S base s"
  shows "returns (\<lambda>s'. reaches target S base s' \<and> target \<le> current_pos (r20_history s')) (rar20_decode_until target s)"
  using assms
proof (induction "bits_left s" arbitrary: s rule: less_induct)
  case less
  show ?case
  proof (cases "current_pos (r20_history s) < target")
    case False
    then show ?thesis using less.prems by (simp add: rar20_decode_until.simps)
  next
    case True
    obtain ys where ys: "hist_ok (r20_history s) (S @ ys)" "length (S @ ys) \<le> target"
      using less.prems by (auto simp: reaches_def)
    obtain h zs where h: "drain_pending_match target (r20_history s) = Inr h" "hist_ok h ((S @ ys) @ zs)"
        "base_offset h = base_offset (r20_history s)" "length ((S @ ys) @ zs) \<le> target"
      using drain_ok [OF ys] by blast
    let ?s = "s\<lparr>r20_history := h\<rparr>"
    have s1: "reaches target S base ?s" using less.prems h by (auto simp: reaches_def)
    show ?thesis
    proof (cases "target \<le> current_pos h")
      case reached: True
      then show ?thesis using True h(1) s1 by (subst rar20_decode_until.simps) (simp add: Let_def)
    next
      case False
      note block = enter_block_returns [OF s1]
      show ?thesis
      proof (cases "enter_block ?s")
        case None
        then show ?thesis using block by simp
      next
        case (Some res)
        show ?thesis
        proof (cases res)
          case (Inl e)
          then show ?thesis using True False h(1) Some block by (subst rar20_decode_until.simps) (simp add: Let_def)
        next
          case (Inr s2)
          have s2: "reaches target S base s2" "r20_history s2 = h" "bits_left s2 \<le> bits_left s"
            using block Some Inr by auto
          note lz = decode_lz_returns [OF s2(1)]
          show ?thesis
          proof (cases "rar20_decode_lz target s2")
            case None
            then show ?thesis using lz by simp
          next
            case res2: (Some res2)
            show ?thesis
            proof (cases res2)
              case (Inl e)
              then show ?thesis using True False h(1) Some Inr res2 lz
                by (subst rar20_decode_until.simps) (simp add: Let_def)
            next
              case Inr3: (Inr s3)
              have s3: "reaches target S base s3" "bits_left s3 < bits_left s"
                using lz res2 Inr3 s2 False by auto
              show ?thesis using True False h(1) Some Inr res2 Inr3 less.hyps [OF s3(2,1)]
                by (subst rar20_decode_until.simps) (simp add: Let_def)
            qed
          qed
        qed
      qed
    qed
  qed
qed

section \<open>Members\<close>

lemma last_tables_returns:
  assumes "r20_fixed s"
  shows "returns (\<lambda>s'. r20_fixed s' \<and> r20_history s' = r20_history s) (read_last_tables s)"
proof -
  have tables: "returns (\<lambda>s'. r20_fixed s' \<and> r20_history s' = r20_history s)
     (if huffman_is_empty h then Some (Inr s)
      else case on_bits (huffman_decode h) s of
          Inl e \<Rightarrow> Some (Inl e)
        | Inr (symbol, s) \<Rightarrow>
            if symbol = stop
            then map_option (\<lambda>res. rbind res (\<lambda>s. Inr (s\<lparr>in_block := True\<rparr>))) (rar20_read_tables s)
            else Some (Inr s))" if h: "table_for n h" "n < 65536" for h n and stop :: nat
  proof -
    have dec: "yields (\<lambda>(sym, s'). \<exists>r. s' = s\<lparr>r20_bits := r\<rparr>) (on_bits (huffman_decode h) s)"
      by (rule yields_mono [OF on_bits_yields [OF decode_yields [OF h]]]) auto
    have "returns (\<lambda>s'. r20_fixed s' \<and> r20_history s' = r20_history s)
       (map_option (\<lambda>res. rbind res (\<lambda>s. Inr (s\<lparr>in_block := True\<rparr>))) (rar20_read_tables (s\<lparr>r20_bits := r\<rparr>)))" for r
      using assms by (intro returns_bind [OF read_tables_returns]) (simp_all add: later_def)
    then show ?thesis using dec assms by (auto split: sum.split)
  qed
  have t: "table_for MAIN_COUNT (r20_main s)" "table_for AUDIO_COUNT (audio_tables s ! cur_channel s)"
    using assms by (auto simp: r20_fixed_def)
  show ?thesis
    using assms tables [OF t(1) table_counts_small(1), of 269] tables [OF t(2) table_counts_small(4), of 256]
    unfolding read_last_tables_def by (simp split: if_split)
qed

lemma reaches_start:
  assumes "r20_ok s S" "length S \<le> target"
  shows "reaches target S (base_offset (r20_history s)) (feed packed s)"
  using assms by (auto simp: r20_ok_def reaches_def feed_def Let_def intro!: exI [of _ "[]"])

lemma raw_range_ok:
  assumes "hist_ok h (S @ ys)" "base_offset h \<le> length S"
  shows "raw_range (length S) (length (S @ ys)) h = Inr ys"
  using assms by (auto simp: hist_ok_def history_holds_def raw_range_def Let_def)

lemma trim_ok: "hist_ok h S \<Longrightarrow> hist_ok (snd (history_trim n h)) S"
  using trim_holds [of h S n] by (auto simp: hist_ok_def history_trim_def Let_def)

lemma r20_ok_base: "r20_ok s S \<Longrightarrow> base_offset (r20_history s) \<le> length S"
  by (simp add: r20_ok_def hist_ok_def history_holds_def)

text \<open>C12: On any packed bytes, and from any state the decoder can be in, decoding a member ends.
  It fails only for lack of input, an empty or incomplete or oversubscribed Huffman table, a run at the
  start of the table, or a size past the range of positions: no table, ring or history index is out of
  range, and the messages about invalid symbols, slots and distances cannot occur. On success it
  returns exactly the bytes asked for, the history holds the stream continued by them, and the state is
  again in order for the next member of a solid chain.\<close>

theorem rar20_member_decodes:
  assumes "r20_ok s S"
  shows "\<exists>r. rar20_decode_member packed n s = Some r \<and>
    (case r of
       Inl e \<Rightarrow> e \<in> r20_errors \<or> e = Bad ''RAR 2.0 output size overflows'' \<and> 2 ^ 64 \<le> length S + n
     | Inr (out, s') \<Rightarrow> length out = n \<and> r20_ok s' (S @ out))"
proof -
  have pos: "current_pos (r20_history s) = length S" using assms by (simp add: r20_ok_def hist_ok_pos)
  show ?thesis
  proof (cases "2 ^ 64 \<le> length S + n")
    case True
    then show ?thesis by (simp add: rar20_decode_member_def Let_def pos)
  next
    case False
    let ?base = "base_offset (r20_history s)" and ?target = "length S + n"
    note until = decode_until_returns [OF reaches_start [OF assms, of ?target packed, simplified]]
    have last: "returns (\<lambda>(out, s'). length out = n \<and> r20_ok s' (S @ out))
        (map_option (\<lambda>res. rbind res (\<lambda>s. rbind (raw_range (length S) ?target (r20_history s)) (\<lambda>out.
           Inr (out, s\<lparr>r20_history := snd (history_trim ?target (r20_history s))\<rparr>)))) (read_last_tables s1))"
      if s1: "reaches ?target S ?base s1" "?target \<le> current_pos (r20_history s1)" for s1
    proof -
      obtain ys where ys: "hist_ok (r20_history s1) (S @ ys)" "length ys = n"
        using s1 hist_ok_pos by (fastforce simp: reaches_def)
      have base: "base_offset (r20_history s1) \<le> length S" "r20_fixed s1"
        using s1(1) r20_ok_base [OF assms] by (simp_all add: reaches_def)
      show ?thesis
        using raw_range_ok [OF ys(1) base(1)] ys trim_ok [OF ys(1), of ?target]
        by (intro returns_bind [OF last_tables_returns [OF base(2)]]) (simp add: r20_ok_def)
    qed
    show ?thesis
    proof (cases "rar20_decode_until ?target (feed packed s)")
      case None
      then show ?thesis using until by simp
    next
      case (Some res)
      show ?thesis
      proof (cases res)
        case (Inl e)
        then show ?thesis using until Some False by (simp add: rar20_decode_member_def Let_def pos)
      next
        case (Inr s1)
        have "returns (\<lambda>(out, s'). length out = n \<and> r20_ok s' (S @ out)) (rar20_decode_member packed n s)"
          using last [of s1] until Some Inr False by (simp add: rar20_decode_member_def Let_def pos)
        then show ?thesis
          by (cases "rar20_decode_member packed n s") (auto simp: yields_def split: sum.splits)
      qed
    qed
  qed
qed

theorem rar20_member_decodes_witness:
  "\<exists>r. rar20_decode_member [0x40, 0] 3 rar20_decoder_new = Some r \<and>
    (case r of
       Inl e \<Rightarrow> e \<in> r20_errors \<or> e = Bad ''RAR 2.0 output size overflows'' \<and> 2 ^ 64 \<le> length ([] :: byte list) + 3
     | Inr (out, s') \<Rightarrow> length out = 3 \<and> r20_ok s' ([] @ out))"
  by (rule rar20_member_decodes) (rule new_decoder_ok)

text \<open>The streaming variant: each round decodes up to the next flush boundary and trims.\<close>

lemma until_from_ok:
  assumes "r20_ok s S" "length S \<le> target"
  shows "returns (\<lambda>s'. \<exists>ys. r20_fixed s' \<and> hist_ok (r20_history s') (S @ ys) \<and> length (S @ ys) = target \<and>
    base_offset (r20_history s') \<le> length S) (rar20_decode_until target s)"
proof -
  have r: "reaches target S (base_offset (r20_history s)) s"
    using assms by (auto simp: r20_ok_def reaches_def intro!: exI [of _ "[]"])
  show ?thesis
  proof (rule returns_mono [OF decode_until_returns [OF r]])
    fix s' assume s': "reaches target S (base_offset (r20_history s)) s' \<and> target \<le> current_pos (r20_history s')"
    then obtain ys where ys: "hist_ok (r20_history s') (S @ ys)" "length (S @ ys) \<le> target"
      by (auto simp: reaches_def)
    then have "length (S @ ys) = target" using s' hist_ok_pos [OF ys(1)] by simp
    then show "\<exists>ys. r20_fixed s' \<and> hist_ok (r20_history s') (S @ ys) \<and> length (S @ ys) = target \<and>
        base_offset (r20_history s') \<le> length S"
      using ys(1) s' r20_ok_base [OF assms(1)] unfolding reaches_def by metis
  qed
qed

lemma stream_chunks_returns:
  assumes "r20_ok s S" "flushed = length S" "flushed \<le> target"
  shows "returns (\<lambda>(all, s'). \<exists>ys. all = out @ ys \<and> length (S @ ys) = target \<and> r20_ok s' (S @ ys))
    (stream_chunks flushed target out s)"
  using assms
proof (induction "target - flushed" arbitrary: flushed out s S rule: less_induct)
  case less
  show ?case
  proof (cases "flushed < target")
    case False
    then show ?thesis using less.prems by (subst stream_chunks.simps) simp
  next
    case True
    define next_flush where "next_flush = min (flushed + FLUSH) target"
    have nf: "length S < next_flush" "next_flush \<le> target"
      using True less.prems(2) by (simp_all add: next_flush_def FLUSH_def)
    note until = until_from_ok [OF less.prems(1) less_imp_le [OF nf(1)]]
    show ?thesis
    proof (cases "rar20_decode_until next_flush s")
      case None
      then show ?thesis using until by simp
    next
      case (Some res)
      show ?thesis
      proof (cases res)
        case (Inl e)
        then show ?thesis using until Some True
          by (subst stream_chunks.simps) (simp add: next_flush_def [symmetric])
      next
        case (Inr s1)
        obtain ys where ys: "r20_fixed s1" "hist_ok (r20_history s1) (S @ ys)" "length (S @ ys) = next_flush"
            "base_offset (r20_history s1) \<le> length S"
          using until Some Inr by auto
        have pos: "current_pos (r20_history s1) = next_flush" using hist_ok_pos [OF ys(2)] ys(3) by simp
        let ?s = "s1\<lparr>r20_history := snd (history_trim next_flush (r20_history s1))\<rparr>"
        have ok: "r20_ok ?s (S @ ys)" using ys(1) trim_ok [OF ys(2)] by (simp add: r20_ok_def)
        have range: "raw_range flushed next_flush (r20_history s1) = Inr ys"
          using raw_range_ok [OF ys(2,4)] ys(3) less.prems(2) by simp
        have "target - next_flush < target - flushed" using nf less.prems(2) by simp
        from less.hyps [OF this ok ys(3) [symmetric] nf(2), of "out @ ys"]
        have "returns (\<lambda>(all, s'). \<exists>zs. all = out @ zs \<and> length (S @ zs) = target \<and> r20_ok s' (S @ zs))
            (stream_chunks next_flush target (out @ ys) ?s)"
          by (rule returns_mono) (auto intro: exI [of _ "ys @ zs" for zs])
        moreover have "stream_chunks flushed target out s = stream_chunks next_flush target (out @ ys) ?s"
          using True Some Inr range pos nf(1) less.prems(2) next_flush_def [symmetric]
          by (subst stream_chunks.simps) (simp add: Let_def del: length_append)
        ultimately show ?thesis by simp
      qed
    qed
  qed
qed

text \<open>C13: The streaming decoder gives the same guarantees: it ends on any input, each round of the
  flush loop makes progress, and on success the chunks written are together exactly the bytes asked
  for, with the state in order although the history was trimmed after every chunk.\<close>

theorem rar20_streaming_decodes:
  assumes "r20_ok s S" "length S + n < 2 ^ 64"
  shows "\<exists>r. rar20_decode_member_streaming packed n s = Some r \<and>
    (case r of Inl e \<Rightarrow> e \<in> r20_errors | Inr (out, s') \<Rightarrow> length out = n \<and> r20_ok s' (S @ out))"
proof -
  have pos: "current_pos (r20_history s) = length S" using assms(1) by (simp add: r20_ok_def hist_ok_pos)
  have ok: "r20_ok (feed packed s) S" using assms(1) by (simp add: r20_ok_def feed_def Let_def)
  let ?target = "length S + n"
  have chunks: "returns (\<lambda>(all, s'). length all = n \<and> r20_ok s' (S @ all)) (stream_chunks (length S) ?target [] (feed packed s))"
    by (rule returns_mono [OF stream_chunks_returns [OF ok]]) auto
  have last: "returns (\<lambda>(out, s'). length out = n \<and> r20_ok s' (S @ out))
     (map_option (\<lambda>res. rbind res (\<lambda>s. Inr (all, s\<lparr>r20_history := snd (history_trim ?target (r20_history s))\<rparr>)))
       (read_last_tables s1))" if "length all = n" "r20_ok s1 (S @ all)" for all s1
    using that trim_ok by (intro returns_bind [OF last_tables_returns]) (auto simp: r20_ok_def)
  have "returns (\<lambda>(out, s'). length out = n \<and> r20_ok s' (S @ out)) (rar20_decode_member_streaming packed n s)"
  proof (cases "stream_chunks (length S) ?target [] (feed packed s)")
    case None
    then show ?thesis using chunks by simp
  next
    case (Some res)
    show ?thesis
    proof (cases res)
      case (Inl e)
      then show ?thesis using Some chunks assms(2) by (simp add: rar20_decode_member_streaming_def Let_def pos)
    next
      case (Inr p)
      obtain all s1 where p: "p = (all, s1)" by (cases p)
      then show ?thesis using Some Inr chunks last [of all s1] assms(2)
        by (simp add: rar20_decode_member_streaming_def Let_def pos)
    qed
  qed
  then show ?thesis
    by (cases "rar20_decode_member_streaming packed n s") (auto simp: yields_def split: sum.splits)
qed

theorem rar20_streaming_decodes_witness:
  "\<exists>r. rar20_decode_member_streaming [] 0 rar20_decoder_new = Some r \<and>
    (case r of Inl e \<Rightarrow> e \<in> r20_errors | Inr (out, s') \<Rightarrow> length out = 0 \<and> r20_ok s' ([] @ out))"
  by (rule rar20_streaming_decodes [OF new_decoder_ok]) simp

end
