(* ===== verification/BinaryField.thy ===== *)
theory BinaryField
  imports Prelude
begin

text \<open>
  Fields of characteristic two on machine words, as the recovery code uses them: the carry-less
  product reduced by a polynomial (the reference for the table multiplication), the powers of the
  generator, and the locale \<open>binary_field\<close> with the linear algebra the recovery records rest
  on: products of matrices and vectors, and the regularity of Cauchy matrices.
\<close>

section \<open>Sums of words\<close>

definition xsum :: "'a::len word list \<Rightarrow> 'a word" where
  "xsum ws = foldr (XOR) ws 0"

lemma xsum_Nil [simp]: "xsum [] = 0"
  by (simp add: xsum_def)

lemma xsum_Cons [simp]: "xsum (w # ws) = w XOR xsum ws"
  by (simp add: xsum_def)

lemma xor_left_commute_word: "a XOR (b XOR c) = b XOR (a XOR (c :: 'a::len word))"
  by (simp add: xor.left_commute)

lemmas word_xor_ac = xor.assoc [where 'a = "'a::len word"] xor.commute [where 'a = "'a::len word"]
  xor_left_commute_word

lemma xor_self_cancel [simp]: "a XOR (a XOR b) = (b :: 'a::len word)"
  by (simp flip: xor.assoc)

lemma xor_eq_0_word: "a XOR b = 0 \<longleftrightarrow> a = (b :: 'a::len word)"
  by (metis xor.right_neutral xor_self_cancel xor_self_eq)

lemma xsum_append [simp]: "xsum (xs @ ys) = xsum xs XOR xsum ys"
  by (induction xs) (simp_all add: xor.assoc)

lemma xsum_zero: "(\<And>w. w \<in> set ws \<Longrightarrow> w = 0) \<Longrightarrow> xsum ws = 0"
  by (induction ws) simp_all

lemma xsum_map_zero [simp]: "xsum (map (\<lambda>i. 0) is) = 0"
  by (induction "is") simp_all

lemma xsum_map_xor: "xsum (map (\<lambda>i. f i XOR g i) is) = xsum (map f is) XOR xsum (map g is)"
  by (induction "is") (simp_all add: word_xor_ac)

lemma xsum_map_additive:
  assumes "\<And>a b. F (a XOR b) = F a XOR F b" "F 0 = 0"
  shows "F (xsum (map f is)) = xsum (map (\<lambda>i. F (f i)) is)"
  by (induction "is") (simp_all add: assms)

lemma xsum_swap:
  "xsum (map (\<lambda>i. xsum (map (f i) js)) is) = xsum (map (\<lambda>j. xsum (map (\<lambda>i. f i j) is)) js)"
proof (induction "is")
  case Nil
  show ?case by (simp add: xsum_zero)
next
  case (Cons i "is")
  then show ?case by (simp add: xsum_map_xor)
qed

lemma xsum_single:
  assumes "distinct is" "k \<in> set is" "\<And>i. i \<in> set is \<Longrightarrow> i \<noteq> k \<Longrightarrow> f i = 0"
  shows "xsum (map f is) = f k"
  using assms
proof (induction "is")
  case (Cons i "is")
  show ?case
  proof (cases "i = k")
    case True
    then have "xsum (map f is) = 0" using Cons.prems by (intro xsum_zero) auto
    then show ?thesis using True by simp
  next
    case False
    then show ?thesis using Cons by simp
  qed
qed simp

lemma bit_xsum: "bit (xsum (map f is)) n \<longleftrightarrow> odd (length (filter (\<lambda>i. bit (f i) n) is))"
  by (induction "is") (auto simp: bit_xor_iff)

text \<open>A word is the sum of its bits, so a property closed under sums needs only its powers of two.\<close>

lemma word_of_bits: "(w :: 'a::len word) = xsum (map (\<lambda>i. if bit w i then 2 ^ i else 0) [0..<LENGTH('a)])"
proof (rule bit_word_eqI)
  fix n assume n: "n < LENGTH('a)"
  have hit: "filter (\<lambda>i. bit (if bit w i then 2 ^ i else 0 :: 'a word) n) [0..<m] =
      (if n < m \<and> bit w n then [n] else [])" for m
  proof (induction m)
    case (Suc m)
    then show ?case using n by (cases "n = m") (auto simp: bit_exp_iff less_Suc_eq)
  qed simp
  show "bit w n \<longleftrightarrow> bit (xsum (map (\<lambda>i. if bit w i then 2 ^ i else 0 :: 'a word) [0..<LENGTH('a)])) n"
    unfolding bit_xsum hit using n by simp
qed

lemma word_sum_induct [case_names zero xor power]:
  fixes P :: "'a::len word \<Rightarrow> bool"
  assumes "P 0" "\<And>a b. P a \<Longrightarrow> P b \<Longrightarrow> P (a XOR b)" "\<And>i. i < LENGTH('a) \<Longrightarrow> P (2 ^ i)"
  shows "P w"
proof -
  have "P (xsum (map (\<lambda>i. if bit w i then 2 ^ i else 0) is))" if "set is \<subseteq> {..<LENGTH('a)}" for "is"
    using that by (induction "is") (auto intro: assms)
  from this [of "[0..<LENGTH('a)]"]
  have "P (xsum (map (\<lambda>i. if bit w i then 2 ^ i else 0) [0..<LENGTH('a)]))" by (simp add: subset_iff)
  then show ?thesis by (simp only: word_of_bits [of w, symmetric])
qed

section \<open>Multiplication by the generator\<close>

text \<open>
  \<open>xtime p\<close> multiplies by \<open>x\<close> modulo the polynomial whose low part is
  \<open>p\<close>; \<open>clmul p a b\<close> is the product, one shifted copy of \<open>a\<close> for every bit of
  \<open>b\<close>.
\<close>

definition xtime :: "'a::len word \<Rightarrow> 'a word \<Rightarrow> 'a word" where
  "xtime p a = push_bit 1 a XOR (if bit a (LENGTH('a) - 1) then p else 0)"

definition clmul :: "'a::len word \<Rightarrow> 'a word \<Rightarrow> 'a word \<Rightarrow> 'a word" where
  "clmul p a b = xsum (map (\<lambda>i. if bit b i then (xtime p ^^ i) a else 0) [0..<LENGTH('a)])"

lemma xtime_xor: "xtime p (a XOR b) = xtime p a XOR xtime p b"
  by (rule bit_word_eqI) (auto simp: xtime_def bit_simps)

lemma xtime_zero [simp]: "xtime p 0 = 0"
  by (simp add: xtime_def)

lemma xtimes_xor: "(xtime p ^^ n) (a XOR b) = (xtime p ^^ n) a XOR (xtime p ^^ n) b"
  by (induction n) (simp_all add: xtime_xor)

lemma xtimes_zero [simp]: "(xtime p ^^ n) 0 = 0"
  by (induction n) simp_all

lemma clmul_xor_left: "clmul p (a XOR b) c = clmul p a c XOR clmul p b c"
proof -
  have "clmul p (a XOR b) c = xsum (map (\<lambda>i. (if bit c i then (xtime p ^^ i) a else 0) XOR
      (if bit c i then (xtime p ^^ i) b else 0)) [0..<LENGTH('a)])"
    unfolding clmul_def by (intro arg_cong [where f = xsum] map_cong) (auto simp: xtimes_xor)
  then show ?thesis unfolding xsum_map_xor clmul_def .
qed

lemma clmul_xor_right: "clmul p a (b XOR c) = clmul p a b XOR clmul p a c"
proof -
  have "clmul p a (b XOR c) = xsum (map (\<lambda>i. (if bit b i then (xtime p ^^ i) a else 0) XOR
      (if bit c i then (xtime p ^^ i) a else 0)) [0..<LENGTH('a)])"
    unfolding clmul_def by (intro arg_cong [where f = xsum] map_cong) (auto simp: bit_xor_iff)
  then show ?thesis unfolding xsum_map_xor clmul_def .
qed

lemma clmul_zero [simp]: "clmul p 0 b = 0" "clmul p a 0 = 0"
  by (simp_all add: clmul_def if_distrib [of "\<lambda>f. f 0"] cong: if_cong)

lemma clmul_power: "i < LENGTH('a) \<Longrightarrow> clmul p a (2 ^ i :: 'a::len word) = (xtime p ^^ i) a"
  unfolding clmul_def by (subst xsum_single [where k = i]) (auto simp: bit_simps)

lemma xtimes_add: "(xtime p ^^ m) ((xtime p ^^ n) a) = (xtime p ^^ (m + n)) a"
  by (simp add: funpow_add)

lemma clmul_xtime_left: "clmul p (xtime p a) b = xtime p (clmul p a b)"
  unfolding clmul_def xsum_map_additive [where F = "xtime p", OF xtime_xor xtime_zero]
  by (intro arg_cong [where f = xsum] map_cong) (auto simp: funpow_swap1)

lemma xtime_power: "xtime p (2 ^ i) = (if i = LENGTH('a) - 1 then p else 2 ^ Suc i :: 'a::len word)" if "i < LENGTH('a)"
proof -
  have "push_bit 1 (2 ^ i :: 'a word) = 2 ^ Suc i"
    by (simp add: mult.commute)
  moreover have "(2 :: 'a word) ^ LENGTH('a) = 0" by simp
  ultimately show ?thesis using that by (auto simp: xtime_def bit_exp_iff simp del: power_Suc)
qed

lemma xtimes_one: "i < LENGTH('a) \<Longrightarrow> (xtime p ^^ i) 1 = (2 ^ i :: 'a::len word)"
proof (induction i)
  case (Suc i)
  then have "i \<noteq> LENGTH('a) - 1" by simp
  with Suc show ?case by (simp add: xtime_power)
qed simp

lemma clmul_one_left: "clmul p 1 b = b"
proof (induction b rule: word_sum_induct)
  case (power i)
  then show ?case by (simp add: clmul_power xtimes_one)
qed (simp_all add: clmul_xor_right)

lemma xtime_top: "xtime p (2 ^ (LENGTH('a) - 1)) = (p :: 'a::len word)"
  by (simp add: xtime_power)

lemma clmul_shifted: "clmul p ((xtime p ^^ i) a) b = (xtime p ^^ i) (clmul p a b)"
  by (induction i) (simp_all add: clmul_xtime_left)

lemma xtimes_length: "(xtime p ^^ LENGTH('a)) 1 = (p :: 'a::len word)"
proof -
  obtain n where n: "LENGTH('a) = Suc n" by (cases "LENGTH('a)") simp_all
  then show ?thesis using xtimes_one [of n p] xtime_top [of p] by simp
qed

lemma clmul_polynomial: "clmul p a p = (xtime p ^^ LENGTH('a)) (a :: 'a::len word)"
proof (induction a rule: word_sum_induct)
  case (power i)
  have "clmul p ((xtime p ^^ i) 1) p = (xtime p ^^ LENGTH('a)) ((xtime p ^^ i) 1)"
    unfolding clmul_shifted clmul_one_left
    by (subst xtimes_length [symmetric, of p]) (simp only: xtimes_add add.commute)
  then show ?case using power by (simp only: xtimes_one)
qed (simp_all add: clmul_xor_left xtimes_xor)

lemma clmul_xtime_right: "clmul p a (xtime p b) = xtime p (clmul p a b)"
proof (induction b rule: word_sum_induct)
  case (power i)
  show ?case
  proof (cases "i = LENGTH('a) - 1")
    case True
    then have "xtime p (2 ^ i) = p" using power by (simp add: xtime_power)
    moreover have "(xtime p ^^ LENGTH('a)) a = xtime p ((xtime p ^^ i) a)"
      using True power by (cases "LENGTH('a)") auto
    ultimately show ?thesis using power by (simp add: clmul_polynomial clmul_power)
  next
    case False
    then show ?thesis using power clmul_power [of "Suc i" p a] clmul_power [of i p a]
      by (simp add: xtime_power)
  qed
qed (simp_all add: clmul_xor_right xtime_xor)

lemma clmul_commute: "clmul p a b = clmul p b a"
proof (induction b rule: word_sum_induct)
  case (power i)
  have "clmul p ((xtime p ^^ i) 1) a = (xtime p ^^ i) a" by (simp add: clmul_shifted clmul_one_left)
  then show ?case using power by (simp add: clmul_power xtimes_one)
qed (simp_all add: clmul_xor_left clmul_xor_right)

lemma clmul_assoc: "clmul p (clmul p a b) c = clmul p a (clmul p b c)"
proof (induction c rule: word_sum_induct)
  case (power i)
  have "clmul p a ((xtime p ^^ i) b) = (xtime p ^^ i) (clmul p a b)"
    by (induction i) (simp_all add: clmul_xtime_right)
  then show ?case using power by (simp add: clmul_power)
qed (simp_all add: clmul_xor_right)

lemma clmul_powers: "clmul p ((xtime p ^^ m) 1) ((xtime p ^^ n) 1) = (xtime p ^^ (m + n)) 1"
proof (induction m)
  case 0
  show ?case by (simp add: clmul_one_left)
qed (simp add: clmul_xtime_left)

text \<open>The product by Horner's rule, for evaluation.\<close>

definition horner :: "'a::len word \<Rightarrow> 'a word \<Rightarrow> bool list \<Rightarrow> 'a word" where
  "horner p a bs = foldl (\<lambda>acc b. xtime p acc XOR (if b then a else 0)) 0 bs"

lemma clmul_horner: "clmul p a (b :: 'a::len word) = horner p a (map (bit b) (rev [0..<LENGTH('a)]))"
proof -
  have "horner p a (map (bit b) (rev [k..<k + n])) = xsum (map (\<lambda>i. if bit b (k + i) then (xtime p ^^ i) a else 0) [0..<n])"
    for k n
  proof (induction n arbitrary: k)
    case 0
    show ?case by (simp add: horner_def)
  next
    case (Suc n)
    have "[k..<k + Suc n] = k # [Suc k..<Suc k + n]" by (simp add: upt_conv_Cons)
    then have "horner p a (map (bit b) (rev [k..<k + Suc n])) =
        xtime p (horner p a (map (bit b) (rev [Suc k..<Suc k + n]))) XOR (if bit b k then a else 0)"
      by (simp add: horner_def)
    also have "\<dots> = (if bit b k then a else 0) XOR
        xsum (map (\<lambda>i. if bit b (k + Suc i) then (xtime p ^^ Suc i) a else 0) [0..<n])"
      unfolding Suc.IH xsum_map_additive [where F = "xtime p", OF xtime_xor xtime_zero]
      by (simp add: if_distrib [of "xtime p"] xor.commute cong: if_cong)
    also have "\<dots> = xsum (map (\<lambda>i. if bit b (k + i) then (xtime p ^^ i) a else 0) (0 # map Suc [0..<n]))"
      by (simp add: comp_def)
    finally show ?case by (simp add: map_Suc_upt upt_conv_Cons [symmetric] del: upt_Suc funpow.simps)
  qed
  from this [of 0 "LENGTH('a)"] show ?thesis by (simp add: clmul_def)
qed

section \<open>The powers of the generator\<close>

definition gen_pow :: "'a::len word \<Rightarrow> nat \<Rightarrow> 'a word" where
  "gen_pow p n = (xtime p ^^ n) 1"

lemma gen_pow_0 [simp]: "gen_pow p 0 = 1"
  by (simp add: gen_pow_def)

lemma gen_pow_Suc: "gen_pow p (Suc n) = xtime p (gen_pow p n)"
  by (simp add: gen_pow_def)

lemma gen_pow_add: "gen_pow p (m + n) = clmul p (gen_pow p m) (gen_pow p n)"
  by (simp add: gen_pow_def clmul_powers)

lemma gen_pow_mult: "gen_pow p m = 1 \<Longrightarrow> gen_pow p (m * k) = 1"
  by (induction k) (simp_all add: gen_pow_add clmul_one_left)

text \<open>A large power by squaring, over the binary digits of the exponent (least significant first).\<close>

fun digits_value :: "bool list \<Rightarrow> nat" where
  "digits_value [] = 0"
| "digits_value (b # bs) = of_bool b + 2 * digits_value bs"

definition square_step :: "'a::len word \<Rightarrow> bool \<Rightarrow> 'a word \<Rightarrow> 'a word" where
  "square_step p b h = (if b then xtime p (clmul p h h) else clmul p h h)"

fun square_power :: "'a::len word \<Rightarrow> bool list \<Rightarrow> 'a word" where
  "square_power p [] = 1"
| "square_power p (b # bs) = square_step p b (square_power p bs)"

lemma square_power_eq: "square_power p bs = gen_pow p (digits_value bs)"
  by (induction bs) (auto simp: square_step_def gen_pow_Suc gen_pow_add mult_2 clmul_xtime_left clmul_one_left)

lemma gen_pow_mod: "gen_pow p d = 1 \<Longrightarrow> gen_pow p (n mod d) = gen_pow p n"
  using gen_pow_add [of p "d * (n div d)" "n mod d"] by (simp add: gen_pow_mult clmul_one_left)

lemma gen_pow_period:
  assumes "0 < n" "gen_pow p n = 1"
  obtains d where "0 < d" "d dvd n" "\<And>m. gen_pow p m = 1 \<longleftrightarrow> d dvd m"
proof -
  define d where "d = (LEAST d. 0 < d \<and> gen_pow p d = 1)"
  have d: "0 < d" "gen_pow p d = 1"
    using LeastI [of "\<lambda>d. 0 < d \<and> gen_pow p d = 1" n] assms by (simp_all add: d_def)
  have least: "d \<le> m" if "0 < m" "gen_pow p m = 1" for m
    using Least_le [of "\<lambda>d. 0 < d \<and> gen_pow p d = 1" m] that by (simp add: d_def)
  have "d dvd m" if "gen_pow p m = 1" for m
  proof -
    have "gen_pow p (m mod d) = 1" using gen_pow_mod [OF d(2)] that by simp
    then have "m mod d = 0" using least [of "m mod d"] d(1) by (meson mod_less_divisor not_gr_zero not_le)
    then show ?thesis by auto
  qed
  moreover have "gen_pow p m = 1" if "d dvd m" for m
    using that gen_pow_mult [OF d(2)] by (auto elim: dvdE)
  ultimately show ?thesis using that [of d] d(1) assms(2) by blast
qed

text \<open>
  The order of the generator is exactly \<open>n\<close> when it divides \<open>n\<close> and no
  \<open>n div q\<close>, for \<open>q\<close> running through the primes of \<open>n\<close>.
\<close>

lemma gen_pow_order:
  assumes "0 < n" "gen_pow p n = 1" "\<And>q. q \<in> set qs \<Longrightarrow> gen_pow p (n div q) \<noteq> 1"
    and "\<And>e. e dvd n \<Longrightarrow> e = 1 \<or> (\<exists>q\<in>set qs. q dvd e)"
  shows "gen_pow p m = 1 \<longleftrightarrow> n dvd m"
proof -
  obtain d where d: "0 < d" "d dvd n" "\<And>m. gen_pow p m = 1 \<longleftrightarrow> d dvd m"
    using gen_pow_period [OF assms(1,2)] by metis
  obtain e where e: "n = d * e" using d(2) by (auto elim: dvdE)
  have "e = 1"
  proof (rule ccontr)
    assume "e \<noteq> 1"
    then obtain q where q: "q \<in> set qs" "q dvd e" using assms(4) [of e] e by auto
    then have "0 < q" using assms(1) e by (auto intro: Nat.gr0I)
    then have "n div q = d * (e div q)" using q(2) e by (auto elim: dvdE)
    then show False using assms(3) [OF q(1)] d(3) by simp
  qed
  then show ?thesis using e d(3) by simp
qed

lemma no_divisor_coprime:
  assumes "\<And>d. d \<in> {2..<q} \<Longrightarrow> \<not> d dvd q" "0 < q" "\<not> q dvd (e :: nat)"
  shows "coprime e q"
proof -
  have g: "gcd e q dvd q" "gcd e q \<noteq> 0" using assms(2) by simp_all
  moreover have "gcd e q \<noteq> q" using assms(3) by (metis gcd_dvd1)
  moreover have "gcd e q \<le> q" using g(1) assms(2) by (rule dvd_imp_le)
  ultimately have less: "gcd e q \<notin> {2..<q}" "gcd e q < q" using assms(1) by force+
  have "gcd e q = 1"
  proof (rule ccontr)
    assume "gcd e q \<noteq> 1"
    then have "2 \<le> gcd e q" using g(2) by linarith
    then show False using less by simp
  qed
  then show ?thesis by (simp add: coprime_iff_gcd_eq_1)
qed

lemma dvd_strip:
  assumes "e dvd q * n" "\<And>d. d \<in> {2..<q} \<Longrightarrow> \<not> d dvd q" "0 < q"
  shows "q dvd e \<or> e dvd (n :: nat)"
  using no_divisor_coprime [OF assms(2,3)] assms(1) coprime_dvd_mult_right_iff by blast

section \<open>Discrete logarithms\<close>

definition generates :: "'a::len word \<Rightarrow> bool" where
  "generates p \<longleftrightarrow> (\<forall>m. gen_pow p m = 1 \<longleftrightarrow> 2 ^ LENGTH('a) - 1 dvd m)"

lemma generator_order_pos: "0 < (2 :: nat) ^ LENGTH('a::len) - 1"
  using one_less_power [of "2 :: nat" "LENGTH('a)"] by simp

lemma gen_pow_cycle:
  assumes "generates (p :: 'a::len word)"
  shows "gen_pow p ((2 ^ LENGTH('a) - 1) * k) = 1" "gen_pow p (n mod (2 ^ LENGTH('a) - 1)) = gen_pow p n"
  using assms by (simp_all add: generates_def gen_pow_mod)

lemma gen_pow_inj:
  assumes g: "generates (p :: 'a::len word)" and "gen_pow p i = gen_pow p j" "i < 2 ^ LENGTH('a) - 1" "j < 2 ^ LENGTH('a) - 1"
  shows "i = j"
proof -
  let ?n = "2 ^ LENGTH('a) - 1 :: nat"
  have "gen_pow p ((?n - i) + j) = gen_pow p ((?n - i) + i)" using assms(2) by (simp only: gen_pow_add)
  moreover have "(?n - i) + i = ?n" using assms(3) by linarith
  ultimately have "gen_pow p ((?n - i) + j) = 1" using gen_pow_cycle(1) [OF g, of 1] by simp
  then have "?n dvd (?n - i) + j" using g unfolding generates_def by blast
  then obtain k where k: "(?n - i) + j = ?n * k" by (auto elim: dvdE)
  have "?n * k < ?n * 2" "0 < ?n * k" using assms(3,4) k by linarith+
  then have "k = 1" using mult_less_cancel1 [of ?n k 2] by auto
  then show ?thesis using k assms(3) by simp
qed

lemma gen_pow_nonzero:
  assumes "generates (p :: 'a::len word)"
  shows "gen_pow p n \<noteq> 0"
proof
  let ?n = "2 ^ LENGTH('a) - 1 :: nat"
  assume "gen_pow p n = 0"
  then have "gen_pow p (n + (?n * n - n)) = 0" by (simp add: gen_pow_add)
  moreover have "n \<le> ?n * n" using mult_le_mono1 [of 1 ?n n] generator_order_pos [where 'a = 'a] by linarith
  then have "n + (?n * n - n) = ?n * n" by (rule le_add_diff_inverse)
  ultimately show False using gen_pow_cycle(1) [OF assms, of n] by simp
qed

lemma gen_pow_surj:
  assumes "generates (p :: 'a::len word)" "w \<noteq> 0"
  shows "\<exists>k < 2 ^ LENGTH('a) - 1. gen_pow p k = w"
proof -
  let ?n = "2 ^ LENGTH('a) - 1 :: nat"
  have "inj_on (gen_pow p) {..<?n}" using gen_pow_inj [OF assms(1)] by (auto simp: inj_on_def)
  then have "card (gen_pow p ` {..<?n}) = ?n" by (simp add: card_image)
  moreover have "card (- {0 :: 'a word}) = ?n" using card_Diff_singleton [of "0 :: 'a word" UNIV] by (simp add: Compl_eq_Diff_UNIV card_word)
  moreover have "gen_pow p ` {..<?n} \<subseteq> - {0}" using gen_pow_nonzero [OF assms(1)] by auto
  ultimately have "gen_pow p ` {..<?n} = - {0}" by (intro card_subset_eq) auto
  then have "w \<in> gen_pow p ` {..<?n}" using assms(2) by blast
  then show ?thesis by (elim imageE) (simp only: lessThan_iff, blast)
qed

section \<open>The interface\<close>

text \<open>
  What the recovery code needs of a multiplication and a reciprocal on words, addition being
  exclusive or.
\<close>

locale binary_field =
  fixes mul :: "'a::len word \<Rightarrow> 'a word \<Rightarrow> 'a word" and recip :: "'a word \<Rightarrow> 'a word"
  assumes mul_commute: "mul a b = mul b a"
    and mul_assoc: "mul (mul a b) c = mul a (mul b c)"
    and mul_one: "mul 1 a = a"
    and mul_xor: "mul a (b XOR c) = mul a b XOR mul a c"
    and mul_recip: "a \<noteq> 0 \<Longrightarrow> mul a (recip a) = 1"
begin

lemma mul_one_right: "mul a 1 = a"
  by (simp add: mul_commute [of a] mul_one)

lemma mul_xor_left: "mul (a XOR b) c = mul a c XOR mul b c"
  by (simp add: mul_commute [of _ c] mul_xor)

lemma mul_zero: "mul a 0 = 0" "mul 0 a = 0"
  using mul_xor [of a 0 0] by (simp_all add: mul_commute [of 0])

lemma mul_eq_0: "mul a b = 0 \<longleftrightarrow> a = 0 \<or> b = 0"
proof
  assume ab: "mul a b = 0"
  show "a = 0 \<or> b = 0"
  proof (rule disjCI)
    assume "b \<noteq> 0"
    then have "a = mul (mul a b) (recip b)" by (simp add: mul_assoc mul_recip mul_one_right)
    then show "a = 0" by (simp add: ab mul_zero)
  qed
qed (auto simp: mul_zero)

lemma recip_nonzero: "a \<noteq> 0 \<Longrightarrow> recip a \<noteq> 0"
  using mul_recip [of a] by (auto simp: mul_zero)

lemma mul_left_commute: "mul a (mul b c) = mul b (mul a c)"
  by (metis mul_assoc mul_commute)

lemma mul_cancel: "a \<noteq> 0 \<Longrightarrow> mul a b = mul a c \<Longrightarrow> b = c"
  by (metis mul_assoc mul_commute mul_one mul_recip)

lemma mul_xsum: "mul a (xsum (map f is)) = xsum (map (\<lambda>i. mul a (f i)) is)"
  by (rule xsum_map_additive) (simp_all add: mul_xor mul_zero)

text \<open>The scalar product of a row and a column, and its behaviour under row operations.\<close>

definition dot :: "'a word list \<Rightarrow> 'a word list \<Rightarrow> 'a word" where
  "dot row col = xsum (map2 mul row col)"

lemma dot_simps [simp]: "dot [] ys = 0" "dot xs [] = 0" "dot (x # xs) (y # ys) = mul x y XOR dot xs ys"
  by (simp_all add: dot_def)

lemma dot_scale: "dot (map (\<lambda>v. mul v k) row) col = mul (dot row col) k"
proof (induction row arbitrary: col)
  case (Cons v row)
  then show ?case
    by (cases col) (simp_all add: mul_zero mul_xor_left mul_assoc mul_commute [of k])
qed (simp add: mul_zero)

lemma dot_add_multiple:
  "length pivot = length row \<Longrightarrow>
   dot (map2 (\<lambda>v p. v XOR mul f p) row pivot) col = dot row col XOR mul f (dot pivot col)"
proof (induction row arbitrary: col pivot)
  case (Cons v row)
  then obtain p pivot' where p: "pivot = p # pivot'" by (cases pivot) auto
  show ?case
    using Cons p by (cases col) (simp_all add: mul_zero mul_xor mul_xor_left mul_assoc word_xor_ac)
qed (simp add: mul_zero)

lemma dot_eq_sum: "length row = length col \<Longrightarrow> dot row col = xsum (map (\<lambda>j. mul (row ! j) (col ! j)) [0..<length col])"
  unfolding dot_def
  by (rule arg_cong [where f = xsum]) (auto intro!: nth_equalityI)

lemma dot_unit:
  assumes "length row = length col" "k < length col" "\<And>j. j < length col \<Longrightarrow> row ! j = (if j = k then 1 else 0)"
  shows "dot row col = col ! k"
  unfolding dot_eq_sum [OF assms(1)]
  using assms(2,3) by (subst xsum_single [where k = k]) (auto simp: mul_one mul_zero)

text \<open>
  Cauchy matrices are regular: a combination of the functions \<open>1 / (x + y)\<close> that vanishes
  at as many points \<open>x\<close> as it has poles \<open>y\<close> is trivial.
\<close>

lemma pole_difference:
  assumes "x \<noteq> z" "u \<noteq> z"
  shows "mul (x XOR y) (recip (x XOR z)) XOR mul (u XOR y) (recip (u XOR z)) =
    mul (x XOR u) (mul (mul (y XOR z) (recip (u XOR z))) (recip (x XOR z)))"
proof -
  let ?a = "x XOR z" and ?b = "u XOR z" and ?c = "y XOR z"
  have nz: "?a \<noteq> 0" "?b \<noteq> 0" using assms by (simp_all add: xor_eq_0_word)
  have frac: "mul (v XOR y) (recip (v XOR z)) = 1 XOR mul ?c (recip (v XOR z))" if "v XOR z \<noteq> 0" for v
  proof -
    have "v XOR y = (v XOR z) XOR ?c" by (simp add: word_xor_ac)
    then have "mul (v XOR y) (recip (v XOR z)) =
        mul (v XOR z) (recip (v XOR z)) XOR mul ?c (recip (v XOR z))"
      by (simp only: mul_xor_left)
    then show ?thesis by (simp only: mul_recip [OF that])
  qed
  have "recip ?a XOR recip ?b = mul (x XOR u) (mul (recip ?b) (recip ?a))"
  proof -
    have "x XOR u = ?a XOR ?b" by (simp add: word_xor_ac)
    moreover have "mul ?a (mul (recip ?b) (recip ?a)) = recip ?b"
      using nz by (simp add: mul_left_commute [of ?a] mul_recip mul_one_right)
    moreover have "mul ?b (mul (recip ?b) (recip ?a)) = recip ?a"
      using nz by (simp flip: mul_assoc add: mul_recip mul_one)
    ultimately show ?thesis by (simp add: mul_xor_left xor.commute)
  qed
  then have "mul ?c (recip ?a XOR recip ?b) = mul (x XOR u) (mul (mul ?c (recip ?b)) (recip ?a))"
    by (simp add: mul_left_commute [of ?c] mul_assoc)
  moreover have "mul (x XOR y) (recip ?a) XOR mul (u XOR y) (recip ?b) = mul ?c (recip ?a XOR recip ?b)"
    unfolding frac [OF nz(1)] frac [OF nz(2)] by (simp add: mul_xor word_xor_ac)
  ultimately show ?thesis by simp
qed

lemma cauchy_regular:
  assumes "distinct xs" "distinct ys" "set xs \<inter> set ys = {}" "length xs = length ys"
    and "\<And>x. x \<in> set xs \<Longrightarrow> xsum (map (\<lambda>y. mul (c y) (recip (x XOR y))) ys) = 0" "y \<in> set ys"
  shows "c y = 0"
  using assms
proof (induction ys arbitrary: xs c y)
  case (Cons z ys)
  obtain u xs' where xs: "xs = u # xs'" using Cons.prems(4) by (cases xs) auto
  let ?c = "\<lambda>y. mul (c y) (mul (z XOR y) (recip (u XOR y)))"
  have u: "u \<noteq> z" "u \<notin> set ys" using Cons.prems(3) xs by auto
  have at: "c z = xsum (map (\<lambda>y. mul (c y) (mul (x XOR z) (recip (x XOR y)))) ys)" if x: "x \<in> set xs" for x
  proof -
    have "x XOR z \<noteq> 0" using Cons.prems(3) x by (auto simp: xor_eq_0_word)
    then have "c z = mul (x XOR z) (mul (c z) (recip (x XOR z)))"
      by (simp add: mul_left_commute [of "x XOR z"] mul_recip mul_one_right)
    also have "\<dots> = mul (x XOR z) (xsum (map (\<lambda>y. mul (c y) (recip (x XOR y))) ys))"
      using Cons.prems(5) [OF x] by (simp add: xor_eq_0_word)
    also have "\<dots> = xsum (map (\<lambda>y. mul (c y) (mul (x XOR z) (recip (x XOR y)))) ys)"
      unfolding mul_xsum by (simp add: mul_left_commute)
    finally show ?thesis .
  qed
  have zero: "?c y = 0" if y: "y \<in> set ys" for y
  proof (rule Cons.IH [of xs' "\<lambda>y. mul (c y) (mul (z XOR y) (recip (u XOR y)))", OF _ _ _ _ _ y])
    fix x assume x: "x \<in> set xs'"
    have xu: "x XOR u \<noteq> 0" using Cons.prems(1) xs x by (auto simp: xor_eq_0_word)
    have apart: "x \<noteq> y" if "y \<in> set ys" for y using Cons.prems(3) xs x that by auto
    have "0 = xsum (map (\<lambda>y. mul (c y) (mul (x XOR z) (recip (x XOR y))) XOR mul (c y) (mul (u XOR z) (recip (u XOR y)))) ys)"
      unfolding xsum_map_xor using at [of x] at [of u] x xs by simp
    also have "\<dots> = xsum (map (\<lambda>y. mul (x XOR u) (mul (?c y) (recip (x XOR y)))) ys)"
    proof (intro arg_cong [where f = xsum] map_cong refl)
      fix y assume y: "y \<in> set ys"
      have "u \<noteq> y" using u(2) y by auto
      note poles = pole_difference [OF apart [OF y] this, of z]
      show "mul (c y) (mul (x XOR z) (recip (x XOR y))) XOR mul (c y) (mul (u XOR z) (recip (u XOR y))) =
          mul (x XOR u) (mul (?c y) (recip (x XOR y)))"
        unfolding mul_xor [symmetric] poles by (simp only: mul_assoc mul_left_commute [of "c y"])
    qed
    also have "\<dots> = mul (x XOR u) (xsum (map (\<lambda>y. mul (?c y) (recip (x XOR y))) ys))"
      by (simp add: mul_xsum)
    finally show "xsum (map (\<lambda>y. mul (?c y) (recip (x XOR y))) ys) = 0"
      using xu by (simp only: mul_eq_0 eq_commute [of 0]) simp
  qed (use Cons.prems(1-4) xs in auto)
  have rest: "c y = 0" if y: "y \<in> set ys" for y
  proof -
    have "z XOR y \<noteq> 0" "u XOR y \<noteq> 0" using Cons.prems(2) u y by (auto simp: xor_eq_0_word)
    then show ?thesis using zero [OF y] recip_nonzero by (auto simp: mul_eq_0)
  qed
  then have "xsum (map (\<lambda>y. mul (c y) (mul (u XOR z) (recip (u XOR y)))) ys) = 0"
    by (intro xsum_zero) (auto simp: mul_zero)
  then have "c z = 0" using at [of u] xs by simp
  then show ?case using Cons.prems(6) rest by auto
qed simp

end

end
