(* ===== verification/Gf16.thy ===== *)
theory Gf16
  imports BinaryField
begin

text \<open>
  The field GF(2^16) of the RAR5 recovery record (\<^verbatim>\<open>crates/rar/src/recovery/rar50/gf16.rs\<close>
  and the constants of mod.rs): exponent and logarithm tables, multiplication and inversion by table
  lookup. The tables are shown to compute the carry-less product modulo the primitive polynomial, and
  the operations interpret \<open>binary_field\<close>. \<open>RecPanic\<close> is not an error of the source: it marks
  an index out of range, where the Rust code would panic.
\<close>

datatype rec_error = NoRecoveryRecord | BadRecoveryChunk | OddShardSize | PlanOverflow | PrefixExceedsPlan
  | TooManyDamagedShards | ShardSizeMismatch | TooManyShards | SingularElement | Cancelled | RecIo string
  | RecPanic

definition FIELD_SIZE :: nat where "FIELD_SIZE = 65535"
definition FIELD_MASK :: u32 where "FIELD_MASK = 0xffff"
definition PRIMITIVE_POLYNOMIAL :: u32 where "PRIMITIVE_POLYNOMIAL = 0x1100b"
definition ZERO_LOG_SENTINEL :: u32 where "ZERO_LOG_SENTINEL = word_of_nat (FIELD_SIZE * 2)"

record gf16 =
  gf_exp :: "u16 list"
  gf_log :: "u32 list"

text \<open>One round of the table loop, on the tables and the running value.\<close>

definition gf16_round :: "nat \<Rightarrow> gf16 \<times> u32 \<Rightarrow> gf16 \<times> u32" where
  "gf16_round k = (\<lambda>(gf, value).
     let logs = (gf_log gf)[unat value := word_of_nat k];
         exps = (gf_exp gf)[k := ucast value];
         exps = exps[k + FIELD_SIZE := ucast value];
         value = push_bit 1 value;
         value = (if FIELD_MASK < value then value XOR PRIMITIVE_POLYNOMIAL else value) in
     (\<lparr>gf_exp = exps, gf_log = logs\<rparr>, value))"

definition gf16_new :: gf16 where
  "gf16_new =
     (let (gf, value) = fold gf16_round [0..<FIELD_SIZE]
            (\<lparr>gf_exp = replicate (FIELD_SIZE * 4 + 1) 0, gf_log = replicate (FIELD_SIZE + 1) 0\<rparr>, 1) in
      gf\<lparr>gf_log := (gf_log gf)[0 := ZERO_LOG_SENTINEL]\<rparr>)"

definition gf16_mul :: "gf16 \<Rightarrow> u16 \<Rightarrow> u16 \<Rightarrow> u16" where
  "gf16_mul gf left right =
     (if left = 0 \<or> right = 0 then 0
      else let index = gf_log gf ! unat left + gf_log gf ! unat right in gf_exp gf ! unat index)"

definition gf16_inv :: "gf16 \<Rightarrow> u16 \<Rightarrow> rec_error + u16" where
  "gf16_inv gf value =
     (if value = 0 then Inl SingularElement
      else let index = word_of_nat FIELD_SIZE - gf_log gf ! unat value in Inr (gf_exp gf ! unat index))"

definition gf16_add :: "u16 \<Rightarrow> u16 \<Rightarrow> u16" where
  "gf16_add left right = left XOR right"

definition gf16_div :: "gf16 \<Rightarrow> u16 \<Rightarrow> u16 \<Rightarrow> rec_error + u16" where
  "gf16_div gf numerator denominator =
     rbind (gf16_inv gf denominator) (\<lambda>i. Inr (gf16_mul gf numerator i))"

section \<open>The tables\<close>

text \<open>The polynomial without its leading term, as the reference multiplication takes it.\<close>

abbreviation poly16 :: u16 where "poly16 \<equiv> 0x100b"

lemma shift_reduce:
  "(let v = push_bit 1 (ucast a :: u32) in if FIELD_MASK < v then v XOR PRIMITIVE_POLYNOMIAL else v) =
    ucast (xtime poly16 a)"
proof -
  have a: "unat a < 2 ^ 16" using unsigned_less [of a] by simp
  then have "unat (push_bit 1 (ucast a :: u32)) = 2 * unat a"
    by (simp add: unat_word_ariths unsigned_ucast_eq take_bit_nat_eq_self)
  moreover have "bit a 15 \<longleftrightarrow> 2 ^ 15 \<le> unat a"
  proof -
    have "bit a 15 \<longleftrightarrow> bit (unat a) 15" by (simp add: bit_unsigned_iff)
    then have "bit a 15 \<longleftrightarrow> odd (unat a div 2 ^ 15)" by (simp add: bit_iff_odd [where 'a = nat])
    moreover have "unat a div 2 ^ 15 < 2" using a by simp
    ultimately show ?thesis using a by (auto simp: less_2_cases_iff div_eq_0_iff)
  qed
  ultimately have gt: "FIELD_MASK < push_bit 1 (ucast a :: u32) \<longleftrightarrow> bit a 15"
    by (simp add: FIELD_MASK_def word_less_nat_alt) presburger
  have low: "(ucast (poly16 :: u16) :: u32) = 0x100b" by simp
  have top: "push_bit 1 (ucast a :: u32) XOR 0x10000 = ucast (push_bit 1 a)" if "bit a 15"
  proof (rule bit_word_eqI)
    fix n assume "n < LENGTH(32)"
    have "(0x10000 :: u32) = 2 ^ 16" by simp
    then have "bit (push_bit 1 (ucast a :: u32) XOR 0x10000) n \<longleftrightarrow>
        (bit a (n - 1) \<and> 1 \<le> n \<and> n < 32) \<noteq> (n = 16)"
      unfolding bit_xor_iff bit_push_bit_iff by (auto simp only: bit_exp_iff bit_unsigned_iff) (simp_all add: \<open>n < LENGTH(32)\<close>)
    then show "bit (push_bit 1 (ucast a :: u32) XOR 0x10000) n \<longleftrightarrow> bit (ucast (push_bit 1 a) :: u32) n"
      using that \<open>n < LENGTH(32)\<close> bit_imp_le_length [of a "n - 1"]
      unfolding bit_unsigned_iff bit_push_bit_iff by (cases "n = 16") auto
  qed
  have keep: "push_bit 1 (ucast a :: u32) = ucast (push_bit 1 a)" if "\<not> bit a 15"
  proof (rule bit_word_eqI)
    fix n assume "n < LENGTH(32)"
    then show "bit (push_bit 1 (ucast a :: u32)) n \<longleftrightarrow> bit (ucast (push_bit 1 a) :: u32) n"
      using that bit_imp_le_length [of a "n - 1"]
      unfolding bit_unsigned_iff bit_push_bit_iff by (cases "n = 16") auto
  qed
  have prim: "(PRIMITIVE_POLYNOMIAL :: u32) = 0x10000 XOR 0x100b" by (simp add: PRIMITIVE_POLYNOMIAL_def)
  show ?thesis
  proof (cases "bit a 15")
    case True
    have "push_bit 1 (ucast a :: u32) XOR PRIMITIVE_POLYNOMIAL = (push_bit 1 (ucast a) XOR 0x10000) XOR 0x100b"
      by (simp only: prim xor.assoc)
    also have "\<dots> = ucast (push_bit 1 a) XOR ucast poly16" by (simp only: top [OF True] low)
    also have "\<dots> = ucast (xtime poly16 a)" using True by (simp add: xtime_def unsigned_xor_eq)
    finally show ?thesis using True unfolding Let_def gt by (simp only: if_True)
  next
    case False
    then show ?thesis using keep unfolding Let_def gt by (simp add: xtime_def)
  qed
qed

text \<open>
  The polynomial is primitive: the generator has order 65535 = 3 * 5 * 17 * 257, checked by square
  and multiply at 65535 and at 65535 divided by each prime.
\<close>

lemma bits_of_16: "rev [0..<16] = [15, 14, 13, 12, 11, 10, 9, 8, 7, 6, 5, 4, 3, 2, 1, 0 :: nat]"
  by code_simp

lemma poly16_powers:
  "square_power poly16 [True, True, True, True, True, True, True, True, True, True, True, True, True, True, True, True] = 1"
  "square_power poly16 [True, False, True, False, True, False, True, False, True, False, True, False, True, False, True] \<noteq> 1"
  "square_power poly16 [True, True, False, False, True, True, False, False, True, True, False, False, True, True] \<noteq> 1"
  "square_power poly16 [True, True, True, True, False, False, False, False, True, True, True, True] \<noteq> 1"
  "square_power poly16 [True, True, True, True, True, True, True, True] \<noteq> 1"
  by (simp_all add: square_step_def clmul_horner horner_def xtime_def bits_of_16)

lemma small_primes:
  "d \<in> {2..<3} \<Longrightarrow> \<not> d dvd (3 :: nat)" "d \<in> {2..<5} \<Longrightarrow> \<not> d dvd (5 :: nat)"
  "d \<in> {2..<17} \<Longrightarrow> \<not> d dvd (17 :: nat)" "d \<in> {2..<257} \<Longrightarrow> \<not> d dvd (257 :: nat)"
proof -
  have "list_all (\<lambda>d. (q :: nat) mod d \<noteq> 0) [2..<q] \<Longrightarrow> d \<in> {2..<q} \<Longrightarrow> \<not> d dvd q" for q
    by (auto simp: list_all_iff dvd_eq_mod_eq_0)
  moreover have "list_all (\<lambda>d. (q :: nat) mod d \<noteq> 0) [2..<q]" if "q \<in> {3, 5, 17, 257}" for q
    using that by (auto simp: upt_rec_numeral)
  ultimately show "d \<in> {2..<3} \<Longrightarrow> \<not> d dvd (3 :: nat)" "d \<in> {2..<5} \<Longrightarrow> \<not> d dvd (5 :: nat)"
    "d \<in> {2..<17} \<Longrightarrow> \<not> d dvd (17 :: nat)" "d \<in> {2..<257} \<Longrightarrow> \<not> d dvd (257 :: nat)"
    by blast+
qed

lemma divisor_of_65535:
  assumes "e dvd (65535 :: nat)"
  shows "e = 1 \<or> (\<exists>q\<in>set [3, 5, 17, 257]. q dvd e)"
proof -
  have "e dvd 65535" by (rule assms)
  then have "e dvd 3 * (5 * (17 * (257 * 1)))" by simp
  then have "3 dvd e \<or> e dvd 5 * (17 * (257 * 1))" by (rule dvd_strip) (use small_primes in simp_all)
  moreover have "5 dvd e \<or> e dvd 17 * (257 * 1)" if "e dvd 5 * (17 * (257 * 1))"
    using that by (rule dvd_strip) (use small_primes in simp_all)
  moreover have "17 dvd e \<or> e dvd 257 * 1" if "e dvd 17 * (257 * 1)"
    using that by (rule dvd_strip) (use small_primes in simp_all)
  moreover have "257 dvd e \<or> e dvd 1" if "e dvd 257 * 1"
    using that by (rule dvd_strip) (use small_primes in simp_all)
  ultimately show ?thesis by auto
qed

lemma poly16_generates: "generates poly16"
proof -
  have "gen_pow poly16 m = 1 \<longleftrightarrow> 65535 dvd m" for m
  proof (rule gen_pow_order [where qs = "[3, 5, 17, 257]"])
    show "gen_pow poly16 65535 = 1"
      using poly16_powers(1) unfolding square_power_eq by simp
    show "gen_pow poly16 (65535 div q) \<noteq> 1" if "q \<in> set [3, 5, 17, 257]" for q
      using that poly16_powers(2-5) unfolding square_power_eq by auto
    show "e = 1 \<or> (\<exists>q\<in>set [3, 5, 17, 257]. q dvd e)" if "e dvd 65535" for e :: nat
      using that by (rule divisor_of_65535)
  qed simp
  then show ?thesis by (simp add: generates_def)
qed

text \<open>After \<open>k\<close> rounds the tables hold the first \<open>k\<close> powers.\<close>

definition tables_upto :: "nat \<Rightarrow> gf16 \<Rightarrow> bool" where
  "tables_upto k gf \<longleftrightarrow> length (gf_exp gf) = FIELD_SIZE * 4 + 1 \<and> length (gf_log gf) = FIELD_SIZE + 1 \<and>
     (\<forall>i<k. gf_exp gf ! i = gen_pow poly16 i \<and> gf_exp gf ! (i + FIELD_SIZE) = gen_pow poly16 i \<and>
        gf_log gf ! unat (gen_pow poly16 i) = word_of_nat i)"

lemma round_tables:
  assumes "tables_upto k gf" "k < FIELD_SIZE"
  shows "case gf16_round k (gf, ucast (gen_pow poly16 k)) of (gf', value) \<Rightarrow>
    tables_upto (Suc k) gf' \<and> value = ucast (gen_pow poly16 (Suc k))"
proof -
  let ?g = "gen_pow poly16"
  have u16: "unat w < 65536" for w :: u16 using unsigned_less [of w] by simp
  have idx: "unat (ucast (?g k) :: u32) = unat (?g k)"
    using u16 [of "?g k"] by (simp add: unsigned_ucast_eq take_bit_nat_eq_self)
  have less: "unat (?g i) < FIELD_SIZE + 1" for i
    using u16 by (simp add: FIELD_SIZE_def)
  have apart: "unat (?g i) \<noteq> unat (?g k)" if "i < k" for i
  proof
    assume "unat (?g i) = unat (?g k)"
    then have "i = k" using gen_pow_inj [OF poly16_generates, of i k] that assms(2)
      by (simp add: word_unat_eq_iff FIELD_SIZE_def)
    then show False using that by simp
  qed
  have down: "ucast (ucast (?g k) :: u32) = ?g k" by (rule bit_word_eqI) (simp add: bit_simps)
  have "v = ucast (?g (Suc k))" if "gf16_round k (gf, ucast (?g k)) = (gf', v)" for gf' v
    using that shift_reduce [of "?g k"] by (simp add: gf16_round_def Let_def gen_pow_Suc)
  moreover have "tables_upto (Suc k) gf'" if "gf16_round k (gf, ucast (?g k)) = (gf', v)" for gf' v
  proof -
    have gf': "gf' = \<lparr>gf_exp = (gf_exp gf)[k := ?g k, k + FIELD_SIZE := ?g k],
        gf_log = (gf_log gf)[unat (?g k) := word_of_nat k]\<rparr>"
      using that idx down by (simp add: gf16_round_def Let_def)
    show ?thesis
      using assms apart apart [THEN not_sym] less unfolding gf' tables_upto_def
      by (auto simp: nth_list_update less_Suc_eq)
  qed
  ultimately show ?thesis by (cases "gf16_round k (gf, ucast (?g k))") simp
qed

lemma new_tables: "tables_upto FIELD_SIZE gf16_new"
proof -
  let ?init = "(\<lparr>gf_exp = replicate (FIELD_SIZE * 4 + 1) 0, gf_log = replicate (FIELD_SIZE + 1) 0\<rparr>, 1)"
  have "case fold gf16_round [0..<k] ?init of (gf, value) \<Rightarrow> tables_upto k gf \<and> value = ucast (gen_pow poly16 k)"
    if "k \<le> FIELD_SIZE" for k
    using that
  proof (induction k)
    case 0
    show ?case by (simp add: tables_upto_def)
  next
    case (Suc k)
    obtain gf v where k: "fold gf16_round [0..<k] ?init = (gf, v)" by fastforce
    then have "tables_upto k gf" "v = ucast (gen_pow poly16 k)" using Suc by auto
    then show ?case using round_tables [of k gf] Suc.prems k by simp
  qed
  then obtain gf v where f: "fold gf16_round [0..<FIELD_SIZE] ?init = (gf, v)" "tables_upto FIELD_SIZE gf"
    by (metis (mono_tags, lifting) case_prod_unfold order_refl prod.collapse)
  have "unat (gen_pow poly16 i) \<noteq> 0" for i
    using gen_pow_nonzero [OF poly16_generates, of i] by (simp add: unat_eq_0)
  then show ?thesis using f(2) unfolding gf16_new_def f(1) by (simp add: tables_upto_def)
qed

lemma field_size: "2 ^ LENGTH(16) - 1 = FIELD_SIZE"
  by (simp add: FIELD_SIZE_def)

lemma log_exists:
  assumes "a \<noteq> 0"
  obtains i where "i < FIELD_SIZE" "a = gen_pow poly16 i" "unat (gf_log gf16_new ! unat a) = i"
proof -
  obtain i where i: "i < FIELD_SIZE" "gen_pow poly16 i = a"
    using gen_pow_surj [OF poly16_generates assms] unfolding field_size by blast
  then have "gf_log gf16_new ! unat a = word_of_nat i" using new_tables by (auto simp: tables_upto_def)
  moreover have "unat (word_of_nat i :: u32) = i"
    using i(1) by (simp add: unsigned_of_nat take_bit_nat_eq_self FIELD_SIZE_def)
  ultimately show ?thesis using that i by metis
qed

lemma exp_table:
  assumes "k < 2 * FIELD_SIZE"
  shows "gf_exp gf16_new ! k = gen_pow poly16 k"
proof (cases "k < FIELD_SIZE")
  case True
  then show ?thesis using new_tables by (simp add: tables_upto_def)
next
  case False
  then obtain i where i: "k = i + FIELD_SIZE" "i < FIELD_SIZE"
    using assms by (metis add.commute le_add_diff_inverse mult_2 nat_add_left_cancel_less not_less)
  have "gen_pow poly16 k = gen_pow poly16 i"
    using gen_pow_cycle(2) [OF poly16_generates, of k] gen_pow_cycle(2) [OF poly16_generates, of i] i
    unfolding field_size by simp
  then show ?thesis using i new_tables by (simp add: tables_upto_def)
qed

text \<open>C15: The multiplication by logarithm tables computes the product of polynomials over
  GF(2) modulo x^16 + x^12 + x^3 + x + 1, for all operands; the table index is always in range.\<close>

theorem gf16_mul_is_clmul: "gf16_mul gf16_new a b = clmul poly16 a b"
proof (cases "a = 0 \<or> b = 0")
  case True
  then show ?thesis by (auto simp: gf16_mul_def)
next
  case False
  then obtain i where i: "i < FIELD_SIZE" "a = gen_pow poly16 i" "unat (gf_log gf16_new ! unat a) = i"
    using log_exists by blast
  from False obtain j where j: "j < FIELD_SIZE" "b = gen_pow poly16 j" "unat (gf_log gf16_new ! unat b) = j"
    using log_exists by blast
  have "unat (gf_log gf16_new ! unat a + gf_log gf16_new ! unat b) = i + j"
    using i(1,3) j(1,3) by (simp add: unat_word_ariths FIELD_SIZE_def)
  moreover have "gf_exp gf16_new ! (i + j) = gen_pow poly16 (i + j)" using i(1) j(1) by (intro exp_table) simp
  ultimately show ?thesis using False i(2) j(2) by (simp add: gf16_mul_def Let_def gen_pow_add)
qed

lemma gf16_inv_correct:
  assumes "a \<noteq> 0"
  shows "\<exists>b. gf16_inv gf16_new a = Inr b \<and> clmul poly16 a b = 1"
proof -
  obtain i where i: "i < FIELD_SIZE" "a = gen_pow poly16 i" "unat (gf_log gf16_new ! unat a) = i"
    using log_exists [OF assms] by blast
  have "unat (word_of_nat FIELD_SIZE - gf_log gf16_new ! unat a) = FIELD_SIZE - i"
  proof -
    have f: "unat (word_of_nat FIELD_SIZE :: u32) = FIELD_SIZE" by (simp add: FIELD_SIZE_def)
    then have "gf_log gf16_new ! unat a \<le> word_of_nat FIELD_SIZE" using i(1,3) by (simp add: word_le_nat_alt)
    then show ?thesis using f i(3) by (simp add: unat_sub)
  qed
  moreover have "gf_exp gf16_new ! (FIELD_SIZE - i) = gen_pow poly16 (FIELD_SIZE - i)"
    by (rule exp_table) (simp add: FIELD_SIZE_def)
  moreover have "clmul poly16 (gen_pow poly16 i) (gen_pow poly16 (FIELD_SIZE - i)) = 1"
    using i(1) gen_pow_cycle(1) [OF poly16_generates, of 1] unfolding field_size by (simp flip: gen_pow_add)
  ultimately show ?thesis using assms i(2) by (simp add: gf16_inv_def Let_def)
qed

text \<open>The reciprocal as a total function, for the interface.\<close>

definition gf16_recip :: "u16 \<Rightarrow> u16" where
  "gf16_recip a = (case gf16_inv gf16_new a of Inl _ \<Rightarrow> 0 | Inr b \<Rightarrow> b)"

lemma gf16_inv_recip: "a \<noteq> 0 \<Longrightarrow> gf16_inv gf16_new a = Inr (gf16_recip a)"
  using gf16_inv_correct [of a] by (auto simp: gf16_recip_def)

interpretation gf16: binary_field "gf16_mul gf16_new" gf16_recip
proof
  fix a b c :: u16
  show "gf16_mul gf16_new a b = gf16_mul gf16_new b a" by (simp add: gf16_mul_is_clmul clmul_commute)
  show "gf16_mul gf16_new (gf16_mul gf16_new a b) c = gf16_mul gf16_new a (gf16_mul gf16_new b c)"
    by (simp add: gf16_mul_is_clmul clmul_assoc)
  show "gf16_mul gf16_new 1 a = a" by (simp add: gf16_mul_is_clmul clmul_one_left)
  show "gf16_mul gf16_new a (b XOR c) = gf16_mul gf16_new a b XOR gf16_mul gf16_new a c"
    by (simp add: gf16_mul_is_clmul clmul_xor_right)
  show "a \<noteq> 0 \<Longrightarrow> gf16_mul gf16_new a (gf16_recip a) = 1"
    using gf16_inv_correct [of a] by (auto simp: gf16_mul_is_clmul gf16_recip_def)
qed

end
