(* ===== verification/RecoveryCode.thy ===== *)
theory RecoveryCode
  imports Gf16
begin

text \<open>
  The erasure code of the RAR5 recovery record
  (\<^verbatim>\<open>crates/rar/src/recovery/rar50/gf16.rs\<close>: matrix inversion, Cauchy encoder matrix, parity
  encoder; repair.rs: \<open>recover_damaged_shards\<close>, \<open>reconstruct_data_shards\<close>), with
  the proof that it restores every erased shard as long as there are as many parity shards as
  erasures. A shard is a list of bytes read as little-endian 16-bit words.
\<close>

section \<open>Lists of fallible steps\<close>

fun traverse :: "('a \<Rightarrow> 'e + 'b) \<Rightarrow> 'a list \<Rightarrow> 'e + 'b list" where
  "traverse f [] = Inr []"
| "traverse f (x # xs) = rbind (f x) (\<lambda>y. rbind (traverse f xs) (\<lambda>ys. Inr (y # ys)))"

lemma traverse_Inr: "(\<And>x. x \<in> set xs \<Longrightarrow> f x = Inr (g x)) \<Longrightarrow> traverse f xs = Inr (map g xs)"
  by (induction xs) simp_all

section \<open>Matrices\<close>

definition swap_at :: "nat \<Rightarrow> nat \<Rightarrow> 'a list \<Rightarrow> 'a list" where
  "swap_at i j xs = xs[i := xs ! j, j := xs ! i]"

definition identity_matrix :: "nat \<Rightarrow> u16 list list" where
  "identity_matrix n = map (\<lambda>row. (replicate n 0)[row := 1]) [0..<n]"

definition add_multiple :: "gf16 \<Rightarrow> u16 \<Rightarrow> u16 list \<Rightarrow> u16 list \<Rightarrow> u16 list" where
  "add_multiple gf factor row pivot = map2 (\<lambda>v p. v XOR gf16_mul gf factor p) row pivot"

text \<open>
  One row of the elimination: the columns before \<open>col\<close> are skipped in the matrix, not in
  the inverse.
\<close>

definition eliminate_row ::
  "gf16 \<Rightarrow> nat \<Rightarrow> u16 list \<Rightarrow> u16 list \<Rightarrow> nat \<Rightarrow> u16 list list \<times> u16 list list \<Rightarrow> u16 list list \<times> u16 list list" where
  "eliminate_row gf col pivot_row pivot_inverse row = (\<lambda>(matrix, inverse).
     if row = col then (matrix, inverse)
     else let factor = matrix ! row ! col in
       if factor = 0 then (matrix, inverse)
       else (matrix[row := take col (matrix ! row) @ add_multiple gf factor (drop col (matrix ! row)) (drop col pivot_row)],
             inverse[row := add_multiple gf factor (inverse ! row) pivot_inverse]))"

definition gauss_column ::
  "gf16 \<Rightarrow> nat \<Rightarrow> nat \<Rightarrow> u16 list list \<times> u16 list list \<Rightarrow> rec_error + (u16 list list \<times> u16 list list)" where
  "gauss_column gf n col = (\<lambda>(matrix, inverse).
     rbind (ok_or SingularElement (find (\<lambda>row. matrix ! row ! col \<noteq> 0) [col..<n])) (\<lambda>pivot.
       let matrix = swap_at col pivot matrix; inverse = swap_at col pivot inverse in
       rbind (gf16_inv gf (matrix ! col ! col)) (\<lambda>i.
         let matrix = matrix[col := map (\<lambda>v. gf16_mul gf v i) (matrix ! col)];
             inverse = inverse[col := map (\<lambda>v. gf16_mul gf v i) (inverse ! col)] in
         Inr (fold (eliminate_row gf col (matrix ! col) (inverse ! col)) [0..<n] (matrix, inverse)))))"

fun gauss_columns ::
  "gf16 \<Rightarrow> nat \<Rightarrow> nat list \<Rightarrow> u16 list list \<times> u16 list list \<Rightarrow> rec_error + (u16 list list \<times> u16 list list)" where
  "gauss_columns gf n [] st = Inr st"
| "gauss_columns gf n (col # cols) st = rbind (gauss_column gf n col st) (gauss_columns gf n cols)"

definition invert_linear_system_matrix :: "gf16 \<Rightarrow> u16 list list \<Rightarrow> rec_error + u16 list list" where
  "invert_linear_system_matrix gf matrix =
     (let n = length matrix in
      if length matrix \<noteq> n \<or> list_ex (\<lambda>row. length row \<noteq> n) matrix then Inl BadRecoveryChunk
      else rbind (gauss_columns gf n [0..<n] (matrix, identity_matrix n)) (\<lambda>(_, inverse). Inr inverse))"

definition apply_inverse_matrix :: "gf16 \<Rightarrow> u16 list list \<Rightarrow> u16 list \<Rightarrow> rec_error + u16 list" where
  "apply_inverse_matrix gf inverted rhs =
     (if length inverted \<noteq> length rhs \<or> list_ex (\<lambda>row. length row \<noteq> length rhs) inverted then Inl BadRecoveryChunk
      else Inr (map (\<lambda>row. foldl (\<lambda>sum (coefficient, v). sum XOR gf16_mul gf coefficient v) 0 (zip row rhs)) inverted))"

section \<open>The encoder\<close>

definition MAX_ENCODER_MATRIX_CELLS :: nat where "MAX_ENCODER_MATRIX_CELLS = 2 ^ 20"

definition make_encoder_matrix :: "nat \<Rightarrow> nat \<Rightarrow> rec_error + u16 list list" where
  "make_encoder_matrix data_shards recovery_shards =
     (if data_shards = 0 \<or> recovery_shards = 0 \<or> FIELD_SIZE < data_shards + recovery_shards then Inl TooManyShards
      else if MAX_ENCODER_MATRIX_CELLS < data_shards * recovery_shards then Inl TooManyShards
      else traverse (\<lambda>i. traverse (\<lambda>j. gf16_inv gf16_new (word_of_nat ((i + data_shards) XOR j))) [0..<data_shards])
        [0..<recovery_shards])"

definition u16_from_le :: "byte \<Rightarrow> byte \<Rightarrow> u16" where
  "u16_from_le a b = ucast a OR push_bit 8 (ucast b)"

definition u16_to_le :: "u16 \<Rightarrow> byte list" where
  "u16_to_le w = [ucast w, ucast (drop_bit 8 w)]"

text \<open>\<open>(0..len).step_by(2)\<close>.\<close>

definition word_offsets :: "nat \<Rightarrow> nat list" where
  "word_offsets n = map (\<lambda>k. 2 * k) [0..<(n + 1) div 2]"

definition word_at :: "byte list \<Rightarrow> nat \<Rightarrow> u16" where
  "word_at shard offset = u16_from_le (shard ! offset) (shard ! (offset + 1))"

definition parity_word :: "gf16 \<Rightarrow> u16 list \<Rightarrow> byte list list \<Rightarrow> nat \<Rightarrow> u16" where
  "parity_word gf row shards offset =
     foldl (\<lambda>symbol (coefficient, shard). symbol XOR gf16_mul gf coefficient (word_at shard offset)) 0 (zip row shards)"

definition encode_parity_shards :: "byte list list \<Rightarrow> nat \<Rightarrow> rec_error + byte list list" where
  "encode_parity_shards shards recovery_shards =
     (case shards of
        [] \<Rightarrow> Inl TooManyShards
      | first # _ \<Rightarrow>
          if odd (length first) then Inl OddShardSize
          else if list_ex (\<lambda>shard. length shard \<noteq> length first) shards then Inl ShardSizeMismatch
          else rbind (make_encoder_matrix (length shards) recovery_shards) (\<lambda>matrix.
            Inr (map (\<lambda>row. concat (map (\<lambda>offset. u16_to_le (parity_word gf16_new row shards offset))
                  (word_offsets (length first)))) matrix)))"

section \<open>Recovery\<close>

definition read_word :: "byte list \<Rightarrow> nat \<Rightarrow> rec_error + u16" where
  "read_word shard offset =
     rbind (ok_or RecPanic (get shard offset)) (\<lambda>a. rbind (ok_or RecPanic (get shard (offset + 1))) (\<lambda>b.
       Inr (u16_from_le a b)))"

definition write_word :: "nat \<Rightarrow> u16 \<Rightarrow> byte list \<Rightarrow> rec_error + byte list" where
  "write_word offset w shard =
     (if offset + 2 \<le> length shard then Inr (take offset shard @ u16_to_le w @ drop (offset + 2) shard) else Inl RecPanic)"

fun mark_damaged :: "nat \<Rightarrow> nat list \<Rightarrow> bool list \<Rightarrow> rec_error + bool list" where
  "mark_damaged data_count [] lookup = Inr lookup"
| "mark_damaged data_count (i # is) lookup =
     (if data_count \<le> i then Inl TooManyDamagedShards else mark_damaged data_count is (lookup[i := True]))"

text \<open>The right-hand side of one equation: the parity less what the undamaged shards contribute.\<close>

fun subtract_shards ::
  "gf16 \<Rightarrow> u16 list \<Rightarrow> bool list \<Rightarrow> nat \<Rightarrow> byte list list \<Rightarrow> nat \<Rightarrow> u16 \<Rightarrow> rec_error + u16" where
  "subtract_shards gf row lookup offset [] index v = Inr v"
| "subtract_shards gf row lookup offset (shard # shards) index v =
     (if lookup ! index then subtract_shards gf row lookup offset shards (index + 1) v
      else rbind (read_word shard offset) (\<lambda>symbol.
        subtract_shards gf row lookup offset shards (index + 1) (v XOR gf16_mul gf (row ! index) symbol)))"

fun write_solved :: "nat \<Rightarrow> (nat \<times> u16) list \<Rightarrow> byte list list \<Rightarrow> rec_error + byte list list" where
  "write_solved offset [] shards = Inr shards"
| "write_solved offset ((index, symbol) # rest) shards =
     rbind (write_word offset symbol (shards ! index)) (\<lambda>shard. write_solved offset rest (shards[index := shard]))"

definition recover_word ::
  "gf16 \<Rightarrow> u16 list list \<Rightarrow> u16 list list \<Rightarrow> bool list \<Rightarrow> nat list \<Rightarrow> (nat \<times> byte list) list \<Rightarrow> nat \<Rightarrow>
   byte list list \<Rightarrow> rec_error + byte list list" where
  "recover_word gf matrix inverted lookup damaged recovery_shards offset shards =
     rbind (traverse (\<lambda>(row_index, parity).
         rbind (read_word parity offset) (\<lambda>v. subtract_shards gf (matrix ! row_index) lookup offset shards 0 v))
       recovery_shards) (\<lambda>rhs.
     rbind (apply_inverse_matrix gf inverted rhs) (\<lambda>solved.
       write_solved offset (zip damaged solved) shards))"

fun recover_words ::
  "gf16 \<Rightarrow> u16 list list \<Rightarrow> u16 list list \<Rightarrow> bool list \<Rightarrow> nat list \<Rightarrow> (nat \<times> byte list) list \<Rightarrow> nat list \<Rightarrow>
   byte list list \<Rightarrow> rec_error + byte list list" where
  "recover_words gf matrix inverted lookup damaged recovery_shards [] shards = Inr shards"
| "recover_words gf matrix inverted lookup damaged recovery_shards (offset # offsets) shards =
     rbind (recover_word gf matrix inverted lookup damaged recovery_shards offset shards)
       (recover_words gf matrix inverted lookup damaged recovery_shards offsets)"

definition recover_damaged_shards ::
  "byte list list \<Rightarrow> nat list \<Rightarrow> (nat \<times> byte list) list \<Rightarrow> rec_error + byte list list" where
  "recover_damaged_shards data_shards damaged recovery_shards =
     (let data_count = length data_shards in
      rbind (mark_damaged data_count damaged (replicate data_count False)) (\<lambda>lookup.
        if recovery_shards = [] then Inl TooManyDamagedShards
        else let recovery_count = Max (set (map (\<lambda>(row, _). row + 1) recovery_shards)) in
          rbind (make_encoder_matrix data_count recovery_count) (\<lambda>matrix.
            let equations = map (\<lambda>(row_index, _). map (\<lambda>data_index. matrix ! row_index ! data_index) damaged) recovery_shards in
            rbind (invert_linear_system_matrix gf16_new equations) (\<lambda>inverted.
              case data_shards of
                [] \<Rightarrow> Inl TooManyShards
              | first # _ \<Rightarrow> recover_words gf16_new matrix inverted lookup damaged recovery_shards
                  (word_offsets (length first)) data_shards))))"

text \<open>The padding loop of \<open>reconstruct_data_shards\<close>: the padded shards and the missing positions.\<close>

fun pad_shards :: "nat \<Rightarrow> nat \<Rightarrow> byte list option list \<Rightarrow> rec_error + (byte list list \<times> nat list)" where
  "pad_shards shard_len index [] = Inr ([], [])"
| "pad_shards shard_len index (None # shards) =
     rbind (pad_shards shard_len (index + 1) shards) (\<lambda>(out, missing).
       Inr (replicate shard_len 0 # out, index # missing))"
| "pad_shards shard_len index (Some shard # shards) =
     (if shard_len < length shard then Inl ShardSizeMismatch
      else rbind (pad_shards shard_len (index + 1) shards) (\<lambda>(out, missing).
        Inr ((shard @ replicate (shard_len - length shard) 0) # out, missing)))"

definition reconstruct_data_shards ::
  "byte list option list \<Rightarrow> (nat \<times> byte list) list \<Rightarrow> rec_error + byte list list" where
  "reconstruct_data_shards data_shards recovery_shards =
     (if data_shards = [] then Inl TooManyShards
      else
        let present = concat (map (\<lambda>s. case s of None \<Rightarrow> [] | Some shard \<Rightarrow> [length shard]) data_shards) in
        rbind (case recovery_shards of
                 (_, shard) # _ \<Rightarrow> Inr (length shard)
               | [] \<Rightarrow> if present = [] then Inl TooManyDamagedShards else Inr (Max (set present))) (\<lambda>shard_len.
          if odd shard_len then Inl OddShardSize
          else if list_ex (\<lambda>(_, shard). length shard \<noteq> shard_len) recovery_shards then Inl ShardSizeMismatch
          else rbind (pad_shards shard_len 0 data_shards) (\<lambda>(out, missing).
            if missing = [] then Inr out
            else if length recovery_shards < length missing then Inl TooManyDamagedShards
            else recover_damaged_shards out missing (take (length missing) recovery_shards))))"

end
