(* ===== verification/RecoveryPlan.thy ===== *)
theory RecoveryPlan
  imports RecoveryCode
begin

text \<open>
  The geometry of a RAR5 inline recovery record and its writer
  (\<^verbatim>\<open>crates/rar/src/recovery/rar50/plan.rs\<close> and encode.rs): the plan, the CRC-64
  of the record, the cut of the protected prefix into shards, and the chunks laid out one per
  64 KiB block of every parity shard. The fields are \<open>u64\<close> values held as naturals: every
  checked operation tests against 2^64 as the code does, and \<open>usize\<close> is taken to be 64 bits
  wide, so its conversions do not fail.
\<close>

section \<open>Checked arithmetic and fallible loops\<close>

definition checked_add :: "nat \<Rightarrow> nat \<Rightarrow> nat option" where
  "checked_add a b = (if a + b < 2 ^ 64 then Some (a + b) else None)"

definition checked_mul :: "nat \<Rightarrow> nat \<Rightarrow> nat option" where
  "checked_mul a b = (if a * b < 2 ^ 64 then Some (a * b) else None)"

definition sat_add :: "nat \<Rightarrow> nat \<Rightarrow> nat" where
  "sat_add a b = min (a + b) (2 ^ 64 - 1)"

definition sat_mul :: "nat \<Rightarrow> nat \<Rightarrow> nat" where
  "sat_mul a b = min (a * b) (2 ^ 64 - 1)"

definition div_ceil :: "nat \<Rightarrow> nat \<Rightarrow> nat" where
  "div_ceil a b = a div b + (if a mod b = 0 then 0 else 1)"

text \<open>\<open>u16::try_from\<close> and \<open>u32::try_from\<close>, with the error the callers map them to.\<close>

definition narrow :: "nat \<Rightarrow> nat \<Rightarrow> rec_error + nat" where
  "narrow width v = (if v < 2 ^ width then Inr v else Inl PlanOverflow)"

fun fold_result :: "('x \<Rightarrow> 's \<Rightarrow> 'e + 's) \<Rightarrow> 'x list \<Rightarrow> 's \<Rightarrow> 'e + 's" where
  "fold_result f [] s = Inr s"
| "fold_result f (x # xs) s = rbind (f x s) (fold_result f xs)"

text \<open>\<open>&bytes[a..b]\<close> for a range inside the slice.\<close>

definition sub_slice :: "'a list \<Rightarrow> nat \<times> nat \<Rightarrow> 'a list" where
  "sub_slice xs r = take (snd r - fst r) (drop (fst r) xs)"

text \<open>\<open>to_le_bytes\<close> and \<open>from_le_bytes\<close> at \<open>n\<close> bytes.\<close>

fun to_le :: "nat \<Rightarrow> nat \<Rightarrow> byte list" where
  "to_le 0 v = []"
| "to_le (Suc n) v = word_of_nat v # to_le n (v div 256)"

fun from_le :: "byte list \<Rightarrow> nat" where
  "from_le [] = 0"
| "from_le (b # bs) = unat b + 256 * from_le bs"

definition read_le :: "nat \<Rightarrow> byte list \<Rightarrow> nat \<Rightarrow> rec_error + nat" where
  "read_le n input offset =
     (if offset + n \<le> length input then Inr (from_le (take n (drop offset input))) else Inl BadRecoveryChunk)"

definition read_u32 :: "byte list \<Rightarrow> nat \<Rightarrow> rec_error + nat" where
  "read_u32 = read_le 4"

definition read_u64 :: "byte list \<Rightarrow> nat \<Rightarrow> rec_error + nat" where
  "read_u64 = read_le 8"

section \<open>CRC-64\<close>

definition CRC64_XZ_POLY :: u64 where "CRC64_XZ_POLY = 0xc96c5795d7870f42"
definition CRC64_XZ_INIT :: u64 where "CRC64_XZ_INIT = 0xffffffffffffffff"

definition crc64_bit :: "u64 \<Rightarrow> u64" where
  "crc64_bit crc = (let m = 0 - (crc AND 1) in drop_bit 1 crc XOR (CRC64_XZ_POLY AND m))"

definition crc64_byte :: "u64 \<Rightarrow> byte \<Rightarrow> u64" where
  "crc64_byte crc b = (crc64_bit ^^ 8) (crc XOR ucast b)"

definition crc64_update :: "byte list \<Rightarrow> u64 \<Rightarrow> u64" where
  "crc64_update input initial = foldl crc64_byte initial input"

definition crc64_xz :: "byte list \<Rightarrow> u64" where
  "crc64_xz input = crc64_update input CRC64_XZ_INIT XOR CRC64_XZ_INIT"

definition crc64_rar_state :: "byte list \<Rightarrow> u64" where
  "crc64_rar_state input = crc64_update input 0"

section \<open>The plan\<close>

definition KIB :: nat where "KIB = 1024"
definition MAX_WINRAR602_DATA_SHARDS :: nat where "MAX_WINRAR602_DATA_SHARDS = 200"
definition RAR5_RECOVERY_BLOCK_PAYLOAD_SIZE :: nat where "RAR5_RECOVERY_BLOCK_PAYLOAD_SIZE = 64 * KIB"
definition RAR5_RECOVERY_CHUNK_FIXED_HEADER_SIZE :: nat where "RAR5_RECOVERY_CHUNK_FIXED_HEADER_SIZE = 0x48"

record inline_recovery_plan =
  data_shards :: nat
  recovery_shards :: nat
  group_count :: nat
  header_size :: nat
  shard_size :: nat

definition payload_size :: "inline_recovery_plan \<Rightarrow> rec_error + nat" where
  "payload_size plan = ok_or PlanOverflow (checked_mul (recovery_shards plan) (shard_size plan))"

definition blocks_per_shard :: "inline_recovery_plan \<Rightarrow> nat" where
  "blocks_per_shard plan = max (div_ceil (group_count plan) RAR5_RECOVERY_BLOCK_PAYLOAD_SIZE) 1"

definition block_payload_len :: "inline_recovery_plan \<Rightarrow> nat \<Rightarrow> nat" where
  "block_payload_len plan block =
     min (group_count plan - sat_mul block RAR5_RECOVERY_BLOCK_PAYLOAD_SIZE) RAR5_RECOVERY_BLOCK_PAYLOAD_SIZE"

definition block_offset :: "inline_recovery_plan \<Rightarrow> nat \<Rightarrow> nat" where
  "block_offset plan block = min (sat_mul block RAR5_RECOVERY_BLOCK_PAYLOAD_SIZE) (group_count plan)"

definition plan_inline_recovery :: "nat \<Rightarrow> nat \<Rightarrow> rec_error + inline_recovery_plan" where
  "plan_inline_recovery archive_size recovery_percent =
     (let pct = min recovery_percent 100;
          ds = (if 200 * KIB \<le> archive_size then MAX_WINRAR602_DATA_SHARDS else max (div_ceil archive_size KIB) 1);
          rs = min (2 * pct * ds div 200) ds;
          rs = (if rs = 0 \<and> archive_size < 200 * KIB then 1 else rs);
          gc = div_ceil archive_size ds;
          gc = gc + gc mod 2 in
      rbind (ok_or PlanOverflow (case checked_mul ds 8 of None \<Rightarrow> None
               | Some v \<Rightarrow> checked_add v RAR5_RECOVERY_CHUNK_FIXED_HEADER_SIZE)) (\<lambda>hs.
      rbind (ok_or PlanOverflow (case checked_mul (max (div_ceil gc RAR5_RECOVERY_BLOCK_PAYLOAD_SIZE) 1) hs of None \<Rightarrow> None
               | Some headers \<Rightarrow> checked_add headers gc)) (\<lambda>ss.
        Inr \<lparr>data_shards = ds, recovery_shards = rs, group_count = gc, header_size = hs, shard_size = ss\<rparr>)))"

definition inline_recovery_payload_len :: "nat \<Rightarrow> nat \<Rightarrow> rec_error + nat" where
  "inline_recovery_payload_len prefix_len recovery_percent =
     rbind (plan_inline_recovery prefix_len recovery_percent) payload_size"

section \<open>The prefix in shards\<close>

definition shard_block_range :: "nat \<times> nat \<Rightarrow> nat \<Rightarrow> nat \<times> nat" where
  "shard_block_range r block =
     (let len = snd r - fst r;
          start = min (sat_mul block RAR5_RECOVERY_BLOCK_PAYLOAD_SIZE) len;
          stop = min (sat_add start RAR5_RECOVERY_BLOCK_PAYLOAD_SIZE) len in
      (fst r + start, fst r + stop))"

definition split_prefix_shard_ranges :: "nat \<Rightarrow> inline_recovery_plan \<Rightarrow> rec_error + (nat \<times> nat) list" where
  "split_prefix_shard_ranges prefix_len plan =
     rbind (ok_or PlanOverflow (checked_mul (data_shards plan) (group_count plan))) (\<lambda>capacity.
       if capacity < prefix_len then Inl PrefixExceedsPlan
       else traverse (\<lambda>shard_index.
              rbind (ok_or PlanOverflow (checked_mul shard_index (group_count plan))) (\<lambda>start.
                let start = min start prefix_len in
                Inr (start, min (sat_add start (group_count plan)) prefix_len)))
            [0..<data_shards plan])"

definition split_prefix_shards :: "byte list \<Rightarrow> inline_recovery_plan \<Rightarrow> rec_error + byte list list" where
  "split_prefix_shards prefix plan =
     rbind (split_prefix_shard_ranges (length prefix) plan) (\<lambda>ranges.
       Inr (map (\<lambda>r. if fst r < snd r then sub_slice prefix r @ replicate (group_count plan - (snd r - fst r)) 0
                     else replicate (group_count plan) 0) ranges))"

section \<open>The writer\<close>

definition RB_MARKER :: "byte list" where "RB_MARKER = [0x7b, 0x52, 0x42, 0x7d]"

text \<open>
  One chunk: the header with a zero checksum, the parity of the block, then the checksum written
  into bytes 4 to 12.
\<close>

definition rb_header ::
  "inline_recovery_plan \<Rightarrow> nat \<Rightarrow> nat \<Rightarrow> nat \<Rightarrow> nat \<Rightarrow> u64 list \<Rightarrow> u64 \<Rightarrow> nat \<Rightarrow> byte list" where
  "rb_header plan shard_index block total_size data_extent states final_state archive_len =
     RB_MARKER @ to_le 8 0 @ to_le 4 total_size @ to_le 4 (header_size plan) @ [1, 1] @
     to_le 8 (block_offset plan block) @ to_le 4 data_extent @ to_le 8 archive_len @
     to_le 8 (group_count plan) @ to_le 8 (shard_size plan) @ to_le 2 (data_shards plan) @
     to_le 2 (recovery_shards plan) @ to_le 2 shard_index @
     concat (map (\<lambda>state. to_le 8 (unat state)) states) @ to_le 8 (unat final_state)"

definition seal_chunk :: "byte list \<Rightarrow> byte list" where
  "seal_chunk chunk = take 4 chunk @ to_le 8 (unat (crc64_xz (drop 0x0c chunk))) @ drop 0x0c chunk"

definition assemble_chunk ::
  "inline_recovery_plan \<Rightarrow> u64 list list \<Rightarrow> u64 \<Rightarrow> nat \<Rightarrow> nat \<Rightarrow> nat \<Rightarrow> byte list \<Rightarrow> nat \<Rightarrow> rec_error + byte list" where
  "assemble_chunk plan block_states final_state archive_len last_shard_len shard_index payload block =
     (let offset = block_offset plan block; block_len = block_payload_len plan block in
      rbind (ok_or PlanOverflow (checked_add offset block_len)) (\<lambda>block_end.
      rbind (if block_end \<le> length payload then Inr (sub_slice payload (offset, block_end)) else Inl PlanOverflow) (\<lambda>payload_slice.
      rbind (ok_or PlanOverflow (checked_add (header_size plan) block_len)) (\<lambda>total.
      rbind (narrow 32 total) (\<lambda>total_size.
      rbind (narrow 32 (min (last_shard_len - offset) block_len)) (\<lambda>data_extent.
      rbind (narrow 16 shard_index) (\<lambda>index.
      rbind (ok_or PlanOverflow (get block_states block)) (\<lambda>states.
        let header = rb_header plan index block total_size data_extent states final_state archive_len in
        if length header \<noteq> header_size plan then Inl PlanOverflow
        else let chunk = header @ payload_slice in
          if length chunk \<noteq> total_size then Inl PlanOverflow
          else Inr (seal_chunk chunk)))))))))"

definition assemble_shard ::
  "inline_recovery_plan \<Rightarrow> u64 list list \<Rightarrow> u64 \<Rightarrow> nat \<Rightarrow> nat \<Rightarrow> nat \<times> byte list \<Rightarrow> rec_error + byte list" where
  "assemble_shard plan block_states final_state archive_len last_shard_len = (\<lambda>(shard_index, payload).
     if length payload \<noteq> group_count plan then Inl PlanOverflow
     else rbind (traverse (assemble_chunk plan block_states final_state archive_len last_shard_len shard_index payload)
            [0..<blocks_per_shard plan]) (\<lambda>chunks. Inr (concat chunks)))"

definition assemble_recovery_data ::
  "inline_recovery_plan \<Rightarrow> byte list list \<Rightarrow> u64 list list \<Rightarrow> u64 \<Rightarrow> nat \<Rightarrow> rec_error + byte list" where
  "assemble_recovery_data plan parity block_states final_state archive_len =
     rbind (payload_size plan) (\<lambda>total_len.
     rbind (narrow 32 (header_size plan)) (\<lambda>_.
     rbind (narrow 16 (data_shards plan)) (\<lambda>_.
     rbind (narrow 16 (recovery_shards plan)) (\<lambda>_.
       let last_shard_len = min (archive_len - sat_mul (data_shards plan - 1) (group_count plan)) (group_count plan) in
       rbind (traverse (assemble_shard plan block_states final_state archive_len last_shard_len) (enumerate 0 parity)) (\<lambda>shards.
         let out = concat shards in
         if length out \<noteq> total_len then Inl PlanOverflow else Inr out)))))"

definition encode_inline_recovery_parity ::
  "byte list \<Rightarrow> nat \<Rightarrow> rec_error + (inline_recovery_plan \<times> byte list list)" where
  "encode_inline_recovery_parity archive_prefix recovery_percent =
     rbind (plan_inline_recovery (length archive_prefix) recovery_percent) (\<lambda>plan.
     rbind (split_prefix_shards archive_prefix plan) (\<lambda>shards.
     rbind (payload_size plan) (\<lambda>_.
     rbind (encode_parity_shards shards (recovery_shards plan)) (\<lambda>parity. Inr (plan, parity)))))"

definition build_structural_inline_recovery_data :: "byte list \<Rightarrow> nat \<Rightarrow> rec_error + byte list" where
  "build_structural_inline_recovery_data archive_prefix recovery_percent =
     rbind (encode_inline_recovery_parity archive_prefix recovery_percent) (\<lambda>(plan, parity).
     rbind (split_prefix_shard_ranges (length archive_prefix) plan) (\<lambda>shard_ranges.
       let block_states = map (\<lambda>block. map (\<lambda>r. crc64_rar_state (sub_slice archive_prefix (shard_block_range r block))) shard_ranges)
             [0..<blocks_per_shard plan];
           final_state = (case parity of [] \<Rightarrow> 0 | payload # _ \<Rightarrow> crc64_rar_state payload) in
       assemble_recovery_data plan parity block_states final_state (length archive_prefix)))"

end
