(* ===== verification/RecoveryRecord.thy ===== *)
theory RecoveryRecord
  imports RecoveryPlan Vint
begin

text \<open>
  Reading a RAR5 inline recovery record and repairing from it
  (\<^verbatim>\<open>crates/rar/src/recovery/rar50/repair.rs\<close>): the chunk parser, the marker scan,
  the assembly of whole parity shards out of 64 KiB chunks, the two repair routines over a protected
  prefix (with and without the whole prefix in memory) and the repair of an archive. The
  cancellation flag is not modelled, allocations never fail, and the reader of the second routine is a
  function from ranges to bytes.
\<close>

section \<open>Chunks\<close>

record inline_recovery_chunk =
  chunk_plan :: inline_recovery_plan
  protected_size :: nat
  chunk_shard_index :: nat
  block_states :: "(nat \<times> nat list) list"
  chunk_offset :: nat
  legacy_whole_shard :: bool
  chunk_parity :: "byte list"

definition chunk_len :: "inline_recovery_chunk \<Rightarrow> nat" where
  "chunk_len chunk = sat_add (header_size (chunk_plan chunk)) (length (chunk_parity chunk))"

text \<open>The loop over the recorded blocks: \<open>None\<close> when there is no state to compare.\<close>

fun blocks_match :: "byte list \<Rightarrow> nat \<Rightarrow> bool \<Rightarrow> (nat \<times> nat list) list \<Rightarrow> bool option" where
  "blocks_match bytes index checked [] = (if checked then Some True else None)"
| "blocks_match bytes index checked ((block, states) # rest) =
     (case get states index of
        None \<Rightarrow> None
      | Some state \<Rightarrow>
          let start = min (sat_mul block RAR5_RECOVERY_BLOCK_PAYLOAD_SIZE) (length bytes);
              stop = min (sat_add start RAR5_RECOVERY_BLOCK_PAYLOAD_SIZE) (length bytes) in
          if unat (crc64_rar_state (sub_slice bytes (start, stop))) \<noteq> state then Some False
          else blocks_match bytes index True rest)"

definition bytes_match :: "inline_recovery_chunk \<Rightarrow> byte list \<Rightarrow> nat \<Rightarrow> bool option" where
  "bytes_match chunk bytes index =
     (if legacy_whole_shard chunk then
        case block_states chunk of
          [] \<Rightarrow> None
        | (_, states) # _ \<Rightarrow>
            (case get states index of
               None \<Rightarrow> None
             | Some state \<Rightarrow> Some (unat (crc64_rar_state bytes) = state))
      else blocks_match bytes index False (block_states chunk))"

definition shard_matches :: "inline_recovery_chunk \<Rightarrow> byte list \<Rightarrow> nat \<times> nat \<Rightarrow> nat \<Rightarrow> bool option" where
  "shard_matches chunk prefix r index =
     (if fst r \<le> snd r \<and> snd r \<le> length prefix then bytes_match chunk (sub_slice prefix r) index else None)"

section \<open>Parsing one chunk\<close>

text \<open>Marker, sizes, checksum and version: the header size and the total size.\<close>

definition parse_chunk_frame :: "byte list \<Rightarrow> rec_error + (nat \<times> nat)" where
  "parse_chunk_frame input =
     (if length input < 0x48 \<or> take 4 input \<noteq> RB_MARKER then Inl BadRecoveryChunk
      else rbind (read_u32 input 0x0c) (\<lambda>total_size.
      rbind (read_u32 input 0x10) (\<lambda>header_size.
        if header_size < RAR5_RECOVERY_CHUNK_FIXED_HEADER_SIZE \<or> total_size < header_size then Inl BadRecoveryChunk
        else if length input < total_size then Inl BadRecoveryChunk
        else rbind (read_u64 input 0x04) (\<lambda>expected_crc.
          if unat (crc64_xz (sub_slice input (0x0c, total_size))) \<noteq> expected_crc then Inl BadRecoveryChunk
          else if input ! 0x14 \<noteq> 1 \<or> input ! 0x15 \<noteq> 1 then Inl BadRecoveryChunk
          else Inr (header_size, total_size)))))"

text \<open>The plan of the chunk and its checks.\<close>

definition parse_chunk_plan :: "byte list \<Rightarrow> nat \<Rightarrow> rec_error + (nat \<times> nat \<times> nat \<times> inline_recovery_plan)" where
  "parse_chunk_plan input hs =
     rbind (read_u64 input 0x22) (\<lambda>protected.
     rbind (read_u64 input 0x2a) (\<lambda>gc.
       if odd gc then Inl OddShardSize
       else rbind (read_u64 input 0x32) (\<lambda>ss.
       rbind (read_u64 input 0x16) (\<lambda>offset.
       rbind (read_le 2 input 0x3a) (\<lambda>ds.
       rbind (read_le 2 input 0x3c) (\<lambda>rs.
       rbind (read_le 2 input 0x3e) (\<lambda>index.
         let plan = \<lparr>data_shards = ds, recovery_shards = rs, group_count = gc, header_size = hs, shard_size = ss\<rparr> in
         rbind (payload_size plan) (\<lambda>payload.
         rbind (ok_or PlanOverflow (checked_mul rs ss)) (\<lambda>whole.
           if payload \<noteq> whole \<or> rs \<le> index \<or> hs \<noteq> 0x48 + ds * 8 then Inl BadRecoveryChunk
           else if ss < sat_add gc hs \<or> (ss - gc) mod hs \<noteq> 0 \<or> (ss - gc) div hs = 0 then Inl BadRecoveryChunk
           else Inr (protected, offset, index, plan))))))))))"

definition parse_inline_recovery_chunk :: "byte list \<Rightarrow> rec_error + inline_recovery_chunk" where
  "parse_inline_recovery_chunk input =
     rbind (parse_chunk_frame input) (\<lambda>(hs, total_size).
     rbind (parse_chunk_plan input hs) (\<lambda>(protected, offset, index, plan).
       let legacy = (shard_size plan - group_count plan) div hs = 1 \<and> 1 < blocks_per_shard plan in
       rbind (traverse (\<lambda>i. read_u64 input (0x40 + 8 * i)) [0..<data_shards plan]) (\<lambda>states.
       rbind (read_u64 input (0x40 + 8 * data_shards plan)) (\<lambda>_.
         let parity = sub_slice input (hs, total_size) in
         if group_count plan < sat_add offset (length parity) then Inl BadRecoveryChunk
         else if offset mod RAR5_RECOVERY_BLOCK_PAYLOAD_SIZE \<noteq> 0 then Inl BadRecoveryChunk
         else Inr \<lparr>chunk_plan = plan, protected_size = protected, chunk_shard_index = index,
                   block_states = [(offset div RAR5_RECOVERY_BLOCK_PAYLOAD_SIZE, states)],
                   chunk_offset = offset, legacy_whole_shard = legacy, chunk_parity = parity\<rparr>))))"

lemma parse_chunk_len_pos:
  assumes "parse_inline_recovery_chunk input = Inr chunk"
  shows "0 < chunk_len chunk"
proof -
  obtain hs total where frame: "parse_chunk_frame input = Inr (hs, total)"
    using assms by (auto simp: parse_inline_recovery_chunk_def result_simps)
  then have hs: "RAR5_RECOVERY_CHUNK_FIXED_HEADER_SIZE \<le> hs"
    by (auto simp: parse_chunk_frame_def result_simps split: if_splits)
  have "header_size (chunk_plan chunk) = hs"
    using assms frame
    by (auto simp: parse_inline_recovery_chunk_def parse_chunk_plan_def result_simps Let_def split: if_splits)
  with hs show ?thesis
    by (simp add: chunk_len_def sat_add_def RAR5_RECOVERY_CHUNK_FIXED_HEADER_SIZE_def)
qed

section \<open>Scanning for chunks\<close>

fun position :: "('a \<Rightarrow> bool) \<Rightarrow> 'a list \<Rightarrow> nat option" where
  "position P [] = None"
| "position P (x # xs) = (if P x then Some 0 else map_option Suc (position P xs))"

function find_marker_from :: "byte list \<Rightarrow> nat \<Rightarrow> nat option" where
  "find_marker_from input offset =
     (if offset + 4 \<le> length input then
        case position (\<lambda>b. b = 0x7b) (drop offset input) of
          None \<Rightarrow> None
        | Some relative \<Rightarrow>
            if take 4 (drop (offset + relative) input) = RB_MARKER then Some (offset + relative)
            else find_marker_from input (offset + relative + 1)
      else None)"
  by pat_completeness auto
termination by (relation "measure (\<lambda>(input, offset). length input - offset)") auto

definition find_recovery_marker :: "byte list \<Rightarrow> nat option" where
  "find_recovery_marker input = find_marker_from input 0"

text \<open>The scan: the chunks found with their offsets, and whether a marker was seen.\<close>

function scan_chunks :: "byte list \<Rightarrow> nat \<Rightarrow> bool \<Rightarrow> (nat \<times> inline_recovery_chunk) list \<times> bool" where
  "scan_chunks input offset saw_marker =
     (if offset < length input then
        case find_recovery_marker (drop offset input) of
          None \<Rightarrow> ([], saw_marker)
        | Some relative \<Rightarrow>
            let start = offset + relative in
            (case parse_inline_recovery_chunk (drop start input) of
               Inr chunk \<Rightarrow>
                 if chunk_len chunk \<le> length input - start then
                   let (chunks, saw) = scan_chunks input (start + chunk_len chunk) True in ((start, chunk) # chunks, saw)
                 else scan_chunks input (start + 1) True
             | Inl _ \<Rightarrow> scan_chunks input (start + 1) True)
      else ([], saw_marker))"
  by pat_completeness auto
termination
  by (relation "measure (\<lambda>(input, offset, _). length input - offset)") (auto dest: parse_chunk_len_pos)

declare find_marker_from.simps [simp del] scan_chunks.simps [simp del]

definition find_inline_recovery_chunks :: "byte list \<Rightarrow> rec_error + (nat \<times> inline_recovery_chunk) list" where
  "find_inline_recovery_chunks input =
     (let (chunks, saw_marker) = scan_chunks input 0 False in
      if chunks = [] \<and> saw_marker then Inl BadRecoveryChunk else Inr chunks)"

definition append_inline_recovery_chunk :: "byte list \<Rightarrow> nat \<times> inline_recovery_chunk \<Rightarrow> rec_error + byte list" where
  "append_inline_recovery_chunk input = (\<lambda>(start, chunk).
     rbind (ok_or PlanOverflow (checked_add start (chunk_len chunk))) (\<lambda>stop.
       if stop \<le> length input then Inr (sub_slice input (start, stop)) else Inl BadRecoveryChunk))"

section \<open>Assembling the parity shards\<close>

record assembly =
  asm_chunk :: inline_recovery_chunk
  asm_covered :: "bool list"

text \<open>A state table joins those of the shard; a second one for the same block must agree.\<close>

definition add_state :: "nat \<times> nat list \<Rightarrow> (nat \<times> nat list) list \<Rightarrow> rec_error + (nat \<times> nat list) list" where
  "add_state = (\<lambda>(block, states) known.
     case find (\<lambda>(candidate, _). candidate = block) known of
       Some (_, existing) \<Rightarrow> if existing \<noteq> states then Inl BadRecoveryChunk else Inr known
     | None \<Rightarrow> Inr (known @ [(block, states)]))"

definition mark_covered :: "nat \<Rightarrow> nat \<Rightarrow> nat \<Rightarrow> bool list \<Rightarrow> bool list" where
  "mark_covered gc piece_start piece_end covered =
     map (\<lambda>(block, c).
       c \<or> (piece_start \<le> min (sat_mul block RAR5_RECOVERY_BLOCK_PAYLOAD_SIZE) gc \<and>
            min (sat_mul (sat_add block 1) RAR5_RECOVERY_BLOCK_PAYLOAD_SIZE) gc \<le> piece_end))
       (enumerate 0 covered)"

definition new_assembly :: "inline_recovery_chunk \<Rightarrow> assembly" where
  "new_assembly piece =
     (let plan = chunk_plan piece;
          block_count = max (div_ceil (group_count plan) RAR5_RECOVERY_BLOCK_PAYLOAD_SIZE) 1;
          blocks = (shard_size plan - group_count plan) div max (header_size plan) 1 in
      \<lparr>asm_chunk = piece\<lparr>block_states := [], chunk_offset := 0, chunk_parity := replicate (group_count plan) 0\<rparr>,
       asm_covered = replicate (max blocks block_count) (legacy_whole_shard piece)\<rparr>)"

definition merge_piece :: "inline_recovery_chunk \<Rightarrow> nat \<Rightarrow> assembly \<Rightarrow> rec_error + assembly" where
  "merge_piece piece piece_end a =
     (let chunk = asm_chunk a; gc = group_count (chunk_plan piece); piece_start = chunk_offset piece in
      if chunk_plan chunk \<noteq> chunk_plan piece \<or> protected_size chunk \<noteq> protected_size piece
         \<or> legacy_whole_shard chunk \<noteq> legacy_whole_shard piece then Inl BadRecoveryChunk
      else if length (chunk_parity chunk) \<noteq> gc then Inl BadRecoveryChunk
      else
        let parity = take piece_start (chunk_parity chunk) @ chunk_parity piece @ drop piece_end (chunk_parity chunk) in
        rbind (fold_result add_state (block_states piece) (block_states chunk)) (\<lambda>states.
          Inr \<lparr>asm_chunk = chunk\<lparr>chunk_parity := parity, block_states := states\<rparr>,
               asm_covered = mark_covered gc piece_start piece_end (asm_covered a)\<rparr>))"

definition add_piece :: "inline_recovery_chunk \<Rightarrow> assembly list \<Rightarrow> rec_error + assembly list" where
  "add_piece piece assemblies =
     rbind (ok_or PlanOverflow (checked_add (chunk_offset piece) (length (chunk_parity piece)))) (\<lambda>piece_end.
       if group_count (chunk_plan piece) < piece_end then Inl BadRecoveryChunk
       else
         let (index, assemblies) =
           (case position (\<lambda>a. chunk_shard_index (asm_chunk a) = chunk_shard_index piece) assemblies of
              Some index \<Rightarrow> (index, assemblies)
            | None \<Rightarrow> (length assemblies, assemblies @ [new_assembly piece])) in
         rbind (merge_piece piece piece_end (assemblies ! index)) (\<lambda>a. Inr (assemblies[index := a])))"

definition finish_assemblies :: "assembly list \<Rightarrow> inline_recovery_chunk list" where
  "finish_assemblies assemblies =
     sort_key chunk_shard_index
       (filter (\<lambda>chunk. legacy_whole_shard chunk \<or> length (block_states chunk) = blocks_per_shard (chunk_plan chunk))
         (map (\<lambda>a. (asm_chunk a)\<lparr>block_states := sort_key fst (block_states (asm_chunk a))\<rparr>)
           (filter (\<lambda>a. list_all (\<lambda>c. c) (asm_covered a)) assemblies)))"

definition parse_available_inline_recovery_chunks :: "byte list \<Rightarrow> rec_error + inline_recovery_chunk list" where
  "parse_available_inline_recovery_chunks recovery_data =
     rbind (find_inline_recovery_chunks recovery_data) (\<lambda>found.
     rbind (fold_result add_piece (map snd found) []) (\<lambda>assemblies. Inr (finish_assemblies assemblies)))"

end
