(* ===== verification/RecoveryRepair.thy ===== *)
theory RecoveryRepair
  imports RecoveryRecord
begin

text \<open>
  The repair routines of \<^verbatim>\<open>crates/rar/src/recovery/rar50/repair.rs\<close> over an
  assembled recovery record: in memory, where a damaged shard may also be copied from an identical
  file block elsewhere in the prefix; by ranges, where only the damaged shards are held and every
  result is checked against the record before it is returned; and of a whole archive.
\<close>

section \<open>File blocks of a prefix\<close>

definition vint_at :: "byte list \<Rightarrow> nat \<Rightarrow> rec_error + (nat \<times> nat)" where
  "vint_at input offset =
     rbind (map_err (\<lambda>_. BadRecoveryChunk) (vint_decode_from_slice input offset)) (\<lambda>(v, n). Inr (unat v, n))"

definition RAR5_SIGNATURE :: "byte list" where
  "RAR5_SIGNATURE = [0x52, 0x61, 0x72, 0x21, 0x1a, 0x07, 0x01]"

text \<open>One header: its type, its end and the size of its data area; \<open>None\<close> ends the walk.\<close>

definition block_header :: "byte list \<Rightarrow> nat \<Rightarrow> rec_error + (nat \<times> nat \<times> nat) option" where
  "block_header prefix pos =
     rbind (vint_at prefix (pos + 4)) (\<lambda>(hs, size_bytes).
       if hs = 0 \<or> 2 * 1024 * 1024 < hs then Inr None
       else let body = pos + 4 + size_bytes in
         rbind (ok_or PlanOverflow (checked_add body hs)) (\<lambda>block_end.
           if length prefix < block_end then Inr None
           else rbind (vint_at prefix body) (\<lambda>(block_type, t).
             rbind (vint_at prefix (body + t)) (\<lambda>(flags, f).
             rbind (if odd flags then rbind (vint_at prefix (body + t + f)) (\<lambda>(_, n). Inr (body + t + f + n))
                    else Inr (body + t + f)) (\<lambda>p.
             rbind (if odd (flags div 2) then rbind (vint_at prefix p) (\<lambda>(v, _). Inr v) else Inr 0) (\<lambda>data_size.
               Inr (Some (block_type, block_end, data_size))))))))"

function file_blocks_from :: "byte list \<Rightarrow> nat \<Rightarrow> (nat \<times> nat) list \<Rightarrow> rec_error + (nat \<times> nat) list" where
  "file_blocks_from prefix pos blocks =
     (if pos + 4 < length prefix then
        rbind (block_header prefix pos) (\<lambda>header. case header of
          None \<Rightarrow> Inr blocks
        | Some (block_type, block_end, data_size) \<Rightarrow>
            rbind (if block_type = 2 then
                     rbind (ok_or PlanOverflow (checked_add block_end data_size)) (\<lambda>data_end.
                       Inr (if data_end \<le> length prefix then blocks @ [(block_end, data_end)] else blocks))
                   else Inr blocks) (\<lambda>blocks.
            rbind (ok_or PlanOverflow (checked_add block_end data_size)) (\<lambda>nxt.
              if nxt \<le> pos then Inr blocks
              else if block_type = 5 then Inr blocks
              else file_blocks_from prefix nxt blocks)))
      else Inr blocks)"
  by pat_completeness auto
termination by (relation "measure (\<lambda>(prefix, pos, _). length prefix - pos)") auto

declare file_blocks_from.simps [simp del]

definition parse_file_data_blocks :: "byte list \<Rightarrow> rec_error + (nat \<times> nat) list" where
  "parse_file_data_blocks prefix =
     (if length prefix < 8 \<or> take 7 prefix \<noteq> RAR5_SIGNATURE then Inr [] else file_blocks_from prefix 8 [])"

section \<open>Relocation\<close>

text \<open>\<open>Iterator::max_by_key\<close>: the last of several maxima.\<close>

definition max_by_key :: "('a \<Rightarrow> nat) \<Rightarrow> 'a list \<Rightarrow> 'a option" where
  "max_by_key key xs =
     fold (\<lambda>x best. case best of None \<Rightarrow> Some x | Some y \<Rightarrow> if key y \<le> key x then Some x else best) xs None"

fun try_candidates ::
  "inline_recovery_chunk \<Rightarrow> byte list \<Rightarrow> nat \<times> nat \<Rightarrow> nat \<Rightarrow> nat \<times> nat \<Rightarrow> (nat \<times> nat) list \<Rightarrow> byte list option" where
  "try_candidates first prefix r index b1 [] = None"
| "try_candidates first prefix r index b1 (b2 # blocks) =
     (if b2 = b1 then try_candidates first prefix r index b1 blocks
      else
        let offset = int (fst b2) - int (fst b1);
            cand_start = int (fst r) + offset; cand_end = int (snd r) + offset in
        if cand_start < 0 \<or> int (length prefix) < cand_end then try_candidates first prefix r index b1 blocks
        else
          let candidate = sub_slice prefix (nat cand_start, nat cand_end) in
          if bytes_match first candidate index = Some True then Some candidate
          else try_candidates first prefix r index b1 blocks)"

definition relocate_shard ::
  "inline_recovery_chunk \<Rightarrow> byte list \<Rightarrow> (nat \<times> nat) list \<Rightarrow> nat \<times> nat \<Rightarrow> nat \<Rightarrow> byte list option" where
  "relocate_shard first prefix file_blocks r index =
     (case max_by_key (\<lambda>b. min (snd r) (snd b) - max (fst r) (fst b))
             (filter (\<lambda>b. fst r < snd b \<and> fst b < snd r) file_blocks) of
        None \<Rightarrow> None
      | Some b1 \<Rightarrow> try_candidates first prefix r index b1 file_blocks)"

fun relocate_all ::
  "inline_recovery_chunk \<Rightarrow> byte list \<Rightarrow> (nat \<times> nat) list \<Rightarrow> (nat \<times> nat) list \<Rightarrow> nat list \<Rightarrow> byte list list \<Rightarrow>
   byte list list \<times> nat list" where
  "relocate_all first prefix file_blocks ranges [] shards = (shards, [])"
| "relocate_all first prefix file_blocks ranges (index # damaged) shards =
     (case relocate_shard first prefix file_blocks (ranges ! index) index of
        Some candidate \<Rightarrow> relocate_all first prefix file_blocks ranges damaged (shards[index := candidate])
      | None \<Rightarrow>
          let (shards, remaining) = relocate_all first prefix file_blocks ranges damaged shards in (shards, index # remaining))"

section \<open>Repair in memory\<close>

text \<open>The chunks and the guards both routines start with.\<close>

definition open_record :: "nat \<Rightarrow> byte list \<Rightarrow> rec_error + (inline_recovery_chunk \<times> inline_recovery_chunk list)" where
  "open_record prefix_len recovery_data =
     rbind (parse_available_inline_recovery_chunks recovery_data) (\<lambda>chunks.
       case chunks of
         [] \<Rightarrow> Inl NoRecoveryRecord
       | first # _ \<Rightarrow>
           if protected_size first \<noteq> prefix_len then Inl BadRecoveryChunk
           else if list_ex (\<lambda>chunk. chunk_plan chunk \<noteq> chunk_plan first \<or> protected_size chunk \<noteq> protected_size first) chunks
           then Inl BadRecoveryChunk
           else Inr (first, chunks))"

definition recovery_rows :: "nat \<Rightarrow> inline_recovery_chunk list \<Rightarrow> (nat \<times> byte list) list" where
  "recovery_rows n chunks = map (\<lambda>chunk. (chunk_shard_index chunk, chunk_parity chunk)) (take n chunks)"

definition repair_inline_recovery_prefix :: "byte list \<Rightarrow> byte list \<Rightarrow> rec_error + byte list" where
  "repair_inline_recovery_prefix archive_prefix recovery_data =
     rbind (open_record (length archive_prefix) recovery_data) (\<lambda>(first, chunks).
     rbind (split_prefix_shards archive_prefix (chunk_plan first)) (\<lambda>shards.
     rbind (split_prefix_shard_ranges (length archive_prefix) (chunk_plan first)) (\<lambda>ranges.
       let damaged = filter (\<lambda>index. shard_matches first archive_prefix (ranges ! index) index \<noteq> Some True) [0..<length ranges] in
       if damaged = [] then Inr archive_prefix
       else
         let file_blocks = (case parse_file_data_blocks archive_prefix of Inr blocks \<Rightarrow> blocks | Inl _ \<Rightarrow> []);
             (shards, remaining) = relocate_all first archive_prefix file_blocks ranges damaged shards in
         if remaining \<noteq> [] \<and> length chunks < length remaining then Inl TooManyDamagedShards
         else rbind (if remaining = [] then Inr shards
                     else recover_damaged_shards shards remaining (recovery_rows (length remaining) chunks)) (\<lambda>shards.
           Inr (concat (map2 (\<lambda>shard r. take (snd r - fst r) shard) shards ranges))))))"

definition repair_inline_recovery_archive :: "byte list \<Rightarrow> rec_error + byte list" where
  "repair_inline_recovery_archive input =
     rbind (find_inline_recovery_chunks input) (\<lambda>chunks.
     case chunks of
       [] \<Rightarrow> Inl NoRecoveryRecord
     | (_, first) # _ \<Rightarrow>
         if length input < protected_size first then Inl BadRecoveryChunk
         else rbind (traverse (append_inline_recovery_chunk input) chunks) (\<lambda>pieces.
           rbind (repair_inline_recovery_prefix (take (protected_size first) input) (concat pieces)) (\<lambda>repaired_prefix.
             if repaired_prefix = take (protected_size first) input then Inr input
             else Inr (repaired_prefix @ drop (protected_size first) input))))"

section \<open>Repair by ranges\<close>

fun words_of :: "byte list \<Rightarrow> u16 list" where
  "words_of (a # b # bytes) = u16_from_le a b # words_of bytes"
| "words_of _ = []"

type_synonym reader = "nat \<times> nat \<Rightarrow> rec_error + byte list"

fun find_damaged :: "reader \<Rightarrow> inline_recovery_chunk \<Rightarrow> nat \<Rightarrow> (nat \<times> nat) list \<Rightarrow> rec_error + nat list" where
  "find_damaged read_range first index [] = Inr []"
| "find_damaged read_range first index (r # ranges) =
     rbind (read_range r) (\<lambda>shard.
     rbind (find_damaged read_range first (index + 1) ranges) (\<lambda>damaged.
       Inr (if bytes_match first shard index = Some True then damaged else index # damaged)))"

definition read_padded_prefix_shard :: "nat \<times> nat \<Rightarrow> nat \<Rightarrow> reader \<Rightarrow> rec_error + byte list" where
  "read_padded_prefix_shard r shard_len read_range =
     rbind (read_range r) (\<lambda>bytes.
       if shard_len < length bytes then Inl ShardSizeMismatch
       else Inr (bytes @ replicate (shard_len - length bytes) 0))"

text \<open>What one undamaged shard contributes to one right-hand side.\<close>

definition subtract_shard :: "gf16 \<Rightarrow> u16 \<Rightarrow> byte list \<Rightarrow> u16 list \<Rightarrow> u16 list" where
  "subtract_shard gf coeff shard rhs =
     (if coeff = 0 then rhs else map2 (\<lambda>r word. r XOR gf16_mul gf coeff word) rhs (words_of shard))"

fun accumulate_rhs ::
  "gf16 \<Rightarrow> reader \<Rightarrow> nat \<Rightarrow> u16 list list \<Rightarrow> (nat \<times> byte list) list \<Rightarrow> bool list \<Rightarrow> nat \<Rightarrow> (nat \<times> nat) list \<Rightarrow>
   u16 list list \<Rightarrow> rec_error + u16 list list" where
  "accumulate_rhs gf read_range shard_len matrix rows lookup index [] rhs_by_row = Inr rhs_by_row"
| "accumulate_rhs gf read_range shard_len matrix rows lookup index (r # ranges) rhs_by_row =
     (if lookup ! index then accumulate_rhs gf read_range shard_len matrix rows lookup (index + 1) ranges rhs_by_row
      else rbind (read_padded_prefix_shard r shard_len read_range) (\<lambda>shard.
        accumulate_rhs gf read_range shard_len matrix rows lookup (index + 1) ranges
          (map2 (\<lambda>(row_index, _) rhs. subtract_shard gf (matrix ! row_index ! index) shard rhs) rows rhs_by_row)))"

definition write_symbol :: "nat \<Rightarrow> byte list \<Rightarrow> u16 \<Rightarrow> byte list" where
  "write_symbol byte_offset output symbol =
     (if byte_offset < length output then
        let n = min (length output - byte_offset) 2 in
        take byte_offset output @ take n (u16_to_le symbol) @ drop (byte_offset + n) output
      else output)"

definition solve_word ::
  "gf16 \<Rightarrow> u16 list list \<Rightarrow> u16 list list \<Rightarrow> nat \<Rightarrow> byte list list \<Rightarrow> rec_error + byte list list" where
  "solve_word gf inverted rhs_by_row word_index repaired =
     rbind (apply_inverse_matrix gf inverted (map (\<lambda>row. row ! word_index) rhs_by_row)) (\<lambda>solved.
       Inr (map2 (write_symbol (word_index * 2)) repaired solved))"

definition repair_inline_recovery_prefix_shards ::
  "nat \<Rightarrow> byte list \<Rightarrow> reader \<Rightarrow> rec_error + ((nat \<times> nat) \<times> byte list) list" where
  "repair_inline_recovery_prefix_shards prefix_size recovery_data read_range =
     rbind (open_record prefix_size recovery_data) (\<lambda>(first, chunks).
       let plan = chunk_plan first; shard_len = group_count plan in
       if odd shard_len then Inl OddShardSize
       else rbind (split_prefix_shard_ranges prefix_size plan) (\<lambda>ranges.
       rbind (find_damaged read_range first 0 ranges) (\<lambda>damaged.
       if damaged = [] then Inr []
       else if length chunks < length damaged then Inl TooManyDamagedShards
       else let rows = recovery_rows (length damaged) chunks in
         if list_ex (\<lambda>(_, shard). length shard \<noteq> shard_len) rows then Inl ShardSizeMismatch
         else rbind (make_encoder_matrix (length ranges) (recovery_shards plan)) (\<lambda>matrix.
           let equations = map (\<lambda>(row_index, _). map (\<lambda>data_index. matrix ! row_index ! data_index) damaged) rows in
           rbind (invert_linear_system_matrix gf16_new equations) (\<lambda>inverted.
           rbind (mark_damaged (length ranges) damaged (replicate (length ranges) False)) (\<lambda>lookup.
           rbind (accumulate_rhs gf16_new read_range shard_len matrix rows lookup 0 ranges
                    (map (\<lambda>(_, parity). words_of parity) rows)) (\<lambda>rhs_by_row.
           rbind (fold_result (solve_word gf16_new inverted rhs_by_row) [0..<shard_len div 2]
                    (map (\<lambda>index. replicate (snd (ranges ! index) - fst (ranges ! index)) 0) damaged)) (\<lambda>repaired.
             traverse (\<lambda>(index, bytes).
                 if bytes_match first bytes index \<noteq> Some True then Inl BadRecoveryChunk
                 else Inr (ranges ! index, bytes))
               (zip damaged repaired)))))))))"

text \<open>The caller writes the repaired ranges over the file (\<^verbatim>\<open>stream.rs\<close>).\<close>

fun patch_ranges :: "byte list \<Rightarrow> nat \<Rightarrow> ((nat \<times> nat) \<times> byte list) list \<Rightarrow> byte list" where
  "patch_ranges file nxt [] = drop nxt file"
| "patch_ranges file nxt ((r, repaired) # damaged) =
     sub_slice file (nxt, fst r) @ repaired @ patch_ranges file (snd r) damaged"

end
