(* ===== verification/ErasureCode.thy ===== *)
theory ErasureCode
  imports RecoveryCode
begin

text \<open>
  The erasure code of RecoveryCode restores what was erased: Gauss-Jordan elimination inverts every
  regular matrix, the square submatrices of the encoder matrix are Cauchy matrices and hence regular,
  and so the solved words are the lost words.
\<close>

abbreviation gmul :: "u16 \<Rightarrow> u16 \<Rightarrow> u16" where "gmul \<equiv> gf16_mul gf16_new"

definition mat_vec :: "u16 list list \<Rightarrow> u16 list \<Rightarrow> u16 list" where
  "mat_vec m x = map (\<lambda>row. gf16.dot row x) m"

definition regular_matrix :: "u16 list list \<Rightarrow> bool" where
  "regular_matrix m \<longleftrightarrow> (\<forall>x. length x = length m \<longrightarrow> (\<forall>row\<in>set m. gf16.dot row x = 0) \<longrightarrow> (\<forall>i<length m. x ! i = 0))"

lemma length_mat_vec [simp]: "length (mat_vec m x) = length m"
  by (simp add: mat_vec_def)

lemma fold_dot: "foldl (\<lambda>sum (c, v). sum XOR gmul c v) acc (zip row col) = acc XOR gf16.dot row col"
proof (induction row arbitrary: acc col)
  case (Cons c row)
  then show ?case by (cases col) (simp_all add: xor.assoc)
qed simp

section \<open>Gauss-Jordan elimination\<close>

text \<open>
  The invariant after \<open>k\<close> columns: \<open>a\<close> applied to any vector is \<open>b\<close> applied to
  its image under the matrix inverted, no vector has been added to the kernel, and the first
  \<open>k\<close> columns are those of the identity.
\<close>

definition gauss_inv :: "nat \<Rightarrow> u16 list list \<Rightarrow> nat \<Rightarrow> u16 list list \<Rightarrow> u16 list list \<Rightarrow> bool" where
  "gauss_inv n m k a b \<longleftrightarrow> length a = n \<and> length b = n \<and>
     (\<forall>r<n. length (a ! r) = n \<and> length (b ! r) = n) \<and>
     (\<forall>r<n. \<forall>x. length x = n \<longrightarrow> gf16.dot (a ! r) x = gf16.dot (b ! r) (mat_vec m x)) \<and>
     (\<forall>x. length x = n \<longrightarrow> (\<forall>r<n. gf16.dot (a ! r) x = 0) \<longrightarrow> (\<forall>i<n. x ! i = 0)) \<and>
     (\<forall>r<n. \<forall>c<k. a ! r ! c = (if r = c then 1 else 0))"

lemma gauss_inv_mapI:
  assumes "\<And>r. r < n \<Longrightarrow> length (f r) = n \<and> length (g r) = n"
    and "\<And>r x. r < n \<Longrightarrow> length x = n \<Longrightarrow> gf16.dot (f r) x = gf16.dot (g r) (mat_vec m x)"
    and "\<And>x. length x = n \<Longrightarrow> \<forall>r<n. gf16.dot (f r) x = 0 \<Longrightarrow> \<forall>i<n. x ! i = 0"
    and "\<And>r c. r < n \<Longrightarrow> c < k \<Longrightarrow> f r ! c = (if r = c then 1 else 0)"
  shows "gauss_inv n m k (map f [0..<n]) (map g [0..<n])"
  unfolding gauss_inv_def using assms by simp

lemma nth_swap_at:
  "i < length xs \<Longrightarrow> j < length xs \<Longrightarrow> r < length xs \<Longrightarrow>
   swap_at i j xs ! r = xs ! (if r = i then j else if r = j then i else r)"
  by (auto simp: swap_at_def nth_list_update)

lemma length_swap_at [simp]: "length (swap_at i j xs) = length xs"
  by (simp add: swap_at_def)

lemma gauss_inv_swap:
  assumes "gauss_inv n m k a b" "k \<le> i" "i < n" "k \<le> j" "j < n"
  shows "gauss_inv n m k (swap_at i j a) (swap_at i j b)"
proof -
  define f where "f r = (if r = i then j else if r = j then i else r)" for r
  have f: "f r < n" "f (f r) = r" "r < k \<Longrightarrow> f r = r" "k \<le> r \<Longrightarrow> k \<le> f r" if "r < n" for r
    using assms that by (auto simp: f_def)
  have nth: "swap_at i j a ! r = a ! f r" "swap_at i j b ! r = b ! f r" if "r < n" for r
    using assms that by (simp_all add: nth_swap_at f_def gauss_inv_def)
  have unit: "a ! f r ! c = (if r = c then 1 else 0)" if "r < n" "c < k" for r c
  proof (cases "r < k")
    case True
    then show ?thesis using assms(1) that f(3) by (simp add: gauss_inv_def)
  next
    case False
    then have "k \<le> f r" using that f(4) by simp
    then show ?thesis using assms(1) that f(1) False by (auto simp: gauss_inv_def)
  qed
  have kernel: "\<forall>i<n. x ! i = 0" if "length x = n" "\<forall>r<n. gf16.dot (a ! f r) x = 0" for x
  proof -
    have "gf16.dot (a ! r) x = 0" if "r < n" for r
      using f(1,2) [OF that] \<open>\<forall>r<n. gf16.dot (a ! f r) x = 0\<close> by metis
    then show ?thesis using assms(1) that(1) by (simp add: gauss_inv_def)
  qed
  show ?thesis
    using assms(1) f(1) unit kernel unfolding gauss_inv_def by (simp add: nth)
qed

lemma gauss_inv_scale:
  assumes "gauss_inv n m k a b" "k \<le> r" "r < n" "c \<noteq> 0"
  shows "gauss_inv n m k (a[r := map (\<lambda>v. gmul v c) (a ! r)]) (b[r := map (\<lambda>v. gmul v c) (b ! r)])"
    (is "gauss_inv n m k ?a ?b")
proof -
  have len: "length a = n" "length b = n" using assms(1) by (simp_all add: gauss_inv_def)
  have dots: "gf16.dot (?a ! s) x = (if s = r then gmul (gf16.dot (a ! r) x) c else gf16.dot (a ! s) x)"
    "gf16.dot (?b ! s) x = (if s = r then gmul (gf16.dot (b ! r) x) c else gf16.dot (b ! s) x)" if "s < n" for s x
    using that len by (simp_all add: nth_list_update gf16.dot_scale)
  have "gf16.dot (?a ! s) x = 0 \<longleftrightarrow> gf16.dot (a ! s) x = 0" if "s < n" for s x
    using dots(1) [OF that] assms(4) by (simp add: gf16.mul_eq_0)
  moreover have "?a ! s ! j = (if s = j then 1 else 0)" if "s < n" "j < k" for s j
  proof (cases "s = r")
    case True
    then have "a ! r ! j = 0" "j < length (a ! r)" using assms(1-3) that by (auto simp: gauss_inv_def)
    then show ?thesis using True that len assms(2) by (simp add: gf16.mul_zero)
  next
    case False
    then show ?thesis using assms(1) that len by (simp add: gauss_inv_def)
  qed
  ultimately show ?thesis
    using assms(1,3) len unfolding gauss_inv_def by (simp add: nth_list_update gf16.dot_scale)
qed

lemma length_add_multiple [simp]: "length (add_multiple gf f row pivot) = min (length row) (length pivot)"
  by (simp add: add_multiple_def)

lemma nth_add_multiple:
  "i < length row \<Longrightarrow> i < length pivot \<Longrightarrow> add_multiple gf16_new f row pivot ! i = row ! i XOR gmul f (pivot ! i)"
  by (simp add: add_multiple_def)

lemma add_multiple_zero: "length pivot = length row \<Longrightarrow> add_multiple gf16_new 0 row pivot = row"
  by (rule nth_equalityI) (simp_all add: nth_add_multiple gf16.mul_zero)

text \<open>Skipping the columns before \<open>col\<close> changes nothing: the pivot row is zero there.\<close>

lemma add_multiple_skip:
  assumes "length pivot = length row" "col \<le> length row" "\<And>c. c < col \<Longrightarrow> pivot ! c = 0"
  shows "take col row @ add_multiple gf16_new f (drop col row) (drop col pivot) = add_multiple gf16_new f row pivot"
  using assms
  by (intro nth_equalityI) (auto simp: nth_append nth_add_multiple gf16.mul_zero)

lemma eliminate_rows:
  assumes "length a = n" "length b = n" "col < n" "m \<le> n"
    and "\<And>r. r < n \<Longrightarrow> length (a ! r) = n \<and> length (b ! r) = n" "\<And>c. c < col \<Longrightarrow> a ! col ! c = 0"
  shows "fold (eliminate_row gf16_new col (a ! col) (b ! col)) [0..<m] (a, b) =
    (map (\<lambda>r. if r = col \<or> m \<le> r then a ! r else add_multiple gf16_new (a ! r ! col) (a ! r) (a ! col)) [0..<n],
     map (\<lambda>r. if r = col \<or> m \<le> r then b ! r else add_multiple gf16_new (a ! r ! col) (b ! r) (b ! col)) [0..<n])"
  using assms(4)
proof (induction m)
  case 0
  show ?case using assms(1,2) by (auto intro: nth_equalityI)
next
  case (Suc m)
  then have m: "m < n" by simp
  let ?A = "\<lambda>m r. if r = col \<or> m \<le> r then a ! r else add_multiple gf16_new (a ! r ! col) (a ! r) (a ! col)"
  let ?B = "\<lambda>m r. if r = col \<or> m \<le> r then b ! r else add_multiple gf16_new (a ! r ! col) (b ! r) (b ! col)"
  have len: "length (a ! m) = n" "length (b ! m) = n" "length (a ! col) = n" "length (b ! col) = n"
    using assms(3,5) m by simp_all
  have skip: "take col (a ! m) @ add_multiple gf16_new f (drop col (a ! m)) (drop col (a ! col)) =
      add_multiple gf16_new f (a ! m) (a ! col)" for f
    using len assms(3,6) by (intro add_multiple_skip) simp_all
  have "eliminate_row gf16_new col (a ! col) (b ! col) m (map (?A m) [0..<n], map (?B m) [0..<n]) =
      (map (?A (Suc m)) [0..<n], map (?B (Suc m)) [0..<n])"
  proof (cases "m = col \<or> a ! m ! col = 0")
    case True
    then have "?A (Suc m) r = ?A m r" "?B (Suc m) r = ?B m r" for r
      using len add_multiple_zero by (cases "r = m"; auto simp: Suc_le_eq)+
    then show ?thesis using True m by (auto simp: eliminate_row_def)
  next
    case False
    have "(map (?A m) [0..<n])[m := add_multiple gf16_new (a ! m ! col) (a ! m) (a ! col)] = map (?A (Suc m)) [0..<n]"
      "(map (?B m) [0..<n])[m := add_multiple gf16_new (a ! m ! col) (b ! m) (b ! col)] = map (?B (Suc m)) [0..<n]"
      using False m by (auto intro!: nth_equalityI simp: nth_list_update)
    then show ?thesis using False m by (simp add: eliminate_row_def skip)
  qed
  then show ?case using Suc by simp
qed

lemma gauss_inv_eliminate:
  assumes "gauss_inv n m k a b" "k < n" "a ! k ! k = 1"
  shows "gauss_inv n m (Suc k)
    (map (\<lambda>r. if r = k then a ! r else add_multiple gf16_new (a ! r ! k) (a ! r) (a ! k)) [0..<n])
    (map (\<lambda>r. if r = k then b ! r else add_multiple gf16_new (a ! r ! k) (b ! r) (b ! k)) [0..<n])"
    (is "gauss_inv n m (Suc k) (map ?a [0..<n]) (map ?b [0..<n])")
proof -
  have len: "length a = n" "length b = n" "\<And>r. r < n \<Longrightarrow> length (a ! r) = n \<and> length (b ! r) = n"
    using assms(1) by (simp_all add: gauss_inv_def)
  have dots: "gf16.dot (?a r) x = gf16.dot (a ! r) x XOR (if r = k then 0 else gmul (a ! r ! k) (gf16.dot (a ! k) x))"
    "gf16.dot (?b r) x = gf16.dot (b ! r) x XOR (if r = k then 0 else gmul (a ! r ! k) (gf16.dot (b ! k) x))"
    if "r < n" for r x
    using that len assms(2) by (simp_all add: add_multiple_def gf16.dot_add_multiple)
  show ?thesis
  proof (rule gauss_inv_mapI)
  show "length (?a r) = n \<and> length (?b r) = n" if "r < n" for r
    using that len assms(2) by simp
  show "gf16.dot (?a r) x = gf16.dot (?b r) (mat_vec m x)" if "r < n" "length x = n" for r x
    using assms(1,2) that unfolding dots [OF that(1)] by (simp add: gauss_inv_def)
  show "\<forall>i<n. x ! i = 0" if x: "length x = n" "\<forall>r<n. gf16.dot (?a r) x = 0" for x
  proof -
    have "gf16.dot (a ! k) x = 0" using x(2) assms(2) by auto
    then have "gf16.dot (a ! r) x = 0" if "r < n" for r
      using x(2) dots(1) [OF that, of x] that by (auto simp: gf16.mul_zero split: if_splits)
    then show ?thesis using assms(1) x(1) by (simp add: gauss_inv_def)
  qed
  show "?a r ! c = (if r = c then 1 else 0)" if "r < n" "c < Suc k" for r c
  proof -
    have pivot: "a ! k ! c = (if c = k then 1 else 0)"
      using assms that(2) by (cases "c = k") (auto simp: gauss_inv_def)
    have old: "a ! r ! c = (if r = c then 1 else 0)" if "c < k" using assms(1) that \<open>r < n\<close> by (simp add: gauss_inv_def)
    show ?thesis
    proof (cases "r = k")
      case True
      then show ?thesis using pivot by simp
    next
      case False
      have sum: "?a r ! c = a ! r ! c XOR gmul (a ! r ! k) (a ! k ! c)"
        using False that len(3) [OF that(1)] len(3) [OF assms(2)] assms(2) by (simp add: nth_add_multiple)
      show ?thesis
      proof (cases "c = k")
        case True
        then show ?thesis unfolding sum pivot using False by (simp add: gf16.mul_one_right)
      next
        case ck: False
        then have "a ! r ! c = (if r = c then 1 else 0)" using old that(2) by simp
        then show ?thesis unfolding sum pivot using ck by (simp add: gf16.mul_zero)
      qed
    qed
  qed
  qed
qed

text \<open>A column without a pivot would put a vector into the kernel.\<close>

lemma pivot_exists:
  assumes "gauss_inv n m k a b" "k < n"
  shows "\<exists>r. k \<le> r \<and> r < n \<and> a ! r ! k \<noteq> 0"
proof (rule ccontr)
  assume "\<nexists>r. k \<le> r \<and> r < n \<and> a ! r ! k \<noteq> 0"
  then have none: "a ! r ! k = 0" if "k \<le> r" "r < n" for r using that by blast
  define x where "x = map (\<lambda>i. if i < k then a ! i ! k else if i = k then 1 else 0) [0..<n]"
  have "gf16.dot (a ! r) x = 0" if r: "r < n" for r
  proof -
    have len: "length (a ! r) = length x" using assms(1) r by (simp add: gauss_inv_def x_def)
    have entry: "gmul (a ! r ! j) (x ! j) = (if j = r \<and> r < k then a ! r ! k else 0) XOR (if j = k then a ! r ! k else 0)"
      if j: "j < n" for j
    proof -
      have "a ! r ! j = (if r = j then 1 else 0)" if "j < k" using assms(1) r that by (simp add: gauss_inv_def)
      then show ?thesis using j by (auto simp: x_def gf16.mul_one gf16.mul_one_right gf16.mul_zero)
    qed
    have single: "xsum (map (\<lambda>j. if j = s \<and> P then v else 0) [0..<n]) = (if P then v else (0 :: u16))" if "s < n" for s P v
      using that by (cases P) (simp_all add: xsum_single [where k = s])
    have "gf16.dot (a ! r) x = xsum (map (\<lambda>j. (if j = r \<and> r < k then a ! r ! k else 0) XOR (if j = k then a ! r ! k else 0)) [0..<n])"
      unfolding gf16.dot_eq_sum [OF len] using entry by (intro arg_cong [where f = xsum] map_cong) (auto simp: x_def)
    also have "\<dots> = (if r < k then a ! r ! k else 0) XOR a ! r ! k"
      unfolding xsum_map_xor using single [OF r, of "r < k" "a ! r ! k"] single [OF assms(2), of True "a ! r ! k"] by simp
    also have "\<dots> = 0" using none [of r] r by (auto simp: not_less)
    finally show ?thesis .
  qed
  moreover have "length x = n" by (simp add: x_def)
  ultimately have "\<forall>i<n. x ! i = 0" using assms(1) unfolding gauss_inv_def by blast
  moreover have "x ! k = 1" using assms(2) by (simp add: x_def)
  ultimately show False using assms(2) by simp
qed

lemma gauss_column_step:
  assumes "gauss_inv n m k a b" "k < n"
  shows "\<exists>a' b'. gauss_column gf16_new n k (a, b) = Inr (a', b') \<and> gauss_inv n m (Suc k) a' b'"
proof -
  obtain r0 where r0: "k \<le> r0" "r0 < n" "a ! r0 ! k \<noteq> 0" using pivot_exists [OF assms] by blast
  then have "find (\<lambda>row. a ! row ! k \<noteq> 0) [k..<n] \<noteq> None" by (auto simp: find_None_iff)
  then obtain p where p: "find (\<lambda>row. a ! row ! k \<noteq> 0) [k..<n] = Some p" by auto
  then have pr: "k \<le> p" "p < n" "a ! p ! k \<noteq> 0" by (auto simp: find_Some_iff)
  let ?a = "swap_at k p a" and ?b = "swap_at k p b"
  have sw: "gauss_inv n m k ?a ?b" using gauss_inv_swap [OF assms(1) _ assms(2)] pr by simp
  have kk: "?a ! k ! k \<noteq> 0" using assms pr by (simp add: nth_swap_at gauss_inv_def)
  define c where "c = gf16_recip (?a ! k ! k)"
  have c: "gf16_inv gf16_new (?a ! k ! k) = Inr c" "c \<noteq> 0" "gmul (?a ! k ! k) c = 1"
    using kk gf16_inv_recip gf16.recip_nonzero gf16.mul_recip by (auto simp: c_def)
  let ?a2 = "?a[k := map (\<lambda>v. gmul v c) (?a ! k)]" and ?b2 = "?b[k := map (\<lambda>v. gmul v c) (?b ! k)]"
  have sc: "gauss_inv n m k ?a2 ?b2" using gauss_inv_scale [OF sw _ assms(2) c(2)] by simp
  have lens: "length ?a = n" "length (?a ! k) = n" using sw assms(2) by (simp_all add: gauss_inv_def)
  then have one: "?a2 ! k ! k = 1" using assms(2) c(3) by simp
  let ?a3 = "map (\<lambda>r. if r = k then ?a2 ! r else add_multiple gf16_new (?a2 ! r ! k) (?a2 ! r) (?a2 ! k)) [0..<n]"
  let ?b3 = "map (\<lambda>r. if r = k then ?b2 ! r else add_multiple gf16_new (?a2 ! r ! k) (?b2 ! r) (?b2 ! k)) [0..<n]"
  have "fold (eliminate_row gf16_new k (?a2 ! k) (?b2 ! k)) [0..<n] (?a2, ?b2) = (?a3, ?b3)"
    using sc assms(2) by (subst eliminate_rows [where n = n]) (auto simp: gauss_inv_def intro!: map_cong)
  moreover have "gauss_inv n m (Suc k) ?a3 ?b3" by (rule gauss_inv_eliminate [OF sc assms(2) one])
  ultimately show ?thesis using p c(1) by (auto simp: gauss_column_def ok_or_def Let_def)
qed

text \<open>Inversion succeeds on every regular matrix, and its result undoes the matrix.\<close>

lemma gauss_columns_all:
  assumes "gauss_inv n m k a b" "k + j = n"
  shows "\<exists>a' b'. gauss_columns gf16_new n [k..<n] (a, b) = Inr (a', b') \<and> gauss_inv n m n a' b'"
  using assms
proof (induction j arbitrary: k a b)
  case 0
  then show ?case by simp
next
  case (Suc j)
  then have k: "k < n" by simp
  obtain a' b' where ab: "gauss_column gf16_new n k (a, b) = Inr (a', b')" "gauss_inv n m (Suc k) a' b'"
    using gauss_column_step [OF Suc.prems(1) k] by blast
  then show ?case using Suc.IH [OF ab(2)] Suc.prems(2) k by (simp add: upt_conv_Cons)
qed

lemma dot_identity_row:
  assumes "length y = n" "r < n"
  shows "gf16.dot ((replicate n 0)[r := 1]) y = y ! r"
  using assms by (intro gf16.dot_unit) (auto simp: nth_list_update)

lemma gauss_inv_start:
  assumes "\<And>row. row \<in> set m \<Longrightarrow> length row = length m" "regular_matrix m"
  shows "gauss_inv (length m) m 0 m (identity_matrix (length m))"
proof -
  have "\<forall>i<length m. x ! i = 0" if "length x = length m" "\<forall>r<length m. gf16.dot (m ! r) x = 0" for x
  proof -
    have "\<forall>row\<in>set m. gf16.dot row x = 0" using that(2) by (metis in_set_conv_nth)
    then show ?thesis using assms(2) that(1) unfolding regular_matrix_def by blast
  qed
  then show ?thesis
    using assms(1) by (simp add: gauss_inv_def identity_matrix_def dot_identity_row mat_vec_def)
qed

lemma invert_regular:
  assumes "\<And>row. row \<in> set m \<Longrightarrow> length row = length m" "regular_matrix m"
  shows "\<exists>b. invert_linear_system_matrix gf16_new m = Inr b \<and>
    (\<forall>x. length x = length m \<longrightarrow> apply_inverse_matrix gf16_new b (mat_vec m x) = Inr x)"
proof -
  let ?n = "length m"
  obtain a b where ab: "gauss_columns gf16_new ?n [0..<?n] (m, identity_matrix ?n) = Inr (a, b)" "gauss_inv ?n m ?n a b"
    using gauss_columns_all [OF gauss_inv_start [OF assms], of ?n] by auto
  have "apply_inverse_matrix gf16_new b (mat_vec m x) = Inr x" if x: "length x = ?n" for x
  proof -
    have "gf16.dot (b ! r) (mat_vec m x) = x ! r" if r: "r < ?n" for r
    proof -
      have "gf16.dot (a ! r) x = x ! r"
        using ab(2) r x by (intro gf16.dot_unit) (auto simp: gauss_inv_def)
      then show ?thesis using ab(2) r x unfolding gauss_inv_def by metis
    qed
    then have "map (\<lambda>row. gf16.dot row (mat_vec m x)) b = x"
      using ab(2) x by (intro nth_equalityI) (auto simp: gauss_inv_def)
    moreover have "length b = ?n" "\<forall>row\<in>set b. length row = ?n"
      using ab(2) by (auto simp: gauss_inv_def in_set_conv_nth)
    ultimately show ?thesis by (auto simp: apply_inverse_matrix_def fold_dot list_ex_iff)
  qed
  moreover have "\<not> list_ex (\<lambda>row. length row \<noteq> ?n) m" using assms(1) by (auto simp: list_ex_iff)
  ultimately show ?thesis using ab(1) by (auto simp: invert_linear_system_matrix_def Let_def)
qed

section \<open>The encoder matrix\<close>

definition encoder_entry :: "nat \<Rightarrow> nat \<Rightarrow> nat \<Rightarrow> u16" where
  "encoder_entry d i j = gf16_recip (word_of_nat (i + d) XOR word_of_nat j)"

lemma word16_of_nat_inj: "a < 65536 \<Longrightarrow> b < 65536 \<Longrightarrow> (word_of_nat a :: u16) = word_of_nat b \<longleftrightarrow> a = b"
  by (simp add: word_unat_eq_iff unsigned_of_nat take_bit_nat_eq_self)

lemma word_of_nat_xor: "(word_of_nat (a XOR b) :: u16) = word_of_nat a XOR word_of_nat b"
  by (rule bit_word_eqI) (simp add: bit_simps)

lemma encoder_entry_inv:
  assumes "i + d < 65536" "j < d"
  shows "gf16_inv gf16_new (word_of_nat ((i + d) XOR j)) = Inr (encoder_entry d i j)"
proof -
  have "(word_of_nat (i + d) :: u16) \<noteq> word_of_nat j"
    using assms by (subst word16_of_nat_inj) auto
  then have "(word_of_nat ((i + d) XOR j) :: u16) \<noteq> 0"
    unfolding word_of_nat_xor by (simp only: xor_eq_0_word not_False_eq_True)
  then show ?thesis
    unfolding encoder_entry_def word_of_nat_xor [symmetric] by (rule gf16_inv_recip)
qed

lemma encoder_rows:
  assumes "d + r \<le> 65535"
  shows "traverse (\<lambda>i. traverse (\<lambda>j. gf16_inv gf16_new (word_of_nat ((i + d) XOR j))) [0..<d]) [0..<r] =
    Inr (map (\<lambda>i. map (encoder_entry d i) [0..<d]) [0..<r])"
  using assms by (intro traverse_Inr encoder_entry_inv) auto

lemma make_encoder_matrix_eq:
  assumes "make_encoder_matrix d r = Inr m"
  shows "m = map (\<lambda>i. map (encoder_entry d i) [0..<d]) [0..<r]" "0 < d" "0 < r" "d + r \<le> 65535"
proof -
  show c: "0 < d" "0 < r" "d + r \<le> 65535"
    using assms by (auto simp: make_encoder_matrix_def FIELD_SIZE_def split: if_splits)
  show "m = map (\<lambda>i. map (encoder_entry d i) [0..<d]) [0..<r]"
    using assms unfolding make_encoder_matrix_def encoder_rows [OF c(3)] by (simp split: if_splits)
qed

lemma make_encoder_matrix_fewer:
  assumes "make_encoder_matrix d r = Inr m" "0 < r'" "r' \<le> r"
  shows "make_encoder_matrix d r' = Inr (map (\<lambda>i. map (encoder_entry d i) [0..<d]) [0..<r'])"
proof -
  have c: "d + r' \<le> 65535" using make_encoder_matrix_eq(4) [OF assms(1)] assms(3) by simp
  have "d * r' \<le> d * r" using assms(3) by simp
  moreover have "d * r \<le> MAX_ENCODER_MATRIX_CELLS"
    using assms(1) by (auto simp: make_encoder_matrix_def split: if_splits)
  ultimately have "\<not> MAX_ENCODER_MATRIX_CELLS < d * r'" by linarith
  then show ?thesis
    using assms(2) c make_encoder_matrix_eq(2) [OF assms(1)]
    unfolding make_encoder_matrix_def encoder_rows [OF c] by (simp add: FIELD_SIZE_def)
qed

text \<open>As many rows as columns, taken anywhere, form a regular matrix.\<close>

lemma encoder_submatrix_regular:
  assumes "distinct is" "distinct js" "length is = length js" "\<forall>i\<in>set is. i + d < 65536" "\<forall>j\<in>set js. j < d"
  shows "regular_matrix (map (\<lambda>i. map (encoder_entry d i) js) is)"
proof -
  let ?x = "\<lambda>i. word_of_nat (i + d) :: u16" and ?y = "\<lambda>j. word_of_nat j :: u16"
  have small: "j < 65536" if "j \<in> set js" for j
  proof -
    have "is \<noteq> []" using that assms(3) by auto
    then obtain i where "i \<in> set is" by (cases "is") auto
    then show ?thesis using assms(4,5) that by fastforce
  qed
  have inj: "inj_on ?y (set js)" using small by (auto simp: inj_on_def word16_of_nat_inj)
  have injx: "inj_on ?x (set is)"
  proof (rule inj_onI)
    fix a b assume ab: "a \<in> set is" "b \<in> set is" "?x a = ?x b"
    then have "a + d = b + d" using assms(4) by (subst (asm) word16_of_nat_inj) auto
    then show "a = b" by simp
  qed
  have "v ! k = 0"
    if v: "length v = length is" "\<And>i. i \<in> set is \<Longrightarrow> gf16.dot (map (encoder_entry d i) js) v = 0" "k < length is" for v k
  proof -
    define c where "c y = (case map_of (zip (map ?y js) v) y of None \<Rightarrow> 0 | Some w \<Rightarrow> w)" for y
    have dis: "distinct (map ?y js)" using assms(2) inj by (simp add: distinct_map)
    have c: "c (?y (js ! k)) = v ! k" if "k < length js" for k
      using that v(1) assms(3) dis map_of_zip_nth [of "map ?y js" v k] by (simp add: c_def)
    have "c (map ?y js ! k) = 0"
    proof (rule gf16.cauchy_regular [of "map ?x is" "map ?y js" c "map ?y js ! k"])
      show "distinct (map ?x is)" "distinct (map ?y js)" using assms(1) injx dis by (simp_all add: distinct_map)
      show "set (map ?x is) \<inter> set (map ?y js) = {}"
      proof -
        have "?x i \<noteq> ?y j" if "i \<in> set is" "j \<in> set js" for i j
          using assms(4,5) small that by (subst word16_of_nat_inj) force+
        then show ?thesis by (simp only: set_map) blast
      qed
      show "map ?y js ! k \<in> set (map ?y js)" using v(3) assms(3) by simp
      fix x assume "x \<in> set (map ?x is)"
      then obtain i where i: "i \<in> set is" "x = ?x i" by auto
      have "gf16.dot (map (encoder_entry d i) js) v =
          xsum (map (\<lambda>k. gmul (c (?y (js ! k))) (gf16_recip (x XOR ?y (js ! k)))) [0..<length js])"
        unfolding gf16.dot_eq_sum [of "map (encoder_entry d i) js" v, simplified, OF assms(3) [symmetric, folded v(1)]]
        using v(1) assms(3) c
        by (intro arg_cong [where f = xsum] map_cong) (auto simp: encoder_entry_def i(2) gf16.mul_commute)
      moreover have "map (\<lambda>y. gmul (c y) (gf16_recip (x XOR y))) (map ?y js) =
          map (\<lambda>k. gmul (c (?y (js ! k))) (gf16_recip (x XOR ?y (js ! k)))) [0..<length js]"
        by (rule nth_equalityI) simp_all
      ultimately show "xsum (map (\<lambda>y. gmul (c y) (gf16_recip (x XOR y))) (map ?y js)) = 0"
        using v(2) [OF i(1)] by simp
    qed (simp add: assms(3))
    then show ?thesis using c [of k] v(3) assms(3) by simp
  qed
  then show ?thesis by (auto simp: regular_matrix_def)
qed

section \<open>Words of shards\<close>

lemma u16_from_to_le [simp]: "u16_from_le (ucast w) (ucast (drop_bit 8 w)) = w"
  unfolding u16_from_le_def by (rule bit_word_eqI) (auto simp: bit_simps)

lemma u16_to_from_le [simp]: "u16_to_le (u16_from_le a b) = [a, b]"
  unfolding u16_to_le_def u16_from_le_def list.inject
  by (intro conjI refl; rule bit_word_eqI) (auto simp: bit_simps dest: bit_imp_le_length)

lemma length_u16_to_le [simp]: "length (u16_to_le w) = 2"
  by (simp add: u16_to_le_def)

lemma length_words: "length (concat (map u16_to_le ws)) = 2 * length ws"
  by (induction ws) simp_all

lemma word_at_words: "k < length ws \<Longrightarrow> word_at (concat (map u16_to_le ws)) (2 * k) = ws ! k"
proof (induction ws arbitrary: k)
  case (Cons w ws)
  show ?case
  proof (cases k)
    case 0
    then show ?thesis by (simp add: word_at_def u16_to_le_def)
  next
    case (Suc n)
    then show ?thesis using Cons by (simp add: word_at_def u16_to_le_def)
  qed
qed simp

lemma read_word_at: "offset + 2 \<le> length shard \<Longrightarrow> read_word shard offset = Inr (word_at shard offset)"
  by (simp add: read_word_def get_def word_at_def)

lemma word_offsets_even: "even n \<Longrightarrow> word_offsets n = map (\<lambda>k. 2 * k) [0..<n div 2]"
  by (auto simp: word_offsets_def elim!: evenE)

text \<open>A sum over distinct positions is the sum over all, with the others left out.\<close>

lemma xsum_subset:
  assumes "distinct D" "set D \<subseteq> {..<n}"
  shows "xsum (map (\<lambda>j. if j \<in> set D then f j else 0) [0..<n]) = xsum (map f D)"
  using assms
proof (induction D)
  case (Cons a D)
  have "xsum (map (\<lambda>j. if j \<in> set (a # D) then f j else 0) [0..<n]) =
      xsum (map (\<lambda>j. (if j = a then f j else 0) XOR (if j \<in> set D then f j else 0)) [0..<n])"
    using Cons.prems(1) by (intro arg_cong [where f = xsum] map_cong) auto
  also have "\<dots> = f a XOR xsum (map f D)"
    using Cons unfolding xsum_map_xor by (subst xsum_single [where k = a]) auto
  finally show ?case by simp
qed simp

text \<open>
  The parity of a row less the contribution of the undamaged shards is the equation over the damaged
  ones.
\<close>

lemma syndrome:
  assumes "distinct D" "set D \<subseteq> {..<n}"
  shows "gf16.dot (map e [0..<n]) (map w [0..<n]) XOR xsum (map (\<lambda>j. if j \<in> set D then 0 else gmul (e j) (w j)) [0..<n]) =
    gf16.dot (map e D) (map w D)"
proof -
  have "gf16.dot (map e [0..<n]) (map w [0..<n]) = xsum (map (\<lambda>j. gmul (e j) (w j)) [0..<n])"
    "gf16.dot (map e D) (map w D) = xsum (map (\<lambda>j. gmul (e j) (w j)) D)"
    by (simp_all add: gf16.dot_def zip_map_map zip_same_conv_map comp_def)
  moreover have "xsum (map (\<lambda>j. gmul (e j) (w j)) [0..<n]) XOR
      xsum (map (\<lambda>j. if j \<in> set D then 0 else gmul (e j) (w j)) [0..<n]) = xsum (map (\<lambda>j. gmul (e j) (w j)) D)"
    unfolding xsum_map_xor [symmetric] xsum_subset [OF assms, symmetric]
    by (intro arg_cong [where f = xsum] map_cong) auto
  ultimately show ?thesis by simp
qed

section \<open>One word of every shard\<close>

lemma parity_word_dot: "parity_word gf16_new row shards offset = gf16.dot row (map (\<lambda>s. word_at s offset) shards)"
proof -
  have "zip row (map (\<lambda>s. word_at s offset) shards) = map (\<lambda>(c, s). (c, word_at s offset)) (zip row shards)"
    by (induction row arbitrary: shards; case_tac shards) auto
  then show ?thesis
    using fold_dot [of 0 row "map (\<lambda>s. word_at s offset) shards"]
    by (simp add: parity_word_def foldl_map split_def)
qed

lemma subtract_shards_eq:
  assumes "\<And>s. s \<in> set shards \<Longrightarrow> offset + 2 \<le> length s"
  shows "subtract_shards gf16_new row lookup offset shards index v =
    Inr (v XOR xsum (map (\<lambda>j. if lookup ! (index + j) then 0 else gmul (row ! (index + j)) (word_at (shards ! j) offset))
           [0..<length shards]))"
  using assms
proof (induction shards arbitrary: index v)
  case (Cons s shards)
  have "map (\<lambda>j. if lookup ! (index + j) then 0 else gmul (row ! (index + j)) (word_at ((s # shards) ! j) offset))
        [0..<length (s # shards)] =
      (if lookup ! index then 0 else gmul (row ! index) (word_at s offset)) #
      map (\<lambda>j. if lookup ! (index + 1 + j) then 0 else gmul (row ! (index + 1 + j)) (word_at (shards ! j) offset)) [0..<length shards]"
    by (simp add: upt_conv_Cons map_Suc_upt [symmetric] del: upt_Suc)
  then show ?case using Cons by (simp add: read_word_at xor.assoc cong: if_cong)
qed simp

definition put_word :: "nat \<Rightarrow> u16 \<Rightarrow> byte list \<Rightarrow> byte list" where
  "put_word offset w shard = take offset shard @ u16_to_le w @ drop (offset + 2) shard"

lemma write_solved_eq:
  assumes "distinct D" "\<forall>i\<in>set D. i < length shards \<and> offset + 2 \<le> length (shards ! i)"
  shows "write_solved offset (map (\<lambda>i. (i, w i)) D) shards =
    Inr (map (\<lambda>j. if j \<in> set D then put_word offset (w j) (shards ! j) else shards ! j) [0..<length shards])"
  using assms
proof (induction D arbitrary: shards)
  case Nil
  show ?case by (simp add: map_nth)
next
  case (Cons i D)
  have "write_word offset (w i) (shards ! i) = Inr (put_word offset (w i) (shards ! i))"
    using Cons.prems(2) by (simp add: write_word_def put_word_def)
  moreover have "\<forall>k\<in>set D. k < length (shards[i := put_word offset (w i) (shards ! i)]) \<and>
      offset + 2 \<le> length (shards[i := put_word offset (w i) (shards ! i)] ! k)"
    using Cons.prems by (auto simp: nth_list_update)
  ultimately show ?case
    using Cons.IH [of "shards[i := put_word offset (w i) (shards ! i)]"] Cons.prems
    by (auto intro!: map_cong simp: nth_list_update)
qed

lemma mark_damaged_eq:
  assumes "\<forall>i\<in>set D. i < n" "length lookup = n"
  shows "mark_damaged n D lookup = Inr (map (\<lambda>j. j \<in> set D \<or> lookup ! j) [0..<n])"
  using assms
proof (induction D arbitrary: lookup)
  case Nil
  then show ?case by (auto intro: nth_equalityI)
next
  case (Cons i D)
  then show ?case by (auto intro!: map_cong simp: nth_list_update)
qed

text \<open>
  The data: \<open>d\<close> shards of even length; the parity of row \<open>i\<close>; and the shards with
  those of \<open>D\<close> replaced by anything of the right length.
\<close>

definition parity_shard :: "byte list list \<Rightarrow> nat \<Rightarrow> nat \<Rightarrow> byte list" where
  "parity_shard shards len i =
     concat (map (\<lambda>offset. u16_to_le (parity_word gf16_new (map (encoder_entry (length shards) i) [0..<length shards]) shards offset))
       (word_offsets len))"

lemma parity_shard_word:
  assumes "even len" "k < len div 2"
  shows "length (parity_shard shards len i) = len"
    and "word_at (parity_shard shards len i) (2 * k) =
      gf16.dot (map (encoder_entry (length shards) i) [0..<length shards]) (map (\<lambda>s. word_at s (2 * k)) shards)"
proof -
  let ?ws = "map (\<lambda>k. parity_word gf16_new (map (encoder_entry (length shards) i) [0..<length shards]) shards (2 * k)) [0..<len div 2]"
  have "parity_shard shards len i = concat (map u16_to_le ?ws)"
    using assms(1) by (simp add: parity_shard_def word_offsets_even comp_def)
  then show "length (parity_shard shards len i) = len"
    "word_at (parity_shard shards len i) (2 * k) =
      gf16.dot (map (encoder_entry (length shards) i) [0..<length shards]) (map (\<lambda>s. word_at s (2 * k)) shards)"
    using assms length_words [of ?ws] word_at_words [of k ?ws] by (simp_all add: parity_word_dot)
qed

lemma recover_word_eq:
  assumes data: "\<forall>s\<in>set data. length s = len" "even len" "k < len div 2"
    and cur: "length shards = length data" "\<forall>s\<in>set shards. length s = len"
      "\<And>j. j < length data \<Longrightarrow> j \<notin> set D \<Longrightarrow> shards ! j = data ! j"
    and D: "distinct D" "set D \<subseteq> {..<length data}" and rows: "length rows = length D" "\<forall>i\<in>set rows. i < length matrix"
    and m: "\<And>i. i < length matrix \<Longrightarrow> matrix ! i = map (encoder_entry (length data) i) [0..<length data]"
    and b: "\<And>x. length x = length D \<Longrightarrow>
      apply_inverse_matrix gf16_new b (mat_vec (map (\<lambda>i. map (encoder_entry (length data) i) D) rows) x) = Inr x"
  shows "recover_word gf16_new matrix b (map (\<lambda>j. j \<in> set D) [0..<length data]) D
      (map (\<lambda>i. (i, parity_shard data len i)) rows) (2 * k) shards =
    Inr (map (\<lambda>j. if j \<in> set D then put_word (2 * k) (word_at (data ! j) (2 * k)) (shards ! j) else shards ! j) [0..<length data])"
proof -
  let ?w = "\<lambda>j. word_at (data ! j) (2 * k)"
  let ?lookup = "map (\<lambda>j. j \<in> set D) [0..<length data]"
  have room: "2 * k + 2 \<le> len" using data(2,3) by (auto elim!: evenE)
  have rhs: "rbind (read_word (parity_shard data len i) (2 * k))
      (\<lambda>v. subtract_shards gf16_new (matrix ! i) ?lookup (2 * k) shards 0 v) =
      Inr (gf16.dot (map (encoder_entry (length data) i) D) (map ?w D))" if i: "i \<in> set rows" for i
  proof -
    let ?e = "encoder_entry (length data) i"
    have v: "map (\<lambda>s. word_at s (2 * k)) data = map ?w [0..<length data]" by (rule nth_equalityI) simp_all
    have "subtract_shards gf16_new (matrix ! i) ?lookup (2 * k) shards 0 v =
        Inr (v XOR xsum (map (\<lambda>j. if j \<in> set D then 0 else gmul (?e j) (?w j)) [0..<length data]))" for v
    proof -
      have "map (\<lambda>j. if ?lookup ! (0 + j) then 0 else gmul (matrix ! i ! (0 + j)) (word_at (shards ! j) (2 * k))) [0..<length shards] =
          map (\<lambda>j. if j \<in> set D then 0 else gmul (?e j) (?w j)) [0..<length data]"
        using cur(1,3) i rows(2) m by (auto intro!: map_cong)
      then show ?thesis using cur(2) room by (subst subtract_shards_eq) simp_all
    qed
    then show ?thesis
      using parity_shard_word [OF data(2,3), of data i] room syndrome [OF D, of ?e ?w] by (simp add: v read_word_at)
  qed
  have "traverse (\<lambda>(row_index, parity). rbind (read_word parity (2 * k))
      (\<lambda>v. subtract_shards gf16_new (matrix ! row_index) ?lookup (2 * k) shards 0 v))
      (map (\<lambda>i. (i, parity_shard data len i)) rows) =
      Inr (mat_vec (map (\<lambda>i. map (encoder_entry (length data) i) D) rows) (map ?w D))"
    unfolding mat_vec_def using rhs by (subst traverse_Inr [where g = "\<lambda>(i, _). gf16.dot (map (encoder_entry (length data) i) D) (map ?w D)"]) auto
  moreover have "write_solved (2 * k) (zip D (map ?w D)) shards =
      Inr (map (\<lambda>j. if j \<in> set D then put_word (2 * k) (?w j) (shards ! j) else shards ! j) [0..<length data])"
  proof -
    have "\<forall>i\<in>set D. i < length shards \<and> 2 * k + 2 \<le> length (shards ! i)"
      using D(2) cur(1,2) room by (metis lessThan_iff nth_mem subset_iff)
    from write_solved_eq [OF D(1) this, of ?w] show ?thesis
      using cur(1) by (simp add: zip_map2 zip_same_conv_map comp_def)
  qed
  ultimately show ?thesis using b [of "map ?w D"] by (simp add: recover_word_def)
qed

section \<open>All words\<close>

text \<open>The shards after \<open>k\<close> words: the damaged ones are restored up to there.\<close>

definition restored :: "nat \<Rightarrow> nat list \<Rightarrow> byte list list \<Rightarrow> byte list list \<Rightarrow> byte list list" where
  "restored k D data broken =
     map (\<lambda>j. if j \<in> set D then take (2 * k) (data ! j) @ drop (2 * k) (broken ! j) else data ! j) [0..<length data]"

lemma put_word_restores:
  assumes "length s = len" "length t = len" "2 * k + 2 \<le> len"
  shows "put_word (2 * k) (word_at s (2 * k)) (take (2 * k) s @ drop (2 * k) t) =
    take (2 * Suc k) s @ drop (2 * Suc k) t"
proof -
  have "take (2 * Suc k) s = take (2 * k) s @ [s ! (2 * k), s ! (2 * k + 1)]"
    using assms by (simp add: take_Suc_conv_app_nth)
  then show ?thesis using assms by (simp add: put_word_def word_at_def)
qed

lemma recover_words_eq:
  assumes data: "\<forall>s\<in>set data. length s = len" "even len"
    and broken: "length broken = length data" "\<forall>s\<in>set broken. length s = len"
    and D: "distinct D" "set D \<subseteq> {..<length data}" and rows: "length rows = length D" "\<forall>i\<in>set rows. i < length matrix"
    and m: "\<And>i. i < length matrix \<Longrightarrow> matrix ! i = map (encoder_entry (length data) i) [0..<length data]"
    and b: "\<And>x. length x = length D \<Longrightarrow>
      apply_inverse_matrix gf16_new b (mat_vec (map (\<lambda>i. map (encoder_entry (length data) i) D) rows) x) = Inr x"
    and k: "k + n = len div 2"
  shows "recover_words gf16_new matrix b (map (\<lambda>j. j \<in> set D) [0..<length data]) D
      (map (\<lambda>i. (i, parity_shard data len i)) rows) (map (\<lambda>k. 2 * k) [k..<len div 2]) (restored k D data broken) =
    Inr (restored (len div 2) D data broken)"
  using k
proof (induction n arbitrary: k)
  case 0
  then show ?case by simp
next
  case (Suc n)
  then have k: "k < len div 2" by simp
  have room: "2 * k + 2 \<le> len" using data(2) k by (auto elim!: evenE)
  have lens: "length (data ! j) = len" "length (broken ! j) = len" if "j < length data" for j
    using data(1) broken that by simp_all
  have cur: "length (restored k D data broken) = length data" "\<forall>s\<in>set (restored k D data broken). length s = len"
    "\<And>j. j < length data \<Longrightarrow> j \<notin> set D \<Longrightarrow> restored k D data broken ! j = data ! j"
    using lens room by (auto simp: restored_def)
  have "recover_word gf16_new matrix b (map (\<lambda>j. j \<in> set D) [0..<length data]) D
      (map (\<lambda>i. (i, parity_shard data len i)) rows) (2 * k) (restored k D data broken) =
    Inr (map (\<lambda>j. if j \<in> set D then put_word (2 * k) (word_at (data ! j) (2 * k)) (restored k D data broken ! j)
       else restored k D data broken ! j) [0..<length data])"
    by (rule recover_word_eq [OF data k cur D rows m b])
  also have "\<dots> = Inr (restored (Suc k) D data broken)"
    using put_word_restores [OF lens room] by (auto simp: restored_def intro!: map_cong)
  finally show ?case using Suc.IH [of "Suc k"] Suc.prems k by (simp add: upt_conv_Cons)
qed

text \<open>
  The rows given to the solver are distinct and have their parity; as many as there are damaged
  shards.
\<close>

lemma recover_damaged_correct:
  assumes enc: "make_encoder_matrix (length data) r = Inr matrix"
    and data: "\<forall>s\<in>set data. length s = len" "even len"
    and broken: "length broken = length data" "\<forall>s\<in>set broken. length s = len"
      "\<And>j. j < length data \<Longrightarrow> j \<notin> set D \<Longrightarrow> broken ! j = data ! j"
    and D: "distinct D" "set D \<subseteq> {..<length data}" "D \<noteq> []"
    and rows: "distinct rows" "length rows = length D" "\<forall>i\<in>set rows. i < r"
  shows "recover_damaged_shards broken D (map (\<lambda>i. (i, parity_shard data len i)) rows) = Inr data"
proof -
  let ?d = "length data" and ?rs = "map (\<lambda>i. (i, parity_shard data len i)) rows"
  define r' where "r' = Max (set (map (\<lambda>(row, _). row + 1) ?rs))"
  have ne: "rows \<noteq> []" using rows(2) D(3) by auto
  have set_rs: "set (map (\<lambda>(row, _). row + 1) ?rs) = Suc ` set rows" by auto
  have mem: "i < r'" if "i \<in> set rows" for i
  proof -
    have "Suc i \<le> r'" unfolding r'_def set_rs using that by (intro Max_ge) auto
    then show ?thesis by simp
  qed
  have "r' \<in> Suc ` set rows" unfolding r'_def set_rs using ne by (intro Max_in) auto
  then have r': "0 < r'" "r' \<le> r" using rows(3) by auto
  let ?m = "map (\<lambda>i. map (encoder_entry ?d i) [0..<?d]) [0..<r']"
  have mk: "make_encoder_matrix ?d r' = Inr ?m" by (rule make_encoder_matrix_fewer [OF enc r'])
  have bound: "?d + r \<le> 65535" using make_encoder_matrix_eq(4) [OF enc] .
  have eqs: "map (\<lambda>(row_index, _). map (\<lambda>data_index. ?m ! row_index ! data_index) D) ?rs =
      map (\<lambda>i. map (encoder_entry ?d i) D) rows" (is "_ = ?e")
    using mem D(2) by (auto intro!: map_cong)
  have reg: "regular_matrix ?e"
    using rows D(1,2) bound by (intro encoder_submatrix_regular) auto
  have square: "length row = length ?e" if "row \<in> set ?e" for row using that rows(2) by auto
  obtain b where b: "invert_linear_system_matrix gf16_new ?e = Inr b"
      "\<And>x. length x = length ?e \<Longrightarrow> apply_inverse_matrix gf16_new b (mat_vec ?e x) = Inr x"
    using invert_regular [OF square reg] by auto
  have look: "mark_damaged ?d D (replicate ?d False) = Inr (map (\<lambda>j. j \<in> set D) [0..<?d])"
    using D(2) by (subst mark_damaged_eq) (auto intro!: map_cong)
  obtain first rest where fr: "broken = first # rest" "length first = len"
    using broken(1,2) D(2,3) by (cases broken) auto
  have offs: "word_offsets len = map (\<lambda>k. 2 * k) [0..<len div 2]" using data(2) by (rule word_offsets_even)
  have start: "restored 0 D data broken = broken"
    using broken(1,3) by (intro nth_equalityI) (auto simp: restored_def)
  have stop: "restored (len div 2) D data broken = data"
    using data broken(1,2) by (intro nth_equalityI) (auto simp: restored_def elim!: evenE)
  have "recover_words gf16_new ?m b (map (\<lambda>j. j \<in> set D) [0..<?d]) D ?rs (word_offsets len) broken = Inr data"
    using recover_words_eq [OF data broken(1,2) D(1,2) rows(2), of ?m b 0 "len div 2"] mem b(2) rows(2)
    unfolding offs by (simp add: start stop)
  then show ?thesis
    unfolding recover_damaged_shards_def Let_def broken(1) look rbind_Inr r'_def [symmetric] mk eqs b(1)
    using ne fr by simp
qed

section \<open>The interface of the crate\<close>

lemma encode_parity_eq:
  assumes "encode_parity_shards data r = Inr parity"
  shows "even (length (hd data))" "\<forall>s\<in>set data. length s = length (hd data)" "data \<noteq> []"
    "parity = map (parity_shard data (length (hd data))) [0..<r]"
    "\<exists>matrix. make_encoder_matrix (length data) r = Inr matrix"
proof -
  obtain first rest where data: "data = first # rest"
    using assms by (cases data) (auto simp: encode_parity_shards_def)
  have ok: "even (length first)" "\<forall>s\<in>set data. length s = length first"
    using assms data by (auto simp: encode_parity_shards_def list_ex_iff split: if_splits)
  obtain matrix where m: "make_encoder_matrix (length data) r = Inr matrix"
    and p: "parity = map (\<lambda>row. concat (map (\<lambda>offset. u16_to_le (parity_word gf16_new row data offset)) (word_offsets (length first)))) matrix"
    using assms data by (auto simp: encode_parity_shards_def result_simps split: if_splits)
  have "parity = map (parity_shard data (length first)) [0..<r]"
    unfolding p make_encoder_matrix_eq(1) [OF m] by (simp add: parity_shard_def)
  then show "parity = map (parity_shard data (length (hd data))) [0..<r]" by (simp only: data list.sel)
  show "even (length (hd data))" using ok(1) by (simp only: data list.sel)
  show "\<forall>s\<in>set data. length s = length (hd data)" using ok(2) by (simp only: data list.sel)
  show "data \<noteq> []" by (simp add: data)
  show "\<exists>matrix. make_encoder_matrix (length data) r = Inr matrix" using m by blast
qed

lemma pad_shards_erased:
  assumes "length shards = length data" "\<forall>s\<in>set data. length s = len"
    and "\<And>j. j < length data \<Longrightarrow> shards ! j = None \<or> shards ! j = Some (data ! j)"
  shows "pad_shards len index shards =
    Inr (map (\<lambda>j. if shards ! j = None then replicate len 0 else data ! j) [0..<length data],
         map (\<lambda>j. index + j) (filter (\<lambda>j. shards ! j = None) [0..<length data]))"
  using assms
proof (induction shards arbitrary: index data)
  case (Cons s shards)
  obtain t data' where data: "data = t # data'" using Cons.prems(1) by (cases data) auto
  have "shards ! j = None \<or> shards ! j = Some (data' ! j)" if "j < length data'" for j
    using Cons.prems(3) [of "Suc j"] that data by simp
  then have IH: "pad_shards len (index + 1) shards =
      Inr (map (\<lambda>j. if shards ! j = None then replicate len 0 else data' ! j) [0..<length data'],
           map (\<lambda>j. index + 1 + j) (filter (\<lambda>j. shards ! j = None) [0..<length data']))"
    using Cons.prems(1,2) data by (intro Cons.IH) auto
  have upt: "[0..<length data] = 0 # map Suc [0..<length data']"
    using data by (simp add: map_Suc_upt upt_conv_Cons del: upt_Suc)
  have "s = None \<or> s = Some t" using Cons.prems(3) [of 0] data by simp
  moreover have "length t = len" using Cons.prems(2) data by simp
  ultimately show ?case
    using IH unfolding upt by (auto simp: data filter_map comp_def cong: if_cong)
qed simp

text \<open>C14: Reconstruction restores erased shards: if at most as many data shards are missing as
  distinct parity shards survive, whichever they are, \<open>reconstruct_data_shards\<close> returns exactly
  the shards that were encoded.\<close>

theorem reconstruct_restores:
  assumes "encode_parity_shards data r = Inr parity"
    and "length shards = length data" "\<And>j. j < length data \<Longrightarrow> shards ! j = None \<or> shards ! j = Some (data ! j)"
    and "distinct rows" "\<And>i. i \<in> set rows \<Longrightarrow> i < r" "rows \<noteq> []"
    and "length (filter (\<lambda>s. s = None) shards) \<le> length rows"
  shows "reconstruct_data_shards shards (map (\<lambda>i. (i, parity ! i)) rows) = Inr data"
proof -
  note enc = encode_parity_eq [OF assms(1)]
  let ?len = "length (hd data)"
  define D where "D = filter (\<lambda>j. shards ! j = None) [0..<length data]"
  let ?broken = "map (\<lambda>j. if shards ! j = None then replicate ?len 0 else data ! j) [0..<length data]"
  have rs: "map (\<lambda>i. (i, parity ! i)) rows = map (\<lambda>i. (i, parity_shard data ?len i)) rows"
    using assms(5) enc(4) by auto
  have plen: "length (parity_shard data ?len i) = ?len" for i
  proof (cases "?len = 0")
    case False
    then have "0 < ?len div 2" using enc(1) by presburger
    then show ?thesis by (rule parity_shard_word(1) [OF enc(1)])
  qed (simp add: parity_shard_def word_offsets_def)
  have D: "distinct D" "set D \<subseteq> {..<length data}" by (auto simp: D_def)
  have "length D = length (filter (\<lambda>s. s = None) shards)"
    unfolding D_def assms(2) [symmetric]
    by (simp add: length_filter_conv_card) (rule arg_cong [where f = card], auto)
  then have few: "length D \<le> length rows" using assms(7) by simp
  have pad: "pad_shards ?len 0 shards = Inr (?broken, D)"
    using pad_shards_erased [OF assms(2) enc(2) assms(3), of 0] by (simp add: D_def)
  obtain i0 rest where r0: "rows = i0 # rest" using assms(6) by (cases rows) auto
  have sne: "shards \<noteq> []" using assms(2) enc(3) by auto
  have main: "recover_damaged_shards ?broken D (take (length D) (map (\<lambda>i. (i, parity_shard data ?len i)) rows)) = Inr data"
    if "D \<noteq> []"
  proof -
    obtain matrix where m: "make_encoder_matrix (length data) r = Inr matrix" using enc(5) by blast
    have "set (take (length D) rows) \<subseteq> set rows" by (rule set_take_subset)
    then have "recover_damaged_shards ?broken D (map (\<lambda>i. (i, parity_shard data ?len i)) (take (length D) rows)) = Inr data"
      using assms(3-5) few D that enc(1,2)
      by (intro recover_damaged_correct [OF m, where len = ?len]) (auto simp: D_def)
    then show ?thesis by (simp add: take_map)
  qed
  have none: "?broken = data" if "D = []"
  proof -
    have "(if shards ! j = None then replicate ?len 0 else data ! j) = data ! j" if "j < length data" for j
      using \<open>D = []\<close> that by (simp add: D_def filter_empty_conv del: not_None_eq)
    then have "?broken = map (\<lambda>j. data ! j) [0..<length data]" by (intro map_cong) simp_all
    then show ?thesis by (simp add: map_nth)
  qed
  show ?thesis
    using sne pad main none few enc(1) plen unfolding rs
    by (simp add: reconstruct_data_shards_def r0 list_ex_iff Let_def)
qed

theorem reconstruct_restores_witness:
  "\<exists>parity. encode_parity_shards [[1, 2], [3, 4], [5, 6]] 3 = Inr parity \<and>
     reconstruct_data_shards [None, Some [3, 4], None] (map (\<lambda>i. (i, parity ! i)) [2, 0]) = Inr [[1, 2], [3, 4], [5, 6]]"
proof -
  let ?data = "[[1, 2], [3, 4], [5, 6]] :: byte list list"
  have "make_encoder_matrix 3 3 = Inr (map (\<lambda>i. map (encoder_entry 3 i) [0..<3]) [0..<3])"
    unfolding make_encoder_matrix_def using encoder_rows [of 3 3] by (simp add: FIELD_SIZE_def MAX_ENCODER_MATRIX_CELLS_def)
  then have "make_encoder_matrix (length ?data) 3 = Inr (map (\<lambda>i. map (encoder_entry 3 i) [0..<3]) [0..<3])"
    by (simp only: list.size(3,4) add_0 numeral_3_eq_3 add_Suc_right add_0_right One_nat_def)
  then obtain parity where p: "encode_parity_shards ?data 3 = Inr parity"
    by (simp add: encode_parity_shards_def)
  have "reconstruct_data_shards [None, Some [3, 4], None] (map (\<lambda>i. (i, parity ! i)) [2, 0]) = Inr ?data"
    by (rule reconstruct_restores [OF p]) (auto simp: less_Suc_eq numeral_3_eq_3)
  with p show ?thesis by blast
qed

end
