(* ===== verification/RecoveryLayout.thy ===== *)
theory RecoveryLayout
  imports RecoveryRepair ErasureCode
begin

text \<open>
  What the writer of a recovery record lays out, the parser reads back: the little-endian fields,
  one sealed chunk, the scan over consecutive chunks, and the assembly of the chunks of a shard into
  the parity shard with the checksums of every block.
\<close>

section \<open>Little-endian fields\<close>

lemma slice_eqI: "drop a xs = ys @ zs \<Longrightarrow> b - a = length ys \<Longrightarrow> sub_slice xs (a, b) = ys"
  by (simp add: sub_slice_def)

lemma length_to_le [simp]: "length (to_le n v) = n"
  by (induction n arbitrary: v) simp_all

lemma from_to_le: "from_le (to_le n v) = v mod 256 ^ n"
proof (induction n arbitrary: v)
  case (Suc n)
  have "v mod (256 * 256 ^ n) = v mod 256 + 256 * (v div 256 mod 256 ^ n)"
    by (simp add: mod_mult2_eq)
  then show ?case using Suc by (simp add: unsigned_of_nat take_bit_eq_mod)
qed simp

lemma read_le_at:
  assumes "drop offset input = to_le n v @ rest" "v < 256 ^ n" "0 < n"
  shows "read_le n input offset = Inr v"
proof -
  have "length input - offset = n + length rest"
    using arg_cong [OF assms(1), of length] by simp
  then show ?thesis using assms by (simp add: read_le_def from_to_le)
qed

lemma unat_u64_less: "unat (w :: u64) < 256 ^ 8"
  using unsigned_less [of w] by simp

section \<open>The plan\<close>

definition plan_ok :: "inline_recovery_plan \<Rightarrow> bool" where
  "plan_ok p \<longleftrightarrow> even (group_count p) \<and> header_size p = 72 + 8 * data_shards p \<and>
     shard_size p = group_count p + blocks_per_shard p * header_size p \<and>
     shard_size p < 2 ^ 64 \<and> recovery_shards p * shard_size p < 2 ^ 64 \<and>
     0 < data_shards p \<and> data_shards p < 2 ^ 16 \<and> recovery_shards p < 2 ^ 16"

lemma div_ceil_bounds: "0 < b \<Longrightarrow> a \<le> b * div_ceil a b"
proof -
  assume b: "0 < b"
  have "a = b * (a div b) + a mod b" by simp
  also have "\<dots> \<le> b * (a div b) + b * (if a mod b = 0 then 0 else 1)"
    using mod_less_divisor [OF b, of a] by (intro add_mono) (auto simp: less_imp_le)
  finally show ?thesis by (simp only: div_ceil_def distrib_left)
qed

lemma div_ceil_less:
  assumes "0 < b" "k < div_ceil a b"
  shows "k * b < a"
proof -
  have a: "a = a div b * b + a mod b" by simp
  show ?thesis
  proof (cases "a mod b = 0")
    case True
    then have "Suc k * b \<le> a div b * b" using assms by (intro mult_le_mono1) (simp add: div_ceil_def)
    then show ?thesis using a assms(1) by (simp only: mult_Suc)
  next
    case False
    then have "k * b \<le> a div b * b" using assms by (intro mult_le_mono1) (simp add: div_ceil_def)
    then show ?thesis using a False by (simp only:)
  qed
qed

lemma plan_inline_recovery_ok:
  assumes "plan_inline_recovery n pct = Inr p" "payload_size p = Inr bytes"
  shows "plan_ok p" "n \<le> data_shards p * group_count p" "data_shards p \<le> 200" "recovery_shards p \<le> data_shards p"
proof -
  define ds where "ds = (if 200 * KIB \<le> n then MAX_WINRAR602_DATA_SHARDS else max (div_ceil n KIB) 1)"
  have "div_ceil n 1024 \<le> 200" if "n < 204800"
    using that by (auto simp: div_ceil_def)
  then have ds: "0 < ds" "ds \<le> 200" by (auto simp: ds_def KIB_def MAX_WINRAR602_DATA_SHARDS_def)
  define gc where "gc = div_ceil n ds + div_ceil n ds mod 2"
  define rs where "rs = (let r = min (2 * min pct 100 * ds div 200) ds in if r = 0 \<and> n < 200 * KIB then 1 else r)"
  have rs: "rs \<le> ds" using ds(1) by (simp add: rs_def Let_def)
  have "checked_mul ds 8 = Some (ds * 8)" "checked_add (ds * 8) RAR5_RECOVERY_CHUNK_FIXED_HEADER_SIZE = Some (72 + 8 * ds)"
    using ds by (simp_all add: checked_mul_def checked_add_def RAR5_RECOVERY_CHUNK_FIXED_HEADER_SIZE_def)
  then have "rbind (ok_or PlanOverflow (case checked_mul (max (div_ceil gc RAR5_RECOVERY_BLOCK_PAYLOAD_SIZE) 1) (72 + 8 * ds) of
        None \<Rightarrow> None | Some headers \<Rightarrow> checked_add headers gc)) (\<lambda>ss.
      Inr \<lparr>data_shards = ds, recovery_shards = rs, group_count = gc, header_size = 72 + 8 * ds, shard_size = ss\<rparr>) = Inr p"
    using assms(1) [unfolded plan_inline_recovery_def Let_def, folded ds_def, folded gc_def, folded rs_def [unfolded Let_def]]
    by (simp only: option.case ok_or_simps rbind_Inr)
  then have p: "data_shards p = ds" "recovery_shards p = rs" "group_count p = gc" "header_size p = 72 + 8 * ds"
    "shard_size p = gc + blocks_per_shard p * (72 + 8 * ds)" "shard_size p < 2 ^ 64"
    by (auto simp: rbind_eq_Inr ok_or_eq_Inr checked_mul_def checked_add_def blocks_per_shard_def
        split: option.splits if_splits)
  have "recovery_shards p * shard_size p < 2 ^ 64"
    using assms(2) by (simp add: payload_size_def checked_mul_def split: if_splits)
  moreover have "even gc" by (simp add: gc_def)
  ultimately show "plan_ok p" using p ds rs by (simp add: plan_ok_def)
  have "n \<le> ds * div_ceil n ds" by (rule div_ceil_bounds [OF ds(1)])
  also have "\<dots> \<le> ds * gc" by (simp add: gc_def)
  finally show "n \<le> data_shards p * group_count p" by (simp add: p)
  show "data_shards p \<le> 200" "recovery_shards p \<le> data_shards p" using p ds rs by simp_all
qed

section \<open>One chunk\<close>

text \<open>The bytes of a sealed chunk: marker, checksum of the rest, and the rest.\<close>

lemma seal_chunk_eq:
  "seal_chunk (RB_MARKER @ to_le 8 0 @ body) = RB_MARKER @ to_le 8 (unat (crc64_xz body)) @ body"
  by (simp add: seal_chunk_def RB_MARKER_def)

lemma parse_frame_sealed:
  assumes body: "body = to_le 4 sz @ to_le 4 hs @ [1, 1] @ more_bytes"
    and sz: "sz = 12 + length body" "sz < 2 ^ 32" "72 \<le> hs" "hs \<le> sz"
  shows "parse_chunk_frame (RB_MARKER @ to_le 8 (unat (crc64_xz body)) @ body @ rest) = Inr (hs, sz)"
proof -
  let ?input = "RB_MARKER @ to_le 8 (unat (crc64_xz body)) @ body @ rest"
  have reads: "read_u32 ?input 0x0c = Inr sz" "read_u32 ?input 0x10 = Inr hs"
      "read_u64 ?input 0x04 = Inr (unat (crc64_xz body))"
    using sz(2,4) unat_u64_less [of "crc64_xz body"] unfolding read_u32_def read_u64_def
    by (auto simp: RB_MARKER_def body intro!: read_le_at)
  have "?input ! 0x14 = 1" "?input ! 0x15 = 1" by (simp_all add: RB_MARKER_def nth_append body)
  moreover have "sub_slice ?input (0x0c, sz) = body" by (simp add: sub_slice_def RB_MARKER_def sz(1))
  moreover have "take 4 ?input = RB_MARKER" "length ?input = sz + length rest" "0x48 \<le> length ?input"
    using sz by (simp_all add: RB_MARKER_def)
  ultimately show ?thesis
    using sz(3,4) reads by (simp add: parse_chunk_frame_def RAR5_RECOVERY_CHUNK_FIXED_HEADER_SIZE_def)
qed

lemma parse_plan_fields:
  assumes "input = pre @ to_le 8 offset @ to_le 4 extent @ to_le 8 protected @ to_le 8 (group_count p) @
      to_le 8 (shard_size p) @ to_le 2 (data_shards p) @ to_le 2 (recovery_shards p) @ to_le 2 index @ more_bytes"
    and "length pre = 22" "plan_ok p" "index < recovery_shards p" "offset \<le> group_count p" "protected < 2 ^ 64"
  shows "parse_chunk_plan input (header_size p) = Inr (protected, offset, index, p)"
proof -
  note ok = assms(3) [unfolded plan_ok_def]
  have gc: "group_count p < 2 ^ 64" using ok by auto
  have reads: "read_u64 input 0x22 = Inr protected" "read_u64 input 0x2a = Inr (group_count p)"
    "read_u64 input 0x32 = Inr (shard_size p)" "read_u64 input 0x16 = Inr offset"
    "read_le 2 input 0x3a = Inr (data_shards p)" "read_le 2 input 0x3c = Inr (recovery_shards p)"
    "read_le 2 input 0x3e = Inr index"
    using assms(2,4-6) ok gc unfolding read_u64_def
    by (auto simp: assms(1) intro!: read_le_at)
  have hs: "0 < header_size p" using ok by simp
  have "1 \<le> blocks_per_shard p" by (simp add: blocks_per_shard_def)
  then have "header_size p \<le> blocks_per_shard p * header_size p" by simp
  then have "group_count p + header_size p \<le> shard_size p" using ok by linarith
  then have "sat_add (group_count p) (header_size p) \<le> shard_size p" by (simp add: sat_add_def)
  then have room: "\<not> shard_size p < sat_add (group_count p) (header_size p)" by simp
  have diff: "shard_size p - group_count p = blocks_per_shard p * header_size p"
    using ok by (metis diff_add_inverse)
  have fits: "recovery_shards p * shard_size p < 2 ^ 64" using ok by blast
  have pay: "payload_size p = Inr (recovery_shards p * shard_size p)"
    using fits by (simp add: payload_size_def checked_mul_def)
  have whole: "checked_mul (recovery_shards p) (shard_size p) = Some (recovery_shards p * shard_size p)"
    using fits by (simp add: checked_mul_def)
  have this_plan: "\<lparr>data_shards = data_shards p, recovery_shards = recovery_shards p, group_count = group_count p,
     header_size = header_size p, shard_size = shard_size p\<rparr> = p" by simp
  have "even (group_count p)" "\<not> header_size p \<noteq> 0x48 + data_shards p * 8" using ok by simp_all
  moreover have "blocks_per_shard p \<noteq> 0" using \<open>1 \<le> blocks_per_shard p\<close> by simp
  ultimately show ?thesis
    using room hs assms(4)
    by (simp only: parse_chunk_plan_def reads rbind_Inr Let_def this_plan pay whole ok_or_simps diff) simp
qed

lemma drop_fields:
  "i < length xs \<Longrightarrow>
   drop (n * i) (concat (map (\<lambda>x. to_le n (f x)) xs)) = to_le n (f (xs ! i)) @ concat (map (\<lambda>x. to_le n (f x)) (drop (Suc i) xs))"
proof (induction xs arbitrary: i)
  case (Cons x xs)
  then show ?case by (cases i) simp_all
qed simp

lemma length_fields [simp]: "length (concat (map (\<lambda>x. to_le n (f x)) xs)) = n * length xs"
  by (induction xs) simp_all

text \<open>The chunk of block \<open>block\<close> of parity shard \<open>index\<close>, as the reader sees it.\<close>

definition rb_chunk :: "inline_recovery_plan \<Rightarrow> nat \<Rightarrow> u64 list list \<Rightarrow> nat \<Rightarrow> byte list \<Rightarrow> nat \<Rightarrow> inline_recovery_chunk" where
  "rb_chunk p protected states index payload block =
     \<lparr>chunk_plan = p, protected_size = protected, chunk_shard_index = index,
      block_states = [(block, map unat (states ! block))],
      chunk_offset = block * RAR5_RECOVERY_BLOCK_PAYLOAD_SIZE, legacy_whole_shard = False,
      chunk_parity = sub_slice payload (block * RAR5_RECOVERY_BLOCK_PAYLOAD_SIZE,
        min (Suc block * RAR5_RECOVERY_BLOCK_PAYLOAD_SIZE) (group_count p))\<rparr>"

lemma blocks_per_shard_bound:
  assumes "block < blocks_per_shard p"
  shows "block * RAR5_RECOVERY_BLOCK_PAYLOAD_SIZE \<le> group_count p"
    and "block * RAR5_RECOVERY_BLOCK_PAYLOAD_SIZE < group_count p \<or> group_count p = 0 \<and> block = 0"
proof -
  let ?B = RAR5_RECOVERY_BLOCK_PAYLOAD_SIZE
  have B: "0 < ?B" by (simp add: RAR5_RECOVERY_BLOCK_PAYLOAD_SIZE_def KIB_def)
  show *: "block * ?B < group_count p \<or> group_count p = 0 \<and> block = 0"
  proof (cases "group_count p = 0")
    case True
    then show ?thesis using assms by (simp add: blocks_per_shard_def div_ceil_def)
  next
    case False
    then have "block < div_ceil (group_count p) ?B"
      using assms div_ceil_bounds [OF B, of "group_count p"] by (cases "div_ceil (group_count p) ?B") (simp_all add: blocks_per_shard_def)
    then have "block * ?B < group_count p" by (rule div_ceil_less [OF B])
    then show ?thesis by simp
  qed
  then show "block * ?B \<le> group_count p" by auto
qed

abbreviation "block_bytes \<equiv> RAR5_RECOVERY_BLOCK_PAYLOAD_SIZE"

lemma block_bytes_pos: "0 < block_bytes"
  by (simp add: RAR5_RECOVERY_BLOCK_PAYLOAD_SIZE_def KIB_def)

lemma block_offset_eq:
  assumes "plan_ok p" "block < blocks_per_shard p"
  shows "block_offset p block = block * block_bytes"
    and "block_offset p block + block_payload_len p block = min (Suc block * block_bytes) (group_count p)"
    and "block_payload_len p block = min (Suc block * block_bytes) (group_count p) - block * block_bytes"
proof -
  have le: "block * block_bytes \<le> group_count p" by (rule blocks_per_shard_bound [OF assms(2)])
  have "group_count p < 2 ^ 64" using assms(1) by (auto simp: plan_ok_def)
  with le have sat: "sat_mul block block_bytes = block * block_bytes" by (simp add: sat_mul_def)
  then show off: "block_offset p block = block * block_bytes" using le by (simp add: block_offset_def)
  have len: "block_payload_len p block = min (group_count p - block * block_bytes) block_bytes"
    by (simp add: block_payload_len_def sat)
  then show "block_offset p block + block_payload_len p block = min (Suc block * block_bytes) (group_count p)"
    unfolding mult_Suc using off le by linarith
  then show "block_payload_len p block = min (Suc block * block_bytes) (group_count p) - block * block_bytes"
    using off by linarith
qed

lemma assemble_chunk_parses:
  assumes chunk: "assemble_chunk p states final_state protected last_len index payload block = Inr chunk"
    and p: "plan_ok p" "index < recovery_shards p" "block < blocks_per_shard p" "protected < 2 ^ 64"
    and sizes: "length payload = group_count p" "block < length states" "length (states ! block) = data_shards p"
  shows "parse_inline_recovery_chunk (chunk @ rest) = Inr (rb_chunk p protected states index payload block)"
    and "take 4 chunk = RB_MARKER"
    and "chunk_len (rb_chunk p protected states index payload block) = length chunk"
proof -
  note ok = p(1) [unfolded plan_ok_def]
  let ?off = "block * block_bytes" and ?stop = "min (Suc block * block_bytes) (group_count p)"
  let ?piece = "sub_slice payload (?off, ?stop)"
  note geo = block_offset_eq [OF p(1,3)]
  have off_le: "?off \<le> group_count p" by (rule blocks_per_shard_bound [OF p(3)])
  have piece_len: "length ?piece = block_payload_len p block" using sizes(1) geo(3) by (simp add: sub_slice_def)
  obtain sz extent where sz: "sz = header_size p + block_payload_len p block" "sz < 2 ^ 32"
    and c: "chunk = seal_chunk (rb_header p index block sz extent (states ! block) final_state protected @ ?piece)"
    and len: "length (rb_header p index block sz extent (states ! block) final_state protected) = header_size p"
    using chunk geo(1,2) sizes(1)
    by (auto simp: assemble_chunk_def Let_def rbind_eq_Inr ok_or_eq_Inr narrow_def checked_add_def sub_slice_def split: if_splits)
  define fields where "fields = to_le 8 ?off @ to_le 4 extent @ to_le 8 protected @
     to_le 8 (group_count p) @ to_le 8 (shard_size p) @ to_le 2 (data_shards p) @
     to_le 2 (recovery_shards p) @ to_le 2 index @
     concat (map (\<lambda>state. to_le 8 (unat state)) (states ! block)) @ to_le 8 (unat final_state) @ ?piece"
  define body where "body = to_le 4 sz @ to_le 4 (header_size p) @ [1, 1] @ fields"
  have c': "chunk = RB_MARKER @ to_le 8 (unat (crc64_xz body)) @ body"
    unfolding c rb_header_def geo(1) body_def fields_def
    by (simp only: append_assoc seal_chunk_eq)
  have body_len: "sz = 12 + length body"
    using ok sizes(3) piece_len by (simp add: body_def fields_def sz(1))
  have hs: "72 \<le> header_size p" using ok by simp
  have frame: "parse_chunk_frame (chunk @ rest) = Inr (header_size p, sz)"
    unfolding c' append_assoc
    by (rule parse_frame_sealed [OF body_def body_len sz(2) hs]) (simp add: sz(1))
  let ?pre = "RB_MARKER @ to_le 8 (unat (crc64_xz body)) @ to_le 4 sz @ to_le 4 (header_size p) @ [1, 1]"
  have plan: "parse_chunk_plan (chunk @ rest) (header_size p) = Inr (protected, ?off, index, p)"
    by (rule parse_plan_fields [where pre = ?pre and extent = extent])
      (use p ok off_le in \<open>auto simp: c' body_def fields_def RB_MARKER_def\<close>)
  have tail: "drop 64 (chunk @ rest) =
      concat (map (\<lambda>state. to_le 8 (unat state)) (states ! block)) @ to_le 8 (unat final_state) @ ?piece @ rest"
    by (simp add: c' body_def fields_def RB_MARKER_def)
  have reads: "read_u64 (chunk @ rest) (0x40 + 8 * i) = Inr (unat (states ! block ! i))" if i: "i < data_shards p" for i
  proof -
    have "drop (8 * i) (concat (map (\<lambda>state. to_le 8 (unat state)) (states ! block))) =
        to_le 8 (unat (states ! block ! i)) @ concat (map (\<lambda>state. to_le 8 (unat state)) (drop (Suc i) (states ! block)))"
      using i sizes(3) by (intro drop_fields) simp
    moreover have "8 * i - length (concat (map (\<lambda>state. to_le 8 (unat state)) (states ! block))) = 0"
      using i sizes(3) by simp
    ultimately have "drop (8 * i) (drop 64 (chunk @ rest)) = to_le 8 (unat (states ! block ! i)) @
        concat (map (\<lambda>state. to_le 8 (unat state)) (drop (Suc i) (states ! block))) @ to_le 8 (unat final_state) @ ?piece @ rest"
      unfolding tail by (simp only: drop_append drop_0 diff_0_eq_0 append_assoc)
    then have "drop (64 + 8 * i) (chunk @ rest) = to_le 8 (unat (states ! block ! i)) @
        concat (map (\<lambda>state. to_le 8 (unat state)) (drop (Suc i) (states ! block))) @ to_le 8 (unat final_state) @ ?piece @ rest"
      by (simp only: drop_drop add.commute)
    from read_le_at [OF this unat_u64_less] show ?thesis by (simp add: read_u64_def)
  qed
  have all: "traverse (\<lambda>i. read_u64 (chunk @ rest) (0x40 + 8 * i)) [0..<data_shards p] = Inr (map unat (states ! block))"
    using reads sizes(3) by (subst traverse_Inr [where g = "\<lambda>i. unat (states ! block ! i)"]) (auto intro!: nth_equalityI)
  have "drop (8 * data_shards p) (drop 64 (chunk @ rest)) = to_le 8 (unat final_state) @ ?piece @ rest"
    unfolding tail using sizes(3) by simp
  then have final_bytes: "drop (64 + 8 * data_shards p) (chunk @ rest) = to_le 8 (unat final_state) @ ?piece @ rest"
    by (simp only: drop_drop add.commute)
  then have last: "read_u64 (chunk @ rest) (0x40 + 8 * data_shards p) = Inr (unat final_state)"
    using read_le_at [OF _ unat_u64_less] by (simp add: read_u64_def)
  have "drop (header_size p) (chunk @ rest) = ?piece @ rest"
  proof -
    have "drop 8 (drop (64 + 8 * data_shards p) (chunk @ rest)) = ?piece @ rest" unfolding final_bytes by simp
    moreover have "8 + (64 + 8 * data_shards p) = header_size p" using ok by simp
    ultimately show ?thesis by (simp only: drop_drop)
  qed
  moreover have "sz - header_size p = length ?piece" using piece_len sz(1) by simp
  ultimately have parity: "sub_slice (chunk @ rest) (header_size p, sz) = ?piece"
    by (rule slice_eqI)
  have legacy: "\<not> ((shard_size p - group_count p) div header_size p = 1 \<and> 1 < blocks_per_shard p)"
    using ok by (metis add_diff_cancel_left' less_irrefl nonzero_mult_div_cancel_right not_less_zero add_eq_0_iff_both_eq_0 zero_neq_numeral)
  have inside: "\<not> group_count p < sat_add ?off (length ?piece)"
    unfolding sat_add_def piece_len geo(3) using off_le by simp
  have "?off mod block_bytes = 0" "?off div block_bytes = block" using block_bytes_pos by simp_all
  then show "parse_inline_recovery_chunk (chunk @ rest) = Inr (rb_chunk p protected states index payload block)"
    unfolding parse_inline_recovery_chunk_def frame plan rbind_Inr prod.case Let_def all last parity
    using legacy inside by (simp add: rb_chunk_def)
  show "take 4 chunk = RB_MARKER" by (simp add: c' RB_MARKER_def)
  have "length chunk = sz" by (simp add: c' body_len RB_MARKER_def)
  then show "chunk_len (rb_chunk p protected states index payload block) = length chunk"
    using piece_len sz by (simp add: chunk_len_def rb_chunk_def sat_add_def)
qed

section \<open>Consecutive chunks\<close>

definition chunk_bytes :: "byte list \<Rightarrow> inline_recovery_chunk \<Rightarrow> bool" where
  "chunk_bytes c chunk \<longleftrightarrow> (\<forall>rest. parse_inline_recovery_chunk (c @ rest) = Inr chunk) \<and>
     take 4 c = RB_MARKER \<and> chunk_len chunk = length c"

lemma find_recovery_marker_here: "take 4 input = RB_MARKER \<Longrightarrow> find_recovery_marker input = Some 0"
proof -
  assume m: "take 4 input = RB_MARKER"
  then have "length (take 4 input) = 4" by (simp add: RB_MARKER_def)
  then have len: "4 \<le> length input" by simp
  then obtain b bs where "input = b # bs" by (cases input) auto
  with m have "position (\<lambda>b. b = 0x7b) input = Some 0" by (simp add: RB_MARKER_def)
  with m len show ?thesis by (simp add: find_recovery_marker_def find_marker_from.simps)
qed

lemma scan_consecutive:
  "list_all2 chunk_bytes cs chunks \<Longrightarrow>
   \<exists>found. scan_chunks (pre @ concat cs) (length pre) saw = (found, saw \<or> cs \<noteq> []) \<and> map snd found = chunks"
proof (induction cs chunks arbitrary: pre saw rule: list_all2_induct)
  case Nil
  then show ?case by (simp add: scan_chunks.simps)
next
  case (Cons c cs chunk chunks)
  note c = Cons.hyps(1) [unfolded chunk_bytes_def]
  have "length (take 4 c) = 4" using c by (simp add: RB_MARKER_def)
  then have len: "4 \<le> length c" "c \<noteq> []" by auto
  then have "take 4 (c @ concat cs) = RB_MARKER" using c by simp
  then have here: "find_recovery_marker (c @ concat cs) = Some 0" by (rule find_recovery_marker_here)
  obtain found where "scan_chunks ((pre @ c) @ concat cs) (length (pre @ c)) True = (found, True)" "map snd found = chunks"
    using Cons.IH [of "pre @ c" True] by auto
  then show ?case using c len here
    by (subst scan_chunks.simps) simp
qed

lemma find_consecutive:
  assumes "list_all2 chunk_bytes cs chunks"
  shows "\<exists>found. find_inline_recovery_chunks (concat cs) = Inr found \<and> map snd found = chunks"
proof -
  obtain found where f: "scan_chunks (concat cs) 0 False = (found, cs \<noteq> [])" "map snd found = chunks"
    using scan_consecutive [OF assms, of "[]" False] by auto
  have "found = [] \<longleftrightarrow> cs = []" using f(2) list_all2_lengthD [OF assms] by (metis length_0_conv length_map)
  with f show ?thesis by (simp add: find_inline_recovery_chunks_def)
qed

section \<open>Assembling a shard from its blocks\<close>

text \<open>The state after the blocks below \<open>block\<close> of a shard, and the finished shard.\<close>

definition states_upto :: "u64 list list \<Rightarrow> nat \<Rightarrow> (nat \<times> nat list) list" where
  "states_upto states block = map (\<lambda>k. (k, map unat (states ! k))) [0..<block]"

definition shard_upto ::
  "inline_recovery_plan \<Rightarrow> nat \<Rightarrow> u64 list list \<Rightarrow> nat \<Rightarrow> byte list \<Rightarrow> nat \<Rightarrow> inline_recovery_chunk" where
  "shard_upto p protected states index payload block =
     (let n = min (block * RAR5_RECOVERY_BLOCK_PAYLOAD_SIZE) (group_count p) in
      \<lparr>chunk_plan = p, protected_size = protected, chunk_shard_index = index, block_states = states_upto states block,
       chunk_offset = 0, legacy_whole_shard = False, chunk_parity = take n payload @ replicate (group_count p - n) 0\<rparr>)"

definition asm_upto ::
  "inline_recovery_plan \<Rightarrow> nat \<Rightarrow> u64 list list \<Rightarrow> nat \<Rightarrow> byte list \<Rightarrow> nat \<Rightarrow> assembly" where
  "asm_upto p protected states index payload block =
     \<lparr>asm_chunk = shard_upto p protected states index payload block,
      asm_covered = map (\<lambda>k. k < block) [0..<blocks_per_shard p]\<rparr>"

lemma new_assembly_upto:
  assumes "plan_ok p"
  shows "new_assembly (rb_chunk p protected states index payload block) = asm_upto p protected states index payload 0"
proof -
  have "(shard_size p - group_count p) div max (header_size p) 1 = blocks_per_shard p"
  proof -
    have "shard_size p - group_count p = blocks_per_shard p * header_size p" "0 < header_size p"
      using assms by (auto simp: plan_ok_def)
    then show ?thesis by (simp add: max_def)
  qed
  moreover have "max (blocks_per_shard p) (max (div_ceil (group_count p) block_bytes) 1) = blocks_per_shard p"
    by (simp add: blocks_per_shard_def)
  ultimately show ?thesis
    by (simp add: new_assembly_def rb_chunk_def asm_upto_def shard_upto_def states_upto_def Let_def
        map_replicate_const map_replicate_trivial)
qed

lemma add_state_upto:
  "add_state (block, map unat (states ! block)) (states_upto states block) = Inr (states_upto states (Suc block))"
proof -
  have "find (\<lambda>(candidate, _). candidate = block) (states_upto states block) = None"
    by (auto simp: find_None_iff states_upto_def)
  then show ?thesis by (simp add: add_state_def states_upto_def)
qed

lemma mark_covered_upto:
  assumes "plan_ok p" "block < blocks_per_shard p"
  shows "mark_covered (group_count p) (block * block_bytes) (min (Suc block * block_bytes) (group_count p))
      (map (\<lambda>k. k < block) [0..<blocks_per_shard p]) = map (\<lambda>k. k < Suc block) [0..<blocks_per_shard p]"
proof (rule nth_equalityI)
  fix k
  assume "k < length (mark_covered (group_count p) (block * block_bytes) (min (Suc block * block_bytes) (group_count p))
      (map (\<lambda>k. k < block) [0..<blocks_per_shard p]))"
  then have k: "k < blocks_per_shard p" by (simp add: mark_covered_def)
  have gc: "group_count p < 2 ^ 64" using assms(1) by (auto simp: plan_ok_def)
  note kb = blocks_per_shard_bound [OF k] and bb = blocks_per_shard_bound [OF assms(2)]
  have start: "min (sat_mul k block_bytes) (group_count p) = k * block_bytes"
    using kb(1) gc by (simp add: sat_mul_def)
  have stop: "min (sat_mul (sat_add k 1) block_bytes) (group_count p) = min (Suc k * block_bytes) (group_count p)"
    using kb(1) gc by (auto simp: sat_mul_def sat_add_def RAR5_RECOVERY_BLOCK_PAYLOAD_SIZE_def KIB_def)
  have "block * block_bytes \<le> k * block_bytes \<and> min (Suc k * block_bytes) (group_count p) \<le> min (Suc block * block_bytes) (group_count p) \<longleftrightarrow> k = block"
  proof (cases "k = block")
    case False
    have "\<not> min (Suc k * block_bytes) (group_count p) \<le> Suc block * block_bytes" if "block < k"
    proof -
      have "Suc block * block_bytes \<le> k * block_bytes" using that by (intro mult_le_mono1) simp
      moreover have "k * block_bytes < group_count p" "k * block_bytes < Suc k * block_bytes"
        using kb(2) that block_bytes_pos by auto
      ultimately show ?thesis by linarith
    qed
    then show ?thesis using False block_bytes_pos by (cases k block rule: linorder_cases) auto
  qed simp
  moreover have "mark_covered (group_count p) (block * block_bytes) (min (Suc block * block_bytes) (group_count p))
      (map (\<lambda>k. k < block) [0..<blocks_per_shard p]) ! k \<longleftrightarrow> k < block \<or>
      (block * block_bytes \<le> min (sat_mul k block_bytes) (group_count p) \<and>
       min (sat_mul (sat_add k 1) block_bytes) (group_count p) \<le> min (Suc block * block_bytes) (group_count p))"
    using k by (simp add: mark_covered_def nth_enumerate_eq)
  ultimately show "mark_covered (group_count p) (block * block_bytes) (min (Suc block * block_bytes) (group_count p))
      (map (\<lambda>k. k < block) [0..<blocks_per_shard p]) ! k = map (\<lambda>k. k < Suc block) [0..<blocks_per_shard p] ! k"
    unfolding start stop using k by (simp only: nth_map nth_upt length_upt) (simp add: less_Suc_eq)
qed (simp add: mark_covered_def)

lemma shard_upto_simps [simp]:
  "chunk_plan (shard_upto p protected states index payload block) = p"
  "protected_size (shard_upto p protected states index payload block) = protected"
  "chunk_shard_index (shard_upto p protected states index payload block) = index"
  "block_states (shard_upto p protected states index payload block) = states_upto states block"
  "legacy_whole_shard (shard_upto p protected states index payload block) = False"
  by (simp_all add: shard_upto_def Let_def)

lemma rb_chunk_simps [simp]:
  "chunk_plan (rb_chunk p protected states index payload block) = p"
  "protected_size (rb_chunk p protected states index payload block) = protected"
  "chunk_shard_index (rb_chunk p protected states index payload block) = index"
  "block_states (rb_chunk p protected states index payload block) = [(block, map unat (states ! block))]"
  "chunk_offset (rb_chunk p protected states index payload block) = block * block_bytes"
  "legacy_whole_shard (rb_chunk p protected states index payload block) = False"
  "chunk_parity (rb_chunk p protected states index payload block) =
     sub_slice payload (block * block_bytes, min (Suc block * block_bytes) (group_count p))"
  by (simp_all add: rb_chunk_def)

lemma asm_upto_simps [simp]:
  "asm_chunk (asm_upto p protected states index payload block) = shard_upto p protected states index payload block"
  "asm_covered (asm_upto p protected states index payload block) = map (\<lambda>k. k < block) [0..<blocks_per_shard p]"
  by (simp_all add: asm_upto_def)

lemma merge_piece_upto:
  assumes "plan_ok p" "block < blocks_per_shard p" "length payload = group_count p"
  shows "merge_piece (rb_chunk p protected states index payload block) (min (Suc block * block_bytes) (group_count p))
      (asm_upto p protected states index payload block) = Inr (asm_upto p protected states index payload (Suc block))"
proof -
  let ?n = "block * block_bytes" and ?e = "min (Suc block * block_bytes) (group_count p)"
  have n: "?n \<le> group_count p" "?n \<le> ?e" "?e \<le> group_count p"
    using blocks_per_shard_bound(1) [OF assms(2)] by simp_all
  have "take ?e payload = take ?n payload @ sub_slice payload (?n, ?e)"
    using take_add [of ?n "?e - ?n" payload] n(2) by (simp only: sub_slice_def fst_conv snd_conv le_add_diff_inverse)
  then have parity: "take ?n (chunk_parity (shard_upto p protected states index payload block)) @ sub_slice payload (?n, ?e) @
      drop ?e (chunk_parity (shard_upto p protected states index payload block)) =
      chunk_parity (shard_upto p protected states index payload (Suc block))"
    using n assms(3) by (simp add: shard_upto_def Let_def min_absorb1)
  have gc: "length (chunk_parity (shard_upto p protected states index payload block)) = group_count p"
    using n assms(3) by (simp add: shard_upto_def Let_def min_absorb1)
  have covered: "mark_covered (group_count p) ?n ?e (map (\<lambda>k. k < block) [0..<blocks_per_shard p]) =
      map (\<lambda>k. k < Suc block) [0..<blocks_per_shard p]"
    by (rule mark_covered_upto [OF assms(1,2)])
  have joined: "(shard_upto p protected states index payload block)
      \<lparr>chunk_parity := chunk_parity (shard_upto p protected states index payload (Suc block)), block_states := states_upto states (Suc block)\<rparr> =
      shard_upto p protected states index payload (Suc block)"
    by (simp add: shard_upto_def Let_def)
  show ?thesis
    unfolding merge_piece_def Let_def rb_chunk_simps asm_upto_simps shard_upto_simps gc parity covered
    by (simp add: add_state_upto joined)
qed

lemma fold_result_append: "fold_result f (xs @ ys) s = rbind (fold_result f xs s) (fold_result f ys)"
  by (induction xs arbitrary: s) (auto simp: rbind_def split: sum.split)

lemma position_append:
  "\<forall>x\<in>set xs. \<not> P x \<Longrightarrow> position P (xs @ ys) = map_option (\<lambda>i. length xs + i) (position P ys)"
  by (induction xs; cases "position P ys") simp_all

text \<open>The assemblies while the shard \<open>index\<close> is being read.\<close>

definition asm_list ::
  "assembly list \<Rightarrow> inline_recovery_plan \<Rightarrow> nat \<Rightarrow> u64 list list \<Rightarrow> nat \<Rightarrow> byte list \<Rightarrow> nat \<Rightarrow> assembly list" where
  "asm_list others p protected states index payload block =
     others @ (if block = 0 then [] else [asm_upto p protected states index payload block])"

lemma add_piece_upto:
  assumes "plan_ok p" "block < blocks_per_shard p" "length payload = group_count p"
    and "\<forall>a\<in>set others. chunk_shard_index (asm_chunk a) \<noteq> index"
  shows "add_piece (rb_chunk p protected states index payload block) (asm_list others p protected states index payload block) =
    Inr (asm_list others p protected states index payload (Suc block))"
proof -
  let ?piece = "rb_chunk p protected states index payload block"
  let ?e = "min (Suc block * block_bytes) (group_count p)"
  have n: "block * block_bytes \<le> ?e" "?e \<le> group_count p" "group_count p < 2 ^ 64"
    using blocks_per_shard_bound(1) [OF assms(2)] assms(1) by (auto simp: plan_ok_def)
  then have "chunk_offset ?piece + length (chunk_parity ?piece) = ?e"
    using assms(3) by (simp add: rb_chunk_def sub_slice_def)
  then have pe: "checked_add (chunk_offset ?piece) (length (chunk_parity ?piece)) = Some ?e"
    using n by (simp add: checked_add_def)
  have idx: "chunk_shard_index ?piece = index" "chunk_plan ?piece = p" by (simp_all add: rb_chunk_def)
  have "chunk_shard_index (asm_chunk (asm_upto p protected states index payload block)) = index"
    by (simp add: asm_upto_def shard_upto_def Let_def)
  then have "(case position (\<lambda>a. chunk_shard_index (asm_chunk a) = chunk_shard_index ?piece) (asm_list others p protected states index payload block) of
        Some i \<Rightarrow> (i, asm_list others p protected states index payload block)
      | None \<Rightarrow> (length (asm_list others p protected states index payload block), asm_list others p protected states index payload block @ [new_assembly ?piece])) =
      (length others, others @ [asm_upto p protected states index payload block])"
    using assms(4) by (simp add: asm_list_def idx new_assembly_upto [OF assms(1)] position_append)
  moreover have "\<not> group_count (chunk_plan ?piece) < ?e" using n(2) by (simp only: idx not_less)
  ultimately show ?thesis
    unfolding add_piece_def pe ok_or_simps rbind_Inr Let_def
    by (simp only: prod.case if_False nth_append_length merge_piece_upto [OF assms(1-3)] rbind_Inr)
      (simp add: asm_list_def)
qed

lemma add_shard:
  assumes "plan_ok p" "length payload = group_count p"
    and "\<forall>a\<in>set others. chunk_shard_index (asm_chunk a) \<noteq> index" and "block + n = blocks_per_shard p"
  shows "fold_result add_piece (map (rb_chunk p protected states index payload) [block..<blocks_per_shard p])
      (asm_list others p protected states index payload block) =
    Inr (asm_list others p protected states index payload (blocks_per_shard p))"
  using assms(4)
proof (induction n arbitrary: block)
  case (Suc n)
  then have "block < blocks_per_shard p" by simp
  then show ?case
    using Suc add_piece_upto [OF assms(1) _ assms(2,3), of block protected states] by (simp add: upt_conv_Cons)
qed simp

lemma add_shards:
  assumes "plan_ok p" "\<forall>payload\<in>set parity. length payload = group_count p"
    and "\<forall>a\<in>set others. chunk_shard_index (asm_chunk a) < n"
  shows "fold_result add_piece (concat (map (\<lambda>(i, payload). map (rb_chunk p protected states i payload) [0..<blocks_per_shard p])
      (enumerate n parity))) others =
    Inr (others @ map (\<lambda>(i, payload). asm_upto p protected states i payload (blocks_per_shard p)) (enumerate n parity))"
  using assms(2,3)
proof (induction parity arbitrary: n others)
  case (Cons payload parity)
  let ?a = "asm_upto p protected states n payload (blocks_per_shard p)"
  have B: "0 < blocks_per_shard p" by (simp add: blocks_per_shard_def)
  have "fold_result add_piece (map (rb_chunk p protected states n payload) [0..<blocks_per_shard p]) others = Inr (others @ [?a])"
    using add_shard [OF assms(1), of payload others n 0 "blocks_per_shard p" protected states] Cons.prems B
    by (auto simp: asm_list_def)
  moreover have "chunk_shard_index (asm_chunk ?a) = n" by (simp add: asm_upto_def shard_upto_def Let_def)
  ultimately show ?case
    using Cons.IH [of "others @ [?a]" "Suc n"] Cons.prems by (auto simp: fold_result_append less_Suc_eq)
qed simp

lemma finish_complete:
  assumes "\<forall>payload\<in>set parity. length payload = group_count p"
  shows "finish_assemblies (map (\<lambda>(i, payload). asm_upto p protected states i payload (blocks_per_shard p)) (enumerate n parity)) =
    map (\<lambda>(i, payload). shard_upto p protected states i payload (blocks_per_shard p)) (enumerate n parity)"
proof -
  let ?B = "blocks_per_shard p"
  have sorted_states: "sort_key fst (states_upto states ?B) = states_upto states ?B"
    by (rule sort_key_id_if_sorted) (simp add: states_upto_def comp_def)
  have again: "(shard_upto p protected states i payload ?B)\<lparr>block_states := states_upto states ?B\<rparr> =
      shard_upto p protected states i payload ?B" for i payload
    by (simp add: shard_upto_def Let_def)
  have "sorted (map chunk_shard_index (map (\<lambda>(i, payload). shard_upto p protected states i payload ?B) (enumerate n parity)))"
    by (simp add: comp_def case_prod_beta)
  from sort_key_id_if_sorted [OF this] show ?thesis
    by (simp add: finish_assemblies_def filter_map comp_def case_prod_beta' sorted_states again list_all_iff)
      (simp add: states_upto_def case_prod_beta')
qed

section \<open>The record as a whole\<close>

lemma traverse_eq_Inr: "traverse f xs = Inr ys \<longleftrightarrow> list_all2 (\<lambda>x y. f x = Inr y) xs ys"
proof (induction xs arbitrary: ys)
  case (Cons x xs)
  then show ?case by (cases ys) (auto simp: rbind_eq_Inr)
qed auto

lemma split_ranges_total:
  assumes cap: "n \<le> data_shards p * group_count p" "data_shards p * group_count p < 2 ^ 64"
  shows "split_prefix_shard_ranges n p = Inr (map (\<lambda>i. (min (i * group_count p) n, min (Suc i * group_count p) n)) [0..<data_shards p])"
proof -
  let ?r = "\<lambda>i. (min (i * group_count p) n, min (Suc i * group_count p) n)"
  have "rbind (ok_or PlanOverflow (checked_mul i (group_count p))) (\<lambda>start.
        let start = min start n in Inr (start, min (sat_add start (group_count p)) n)) = Inr (?r i)"
    if "i < data_shards p" for i
  proof -
    have "i * group_count p \<le> data_shards p * group_count p" using that by (intro mult_le_mono1) simp
    then have "i * group_count p < 2 ^ 64" using cap by linarith
    then have "checked_mul i (group_count p) = Some (i * group_count p)" by (simp add: checked_mul_def)
    moreover have "min (sat_add (min (i * group_count p) n) (group_count p)) n = min (Suc i * group_count p) n"
      using cap by (auto simp: sat_add_def)
    ultimately show ?thesis by simp
  qed
  then have "traverse (\<lambda>i. rbind (ok_or PlanOverflow (checked_mul i (group_count p))) (\<lambda>start.
        let start = min start n in Inr (start, min (sat_add start (group_count p)) n))) [0..<data_shards p] =
      Inr (map ?r [0..<data_shards p])"
    by (intro traverse_Inr) simp
  then show ?thesis using cap by (simp add: split_prefix_shard_ranges_def checked_mul_def)
qed

lemma split_ranges_eq:
  assumes "split_prefix_shard_ranges n p = Inr ranges"
  shows "ranges = map (\<lambda>i. (min (i * group_count p) n, min (Suc i * group_count p) n)) [0..<data_shards p]"
    and "n \<le> data_shards p * group_count p" "data_shards p * group_count p < 2 ^ 64"
proof -
  show cap: "n \<le> data_shards p * group_count p" "data_shards p * group_count p < 2 ^ 64"
    using assms by (auto simp: split_prefix_shard_ranges_def result_simps checked_mul_def split: if_splits)
  show "ranges = map (\<lambda>i. (min (i * group_count p) n, min (Suc i * group_count p) n)) [0..<data_shards p]"
    using split_ranges_total [OF cap] assms by simp
qed

lemma shard_chunks:
  assumes p: "plan_ok p" "protected < 2 ^ 64"
    and states: "length states = blocks_per_shard p" "\<forall>row\<in>set states. length row = data_shards p"
    and sealed: "list_all2 (\<lambda>shard bytes. assemble_shard p states final_state protected last_len shard = Inr bytes)
      (enumerate n parity) shards"
    and "n + length parity \<le> recovery_shards p"
  shows "\<exists>cs. concat cs = concat shards \<and>
    list_all2 chunk_bytes cs (concat (map (\<lambda>(i, payload). map (rb_chunk p protected states i payload) [0..<blocks_per_shard p]) (enumerate n parity)))"
    and "\<forall>payload\<in>set parity. length payload = group_count p"
  using sealed assms(6)
proof (induction parity arbitrary: n shards)
  case (Cons payload parity)
  {
    case 1
    then obtain bytes rest where shards: "shards = bytes # rest" and b: "assemble_shard p states final_state protected last_len (n, payload) = Inr bytes"
      and rest: "list_all2 (\<lambda>shard bytes. assemble_shard p states final_state protected last_len shard = Inr bytes) (enumerate (Suc n) parity) rest"
      by (auto simp: list_all2_Cons1)
    from b obtain cs where gc: "length payload = group_count p" and bytes: "bytes = concat cs"
      and cs: "list_all2 (\<lambda>block chunk. assemble_chunk p states final_state protected last_len n payload block = Inr chunk) [0..<blocks_per_shard p] cs"
      by (auto simp: assemble_shard_def rbind_eq_Inr traverse_eq_Inr split: if_splits)
    have "chunk_bytes (cs ! k) (rb_chunk p protected states n payload k)" if "k < blocks_per_shard p" for k
    proof -
      have "assemble_chunk p states final_state protected last_len n payload k = Inr (cs ! k)"
        using list_all2_nthD [OF cs, of k] that by simp
      from assemble_chunk_parses [OF this p(1) _ that p(2) gc] show ?thesis
        using 1 states that by (simp add: chunk_bytes_def)
    qed
    then have here: "list_all2 chunk_bytes cs (map (rb_chunk p protected states n payload) [0..<blocks_per_shard p])"
      using list_all2_lengthD [OF cs] by (simp add: list_all2_conv_all_nth)
    obtain cs' where "concat cs' = concat rest" "list_all2 chunk_bytes cs' (concat (map (\<lambda>(i, payload). map (rb_chunk p protected states i payload) [0..<blocks_per_shard p]) (enumerate (Suc n) parity)))"
      using Cons.IH(1) [OF rest] 1 by auto
    with here show ?case
      by (intro exI [of _ "cs @ cs'"]) (simp add: shards bytes list_all2_appendI)
  next
    case 2
    then show ?case using Cons.IH(2) [of "Suc n" "tl shards"]
      by (cases shards) (auto simp: assemble_shard_def split: if_splits)
  }
qed auto

text \<open>
  What the writer lays out is what the reader assembles: one parity shard per row of the encoder,
  each with the checksums of every block of every data shard.
\<close>

definition record_states :: "byte list \<Rightarrow> (nat \<times> nat) list \<Rightarrow> inline_recovery_plan \<Rightarrow> u64 list list" where
  "record_states prefix ranges p =
     map (\<lambda>block. map (\<lambda>r. crc64_rar_state (sub_slice prefix (shard_block_range r block))) ranges) [0..<blocks_per_shard p]"

lemma build_reads_back:
  assumes "build_structural_inline_recovery_data prefix pct = Inr bytes"
  obtains p ranges shards where "plan_inline_recovery (length prefix) pct = Inr p" "plan_ok p"
    "split_prefix_shard_ranges (length prefix) p = Inr ranges" "split_prefix_shards prefix p = Inr shards"
    "encode_parity_shards shards (recovery_shards p) = Inr (map (parity_shard shards (group_count p)) [0..<recovery_shards p])"
    "length shards = data_shards p" "\<forall>s\<in>set shards. length s = group_count p"
    "parse_available_inline_recovery_chunks bytes =
       Inr (map (\<lambda>i. shard_upto p (length prefix) (record_states prefix ranges p) i (parity_shard shards (group_count p) i) (blocks_per_shard p))
         [0..<recovery_shards p])"
proof -
  obtain p shards size_bytes parity ranges where plan: "plan_inline_recovery (length prefix) pct = Inr p"
    and shards: "split_prefix_shards prefix p = Inr shards" and pay: "payload_size p = Inr size_bytes"
    and enc: "encode_parity_shards shards (recovery_shards p) = Inr parity"
    and ranges: "split_prefix_shard_ranges (length prefix) p = Inr ranges"
    and out: "assemble_recovery_data p parity (record_states prefix ranges p)
        (case parity of [] \<Rightarrow> 0 | payload # _ \<Rightarrow> crc64_rar_state payload) (length prefix) = Inr bytes"
    using assms
    by (auto simp: build_structural_inline_recovery_data_def encode_inline_recovery_parity_def rbind_eq_Inr record_states_def Let_def)
  note ok = plan_inline_recovery_ok [OF plan pay]
  note rg = split_ranges_eq [OF ranges]
  have len: "length ranges = data_shards p" by (simp add: rg(1))
  have sh: "shards = map (\<lambda>r. if fst r < snd r then sub_slice prefix r @ replicate (group_count p - (snd r - fst r)) 0
       else replicate (group_count p) 0) ranges"
    using shards ranges by (simp add: split_prefix_shards_def)
  then have shlen: "length shards = data_shards p" by (simp add: len)
  have gc: "length s = group_count p" if "s \<in> set shards" for s
    using that unfolding sh rg(1) by (auto simp: sub_slice_def min_def split: if_splits)
  have "shards \<noteq> []" using shlen ok(1) by (auto simp: plan_ok_def)
  then have hd: "length (hd shards) = group_count p" using gc by simp
  have parity: "parity = map (parity_shard shards (group_count p)) [0..<recovery_shards p]"
    using encode_parity_eq(4) [OF enc] hd by simp
  have small: "length prefix < 2 ^ 64" using rg(2,3) by linarith
  obtain last_len final_state sealed where sealed: "list_all2 (\<lambda>shard bytes. assemble_shard p (record_states prefix ranges p) final_state (length prefix) last_len shard = Inr bytes)
      (enumerate 0 parity) sealed" and bytes: "bytes = concat sealed"
    using out by (auto simp: assemble_recovery_data_def rbind_eq_Inr traverse_eq_Inr Let_def split: if_splits)
  have st: "length (record_states prefix ranges p) = blocks_per_shard p" "\<forall>row\<in>set (record_states prefix ranges p). length row = data_shards p"
    by (auto simp: record_states_def len)
  have room: "0 + length parity \<le> recovery_shards p" by (simp add: parity)
  obtain cs where cs: "concat cs = concat sealed"
    "list_all2 chunk_bytes cs (concat (map (\<lambda>(i, payload). map (rb_chunk p (length prefix) (record_states prefix ranges p) i payload) [0..<blocks_per_shard p]) (enumerate 0 parity)))"
    using shard_chunks(1) [OF ok(1) small st sealed room] by blast
  note full = shard_chunks(2) [OF ok(1) small st sealed room]
  obtain found where "find_inline_recovery_chunks bytes = Inr found"
    "map snd found = concat (map (\<lambda>(i, payload). map (rb_chunk p (length prefix) (record_states prefix ranges p) i payload) [0..<blocks_per_shard p]) (enumerate 0 parity))"
    using find_consecutive [OF cs(2)] unfolding bytes cs(1) by blast
  then have "parse_available_inline_recovery_chunks bytes =
      Inr (map (\<lambda>(i, payload). shard_upto p (length prefix) (record_states prefix ranges p) i payload (blocks_per_shard p)) (enumerate 0 parity))"
    using add_shards [OF ok(1) full, of "[]" 0] finish_complete [OF full]
    by (simp add: parse_available_inline_recovery_chunks_def)
  moreover have "enumerate 0 parity = map (\<lambda>i. (i, parity_shard shards (group_count p) i)) [0..<recovery_shards p]"
    by (simp add: parity enumerate_map_upt)
  ultimately show thesis
    using that [OF plan ok(1) ranges shards _ shlen] enc gc parity by (simp add: comp_def)
qed

end
