(* ===== verification/RecoveryRestore.thy ===== *)
theory RecoveryRestore
  imports RecoveryLayout
begin

text \<open>
  The repair by ranges restores a damaged prefix: the damaged shards are found by the checksums of
  their blocks, the equations of as many parity shards are solved for them, and writing the solved
  ranges over the damaged bytes gives the protected prefix back. The section on the CRC says which
  damage the checksums are certain to notice.
\<close>

section \<open>Finding the damaged shards\<close>

definition block_slice :: "byte list \<Rightarrow> nat \<Rightarrow> byte list" where
  "block_slice bytes block =
     (let start = min (sat_mul block RAR5_RECOVERY_BLOCK_PAYLOAD_SIZE) (length bytes) in
      sub_slice bytes (start, min (sat_add start RAR5_RECOVERY_BLOCK_PAYLOAD_SIZE) (length bytes)))"

text \<open>Some block of the two byte strings has different checksums.\<close>

definition distinguished :: "inline_recovery_plan \<Rightarrow> byte list \<Rightarrow> byte list \<Rightarrow> bool" where
  "distinguished p a b =
     list_ex (\<lambda>block. crc64_rar_state (block_slice a block) \<noteq> crc64_rar_state (block_slice b block)) [0..<blocks_per_shard p]"

lemma slice_slice:
  "snd r \<le> length xs \<Longrightarrow> a \<le> b \<Longrightarrow> b \<le> snd r - fst r \<Longrightarrow> sub_slice (sub_slice xs r) (a, b) = sub_slice xs (fst r + a, fst r + b)"
  by (simp add: sub_slice_def drop_take add.commute)

lemma length_slice [simp]: "length (sub_slice xs r) = min (snd r - fst r) (length xs - fst r)"
  by (simp add: sub_slice_def min.commute)

lemma recorded_block:
  assumes "fst r \<le> snd r" "snd r \<le> length prefix"
  shows "sub_slice prefix (shard_block_range r block) = block_slice (sub_slice prefix r) block"
proof -
  have len: "length (sub_slice prefix r) = snd r - fst r" using assms by simp
  define a where "a = min (sat_mul block block_bytes) (snd r - fst r)"
  define b where "b = min (sat_add a block_bytes) (snd r - fst r)"
  have "a \<le> 2 ^ 64 - 1" by (simp add: a_def sat_mul_def)
  then have "sub_slice (sub_slice prefix r) (a, b) = sub_slice prefix (fst r + a, fst r + b)"
    using assms(2) by (intro slice_slice) (simp_all add: b_def sat_add_def a_def)
  then show ?thesis
    unfolding block_slice_def shard_block_range_def Let_def len a_def [symmetric] b_def [symmetric] by simp
qed

lemma blocks_match_iff:
  assumes "index < length ranges" "blocks_per_shard p = a + n" "0 < n \<or> checked"
  shows "blocks_match bytes index checked (map (\<lambda>k. (k, map unat (record_states prefix ranges p ! k))) [a..<a + n]) = Some True \<longleftrightarrow>
    list_all (\<lambda>k. crc64_rar_state (block_slice bytes k) = crc64_rar_state (sub_slice prefix (shard_block_range (ranges ! index) k))) [a..<a + n]"
  using assms(2,3)
proof (induction n arbitrary: a checked)
  case (Suc n)
  have upt: "[a..<a + Suc n] = a # [Suc a..<Suc a + n]" by (simp add: upt_conv_Cons)
  have "record_states prefix ranges p ! a = map (\<lambda>r. crc64_rar_state (sub_slice prefix (shard_block_range r a))) ranges"
    using Suc.prems(1) unfolding record_states_def by (subst nth_map) (simp_all del: upt_Suc)
  then have st: "get (map unat (record_states prefix ranges p ! a)) index =
      Some (unat (crc64_rar_state (sub_slice prefix (shard_block_range (ranges ! index) a))))"
    using assms(1) by simp
  then show ?case
    using Suc.IH [of "Suc a" True] Suc.prems(1) unfolding upt
    by (auto simp: st block_slice_def Let_def simp del: upt_Suc get_eq_Some simp flip: word_unat_eq_iff)
qed auto

lemma bytes_match_iff:
  assumes "index < length ranges" "fst (ranges ! index) \<le> snd (ranges ! index)" "snd (ranges ! index) \<le> length prefix"
  shows "bytes_match (shard_upto p n (record_states prefix ranges p) i payload (blocks_per_shard p)) bytes index = Some True \<longleftrightarrow>
    \<not> distinguished p bytes (sub_slice prefix (ranges ! index))"
proof -
  have "0 < blocks_per_shard p" by (simp add: blocks_per_shard_def)
  then show ?thesis
    using blocks_match_iff [OF assms(1), of p 0 "blocks_per_shard p" False bytes prefix] recorded_block [OF assms(2,3)]
    by (simp add: bytes_match_def states_upto_def distinguished_def list_all_iff list_ex_iff)
qed

lemma find_damaged_eq:
  "find_damaged (\<lambda>r. Inr (f r)) first index ranges =
     Inr (map (\<lambda>j. index + j) (filter (\<lambda>j. bytes_match first (f (ranges ! j)) (index + j) \<noteq> Some True) [0..<length ranges]))"
proof (induction ranges arbitrary: index)
  case (Cons r ranges)
  have "[0..<length (r # ranges)] = 0 # map Suc [0..<length ranges]" by (simp add: map_Suc_upt upt_conv_Cons del: upt_Suc)
  then show ?case using Cons [of "Suc index"] by (simp add: filter_map comp_def del: upt_Suc)
qed simp

section \<open>The right-hand sides\<close>

lemma words_of_nth: "k < length s div 2 \<Longrightarrow> words_of s ! k = word_at s (2 * k)"
proof (induction s arbitrary: k rule: words_of.induct)
  case (1 a b bytes)
  then show ?case by (cases k) (simp_all add: word_at_def)
qed auto

lemma length_words_of [simp]: "length (words_of s) = length s div 2"
  by (induction s rule: words_of.induct) auto

lemma subtract_shard_eq:
  assumes "length shard = len" "length rhs = len div 2"
  shows "subtract_shard gf16_new coeff shard rhs = map (\<lambda>k. rhs ! k XOR gmul coeff (word_at shard (2 * k))) [0..<len div 2]"
  using assms words_of_nth [of _ shard]
  by (intro nth_equalityI) (auto simp: subtract_shard_def gf16_mul_def)

text \<open>The undamaged shards from \<open>index\<close> on are taken off the right-hand sides.\<close>

lemma accumulate_eq:
  assumes "length rhs = length rows" "\<forall>r\<in>set rhs. length r = len div 2"
    and "\<forall>r\<in>set ranges. length (f r) \<le> len"
  shows "accumulate_rhs gf16_new (\<lambda>r. Inr (f r)) len matrix rows lookup index ranges rhs =
    Inr (map2 (\<lambda>(i, _) rh. map (\<lambda>k. rh ! k XOR
        xsum (map (\<lambda>j. if lookup ! (index + j) then 0
             else gmul (matrix ! i ! (index + j)) (word_at (f (ranges ! j) @ replicate (len - length (f (ranges ! j))) 0) (2 * k)))
          [0..<length ranges])) [0..<len div 2]) rows rhs)"
  using assms
proof (induction ranges arbitrary: index rhs)
  case Nil
  have "map2 (\<lambda>(i, _) rh. map (\<lambda>k. rh ! k) [0..<len div 2]) rows rhs = rhs"
    using Nil.prems by (intro nth_equalityI) (auto simp: map_nth intro!: nth_equalityI)
  then show ?case by simp
next
  case (Cons r ranges)
  have upt: "[0..<length (r # ranges)] = 0 # map Suc [0..<length ranges]" by (simp add: map_Suc_upt upt_conv_Cons del: upt_Suc)
  show ?case
  proof (cases "lookup ! index")
    case True
    then show ?thesis using Cons.IH [of rhs "Suc index"] Cons.prems unfolding upt
      by (simp add: comp_def cong: if_cong)
  next
    case False
    let ?s = "f r @ replicate (len - length (f r)) 0"
    let ?rhs = "map2 (\<lambda>(i, _) rh. subtract_shard gf16_new (matrix ! i ! index) ?s rh) rows rhs"
    have s: "length ?s = len" using Cons.prems(3) by simp
    have rhs: "length ?rhs = length rows" "\<forall>r\<in>set ?rhs. length r = len div 2"
      using Cons.prems(1,2) s by (auto simp: subtract_shard_eq in_set_zip set_zip)
    have "accumulate_rhs gf16_new (\<lambda>r. Inr (f r)) len matrix rows lookup index (r # ranges) rhs =
        accumulate_rhs gf16_new (\<lambda>r. Inr (f r)) len matrix rows lookup (Suc index) ranges ?rhs"
      using False Cons.prems(3) by (simp add: read_padded_prefix_shard_def)
    also have "\<dots> = Inr (map2 (\<lambda>(i, _) rh. map (\<lambda>k. rh ! k XOR
        xsum (map (\<lambda>j. if lookup ! (Suc index + j) then 0
             else gmul (matrix ! i ! (Suc index + j)) (word_at (f (ranges ! j) @ replicate (len - length (f (ranges ! j))) 0) (2 * k)))
          [0..<length ranges])) [0..<len div 2]) rows ?rhs)"
      using Cons.prems(3) by (intro Cons.IH [OF rhs]) simp
    also have "\<dots> = Inr (map2 (\<lambda>(i, _) rh. map (\<lambda>k. rh ! k XOR
        xsum (map (\<lambda>j. if lookup ! (index + j) then 0
             else gmul (matrix ! i ! (index + j)) (word_at (f ((r # ranges) ! j) @ replicate (len - length (f ((r # ranges) ! j))) 0) (2 * k)))
          [0..<length (r # ranges)])) [0..<len div 2]) rows rhs)"
      unfolding sum.inject(2)
    proof (rule nth_equalityI)
      fix m
      assume "m < length (map2 (\<lambda>(i, _) rh. map (\<lambda>k. rh ! k XOR
        xsum (map (\<lambda>j. if lookup ! (Suc index + j) then 0
             else gmul (matrix ! i ! (Suc index + j)) (word_at (f (ranges ! j) @ replicate (len - length (f (ranges ! j))) 0) (2 * k)))
          [0..<length ranges])) [0..<len div 2]) rows ?rhs)"
      then have m: "m < length rows" "m < length rhs" using Cons.prems(1) by simp_all
      obtain i q where im: "rows ! m = (i, q)" by (cases "rows ! m")
      have "length (rhs ! m) = len div 2" using Cons.prems(2) m by simp
      then have "subtract_shard gf16_new (matrix ! i ! index) ?s (rhs ! m) =
          map (\<lambda>k. rhs ! m ! k XOR gmul (matrix ! i ! index) (word_at ?s (2 * k))) [0..<len div 2]"
        by (rule subtract_shard_eq [OF s])
      then show "map2 (\<lambda>(i, _) rh. map (\<lambda>k. rh ! k XOR
        xsum (map (\<lambda>j. if lookup ! (Suc index + j) then 0
             else gmul (matrix ! i ! (Suc index + j)) (word_at (f (ranges ! j) @ replicate (len - length (f (ranges ! j))) 0) (2 * k)))
          [0..<length ranges])) [0..<len div 2]) rows ?rhs ! m = map2 (\<lambda>(i, _) rh. map (\<lambda>k. rh ! k XOR
        xsum (map (\<lambda>j. if lookup ! (index + j) then 0
             else gmul (matrix ! i ! (index + j)) (word_at (f ((r # ranges) ! j) @ replicate (len - length (f ((r # ranges) ! j))) 0) (2 * k)))
          [0..<length (r # ranges)])) [0..<len div 2]) rows rhs ! m"
        using m False unfolding upt by (simp add: im comp_def xor.assoc cong: if_cong)
    qed (use Cons.prems(1) in simp)
    finally show ?thesis .
  qed
qed

section \<open>Solving word by word\<close>

text \<open>The damaged shards, cut to their ranges, after \<open>k\<close> words.\<close>

definition solved_upto :: "byte list list \<Rightarrow> (nat \<Rightarrow> nat) \<Rightarrow> nat list \<Rightarrow> nat \<Rightarrow> byte list list" where
  "solved_upto shards len D k = map (\<lambda>j. take (2 * k) (take (len j) (shards ! j)) @ replicate (len j - 2 * k) 0) D"

lemma write_symbol_eq:
  assumes "l \<le> length d" "2 * k + 2 \<le> length d"
  shows "write_symbol (k * 2) (take (2 * k) (take l d) @ replicate (l - 2 * k) 0) (word_at d (2 * k)) =
    take (2 * Suc k) (take l d) @ replicate (l - 2 * Suc k) 0"
proof -
  have w: "u16_to_le (word_at d (2 * k)) = [d ! (2 * k), d ! (2 * k + 1)]"
    "u16_to_le (word_at d (k * 2)) = [d ! (k * 2), d ! (k * 2 + 1)]" by (simp_all add: word_at_def)
  consider "l \<le> 2 * k" | "l = 2 * k + 1" | "2 * k + 2 \<le> l" by linarith
  then show ?thesis
  proof cases
    case 1
    then show ?thesis using assms by (simp add: write_symbol_def mult.commute min_absorb2)
  next
    case 2
    then show ?thesis using assms by (simp add: write_symbol_def w mult.commute min_absorb1 take_Suc_conv_app_nth)
  next
    case 3
    then have "take (2 * Suc k) d = take (2 * k) d @ [d ! (2 * k), d ! (2 * k + 1)]"
      using assms by (simp add: take_Suc_conv_app_nth)
    then show ?thesis using 3 assms by (simp add: write_symbol_def w mult.commute min_absorb1)
  qed
qed

lemma solve_words:
  assumes solve: "\<And>k. k < gc div 2 \<Longrightarrow> apply_inverse_matrix gf16_new b (map (\<lambda>row. row ! k) rhs) =
      Inr (map (\<lambda>j. word_at (shards ! j) (2 * k)) D)"
    and len: "\<And>j. j \<in> set D \<Longrightarrow> length (shards ! j) = gc \<and> len j \<le> gc" and "even gc" "k + n = gc div 2"
  shows "fold_result (solve_word gf16_new b rhs) [k..<gc div 2] (solved_upto shards len D k) = Inr (solved_upto shards len D (gc div 2))"
  using assms(4)
proof (induction n arbitrary: k)
  case (Suc n)
  then have k: "k < gc div 2" by simp
  then have room: "2 * k + 2 \<le> gc" using assms(3) by (auto elim!: evenE)
  have "map2 (write_symbol (k * 2)) (solved_upto shards len D k) (map (\<lambda>j. word_at (shards ! j) (2 * k)) D) = solved_upto shards len D (Suc k)"
    unfolding solved_upto_def map2_map_map
    by (intro map_cong [OF refl] write_symbol_eq) (use len room in auto)
  then have "solve_word gf16_new b rhs k (solved_upto shards len D k) = Inr (solved_upto shards len D (Suc k))"
    using solve [OF k] by (simp add: solve_word_def)
  then show ?case using Suc.IH [of "Suc k"] Suc.prems k by (simp add: upt_conv_Cons)
qed simp

section \<open>Writing the ranges back\<close>

lemma slice_join: "a \<le> b \<Longrightarrow> b \<le> c \<Longrightarrow> sub_slice xs (a, b) @ sub_slice xs (b, c) = sub_slice xs (a, c)"
proof -
  assume "a \<le> b" "b \<le> c"
  then have "c - a = (b - a) + (c - b)" "drop b xs = drop (b - a) (drop a xs)" by simp_all
  then show ?thesis unfolding sub_slice_def fst_conv snd_conv by (simp only: take_add)
qed

lemma patch_restores:
  assumes n: "length damaged = n" "length prefix = n" "n \<le> ds * gc"
    and r: "\<And>i. r i = (min (i * gc) n, min (Suc i * gc) n)"
    and agree: "nxt \<le> fst (r a)" "sub_slice damaged (nxt, fst (r a)) = sub_slice prefix (nxt, fst (r a))" and "a + m = ds"
  shows "patch_ranges damaged nxt (map (\<lambda>i. (r i, sub_slice prefix (r i))) (filter (\<lambda>i. sub_slice damaged (r i) \<noteq> sub_slice prefix (r i)) [a..<ds])) = drop nxt prefix"
  using agree assms(7)
proof (induction m arbitrary: a nxt)
  case 0
  then have "fst (r a) = n" using n(3) by (simp add: r)
  then show ?case using 0 n by (simp add: sub_slice_def)
next
  case (Suc m)
  have next_range: "snd (r a) = fst (r (Suc a))" "fst (r a) \<le> snd (r a)" "snd (r a) \<le> n"
    unfolding r fst_conv snd_conv by (auto simp: min_le_iff_disj)
  have up: "[a..<ds] = a # [Suc a..<ds]" using Suc.prems(3) by (simp add: upt_conv_Cons)
  show ?case
  proof (cases "sub_slice damaged (r a) = sub_slice prefix (r a)")
    case True
    have "sub_slice damaged (nxt, fst (r (Suc a))) = sub_slice prefix (nxt, fst (r (Suc a)))"
      unfolding next_range(1) [symmetric] slice_join [OF Suc.prems(1) next_range(2), symmetric] prod.collapse
      by (simp only: True Suc.prems(2))
    then show ?thesis using Suc.IH [of nxt "Suc a"] Suc.prems True next_range by (simp add: up)
  next
    case False
    have "patch_ranges damaged (snd (r a)) (map (\<lambda>i. (r i, sub_slice prefix (r i))) (filter (\<lambda>i. sub_slice damaged (r i) \<noteq> sub_slice prefix (r i)) [Suc a..<ds])) = drop (snd (r a)) prefix"
      using Suc.IH [of "snd (r a)" "Suc a"] Suc.prems(3) next_range by (simp add: sub_slice_def)
    then have "patch_ranges damaged nxt (map (\<lambda>i. (r i, sub_slice prefix (r i))) (filter (\<lambda>i. sub_slice damaged (r i) \<noteq> sub_slice prefix (r i)) [a..<ds])) =
        sub_slice prefix (nxt, fst (r a)) @ sub_slice prefix (fst (r a), snd (r a)) @ drop (snd (r a)) prefix"
      using False Suc.prems(2) by (simp add: up)
    also have "\<dots> = sub_slice prefix (nxt, snd (r a)) @ drop (snd (r a)) prefix"
      using slice_join [OF Suc.prems(1) next_range(2)] by (metis append_assoc)
    also have "\<dots> = drop nxt prefix"
      using slice_join [of nxt "snd (r a)" n prefix] Suc.prems(1) next_range n(2) by (simp add: sub_slice_def)
    finally show ?thesis .
  qed
qed

section \<open>The whole repair\<close>

lemma length_parity_shard [simp]: "even len \<Longrightarrow> length (parity_shard shards len i) = len"
proof (cases "len = 0")
  case False
  assume "even len"
  with False have "0 < len div 2" by presburger
  then show ?thesis using parity_shard_word(1) [OF \<open>even len\<close>] by blast
qed (simp add: parity_shard_def word_offsets_def)

lemma shard_of_prefix:
  assumes "split_prefix_shards prefix p = Inr shards" "split_prefix_shard_ranges (length prefix) p = Inr ranges" "i < length ranges"
  shows "shards ! i = sub_slice prefix (ranges ! i) @ replicate (group_count p - length (sub_slice prefix (ranges ! i))) 0"
    and "fst (ranges ! i) \<le> snd (ranges ! i)" "snd (ranges ! i) \<le> length prefix" "snd (ranges ! i) - fst (ranges ! i) \<le> group_count p"
    "length shards = length ranges"
proof -
  have "ranges ! i = (min (i * group_count p) (length prefix), min (Suc i * group_count p) (length prefix))"
    using split_ranges_eq(1) [OF assms(2)] assms(3) by simp
  then show r: "fst (ranges ! i) \<le> snd (ranges ! i)" "snd (ranges ! i) \<le> length prefix"
      "snd (ranges ! i) - fst (ranges ! i) \<le> group_count p"
    by (auto simp: min_def)
  show "length shards = length ranges" using assms(1,2) by (auto simp: split_prefix_shards_def)
  show "shards ! i = sub_slice prefix (ranges ! i) @ replicate (group_count p - length (sub_slice prefix (ranges ! i))) 0"
    using assms r by (auto simp: split_prefix_shards_def) (simp add: sub_slice_def)
qed

lemma solve_damaged:
  assumes shards: "\<forall>s\<in>set shards. length s = gc" "even gc"
    and enc: "make_encoder_matrix (length shards) rs = Inr matrix"
    and D: "distinct D" "set D \<subseteq> {..<length shards}" "length D \<le> rs"
    and ranges: "length ranges = length shards" "\<And>j. j < length ranges \<Longrightarrow> length (f (ranges ! j)) \<le> gc"
      "\<And>j. j < length ranges \<Longrightarrow> j \<notin> set D \<Longrightarrow> shards ! j = f (ranges ! j) @ replicate (gc - length (f (ranges ! j))) 0"
    and len: "\<And>j. j \<in> set D \<Longrightarrow> len j \<le> gc"
  defines "rows \<equiv> map (\<lambda>i. (i, parity_shard shards gc i)) [0..<length D]"
  shows "\<exists>b rhs. invert_linear_system_matrix gf16_new (map (\<lambda>(row_index, _). map (\<lambda>data_index. matrix ! row_index ! data_index) D) rows) = Inr b \<and>
    accumulate_rhs gf16_new (\<lambda>r. Inr (f r)) gc matrix rows (map (\<lambda>j. j \<in> set D) [0..<length shards]) 0 ranges
      (map (\<lambda>(_, parity). words_of parity) rows) = Inr rhs \<and>
    fold_result (solve_word gf16_new b rhs) [0..<gc div 2] (map (\<lambda>j. replicate (len j) 0) D) = Inr (map (\<lambda>j. take (len j) (shards ! j)) D)"
proof -
  let ?d = "length shards"
  note m = make_encoder_matrix_eq [OF enc]
  let ?e = "map (\<lambda>i. map (encoder_entry ?d i) D) [0..<length D]"
  have row: "matrix ! i = map (encoder_entry ?d i) [0..<?d]" if "i < length D" for i
    using that D(3) by (simp add: m(1))
  have eqs: "map (\<lambda>(row_index, _). map (\<lambda>data_index. matrix ! row_index ! data_index) D) rows = ?e"
    using row D(2) by (auto simp: rows_def)
  have reg: "regular_matrix ?e" using D m(4) by (intro encoder_submatrix_regular) auto
  have square: "length row = length ?e" if "row \<in> set ?e" for row using that by auto
  obtain b where b: "invert_linear_system_matrix gf16_new ?e = Inr b"
      "\<And>x. length x = length ?e \<Longrightarrow> apply_inverse_matrix gf16_new b (mat_vec ?e x) = Inr x"
    using invert_regular [OF square reg] by auto
  let ?w = "\<lambda>k j. word_at (shards ! j) (2 * k)"
  let ?rhs = "map (\<lambda>i. map (\<lambda>k. gf16.dot (map (encoder_entry ?d i) D) (map (?w k) D)) [0..<gc div 2]) [0..<length D]"
  have "accumulate_rhs gf16_new (\<lambda>r. Inr (f r)) gc matrix rows (map (\<lambda>j. j \<in> set D) [0..<?d]) 0 ranges
      (map (\<lambda>(_, parity). words_of parity) rows) = Inr ?rhs"
  proof -
    have entry: "words_of (parity_shard shards gc i) ! k XOR xsum (map (\<lambda>j. if map (\<lambda>j. j \<in> set D) [0..<?d] ! (0 + j) then 0
        else gmul (matrix ! i ! (0 + j)) (word_at (f (ranges ! j) @ replicate (gc - length (f (ranges ! j))) 0) (2 * k))) [0..<length ranges]) =
        gf16.dot (map (encoder_entry ?d i) D) (map (?w k) D)" if i: "i < length D" and k: "k < gc div 2" for i k
    proof -
      have "words_of (parity_shard shards gc i) ! k = gf16.dot (map (encoder_entry ?d i) [0..<?d]) (map (?w k) [0..<?d])"
      proof -
        have "map (\<lambda>s. word_at s (2 * k)) shards = map (?w k) [0..<?d]" by (rule nth_equalityI) simp_all
        then show ?thesis
          using words_of_nth [of k "parity_shard shards gc i"] parity_shard_word(2) [OF shards(2) k, of shards i] k shards(2) by simp
      qed
      moreover have "map (\<lambda>j. if map (\<lambda>j. j \<in> set D) [0..<?d] ! (0 + j) then 0
          else gmul (matrix ! i ! (0 + j)) (word_at (f (ranges ! j) @ replicate (gc - length (f (ranges ! j))) 0) (2 * k))) [0..<length ranges] =
          map (\<lambda>j. if j \<in> set D then 0 else gmul (encoder_entry ?d i j) (?w k j)) [0..<?d]"
        unfolding ranges(1) using ranges(1,3) row [OF i] by (intro map_cong [OF refl]) auto
      ultimately show ?thesis using syndrome [OF D(1,2)] by simp
    qed
    have "\<forall>r\<in>set (map (\<lambda>(_, parity). words_of parity) rows). length r = gc div 2"
      using shards(2) by (auto simp: rows_def)
    moreover have "\<forall>r\<in>set ranges. length (f r) \<le> gc" using ranges(2) by (metis in_set_conv_nth)
    ultimately show ?thesis
      using entry by (subst accumulate_eq) (auto simp: rows_def map2_map_map intro!: map_cong)
  qed
  moreover have "fold_result (solve_word gf16_new b ?rhs) [0..<gc div 2] (map (\<lambda>j. replicate (len j) 0) D) = Inr (map (\<lambda>j. take (len j) (shards ! j)) D)"
  proof -
    have "apply_inverse_matrix gf16_new b (map (\<lambda>row. row ! k) ?rhs) = Inr (map (?w k) D)" if "k < gc div 2" for k
      using b(2) [of "map (?w k) D"] that by (simp add: mat_vec_def comp_def)
    then have "fold_result (solve_word gf16_new b ?rhs) [0..<gc div 2] (solved_upto shards len D 0) = Inr (solved_upto shards len D (gc div 2))"
      using shards D(2) len by (intro solve_words [where n = "gc div 2"]) auto
    moreover have "solved_upto shards len D 0 = map (\<lambda>j. replicate (len j) 0) D" by (simp add: solved_upto_def)
    moreover have "solved_upto shards len D (gc div 2) = map (\<lambda>j. take (len j) (shards ! j)) D"
      using shards D(2) len by (auto simp: solved_upto_def)
    ultimately show ?thesis by simp
  qed
  ultimately show ?thesis using b(1) eqs by auto
qed

lemma all_blocks: "group_count p \<le> blocks_per_shard p * block_bytes"
proof -
  have "group_count p \<le> block_bytes * div_ceil (group_count p) block_bytes" by (rule div_ceil_bounds [OF block_bytes_pos])
  also have "\<dots> \<le> block_bytes * blocks_per_shard p" by (intro mult_le_mono2) (simp add: blocks_per_shard_def)
  finally show ?thesis by (simp add: mult.commute)
qed

lemma open_record_eq:
  assumes "parse_available_inline_recovery_chunks bytes = Inr (first # chunks)"
    and "\<forall>c\<in>set (first # chunks). chunk_plan c = p \<and> protected_size c = n"
  shows "open_record n bytes = Inr (first, first # chunks)"
  using assms by (simp add: open_record_def list_ex_iff)

lemma repair_shards_result:
  assumes build: "build_structural_inline_recovery_data prefix pct = Inr bytes"
    and plan: "plan_inline_recovery (length prefix) pct = Inr p"
    and ranges: "split_prefix_shard_ranges (length prefix) p = Inr ranges"
    and same: "length damaged = length prefix"
    and seen: "\<And>r. r \<in> set ranges \<Longrightarrow> sub_slice damaged r \<noteq> sub_slice prefix r \<Longrightarrow> distinguished p (sub_slice damaged r) (sub_slice prefix r)"
    and few: "length (filter (\<lambda>r. sub_slice damaged r \<noteq> sub_slice prefix r) ranges) \<le> recovery_shards p"
  shows "repair_inline_recovery_prefix_shards (length prefix) bytes (\<lambda>r. Inr (sub_slice damaged r)) =
    Inr (map (\<lambda>i. (ranges ! i, sub_slice prefix (ranges ! i)))
      (filter (\<lambda>i. sub_slice damaged (ranges ! i) \<noteq> sub_slice prefix (ranges ! i)) [0..<length ranges]))"
proof -
  obtain shards where ok: "plan_ok p" and shards: "split_prefix_shards prefix p = Inr shards"
    and enc: "encode_parity_shards shards (recovery_shards p) = Inr (map (parity_shard shards (group_count p)) [0..<recovery_shards p])"
    and gc: "\<forall>s\<in>set shards. length s = group_count p"
    and parsed: "parse_available_inline_recovery_chunks bytes =
       Inr (map (\<lambda>i. shard_upto p (length prefix) (record_states prefix ranges p) i (parity_shard shards (group_count p) i) (blocks_per_shard p))
         [0..<recovery_shards p])"
  proof (rule build_reads_back [OF build])
    fix p' ranges' shards
    assume r: "plan_inline_recovery (length prefix) pct = Inr p'" "plan_ok p'" "split_prefix_shard_ranges (length prefix) p' = Inr ranges'"
      "split_prefix_shards prefix p' = Inr shards"
      "encode_parity_shards shards (recovery_shards p') = Inr (map (parity_shard shards (group_count p')) [0..<recovery_shards p'])"
      "\<forall>s\<in>set shards. length s = group_count p'"
      "parse_available_inline_recovery_chunks bytes =
       Inr (map (\<lambda>i. shard_upto p' (length prefix) (record_states prefix ranges' p') i (parity_shard shards (group_count p') i) (blocks_per_shard p'))
         [0..<recovery_shards p'])"
    have "p' = p" using r(1) plan by simp
    moreover from this have "ranges' = ranges" using r(3) ranges by simp
    ultimately show thesis using that r by blast
  qed
  let ?gc = "group_count p" and ?rs = "recovery_shards p"
  let ?chunk = "\<lambda>i. shard_upto p (length prefix) (record_states prefix ranges p) i (parity_shard shards ?gc i) (blocks_per_shard p)"
  let ?f = "sub_slice damaged"
  define D where "D = filter (\<lambda>i. ?f (ranges ! i) \<noteq> sub_slice prefix (ranges ! i)) [0..<length ranges]"
  note sh = shard_of_prefix [OF shards ranges]
  have even: "even ?gc" using ok by (simp add: plan_ok_def)
  obtain matrix where m: "make_encoder_matrix (length shards) ?rs = Inr matrix" using encode_parity_eq(5) [OF enc] by blast
  have rs: "0 < ?rs" using make_encoder_matrix_eq(3) [OF m] .
  then obtain rest where chunks: "map ?chunk [0..<?rs] = ?chunk 0 # rest" by (simp add: upt_conv_Cons)
  have "\<forall>c\<in>set (map ?chunk [0..<?rs]). chunk_plan c = p \<and> protected_size c = length prefix" by simp
  then have opened: "open_record (length prefix) bytes = Inr (?chunk 0, map ?chunk [0..<?rs])"
    using open_record_eq [of bytes "?chunk 0" rest p "length prefix"] parsed unfolding chunks by blast
  have parity: "chunk_parity (?chunk i) = parity_shard shards ?gc i" for i
    using all_blocks [of p] even by (simp add: shard_upto_def Let_def)
  have found: "find_damaged (\<lambda>r. Inr (?f r)) (?chunk 0) 0 ranges = Inr D"
  proof -
    have "bytes_match (?chunk 0) (?f (ranges ! j)) j \<noteq> Some True \<longleftrightarrow> ?f (ranges ! j) \<noteq> sub_slice prefix (ranges ! j)" if "j < length ranges" for j
      using bytes_match_iff [OF that sh(2,3) [OF that]] seen [of "ranges ! j"] that
      by (auto simp: distinguished_def list_ex_iff)
    then show ?thesis by (simp add: find_damaged_eq D_def) (intro filter_cong refl, simp)
  qed
  have shlen: "length shards = length ranges" using shards ranges by (auto simp: split_prefix_shards_def)
  have D: "distinct D" "set D \<subseteq> {..<length shards}" by (auto simp: D_def shlen)
  have "length D = length (filter (\<lambda>r. ?f r \<noteq> sub_slice prefix r) ranges)"
    unfolding D_def by (simp add: length_filter_conv_card) (rule arg_cong [where f = card], auto)
  then have Drs: "length D \<le> ?rs" using few by simp
  let ?len = "\<lambda>j. snd (ranges ! j) - fst (ranges ! j)"
  let ?rows = "map (\<lambda>i. (i, parity_shard shards ?gc i)) [0..<length D]"
  have rows: "recovery_rows (length D) (map ?chunk [0..<?rs]) = ?rows"
    using Drs by (simp add: recovery_rows_def take_map parity comp_def)
  have lookup: "mark_damaged (length ranges) D (replicate (length ranges) False) = Inr (map (\<lambda>j. j \<in> set D) [0..<length shards])"
    using D(2) by (subst mark_damaged_eq) (auto simp: shlen intro!: map_cong)
  have cut: "take (?len j) (shards ! j) = sub_slice prefix (ranges ! j)" if "j < length ranges" for j
    using sh(1-3) [OF that] by simp
  obtain b rhs where solved: "invert_linear_system_matrix gf16_new (map (\<lambda>(row_index, _). map (\<lambda>data_index. matrix ! row_index ! data_index) D) ?rows) = Inr b"
    "accumulate_rhs gf16_new (\<lambda>r. Inr (?f r)) ?gc matrix ?rows (map (\<lambda>j. j \<in> set D) [0..<length shards]) 0 ranges
      (map (\<lambda>(_, parity). words_of parity) ?rows) = Inr rhs"
    "fold_result (solve_word gf16_new b rhs) [0..<?gc div 2] (map (\<lambda>j. replicate (?len j) 0) D) = Inr (map (\<lambda>j. take (?len j) (shards ! j)) D)"
  proof -
    have "length (?f (ranges ! j)) \<le> ?gc" if "j < length ranges" for j using sh(4) [OF that] by simp
    moreover have "shards ! j = ?f (ranges ! j) @ replicate (?gc - length (?f (ranges ! j))) 0"
      if "j < length ranges" "j \<notin> set D" for j
      using sh(1) [OF that(1)] that by (simp add: D_def)
    moreover have "?len j \<le> ?gc" if "j \<in> set D" for j using that sh(4) [of j] by (simp add: D_def)
    ultimately show thesis
      using solve_damaged [OF gc even m D Drs shlen [symmetric], of ?f ?len] that by blast
  qed
  have checked: "traverse (\<lambda>(index, bytes). if bytes_match (?chunk 0) bytes index \<noteq> Some True then Inl BadRecoveryChunk
      else Inr (ranges ! index, bytes)) (zip D (map (\<lambda>j. take (?len j) (shards ! j)) D)) =
      Inr (map (\<lambda>i. (ranges ! i, sub_slice prefix (ranges ! i))) D)"
  proof -
    have "bytes_match (?chunk 0) (sub_slice prefix (ranges ! j)) j = Some True" if "j < length ranges" for j
      using bytes_match_iff [OF that sh(2,3) [OF that]] by (simp add: distinguished_def list_ex_iff)
    moreover have "zip D (map (\<lambda>j. take (?len j) (shards ! j)) D) = map (\<lambda>j. (j, sub_slice prefix (ranges ! j))) D"
      using cut by (auto simp: zip_map2 zip_same_conv_map D_def)
    ultimately show ?thesis
      by (subst traverse_Inr [where g = "\<lambda>(i, bytes). (ranges ! i, bytes)"]) (auto simp: D_def)
  qed
  show ?thesis
  proof (cases "D = []")
    case True
    then show ?thesis using even
      by (simp add: repair_inline_recovery_prefix_shards_def opened ranges found Let_def D_def [symmetric])
  next
    case False
    have "\<not> list_ex (\<lambda>(_, shard). length shard \<noteq> ?gc) ?rows" using even by (auto simp: list_ex_iff)
    moreover have "\<not> length (map ?chunk [0..<?rs]) < length D" using Drs by simp
    ultimately show ?thesis
      unfolding repair_inline_recovery_prefix_shards_def opened rbind_Inr prod.case Let_def shard_upto_simps ranges found
        D_def [symmetric] rows
      using False even
      by (simp only: if_False not_True_eq_False rbind_Inr m [unfolded shlen] solved lookup checked)
  qed
qed

section \<open>The writer succeeds\<close>

lemma assemble_chunk_total:
  assumes p: "plan_ok p" "block < blocks_per_shard p" "data_shards p \<le> 200" "index < 2 ^ 16"
    and sizes: "length payload = group_count p" "block < length states" "length (states ! block) = data_shards p"
  shows "\<exists>chunk. assemble_chunk p states final_state protected last_len index payload block = Inr chunk \<and>
    length chunk = header_size p + (min (Suc block * block_bytes) (group_count p) - block * block_bytes)"
proof -
  note ok = p(1) [unfolded plan_ok_def]
  note geo = block_offset_eq [OF p(1,2)]
  have hs: "header_size p = 72 + 8 * data_shards p" "header_size p \<le> 1672" using ok p(3) by simp_all
  have len: "block_payload_len p block \<le> block_bytes" by (simp add: block_payload_len_def)
  then have small: "block_payload_len p block \<le> 65536" by (simp add: RAR5_RECOVERY_BLOCK_PAYLOAD_SIZE_def KIB_def)
  have "group_count p < 2 ^ 64" using ok by auto
  then have fits: "min (Suc block * block_bytes) (group_count p) < 2 ^ 64" by linarith
  let ?piece = "sub_slice payload (block * block_bytes, min (Suc block * block_bytes) (group_count p))"
  have piece: "length ?piece = block_payload_len p block" using geo(3) sizes(1) by simp
  have header: "length (rb_header p index block sz extent (states ! block) final_state protected) = header_size p" for sz extent
    by (simp add: rb_header_def RB_MARKER_def sizes(3) hs(1))
  have "narrow 32 (min (last_len - block_offset p block) (block_payload_len p block)) = Inr (min (last_len - block_offset p block) (block_payload_len p block))"
    "narrow 32 (header_size p + block_payload_len p block) = Inr (header_size p + block_payload_len p block)"
    "checked_add (header_size p) (block_payload_len p block) = Some (header_size p + block_payload_len p block)"
    "checked_add (block_offset p block) (block_payload_len p block) = Some (min (Suc block * block_bytes) (group_count p))"
    "narrow 16 index = Inr index" "get states block = Some (states ! block)"
    using hs(2) small p(4) sizes(2) fits by (simp_all add: narrow_def checked_add_def geo(2))
  moreover have "\<not> length payload < min (Suc block * block_bytes) (group_count p)" using sizes(1) by simp
  ultimately have "assemble_chunk p states final_state protected last_len index payload block =
      Inr (seal_chunk (rb_header p index block (header_size p + block_payload_len p block)
        (min (last_len - block_offset p block) (block_payload_len p block)) (states ! block) final_state protected @ ?piece))"
    by (simp only: assemble_chunk_def Let_def ok_or_simps rbind_Inr header not_less geo(1) length_append piece simp_thms if_True if_False)
  moreover have "length (seal_chunk c) = length c" if "12 \<le> length c" for c using that by (simp add: seal_chunk_def)
  ultimately show ?thesis using piece header hs(1) geo(3) by simp
qed

lemma sum_block_lengths:
  assumes "b \<le> blocks_per_shard p"
  shows "sum_list (map (\<lambda>k. h + (min (Suc k * block_bytes) (group_count p) - k * block_bytes)) [0..<b]) = b * h + min (b * block_bytes) (group_count p)"
  using assms
proof (induction b)
  case (Suc b)
  then have "b * block_bytes \<le> group_count p" by (intro blocks_per_shard_bound) simp
  then show ?case using Suc by (simp add: min_absorb1)
qed simp

lemma assemble_shard_total:
  assumes p: "plan_ok p" "data_shards p \<le> 200" "index < 2 ^ 16" "length payload = group_count p"
    and states: "length states = blocks_per_shard p" "\<forall>row\<in>set states. length row = data_shards p"
  shows "\<exists>bytes. assemble_shard p states final_state protected last_len (index, payload) = Inr bytes \<and> length bytes = shard_size p"
proof -
  have "\<exists>chunk. assemble_chunk p states final_state protected last_len index payload block = Inr chunk \<and>
    length chunk = header_size p + (min (Suc block * block_bytes) (group_count p) - block * block_bytes)" if "block < blocks_per_shard p" for block
    using assemble_chunk_total [OF p(1) that p(2-4)] states that by simp
  then obtain c where c: "\<And>block. block < blocks_per_shard p \<Longrightarrow> assemble_chunk p states final_state protected last_len index payload block = Inr (c block)"
    "\<And>block. block < blocks_per_shard p \<Longrightarrow> length (c block) = header_size p + (min (Suc block * block_bytes) (group_count p) - block * block_bytes)"
    by metis
  have "traverse (assemble_chunk p states final_state protected last_len index payload) [0..<blocks_per_shard p] = Inr (map c [0..<blocks_per_shard p])"
    using c(1) by (intro traverse_Inr) simp
  moreover have "length (concat (map c [0..<blocks_per_shard p])) = shard_size p"
  proof -
    have "map length (map c [0..<blocks_per_shard p]) =
        map (\<lambda>k. header_size p + (min (Suc k * block_bytes) (group_count p) - k * block_bytes)) [0..<blocks_per_shard p]"
      using c(2) by simp
    then have "length (concat (map c [0..<blocks_per_shard p])) = blocks_per_shard p * header_size p + min (blocks_per_shard p * block_bytes) (group_count p)"
      unfolding length_concat by (simp only: sum_block_lengths [OF order_refl])
    then show ?thesis using p(1) all_blocks [of p] by (simp add: plan_ok_def min_absorb2)
  qed
  ultimately show ?thesis using p(4) by (simp add: assemble_shard_def)
qed

lemma div_ceil_le: "0 < b \<Longrightarrow> div_ceil a b \<le> a"
proof (cases "b = 1")
  case False
  assume "0 < b"
  with False have "2 \<le> b" by simp
  then have "a div b \<le> a div 2" by (intro div_le_mono2) simp_all
  then show ?thesis by (cases "a = 0") (auto simp: div_ceil_def)
qed (simp add: div_ceil_def)

lemma plan_total:
  assumes "n < 2 ^ 40" "0 < pct \<or> n < 200 * KIB"
  shows "\<exists>p bytes. plan_inline_recovery n pct = Inr p \<and> payload_size p = Inr bytes \<and> 0 < recovery_shards p \<and> group_count p \<le> n + 1"
proof -
  define ds where "ds = (if 200 * KIB \<le> n then MAX_WINRAR602_DATA_SHARDS else max (div_ceil n KIB) 1)"
  have ds: "0 < ds" "ds \<le> 200" by (auto simp: ds_def KIB_def MAX_WINRAR602_DATA_SHARDS_def div_ceil_def)
  define gc where "gc = div_ceil n ds + div_ceil n ds mod 2"
  define rs where "rs = (let r = min (2 * min pct 100 * ds div 200) ds in if r = 0 \<and> n < 200 * KIB then 1 else r)"
  have "rs \<le> ds" using ds(1) by (simp add: rs_def Let_def)
  then have "rs \<le> 200" using ds(2) by simp
  have "0 < rs"
  proof (cases "n < 200 * KIB")
    case False
    then have "ds = 200" "0 < pct" using assms(2) by (simp_all add: ds_def MAX_WINRAR602_DATA_SHARDS_def)
    then show ?thesis using False by (simp add: rs_def Let_def)
  qed (simp add: rs_def Let_def)
  have "gc \<le> n + 1"
  proof (cases "even (div_ceil n ds)")
    case True
    then show ?thesis using div_ceil_le [OF ds(1), of n] by (simp add: gc_def)
  next
    case False
    then show ?thesis using div_ceil_le [OF ds(1), of n] by (simp add: gc_def)
  qed
  define blocks where "blocks = max (div_ceil gc RAR5_RECOVERY_BLOCK_PAYLOAD_SIZE) 1"
  have "blocks \<le> n + 2" using div_ceil_le [OF block_bytes_pos, of gc] \<open>gc \<le> n + 1\<close> by (simp add: blocks_def)
  then have prod: "blocks * (72 + 8 * ds) \<le> (n + 2) * 1672" using ds by (intro mult_le_mono) simp_all
  define ss where "ss = blocks * (72 + 8 * ds) + gc"
  have ss: "ss \<le> (n + 2) * 1673" using prod \<open>gc \<le> n + 1\<close> by (simp add: ss_def)
  have checks: "checked_mul ds 8 = Some (ds * 8)" "checked_add (ds * 8) RAR5_RECOVERY_CHUNK_FIXED_HEADER_SIZE = Some (72 + 8 * ds)"
    "checked_mul blocks (72 + 8 * ds) = Some (blocks * (72 + 8 * ds))" "checked_add (blocks * (72 + 8 * ds)) gc = Some ss"
    using ds prod ss assms(1)
    by (simp_all add: checked_mul_def checked_add_def RAR5_RECOVERY_CHUNK_FIXED_HEADER_SIZE_def ss_def)
  let ?p = "\<lparr>data_shards = ds, recovery_shards = rs, group_count = gc, header_size = 72 + 8 * ds, shard_size = ss\<rparr>"
  have "plan_inline_recovery n pct = Inr ?p"
    unfolding plan_inline_recovery_def Let_def ds_def [symmetric] gc_def [symmetric] rs_def [unfolded Let_def, symmetric] blocks_def [symmetric]
    by (simp only: checks option.case ok_or_simps rbind_Inr)
  moreover have "rs * ss \<le> 200 * ((n + 2) * 1673)" using \<open>rs \<le> 200\<close> ss by (rule mult_le_mono)
  then have "payload_size ?p = Inr (rs * ss)" using assms(1) by (simp add: payload_size_def checked_mul_def)
  ultimately show ?thesis using \<open>0 < rs\<close> \<open>gc \<le> n + 1\<close> by auto
qed

lemma build_total:
  assumes "length prefix < 2 ^ 40" "0 < pct \<or> length prefix < 200 * KIB"
  shows "\<exists>bytes. build_structural_inline_recovery_data prefix pct = Inr bytes"
proof -
  obtain p pay where plan: "plan_inline_recovery (length prefix) pct = Inr p" and pay: "payload_size p = Inr pay"
    and rs: "0 < recovery_shards p" and gc: "group_count p \<le> length prefix + 1"
    using plan_total [OF assms] by blast
  note ok = plan_inline_recovery_ok [OF plan pay]
  note pok = ok(1) [unfolded plan_ok_def]
  have cap: "data_shards p * group_count p \<le> 200 * (length prefix + 1)" using ok(3) gc by (rule mult_le_mono)
  obtain ranges where ranges: "split_prefix_shard_ranges (length prefix) p = Inr ranges" "length ranges = data_shards p"
    using split_ranges_total [OF ok(2)] cap assms(1) by simp
  obtain shards where shards: "split_prefix_shards prefix p = Inr shards" by (simp add: split_prefix_shards_def ranges)
  have shlen: "length shards = data_shards p"
    using shards ranges by (auto simp: split_prefix_shards_def)
  have lens: "length s = group_count p" if "s \<in> set shards" for s
  proof -
    obtain i where i: "i < length ranges" "s = shards ! i" using \<open>s \<in> set shards\<close> shlen ranges(2) by (metis in_set_conv_nth)
    then show ?thesis using shard_of_prefix [OF shards ranges(1) i(1)] by simp
  qed
  obtain first rest where fr: "shards = first # rest" using shlen pok by (cases shards) auto
  have first: "length first = group_count p" using lens fr by simp
  have "data_shards p * recovery_shards p \<le> 200 * 200" using ok(3,4) by (intro mult_le_mono) simp_all
  then obtain matrix where m: "make_encoder_matrix (data_shards p) (recovery_shards p) = Inr matrix"
    unfolding make_encoder_matrix_def using encoder_rows [of "data_shards p" "recovery_shards p"] ok(3,4) pok rs
    by (simp add: FIELD_SIZE_def MAX_ENCODER_MATRIX_CELLS_def)
  have "encode_parity_shards shards (recovery_shards p) = Inr (map (\<lambda>row. concat (map (\<lambda>offset. u16_to_le (parity_word gf16_new row shards offset))
                  (word_offsets (length first)))) matrix)"
    using lens pok m shlen unfolding encode_parity_shards_def fr by (auto simp: list_ex_iff)
  then obtain parity where enc: "encode_parity_shards shards (recovery_shards p) = Inr parity" by blast
  have parity: "parity = map (parity_shard shards (group_count p)) [0..<recovery_shards p]"
    using encode_parity_eq(4) [OF enc] first by (simp add: fr)
  let ?states = "record_states prefix ranges p"
  have states: "length ?states = blocks_per_shard p" "\<forall>row\<in>set ?states. length row = data_shards p"
    by (auto simp: record_states_def ranges(2))
  have "\<exists>bytes. assemble_shard p ?states fs (length prefix) ll shard = Inr bytes \<and> length bytes = shard_size p"
    if "shard \<in> set (enumerate 0 parity)" for fs ll shard
  proof -
    obtain i payload where s: "shard = (i, payload)" by (cases shard)
    then have "i < recovery_shards p" "length payload = group_count p" using that pok by (auto simp: parity in_set_enumerate_eq)
    then show ?thesis using assemble_shard_total [OF ok(1,3) _ _ states, of i payload] ok(3,4) s by simp
  qed
  note each = this
  define c where "c fs ll shard = projr (assemble_shard p ?states fs (length prefix) ll shard)" for fs ll shard
  have c: "assemble_shard p ?states fs (length prefix) ll shard = Inr (c fs ll shard)" "length (c fs ll shard) = shard_size p"
    if "shard \<in> set (enumerate 0 parity)" for fs ll shard
    using each [OF that, of fs ll] by (auto simp: c_def)
  have "traverse (assemble_shard p ?states fs (length prefix) ll) (enumerate 0 parity) = Inr (map (c fs ll) (enumerate 0 parity))" for fs ll
    using c(1) by (intro traverse_Inr) simp
  moreover have "length (concat (map (c fs ll) (enumerate 0 parity))) = recovery_shards p * shard_size p" for fs ll
  proof -
    have "map length (map (c fs ll) (enumerate 0 parity)) = map (\<lambda>_. shard_size p) (enumerate 0 parity)" using c(2) by simp
    then show ?thesis unfolding length_concat by (simp add: parity sum_list_const_mult map_replicate_const sum_list_replicate)
  qed
  moreover have "recovery_shards p * shard_size p < 2 ^ 64" using pok by blast
  then have "payload_size p = Inr (recovery_shards p * shard_size p)" by (simp add: payload_size_def checked_mul_def)
  moreover have "narrow 32 (header_size p) = Inr (header_size p)" "narrow 16 (data_shards p) = Inr (data_shards p)"
    "narrow 16 (recovery_shards p) = Inr (recovery_shards p)" using pok ok(3,4) by (simp_all add: narrow_def)
  ultimately have "\<exists>bytes. assemble_recovery_data p parity ?states fs (length prefix) = Inr bytes" for fs
    by (simp only: assemble_recovery_data_def rbind_Inr Let_def) simp
  then show ?thesis
    by (simp add: build_structural_inline_recovery_data_def encode_inline_recovery_parity_def plan shards pay enc ranges Let_def
        record_states_def [symmetric])
qed

section \<open>What the checksums notice\<close>

lemma crc64_bit_eq: "crc64_bit v = drop_bit 1 v XOR (if bit v 0 then CRC64_XZ_POLY else 0)"
proof -
  have "v AND 1 = of_bool (bit v 0)" by (simp add: and_one_eq bit_0 odd_iff_mod_2_eq_one)
  then show ?thesis by (cases "bit v 0") (simp_all add: crc64_bit_def Let_def)
qed

lemma inj_crc64_bit: "inj crc64_bit"
proof (rule injI)
  fix v w assume eq: "crc64_bit v = crc64_bit w"
  have top: "bit (crc64_bit x) 63 \<longleftrightarrow> bit x 0" for x
    using bit_imp_le_length [of x 64] by (auto simp: crc64_bit_eq bit_simps CRC64_XZ_POLY_def)
  have low: "bit v 0 = bit w 0" using top [of v] top [of w] eq by simp
  then have "drop_bit 1 v = drop_bit 1 w"
    using arg_cong [OF eq, of "\<lambda>x. x XOR (if bit w 0 then CRC64_XZ_POLY else 0)"]
    by (simp add: crc64_bit_eq xor.assoc)
  then have "bit v (Suc n) = bit w (Suc n)" for n by (metis bit_drop_bit_eq comp_apply plus_1_eq_Suc)
  with low show "v = w" by (intro bit_word_eqI) (metis not0_implies_Suc)
qed

lemma inj_crc64_bits: "inj (crc64_bit ^^ n)"
proof (induction n)
  case (Suc n)
  then have "inj (crc64_bit \<circ> (crc64_bit ^^ n))" by (rule inj_compose [OF inj_crc64_bit])
  then show ?case by (simp only: funpow.simps)
qed simp

lemma crc64_update_inj: "crc64_update ys a = crc64_update ys b \<Longrightarrow> a = b"
proof (induction ys arbitrary: a b)
  case (Cons y ys)
  then have "crc64_byte a y = crc64_byte b y" by (simp add: crc64_update_def)
  then have "a XOR ucast y = b XOR ucast y" unfolding crc64_byte_def by (rule injD [OF inj_crc64_bits])
  from arg_cong [OF this, of "\<lambda>v. v XOR ucast y"] show ?case by (simp add: xor.assoc)
qed (simp add: crc64_update_def)

text \<open>A single changed byte always changes the checksum of its block.\<close>

lemma crc64_one_byte:
  assumes "x \<noteq> y"
  shows "crc64_rar_state (xs @ x # ys) \<noteq> crc64_rar_state (xs @ y # ys)"
proof
  assume "crc64_rar_state (xs @ x # ys) = crc64_rar_state (xs @ y # ys)"
  then have "crc64_update ys (crc64_byte (crc64_update xs 0) x) = crc64_update ys (crc64_byte (crc64_update xs 0) y)"
    by (simp add: crc64_rar_state_def crc64_update_def)
  then have "crc64_byte (crc64_update xs 0) x = crc64_byte (crc64_update xs 0) y" by (rule crc64_update_inj)
  then have "crc64_update xs 0 XOR ucast x = crc64_update xs 0 XOR ucast y"
    unfolding crc64_byte_def by (rule injD [OF inj_crc64_bits])
  from arg_cong [OF this, of "\<lambda>v. crc64_update xs 0 XOR v"] have "(ucast x :: u64) = ucast y"
    by (simp add: xor.assoc [symmetric])
  then have "unat (ucast x :: u64) = unat (ucast y :: u64)" by (rule arg_cong)
  moreover have "unat (ucast z :: u64) = unat z" for z :: byte
    using unat_byte_less [of z] by (simp add: unat_ucast_mod del: unat_byte_less)
  ultimately show False using assms by (simp flip: word_unat_eq_iff)
qed

lemma distinguished_one_byte:
  assumes "plan_ok p" "length (xs @ x # ys) \<le> group_count p" "x \<noteq> y"
  shows "distinguished p (xs @ x # ys) (xs @ y # ys)"
proof -
  define k where "k = length xs div block_bytes"
  have k: "k * block_bytes \<le> length xs" "length xs < Suc k * block_bytes"
    using block_bytes_pos by (simp_all add: k_def) (metis dividend_less_div_times mult.commute add.commute)
  have gc: "group_count p < 2 ^ 64" using assms(1) by (auto simp: plan_ok_def)
  have kb: "k < blocks_per_shard p"
  proof (rule ccontr)
    assume "\<not> k < blocks_per_shard p"
    then have "blocks_per_shard p * block_bytes \<le> k * block_bytes" by (intro mult_le_mono1) simp
    moreover have "length xs < group_count p" using assms(2) by simp
    ultimately show False using all_blocks [of p] k(1) by linarith
  qed
  let ?e = "min (Suc k * block_bytes) (length (xs @ x # ys))"
  have cut: "block_slice zs k = sub_slice zs (k * block_bytes, ?e)" if "length zs = length (xs @ x # ys)" for zs
  proof -
    have "min (sat_mul k block_bytes) (length zs) = k * block_bytes"
      using k(1) that gc assms(2) by (simp add: sat_mul_def)
    moreover have "min (sat_add (k * block_bytes) block_bytes) (length zs) = ?e"
      using that gc assms(2) by (auto simp: sat_add_def)
    ultimately show ?thesis by (simp add: block_slice_def Let_def)
  qed
  have split: "sub_slice (xs @ z # ys) (k * block_bytes, ?e) = drop (k * block_bytes) xs @ z # take (?e - Suc (length xs)) ys" for z
  proof -
    have "?e - k * block_bytes = length (drop (k * block_bytes) xs) + Suc (?e - Suc (length xs))"
      using k by simp
    moreover have "drop (k * block_bytes) (xs @ z # ys) = drop (k * block_bytes) xs @ z # ys" using k(1) by simp
    moreover have "take (length as + Suc n) (as @ z # ys) = as @ z # take n ys" for as n by simp
    ultimately show ?thesis unfolding sub_slice_def fst_conv snd_conv by metis
  qed
  have "block_slice (xs @ z # ys) k = drop (k * block_bytes) xs @ z # take (?e - Suc (length xs)) ys" for z
  proof -
    have "length (xs @ z # ys) = length (xs @ x # ys)" by simp
    from cut [OF this] split [of z] show ?thesis by (rule trans)
  qed
  then have "crc64_rar_state (block_slice (xs @ x # ys) k) \<noteq> crc64_rar_state (block_slice (xs @ y # ys) k)"
    using crc64_one_byte [OF assms(3)] by presburger
  then show ?thesis using kb by (auto simp: distinguished_def list_ex_iff)
qed

section \<open>The properties\<close>

text \<open>C1: The recovery record repairs the archive: if a record built over a prefix is intact, at most
  as many shards of the prefix are damaged as the record has parity shards, and the checksums notice
  every damaged shard, then the repair by ranges succeeds, and writing what it returns over the damaged
  bytes gives the original prefix.\<close>

theorem record_repairs:
  assumes "build_structural_inline_recovery_data prefix pct = Inr bytes"
    and "plan_inline_recovery (length prefix) pct = Inr p"
    and "split_prefix_shard_ranges (length prefix) p = Inr ranges"
    and "length damaged = length prefix"
    and "\<And>r. r \<in> set ranges \<Longrightarrow> sub_slice damaged r \<noteq> sub_slice prefix r \<Longrightarrow> distinguished p (sub_slice damaged r) (sub_slice prefix r)"
    and "length (filter (\<lambda>r. sub_slice damaged r \<noteq> sub_slice prefix r) ranges) \<le> recovery_shards p"
  shows "\<exists>pieces. repair_inline_recovery_prefix_shards (length prefix) bytes (\<lambda>r. Inr (sub_slice damaged r)) = Inr pieces \<and>
    patch_ranges damaged 0 pieces = prefix"
proof -
  note eq = split_ranges_eq [OF assms(3)]
  let ?r = "\<lambda>i. (min (i * group_count p) (length prefix), min (Suc i * group_count p) (length prefix))"
  have len: "length ranges = data_shards p" by (simp add: eq(1))
  have r: "ranges ! i = ?r i" if "i < data_shards p" for i using that by (simp add: eq(1))
  have "map (\<lambda>i. (ranges ! i, sub_slice prefix (ranges ! i))) (filter (\<lambda>i. sub_slice damaged (ranges ! i) \<noteq> sub_slice prefix (ranges ! i)) [0..<length ranges]) =
      map (\<lambda>i. (?r i, sub_slice prefix (?r i))) (filter (\<lambda>i. sub_slice damaged (?r i) \<noteq> sub_slice prefix (?r i)) [0..<data_shards p])"
    unfolding len using r by (auto intro!: map_cong filter_cong)
  moreover have "patch_ranges damaged 0 (map (\<lambda>i. (?r i, sub_slice prefix (?r i))) (filter (\<lambda>i. sub_slice damaged (?r i) \<noteq> sub_slice prefix (?r i)) [0..<data_shards p])) = drop 0 prefix"
    by (rule patch_restores [OF assms(4) refl eq(2) refl, where m = "data_shards p"]) (simp_all add: sub_slice_def)
  ultimately show ?thesis using repair_shards_result [OF assms] by simp
qed

text \<open>A prefix of 1,500 bytes: two shards of 750 bytes, one byte of the second is wrong.\<close>

theorem record_repairs_witness:
  "\<exists>bytes. build_structural_inline_recovery_data (replicate 1500 7) 10 = Inr bytes \<and>
    (\<exists>pieces. repair_inline_recovery_prefix_shards 1500 bytes (\<lambda>r. Inr (sub_slice (replicate 800 7 @ 8 # replicate 699 7) r)) = Inr pieces \<and>
      patch_ranges (replicate 800 7 @ 8 # replicate 699 7) 0 pieces = (replicate 1500 7 :: byte list))"
proof -
  let ?prefix = "replicate 1500 7 :: byte list" and ?damaged = "replicate 800 7 @ 8 # replicate 699 7 :: byte list"
  let ?p = "\<lparr>data_shards = 2, recovery_shards = 1, group_count = 750, header_size = 88, shard_size = 838\<rparr>"
  have len: "length ?prefix = 1500" by simp
  obtain bytes where b: "build_structural_inline_recovery_data ?prefix 10 = Inr bytes"
    using build_total [of ?prefix 10] by auto
  have plan: "plan_inline_recovery (length ?prefix) 10 = Inr ?p"
  proof -
    have eval: "div_ceil 1500 1024 = 2" "div_ceil 1500 2 = 750" "div_ceil 750 (64 * 1024) = 1"
      "min 10 100 = (10 :: nat)" "2 * 10 * 2 div 200 = (0 :: nat)" "min 0 2 = (0 :: nat)" "750 mod 2 = (0 :: nat)" "750 + 0 = (750 :: nat)"
      "max 2 1 = (2 :: nat)" "max 1 1 = (1 :: nat)" "\<not> 200 * 1024 \<le> (1500 :: nat)" "1500 < 200 * (1024 :: nat)"
      by (simp_all add: div_ceil_def)
    have checks: "checked_mul 2 8 = Some 16" "checked_add 16 72 = Some 88" "checked_mul 1 88 = Some 88" "checked_add 88 750 = Some 838"
      by (simp_all add: checked_mul_def checked_add_def)
    show ?thesis
      unfolding len plan_inline_recovery_def KIB_def RAR5_RECOVERY_CHUNK_FIXED_HEADER_SIZE_def RAR5_RECOVERY_BLOCK_PAYLOAD_SIZE_def
      by (simp only: Let_def eval checks if_False if_True simp_thms option.case ok_or_simps rbind_Inr)
  qed
  have ok: "plan_ok ?p"
    by (simp add: plan_ok_def blocks_per_shard_def div_ceil_def RAR5_RECOVERY_BLOCK_PAYLOAD_SIZE_def KIB_def)
  have ranges: "split_prefix_shard_ranges (length ?prefix) ?p = Inr [(0, 750), (750, 1500)]"
    unfolding len by (subst split_ranges_total) (simp_all add: upt_rec)
  have same: "sub_slice ?damaged (0, 750) = sub_slice ?prefix (0, 750)" by (simp add: sub_slice_def)
  have cut: "sub_slice ?damaged (750, 1500) = replicate 50 7 @ 8 # replicate 699 7"
    "sub_slice ?prefix (750, 1500) = replicate 50 7 @ 7 # replicate 699 7"
  proof -
    have "drop 750 ?damaged = replicate 50 7 @ 8 # replicate 699 7" by (simp only: drop_append drop_replicate length_replicate) simp
    moreover have "length (replicate 50 (7 :: byte) @ 8 # replicate 699 7) = 750" by simp
    ultimately show "sub_slice ?damaged (750, 1500) = replicate 50 7 @ 8 # replicate 699 7"
      unfolding sub_slice_def fst_conv snd_conv by simp
    have "sub_slice ?prefix (750, 1500) = replicate 750 7" by (simp add: sub_slice_def)
    also have "\<dots> = replicate 50 7 @ 7 # replicate 699 7" by (rule sym, rule replicate_eqI) auto
    finally show "sub_slice ?prefix (750, 1500) = replicate 50 7 @ 7 # replicate 699 7" .
  qed
  have seen: "distinguished ?p (sub_slice ?damaged (750, 1500)) (sub_slice ?prefix (750, 1500))"
    unfolding cut by (rule distinguished_one_byte [OF ok]) simp_all
  have size: "length ?damaged = length ?prefix" by simp
  have "length (filter (\<lambda>r. sub_slice ?damaged r \<noteq> sub_slice ?prefix r) [(0, 750), (750, 1500)]) \<le> recovery_shards ?p"
    using same by (simp split: if_split)
  moreover have "distinguished ?p (sub_slice ?damaged r) (sub_slice ?prefix r)"
    if "r \<in> set [(0, 750), (750, 1500)]" "sub_slice ?damaged r \<noteq> sub_slice ?prefix r" for r
  proof -
    have "r = (750, 1500)" using that same by auto
    then show ?thesis using seen by (simp only:)
  qed
  ultimately have "\<exists>pieces. repair_inline_recovery_prefix_shards (length ?prefix) bytes (\<lambda>r. Inr (sub_slice ?damaged r)) = Inr pieces \<and>
      patch_ranges ?damaged 0 pieces = ?prefix"
    using record_repairs [OF b plan ranges size] by blast
  then show ?thesis using b unfolding len by blast
qed

end
