(* ===== verification/SafePath.thy ===== *)
theory SafePath
  imports Prelude
begin

text \<open>
  The safe-path policy of extraction (\<^verbatim>\<open>crates/rar/src/fs/safe_path.rs\<close>): member names are
  cleaned component by component before they reach the file system, and the target of a link is
  resolved lexically against the directory of the link. A string is its sequence of UTF-8 bytes; every
  character the code tests or replaces is ASCII. \<open>cfg(windows)\<close> is the argument
  \<open>windows\<close>. The error carries the message without the quoted name.
\<close>

datatype path_error = Security string

section \<open>Strings\<close>

fun split_on :: "char \<Rightarrow> string \<Rightarrow> string list" where
  "split_on c [] = [[]]"
| "split_on c (x # xs) =
     (if x = c then [] # split_on c xs
      else case split_on c xs of [] \<Rightarrow> [[x]] | w # ws \<Rightarrow> (x # w) # ws)"

definition replace_char :: "char \<Rightarrow> char \<Rightarrow> string \<Rightarrow> string" where
  "replace_char a b s = map (\<lambda>c. if c = a then b else c) s"

definition ends_with :: "string \<Rightarrow> char \<Rightarrow> bool" where
  "ends_with s c = (s \<noteq> [] \<and> last s = c)"

definition to_ascii_uppercase :: "string \<Rightarrow> string" where
  "to_ascii_uppercase s = map (\<lambda>c. if 97 \<le> (of_char c :: nat) \<and> (of_char c :: nat) \<le> 122 then char_of (of_char c - 32 :: nat) else c) s"

definition is_ascii_digit :: "char \<Rightarrow> bool" where
  "is_ascii_digit c = (48 \<le> (of_char c :: nat) \<and> (of_char c :: nat) \<le> 57)"

definition NUL_CHAR :: char where "NUL_CHAR = CHR 0x00"
definition BACKSLASH :: char where "BACKSLASH = CHR 0x5C"

section \<open>Member names\<close>

definition is_device :: "string \<Rightarrow> bool" where
  "is_device upper =
     (upper \<in> set [''CON'', ''PRN'', ''AUX'', ''NUL'', ''CONIN$'', ''CONOUT$''] \<or>
      (length upper = 4 \<and> take 3 upper \<in> set [''COM'', ''LPT''] \<and> is_ascii_digit (upper ! 3) \<and> upper ! 3 \<noteq> CHR ''0''))"

definition is_reserved_device_name :: "string \<Rightarrow> bool" where
  "is_reserved_device_name component = is_device (to_ascii_uppercase component)"

definition sanitize_component :: "bool \<Rightarrow> string \<Rightarrow> bool \<Rightarrow> string \<times> bool" where
  "sanitize_component windows component allow_incompatible =
     (if windows then
        let result = replace_char (CHR '':'') (CHR ''_'') component;
            result = (if ends_with result (CHR ''.'') \<or> ends_with result (CHR '' '') then butlast result @ ''_'' else result) in
        if \<not> allow_incompatible \<and> is_reserved_device_name result then (CHR ''_'' # result, True) else (result, False)
      else (component, False))"

text \<open>The loop over the components: the path so far and whether a name was corrected.\<close>

fun sanitize_components :: "bool \<Rightarrow> bool \<Rightarrow> string list \<Rightarrow> string \<Rightarrow> bool \<Rightarrow> path_error + (string \<times> bool)" where
  "sanitize_components windows allow [] out corrected = Inr (out, corrected)"
| "sanitize_components windows allow (part # rest) out corrected =
     (if part = [] \<or> part = ''.'' then sanitize_components windows allow rest out corrected
      else if part = ''..'' then Inl (Security ''entry name contains a '..' traversal component'')
      else let (part, fixed) = sanitize_component windows part allow in
        sanitize_components windows allow rest ((if out \<noteq> [] then out @ ''/'' else out) @ part) (corrected \<or> fixed))"

definition sanitize_archive_path_corrected :: "bool \<Rightarrow> string \<Rightarrow> bool \<Rightarrow> path_error + (string \<times> bool)" where
  "sanitize_archive_path_corrected windows name allow_incompatible =
     (if name = [] then Inl (Security ''empty entry name'')
      else if NUL_CHAR \<in> set name then Inl (Security ''entry name contains a NUL byte'')
      else let normalized = replace_char BACKSLASH (CHR ''/'') name in
        if hd normalized = CHR ''/'' then Inl (Security ''absolute entry name rejected'')
        else rbind (sanitize_components windows allow_incompatible (split_on (CHR ''/'') normalized) [] False)
          (\<lambda>(out, corrected).
            if out = [] then Inl (Security ''entry name resolves to an empty path'') else Inr (out, corrected)))"

section \<open>Link targets\<close>

fun until_char :: "char \<Rightarrow> string \<Rightarrow> string" where
  "until_char c [] = []"
| "until_char c (x # xs) = (if x = c then [] else x # until_char c xs)"

fun trim_start :: "char list \<Rightarrow> string \<Rightarrow> string" where
  "trim_start cs [] = []"
| "trim_start cs (x # xs) = (if x \<in> set cs then trim_start cs xs else x # xs)"

definition trim_end :: "char list \<Rightarrow> string \<Rightarrow> string" where
  "trim_end cs s = rev (trim_start cs (rev s))"

definition component_is_ambiguous :: "bool \<Rightarrow> string \<Rightarrow> bool" where
  "component_is_ambiguous windows component =
     (windows \<and>
      (CHR '':'' \<in> set component \<or> ends_with component (CHR ''.'') \<or> ends_with component (CHR '' '') \<or>
       is_device (to_ascii_uppercase (trim_end [CHR ''.'', CHR '' ''] (until_char (CHR ''.'') component)))))"

fun resolve_components :: "bool \<Rightarrow> string list \<Rightarrow> string list \<Rightarrow> path_error + string list" where
  "resolve_components windows [] parts = Inr parts"
| "resolve_components windows (component # components) parts =
     (if component = [] \<or> component = ''.'' then resolve_components windows components parts
      else if component = ''..'' then
        if parts = [] then Inl (Security ''redirect target escapes the destination directory'')
        else resolve_components windows components (butlast parts)
      else if component_is_ambiguous windows component then
        Inl (Security ''redirect target contains a platform-ambiguous component'')
      else resolve_components windows components (parts @ [component]))"

definition resolve_redirect_target :: "bool \<Rightarrow> string \<Rightarrow> string \<Rightarrow> path_error + string list" where
  "resolve_redirect_target windows link_dir target =
     (if target = [] then Inl (Security ''redirect target is empty'')
      else if NUL_CHAR \<in> set target then Inl (Security ''redirect target contains a NUL byte'')
      else let normalized = replace_char BACKSLASH (CHR ''/'') target in
        if hd normalized = CHR ''/'' then Inl (Security ''absolute redirect target rejected'')
        else resolve_components windows (split_on (CHR ''/'') normalized)
          (filter (\<lambda>component. component \<noteq> [] \<and> component \<noteq> ''.'')
            (split_on (CHR ''/'') (replace_char BACKSLASH (CHR ''/'') link_dir))))"

section \<open>Components\<close>

text \<open>
  A component that names a file in its directory and nothing else. On Windows it also names no drive
  or stream, is not changed by the stripping of dots and spaces, and (unless the caller asked for
  incompatible names) is not a device.
\<close>

definition plain_component :: "string \<Rightarrow> bool" where
  "plain_component s \<longleftrightarrow> s \<noteq> [] \<and> s \<noteq> ''.'' \<and> s \<noteq> ''..'' \<and> CHR ''/'' \<notin> set s \<and> BACKSLASH \<notin> set s \<and> NUL_CHAR \<notin> set s"

definition windows_safe :: "bool \<Rightarrow> string \<Rightarrow> bool" where
  "windows_safe allow s \<longleftrightarrow> CHR '':'' \<notin> set s \<and> \<not> ends_with s (CHR ''.'') \<and> \<not> ends_with s (CHR '' '') \<and>
     (allow \<or> \<not> is_reserved_device_name s)"

definition safe_component :: "bool \<Rightarrow> bool \<Rightarrow> string \<Rightarrow> bool" where
  "safe_component windows allow s \<longleftrightarrow> plain_component s \<and> (windows \<longrightarrow> windows_safe allow s)"

fun join :: "string list \<Rightarrow> string" where
  "join [] = []"
| "join [c] = c"
| "join (c # cs) = c @ ''/'' @ join cs"

lemma split_on_nonempty [simp]: "split_on c s \<noteq> []"
  by (induction s) (auto split: list.splits)

lemma split_on_chars: "w \<in> set (split_on c s) \<Longrightarrow> set w \<subseteq> set s - {c}"
proof (induction s arbitrary: w)
  case (Cons x s)
  show ?case
  proof (cases "x = c")
    case False
    obtain v vs where vs: "split_on c s = v # vs" by (cases "split_on c s") auto
    then have "w = x # v \<or> w \<in> set vs" using Cons.prems False by simp
    then show ?thesis using Cons.IH [of v] Cons.IH [of w] vs False by auto
  qed (use Cons in auto)
qed simp

lemma split_on_append: "c \<notin> set xs \<Longrightarrow> split_on c (xs @ c # ys) = xs # split_on c ys"
  by (induction xs) auto

lemma split_on_none: "c \<notin> set xs \<Longrightarrow> split_on c xs = [xs]"
  by (induction xs) auto

lemma split_join:
  "cs \<noteq> [] \<Longrightarrow> \<forall>s\<in>set cs. CHR ''/'' \<notin> set s \<Longrightarrow> split_on (CHR ''/'') (join cs) = cs"
  by (induction cs rule: join.induct) (auto simp: split_on_append split_on_none)

lemma join_snoc: "cs \<noteq> [] \<Longrightarrow> join (cs @ [c]) = join cs @ ''/'' @ c"
  by (induction cs rule: join.induct) (auto simp: neq_Nil_conv)

lemma set_join: "set (join cs) \<subseteq> insert (CHR ''/'') (\<Union>(set ` set cs))"
  by (induction cs rule: join.induct) auto

lemma replace_char_id: "a \<notin> set s \<Longrightarrow> replace_char a b s = s"
  by (induction s) (auto simp: replace_char_def)

lemma set_replace_char: "set (replace_char a b s) \<subseteq> insert b (set s - {a}) \<union> (if a = b then {a} else {})"
  by (auto simp: replace_char_def)

text \<open>Cleaning a component makes it safe, and leaves a safe one as it is.\<close>

lemma sanitize_component_safe:
  assumes "plain_component s"
  shows "safe_component windows allow (fst (sanitize_component windows s allow))"
proof (cases windows)
  case True
  define r where "r = replace_char (CHR '':'') (CHR ''_'') s"
  define q where "q = (if ends_with r (CHR ''.'') \<or> ends_with r (CHR '' '') then butlast r @ ''_'' else r)"
  have r: "r \<noteq> []" "set r \<subseteq> insert (CHR ''_'') (set s - {CHR '':''})"
    using assms set_replace_char [of "CHR '':''" "CHR ''_''" s] by (auto simp: r_def plain_component_def replace_char_def)
  have q: "q \<noteq> []" "set q \<subseteq> insert (CHR ''_'') (set s - {CHR '':''})" "\<not> ends_with q (CHR ''.'')" "\<not> ends_with q (CHR '' '')"
    using r by (auto simp: q_def ends_with_def dest!: in_set_butlastD)
  have nodots: "q \<noteq> ''.''" "q \<noteq> ''..''" using q(3) by (auto simp: ends_with_def split: if_splits)
  have plain: "plain_component q"
    using q(1,2) nodots assms by (auto simp: plain_component_def BACKSLASH_def NUL_CHAR_def)
  have "safe_component windows allow q" if "allow \<or> \<not> is_reserved_device_name q"
    using plain q that by (auto simp: safe_component_def windows_safe_def)
  moreover have "safe_component windows allow (CHR ''_'' # q)"
  proof -
    have "\<not> is_reserved_device_name (CHR ''_'' # q)"
      by (simp add: is_reserved_device_name_def is_device_def to_ascii_uppercase_def)
    then show ?thesis using plain q
      by (auto simp: safe_component_def windows_safe_def plain_component_def BACKSLASH_def NUL_CHAR_def ends_with_def)
  qed
  moreover have "fst (sanitize_component windows s allow) = (if \<not> allow \<and> is_reserved_device_name q then CHR ''_'' # q else q)"
    using True by (simp add: sanitize_component_def Let_def r_def q_def)
  ultimately show ?thesis by (simp only: split: if_split) blast
qed (use assms in \<open>simp add: sanitize_component_def safe_component_def\<close>)

lemma sanitize_component_id:
  "safe_component windows allow s \<Longrightarrow> sanitize_component windows s allow = (s, False)"
  by (auto simp: safe_component_def windows_safe_def sanitize_component_def Let_def replace_char_id)

lemma sanitize_components_safe:
  assumes "sanitize_components windows allow cs out corrected = Inr (path, c)"
    and "\<forall>s\<in>set cs. CHR ''/'' \<notin> set s \<and> BACKSLASH \<notin> set s \<and> NUL_CHAR \<notin> set s"
    and "out = join ds" "\<forall>s\<in>set ds. safe_component windows allow s"
  shows "\<exists>ds. path = join ds \<and> (\<forall>s\<in>set ds. safe_component windows allow s)"
  using assms
proof (induction cs arbitrary: out corrected ds)
  case (Cons x cs)
  show ?case
  proof (cases "x = [] \<or> x = ''.''")
    case False
    then have dots: "x \<noteq> ''..''" using Cons.prems(1) by (auto split: if_splits)
    let ?y = "fst (sanitize_component windows x allow)"
    have "plain_component x" using False dots Cons.prems(2) by (auto simp: plain_component_def)
    then have y: "safe_component windows allow ?y" by (rule sanitize_component_safe)
    have "(if out \<noteq> [] then out @ ''/'' else out) @ ?y = join (ds @ [?y])"
    proof (cases ds)
      case (Cons d ds')
      then have "out \<noteq> []" using \<open>out = join ds\<close> \<open>\<forall>s\<in>set ds. safe_component windows allow s\<close>
        by (cases ds') (auto simp: safe_component_def plain_component_def)
      with \<open>out = join ds\<close> Cons show ?thesis using join_snoc [of ds ?y] by simp
    qed (use Cons.prems(3) in simp)
    moreover have "\<forall>s\<in>set (ds @ [?y]). safe_component windows allow s" using Cons.prems(4) y by auto
    ultimately show ?thesis
      using Cons.IH [of "(if out \<noteq> [] then out @ ''/'' else out) @ ?y" _ "ds @ [?y]"] Cons.prems(1,2) False dots
      by (simp add: case_prod_beta Let_def)
  qed (use Cons in auto)
qed auto

lemma sanitize_safe_components:
  "\<forall>s\<in>set cs. safe_component windows allow s \<Longrightarrow> (\<forall>s\<in>set ds. safe_component windows allow s) \<Longrightarrow>
   sanitize_components windows allow cs (join ds) corrected = Inr (join (ds @ cs), corrected)"
proof (induction cs arbitrary: ds corrected)
  case (Cons x cs)
  have x: "safe_component windows allow x" using Cons.prems(1) by simp
  have "(if join ds \<noteq> [] then join ds @ ''/'' else join ds) @ x = join (ds @ [x])"
  proof (cases ds)
    case (Cons d ds')
    then have "join ds \<noteq> []" using \<open>\<forall>s\<in>set ds. safe_component windows allow s\<close>
      by (cases ds') (auto simp: safe_component_def plain_component_def)
    with Cons show ?thesis using join_snoc [of ds x] by simp
  qed simp
  then show ?case
    using x Cons.IH [of "ds @ [x]" corrected] Cons.prems by (auto simp: sanitize_component_id safe_component_def plain_component_def)
qed simp

lemma safe_join_unchanged:
  assumes "ds \<noteq> []" "\<forall>s\<in>set ds. safe_component windows allow s"
  shows "sanitize_archive_path_corrected windows (join ds) allow = Inr (join ds, False)"
proof -
  have plain: "\<forall>s\<in>set ds. plain_component s" using assms(2) by (simp add: safe_component_def)
  obtain d ds' where ds: "ds = d # ds'" using assms(1) by (cases ds) auto
  then have d: "d \<noteq> []" "CHR ''/'' \<notin> set d" using plain by (auto simp: plain_component_def)
  have ne: "join ds \<noteq> []" "hd (join ds) \<noteq> CHR ''/''"
    using d hd_in_set [of d] by (cases ds'; auto simp: ds)+
  have "NUL_CHAR \<notin> set (join ds)" "BACKSLASH \<notin> set (join ds)"
    using set_join [of ds] plain by (auto simp: plain_component_def NUL_CHAR_def BACKSLASH_def)
  moreover have "split_on (CHR ''/'') (join ds) = ds"
    using assms(1) plain by (intro split_join) (auto simp: plain_component_def)
  moreover have "sanitize_components windows allow ds (join []) False = Inr (join ([] @ ds), False)"
    using assms(2) by (intro sanitize_safe_components) simp_all
  ultimately show ?thesis using ne by (simp add: sanitize_archive_path_corrected_def replace_char_id)
qed

lemma separated_chars:
  assumes "s \<in> set (split_on (CHR ''/'') (replace_char BACKSLASH (CHR ''/'') n))" "NUL_CHAR \<notin> set n"
  shows "CHR ''/'' \<notin> set s \<and> BACKSLASH \<notin> set s \<and> NUL_CHAR \<notin> set s"
proof -
  have "set s \<subseteq> set (replace_char BACKSLASH (CHR ''/'') n) - {CHR ''/''}" using assms(1) by (rule split_on_chars)
  moreover have "set (replace_char BACKSLASH (CHR ''/'') n) \<subseteq> insert (CHR ''/'') (set n - {BACKSLASH})"
    using set_replace_char [of BACKSLASH "CHR ''/''" n] by (simp add: BACKSLASH_def)
  ultimately have "set s \<subseteq> set n - {BACKSLASH, CHR ''/''}" by blast
  then show ?thesis using assms(2) by blast
qed

section \<open>The properties\<close>

text \<open>C8: A sanitised member name is safe and stays as it is: the path is not empty and every component
  of it names a file in its directory (no separator, no NUL, not \<open>.\<close> or \<open>..\<close>; on Windows no drive,
  stream, stripped ending or, unless allowed, device), and sanitising it again changes and reports
  nothing.\<close>

theorem sanitized_path_safe:
  assumes "sanitize_archive_path_corrected windows name allow = Inr (path, corrected)"
  shows "path \<noteq> [] \<and> list_all (safe_component windows allow) (split_on (CHR ''/'') path) \<and>
    sanitize_archive_path_corrected windows path allow = Inr (path, False)"
proof -
  let ?n = "replace_char BACKSLASH (CHR ''/'') name"
  have run: "sanitize_components windows allow (split_on (CHR ''/'') ?n) [] False = Inr (path, corrected)" and ne: "path \<noteq> []"
    and nul: "NUL_CHAR \<notin> set name"
    using assms by (auto simp: sanitize_archive_path_corrected_def Let_def result_simps split: if_splits)
  have "\<forall>s\<in>set (split_on (CHR ''/'') ?n). CHR ''/'' \<notin> set s \<and> BACKSLASH \<notin> set s \<and> NUL_CHAR \<notin> set s"
    using separated_chars [OF _ nul] by blast
  from sanitize_components_safe [OF run this, of "[]"] obtain ds where ds: "path = join ds" "\<forall>s\<in>set ds. safe_component windows allow s"
    by auto
  then have "ds \<noteq> []" using ne by auto
  moreover have "split_on (CHR ''/'') path = ds"
    using ds \<open>ds \<noteq> []\<close> by (auto simp: safe_component_def plain_component_def intro!: split_join)
  ultimately show ?thesis using ne ds safe_join_unchanged [of ds windows allow] by (simp add: list_all_iff)
qed

theorem sanitized_path_safe_witness:
  "sanitize_archive_path_corrected True ''aux/./C:.'' False = Inr (''_aux/C__'', True) \<and>
   list_all (safe_component True False) (split_on (CHR ''/'') ''_aux/C__'') \<and>
   sanitize_archive_path_corrected True ''_aux/C__'' False = Inr (''_aux/C__'', False)"
proof -
  have run: "sanitize_archive_path_corrected True ''aux/./C:.'' False = Inr (''_aux/C__'', True)" by code_simp
  with sanitized_path_safe [OF run] show ?thesis by blast
qed

text \<open>
  Link targets, without the resolver: the lexical walk along a path (with the root as its own
  parent), and the condition that the walk never tries to leave the root. A path of
  components that starts \<open>depth\<close> directories below the root stays below it when no prefix of it has
  more \<open>..\<close> than \<open>depth\<close> and the names of the prefix make up for.
\<close>

definition is_dots :: "string \<Rightarrow> bool" where
  "is_dots s \<longleftrightarrow> s = [] \<or> s = ''.'' \<or> s = ''..''"

definition walk_step :: "string list \<Rightarrow> string \<Rightarrow> string list" where
  "walk_step parts component =
     (if component = [] \<or> component = ''.'' then parts else if component = ''..'' then butlast parts else parts @ [component])"

definition stays_below :: "nat \<Rightarrow> string list \<Rightarrow> bool" where
  "stays_below depth cs \<longleftrightarrow>
     list_all (\<lambda>k. length (filter (\<lambda>s. s = ''..'') (take k cs)) \<le> depth + length (filter (\<lambda>s. \<not> is_dots s) (take k cs)))
       [0..<Suc (length cs)]"

lemma stays_below_Nil [simp]: "stays_below depth []"
  by (simp add: stays_below_def)

lemma all_upt_Suc: "list_all P [0..<Suc (Suc n)] \<longleftrightarrow> P 0 \<and> list_all (\<lambda>k. P (Suc k)) [0..<Suc n]"
  unfolding list_all_length by (auto simp: less_Suc_eq_0_disj simp del: upt_Suc)

lemma stays_below_Cons:
  "stays_below depth (c # cs) \<longleftrightarrow>
     (if c = ''..'' then 0 < depth \<and> stays_below (depth - 1) cs
      else stays_below (if is_dots c then depth else depth + 1) cs)"
proof (cases "c = ''..''")
  case True
  let ?ups = "\<lambda>k. length (filter (\<lambda>s. s = ''..'') (take k cs))" and ?names = "\<lambda>k. length (filter (\<lambda>s. \<not> is_dots s) (take k cs))"
  have "stays_below depth (c # cs) \<longleftrightarrow> list_all (\<lambda>k. Suc (?ups k) \<le> depth + ?names k) [0..<Suc (length cs)]"
    unfolding stays_below_def length_Cons all_upt_Suc by (simp add: True is_dots_def del: upt_Suc)
  also have "\<dots> \<longleftrightarrow> 0 < depth \<and> list_all (\<lambda>k. ?ups k \<le> depth - 1 + ?names k) [0..<Suc (length cs)]"
    by (cases depth) (auto simp: list_all_iff simp del: upt_Suc intro!: bexI [where x = 0])
  finally show ?thesis using True by (simp add: stays_below_def del: upt_Suc)
next
  case False
  then show ?thesis
    unfolding stays_below_def length_Cons all_upt_Suc by (simp add: is_dots_def del: upt_Suc)
qed

lemma walk_down:
  "\<forall>s\<in>set cs. s \<noteq> ''..'' \<Longrightarrow> foldl walk_step parts cs = parts @ filter (\<lambda>c. c \<noteq> [] \<and> c \<noteq> ''.'') cs"
  by (induction cs arbitrary: parts) (auto simp: walk_step_def)

lemma resolve_components_iff:
  "resolve_components windows cs parts = Inr out \<longleftrightarrow>
     stays_below (length parts) cs \<and> list_all (\<lambda>s. is_dots s \<or> \<not> component_is_ambiguous windows s) cs \<and>
     out = foldl walk_step parts cs"
proof (induction cs arbitrary: parts)
  case (Cons c cs)
  consider "c = [] \<or> c = ''.''" | "c = ''..''" | "\<not> is_dots c" by (auto simp: is_dots_def)
  then show ?case
  proof cases
    case 1
    then show ?thesis using Cons [of parts] by (auto simp: stays_below_Cons walk_step_def is_dots_def)
  next
    case 2
    then show ?thesis using Cons [of "butlast parts"] by (auto simp: stays_below_Cons walk_step_def is_dots_def)
  next
    case 3
    then show ?thesis using Cons [of "parts @ [c]"] by (auto simp: stays_below_Cons walk_step_def is_dots_def)
  qed
qed auto

lemma walk_plain:
  assumes "\<forall>s\<in>set parts. plain_component s" "\<forall>s\<in>set cs. CHR ''/'' \<notin> set s \<and> BACKSLASH \<notin> set s \<and> NUL_CHAR \<notin> set s"
  shows "\<forall>s\<in>set (foldl walk_step parts cs). plain_component s"
  using assms
proof (induction cs arbitrary: parts)
  case (Cons c cs)
  have "\<forall>s\<in>set (walk_step parts c). plain_component s"
    using Cons.prems by (auto simp: walk_step_def plain_component_def dest: in_set_butlastD)
  then show ?case using Cons by simp
qed simp

text \<open>What \<open>component_is_ambiguous\<close> lets through on Windows is not renamed or redirected there.\<close>

lemma upper_char: "c \<in> set ''. $'' \<Longrightarrow> c \<in> set s \<Longrightarrow> c \<in> set (to_ascii_uppercase s)"
  by (auto simp: to_ascii_uppercase_def image_iff intro!: bexI [of _ c])

lemma device_no_dot:
  assumes "is_device (to_ascii_uppercase s)"
  shows "until_char (CHR ''.'') s = s" "trim_end [CHR ''.'', CHR '' ''] s = s"
proof -
  have "CHR ''.'' \<notin> set u \<and> CHR '' '' \<notin> set u" if "is_device u" for u
  proof (cases "u \<in> set [''CON'', ''PRN'', ''AUX'', ''NUL'', ''CONIN$'', ''CONOUT$'']")
    case False
    then have u: "length u = 4" "take 3 u \<in> set [''COM'', ''LPT'']" "is_ascii_digit (u ! 3)"
      using that by (auto simp: is_device_def)
    then have "u = take 3 u @ [u ! 3]" using take_Suc_conv_app_nth [of 3 u] by simp
    then have "set u = insert (u ! 3) (set (take 3 u))" by (metis Un_insert_right list.simps(15) set_append sup_bot.right_neutral empty_set)
    moreover have "u ! 3 \<noteq> CHR ''.''" "u ! 3 \<noteq> CHR '' ''" using u(3) by (intro notI; simp add: is_ascii_digit_def)+
    ultimately show ?thesis using u(2) by auto
  qed auto
  from this [OF assms] have none: "CHR ''.'' \<notin> set s" "CHR '' '' \<notin> set s" using upper_char [of _ s] by auto
  have "until_char c t = t" if "c \<notin> set t" for c t using that by (induction t) auto
  then show "until_char (CHR ''.'') s = s" using none by simp
  have "trim_start cs t = t" if "set cs \<inter> set t = {}" for cs t using that by (cases t) auto
  then show "trim_end [CHR ''.'', CHR '' ''] s = s" using none by (simp add: trim_end_def)
qed

lemma unambiguous_safe:
  assumes "\<not> component_is_ambiguous windows s" "plain_component s"
  shows "safe_component windows False s"
proof -
  have "\<not> is_reserved_device_name s" if windows
    using assms(1) that device_no_dot [of s] by (auto simp: component_is_ambiguous_def is_reserved_device_name_def)
  then show ?thesis using assms by (auto simp: safe_component_def windows_safe_def component_is_ambiguous_def)
qed

text \<open>C7: A link target is accepted exactly when it is a relative path that never leaves the extraction
  root and has no ambiguous component, and is then resolved to what it means. For a link in a directory
  without \<open>..\<close>, the target is accepted if and only if it is not empty, has no NUL, does not start with
  a separator, no prefix of it climbs above the root (counting \<open>..\<close> against names, from the depth of
  the directory of the link), and, on Windows, none of its names is ambiguous there; the result is
  where a lexical walk from that directory ends. Every component returned then names an entry of its
  directory, and the names taken from the target are as safe as those of a sanitised member.\<close>

theorem redirect_stays_inside:
  fixes link_dir target :: string
  defines "dir \<equiv> split_on (CHR ''/'') (replace_char BACKSLASH (CHR ''/'') link_dir)"
    and "cs \<equiv> split_on (CHR ''/'') (replace_char BACKSLASH (CHR ''/'') target)"
  assumes "NUL_CHAR \<notin> set link_dir" "list_all (\<lambda>s. s \<noteq> ''..'') dir"
  shows "(resolve_redirect_target windows link_dir target = Inr parts \<longleftrightarrow>
      target \<noteq> [] \<and> NUL_CHAR \<notin> set target \<and> hd target \<notin> {CHR ''/'', BACKSLASH} \<and>
      stays_below (length (filter (\<lambda>s. \<not> is_dots s) dir)) cs \<and>
      list_all (\<lambda>s. is_dots s \<or> \<not> component_is_ambiguous windows s) cs \<and>
      parts = foldl walk_step [] (dir @ cs)) \<and>
    (resolve_redirect_target windows link_dir target = Inr parts \<longrightarrow>
      list_all plain_component parts \<and> list_all (\<lambda>s. is_dots s \<or> safe_component windows False s) cs)"
proof -
  let ?keep = "filter (\<lambda>component. component \<noteq> [] \<and> component \<noteq> ''.'') dir"
  have keep: "?keep = filter (\<lambda>s. \<not> is_dots s) dir"
    using assms(4) by (auto simp: is_dots_def list_all_iff intro!: filter_cong)
  have start: "foldl walk_step [] dir = ?keep" using assms(4) by (simp add: walk_down list_all_iff)
  have hd: "hd (replace_char BACKSLASH (CHR ''/'') target) = CHR ''/'' \<longleftrightarrow> hd target \<in> {CHR ''/'', BACKSLASH}"
    if "target \<noteq> []" using that by (cases target) (auto simp: replace_char_def)
  have iff: "resolve_redirect_target windows link_dir target = Inr parts \<longleftrightarrow>
      target \<noteq> [] \<and> NUL_CHAR \<notin> set target \<and> hd target \<notin> {CHR ''/'', BACKSLASH} \<and>
      stays_below (length (filter (\<lambda>s. \<not> is_dots s) dir)) cs \<and>
      list_all (\<lambda>s. is_dots s \<or> \<not> component_is_ambiguous windows s) cs \<and>
      parts = foldl walk_step [] (dir @ cs)"
    using hd by (auto simp: resolve_redirect_target_def Let_def dir_def [symmetric] cs_def [symmetric]
        resolve_components_iff start keep)
  moreover have "list_all plain_component parts \<and> list_all (\<lambda>s. is_dots s \<or> safe_component windows False s) cs"
    if accepted: "resolve_redirect_target windows link_dir target = Inr parts"
  proof
    have parts: "parts = foldl walk_step ?keep cs" and nul: "NUL_CHAR \<notin> set target"
      using accepted iff by (auto simp: start)
    have sep: "\<forall>s\<in>set cs. CHR ''/'' \<notin> set s \<and> BACKSLASH \<notin> set s \<and> NUL_CHAR \<notin> set s"
      using separated_chars [OF _ nul] by (simp add: cs_def)
    have "\<forall>s\<in>set ?keep. plain_component s"
      using separated_chars [OF _ assms(3)] assms(4) by (auto simp: plain_component_def list_all_iff dir_def)
    from walk_plain [OF this sep] show "list_all plain_component parts" by (simp add: parts list_all_iff)
    have "safe_component windows False s" if "s \<in> set cs" "\<not> is_dots s" "\<not> component_is_ambiguous windows s" for s
      using that sep by (intro unambiguous_safe) (auto simp: plain_component_def is_dots_def)
    then show "list_all (\<lambda>s. is_dots s \<or> safe_component windows False s) cs"
      using accepted iff by (auto simp: list_all_iff)
  qed
  ultimately show ?thesis by blast
qed

theorem redirect_stays_inside_witness:
  "resolve_redirect_target True ''dir/nested'' (''..'' @ BACKSLASH # ''x.txt'') = Inr [''dir'', ''x.txt''] \<and>
   list_all plain_component [''dir'', ''x.txt''] \<and>
   resolve_redirect_target False ''dir'' ''../../outside.txt'' \<noteq> Inr [''outside.txt'']"
proof -
  have dirs: "NUL_CHAR \<notin> set ''dir/nested''" "NUL_CHAR \<notin> set ''dir''"
    "list_all (\<lambda>s. s \<noteq> ''..'') (split_on (CHR ''/'') (replace_char BACKSLASH (CHR ''/'') ''dir/nested''))"
    "list_all (\<lambda>s. s \<noteq> ''..'') (split_on (CHR ''/'') (replace_char BACKSLASH (CHR ''/'') ''dir''))" by code_simp+
  have run: "resolve_redirect_target True ''dir/nested'' (''..'' @ BACKSLASH # ''x.txt'') = Inr [''dir'', ''x.txt'']" by code_simp
  have climbs: "\<not> stays_below (length (filter (\<lambda>s. \<not> is_dots s) (split_on (CHR ''/'') (replace_char BACKSLASH (CHR ''/'') ''dir''))))
      (split_on (CHR ''/'') (replace_char BACKSLASH (CHR ''/'') ''../../outside.txt''))" by code_simp
  show ?thesis
    using redirect_stays_inside [OF dirs(1,3), of True "''..'' @ BACKSLASH # ''x.txt''" "[''dir'', ''x.txt'']"] run
      redirect_stays_inside [OF dirs(2,4), of False "''../../outside.txt''" "[''outside.txt'']"] climbs by blast
qed

end
