(* ===== verification/LocatorPoly.thy ===== *)
theory LocatorPoly
  imports BinaryField
begin

text \<open>
  The algebra of erasure locators over a field of characteristic two, proved in the locale
  \<open>binary_field\<close>: a polynomial is its sequence of coefficients, the locator of a list of
  elements is the product of the factors \<open>1 + X x\<close>, and the error values are quotients of
  the evaluator and the formal derivative of the locator (Forney's formula).
\<close>

lemma xsum_Suc: "xsum (map f [0..<Suc n]) = xsum (map f [0..<n]) XOR f n"
  by simp

context binary_field
begin

fun pow :: "'a word \<Rightarrow> nat \<Rightarrow> 'a word" where
  "pow x 0 = 1"
| "pow x (Suc n) = mul x (pow x n)"

fun lin :: "'a word \<Rightarrow> (nat \<Rightarrow> 'a word) \<Rightarrow> nat \<Rightarrow> 'a word" where
  "lin a p 0 = p 0"
| "lin a p (Suc i) = p (Suc i) XOR mul a (p i)"

fun locator :: "'a word list \<Rightarrow> nat \<Rightarrow> 'a word" where
  "locator [] i = (if i = 0 then 1 else 0)"
| "locator (a # as) i = lin a (locator as) i"

definition peval :: "nat \<Rightarrow> (nat \<Rightarrow> 'a word) \<Rightarrow> 'a word \<Rightarrow> 'a word" where
  "peval n p x = xsum (map (\<lambda>i. mul (p i) (pow x i)) [0..<n])"

definition conv :: "(nat \<Rightarrow> 'a word) \<Rightarrow> (nat \<Rightarrow> 'a word) \<Rightarrow> nat \<Rightarrow> 'a word" where
  "conv p q i = xsum (map (\<lambda>k. mul (p k) (q (i - k))) [0..<Suc i])"

fun factors_at :: "'a word list \<Rightarrow> 'a word \<Rightarrow> 'a word" where
  "factors_at [] x = 1"
| "factors_at (a # as) x = mul (1 XOR mul a x) (factors_at as x)"

lemma pow_mul: "mul (pow x m) (pow x n) = pow x (m + n)"
  by (induction m) (simp_all add: mul_one mul_assoc)

lemma pow_one: "pow 1 n = 1"
  by (induction n) (simp_all add: mul_one)

lemma pow_distrib: "pow (mul x y) n = mul (pow x n) (pow y n)"
  by (induction n) (simp_all add: mul_one mul_assoc mul_left_commute)

lemma pow_power: "pow (pow x m) n = pow x (m * n)"
  by (induction n) (simp_all add: pow_mul)

lemma lin_cong: "p = q \<Longrightarrow> lin a p = lin a q"
  by simp

lemma lin_commute: "lin a (lin b p) = lin b (lin a p)"
proof
  fix i
  show "lin a (lin b p) i = lin b (lin a p) i"
  proof (cases i)
    case (Suc j)
    then show ?thesis by (cases j) (simp_all add: mul_xor word_xor_ac mul_left_commute)
  qed simp
qed

lemma locator_Cons: "locator (a # as) = lin a (locator as)"
  by (rule ext) simp

lemma locator_degree: "length as < i \<Longrightarrow> locator as i = 0"
proof (induction as arbitrary: i)
  case (Cons a as)
  then show ?case by (cases i) (simp_all add: mul_zero)
qed simp

lemma locator_remove1: "a \<in> set as \<Longrightarrow> locator as = lin a (locator (remove1 a as))"
proof (induction as)
  case (Cons b as)
  show ?case
  proof (cases "a = b")
    case False
    then have "locator as = lin a (locator (remove1 a as))" using Cons by simp
    then show ?thesis using False by (simp only: locator_Cons remove1.simps if_False lin_commute [of a b])
  qed (simp add: locator_Cons)
qed simp

lemma peval_Suc: "peval (Suc n) p x = peval n p x XOR mul (p n) (pow x n)"
  by (simp add: peval_def)

lemma peval_0 [simp]: "peval 0 p x = 0"
  by (simp add: peval_def)

lemma peval_lin: "peval (Suc n) (lin a p) x = peval (Suc n) p x XOR mul (mul a x) (peval n p x)"
proof (induction n)
  case (Suc n)
  have "peval (Suc (Suc n)) (lin a p) x =
      peval (Suc n) (lin a p) x XOR mul (p (Suc n) XOR mul a (p n)) (pow x (Suc n))"
    by (simp add: peval_Suc)
  moreover have "mul (mul a (p n)) (pow x (Suc n)) = mul (mul a x) (mul (p n) (pow x n))"
    by (simp add: mul_assoc mul_left_commute)
  moreover have "peval (Suc (Suc n)) p x = peval (Suc n) p x XOR mul (p (Suc n)) (pow x (Suc n))"
    by (rule peval_Suc)
  moreover have "mul (mul a x) (peval (Suc n) p x) = mul (mul a x) (peval n p x) XOR mul (mul a x) (mul (p n) (pow x n))"
    by (simp only: peval_Suc mul_xor)
  ultimately show ?case by (simp only: Suc mul_xor_left word_xor_ac)
qed (simp add: peval_def mul_zero)

lemma peval_locator: "length as < n \<Longrightarrow> peval n (locator as) x = factors_at as x"
proof (induction as arbitrary: n)
  case Nil
  then have "peval n (locator []) x = mul (locator [] 0) (pow x 0)"
    unfolding peval_def by (subst xsum_single [where k = 0]) (auto simp: mul_zero)
  moreover have "mul (locator [] 0) (pow x 0) = 1" by (simp add: mul_one)
  ultimately show ?case by (simp only: factors_at.simps)
next
  case (Cons a as)
  then obtain k where n: "n = Suc k" and k: "length as < k" by (cases n) auto
  have "peval n (locator (a # as)) x = peval n (locator as) x XOR mul (mul a x) (peval k (locator as) x)"
    unfolding n locator_Cons by (rule peval_lin)
  then show ?case using Cons.IH [of n] Cons.IH [of k] k n by (simp add: mul_xor_left mul_one del: locator.simps)
qed

lemma factors_at_0: "factors_at as x = 0 \<longleftrightarrow> (\<exists>a\<in>set as. mul a x = 1)"
  by (induction as) (auto simp: mul_eq_0 xor_eq_0_word mul_one)

lemma conv_lin_pow: "conv (lin a p) (pow a) i = p i"
proof -
  have "xsum (map (\<lambda>k. mul (lin a p k) (pow a (j + (i - k)))) [0..<Suc i]) = mul (p i) (pow a j)" for j
  proof (induction i arbitrary: j)
    case (Suc i)
    have "xsum (map (\<lambda>k. mul (lin a p k) (pow a (j + (Suc i - k)))) [0..<Suc i]) =
        xsum (map (\<lambda>k. mul (lin a p k) (pow a (Suc j + (i - k)))) [0..<Suc i])"
      by (intro arg_cong [where f = xsum] map_cong refl) (auto simp: Suc_diff_le)
    also have "\<dots> = mul (p i) (pow a (Suc j))" by (rule Suc.IH)
    finally have init: "xsum (map (\<lambda>k. mul (lin a p k) (pow a (j + (Suc i - k)))) [0..<Suc i]) = mul (p i) (pow a (Suc j))" .
    have "xsum (map (\<lambda>k. mul (lin a p k) (pow a (j + (Suc i - k)))) [0..<Suc (Suc i)]) =
        xsum (map (\<lambda>k. mul (lin a p k) (pow a (j + (Suc i - k)))) [0..<Suc i]) XOR mul (lin a p (Suc i)) (pow a j)"
      by (simp only: xsum_Suc [of _ "Suc i"] diff_self_eq_0 add_0_right)
    also have "\<dots> = mul (p i) (pow a (Suc j)) XOR mul (p (Suc i) XOR mul a (p i)) (pow a j)"
      by (simp only: init lin.simps)
    also have "mul (p i) (pow a (Suc j)) = mul (mul a (p i)) (pow a j)"
      by (simp add: mul_assoc mul_left_commute)
    finally show ?case by (simp add: mul_xor_left word_xor_ac)
  qed simp
  from this [of 0] show ?thesis by (simp add: conv_def mul_one_right)
qed

lemma conv_sum:
  "conv p (\<lambda>k. xsum (map (\<lambda>a. mul (c a) (q a k)) as)) i = xsum (map (\<lambda>a. mul (c a) (conv p (q a) i)) as)"
proof -
  have "conv p (\<lambda>k. xsum (map (\<lambda>a. mul (c a) (q a k)) as)) i =
      xsum (map (\<lambda>k. xsum (map (\<lambda>a. mul (c a) (mul (p k) (q a (i - k)))) as)) [0..<Suc i])"
    unfolding conv_def mul_xsum by (simp only: mul_left_commute)
  also have "\<dots> = xsum (map (\<lambda>a. mul (c a) (conv p (q a) i)) as)"
    unfolding conv_def mul_xsum by (rule xsum_swap)
  finally show ?thesis .
qed

lemma peval_sum:
  "peval n (\<lambda>i. xsum (map (\<lambda>a. mul (c a) (q a i)) as)) x = xsum (map (\<lambda>a. mul (c a) (peval n (q a) x)) as)"
proof -
  have "mul (xsum (map (\<lambda>a. mul (c a) (q a i)) as)) (pow x i) = xsum (map (\<lambda>a. mul (c a) (mul (q a i) (pow x i))) as)" for i
    by (subst xsum_map_additive [where F = "\<lambda>v. mul v (pow x i)"]) (simp_all add: mul_xor_left mul_zero mul_assoc)
  then have "peval n (\<lambda>i. xsum (map (\<lambda>a. mul (c a) (q a i)) as)) x =
      xsum (map (\<lambda>i. xsum (map (\<lambda>a. mul (c a) (mul (q a i) (pow x i))) as)) [0..<n])"
    unfolding peval_def by (simp only:)
  also have "\<dots> = xsum (map (\<lambda>a. xsum (map (\<lambda>i. mul (c a) (mul (q a i) (pow x i))) [0..<n])) as)"
    by (rule xsum_swap)
  finally show ?thesis unfolding peval_def mul_xsum .
qed

text \<open>The monic polynomial with the given roots, for the generator.\<close>

fun monic :: "'a word list \<Rightarrow> nat \<Rightarrow> 'a word" where
  "monic [] i = (if i = 0 then 1 else 0)"
| "monic (a # as) i = mul a (monic as i) XOR (case i of 0 \<Rightarrow> 0 | Suc j \<Rightarrow> monic as j)"

lemma monic_above: "length as < i \<Longrightarrow> monic as i = 0"
proof (induction as arbitrary: i)
  case (Cons a as)
  then show ?case by (cases i) (simp_all add: mul_zero)
qed simp

lemma monic_top: "monic as (length as) = 1"
  by (induction as) (simp_all add: monic_above mul_zero)

lemma peval_times_root:
  "peval (Suc n) (\<lambda>i. mul a (q i) XOR (case i of 0 \<Rightarrow> 0 | Suc j \<Rightarrow> q j)) x = mul a (peval (Suc n) q x) XOR mul x (peval n q x)"
proof (induction n)
  case (Suc n)
  have "mul x (peval (Suc n) q x) = mul x (peval n q x) XOR mul (q n) (pow x (Suc n))"
    by (simp add: peval_Suc mul_xor mul_left_commute)
  moreover have "mul (mul a (q (Suc n)) XOR q n) (pow x (Suc n)) =
      mul a (mul (q (Suc n)) (pow x (Suc n))) XOR mul (q n) (pow x (Suc n))"
    by (simp add: mul_xor_left mul_assoc)
  ultimately show ?case
    unfolding peval_Suc [of "Suc n"] Suc mul_xor by (simp only: nat.case word_xor_ac)
qed (simp add: peval_def mul_zero mul_one_right)

lemma monic_Cons: "monic (a # as) = (\<lambda>i. mul a (monic as i) XOR (case i of 0 \<Rightarrow> 0 | Suc j \<Rightarrow> monic as j))"
  by (rule ext) simp

lemma peval_monic:
  assumes "length as < n"
  shows "peval (Suc n) (monic (a # as)) x = mul (a XOR x) (peval n (monic as) x)"
proof -
  have "peval (Suc n) (monic as) x = peval n (monic as) x" using assms by (simp add: peval_Suc monic_above mul_zero)
  then show ?thesis unfolding monic_Cons peval_times_root by (simp only: mul_xor_left)
qed

lemma monic_zero_iff: "length as < n \<Longrightarrow> peval n (monic as) x = 0 \<longleftrightarrow> x \<in> set as"
proof (induction as arbitrary: n)
  case Nil
  then have "peval n (monic []) x = mul (monic [] 0) (pow x 0)"
    unfolding peval_def by (subst xsum_single [where k = 0]) (auto simp: mul_zero)
  moreover have "mul (monic [] 0) (pow x 0) \<noteq> 0" by (simp add: mul_one)
  ultimately show ?case by (simp only: list.set empty_iff simp_thms)
next
  case (Cons b as)
  then obtain k where "n = Suc k" "length as < k" by (cases n) auto
  then show ?case using Cons.IH [of k] peval_monic [of as k b x] by (auto simp: mul_eq_0 xor_eq_0_word simp del: monic.simps)
qed

lemma monic_reduces:
  assumes "a \<in> set as"
  shows "peval (length as) (monic as) a = pow a (length as)"
  using monic_zero_iff [of as "Suc (length as)" a] assms by (simp add: peval_Suc monic_top mul_one xor_eq_0_word)

text \<open>
  Vandermonde: a combination of the powers of distinct elements that vanishes for as many exponents
  is trivial; and a polynomial with more roots than its degree is zero.
\<close>

lemma vandermonde:
  assumes "distinct as" "a \<in> set as" "\<And>t. t < length as \<Longrightarrow> xsum (map (\<lambda>b. mul (c b) (pow b t)) as) = 0"
  shows "c a = 0"
proof -
  let ?n = "length as" and ?m = "monic (remove1 a as)"
  have len: "length (remove1 a as) < ?n" using assms(2) length_pos_if_in_set [of a as] by (simp add: length_remove1)
  have "0 = xsum (map (\<lambda>t. mul (?m t) (xsum (map (\<lambda>b. mul (c b) (pow b t)) as))) [0..<?n])"
    using assms(3) by (intro xsum_zero [symmetric]) (auto simp: mul_zero)
  also have "\<dots> = xsum (map (\<lambda>b. mul (c b) (peval ?n ?m b)) as)"
    unfolding peval_def mul_xsum by (subst xsum_swap) (simp only: mul_left_commute)
  also have "\<dots> = mul (c a) (peval ?n ?m a)"
    using assms(1,2) by (subst xsum_single [where k = a]) (auto simp: monic_zero_iff [OF len] mul_eq_0)
  finally have "mul (c a) (peval ?n ?m a) = 0" by simp
  then show ?thesis using assms(1) by (simp add: mul_eq_0 monic_zero_iff [OF len])
qed

definition quotient :: "'a word \<Rightarrow> nat \<Rightarrow> (nat \<Rightarrow> 'a word) \<Rightarrow> nat \<Rightarrow> 'a word" where
  "quotient a n p i = xsum (map (\<lambda>j. mul (p (Suc (i + j))) (pow a j)) [0..<n - i])"

lemma quotient_below: "i < n \<Longrightarrow> quotient a n p i = p (Suc i) XOR mul a (quotient a n p (Suc i))"
proof -
  assume "i < n"
  then have "[0..<n - i] = 0 # map Suc [0..<n - Suc i]"
    by (simp add: upt_conv_Cons map_Suc_upt Suc_diff_Suc)
  then show ?thesis unfolding quotient_def mul_xsum by (simp add: comp_def mul_one_right mul_left_commute)
qed

lemma quotient_top: "quotient a n p n = 0"
  by (simp add: quotient_def)

lemma quotient_0: "peval (Suc n) p a = p 0 XOR mul a (quotient a n p 0)"
proof -
  have "[0..<Suc n] = 0 # map Suc [0..<n]" by (simp add: upt_conv_Cons map_Suc_upt)
  then show ?thesis unfolding quotient_def peval_def mul_xsum by (simp add: comp_def mul_one_right mul_left_commute del: upt_Suc)
qed

lemma few_roots:
  "distinct as \<Longrightarrow> (\<And>a. a \<in> set as \<Longrightarrow> peval (length as) p a = 0) \<Longrightarrow> i < length as \<Longrightarrow> p i = 0"
proof (induction as arbitrary: p i)
  case (Cons a as)
  let ?n = "length as" and ?q = "quotient a (length as) p"
  have p: "p i = mul a (?q i) XOR (case i of 0 \<Rightarrow> 0 | Suc j \<Rightarrow> ?q j)" if "i \<le> ?n" for i
  proof (cases i)
    case 0
    then show ?thesis using Cons.prems(2) [of a] quotient_0 [of ?n p a] by (simp add: xor_eq_0_word)
  next
    case (Suc j)
    then show ?thesis using quotient_below [of j ?n a p] that by (simp add: word_xor_ac)
  qed
  have q: "?q i = 0" if "i < ?n" for i
  proof (rule Cons.IH [OF _ _ that])
    fix x assume x: "x \<in> set as"
    have "peval (Suc ?n) p x = peval (Suc ?n) (\<lambda>i. mul a (?q i) XOR (case i of 0 \<Rightarrow> 0 | Suc j \<Rightarrow> ?q j)) x"
      unfolding peval_def using p by (intro arg_cong [where f = xsum] map_cong refl) (simp del: upt_Suc)
    also have "\<dots> = mul (a XOR x) (peval ?n ?q x)"
      unfolding peval_times_root by (simp add: peval_Suc quotient_top mul_zero mul_xor_left)
    finally show "peval ?n ?q x = 0" using Cons.prems(1,2) x by (auto simp: mul_eq_0 xor_eq_0_word)
  qed (use Cons.prems(1) in simp)
  show ?case using p [of i] q Cons.prems(3) by (cases i; cases "i = ?n") (auto simp: mul_zero quotient_top)
qed simp

text \<open>
  The syndromes of the errors \<open>Y a\<close> at the locators \<open>a\<close>, from the first power on: the
  evaluator at the inverse of a locator, and the odd part of the locator there.
\<close>

lemma evaluator_value:
  assumes "distinct as" "length as \<le> n" "a \<in> set as" "mul a z = 1"
    and "\<And>k. k < n \<Longrightarrow> s k = xsum (map (\<lambda>b. mul (y b) (pow b (Suc k))) as)"
  shows "peval n (conv (locator as) s) z = mul (y a) (mul a (factors_at (remove1 a as) z))"
proof -
  have others: "factors_at (remove1 b as) z = 0" if "b \<in> set as" "b \<noteq> a" for b
    using assms(1,3,4) that by (auto simp: factors_at_0)
  have len: "length (remove1 b as) < n" if "b \<in> set as" for b
    using assms(2) that by (simp add: length_remove1) (metis Suc_pred length_pos_if_in_set less_eq_Suc_le)
  have coeff: "conv (locator as) s i = xsum (map (\<lambda>b. mul (mul (y b) b) (locator (remove1 b as) i)) as)" if "i < n" for i
  proof -
    have "conv (locator as) s i = conv (locator as) (\<lambda>k. xsum (map (\<lambda>b. mul (mul (y b) b) (pow b k)) as)) i"
      unfolding conv_def using that
      by (intro arg_cong [where f = xsum] map_cong refl) (simp add: assms(5) mul_assoc)
    also have "\<dots> = xsum (map (\<lambda>b. mul (mul (y b) b) (conv (locator as) (pow b) i)) as)"
      by (rule conv_sum)
    also have "\<dots> = xsum (map (\<lambda>b. mul (mul (y b) b) (locator (remove1 b as) i)) as)"
    proof (intro arg_cong [where f = xsum] map_cong refl)
      fix b assume "b \<in> set as"
      then have "conv (locator as) (pow b) i = locator (remove1 b as) i"
        by (simp only: locator_remove1 [of b as] conv_lin_pow)
      then show "mul (mul (y b) b) (conv (locator as) (pow b) i) = mul (mul (y b) b) (locator (remove1 b as) i)" by simp
    qed
    finally show ?thesis .
  qed
  have "peval n (conv (locator as) s) z = peval n (\<lambda>i. xsum (map (\<lambda>b. mul (mul (y b) b) (locator (remove1 b as) i)) as)) z"
    unfolding peval_def using coeff by (intro arg_cong [where f = xsum] map_cong refl) simp
  also have "\<dots> = xsum (map (\<lambda>b. mul (mul (y b) b) (peval n (locator (remove1 b as)) z)) as)"
    by (rule peval_sum)
  also have "\<dots> = xsum (map (\<lambda>b. mul (mul (y b) b) (factors_at (remove1 b as) z)) as)"
    using len by (intro arg_cong [where f = xsum] map_cong refl) (simp add: peval_locator)
  also have "\<dots> = mul (mul (y a) a) (factors_at (remove1 a as) z)"
    using assms(1,3) others by (subst xsum_single [where k = a]) (auto simp: mul_zero)
  finally show ?thesis by (simp add: mul_assoc)
qed

lemma odd_part:
  assumes "mul a z = 1"
  shows "xsum (map (\<lambda>i. if odd i then mul (lin a p i) (pow z (i - 1)) else 0) [0..<Suc n]) =
    mul a (peval n p z) XOR (if odd n then mul a (mul (p n) (pow z n)) else 0)"
proof (induction n)
  case (Suc n)
  have "mul (p (Suc n)) (pow z n) = mul a (mul (p (Suc n)) (pow z (Suc n)))"
  proof -
    have "mul a (mul (p (Suc n)) (pow z (Suc n))) = mul (mul a z) (mul (p (Suc n)) (pow z n))"
      by (simp add: mul_assoc mul_left_commute)
    then show ?thesis by (simp add: assms mul_one)
  qed
  then have "mul (lin a p (Suc n)) (pow z n) = mul a (mul (p (Suc n)) (pow z (Suc n))) XOR mul a (mul (p n) (pow z n))"
    by (simp only: lin.simps mul_xor_left mul_assoc)
  then show ?case
    unfolding xsum_Suc [of _ "Suc n"] Suc
    by (cases "odd n") (simp_all add: peval_Suc mul_xor word_xor_ac del: pow.simps lin.simps)
qed (simp add: mul_zero)

lemma derivative_value:
  assumes "length as \<le> n" "a \<in> set as" "mul a z = 1"
  shows "xsum (map (\<lambda>i. if odd i then mul (locator as i) (pow z (i - 1)) else 0) [0..<Suc n]) =
    mul a (factors_at (remove1 a as) z)"
proof -
  have less: "length (remove1 a as) < length as"
    using assms(2) length_pos_if_in_set [of a as] by (simp add: length_remove1)
  then have "locator (remove1 a as) n = 0" using assms(1) by (intro locator_degree) simp
  moreover have "peval n (locator (remove1 a as)) z = factors_at (remove1 a as) z"
    using less assms(1) by (intro peval_locator) simp
  ultimately show ?thesis
    by (simp only: locator_remove1 [OF assms(2)] odd_part [OF assms(3)] mul_zero if_cancel xor.right_neutral)
qed

lemma other_factors_nonzero:
  assumes "distinct as" "a \<in> set as" "mul a z = 1"
  shows "factors_at (remove1 a as) z \<noteq> 0"
proof
  assume "factors_at (remove1 a as) z = 0"
  then obtain b where "b \<in> set as" "b \<noteq> a" "mul b z = 1" using assms(1) by (auto simp: factors_at_0)
  moreover have "z \<noteq> 0" using assms(3) by (auto simp: mul_zero)
  ultimately show False using mul_cancel [of z b a] assms(3) by (simp add: mul_commute)
qed

end

end
