(* ===== verification/LinearRecurrence.thy ===== *)
theory LinearRecurrence
  imports LocatorPoly
begin

text \<open>
  Linear recurrences over a field of characteristic two, for the search for unknown errors: a
  polynomial with constant term 1 generates a sequence from its length on when the coefficients of the
  product vanish there. Two recurrences for the same prefix cannot both be short (Massey), and a
  recurrence no longer than the number of errors has the locators as its roots.
\<close>

lemma xsum_rev: "xsum (rev ws) = xsum ws"
  by (induction ws) (simp_all add: xor.commute)

context binary_field
begin

definition recurrence :: "(nat \<Rightarrow> 'a word) \<Rightarrow> nat \<Rightarrow> (nat \<Rightarrow> 'a word) \<Rightarrow> nat \<Rightarrow> bool" where
  "recurrence p l s n \<longleftrightarrow> p 0 = 1 \<and> (\<forall>i>l. p i = 0) \<and> (\<forall>k. l \<le> k \<and> k < n \<longrightarrow> conv p s k = 0)"

lemma conv_short:
  assumes "\<forall>i>l. p i = 0" "l \<le> k"
  shows "conv p s k = xsum (map (\<lambda>j. mul (p j) (s (k - j))) [0..<Suc l])"
proof -
  have "[0..<Suc k] = [0..<Suc l] @ [Suc l..<Suc k]" using upt_add_eq_append [of 0 "Suc l" "k - l"] assms(2) by simp
  moreover have "xsum (map (\<lambda>j. mul (p j) (s (k - j))) [Suc l..<Suc k]) = 0"
    using assms(1) by (intro xsum_zero) (auto simp: mul_zero)
  ultimately show ?thesis by (simp only: conv_def map_append xsum_append xor.right_neutral)
qed

lemma conv_shifted:
  "conv (\<lambda>i. p i XOR (if d \<le> i then mul c (q (i - d)) else 0)) s k =
    conv p s k XOR (if d \<le> k then mul c (conv q s (k - d)) else 0)"
proof -
  let ?g = "\<lambda>i. mul (if d \<le> i then mul c (q (i - d)) else 0) (s (k - i))"
  have "conv (\<lambda>i. p i XOR (if d \<le> i then mul c (q (i - d)) else 0)) s k = conv p s k XOR xsum (map ?g [0..<Suc k])"
    unfolding conv_def by (simp only: mul_xor_left xsum_map_xor)
  moreover have "xsum (map ?g [0..<Suc k]) = (if d \<le> k then mul c (conv q s (k - d)) else 0)"
  proof (cases "d \<le> k")
    case True
    have "[0..<Suc k] = [0..<d] @ map (\<lambda>i. i + d) [0..<Suc (k - d)]"
      using upt_add_eq_append [of 0 d "Suc k - d"] True by (simp add: map_add_upt Suc_diff_le del: upt_Suc)
    moreover have "xsum (map ?g [0..<d]) = 0" by (intro xsum_zero) (auto simp: mul_zero)
    ultimately have "xsum (map ?g [0..<Suc k]) = xsum (map (\<lambda>i. mul (mul c (q i)) (s (k - (i + d)))) [0..<Suc (k - d)])"
      by (simp add: comp_def del: upt_Suc)
    also have "\<dots> = mul c (conv q s (k - d))"
      unfolding conv_def mul_xsum by (simp only: mul_assoc add.commute [of _ d] diff_diff_eq)
    finally show ?thesis using True by simp
  qed (auto intro!: xsum_zero simp: mul_zero)
  ultimately show ?thesis by simp
qed

lemma massey:
  assumes "recurrence p l s n" "recurrence q e s (Suc n)" "l \<le> n" "conv p s n \<noteq> 0"
  shows "n < l + e"
proof (rule ccontr)
  assume "\<not> n < l + e"
  then have len: "l + e \<le> n" by simp
  let ?d = "xsum (map (\<lambda>i. mul (q i) (xsum (map (\<lambda>j. mul (p j) (s (n - i - j))) [0..<Suc l]))) [0..<Suc e])"
  have p: "\<forall>i>l. p i = 0" "\<And>k. l \<le> k \<Longrightarrow> k < n \<Longrightarrow> conv p s k = 0"
    and q: "q 0 = 1" "\<forall>i>e. q i = 0" "\<And>k. e \<le> k \<Longrightarrow> k \<le> n \<Longrightarrow> conv q s k = 0"
    using assms(1,2) by (auto simp: recurrence_def)
  have "?d = xsum (map (\<lambda>i. mul (q i) (conv p s (n - i))) [0..<Suc e])"
    using len p(1) by (intro arg_cong [where f = xsum] map_cong refl) (simp add: conv_short del: upt_Suc)
  also have "\<dots> = mul (q 0) (conv p s (n - 0))"
  proof (rule xsum_single)
    show "mul (q i) (conv p s (n - i)) = 0" if "i \<in> set [0..<Suc e]" "i \<noteq> 0" for i
      using that len p(2) [of "n - i"] by (simp add: mul_zero del: upt_Suc)
  qed (simp_all del: upt_Suc)
  finally have one: "?d = conv p s n" by (simp add: q(1) mul_one)
  have "?d = xsum (map (\<lambda>j. mul (p j) (xsum (map (\<lambda>i. mul (q i) (s (n - j - i))) [0..<Suc e]))) [0..<Suc l])"
    unfolding mul_xsum by (subst xsum_swap) (simp only: mul_left_commute diff_commute [of n])
  also have "\<dots> = xsum (map (\<lambda>j. mul (p j) (conv q s (n - j))) [0..<Suc l])"
    using len q(2) by (intro arg_cong [where f = xsum] map_cong refl) (simp add: conv_short del: upt_Suc)
  also have "\<dots> = 0"
    using len q(3) by (intro xsum_zero) (auto simp: mul_zero simp del: upt_Suc)
  finally show False using one assms(4) by simp
qed

text \<open>The locator of the errors is a recurrence for their syndromes.\<close>

lemma locator_0: "locator as 0 = 1"
  by (induction as) simp_all

lemma locator_recurrence:
  assumes "\<And>k. s k = xsum (map (\<lambda>b. mul (y b) (pow b (Suc k))) as)"
  shows "recurrence (locator as) (length as) s n"
proof -
  have "conv (locator as) s k = 0" if "length as \<le> k" for k
  proof -
    have "s = (\<lambda>k. xsum (map (\<lambda>b. mul (mul (y b) b) (pow b k)) as))"
      by (rule ext) (simp add: assms mul_assoc)
    then have "conv (locator as) s k = xsum (map (\<lambda>b. mul (mul (y b) b) (conv (locator as) (pow b) k)) as)"
      by (simp only: conv_sum)
    also have "\<dots> = 0"
    proof (rule xsum_zero)
      fix w assume "w \<in> set (map (\<lambda>b. mul (mul (y b) b) (conv (locator as) (pow b) k)) as)"
      then obtain b where b: "b \<in> set as" "w = mul (mul (y b) b) (conv (locator as) (pow b) k)" by auto
      have "length (remove1 b as) < length as" using b(1) length_pos_if_in_set [of b as] by (simp add: length_remove1)
      with that have "length (remove1 b as) < k" by linarith
      then have "conv (locator as) (pow b) k = 0"
        by (simp only: locator_remove1 [OF b(1)] conv_lin_pow locator_degree)
      then show "w = 0" using b(2) by (simp add: mul_zero)
    qed
    finally show ?thesis .
  qed
  then show ?thesis by (auto simp: recurrence_def locator_0 locator_degree)
qed

text \<open>
  A recurrence no longer than the number of errors, over at least twice as many syndromes, has
  exactly that length, and the inverses of its roots are the locators.
\<close>

lemma peval_reversed: "peval (Suc l) (\<lambda>i. p (l - i)) b = xsum (map (\<lambda>j. mul (p j) (pow b (l - j))) [0..<Suc l])"
proof -
  have "map (\<lambda>i. mul (p (l - i)) (pow b i)) [0..<Suc l] = map (\<lambda>j. mul (p j) (pow b (l - j))) (rev [0..<Suc l])"
    by (rule nth_equalityI) (auto simp: rev_nth simp del: upt_Suc)
  then show ?thesis by (simp only: peval_def rev_map [symmetric] xsum_rev)
qed

lemma peval_inverse:
  assumes "mul b z = 1"
  shows "peval (Suc l) (\<lambda>i. p (l - i)) b = mul (pow b l) (peval (Suc l) p z)"
proof -
  have inv: "mul (pow b i) (pow z i) = 1" for i
    using assms by (simp flip: pow_distrib add: pow_one)
  have "peval (Suc l) (\<lambda>i. p (l - i)) b = xsum (map (\<lambda>j. mul (p j) (pow b (l - j))) [0..<Suc l])"
    by (rule peval_reversed)
  also have "\<dots> = mul (pow b l) (peval (Suc l) p z)"
    unfolding peval_def mul_xsum
  proof (intro arg_cong [where f = xsum] map_cong refl)
    fix j assume "j \<in> set [0..<Suc l]"
    then have "l - j + j = l" by auto
    then have "pow b l = mul (pow b (l - j)) (pow b j)" by (simp only: pow_mul)
    then show "mul (p j) (pow b (l - j)) = mul (pow b l) (mul (p j) (pow z j))"
      using inv [of j] by (simp add: mul_assoc mul_left_commute [of _ "p j"] mul_one_right)
  qed
  finally show ?thesis .
qed

lemma short_recurrence_roots:
  assumes "distinct as" "\<And>b. b \<in> set as \<Longrightarrow> b \<noteq> 0 \<and> y b \<noteq> 0"
    and "\<And>k. k < n \<Longrightarrow> s k = xsum (map (\<lambda>b. mul (y b) (pow b (Suc k))) as)"
    and "recurrence p l s n" "l \<le> length as" "2 * length as \<le> n"
  shows "l = length as" "\<And>b z. mul b z = 1 \<Longrightarrow> peval (Suc l) p z = 0 \<longleftrightarrow> b \<in> set as"
proof -
  let ?r = "\<lambda>i. p (l - i)"
  have p: "p 0 = 1" "\<forall>i>l. p i = 0" "\<And>k. l \<le> k \<Longrightarrow> k < n \<Longrightarrow> conv p s k = 0"
    using assms(4) by (auto simp: recurrence_def)
  have root: "peval (Suc l) ?r b = 0" if "b \<in> set as" for b
  proof -
    have "mul (y b) (mul b (peval (Suc l) ?r b)) = 0"
    proof (rule vandermonde [OF assms(1) that])
      fix t assume t: "t < length as"
      have "conv p s (l + t) = xsum (map (\<lambda>j. xsum (map (\<lambda>b. mul (p j) (mul (y b) (pow b (Suc (l + t - j))))) as)) [0..<Suc l])"
        using t assms(5,6) by (subst conv_short [OF p(2)]) (auto simp: assms(3) mul_xsum simp del: upt_Suc pow.simps intro!: arg_cong [where f = xsum] map_cong)
      also have "\<dots> = xsum (map (\<lambda>b. xsum (map (\<lambda>j. mul (p j) (mul (y b) (pow b (Suc (l + t - j))))) [0..<Suc l])) as)"
        by (rule xsum_swap)
      also have "\<dots> = xsum (map (\<lambda>b. mul (mul (y b) (mul b (peval (Suc l) ?r b))) (pow b t)) as)"
      proof (intro arg_cong [where f = xsum] map_cong refl)
        fix b
        have "peval (Suc l) ?r b = xsum (map (\<lambda>j. mul (p j) (pow b (l - j))) [0..<Suc l])"
          by (rule peval_reversed)
        moreover have "pow b (Suc (l + t - j)) = mul (mul b (pow b (l - j))) (pow b t)" if "j \<le> l" for j
          using that by (simp add: mul_assoc pow_mul)
        ultimately show "xsum (map (\<lambda>j. mul (p j) (mul (y b) (pow b (Suc (l + t - j))))) [0..<Suc l]) =
            mul (mul (y b) (mul b (peval (Suc l) ?r b))) (pow b t)"
          by (simp only: mul_assoc mul_xsum mul_commute [of _ "pow b t"]) 
             (auto simp: mul_left_commute mul_assoc simp del: upt_Suc pow.simps intro!: arg_cong [where f = xsum] map_cong)
      qed
      finally show "xsum (map (\<lambda>b. mul (mul (y b) (mul b (peval (Suc l) ?r b))) (pow b t)) as) = 0"
        using p(3) [of "l + t"] t assms(5,6) by simp
    qed
    then show ?thesis using assms(2) [OF that] by (simp add: mul_eq_0)
  qed
  have nonzero: "\<not> (distinct bs \<and> (\<forall>b\<in>set bs. peval (Suc l) ?r b = 0) \<and> Suc l = length bs)" for bs
  proof
    assume bs: "distinct bs \<and> (\<forall>b\<in>set bs. peval (Suc l) ?r b = 0) \<and> Suc l = length bs"
    then have d: "distinct bs" "l < length bs" "Suc l = length bs" by simp_all
    have "?r l = 0"
    proof (rule few_roots [where p = ?r, OF d(1) _ d(2)])
      show "peval (length bs) ?r b = 0" if "b \<in> set bs" for b using bs that unfolding d(3) by blast
    qed
    then show False using p(1) by simp
  qed
  show l: "l = length as"
  proof (rule ccontr)
    assume "l \<noteq> length as"
    then have "Suc l \<le> length as" using assms(5) by simp
    then show False using nonzero [of "take (Suc l) as"] assms(1) root by (auto dest: in_set_takeD)
  qed
  fix b z assume bz: "mul b z = 1"
  then have "b \<noteq> 0" by (auto simp: mul_zero)
  then have "pow b l \<noteq> 0" by (induction l) (simp_all add: mul_eq_0)
  then have "peval (Suc l) p z = 0 \<longleftrightarrow> peval (Suc l) ?r b = 0"
    unfolding peval_inverse [OF bz] by (simp add: mul_eq_0)
  also have "\<dots> \<longleftrightarrow> b \<in> set as"
    using root nonzero [of "b # as"] assms(1) l by auto
  finally show "peval (Suc l) p z = 0 \<longleftrightarrow> b \<in> set as" .
qed

end

end
