(* ===== verification/Rs8.thy ===== *)
theory Rs8
  imports LinearRecurrence
begin

text \<open>
  The Reed-Solomon code over GF(2^8) of the \<open>.rev\<close> volumes of RAR 1.5 to 4
  (\<^verbatim>\<open>crates/rar/src/recovery/rev3/rs8.rs\<close>): the field tables, the generator polynomial,
  the systematic encoder, the syndromes, the erasure decoder and the search for unknown errors. The
  mutable arrays of the code are the values the folds pass on. The error of \<open>correct_erasures\<close>
  drops the codeword, as both callers do.
\<close>

datatype rs8_error = InvalidParitySize | InvalidCodewordSize | TooManyErasures | DecodeFailed | Uncorrectable

definition MAX_PARITY :: nat where "MAX_PARITY = 255"
definition MAX_POLYNOMIAL :: nat where "MAX_POLYNOMIAL = 512"
definition RS8_POLYNOMIAL :: u16 where "RS8_POLYNOMIAL = 0x11d"
definition MAX_CODEWORD :: nat where "MAX_CODEWORD = MAX_PARITY"

record rsc8 =
  rs_parity_size :: nat
  rs_exp :: "byte list"
  rs_log :: "u16 list"
  rs_generator :: "byte list"

section \<open>The field\<close>

definition rs8_round :: "nat \<Rightarrow> byte list \<times> u16 list \<times> u16 \<Rightarrow> byte list \<times> u16 list \<times> u16" where
  "rs8_round index = (\<lambda>(exps, logs, v).
     let logs = logs[unat v := word_of_nat index];
         exps = exps[index := ucast v];
         v = push_bit 1 v;
         v = (if 0xff < v then v XOR RS8_POLYNOMIAL else v) in
     (exps, logs, v))"

definition init_field :: "rsc8 \<Rightarrow> rsc8" where
  "init_field coder =
     (let (exps, logs, v) = fold rs8_round [0..<MAX_PARITY] (rs_exp coder, rs_log coder, 1);
          exps = fold (\<lambda>index exps. exps[index := exps ! (index - MAX_PARITY)]) [MAX_PARITY..<MAX_POLYNOMIAL] exps in
      coder\<lparr>rs_exp := exps, rs_log := logs\<rparr>)"

definition rs8_mul :: "rsc8 \<Rightarrow> byte \<Rightarrow> byte \<Rightarrow> byte" where
  "rs8_mul coder left right =
     (if left = 0 \<or> right = 0 then 0
      else rs_exp coder ! unat (rs_log coder ! unat left + rs_log coder ! unat right))"

section \<open>Polynomials\<close>

definition get_or_zero :: "byte list \<Rightarrow> nat \<Rightarrow> byte" where
  "get_or_zero xs i = (case get xs i of None \<Rightarrow> 0 | Some v \<Rightarrow> v)"

definition multiply_row :: "rsc8 \<Rightarrow> byte list \<Rightarrow> byte list \<Rightarrow> nat \<Rightarrow> byte list \<Rightarrow> byte list" where
  "multiply_row coder left right left_index out =
     (if get_or_zero left left_index = 0 then out
      else fold (\<lambda>right_index out. out[left_index + right_index :=
               out ! (left_index + right_index) XOR rs8_mul coder (left ! left_index) (get_or_zero right right_index)])
             [0..<rs_parity_size coder - left_index] out)"

definition multiply_polynomials :: "rsc8 \<Rightarrow> byte list \<Rightarrow> byte list \<Rightarrow> byte list" where
  "multiply_polynomials coder left right =
     fold (multiply_row coder left right) [0..<rs_parity_size coder] (replicate (rs_parity_size coder) 0)"

definition generator_round :: "nat \<Rightarrow> rsc8 \<times> byte list \<Rightarrow> rsc8 \<times> byte list" where
  "generator_round index = (\<lambda>(coder, current).
     let factor = (replicate (rs_parity_size coder) 0)[0 := rs_exp coder ! index];
         factor = (if 1 < rs_parity_size coder then factor[1 := 1] else factor);
         coder = coder\<lparr>rs_generator := multiply_polynomials coder factor current\<rparr> in
     (coder, rs_generator coder))"

definition init_generator :: "rsc8 \<Rightarrow> rsc8" where
  "init_generator coder =
     fst (fold generator_round [1..<rs_parity_size coder + 1] (coder, (replicate (rs_parity_size coder) 0)[0 := 1]))"

definition rsc8_new :: "nat \<Rightarrow> rs8_error + rsc8" where
  "rsc8_new parity_size =
     (if parity_size = 0 \<or> MAX_PARITY < parity_size then Inl InvalidParitySize
      else Inr (init_generator (init_field
        \<lparr>rs_parity_size = parity_size, rs_exp = replicate MAX_POLYNOMIAL 0, rs_log = replicate (MAX_PARITY + 1) 0,
         rs_generator = replicate parity_size 0\<rparr>)))"

section \<open>Encoding\<close>

definition encode_byte :: "rsc8 \<Rightarrow> byte \<Rightarrow> byte list \<Rightarrow> byte list" where
  "encode_byte coder b shift =
     (let feedback = b XOR shift ! (rs_parity_size coder - 1);
          shift = fold (\<lambda>index shift. shift[index := shift ! (index - 1) XOR rs8_mul coder (rs_generator coder ! index) feedback])
                    (rev [1..<rs_parity_size coder]) shift in
      shift[0 := rs8_mul coder (rs_generator coder ! 0) feedback])"

definition rs8_encode :: "rsc8 \<Rightarrow> byte list \<Rightarrow> byte list" where
  "rs8_encode coder data =
     (let shift = fold (encode_byte coder) data (replicate (rs_parity_size coder + 1) 0) in
      map (\<lambda>index. shift ! (rs_parity_size coder - index - 1)) [0..<rs_parity_size coder])"

definition rs8_syndromes :: "rsc8 \<Rightarrow> byte list \<Rightarrow> byte list" where
  "rs8_syndromes coder codeword =
     map (\<lambda>index. let factor = rs_exp coder ! (index + 1) in foldl (\<lambda>acc b. b XOR rs8_mul coder factor acc) 0 codeword)
       [0..<rs_parity_size coder]"

section \<open>Erasures\<close>

definition locator_step :: "rsc8 \<Rightarrow> nat \<Rightarrow> nat \<Rightarrow> byte list \<Rightarrow> byte list" where
  "locator_step coder codeword_len erasure loc =
     (let multiplier = rs_exp coder ! (codeword_len - erasure - 1) in
      fold (\<lambda>index loc. loc[index := loc ! index XOR rs8_mul coder multiplier (loc ! (index - 1))])
        (rev [1..<rs_parity_size coder + 1]) loc)"

definition erasure_locator :: "rsc8 \<Rightarrow> nat \<Rightarrow> nat list \<Rightarrow> byte list" where
  "erasure_locator coder codeword_len erasures =
     fold (locator_step coder codeword_len) erasures ((replicate (rs_parity_size coder + 1) 0)[0 := 1])"

definition value_at_root :: "rsc8 \<Rightarrow> byte list \<Rightarrow> nat \<Rightarrow> byte" where
  "value_at_root coder coefficients root =
     foldl (\<lambda>acc (i, coefficient). acc XOR rs8_mul coder (rs_exp coder ! ((i * root) mod MAX_PARITY)) coefficient) 0
       (zip [0..<length coefficients] coefficients)"

definition root_denominator :: "rsc8 \<Rightarrow> byte list \<Rightarrow> nat \<Rightarrow> byte" where
  "root_denominator coder loc root =
     foldl (\<lambda>acc index. acc XOR rs8_mul coder (loc ! index) (rs_exp coder ! ((root * (index - 1)) mod MAX_PARITY))) 0
       (filter odd [1..<rs_parity_size coder + 1])"

text \<open>The locations of the roots, each with its denominator.\<close>

definition error_locations :: "rsc8 \<Rightarrow> byte list \<Rightarrow> nat \<Rightarrow> (nat \<times> byte) list" where
  "error_locations coder loc codeword_len =
     map (\<lambda>root. (MAX_PARITY - root, root_denominator coder loc root))
       (filter (\<lambda>root. value_at_root coder loc root = 0) [MAX_PARITY - codeword_len..<MAX_PARITY + 1])"

definition error_numerator :: "rsc8 \<Rightarrow> byte list \<Rightarrow> nat \<Rightarrow> byte" where
  "error_numerator coder evaluator dloc =
     foldl (\<lambda>acc (index, coefficient). acc XOR rs8_mul coder coefficient (rs_exp coder ! ((dloc * index) mod MAX_PARITY))) 0
       (zip [0..<length evaluator] evaluator)"

fun correct_locations :: "rsc8 \<Rightarrow> byte list \<Rightarrow> (nat \<times> byte) list \<Rightarrow> byte list \<Rightarrow> rs8_error + byte list" where
  "correct_locations coder evaluator [] codeword = Inr codeword"
| "correct_locations coder evaluator ((loc, denominator) # rest) codeword =
     (if denominator = 0 then Inl DecodeFailed
      else if length codeword < loc + 1 then Inl DecodeFailed
      else let data_pos = length codeword - (loc + 1);
               dloc = MAX_PARITY - loc;
               numerator = error_numerator coder evaluator dloc;
               correction = rs8_mul coder numerator (rs_exp coder ! (MAX_PARITY - unat (rs_log coder ! unat denominator))) in
        correct_locations coder evaluator rest (codeword[data_pos := codeword ! data_pos XOR correction]))"

definition correct_erasures :: "rsc8 \<Rightarrow> byte list \<Rightarrow> nat list \<Rightarrow> rs8_error + byte list" where
  "correct_erasures coder codeword erasures =
     (if codeword = [] \<or> MAX_PARITY < length codeword then Inl InvalidCodewordSize
      else if rs_parity_size coder < length erasures then Inl TooManyErasures
      else if list_ex (\<lambda>index. length codeword \<le> index) erasures then Inl InvalidCodewordSize
      else let syndromes = rs8_syndromes coder codeword in
        if list_all (\<lambda>v. v = 0) syndromes then Inr codeword
        else if erasures = [] then Inl DecodeFailed
        else let loc = erasure_locator coder (length codeword) erasures;
                 locations = error_locations coder loc (length codeword) in
          if locations = [] \<or> rs_parity_size coder < length locations then Inl DecodeFailed
          else let evaluator = multiply_polynomials coder loc syndromes in
            correct_locations coder evaluator locations codeword)"

section \<open>Unknown errors\<close>

text \<open>The variables of the Berlekamp-Massey loop.\<close>

record bm_state =
  bm_locator :: "byte list"
  bm_previous :: "byte list"
  bm_degree :: nat
  bm_shift :: nat
  bm_discrepancy :: byte

definition bm_init :: bm_state where
  "bm_init = \<lparr>bm_locator = [1], bm_previous = [1], bm_degree = 0, bm_shift = 1, bm_discrepancy = 1\<rparr>"

definition bm_discrepancy_at :: "rsc8 \<Rightarrow> byte list \<Rightarrow> bm_state \<Rightarrow> nat \<Rightarrow> byte" where
  "bm_discrepancy_at coder syndromes s n =
     foldl (\<lambda>acc index. acc XOR rs8_mul coder (bm_locator s ! index) (syndromes ! (n - index))) (syndromes ! n)
       [1..<bm_degree s + 1]"

definition bm_adjust :: "rsc8 \<Rightarrow> byte \<Rightarrow> bm_state \<Rightarrow> byte list" where
  "bm_adjust coder discrepancy s =
     (let scale = rs8_mul coder discrepancy (rs_exp coder ! (MAX_PARITY - unat (rs_log coder ! unat (bm_discrepancy s))));
          loc = bm_locator s;
          loc = (if length loc < length (bm_previous s) + bm_shift s
                 then loc @ replicate (length (bm_previous s) + bm_shift s - length loc) 0 else loc) in
      fold (\<lambda>index loc. loc[index + bm_shift s := loc ! (index + bm_shift s) XOR rs8_mul coder scale (bm_previous s ! index)])
        [0..<length (bm_previous s)] loc)"

definition bm_step :: "rsc8 \<Rightarrow> byte list \<Rightarrow> nat \<Rightarrow> bm_state \<Rightarrow> bm_state" where
  "bm_step coder syndromes n s =
     (let discrepancy = bm_discrepancy_at coder syndromes s n in
      if discrepancy = 0 then s\<lparr>bm_shift := bm_shift s + 1\<rparr>
      else let loc = bm_adjust coder discrepancy s in
        if 2 * bm_degree s \<le> n
        then \<lparr>bm_locator = loc, bm_previous = bm_locator s, bm_degree = n + 1 - bm_degree s, bm_shift = 1,
              bm_discrepancy = discrepancy\<rparr>
        else s\<lparr>bm_locator := loc, bm_shift := bm_shift s + 1\<rparr>)"

definition chien_value :: "rsc8 \<Rightarrow> byte list \<Rightarrow> nat \<Rightarrow> nat \<Rightarrow> byte" where
  "chien_value coder loc codeword_len index =
     (let x = rs_exp coder ! ((MAX_PARITY + index + 1 - codeword_len) mod MAX_PARITY) in
      foldl (\<lambda>acc coefficient. rs8_mul coder acc x XOR coefficient) 0 (rev loc))"

definition locate_errors :: "rsc8 \<Rightarrow> byte list \<Rightarrow> nat \<Rightarrow> rs8_error + nat list" where
  "locate_errors coder syndromes codeword_len =
     (if rs_parity_size coder < length syndromes \<or> codeword_len = 0 \<or> MAX_PARITY < codeword_len then Inl InvalidCodewordSize
      else if length syndromes < 2 then Inl Uncorrectable
      else let s = fold (bm_step coder syndromes) [0..<length syndromes] bm_init in
        if bm_degree s = 0 \<or> length syndromes < 2 * bm_degree s then Inl Uncorrectable
        else let loc = take (bm_degree s + 1) (bm_locator s);
                 positions = filter (\<lambda>index. chien_value coder loc codeword_len index = 0) [0..<codeword_len] in
          if length positions \<noteq> bm_degree s then Inl Uncorrectable else Inr positions)"

end
