(* ===== verification/Rs8Code.thy ===== *)
theory Rs8Code
  imports Rs8
begin

text \<open>
  What the Reed-Solomon coder of \<open>Rs8\<close> computes: the tables are those of the field
  GF(2^8), the generator has the first powers of the generator of the field as its roots, an encoded
  word has no syndromes, and the erasure decoder restores it.
\<close>

section \<open>The tables\<close>

abbreviation poly8 :: byte where "poly8 \<equiv> 0x1d"

lemma byte_cases:
  assumes "list_all P (map word_of_nat [0..<256])"
  shows "P (a :: byte)"
proof -
  have "a = word_of_nat (unat a)" "unat a \<in> set [0..<256]" using unsigned_less [of a] by simp_all
  then have "a \<in> set (map word_of_nat [0..<256])" by (metis image_eqI set_map)
  then show ?thesis using assms by (simp only: list_all_iff)
qed

lemma reduce8:
  "(let v = push_bit 1 (ucast a :: u16) in if 0xff < v then v XOR RS8_POLYNOMIAL else v) = ucast (xtime poly8 a)"
proof -
  have "list_all (\<lambda>a :: byte. (let v = push_bit 1 (ucast a :: u16) in if 0xff < v then v XOR RS8_POLYNOMIAL else v) = ucast (xtime poly8 a))
      (map word_of_nat [0..<256])"
    by code_simp
  then show ?thesis by (rule byte_cases)
qed

lemma bits_of_8: "rev [0..<8] = [7, 6, 5, 4, 3, 2, 1, 0 :: nat]"
  by code_simp

lemma poly8_powers:
  "square_power poly8 [True, True, True, True, True, True, True, True] = 1"
  "square_power poly8 [True, False, True, False, True, False, True] \<noteq> 1"
  "square_power poly8 [True, True, False, False, True, True] \<noteq> 1"
  "square_power poly8 [True, True, True, True] \<noteq> 1"
  by (simp_all add: square_step_def clmul_horner horner_def xtime_def bits_of_8)

lemma divisor_of_255:
  assumes "e dvd (255 :: nat)"
  shows "e = 1 \<or> (\<exists>q\<in>set [3, 5, 17]. q dvd e)"
proof -
  have "list_all (\<lambda>e. 255 mod e \<noteq> 0 \<or> e = 1 \<or> e mod 3 = 0 \<or> e mod 5 = 0 \<or> e mod 17 = 0) [0..<256 :: nat]"
    by code_simp
  moreover have "e \<in> set [0..<256]" using dvd_imp_le [OF assms] by simp
  ultimately have "255 mod e \<noteq> 0 \<or> e = 1 \<or> e mod 3 = 0 \<or> e mod 5 = 0 \<or> e mod 17 = 0"
    unfolding list_all_iff by (rule bspec)
  moreover have "255 mod e = 0" using assms by (simp add: dvd_eq_mod_eq_0)
  ultimately have "e = 1 \<or> e mod 3 = 0 \<or> e mod 5 = 0 \<or> e mod 17 = 0" by simp
  then show ?thesis by (auto simp: dvd_eq_mod_eq_0)
qed

lemma poly8_generates: "generates poly8"
proof -
  have "gen_pow poly8 m = 1 \<longleftrightarrow> 255 dvd m" for m
  proof (rule gen_pow_order [where qs = "[3, 5, 17]"])
    show "gen_pow poly8 255 = 1" using poly8_powers(1) unfolding square_power_eq by simp
    show "gen_pow poly8 (255 div q) \<noteq> 1" if "q \<in> set [3, 5, 17]" for q
      using that poly8_powers(2-4) unfolding square_power_eq by auto
    show "e = 1 \<or> (\<exists>q\<in>set [3, 5, 17]. q dvd e)" if "e dvd 255" for e :: nat
      using that by (rule divisor_of_255)
  qed simp
  then show ?thesis by (simp add: generates_def)
qed

text \<open>The tables of every coder, and what they hold.\<close>

definition field_tables :: "rsc8 \<Rightarrow> bool" where
  "field_tables c \<longleftrightarrow> (\<forall>i<MAX_POLYNOMIAL. rs_exp c ! i = gen_pow poly8 i) \<and>
     (\<forall>i<MAX_PARITY. rs_log c ! unat (gen_pow poly8 i) = word_of_nat i)"

lemma rounds_tables:
  assumes "k \<le> MAX_PARITY" "length exps = MAX_POLYNOMIAL" "length logs = MAX_PARITY + 1"
  shows "\<exists>exps' logs'. fold rs8_round [0..<k] (exps, logs, 1) = (exps', logs', ucast (gen_pow poly8 k)) \<and>
    length exps' = MAX_POLYNOMIAL \<and> length logs' = MAX_PARITY + 1 \<and>
    (\<forall>i<k. exps' ! i = gen_pow poly8 i \<and> logs' ! unat (gen_pow poly8 i) = word_of_nat i)"
  using assms(1)
proof (induction k)
  case 0
  then show ?case using assms by simp
next
  case (Suc k)
  let ?g = "gen_pow poly8"
  obtain es ls where k: "fold rs8_round [0..<k] (exps, logs, 1) = (es, ls, ucast (?g k))"
    and len: "length es = MAX_POLYNOMIAL" "length ls = MAX_PARITY + 1"
    and tab: "\<forall>i<k. es ! i = ?g i \<and> ls ! unat (?g i) = word_of_nat i"
    using Suc by auto
  have u8: "unat w < 256" for w :: byte using unsigned_less [of w] by simp
  then have small: "unat (?g i) < length ls" for i using len by (simp add: MAX_PARITY_def)
  have "unat (?g k) < 2 ^ 16" by (rule less_le_trans [OF u8]) simp
  then have idx: "unat (ucast (?g k) :: u16) = unat (?g k)"
    by (simp add: unsigned_ucast_eq take_bit_nat_eq_self)
  have down: "ucast (ucast (?g k) :: u16) = ?g k" by (rule bit_word_eqI) (simp add: bit_simps)
  have apart: "unat (?g i) \<noteq> unat (?g k)" if "i < k" for i
    using gen_pow_inj [OF poly8_generates, of i k] that Suc.prems by (auto simp: MAX_PARITY_def word_unat_eq_iff)
  have "fold rs8_round [0..<Suc k] (exps, logs, 1) = (es[k := ?g k], ls[unat (?g k) := word_of_nat k], ucast (?g (Suc k)))"
    using reduce8 [of "?g k"] by (simp add: k rs8_round_def idx down gen_pow_Suc Let_def)
  then show ?case
    using len tab apart apart [THEN not_sym] small Suc.prems
    by (auto simp: nth_list_update less_Suc_eq MAX_PARITY_def MAX_POLYNOMIAL_def)
qed

lemma fold_copy:
  assumes "\<And>i. i < d \<Longrightarrow> es ! i = f i" "d \<le> k" "k \<le> length es" "0 < d" "\<And>i. f (i + d) = f i"
  shows "length (fold (\<lambda>i es. es[i := es ! (i - d)]) [d..<k] es) = length es \<and>
    (\<forall>i<k. fold (\<lambda>i es. es[i := es ! (i - d)]) [d..<k] es ! i = f i)"
  using assms(2,3)
proof (induction k rule: dec_induct)
  case base
  then show ?case using assms(1) by simp
next
  case (step k)
  let ?r = "fold (\<lambda>i es. es[i := es ! (i - d)]) [d..<k] es"
  have r: "length ?r = length es" "\<forall>i<k. ?r ! i = f i" using step by simp_all
  have "?r ! (k - d) = f k" using r(2) step(1) assms(4) assms(5) [of "k - d"] by simp
  then show ?case using r step by (auto simp: nth_list_update less_Suc_eq)
qed

lemma init_field_tables:
  assumes "length (rs_exp c) = MAX_POLYNOMIAL" "length (rs_log c) = MAX_PARITY + 1"
  shows "field_tables (init_field c)"
proof -
  obtain es ls where r: "fold rs8_round [0..<MAX_PARITY] (rs_exp c, rs_log c, 1) = (es, ls, ucast (gen_pow poly8 MAX_PARITY))"
    and len: "length es = MAX_POLYNOMIAL" and tab: "\<forall>i<MAX_PARITY. es ! i = gen_pow poly8 i \<and> ls ! unat (gen_pow poly8 i) = word_of_nat i"
    using rounds_tables [OF order_refl assms] by blast
  have cycle: "gen_pow poly8 (i + MAX_PARITY) = gen_pow poly8 i" for i
    using gen_pow_cycle(2) [OF poly8_generates, of "i + 255"] gen_pow_cycle(2) [OF poly8_generates, of i]
    by (simp add: MAX_PARITY_def)
  have "\<forall>i<MAX_POLYNOMIAL. fold (\<lambda>i es. es[i := es ! (i - MAX_PARITY)]) [MAX_PARITY..<MAX_POLYNOMIAL] es ! i = gen_pow poly8 i"
  proof (rule fold_copy [THEN conjunct2])
    show "es ! i = gen_pow poly8 i" if "i < MAX_PARITY" for i using tab that by blast
    show "MAX_PARITY \<le> MAX_POLYNOMIAL" "0 < MAX_PARITY" by (simp_all add: MAX_PARITY_def MAX_POLYNOMIAL_def)
  qed (use len cycle in simp_all)
  then show ?thesis using tab by (simp add: init_field_def r field_tables_def)
qed

section \<open>The field operations\<close>

lemma log_of_element:
  assumes "a \<noteq> 0" "field_tables c"
  obtains i where "i < MAX_PARITY" "a = gen_pow poly8 i" "unat (rs_log c ! unat a) = i"
proof -
  have "\<exists>k < 2 ^ LENGTH(8) - 1. gen_pow poly8 k = a" by (rule gen_pow_surj [OF poly8_generates assms(1)])
  then obtain i where i: "i < MAX_PARITY" "gen_pow poly8 i = a" by (auto simp: MAX_PARITY_def)
  then have "rs_log c ! unat a = word_of_nat i" using assms(2) by (auto simp: field_tables_def)
  moreover have "unat (word_of_nat i :: u16) = i"
    using i(1) by (simp add: unsigned_of_nat take_bit_nat_eq_self MAX_PARITY_def)
  ultimately show ?thesis using that i by metis
qed

lemma rs8_mul_is_clmul: "field_tables c \<Longrightarrow> rs8_mul c a b = clmul poly8 a b"
proof (cases "a = 0 \<or> b = 0")
  case False
  assume c: "field_tables c"
  obtain i where i: "i < MAX_PARITY" "a = gen_pow poly8 i" "unat (rs_log c ! unat a) = i"
    using log_of_element [OF _ c, of a] False by blast
  obtain j where j: "j < MAX_PARITY" "b = gen_pow poly8 j" "unat (rs_log c ! unat b) = j"
    using log_of_element [OF _ c, of b] False by blast
  have "unat (rs_log c ! unat a + rs_log c ! unat b) = i + j"
    using i(1,3) j(1,3) by (simp add: unat_word_ariths MAX_PARITY_def)
  moreover have "rs_exp c ! (i + j) = gen_pow poly8 (i + j)"
    using c i(1) j(1) by (simp add: field_tables_def MAX_POLYNOMIAL_def MAX_PARITY_def)
  ultimately show ?thesis using False i(2) j(2) by (simp add: rs8_mul_def gen_pow_add)
qed (auto simp: rs8_mul_def)

lemma exp_of_complement:
  assumes "field_tables c" "a \<noteq> 0"
  shows "clmul poly8 a (rs_exp c ! (MAX_PARITY - unat (rs_log c ! unat a))) = 1"
proof -
  obtain i where i: "i < MAX_PARITY" "a = gen_pow poly8 i" "unat (rs_log c ! unat a) = i"
    using log_of_element [OF assms(2,1)] by blast
  have "rs_exp c ! (MAX_PARITY - i) = gen_pow poly8 (MAX_PARITY - i)"
    using assms(1) by (simp add: field_tables_def MAX_POLYNOMIAL_def MAX_PARITY_def)
  moreover have "gen_pow poly8 MAX_PARITY = 1"
    using gen_pow_cycle(1) [OF poly8_generates, of 1] by (simp add: MAX_PARITY_def)
  ultimately show ?thesis using i by (simp flip: gen_pow_add)
qed

text \<open>The field of every coder, and the reciprocal as the decoder looks it up.\<close>

definition rs8_field :: rsc8 where
  "rs8_field = init_field \<lparr>rs_parity_size = 1, rs_exp = replicate MAX_POLYNOMIAL 0, rs_log = replicate (MAX_PARITY + 1) 0,
     rs_generator = []\<rparr>"

definition rs8_recip :: "byte \<Rightarrow> byte" where
  "rs8_recip a = rs_exp rs8_field ! (MAX_PARITY - unat (rs_log rs8_field ! unat a))"

lemma rs8_field_tables: "field_tables rs8_field"
  unfolding rs8_field_def by (rule init_field_tables) simp_all

interpretation gf8: binary_field "rs8_mul rs8_field" rs8_recip
proof
  fix a b c :: byte
  note clmul = rs8_mul_is_clmul [OF rs8_field_tables]
  show "rs8_mul rs8_field a b = rs8_mul rs8_field b a" by (simp add: clmul clmul_commute)
  show "rs8_mul rs8_field (rs8_mul rs8_field a b) c = rs8_mul rs8_field a (rs8_mul rs8_field b c)"
    by (simp add: clmul clmul_assoc)
  show "rs8_mul rs8_field 1 a = a" by (simp add: clmul clmul_one_left)
  show "rs8_mul rs8_field a (b XOR c) = rs8_mul rs8_field a b XOR rs8_mul rs8_field a c"
    by (simp add: clmul clmul_xor_right)
  show "a \<noteq> 0 \<Longrightarrow> rs8_mul rs8_field a (rs8_recip a) = 1"
    unfolding clmul rs8_recip_def by (rule exp_of_complement [OF rs8_field_tables])
qed

abbreviation gmul :: "byte \<Rightarrow> byte \<Rightarrow> byte" where "gmul \<equiv> rs8_mul rs8_field"

abbreviation alpha :: "nat \<Rightarrow> byte" where "alpha \<equiv> gen_pow poly8"

lemma mul_of_coder: "field_tables c \<Longrightarrow> rs8_mul c = gmul"
  by (intro ext) (simp add: rs8_mul_is_clmul rs8_field_tables)

lemma recip_of_coder: "field_tables c \<Longrightarrow> a \<noteq> 0 \<Longrightarrow> rs_exp c ! (MAX_PARITY - unat (rs_log c ! unat a)) = rs8_recip a"
  using exp_of_complement [of c a] gf8.mul_recip [of a] gf8.mul_cancel [of a]
  by (metis rs8_mul_is_clmul rs8_field_tables)

lemma exp_of_coder: "field_tables c \<Longrightarrow> i < MAX_POLYNOMIAL \<Longrightarrow> rs_exp c ! i = alpha i"
  by (simp add: field_tables_def)

lemma alpha_add: "gmul (alpha i) (alpha j) = alpha (i + j)"
  by (simp add: rs8_mul_is_clmul rs8_field_tables gen_pow_add)

lemma alpha_nonzero: "alpha i \<noteq> 0"
  by (rule gen_pow_nonzero [OF poly8_generates])

lemma alpha_mod: "alpha (i mod MAX_PARITY) = alpha i"
  using gen_pow_cycle(2) [OF poly8_generates, of i] by (simp add: MAX_PARITY_def)

lemma alpha_one: "alpha i = 1 \<longleftrightarrow> MAX_PARITY dvd i"
  using poly8_generates by (simp add: generates_def MAX_PARITY_def)

lemma alpha_inj: "alpha i = alpha j \<Longrightarrow> i < MAX_PARITY \<Longrightarrow> j < MAX_PARITY \<Longrightarrow> i = j"
  using gen_pow_inj [OF poly8_generates, of i j] by (simp add: MAX_PARITY_def)

lemma pow_alpha: "gf8.pow (alpha i) n = alpha (i * n)"
  by (induction n) (simp_all add: alpha_add)

lemma exp_mod: "field_tables c \<Longrightarrow> rs_exp c ! (n mod MAX_PARITY) = alpha n"
proof -
  assume "field_tables c"
  moreover have "n mod MAX_PARITY < MAX_POLYNOMIAL"
    using mod_less_divisor [of MAX_PARITY n] by (simp add: MAX_PARITY_def MAX_POLYNOMIAL_def)
  ultimately show ?thesis by (simp add: exp_of_coder alpha_mod)
qed

end
