(* ===== verification/Rs8Arrays.thy ===== *)
theory Rs8Arrays
  imports Rs8Code
begin

text \<open>
  The loops of the coder on its arrays, as the polynomials they compute: products, the generator,
  the shift register of the encoder, the locator of the erasures and the values at its roots.
\<close>

section \<open>Loops\<close>

lemma foldl_scale_xor: "foldl (\<lambda>acc i. acc XOR f i) a is = a XOR xsum (map f is)"
  by (induction "is" arbitrary: a) (simp_all add: xor.assoc)

lemma foldl_xor_zip:
  "foldl (\<lambda>acc (i, v). acc XOR f i v) a (zip [0..<length vs] vs) = a XOR xsum (map (\<lambda>i. f i (vs ! i)) [0..<length vs])"
proof -
  have "map (\<lambda>(i, v). f i v) (zip [0..<length vs] vs) = map (\<lambda>i. f i (vs ! i)) [0..<length vs]"
    by (rule nth_equalityI) auto
  moreover have "(\<lambda>acc (i, v). acc XOR f i v) = (\<lambda>acc p. acc XOR (case p of (i, v) \<Rightarrow> f i v))"
    by (auto intro!: ext)
  ultimately show ?thesis using foldl_scale_xor [of "\<lambda>(i, v). f i v" a "zip [0..<length vs] vs"] by simp
qed

text \<open>A loop downwards reads the entry below before it is changed.\<close>

lemma downward_loop:
  assumes "n \<le> length s"
  shows "length (fold (\<lambda>i s. s[i := F i (s ! i) (s ! (i - 1))]) (rev [1..<n]) s) = length s \<and>
    (\<forall>k<length s. fold (\<lambda>i s. s[i := F i (s ! i) (s ! (i - 1))]) (rev [1..<n]) s ! k =
      (if 1 \<le> k \<and> k < n then F k (s ! k) (s ! (k - 1)) else s ! k))"
  using assms
proof (induction n arbitrary: s)
  case (Suc n)
  show ?case
  proof (cases "n = 0")
    case False
    let ?s = "s[n := F n (s ! n) (s ! (n - 1))]"
    have "rev [1..<Suc n] = n # rev [1..<n]" using False by simp
    then show ?thesis using Suc.IH [of ?s] Suc.prems False by (auto simp: nth_list_update less_Suc_eq)
  qed simp
qed simp

lemma upward_xor_loop:
  assumes "d + n \<le> length out"
  shows "length (fold (\<lambda>i out. out[d + i := out ! (d + i) XOR g i]) [0..<n] out) = length out \<and>
    (\<forall>k<length out. fold (\<lambda>i out. out[d + i := out ! (d + i) XOR g i]) [0..<n] out ! k =
      (if d \<le> k \<and> k < d + n then out ! k XOR g (k - d) else (out ! k :: 'a::len word)))"
  using assms
proof (induction n)
  case (Suc n)
  then show ?case by (auto simp: nth_list_update)
qed auto

section \<open>Products\<close>

lemma get_or_zero_nth: "get_or_zero xs i = (if i < length xs then xs ! i else 0)"
  by (simp add: get_or_zero_def get_def)

lemma multiply_polynomials_nth:
  assumes "field_tables c" "k < rs_parity_size c"
  shows "multiply_polynomials c left right ! k = gf8.conv (get_or_zero left) (get_or_zero right) k"
    and "length (multiply_polynomials c left right) = rs_parity_size c"
proof -
  let ?m = "rs_parity_size c"
  let ?prod = "\<lambda>i k. gmul (get_or_zero left i) (get_or_zero right (k - i))"
  have loop: "length (fold (multiply_row c left right) [0..<n] (replicate ?m 0)) = ?m \<and>
      (\<forall>k<?m. fold (multiply_row c left right) [0..<n] (replicate ?m 0) ! k =
        xsum (map (\<lambda>i. if i \<le> k then ?prod i k else 0) [0..<n]))" if "n \<le> ?m" for n
    using that
  proof (induction n)
    case (Suc n)
    let ?out = "fold (multiply_row c left right) [0..<n] (replicate ?m 0)"
    have out: "length ?out = ?m" "\<forall>k<?m. ?out ! k = xsum (map (\<lambda>i. if i \<le> k then ?prod i k else 0) [0..<n])"
      using Suc by simp_all
    have "length (multiply_row c left right n ?out) = ?m \<and>
        (\<forall>k<?m. multiply_row c left right n ?out ! k = ?out ! k XOR (if n \<le> k then ?prod n k else 0))"
    proof (cases "get_or_zero left n = 0")
      case True
      then show ?thesis using out by (simp add: multiply_row_def gf8.mul_zero)
    next
      case False
      then have "left ! n = get_or_zero left n" by (simp add: get_or_zero_nth split: if_splits)
      then show ?thesis
        using out(1) Suc.prems False assms(1)
          upward_xor_loop [of n "?m - n" ?out "\<lambda>i. gmul (left ! n) (get_or_zero right i)"]
        by (auto simp: multiply_row_def mul_of_coder)
    qed
    then show ?case using out by (simp add: xsum_Suc del: upt_Suc) (simp add: xsum_Suc)
  qed simp
  have "xsum (map (\<lambda>i. if i \<le> k then ?prod i k else 0) [0..<?m]) = gf8.conv (get_or_zero left) (get_or_zero right) k"
  proof -
    have "[0..<?m] = [0..<Suc k] @ [Suc k..<?m]" using assms(2) upt_add_eq_append [of 0 "Suc k" "?m - Suc k"] by simp
    moreover have "xsum (map (\<lambda>i. if i \<le> k then ?prod i k else 0) [Suc k..<?m]) = 0" by (rule xsum_zero) auto
    moreover have "map (\<lambda>i. if i \<le> k then ?prod i k else 0) [0..<Suc k] = map (\<lambda>i. ?prod i k) [0..<Suc k]" by simp
    ultimately show ?thesis by (simp only: map_append xsum_append xor.right_neutral gf8.conv_def)
  qed
  then show "multiply_polynomials c left right ! k = gf8.conv (get_or_zero left) (get_or_zero right) k"
    "length (multiply_polynomials c left right) = ?m"
    using loop [of ?m] assms(2) by (simp_all add: multiply_polynomials_def)
qed

section \<open>The generator\<close>

definition roots :: "nat \<Rightarrow> byte list" where
  "roots n = map alpha (rev [1..<n + 1])"

definition rs8_coder :: "nat \<Rightarrow> rsc8 \<Rightarrow> bool" where
  "rs8_coder m c \<longleftrightarrow> rs_parity_size c = m \<and> 0 < m \<and> m \<le> MAX_PARITY \<and> field_tables c \<and>
     length (rs_generator c) = m \<and> (\<forall>k<m. rs_generator c ! k = gf8.monic (roots m) k)"

lemma conv_two:
  assumes "\<And>i. 2 \<le> i \<Longrightarrow> p i = 0"
  shows "gf8.conv p q k = gmul (p 0) (q k) XOR (case k of 0 \<Rightarrow> 0 | Suc j \<Rightarrow> gmul (p 1) (q j))"
proof (cases k)
  case 0
  then show ?thesis by (simp add: gf8.conv_def)
next
  case (Suc j)
  have "[0..<Suc k] = 0 # 1 # [2..<Suc k]" using Suc by (simp add: upt_conv_Cons numeral_2_eq_2)
  moreover have "xsum (map (\<lambda>i. gmul (p i) (q (k - i))) [2..<Suc k]) = 0"
    using assms by (intro xsum_zero) (auto simp: gf8.mul_zero)
  ultimately show ?thesis using Suc by (simp only: gf8.conv_def list.map xsum_Cons) simp
qed

lemma length_roots: "length (roots n) = n"
  by (simp add: roots_def)

lemma roots_Suc: "roots (Suc n) = alpha (Suc n) # roots n"
  by (simp add: roots_def)

lemma generator_rounds:
  assumes "rs_parity_size c = m" "0 < m" "m \<le> MAX_PARITY" "field_tables c" "t \<le> m"
  shows "\<exists>g current. fold generator_round [1..<t + 1] (c, (replicate m 0)[0 := 1]) = (c\<lparr>rs_generator := g\<rparr>, current) \<and>
    length current = m \<and> (\<forall>k<m. current ! k = gf8.monic (roots t) k) \<and> (0 < t \<longrightarrow> g = current)"
  using assms(5)
proof (induction t)
  case 0
  show ?case
    using assms(2) by (intro exI [of _ "rs_generator c"] exI [of _ "(replicate m 0)[0 := 1]"]) (auto simp: roots_def nth_list_update)
next
  case (Suc t)
  then obtain g current where IH: "fold generator_round [1..<t + 1] (c, (replicate m 0)[0 := 1]) = (c\<lparr>rs_generator := g\<rparr>, current)"
    and cur: "length current = m" "\<forall>k<m. current ! k = gf8.monic (roots t) k" by auto
  let ?c = "c\<lparr>rs_generator := g\<rparr>"
  let ?factor = "if 1 < m then (replicate m 0)[0 := alpha (Suc t), 1 := 1] else (replicate m 0)[0 := alpha (Suc t)]"
  let ?next = "multiply_polynomials ?c ?factor current"
  have tables: "field_tables ?c" using assms(4) by (simp add: field_tables_def)
  have "Suc t < MAX_POLYNOMIAL" using Suc.prems assms(3) by (simp add: MAX_PARITY_def MAX_POLYNOMIAL_def)
  then have root: "rs_exp c ! Suc t = alpha (Suc t)" using assms(4) by (simp add: exp_of_coder)
  have factor: "get_or_zero ?factor i = (if i = 0 then alpha (Suc t) else if i = 1 \<and> 1 < m then 1 else 0)" for i
    using assms(2) by (auto simp: get_or_zero_nth nth_list_update)
  have "[1..<Suc t + 1] = [1..<t + 1] @ [Suc t]" by simp
  then have run: "fold generator_round [1..<Suc t + 1] (c, (replicate m 0)[0 := 1]) = (c\<lparr>rs_generator := ?next\<rparr>, ?next)"
    using IH root assms(1) by (simp add: generator_round_def Let_def)
  moreover have "?next ! k = gf8.monic (roots (Suc t)) k" if k: "k < m" for k
  proof -
    have "?next ! k = gf8.conv (get_or_zero ?factor) (get_or_zero current) k"
      using multiply_polynomials_nth(1) [OF tables] k assms(1) by simp
    also have "\<dots> = gmul (alpha (Suc t)) (get_or_zero current k) XOR
        (case k of 0 \<Rightarrow> 0 | Suc j \<Rightarrow> gmul (if 1 < m then 1 else 0) (get_or_zero current j))"
      by (subst conv_two) (simp_all only: factor, simp_all)
    also have "\<dots> = gf8.monic (roots (Suc t)) k"
      using cur k by (cases k) (auto simp: roots_Suc get_or_zero_nth gf8.mul_one)
    finally show ?thesis .
  qed
  moreover have "length ?next = m"
    using multiply_polynomials_nth(2) [OF tables, of 0] assms(1,2) by simp
  ultimately show ?case by blast
qed

lemma rsc8_new_coder: "rsc8_new m = Inr c \<Longrightarrow> rs8_coder m c"
proof -
  assume new: "rsc8_new m = Inr c"
  let ?blank = "\<lparr>rs_parity_size = m, rs_exp = replicate MAX_POLYNOMIAL 0, rs_log = replicate (MAX_PARITY + 1) 0,
      rs_generator = replicate m 0\<rparr>"
  have m: "0 < m" "m \<le> MAX_PARITY" and c: "c = init_generator (init_field ?blank)"
    using new by (auto simp: rsc8_new_def split: if_splits)
  have size: "rs_parity_size (init_field ?blank) = m" by (simp add: init_field_def split: prod.splits)
  have tables: "field_tables (init_field ?blank)" by (rule init_field_tables) simp_all
  obtain g current where run: "fold generator_round [1..<m + 1] (init_field ?blank, (replicate m 0)[0 := 1]) =
      ((init_field ?blank)\<lparr>rs_generator := g\<rparr>, current)"
    and g: "length g = m" "\<forall>k<m. g ! k = gf8.monic (roots m) k"
    using generator_rounds [OF size m tables order_refl] m(1) by auto
  have "c = (init_field ?blank)\<lparr>rs_generator := g\<rparr>" unfolding c init_generator_def size run by simp
  then show ?thesis using g m size tables by (simp add: rs8_coder_def field_tables_def)
qed

lemma rsc8_new_ok: "0 < m \<Longrightarrow> m \<le> MAX_PARITY \<Longrightarrow> \<exists>c. rsc8_new m = Inr c"
  by (simp add: rsc8_new_def)

lemma generator_reduces:
  assumes "rs8_coder m c" "1 \<le> j" "j \<le> m"
  shows "gf8.peval m (\<lambda>i. rs_generator c ! i) (alpha j) = alpha (j * m)"
proof -
  have "alpha j \<in> set (roots m)" using assms(2,3) by (cases "j = m") (auto simp: roots_def)
  then have "gf8.peval m (gf8.monic (roots m)) (alpha j) = alpha (j * m)"
    using gf8.monic_reduces [of "alpha j" "roots m"] by (simp add: pow_alpha length_roots)
  moreover have "gf8.peval m (\<lambda>i. rs_generator c ! i) x = gf8.peval m (gf8.monic (roots m)) x" for x
    unfolding gf8.peval_def using assms(1) by (intro arg_cong [where f = xsum] map_cong refl) (simp add: rs8_coder_def)
  ultimately show ?thesis by simp
qed

section \<open>Encoding\<close>

text \<open>A word as a polynomial with its first symbol on top, by Horner's rule.\<close>

definition heval :: "byte \<Rightarrow> byte list \<Rightarrow> byte" where
  "heval r w = foldl (\<lambda>acc b. b XOR gmul r acc) 0 w"

lemma heval_from: "foldl (\<lambda>acc b. b XOR gmul r acc) a w = gmul (gf8.pow r (length w)) a XOR heval r w"
proof (induction w rule: rev_induct)
  case (snoc b w)
  then show ?case by (simp add: heval_def gf8.mul_xor gf8.mul_assoc word_xor_ac)
qed (simp add: heval_def gf8.mul_one)

lemma heval_simps: "heval r [] = 0" "heval r (b # w) = gmul (gf8.pow r (length w)) b XOR heval r w"
  "heval r (v @ w) = gmul (gf8.pow r (length w)) (heval r v) XOR heval r w"
  using heval_from [of r b w] heval_from [of r "heval r v" w] by (simp_all add: heval_def gf8.mul_zero)

lemma heval_descending: "heval r (map (\<lambda>i. g (n - i - 1)) [0..<n]) = gf8.peval n g r"
proof (induction n)
  case (Suc n)
  have "map (\<lambda>i. g (Suc n - i - 1)) [0..<Suc n] = g n # map (\<lambda>i. g (n - i - 1)) [0..<n]"
    by (simp add: upt_conv_Cons map_Suc_upt [symmetric] comp_def del: upt_Suc)
  then show ?case using Suc by (simp add: heval_simps gf8.peval_Suc gf8.mul_commute word_xor_ac)
qed (simp add: heval_simps)

lemma peval_xor: "gf8.peval n (\<lambda>i. f i XOR g i) x = gf8.peval n f x XOR gf8.peval n g x"
  by (simp add: gf8.peval_def gf8.mul_xor_left xsum_map_xor)

lemma peval_scale: "gf8.peval n (\<lambda>i. gmul (g i) k) x = gmul k (gf8.peval n g x)"
  unfolding gf8.peval_def gf8.mul_xsum
  by (intro arg_cong [where f = xsum] map_cong refl) (simp add: gf8.mul_commute [of _ k] gf8.mul_assoc)

lemma peval_cong: "(\<And>i. i < n \<Longrightarrow> f i = g i) \<Longrightarrow> gf8.peval n f x = gf8.peval n g x"
  unfolding gf8.peval_def by (intro arg_cong [where f = xsum] map_cong refl) simp

lemma peval_shifted: "gf8.peval (Suc n) (\<lambda>i. case i of 0 \<Rightarrow> 0 | Suc j \<Rightarrow> g j) x = gmul x (gf8.peval n g x)"
proof (induction n)
  case (Suc n)
  have "gf8.peval (Suc (Suc n)) (\<lambda>i. case i of 0 \<Rightarrow> 0 | Suc j \<Rightarrow> g j) x =
      gmul x (gf8.peval n g x) XOR gmul (g n) (gf8.pow x (Suc n))"
    using Suc by (simp add: gf8.peval_Suc [of "Suc n"])
  then show ?case by (simp add: gf8.peval_Suc gf8.mul_xor gf8.mul_left_commute)
qed (simp add: gf8.peval_Suc gf8.mul_zero)

lemma encode_byte_value:
  assumes "rs8_coder m c" "length shift = m + 1" "1 \<le> j" "j \<le> m"
  shows "length (encode_byte c b shift) = m + 1"
    and "gf8.peval m ((!) (encode_byte c b shift)) (alpha j) =
      gmul (alpha j) (gf8.peval m ((!) shift) (alpha j)) XOR gmul b (alpha (j * m))"
proof -
  have m: "rs_parity_size c = m" "0 < m" "field_tables c" using assms(1) by (simp_all add: rs8_coder_def)
  then obtain n where n: "m = Suc n" by (cases m) auto
  let ?f = "b XOR shift ! n" and ?x = "alpha j"
  let ?loop = "fold (\<lambda>i s. s[i := s ! (i - 1) XOR gmul (rs_generator c ! i) ?f]) (rev [1..<m]) shift"
  let ?prev = "\<lambda>i. case i of 0 \<Rightarrow> 0 | Suc j \<Rightarrow> shift ! j"
  have step: "encode_byte c b shift = ?loop[0 := gmul (rs_generator c ! 0) ?f]"
    using m n by (simp add: encode_byte_def Let_def mul_of_coder)
  have loop: "length ?loop = m + 1" "\<forall>k<m + 1. ?loop ! k = (if 1 \<le> k \<and> k < m then shift ! (k - 1) XOR gmul (rs_generator c ! k) ?f else shift ! k)"
    using downward_loop [of m shift "\<lambda>i _ below. below XOR gmul (rs_generator c ! i) ?f"] assms(2) by simp_all
  then show "length (encode_byte c b shift) = m + 1" by (simp add: step)
  have "encode_byte c b shift ! i = ?prev i XOR gmul (rs_generator c ! i) ?f" if "i < m" for i
    using loop that by (cases i) (auto simp: step nth_list_update)
  then have "gf8.peval m ((!) (encode_byte c b shift)) ?x = gf8.peval m (\<lambda>i. ?prev i XOR gmul (rs_generator c ! i) ?f) ?x"
    by (rule peval_cong)
  also have "\<dots> = gf8.peval m ?prev ?x XOR gmul ?f (gf8.peval m ((!) (rs_generator c)) ?x)"
    by (simp only: peval_xor peval_scale)
  also have "gf8.peval m ((!) (rs_generator c)) ?x = alpha (j * m)"
    using generator_reduces [OF assms(1,3,4)] .
  also have "gf8.peval m ?prev ?x = gmul ?x (gf8.peval n ((!) shift) ?x)" unfolding n by (rule peval_shifted)
  also have "gmul ?x (gf8.peval n ((!) shift) ?x) = gmul ?x (gf8.peval m ((!) shift) ?x) XOR gmul (shift ! n) (alpha (j * m))"
    by (simp add: n gf8.peval_Suc gf8.mul_xor pow_alpha gf8.mul_left_commute [of ?x] alpha_add xor.assoc)
  finally show "gf8.peval m ((!) (encode_byte c b shift)) ?x = gmul ?x (gf8.peval m ((!) shift) ?x) XOR gmul b (alpha (j * m))"
    by (simp add: gf8.mul_xor_left word_xor_ac)
qed

lemma encode_bytes_value:
  assumes "rs8_coder m c" "1 \<le> j" "j \<le> m"
  shows "length (fold (encode_byte c) data (replicate (m + 1) 0)) = m + 1 \<and>
    gf8.peval m ((!) (fold (encode_byte c) data (replicate (m + 1) 0))) (alpha j) = gmul (alpha (j * m)) (heval (alpha j) data)"
proof (induction data rule: rev_induct)
  case Nil
  have "gf8.peval m ((!) (replicate (m + 1) 0)) (alpha j) = 0"
    unfolding gf8.peval_def by (rule xsum_zero) (auto simp: gf8.mul_zero nth_Cons split: nat.splits)
  then show ?case by (simp add: heval_simps gf8.mul_zero)
next
  case (snoc b data)
  let ?s = "fold (encode_byte c) data (replicate (m + 1) 0)"
  have "heval (alpha j) (data @ [b]) = gmul (alpha j) (heval (alpha j) data) XOR b"
    by (simp add: heval_simps gf8.mul_one gf8.mul_one_right)
  then show ?case
    using encode_byte_value [OF assms(1) _ assms(2,3), of ?s b] snoc
    by (simp add: gf8.mul_xor gf8.mul_left_commute gf8.mul_commute [of b])
qed

definition codeword_ok :: "nat \<Rightarrow> byte list \<Rightarrow> bool" where
  "codeword_ok m w \<longleftrightarrow> (\<forall>j. 1 \<le> j \<and> j \<le> m \<longrightarrow> heval (alpha j) w = 0)"

lemma encoded_codeword:
  assumes "rs8_coder m c"
  shows "codeword_ok m (data @ rs8_encode c data)" "length (rs8_encode c data) = m"
proof -
  have m: "rs_parity_size c = m" using assms by (simp add: rs8_coder_def)
  let ?s = "fold (encode_byte c) data (replicate (m + 1) 0)"
  have enc: "rs8_encode c data = map (\<lambda>i. ?s ! (m - i - 1)) [0..<m]" by (simp add: rs8_encode_def m)
  show len: "length (rs8_encode c data) = m" by (simp add: enc)
  show "codeword_ok m (data @ rs8_encode c data)"
    unfolding codeword_ok_def
  proof (intro allI impI)
    fix j assume j: "1 \<le> j \<and> j \<le> m"
    have "heval (alpha j) (rs8_encode c data) = gmul (alpha (j * m)) (heval (alpha j) data)"
      unfolding enc heval_descending using encode_bytes_value [OF assms, of j data] j by simp
    then show "heval (alpha j) (data @ rs8_encode c data) = 0"
      by (simp add: heval_simps len pow_alpha)
  qed
qed

lemma syndromes_heval:
  assumes "rs8_coder m c"
  shows "rs8_syndromes c w = map (\<lambda>i. heval (alpha (i + 1)) w) [0..<m]"
proof -
  have "rs_exp c ! (i + 1) = alpha (i + 1)" if "i < m" for i
    using assms that by (simp add: rs8_coder_def exp_of_coder MAX_PARITY_def MAX_POLYNOMIAL_def)
  then show ?thesis
    using assms by (auto simp: rs8_syndromes_def rs8_coder_def mul_of_coder heval_def intro!: map_cong)
qed

end
