(* ===== verification/Rs8Restore.thy ===== *)
theory Rs8Restore
  imports Rs8Arrays
begin

text \<open>
  The erasure decoder restores an encoded word from the symbols that survive: its loops compute the
  locator, the evaluator and the formal derivative, whose quotients are the errors (Forney). The
  longest codeword is the exception the decoder has: its last symbol cannot be restored.
\<close>

section \<open>Syndromes of the errors\<close>

lemma xsum_remove1: "x \<in> set xs \<Longrightarrow> xsum (map f xs) = f x XOR xsum (map f (remove1 x xs))"
  by (induction xs) (auto simp: xor.left_commute)

lemma xsum_support:
  "distinct xs \<Longrightarrow> distinct ys \<Longrightarrow> set ys \<subseteq> set xs \<Longrightarrow> (\<And>x. x \<in> set xs \<Longrightarrow> x \<notin> set ys \<Longrightarrow> f x = 0) \<Longrightarrow>
   xsum (map f xs) = xsum (map f ys)"
proof (induction ys arbitrary: xs)
  case Nil
  then show ?case by (auto intro!: xsum_zero)
next
  case (Cons y ys)
  have y: "y \<in> set xs" "y \<notin> set ys" using Cons.prems by auto
  have "xsum (map f (remove1 y xs)) = xsum (map f ys)" using Cons.prems y by (intro Cons.IH) auto
  then show ?case using xsum_remove1 [OF y(1), of f] by simp
qed

lemma heval_sum: "heval r w = xsum (map (\<lambda>i. gmul (w ! i) (gf8.pow r (length w - 1 - i))) [0..<length w])"
proof (induction w rule: rev_induct)
  case (snoc b w)
  have "heval r (w @ [b]) = gmul r (heval r w) XOR b" by (simp add: heval_simps gf8.mul_one_right gf8.mul_one)
  also have "gmul r (heval r w) = xsum (map (\<lambda>i. gmul ((w @ [b]) ! i) (gf8.pow r (length (w @ [b]) - 1 - i))) [0..<length w])"
    unfolding snoc gf8.mul_xsum
  proof (intro arg_cong [where f = xsum] map_cong refl)
    fix i assume "i \<in> set [0..<length w]"
    then have "length (w @ [b]) - 1 - i = Suc (length w - 1 - i)" "i < length w" by auto
    then show "gmul r (gmul (w ! i) (gf8.pow r (length w - 1 - i))) =
        gmul ((w @ [b]) ! i) (gf8.pow r (length (w @ [b]) - 1 - i))"
      by (simp add: nth_append gf8.mul_left_commute)
  qed
  finally show ?case by (simp add: gf8.mul_one_right)
qed (simp add: heval_simps)

lemma syndromes_of_errors:
  assumes "length w = length v" "codeword_ok m v" "distinct es" "\<forall>e\<in>set es. e < length v"
    and "\<And>i. i < length v \<Longrightarrow> i \<notin> set es \<Longrightarrow> w ! i = v ! i" "k < m"
  shows "heval (alpha (k + 1)) w =
    xsum (map (\<lambda>e. gmul (w ! e XOR v ! e) (gf8.pow (alpha (length v - 1 - e)) (Suc k))) es)"
proof -
  let ?n = "length v" and ?x = "alpha (k + 1)"
  have "heval ?x v = 0" using assms(2,6) by (simp add: codeword_ok_def)
  then have "heval ?x w = heval ?x w XOR heval ?x v" by simp
  also have "\<dots> = xsum (map (\<lambda>i. gmul (w ! i XOR v ! i) (gf8.pow ?x (?n - 1 - i))) [0..<?n])"
    unfolding heval_sum assms(1) by (simp only: xsum_map_xor gf8.mul_xor_left)
  also have "\<dots> = xsum (map (\<lambda>i. gmul (w ! i XOR v ! i) (gf8.pow ?x (?n - 1 - i))) es)"
    using assms(3-5) by (intro xsum_support) (auto simp: gf8.mul_zero)
  finally have sum: "heval ?x w = xsum (map (\<lambda>i. gmul (w ! i XOR v ! i) (gf8.pow ?x (?n - 1 - i))) es)" .
  have "gf8.pow ?x (?n - 1 - i) = gf8.pow (alpha (?n - 1 - i)) (Suc k)" for i
    by (simp only: pow_alpha) (simp add: mult.commute)
  then show ?thesis using sum by (simp only:)
qed

section \<open>The locator and its roots\<close>

definition locators :: "nat \<Rightarrow> nat list \<Rightarrow> byte list" where
  "locators n es = map (\<lambda>e. alpha (n - 1 - e)) es"

lemma locators_distinct:
  assumes "distinct es" "\<forall>e\<in>set es. e < n" "n \<le> MAX_PARITY"
  shows "distinct (locators n es)"
proof -
  have "inj_on (\<lambda>e. alpha (n - 1 - e)) (set es)"
  proof (rule inj_onI)
    fix d e assume de: "d \<in> set es" "e \<in> set es" "alpha (n - 1 - d) = alpha (n - 1 - e)"
    then have "n - 1 - d = n - 1 - e" using assms(2,3) by (intro alpha_inj) (auto simp: MAX_PARITY_def)
    moreover have "d < n" "e < n" using assms(2) de(1,2) by auto
    ultimately show "d = e" by linarith
  qed
  then show ?thesis using assms(1) by (simp add: locators_def distinct_map)
qed

lemma erasure_locator_nth:
  assumes "rs8_coder m c" "\<forall>e\<in>set es. e < n" "n \<le> MAX_PARITY"
  shows "length (erasure_locator c n es) = m + 1 \<and>
    (\<forall>k\<le>m. erasure_locator c n es ! k = gf8.locator (locators n (rev es)) k)"
  using assms(2)
proof (induction es rule: rev_induct)
  case Nil
  have "rs_parity_size c = m" using assms(1) by (simp add: rs8_coder_def)
  then show ?case by (auto simp: erasure_locator_def locators_def nth_Cons split: nat.splits)
next
  case (snoc e es)
  let ?loc = "erasure_locator c n es" and ?x = "alpha (n - 1 - e)"
  have m: "rs_parity_size c = m" "field_tables c" using assms(1) by (simp_all add: rs8_coder_def)
  have loc: "length ?loc = m + 1" "\<forall>k\<le>m. ?loc ! k = gf8.locator (locators n (rev es)) k" using snoc by simp_all
  have "rs_exp c ! (n - e - 1) = ?x"
    using m(2) assms(3) by (subst exp_of_coder) (auto simp: MAX_PARITY_def MAX_POLYNOMIAL_def)
  then have step: "erasure_locator c n (es @ [e]) =
      fold (\<lambda>i s. s[i := s ! i XOR gmul ?x (s ! (i - 1))]) (rev [1..<m + 1]) ?loc"
    by (simp add: erasure_locator_def locator_step_def m mul_of_coder Let_def)
  have out: "length (erasure_locator c n (es @ [e])) = m + 1"
    "\<forall>k<m + 1. erasure_locator c n (es @ [e]) ! k =
       (if 1 \<le> k \<and> k < m + 1 then ?loc ! k XOR gmul ?x (?loc ! (k - 1)) else ?loc ! k)"
    using downward_loop [of "m + 1" ?loc "\<lambda>_ here below. here XOR gmul ?x below", OF eq_imp_le [OF loc(1) [symmetric]]]
    unfolding step loc(1) by blast+
  have "locators n (rev (es @ [e])) = ?x # locators n (rev es)" by (simp add: locators_def)
  moreover have "erasure_locator c n (es @ [e]) ! k = gf8.lin ?x (gf8.locator (locators n (rev es))) k" if "k \<le> m" for k
    using out(2) loc(2) that by (cases k) auto
  ultimately show ?case using out(1) by simp
qed

lemma value_at_root_eq:
  assumes "rs8_coder m c"
  shows "value_at_root c loc root = gf8.peval (length loc) ((!) loc) (alpha root)"
proof -
  have "rs_exp c ! ((i * root) mod MAX_PARITY) = gf8.pow (alpha root) i" for i
    using assms by (simp add: rs8_coder_def exp_mod pow_alpha mult.commute)
  then show ?thesis
    using assms by (simp add: value_at_root_def foldl_xor_zip gf8.peval_def rs8_coder_def mul_of_coder gf8.mul_commute)
qed

lemma error_numerator_eq:
  assumes "rs8_coder m c"
  shows "error_numerator c ev d = gf8.peval (length ev) ((!) ev) (alpha d)"
proof -
  have "rs_exp c ! ((d * i) mod MAX_PARITY) = gf8.pow (alpha d) i" for i
    using assms by (simp add: rs8_coder_def exp_mod pow_alpha)
  then show ?thesis
    using assms by (simp add: error_numerator_def foldl_xor_zip gf8.peval_def rs8_coder_def mul_of_coder)
qed

lemma xsum_filter: "xsum (map f (filter P xs)) = xsum (map (\<lambda>i. if P i then f i else 0) xs)"
  by (induction xs) simp_all

lemma root_denominator_eq:
  assumes "rs8_coder m c"
  shows "root_denominator c loc root =
    xsum (map (\<lambda>i. if odd i then gmul (loc ! i) (gf8.pow (alpha root) (i - 1)) else 0) [0..<Suc m])"
proof -
  have m: "rs_parity_size c = m" "field_tables c" using assms by (simp_all add: rs8_coder_def)
  have "rs_exp c ! ((root * (i - 1)) mod MAX_PARITY) = gf8.pow (alpha root) (i - 1)" for i
    using m(2) by (simp add: exp_mod pow_alpha)
  moreover have "[0..<Suc m] = 0 # [1..<m + 1]" by (simp add: upt_conv_Cons)
  ultimately show ?thesis
    by (simp add: root_denominator_def foldl_scale_xor xsum_filter m mul_of_coder del: upt_Suc cong: if_cong)
qed

text \<open>
  In the range that is searched the roots are the inverses of the locators, one for each erasure,
  unless the codeword has its full length and its last symbol is erased.
\<close>

definition last_of_full :: "nat \<Rightarrow> nat list \<Rightarrow> bool" where
  "last_of_full n es \<longleftrightarrow> n = MAX_PARITY \<and> n - 1 \<in> set es"

lemma inverse_in_range:
  assumes "n \<le> MAX_PARITY" "e < n" "MAX_PARITY - n \<le> root" "root \<le> MAX_PARITY" "\<not> (n = MAX_PARITY \<and> e = n - 1)"
  shows "gmul (alpha (n - 1 - e)) (alpha root) = 1 \<longleftrightarrow> root = MAX_PARITY + 1 - n + e"
proof -
  have "gmul (alpha (n - 1 - e)) (alpha root) = 1 \<longleftrightarrow> 255 dvd (n - 1 - e + root)"
    by (simp add: alpha_add alpha_one MAX_PARITY_def)
  also have "\<dots> \<longleftrightarrow> n - 1 - e + root = 255"
  proof
    assume "255 dvd n - 1 - e + root"
    then obtain k where k: "n - 1 - e + root = 255 * k" by (auto elim: dvdE)
    moreover have "n - 1 - e + root < 255 * 2" using assms by (simp add: MAX_PARITY_def)
    ultimately have "k < 2" by simp
    moreover have "k \<noteq> 0"
    proof
      assume "k = 0"
      then have "root = 0" "e = n - 1" using k assms(2) by simp_all
      then show False using assms by simp
    qed
    ultimately show "n - 1 - e + root = 255" using k by (simp add: less_2_cases_iff)
  qed simp
  also have "\<dots> \<longleftrightarrow> root = MAX_PARITY + 1 - n + e" using assms(1,2) by (auto simp: MAX_PARITY_def)
  finally show ?thesis .
qed


lemma roots_found:
  assumes "rs8_coder m c" "distinct es" "\<forall>e\<in>set es. e < n" "n \<le> MAX_PARITY" "length es \<le> m" "\<not> last_of_full n es"
  shows "\<exists>ds. error_locations c (erasure_locator c n es) n =
      map (\<lambda>e. (n - 1 - e, root_denominator c (erasure_locator c n es) (MAX_PARITY - (n - 1 - e)))) ds \<and>
    distinct ds \<and> set ds = set es"
proof -
  let ?loc = "erasure_locator c n es" and ?as = "locators n (rev es)"
  let ?root = "\<lambda>e. MAX_PARITY + 1 - n + e"
  have loc: "length ?loc = m + 1" "\<forall>k\<le>m. ?loc ! k = gf8.locator ?as k"
    using erasure_locator_nth [OF assms(1,3,4)] by simp_all
  have at: "value_at_root c ?loc root = 0 \<longleftrightarrow> root \<in> ?root ` set es" if "MAX_PARITY - n \<le> root" "root \<le> MAX_PARITY" for root
  proof -
    have "value_at_root c ?loc root = gf8.peval (m + 1) (gf8.locator ?as) (alpha root)"
      unfolding value_at_root_eq [OF assms(1)] loc(1) using loc(2) by (intro peval_cong) simp
    also have "\<dots> = gf8.factors_at ?as (alpha root)"
      using assms(5) by (intro gf8.peval_locator) (simp add: locators_def)
    finally have "value_at_root c ?loc root = 0 \<longleftrightarrow> (\<exists>e\<in>set es. gmul (alpha (n - 1 - e)) (alpha root) = 1)"
      by (simp add: gf8.factors_at_0 locators_def)
    also have "\<dots> \<longleftrightarrow> (\<exists>e\<in>set es. root = ?root e)"
    proof (rule bex_cong [OF refl])
      fix e assume "e \<in> set es"
      then show "gmul (alpha (n - 1 - e)) (alpha root) = 1 \<longleftrightarrow> root = ?root e"
        using assms(3,4,6) that by (intro inverse_in_range) (auto simp: last_of_full_def)
    qed
    finally show ?thesis by auto
  qed
  define rs where "rs = filter (\<lambda>root. value_at_root c ?loc root = 0) [MAX_PARITY - n..<MAX_PARITY + 1]"
  have rs: "distinct rs" "set rs = ?root ` set es"
  proof -
    have "?root e \<in> {MAX_PARITY - n..<MAX_PARITY + 1}" if "e \<in> set es" for e
      using assms(3,4) that by (auto simp: MAX_PARITY_def)
    then have "?root ` set es \<subseteq> {MAX_PARITY - n..<MAX_PARITY + 1}" by blast
    moreover have "set rs = {MAX_PARITY - n..<MAX_PARITY + 1} \<inter> ?root ` set es"
      unfolding rs_def set_filter set_upt using at by (intro set_eqI) (simp add: less_Suc_eq_le cong: conj_cong)
    ultimately show "set rs = ?root ` set es" by blast
  qed (simp add: rs_def)
  let ?ds = "map (\<lambda>root. root - (MAX_PARITY + 1 - n)) rs"
  have origin: "root = ?root (root - (MAX_PARITY + 1 - n))" "root - (MAX_PARITY + 1 - n) \<in> set es" if "root \<in> set rs" for root
    using that rs(2) by auto
  have "inj_on (\<lambda>root. root - (MAX_PARITY + 1 - n)) (set rs)" using rs(2) by (auto intro!: inj_onI)
  then have "distinct ?ds" using rs(1) by (simp add: distinct_map)
  moreover have "set ?ds = set es" by (simp add: rs(2) image_image)
  moreover have "error_locations c ?loc n =
      map (\<lambda>e. (n - 1 - e, root_denominator c ?loc (MAX_PARITY - (n - 1 - e)))) ?ds"
    unfolding error_locations_def rs_def [symmetric] map_map
  proof (rule map_cong [OF refl])
    fix root assume "root \<in> set rs"
    then have "root = ?root (root - (MAX_PARITY + 1 - n))" "root - (MAX_PARITY + 1 - n) < n"
      using origin [of root] assms(3) by auto
    then have "MAX_PARITY - root = n - 1 - (root - (MAX_PARITY + 1 - n))"
      "MAX_PARITY - (n - 1 - (root - (MAX_PARITY + 1 - n))) = root"
      using assms(4) by linarith+
    then show "(MAX_PARITY - root, root_denominator c ?loc root) =
        ((\<lambda>e. (n - 1 - e, root_denominator c ?loc (MAX_PARITY - (n - 1 - e)))) \<circ> (\<lambda>root. root - (MAX_PARITY + 1 - n))) root"
      by (simp only: o_apply)
  qed
  ultimately show ?thesis by blast
qed

section \<open>The corrections\<close>

lemma fold_at_positions:
  assumes "distinct ds" "\<forall>e\<in>set ds. e < length w"
  shows "length (fold (\<lambda>e w. w[e := w ! e XOR y e]) ds w) = length w \<and>
    (\<forall>i<length w. fold (\<lambda>e w. w[e := w ! e XOR y e]) ds w ! i = (if i \<in> set ds then w ! i XOR y i else (w ! i :: byte)))"
  using assms
proof (induction ds arbitrary: w)
  case (Cons e ds)
  then show ?case using Cons.IH [of "w[e := w ! e XOR y e]"] by (auto simp: nth_list_update)
qed simp

lemma correct_locations_fold:
  assumes "rs8_coder m c" "\<forall>e\<in>set ds. e < length w \<and> d e \<noteq> 0"
    and "\<forall>e\<in>set ds. gmul (error_numerator c ev (MAX_PARITY - (length w - 1 - e))) (rs8_recip (d e)) = y e"
  shows "correct_locations c ev (map (\<lambda>e. (length w - 1 - e, d e)) ds) w = Inr (fold (\<lambda>e w. w[e := w ! e XOR y e]) ds w)"
  using assms(2,3)
proof (induction ds arbitrary: w)
  case (Cons e ds)
  have c: "field_tables c" using assms(1) by (simp add: rs8_coder_def)
  have e: "e < length w" "d e \<noteq> 0" using Cons.prems(1) by simp_all
  then have "length w - (length w - 1 - e + 1) = e" "\<not> length w < length w - 1 - e + 1" by simp_all
  moreover have "correct_locations c ev (map (\<lambda>e. (length w - 1 - e, d e)) ds) (w[e := w ! e XOR y e]) =
      Inr (fold (\<lambda>e w. w[e := w ! e XOR y e]) ds (w[e := w ! e XOR y e]))"
    using Cons.IH [of "w[e := w ! e XOR y e]"] Cons.prems by simp
  ultimately show ?case using e(2) Cons.prems(2) by (simp add: recip_of_coder [OF c e(2)] mul_of_coder [OF c] Let_def)
qed simp

lemma conv_cong: "(\<And>i. i \<le> k \<Longrightarrow> p i = p' i) \<Longrightarrow> (\<And>i. i \<le> k \<Longrightarrow> q i = q' i) \<Longrightarrow> gf8.conv p q k = gf8.conv p' q' k"
  unfolding gf8.conv_def by (intro arg_cong [where f = xsum] map_cong refl) (simp del: upt_Suc)

text \<open>The numerator and the denominator at an erasure, for the errors between two words.\<close>

lemma quotient_is_error:
  assumes "rs8_coder m c" "length w = n" "length v = n" "codeword_ok m v" "distinct es" "\<forall>e\<in>set es. e < n"
    and "n \<le> MAX_PARITY" "length es \<le> m" "e \<in> set es"
    and "\<And>i. i < n \<Longrightarrow> i \<notin> set es \<Longrightarrow> w ! i = v ! i"
  defines "loc \<equiv> erasure_locator c n es" and "root \<equiv> MAX_PARITY - (n - 1 - e)"
  shows "\<exists>q. q \<noteq> 0 \<and> root_denominator c loc root = q \<and>
    error_numerator c (multiply_polynomials c loc (rs8_syndromes c w)) root = gmul (w ! e XOR v ! e) q"
proof -
  let ?as = "locators n (rev es)" and ?a = "alpha (n - 1 - e)" and ?z = "alpha root"
  let ?synd = "\<lambda>k. heval (alpha (k + 1)) w"
  let ?ev = "multiply_polynomials c loc (rs8_syndromes c w)"
  define err where "err b = (let e = inv_into (set es) (\<lambda>e. alpha (n - 1 - e)) b in w ! e XOR v ! e)" for b
  have m: "rs_parity_size c = m" "field_tables c" "0 < m" using assms(1) by (simp_all add: rs8_coder_def)
  have loc: "length loc = m + 1" "\<forall>k\<le>m. loc ! k = gf8.locator ?as k"
    using erasure_locator_nth [OF assms(1,6,7)] by (simp_all add: loc_def)
  have as: "distinct ?as" "length ?as \<le> m" "?a \<in> set ?as"
    using locators_distinct [of "rev es" n] assms(5-9) by (simp_all add: locators_def)
  have inj: "inj_on (\<lambda>e. alpha (n - 1 - e)) (set es)"
    using locators_distinct [OF assms(5,6,7)] by (simp add: locators_def distinct_map)
  have err: "err (alpha (n - 1 - i)) = w ! i XOR v ! i" if "i \<in> set es" for i
    using inv_into_f_f [OF inj that] by (simp add: err_def)
  have "root < MAX_PARITY + 1" "n - 1 - e + root = MAX_PARITY"
    using assms(6,7,9) by (auto simp: root_def)
  then have inv: "gmul ?a ?z = 1" by (simp add: alpha_add alpha_one)
  have synd: "?synd k = xsum (map (\<lambda>b. gmul (err b) (gf8.pow b (Suc k))) ?as)" if "k < m" for k
  proof -
    have "?synd k = xsum (map (\<lambda>e. gmul (w ! e XOR v ! e) (gf8.pow (alpha (n - 1 - e)) (Suc k))) (rev es))"
      using syndromes_of_errors [of w v m "rev es" k] assms(2-6,10) that by simp
    also have "\<dots> = xsum (map (\<lambda>b. gmul (err b) (gf8.pow b (Suc k))) ?as)"
      unfolding locators_def map_map by (intro arg_cong [where f = xsum] map_cong refl) (simp only: o_apply err set_rev)
    finally show ?thesis .
  qed
  have "?ev ! k = gf8.conv (gf8.locator ?as) ?synd k" if k: "k < m" for k
  proof -
    have "?ev ! k = gf8.conv (get_or_zero loc) (get_or_zero (rs8_syndromes c w)) k"
      using multiply_polynomials_nth(1) [OF m(2)] k m(1) by simp
    also have "\<dots> = gf8.conv (gf8.locator ?as) ?synd k"
      using loc k by (intro conv_cong) (simp_all add: get_or_zero_nth syndromes_heval [OF assms(1)])
    finally show ?thesis .
  qed
  moreover have "length ?ev = m" using multiply_polynomials_nth(2) [OF m(2), of 0] m by simp
  ultimately have "error_numerator c ?ev root = gf8.peval m (gf8.conv (gf8.locator ?as) ?synd) ?z"
    unfolding error_numerator_eq [OF assms(1)] by (auto intro!: peval_cong)
  also have "\<dots> = gmul (err ?a) (gmul ?a (gf8.factors_at (remove1 ?a ?as) ?z))"
    by (rule gf8.evaluator_value [OF as inv synd])
  finally have num: "error_numerator c ?ev root = gmul (w ! e XOR v ! e) (gmul ?a (gf8.factors_at (remove1 ?a ?as) ?z))"
    using err [OF assms(9)] by simp
  have "root_denominator c loc root =
      xsum (map (\<lambda>i. if odd i then gmul (gf8.locator ?as i) (gf8.pow ?z (i - 1)) else 0) [0..<Suc m])"
    unfolding root_denominator_eq [OF assms(1)] using loc(2)
    by (intro arg_cong [where f = xsum] map_cong refl) (auto simp del: gf8.locator.simps)
  also have "\<dots> = gmul ?a (gf8.factors_at (remove1 ?a ?as) ?z)"
    by (rule gf8.derivative_value [OF as(2,3) inv])
  finally have "root_denominator c loc root = gmul ?a (gf8.factors_at (remove1 ?a ?as) ?z)" .
  moreover have "gmul ?a (gf8.factors_at (remove1 ?a ?as) ?z) \<noteq> 0"
    using gf8.other_factors_nonzero [OF as(1,3) inv] alpha_nonzero by (simp add: gf8.mul_eq_0)
  ultimately show ?thesis using num by blast
qed

section \<open>Restoring a codeword\<close>

lemma correct_erasures_restores:
  assumes "rs8_coder m c" "length w = n" "length v = n" "codeword_ok m v" "distinct es" "\<forall>e\<in>set es. e < n"
    and "0 < n" "n \<le> MAX_PARITY" "length es \<le> m" "\<not> last_of_full n es"
    and "\<And>i. i < n \<Longrightarrow> i \<notin> set es \<Longrightarrow> w ! i = v ! i"
  shows "correct_erasures c w es = Inr v"
proof -
  let ?loc = "erasure_locator c n es" and ?synd = "rs8_syndromes c w"
  let ?ev = "multiply_polynomials c ?loc ?synd" and ?d = "\<lambda>e. root_denominator c ?loc (MAX_PARITY - (n - 1 - e))"
  have m: "rs_parity_size c = m" using assms(1) by (simp add: rs8_coder_def)
  have quot: "?d e \<noteq> 0 \<and> error_numerator c ?ev (MAX_PARITY - (n - 1 - e)) = gmul (w ! e XOR v ! e) (?d e)" if "e \<in> set es" for e
    using quotient_is_error [OF assms(1-6,8,9) that assms(11)] by auto
  have zero: "w = v" if "list_all (\<lambda>s. s = 0) ?synd"
  proof -
    have "?synd = replicate m 0"
      using that by (intro nth_equalityI) (auto simp: list_all_length rs8_syndromes_def m)
    moreover have "multiply_polynomials c ?loc (replicate m 0) = replicate m 0"
    proof (rule nth_equalityI)
      have tables: "field_tables c" "0 < m" using assms(1) by (simp_all add: rs8_coder_def)
      then show len: "length (multiply_polynomials c ?loc (replicate m 0)) = length (replicate m (0 :: byte))"
        using multiply_polynomials_nth(2) [of c 0] m by simp
      show "multiply_polynomials c ?loc (replicate m 0) ! i = replicate m 0 ! i"
        if "i < length (multiply_polynomials c ?loc (replicate m 0))" for i
        using that len m multiply_polynomials_nth(1) [OF tables(1), of i ?loc "replicate m 0"]
        by (auto simp: gf8.conv_def get_or_zero_nth gf8.mul_zero if_distrib [of "gmul x" for x] cong: if_cong intro!: xsum_zero)
    qed
    ultimately have "error_numerator c ?ev r = 0" for r
      unfolding error_numerator_eq [OF assms(1)] gf8.peval_def by (auto intro!: xsum_zero simp: gf8.mul_zero)
    then have "w ! e = v ! e" if "e \<in> set es" for e using quot [OF that] by (auto simp: gf8.mul_eq_0 xor_eq_0_word)
    then show "w = v" using assms(2,3,11) by (metis nth_equalityI)
  qed
  obtain ds where ds: "error_locations c ?loc n = map (\<lambda>e. (n - 1 - e, ?d e)) ds" "distinct ds" "set ds = set es"
    using roots_found [OF assms(1,5,6,8,9,10)] by blast
  have count: "length ds = length es" using ds(2,3) assms(5) by (metis distinct_card)
  have "es \<noteq> []" if "\<not> list_all (\<lambda>s. s = 0) ?synd"
  proof
    assume "es = []"
    then have "w = v" using assms(2,3,11) by (auto intro: nth_equalityI)
    then show False using that assms(4) by (auto simp: syndromes_heval [OF assms(1)] list_all_iff codeword_ok_def)
  qed
  moreover have "correct_locations c ?ev (map (\<lambda>e. (n - 1 - e, ?d e)) ds) w = Inr v"
  proof -
    have "gmul (error_numerator c ?ev (MAX_PARITY - (n - 1 - e))) (rs8_recip (?d e)) = w ! e XOR v ! e" if "e \<in> set ds" for e
      using quot [of e] that ds(3) by (simp add: gf8.mul_assoc gf8.mul_recip gf8.mul_one_right)
    then have "correct_locations c ?ev (map (\<lambda>e. (length w - 1 - e, ?d e)) ds) w =
        Inr (fold (\<lambda>e u. u[e := u ! e XOR (w ! e XOR v ! e)]) ds w)"
      using correct_locations_fold [OF assms(1), of ds w ?d ?ev "\<lambda>e. w ! e XOR v ! e"] assms(2,6) ds(3) quot by simp
    moreover have "fold (\<lambda>e u. u[e := u ! e XOR (w ! e XOR v ! e)]) ds w = v"
      using fold_at_positions [of ds w "\<lambda>e. w ! e XOR v ! e"] assms(2,3,6,11) ds(2,3) by (auto intro!: nth_equalityI)
    ultimately show ?thesis using assms(2) by simp
  qed
  ultimately show ?thesis
    using assms(2,6-9) m zero count ds(1)
    by (auto simp: correct_erasures_def list_ex_iff Let_def)
qed

lemma heval_zeros: "heval r (replicate k 0) = 0"
  by (induction k) (simp_all add: heval_simps gf8.mul_zero)

text \<open>C4: A column of data symbols and their parity symbols is restored from the symbols that
  survive: whatever stands at the erased positions, at most as many as there are parity symbols, data or
  parity, in any order, the decoder returns the column as it was encoded. The last symbol of a column of
  255 is the only one excluded.\<close>

theorem rs8_restores:
  assumes "rsc8_new m = Inr c" "v = data @ rs8_encode c data" "length v \<le> MAX_CODEWORD" "length w = length v"
    and "distinct es" "list_all (\<lambda>e. e < length v) es" "length es \<le> m"
    and "\<not> (length v = MAX_CODEWORD \<and> MAX_CODEWORD - 1 \<in> set es)"
    and "list_all (\<lambda>i. i \<in> set es \<or> w ! i = v ! i) [0..<length v]"
  shows "correct_erasures c w es = Inr v"
proof -
  have c: "rs8_coder m c" by (rule rsc8_new_coder [OF assms(1)])
  have "codeword_ok m v" unfolding assms(2) by (rule encoded_codeword(1) [OF c])
  moreover have "0 < length v" using encoded_codeword(2) [OF c, of data] c by (simp add: assms(2) rs8_coder_def)
  ultimately show ?thesis
    using assms(3-9) by (intro correct_erasures_restores [OF c]) (auto simp: list_all_iff last_of_full_def MAX_CODEWORD_def)
qed

theorem rs8_restores_witness:
  "\<exists>c. rsc8_new 2 = Inr c \<and>
     correct_erasures c ([7, 2, 0] @ rs8_encode c [1, 2, 3]) [2, 0] = Inr ([1, 2, 3] @ rs8_encode c [1, 2, 3])"
proof -
  obtain c where c: "rsc8_new 2 = Inr c" using rsc8_new_ok [of 2] by (auto simp: MAX_PARITY_def)
  have len: "length (rs8_encode c [1, 2, 3]) = 2" by (rule encoded_codeword(2) [OF rsc8_new_coder [OF c]])
  have "correct_erasures c ([7, 2, 0] @ rs8_encode c [1, 2, 3]) [2, 0] = Inr ([1, 2, 3] @ rs8_encode c [1, 2, 3])"
    by (rule rs8_restores [OF c refl])
      (simp_all add: len MAX_CODEWORD_def MAX_PARITY_def numeral_eq_Suc)
  then show ?thesis using c by blast
qed

text \<open>
  The case left out: the longest codeword the format allows with its last symbol erased. The search for
  the roots meets that symbol twice, at both ends of its range, and the decoder gives up as soon as a
  syndrome shows any damage.
\<close>

lemma rs8_full_codeword_fails:
  assumes "rsc8_new m = Inr c" "length w = MAX_CODEWORD" "length es \<le> m" "list_all (\<lambda>e. e < MAX_CODEWORD) es"
    and "MAX_CODEWORD - 1 \<in> set es" "\<not> list_all (\<lambda>s. s = 0) (rs8_syndromes c w)"
  shows "correct_erasures c w es = Inl DecodeFailed"
proof -
  let ?loc = "erasure_locator c MAX_PARITY es"
  have c: "rs8_coder m c" by (rule rsc8_new_coder [OF assms(1)])
  have es: "\<forall>e\<in>set es. e < MAX_PARITY" using assms(4) by (simp add: list_all_iff MAX_CODEWORD_def)
  have loc: "length ?loc = m + 1" "\<forall>k\<le>m. ?loc ! k = gf8.locator (locators MAX_PARITY (rev es)) k"
    using erasure_locator_nth [OF c es] by simp_all
  have "value_at_root c ?loc 0 = gf8.peval (m + 1) (gf8.locator (locators MAX_PARITY (rev es))) (alpha 0)"
    unfolding value_at_root_eq [OF c] loc(1) using loc(2) by (intro peval_cong) simp
  also have "\<dots> = gf8.factors_at (locators MAX_PARITY (rev es)) (alpha 0)"
    using assms(3) by (intro gf8.peval_locator) (simp add: locators_def)
  also have "\<dots> = 0"
    using assms(5) by (auto simp: gf8.factors_at_0 locators_def MAX_CODEWORD_def gf8.mul_one intro!: bexI [of _ "MAX_PARITY - 1"])
  finally have root: "value_at_root c ?loc 0 = 0" .
  have "[MAX_PARITY - MAX_PARITY..<MAX_PARITY + 1] = 0 # [1..<MAX_PARITY + 1]" by (simp add: upt_conv_Cons)
  then obtain rest where rest: "error_locations c ?loc MAX_PARITY = (MAX_PARITY, root_denominator c ?loc 0) # rest"
    using root by (simp add: error_locations_def del: upt_Suc)
  have "correct_locations c ev ((MAX_PARITY, d) # rest) w = Inl DecodeFailed" for ev d
    using assms(2) by (simp add: MAX_CODEWORD_def)
  then show ?thesis
    using assms(2-6) c rest by (auto simp: correct_erasures_def Let_def MAX_CODEWORD_def rs8_coder_def list_ex_iff list_all_iff)
qed

lemma rs8_full_codeword_fails_example:
  "\<exists>c. rsc8_new 1 = Inr c \<and> correct_erasures c (replicate 254 0 @ [1]) [254] = Inl DecodeFailed"
proof -
  obtain c where c: "rsc8_new 1 = Inr c" using rsc8_new_ok [of 1] by (auto simp: MAX_PARITY_def)
  have "rs8_syndromes c (replicate 254 0 @ [1]) = [1]"
    by (simp add: syndromes_heval [OF rsc8_new_coder [OF c]] heval_simps heval_zeros gf8.mul_zero gf8.mul_one)
  then have "correct_erasures c (replicate 254 0 @ [1]) [254] = Inl DecodeFailed"
    by (intro rs8_full_codeword_fails [OF c]) (simp_all add: MAX_CODEWORD_def MAX_PARITY_def)
  then show ?thesis using c by blast
qed

end
