(* ===== verification/Rs8Locate.thy ===== *)
theory Rs8Locate
  imports Rs8Restore
begin

text \<open>
  The search for unknown errors: the Berlekamp-Massey loop keeps a shortest recurrence for the
  syndromes it has read, which after all of them is the locator of the errors when these are at most
  half the parity symbols; the Chien search then finds exactly their positions.
\<close>

section \<open>One round of the loop\<close>

text \<open>
  The state after \<open>n\<close> syndromes: the locator is a recurrence for them; the polynomial saved
  last failed \<open>bm_shift\<close> rounds ago with the discrepancy saved.
\<close>

definition bm_ok :: "(nat \<Rightarrow> byte) \<Rightarrow> nat \<Rightarrow> nat \<Rightarrow> bm_state \<Rightarrow> bool" where
  "bm_ok s e n st \<longleftrightarrow>
     gf8.recurrence (get_or_zero (bm_locator st)) (bm_degree st) s n \<and> bm_degree st \<le> n \<and> bm_degree st \<le> e \<and>
     bm_degree st < length (bm_locator st) \<and> bm_discrepancy st \<noteq> 0 \<and> 1 \<le> bm_shift st \<and>
     (\<exists>l. n + 1 = bm_degree st + bm_shift st + l \<and> (\<forall>i>l. get_or_zero (bm_previous st) i = 0) \<and> l < length (bm_previous st) \<and>
       (\<forall>k. l \<le> k \<and> k + bm_shift st < n \<longrightarrow> gf8.conv (get_or_zero (bm_previous st)) s k = 0) \<and>
       (bm_shift st \<le> n \<longrightarrow> gf8.conv (get_or_zero (bm_previous st)) s (n - bm_shift st) = bm_discrepancy st))"

lemma bm_init_ok: "bm_ok s e 0 bm_init"
  by (auto simp: bm_ok_def bm_init_def gf8.recurrence_def get_or_zero_nth)

lemma discrepancy_conv:
  assumes "rs8_coder m c" "bm_ok s e n st" "n < length syn" "\<And>k. k < length syn \<Longrightarrow> syn ! k = s k"
  shows "bm_discrepancy_at c syn st n = gf8.conv (get_or_zero (bm_locator st)) s n"
proof -
  let ?p = "get_or_zero (bm_locator st)" and ?l = "bm_degree st"
  have l: "?l \<le> n" "?l < length (bm_locator st)" and p: "?p 0 = 1" "\<forall>i>?l. ?p i = 0"
    using assms(2) by (simp_all add: bm_ok_def gf8.recurrence_def)
  have "gf8.conv ?p s n = xsum (map (\<lambda>j. gmul (?p j) (s (n - j))) (0 # [1..<?l + 1]))"
    using gf8.conv_short [OF p(2) l(1)] by (simp add: upt_conv_Cons del: upt_Suc)
  also have "\<dots> = s n XOR xsum (map (\<lambda>j. gmul (bm_locator st ! j) (syn ! (n - j))) [1..<?l + 1])"
  proof -
    have "gmul (?p j) (s (n - j)) = gmul (bm_locator st ! j) (syn ! (n - j))" if "j \<in> set [1..<?l + 1]" for j
      using that l assms(3,4) by (auto simp: get_or_zero_nth)
    then have "map (\<lambda>j. gmul (?p j) (s (n - j))) [1..<?l + 1] = map (\<lambda>j. gmul (bm_locator st ! j) (syn ! (n - j))) [1..<?l + 1]"
      by (intro map_cong refl)
    then show ?thesis by (simp only: list.map xsum_Cons p(1) gf8.mul_one diff_zero)
  qed
  also have "\<dots> = bm_discrepancy_at c syn st n"
    using assms(1,3,4) by (simp add: bm_discrepancy_at_def foldl_scale_xor rs8_coder_def mul_of_coder)
  finally show ?thesis by simp
qed

lemma bm_adjust_coefficients:
  fixes d :: byte
  assumes "rs8_coder m c" "bm_discrepancy st \<noteq> 0"
  defines "out \<equiv> bm_adjust c d st" and "scale \<equiv> gmul d (rs8_recip (bm_discrepancy st))"
  shows "length out = max (length (bm_locator st)) (length (bm_previous st) + bm_shift st)"
    and "get_or_zero out = (\<lambda>i. get_or_zero (bm_locator st) i XOR
      (if bm_shift st \<le> i then gmul scale (get_or_zero (bm_previous st) (i - bm_shift st)) else 0))"
proof -
  let ?loc = "bm_locator st" and ?q = "bm_previous st" and ?sh = "bm_shift st"
  let ?long = "if length ?loc < length ?q + ?sh then ?loc @ replicate (length ?q + ?sh - length ?loc) 0 else ?loc"
  have c: "field_tables c" using assms(1) by (simp add: rs8_coder_def)
  have out: "out = fold (\<lambda>i loc. loc[?sh + i := loc ! (?sh + i) XOR gmul scale (?q ! i)]) [0..<length ?q] ?long"
    using recip_of_coder [OF c assms(2)] by (simp add: out_def scale_def bm_adjust_def Let_def mul_of_coder [OF c] add.commute)
  have fits: "?sh + length ?q \<le> length ?long" by simp
  have len: "length ?long = max (length ?loc) (length ?q + ?sh)" by simp
  note loop = upward_xor_loop [OF fits, of "\<lambda>i. gmul scale (?q ! i)", folded out]
  show "length out = max (length ?loc) (length ?q + ?sh)" using loop len by simp
  have long: "get_or_zero ?long i = get_or_zero ?loc i" for i by (auto simp: get_or_zero_nth nth_append)
  show "get_or_zero out = (\<lambda>i. get_or_zero ?loc i XOR (if ?sh \<le> i then gmul scale (get_or_zero ?q (i - ?sh)) else 0))"
  proof
    fix i
    show "get_or_zero out i = get_or_zero ?loc i XOR (if ?sh \<le> i then gmul scale (get_or_zero ?q (i - ?sh)) else 0)"
    proof (cases "i < length out")
      case True
      then have "get_or_zero out i = ?long ! i XOR (if ?sh \<le> i \<and> i < ?sh + length ?q then gmul scale (?q ! (i - ?sh)) else 0)"
        using loop by (simp add: get_or_zero_nth)
      moreover have "?long ! i = get_or_zero ?loc i" using True loop long [of i] by (simp add: get_or_zero_nth)
      ultimately show ?thesis by (auto simp: get_or_zero_nth gf8.mul_zero)
    next
      case False
      then show ?thesis using loop len by (auto simp: get_or_zero_nth gf8.mul_zero)
    qed
  qed
qed

lemma bm_step_ok:
  assumes "rs8_coder m c" "bm_ok s e n st" "n < length syn" "\<And>k. k < length syn \<Longrightarrow> syn ! k = s k"
    and q: "\<And>n. gf8.recurrence true_loc e s n"
  shows "bm_ok s e (Suc n) (bm_step c syn n st)"
proof -
  let ?p = "get_or_zero (bm_locator st)" and ?q = "get_or_zero (bm_previous st)"
  let ?l = "bm_degree st" and ?sh = "bm_shift st" and ?b = "bm_discrepancy st"
  let ?d = "bm_discrepancy_at c syn st n" and ?out = "bm_adjust c (bm_discrepancy_at c syn st n) st"
  obtain lb where rec: "gf8.recurrence ?p ?l s n" "?l \<le> n" "?l \<le> e" "?l < length (bm_locator st)" "?b \<noteq> 0" "1 \<le> ?sh"
    and lb: "n + 1 = ?l + ?sh + lb" "\<forall>i>lb. ?q i = 0" "lb < length (bm_previous st)"
    and old: "\<forall>k. lb \<le> k \<and> k + ?sh < n \<longrightarrow> gf8.conv ?q s k = 0" "?sh \<le> n \<longrightarrow> gf8.conv ?q s (n - ?sh) = ?b"
    using assms(2) unfolding bm_ok_def by blast
  have d: "?d = gf8.conv ?p s n" by (rule discrepancy_conv [OF assms(1-4)])
  have p: "?p 0 = 1" "\<forall>i>?l. ?p i = 0" "\<And>k. ?l \<le> k \<Longrightarrow> k < n \<Longrightarrow> gf8.conv ?p s k = 0"
    using rec(1) by (auto simp: gf8.recurrence_def)
  show ?thesis
  proof (cases "?d = 0")
    case True
    then have "gf8.recurrence ?p ?l s (Suc n)" using rec(1) d by (auto simp: gf8.recurrence_def less_Suc_eq)
    moreover have "\<forall>k. lb \<le> k \<and> k + (?sh + 1) < Suc n \<longrightarrow> gf8.conv ?q s k = 0" using old(1) by simp
    moreover have "?sh + 1 \<le> Suc n \<longrightarrow> gf8.conv ?q s (Suc n - (?sh + 1)) = ?b" using old(2) by simp
    moreover have "?l + lb - Suc 0 = n - ?sh" using lb(1) by simp
    ultimately show ?thesis using rec lb True by (auto simp: bm_step_def bm_ok_def Let_def intro!: exI [of _ lb])
  next
    case False
    let ?new = "max ?l (n + 1 - ?l)" and ?r = "get_or_zero ?out"
    let ?scale = "gmul ?d (rs8_recip ?b)"
    have massey: "n + 1 - ?l \<le> e" using gf8.massey [OF rec(1) q rec(2)] False d by simp
    have r: "?r = (\<lambda>i. ?p i XOR (if ?sh \<le> i then gmul ?scale (?q (i - ?sh)) else 0))"
      and len: "length ?out = max (length (bm_locator st)) (length (bm_previous st) + ?sh)"
      using bm_adjust_coefficients [OF assms(1) rec(5)] by blast+
    have "gf8.recurrence ?r ?new s (Suc n)"
      unfolding gf8.recurrence_def
    proof (intro conjI allI impI)
      show "?r 0 = 1" using rec(6) p(1) by (simp add: r)
      show "?r i = 0" if "?new < i" for i
      proof -
        have "lb < i - ?sh" using that lb(1) by linarith
        then show ?thesis using that p(2) lb(2) by (simp add: r gf8.mul_zero)
      qed
      fix k assume k: "?new \<le> k \<and> k < Suc n"
      have conv: "gf8.conv ?r s k = gf8.conv ?p s k XOR (if ?sh \<le> k then gmul ?scale (gf8.conv ?q s (k - ?sh)) else 0)"
        unfolding r by (rule gf8.conv_shifted)
      show "gf8.conv ?r s k = 0"
      proof (cases "k = n")
        case False
        moreover have "gf8.conv ?q s (k - ?sh) = 0" if "?sh \<le> k"
        proof -
          have "lb \<le> k - ?sh \<and> k - ?sh + ?sh < n" using k lb(1) False that by linarith
          then show ?thesis using old(1) by blast
        qed
        ultimately show ?thesis using k p(3) [of k] by (simp add: conv gf8.mul_zero)
      next
        case True
        have "gmul ?scale ?b = ?d"
          using gf8.mul_recip [OF rec(5)] by (simp add: gf8.mul_assoc gf8.mul_commute [of "rs8_recip ?b"] gf8.mul_one_right)
        moreover have sh: "?sh \<le> k" using k True lb(1) by simp
        moreover have "gf8.conv ?q s (k - ?sh) = ?b" using sh old(2) True by simp
        moreover have "gf8.conv ?p s k = ?d" using True d by simp
        ultimately show ?thesis by (simp only: conv if_True xor_self_eq)
      qed
    qed
    moreover have "?new < length ?out" unfolding len using rec(4) lb(1,3) by linarith
    ultimately have new: "gf8.recurrence ?r ?new s (Suc n)" "?new \<le> Suc n" "?new \<le> e" "?new < length ?out"
      using rec(2,3) massey by simp_all
    show ?thesis
    proof (cases "2 * ?l \<le> n")
      case True
      then have max: "?new = n + 1 - ?l" by simp
      have step: "bm_step c syn n st = \<lparr>bm_locator = ?out, bm_previous = bm_locator st, bm_degree = n + 1 - ?l, bm_shift = 1, bm_discrepancy = ?d\<rparr>"
        using True False by (simp add: bm_step_def Let_def)
      show ?thesis
        unfolding bm_ok_def step using new [unfolded max] rec(2,4) p(2,3) d False
        by (auto intro!: exI [of _ ?l])
    next
      case twice: False
      then have max: "?new = ?l" by simp
      have step: "bm_step c syn n st = st\<lparr>bm_locator := ?out, bm_shift := ?sh + 1\<rparr>"
        using twice False by (simp add: bm_step_def Let_def)
      have "?l + lb - Suc 0 = n - ?sh" using lb(1) by simp
      then have "?sh + 1 \<le> Suc n \<longrightarrow> gf8.conv ?q s (?l + lb - Suc 0) = ?b" using old(2) by simp
      with old(1) have old': "\<forall>k. lb \<le> k \<and> k + ?sh < n \<longrightarrow> gf8.conv ?q s k = 0"
        "?sh + 1 \<le> Suc n \<longrightarrow> gf8.conv ?q s (?l + lb - Suc 0) = ?b" by blast+
      show ?thesis
        unfolding bm_ok_def step using new [unfolded max] rec(5) lb old'
        by (auto intro!: exI [of _ lb])
    qed
  qed
qed

lemma bm_loop_ok:
  assumes "rs8_coder m c" "\<And>k. k < length syn \<Longrightarrow> syn ! k = s k" "\<And>n. gf8.recurrence true_loc e s n" "n \<le> length syn"
  shows "bm_ok s e n (fold (bm_step c syn) [0..<n] bm_init)"
  using assms(4)
proof (induction n)
  case (Suc n)
  then show ?case using bm_step_ok [OF assms(1) _ _ assms(2,3)] by simp
qed (simp add: bm_init_ok)

section \<open>The positions\<close>

lemma chien_value_eq:
  assumes "rs8_coder m c" "n \<le> MAX_PARITY" "i < n"
  shows "chien_value c loc n i = gf8.peval (length loc) ((!) loc) (alpha (MAX_PARITY + i + 1 - n))"
proof -
  let ?x = "alpha (MAX_PARITY + i + 1 - n)"
  have c: "field_tables c" using assms(1) by (simp add: rs8_coder_def)
  have rev_loc: "rev loc = map (\<lambda>i. loc ! (length loc - i - 1)) [0..<length loc]"
    by (rule nth_equalityI) (simp_all add: rev_nth)
  have "chien_value c loc n i = foldl (\<lambda>acc v. gmul acc ?x XOR v) 0 (rev loc)"
    by (simp add: chien_value_def exp_mod [OF c] mul_of_coder [OF c])
  also have "\<dots> = heval ?x (rev loc)"
    unfolding heval_def by (simp only: gf8.mul_commute [of _ ?x] xor.commute)
  also have "\<dots> = gf8.peval (length loc) ((!) loc) ?x"
    unfolding rev_loc by (rule heval_descending)
  finally show ?thesis .
qed

lemma locates_codeword:
  assumes "rs8_coder m c" "codeword_ok m v" "length v \<le> MAX_PARITY" "length w = length v"
    and "ds = filter (\<lambda>i. w ! i \<noteq> v ! i) [0..<length v]" "ds \<noteq> []" "2 * length ds \<le> m"
  shows "locate_errors c (rs8_syndromes c w) (length w) = Inr ds"
proof -
  let ?n = "length v" and ?syn = "rs8_syndromes c w" and ?as = "locators (length v) ds"
  have c: "rs8_coder m c" and ok: "codeword_ok m v" using assms(1,2) by simp_all
  have n: "?n \<le> MAX_PARITY" "0 < ?n" using assms(3,5,6) by auto
  have ds: "distinct ds" "\<forall>e\<in>set ds. e < ?n" by (simp_all add: assms(5))
  have as: "distinct ?as" "length ?as = length ds" using locators_distinct [OF ds n(1)] by (simp_all add: locators_def)
  have inj: "inj_on (\<lambda>e. alpha (?n - 1 - e)) (set ds)" using as(1) by (simp add: locators_def distinct_map)
  define err where "err b = (let e = inv_into (set ds) (\<lambda>e. alpha (?n - 1 - e)) b in w ! e XOR v ! e)" for b
  have err: "err (alpha (?n - 1 - e)) = w ! e XOR v ! e" if "e \<in> set ds" for e
    using inv_into_f_f [OF inj that] by (simp add: err_def)
  define s where "s k = xsum (map (\<lambda>b. gmul (err b) (gf8.pow b (Suc k))) ?as)" for k
  have len: "length ?syn = m" by (simp add: syndromes_heval [OF c])
  have syn: "?syn ! k = s k" if "k < length ?syn" for k
  proof -
    have "?syn ! k = xsum (map (\<lambda>e. gmul (w ! e XOR v ! e) (gf8.pow (alpha (?n - 1 - e)) (Suc k))) ds)"
      using syndromes_of_errors [OF assms(4) ok ds, of k] that len by (simp add: syndromes_heval [OF c] assms(5))
    also have "\<dots> = s k"
      unfolding s_def locators_def map_map by (intro arg_cong [where f = xsum] map_cong refl) (simp only: o_apply err)
    finally show ?thesis .
  qed
  have rec: "gf8.recurrence (gf8.locator ?as) (length ds) s k" for k
    using gf8.locator_recurrence [of s err ?as k] as(2) by (simp add: s_def)
  define st where "st = fold (bm_step c ?syn) [0..<m] bm_init"
  let ?l = "bm_degree st" and ?p = "get_or_zero (bm_locator st)"
  have "bm_ok s (length ds) m st"
    unfolding st_def using bm_loop_ok [OF c syn rec, of m] len by simp
  then have st: "gf8.recurrence ?p ?l s m" "?l \<le> length ds" "?l < length (bm_locator st)" by (simp_all add: bm_ok_def)
  have nonzero: "b \<noteq> 0 \<and> err b \<noteq> 0" if "b \<in> set ?as" for b
    using that err by (auto simp: locators_def alpha_nonzero xor_eq_0_word assms(5))
  have "\<And>k. k < m \<Longrightarrow> s k = xsum (map (\<lambda>b. gmul (err b) (gf8.pow b (Suc k))) ?as)" by (simp add: s_def)
  note short = gf8.short_recurrence_roots [OF as(1) nonzero this st(1), unfolded as(2), OF _ _ st(2) assms(7)]
  have l: "?l = length ds" by (rule short(1)) simp_all
  have "chien_value c (take (?l + 1) (bm_locator st)) ?n i = 0 \<longleftrightarrow> i \<in> set ds" if i: "i < ?n" for i
  proof -
    let ?z = "alpha (MAX_PARITY + i + 1 - ?n)"
    have inv: "gmul (alpha (?n - 1 - i)) ?z = 1"
      using i n(1) by (simp add: alpha_add alpha_one)
    have "chien_value c (take (?l + 1) (bm_locator st)) ?n i = gf8.peval (Suc ?l) ?p ?z"
      unfolding chien_value_eq [OF c n(1) i] using st(3) by (auto simp: get_or_zero_nth intro!: peval_cong)
    also have "\<dots> = 0 \<longleftrightarrow> alpha (?n - 1 - i) \<in> set ?as" by (rule short(2) [OF _ _ inv]) simp_all
    also have "\<dots> \<longleftrightarrow> i \<in> set ds"
    proof
      assume "alpha (?n - 1 - i) \<in> set ?as"
      then obtain e where e: "e \<in> set ds" "alpha (?n - 1 - i) = alpha (?n - 1 - e)" by (auto simp: locators_def)
      then have "?n - 1 - i = ?n - 1 - e" using n i by (intro alpha_inj) auto
      moreover have "e < ?n" using e(1) ds(2) by blast
      ultimately have "i = e" using i by linarith
      then show "i \<in> set ds" using e(1) by simp
    qed (simp add: locators_def)
    finally show ?thesis .
  qed
  then have "filter (\<lambda>i. chien_value c (take (?l + 1) (bm_locator st)) ?n i = 0) [0..<?n] = filter (\<lambda>i. i \<in> set ds) [0..<?n]"
    by (intro filter_cong) simp_all
  also have "\<dots> = ds" by (subst (2) assms(5)) (auto simp: assms(5) intro!: filter_cong)
  finally have pos: "filter (\<lambda>i. chien_value c (take (?l + 1) (bm_locator st)) ?n i = 0) [0..<?n] = ds" .
  have "rs_parity_size c = m" "0 < length ds" using c assms(6) by (simp_all add: rs8_coder_def)
  moreover from this(2) have "2 \<le> m" using assms(7) by linarith
  ultimately show ?thesis
    using assms(4,7) n len l pos by (simp add: locate_errors_def st_def [symmetric] Let_def)
qed

text \<open>C3: Errors at unknown positions are found: if the word differs from an encoded one in at
  least one and at most half as many places as there are parity symbols, the search returns exactly the
  positions where it differs, in ascending order.\<close>

theorem rs8_locates:
  assumes "rsc8_new m = Inr c" "v = data @ rs8_encode c data" "length v \<le> MAX_CODEWORD" "length w = length v"
    and "ds = filter (\<lambda>i. w ! i \<noteq> v ! i) [0..<length v]" "ds \<noteq> []" "2 * length ds \<le> m"
  shows "locate_errors c (rs8_syndromes c w) (length w) = Inr ds"
  using assms(3-7) unfolding assms(2) MAX_CODEWORD_def
  by (intro locates_codeword [OF rsc8_new_coder [OF assms(1)] encoded_codeword(1) [OF rsc8_new_coder [OF assms(1)]]])

theorem rs8_locates_witness:
  "\<exists>c. rsc8_new 2 = Inr c \<and> locate_errors c (rs8_syndromes c ([1, 9, 3] @ rs8_encode c [1, 2, 3])) 5 = Inr [1]"
proof -
  obtain c where c: "rsc8_new 2 = Inr c" using rsc8_new_ok [of 2] by (auto simp: MAX_PARITY_def)
  have len: "length (rs8_encode c [1, 2, 3]) = 2" by (rule encoded_codeword(2) [OF rsc8_new_coder [OF c]])
  have five: "[0..<5] = [0, 1, 2, 3, 4 :: nat]" by (simp add: upt_rec)
  have "locate_errors c (rs8_syndromes c ([1, 9, 3] @ rs8_encode c [1, 2, 3])) (length ([1, 9, 3] @ rs8_encode c [1, 2, 3])) = Inr [1]"
    by (rule rs8_locates [OF c refl, where data = "[1, 2, 3]"]) (simp_all add: len MAX_CODEWORD_def MAX_PARITY_def five nth_Cons')
  then show ?thesis using c len by auto
qed

end
