(* ===== verification/Rev3Volumes.thy ===== *)
theory Rev3Volumes
  imports Rs8Locate
begin

text \<open>
  The \<open>.rev\<close> volumes of RAR 1.5 to 4 (\<^verbatim>\<open>crates/rar/src/recovery/rev3\<close>:
  trailer.rs, build.rs, repair.rs): the parity of a set of volumes column by column, the trailer, the scan
  for damage and the reconstruction. A file is the sequence of its bytes; names, directories, the staging
  and the renaming of files, progress and cancellation are left out, and so is the cut of the last
  volume at its end block. The CRC of the crate crc32fast is the argument \<open>crc\<close>. Only the public
  stripe size \<open>CHUNK\<close> is modelled.
\<close>

definition TRAILER_LEN :: nat where "TRAILER_LEN = 7"
definition CHUNK :: nat where "CHUNK = 1024 * 1024"

record meta =
  rv_data_count :: nat
  rv_rec_count :: nat
  rv_index :: nat

datatype rev_format = Trailer | Legacy

datatype rev_error = SingleVolume | TooManyVolumes | VolumesTooSmall | NoRecoveryVolumes | EmptyRecoveryVolume
  | TooManyMissing | Coder rs8_error | CannotRepair | TooManyDamaged

definition meta_valid :: "meta \<Rightarrow> bool" where
  "meta_valid m \<longleftrightarrow> 0 < rv_data_count m \<and> 0 < rv_rec_count m \<and> rv_index m < rv_rec_count m \<and>
     rv_data_count m + rv_rec_count m \<le> MAX_CODEWORD"

section \<open>The trailer\<close>

definition trailer_head :: "meta \<Rightarrow> byte list" where
  "trailer_head m = [word_of_nat (rv_data_count m - 1), word_of_nat (rv_rec_count m - 1), word_of_nat (rv_index m)]"

definition write_trailer :: "(byte list \<Rightarrow> u32) \<Rightarrow> meta \<Rightarrow> byte list \<Rightarrow> byte list" where
  "write_trailer crc m payload = trailer_head m @ u32_to_le (crc (payload @ trailer_head m))"

definition parse_trailer :: "(byte list \<Rightarrow> u32) \<Rightarrow> byte list \<Rightarrow> meta option" where
  "parse_trailer crc bytes =
     (if length bytes < TRAILER_LEN then None
      else let tail = drop (length bytes - TRAILER_LEN) bytes;
               stored = u32_from_le (tail ! 3) (tail ! 4) (tail ! 5) (tail ! 6) in
        if crc (take (length bytes - 4) bytes) \<noteq> stored then None
        else let m = \<lparr>rv_data_count = unat (tail ! 0) + 1, rv_rec_count = unat (tail ! 1) + 1, rv_index = unat (tail ! 2)\<rparr> in
          if meta_valid m then Some m else None)"

section \<open>Building\<close>

text \<open>The offsets and sizes of the stripes of a range.\<close>

function stripes :: "nat \<Rightarrow> nat \<Rightarrow> (nat \<times> nat) list" where
  "stripes limit offset =
     (if offset < limit then let want = min (limit - offset) CHUNK in (offset, want) # stripes limit (offset + want) else [])"
  by pat_completeness auto

termination stripes
  by (relation "measure (\<lambda>(limit, offset). limit - offset)") (auto simp: CHUNK_def)

declare stripes.simps [simp del]

definition read_padded :: "byte list \<Rightarrow> nat \<Rightarrow> nat \<Rightarrow> byte list" where
  "read_padded file offset want =
     (if offset < length file
      then let to_read = min (length file - offset) want in take to_read (drop offset file) @ replicate (want - to_read) 0
      else replicate want 0)"

definition use_trailer_format :: "byte list list \<Rightarrow> bool" where
  "use_trailer_format volumes =
     list_all (\<lambda>file. TRAILER_LEN \<le> length file \<and> list_all (\<lambda>b. b = 0) (drop (length file - TRAILER_LEN) file)) volumes"

definition column_of :: "byte list list \<Rightarrow> nat \<Rightarrow> byte list" where
  "column_of chunks position = map (\<lambda>chunk. chunk ! position) chunks"

text \<open>The parity of one stripe, appended to the outputs.\<close>

definition parity_stripe :: "rsc8 \<Rightarrow> byte list list \<Rightarrow> nat \<times> nat \<Rightarrow> byte list list \<Rightarrow> byte list list" where
  "parity_stripe coder volumes = (\<lambda>(offset, want) outputs.
     let chunks = map (\<lambda>file. read_padded file offset want) volumes;
         encoded = map (\<lambda>position. rs8_encode coder (column_of chunks position)) [0..<want] in
     map (\<lambda>(index, output). output @ map (\<lambda>symbols. symbols ! index) encoded) (zip [0..<length outputs] outputs))"

definition shard_length :: "byte list list \<Rightarrow> nat" where
  "shard_length files = foldl max 0 (map length files)"

definition protected_length :: "rev_format \<Rightarrow> nat \<Rightarrow> nat" where
  "protected_length fmt shard_len = (case fmt of Trailer \<Rightarrow> shard_len - TRAILER_LEN | Legacy \<Rightarrow> shard_len)"

definition seal_volume :: "(byte list \<Rightarrow> u32) \<Rightarrow> rev_format \<Rightarrow> nat \<Rightarrow> nat \<Rightarrow> nat \<times> byte list \<Rightarrow> byte list" where
  "seal_volume crc fmt nd rec_count = (\<lambda>(k, payload).
     case fmt of
       Trailer \<Rightarrow> payload @ write_trailer crc \<lparr>rv_data_count = nd, rv_rec_count = rec_count, rv_index = k\<rparr> payload
     | Legacy \<Rightarrow> payload)"

definition build_recovery_volumes ::
  "(byte list \<Rightarrow> u32) \<Rightarrow> byte list list \<Rightarrow> nat \<Rightarrow> rev_error + (rev_format \<times> byte list list)" where
  "build_recovery_volumes crc volumes rec_count =
     (let nd = length volumes in
      if nd < 2 then Inl SingleVolume
      else if MAX_CODEWORD < nd + rec_count then Inl TooManyVolumes
      else let rec_count = max rec_count 1;
               fmt = (if use_trailer_format volumes then Trailer else Legacy);
               shard_len = shard_length volumes in
        if shard_len < TRAILER_LEN + 1 then Inl VolumesTooSmall
        else rbind (map_err Coder (rsc8_new rec_count)) (\<lambda>coder.
          let outputs = fold (parity_stripe coder volumes) (stripes (protected_length fmt shard_len) 0) (replicate rec_count []) in
          Inr (fmt, map (seal_volume crc fmt nd rec_count) (zip [0..<rec_count] outputs))))"

section \<open>Loading a stripe\<close>

record chunk_columns =
  cc_data :: "byte list option list"
  cc_revs :: "byte list option list"

definition read_rev_range :: "byte list \<Rightarrow> nat option \<Rightarrow> nat \<Rightarrow> nat \<Rightarrow> byte list" where
  "read_rev_range file zero_from offset want =
     (let readable_end = min (offset + want) (length file);
          readable_end = (case zero_from of None \<Rightarrow> readable_end | Some z \<Rightarrow> min readable_end z) in
      if offset < readable_end
      then let n = readable_end - offset in take n (drop offset file) @ replicate (want - n) 0
      else replicate want 0)"

definition load_chunk ::
  "byte list list \<Rightarrow> nat list \<Rightarrow> (nat \<times> byte list) list \<Rightarrow> nat \<Rightarrow> nat \<Rightarrow> nat \<Rightarrow> nat option \<Rightarrow> chunk_columns" where
  "load_chunk slots missing revs rec_count offset want zero_from =
     \<lparr>cc_data = map (\<lambda>(index, file). if index \<in> set missing then None else Some (read_padded file offset want))
        (zip [0..<length slots] slots),
      cc_revs = fold (\<lambda>(k, file) chunks. chunks[k := Some (read_rev_range file zero_from offset want)])
        revs (replicate rec_count None)\<rparr>"

fun put_symbols :: "nat \<Rightarrow> nat \<Rightarrow> byte list option list \<Rightarrow> byte list \<Rightarrow> byte list" where
  "put_symbols position index [] codeword = codeword"
| "put_symbols position index (chunk # chunks) codeword =
     put_symbols position (index + 1) chunks
       (case chunk of None \<Rightarrow> codeword | Some bytes \<Rightarrow> codeword[index := bytes ! position])"

definition codeword_at :: "chunk_columns \<Rightarrow> nat \<Rightarrow> nat \<Rightarrow> nat \<Rightarrow> byte list" where
  "codeword_at columns position nd rec_count =
     put_symbols position nd (cc_revs columns) (put_symbols position 0 (cc_data columns) (replicate (nd + rec_count) 0))"

section \<open>The scan for damage\<close>

text \<open>What a pass needs of the set.\<close>

record rev_set =
  vs_slots :: "byte list list"
  vs_missing :: "nat list"
  vs_revs :: "(nat \<times> byte list) list"
  vs_nd :: nat
  vs_nr :: nat
  vs_zero_from :: "nat option"

definition columns_of :: "rev_set \<Rightarrow> nat \<Rightarrow> nat \<Rightarrow> chunk_columns" where
  "columns_of s offset want = load_chunk (vs_slots s) (vs_missing s) (vs_revs s) (vs_nr s) offset want (vs_zero_from s)"

definition check_position :: "rsc8 \<Rightarrow> rev_set \<Rightarrow> nat list \<Rightarrow> byte list \<Rightarrow> rev_error + nat list option" where
  "check_position coder s erasures codeword =
     rbind (if erasures \<noteq> [] then map_err Coder (correct_erasures coder codeword erasures) else Inr codeword) (\<lambda>codeword.
       let syndromes = rs8_syndromes coder codeword in
       if list_ex (\<lambda>v. v \<noteq> 0) syndromes
       then rbind (map_err Coder (locate_errors coder syndromes (length codeword))) (\<lambda>positions. Inr (Some positions))
       else Inr None)"

fun scan_positions :: "rsc8 \<Rightarrow> rev_set \<Rightarrow> nat list \<Rightarrow> chunk_columns \<Rightarrow> nat list \<Rightarrow> rev_error + nat list option" where
  "scan_positions coder s erasures columns [] = Inr None"
| "scan_positions coder s erasures columns (position # rest) =
     rbind (check_position coder s erasures (codeword_at columns position (vs_nd s) (vs_nr s))) (\<lambda>found.
       case found of Some positions \<Rightarrow> Inr (Some positions) | None \<Rightarrow> scan_positions coder s erasures columns rest)"

fun scan_stripes :: "rsc8 \<Rightarrow> rev_set \<Rightarrow> nat list \<Rightarrow> (nat \<times> nat) list \<Rightarrow> rev_error + nat list option" where
  "scan_stripes coder s erasures [] = Inr None"
| "scan_stripes coder s erasures ((offset, want) # rest) =
     rbind (scan_positions coder s erasures (columns_of s offset want) [0..<want]) (\<lambda>found.
       case found of Some positions \<Rightarrow> Inr (Some positions) | None \<Rightarrow> scan_stripes coder s erasures rest)"

definition locate_damage :: "rsc8 \<Rightarrow> rev_set \<Rightarrow> nat \<Rightarrow> nat list \<Rightarrow> rev_error + nat list option" where
  "locate_damage coder s protected erasures = scan_stripes coder s erasures (stripes protected 0)"

text \<open>A located position becomes an erasure; a data volume among them is to be rebuilt.\<close>

fun add_positions :: "nat \<Rightarrow> nat list \<Rightarrow> nat list \<times> nat list \<times> bool \<Rightarrow> nat list \<times> nat list \<times> bool" where
  "add_positions nd [] state = state"
| "add_positions nd (position # rest) (erasures, damaged, added) =
     (let (erasures, added) = (if position \<in> set erasures then (erasures, added) else (erasures @ [position], True));
          damaged = (if position < nd \<and> position \<notin> set damaged then damaged @ [position] else damaged) in
      add_positions nd rest (erasures, damaged, added))"

lemma add_positions_erasures:
  "add_positions nd ps (es, ds, added) = (es', ds', added') \<Longrightarrow>
   set es' = set es \<union> set ps \<and> set ds' = set ds \<union> {p \<in> set ps. p < nd} \<and> (added' \<longleftrightarrow> added \<or> \<not> set ps \<subseteq> set es)"
  by (induction nd ps "(es, ds, added)" arbitrary: es ds added rule: add_positions.induct) (auto simp: Let_def split: if_splits)

function find_damage :: "rsc8 \<Rightarrow> rev_set \<Rightarrow> nat \<Rightarrow> nat list \<Rightarrow> nat list \<Rightarrow> rev_error + (nat list \<times> nat list)" where
  "find_damage coder s protected erasures damaged =
     (case locate_damage coder s protected erasures of
        Inl e \<Rightarrow> Inl e
      | Inr None \<Rightarrow> Inr (erasures, damaged)
      | Inr (Some positions) \<Rightarrow>
          let (es, ds, added) = add_positions (vs_nd s) positions (erasures, damaged, False);
              es = remdups_adj (sort es);
              ds = sort ds in
          if \<not> added then Inl CannotRepair
          else if vs_nr s < length es then Inl TooManyDamaged
          else find_damage coder s protected es ds)"
  by pat_completeness auto

lemma distinct_remdups_adj: "sorted xs \<Longrightarrow> distinct (remdups_adj xs)"
  by (induction xs rule: remdups_adj.induct) (auto simp: order_antisym)

lemma length_remdups_sort: "length (remdups_adj (sort xs)) = card (set xs)"
  using distinct_card [OF distinct_remdups_adj [OF sorted_sort [of xs]]] by simp

termination find_damage
proof (relation "measure (\<lambda>(coder, s, protected, es, ds). vs_nr s + 1 - card (set es))")
  fix coder s protected es ds found positions x es1 y ds1 added es2 ds2
  assume add: "x = add_positions (vs_nd s) positions (es, ds, False)" "(es1, y) = x" "(ds1, added) = y"
    and es2: "es2 = remdups_adj (sort es1)" and go: "\<not> \<not> added" "\<not> vs_nr s < length es2"
  then have "set es1 = set es \<union> set positions" "\<not> set positions \<subseteq> set es"
    using add_positions_erasures [of "vs_nd s" positions es ds False es1 ds1 added] by auto
  then have "card (set es) < card (set es1)" by (intro psubset_card_mono) auto
  then show "((coder, s, protected, es2, ds2), coder, s, protected, es, ds)
      \<in> measure (\<lambda>(coder, s, protected, es, ds). vs_nr s + 1 - card (set es))"
    using go(2) by (simp add: es2 length_remdups_sort)
qed simp

declare find_damage.simps [simp del]

section \<open>Rebuilding\<close>

definition rebuilt_bytes :: "rsc8 \<Rightarrow> rev_set \<Rightarrow> rev_format \<Rightarrow> nat \<Rightarrow> nat list \<Rightarrow> nat list \<Rightarrow> nat \<Rightarrow> byte list \<Rightarrow> rev_error + byte list" where
  "rebuilt_bytes coder s fmt protected erasures rebuild absolute codeword =
     rbind (map_err Coder (correct_erasures coder codeword erasures)) (\<lambda>codeword.
       Inr (map (\<lambda>index. if fmt = Trailer \<and> protected \<le> absolute then 0 else codeword ! index) rebuild))"

fun rebuild_positions ::
  "rsc8 \<Rightarrow> rev_set \<Rightarrow> rev_format \<Rightarrow> nat \<Rightarrow> nat list \<Rightarrow> nat list \<Rightarrow> nat \<Rightarrow> chunk_columns \<Rightarrow> nat list \<Rightarrow> byte list list \<Rightarrow>
   rev_error + byte list list" where
  "rebuild_positions coder s fmt protected erasures rebuild offset columns [] outputs = Inr outputs"
| "rebuild_positions coder s fmt protected erasures rebuild offset columns (position # rest) outputs =
     rbind (rebuilt_bytes coder s fmt protected erasures rebuild (offset + position)
              (codeword_at columns position (vs_nd s) (vs_nr s))) (\<lambda>bytes.
       rebuild_positions coder s fmt protected erasures rebuild offset columns rest (map2 (\<lambda>output b. output @ [b]) outputs bytes))"

fun rebuild_stripes ::
  "rsc8 \<Rightarrow> rev_set \<Rightarrow> rev_format \<Rightarrow> nat \<Rightarrow> nat list \<Rightarrow> nat list \<Rightarrow> (nat \<times> nat) list \<Rightarrow> byte list list \<Rightarrow> rev_error + byte list list" where
  "rebuild_stripes coder s fmt protected erasures rebuild [] outputs = Inr outputs"
| "rebuild_stripes coder s fmt protected erasures rebuild ((offset, want) # rest) outputs =
     rbind (rebuild_positions coder s fmt protected erasures rebuild offset (columns_of s offset want) [0..<want] outputs)
       (rebuild_stripes coder s fmt protected erasures rebuild rest)"

text \<open>
  The volumes found, the slots of the missing ones being empty files, and the recovery volumes found,
  each with its index.
\<close>

definition rebuild_missing_volumes ::
  "nat \<Rightarrow> nat \<Rightarrow> rev_format \<Rightarrow> byte list list \<Rightarrow> nat list \<Rightarrow> (nat \<times> byte list) list \<Rightarrow> rev_error + (nat \<times> byte list) list" where
  "rebuild_missing_volumes nd nr fmt slots missing revs =
     (if revs = [] then Inl NoRecoveryVolumes
      else let shard_len = shard_length (map snd revs) in
        if shard_len = 0 then Inl EmptyRecoveryVolume
        else let protected = protected_length fmt shard_len;
                 zero_from = (if fmt = Trailer then Some protected else None);
                 s = \<lparr>vs_slots = slots, vs_missing = missing, vs_revs = revs, vs_nd = nd, vs_nr = nr, vs_zero_from = zero_from\<rparr>;
                 missing_recovery = filter (\<lambda>index. \<not> list_ex (\<lambda>(k, _). k = index) revs) [0..<nr];
                 erasures = sort (missing @ map (\<lambda>k. nd + k) missing_recovery) in
          if nr < length erasures then Inl TooManyMissing
          else rbind (map_err Coder (rsc8_new nr)) (\<lambda>coder.
            rbind (find_damage coder s protected erasures []) (\<lambda>(erasures, damaged).
              let rebuild = remdups_adj (sort (missing @ damaged)) in
              if rebuild = [] then Inr []
              else rbind (rebuild_stripes coder s fmt protected erasures rebuild (stripes shard_len 0) (replicate (length rebuild) []))
                (\<lambda>outputs. Inr (zip rebuild outputs)))))"

end
