(* ===== verification/Rev3Restore.thy ===== *)
theory Rev3Restore
  imports Rev3Volumes
begin

text \<open>
  The \<open>.rev\<close> volumes rebuild what was lost: the stripes of the writer and of the repair run
  through the same columns, each column is a codeword of the Reed-Solomon code, and the passes of the
  scan end with erasures that cover all the damage.
\<close>

section \<open>Columns\<close>

text \<open>A byte of a file, the file being continued by zeros.\<close>

definition byte_at :: "byte list \<Rightarrow> nat \<Rightarrow> byte" where
  "byte_at file t = (if t < length file then file ! t else 0)"

lemma stripes_cover: "concat (map (\<lambda>(offset, want). map (\<lambda>p. offset + p) [0..<want]) (stripes limit offset)) = [offset..<limit]"
proof (induction limit offset rule: stripes.induct)
  case (1 limit offset)
  show ?case
  proof (cases "offset < limit")
    case True
    let ?want = "min (limit - offset) CHUNK"
    have "map (\<lambda>p. offset + p) [0..<?want] = [offset..<offset + ?want]"
      using map_add_upt [of offset ?want] by (simp add: add.commute)
    moreover have "[offset..<offset + ?want] @ [offset + ?want..<limit] = [offset..<limit]"
      using upt_add_eq_append [of offset "offset + ?want" "limit - (offset + ?want)"] True
      by (simp add: min_def split: if_splits)
    ultimately show ?thesis using True 1 [OF True refl] stripes.simps [of limit offset] by (simp add: Let_def)
  qed (simp add: stripes.simps)
qed

lemma read_padded_nth: "length (read_padded file offset want) = want"
  "p < want \<Longrightarrow> read_padded file offset want ! p = byte_at file (offset + p)"
  by (auto simp: read_padded_def byte_at_def nth_append Let_def)

definition rev_byte :: "byte list \<Rightarrow> nat option \<Rightarrow> nat \<Rightarrow> byte" where
  "rev_byte file zero_from t = (if t < length file \<and> (case zero_from of None \<Rightarrow> True | Some z \<Rightarrow> t < z) then file ! t else 0)"

lemma read_rev_range_nth: "length (read_rev_range file zero_from offset want) = want"
  "p < want \<Longrightarrow> read_rev_range file zero_from offset want ! p = rev_byte file zero_from (offset + p)"
  by (auto simp: read_rev_range_def rev_byte_def nth_append Let_def split: option.splits)

definition data_column :: "byte list list \<Rightarrow> nat \<Rightarrow> byte list" where
  "data_column volumes t = map (\<lambda>file. byte_at file t) volumes"

lemma parity_stripe_eq:
  "parity_stripe c volumes (offset, want) outputs =
    map (\<lambda>(k, output). output @ map (\<lambda>t. rs8_encode c (data_column volumes t) ! k) (map (\<lambda>p. offset + p) [0..<want]))
      (zip [0..<length outputs] outputs)"
proof -
  have "column_of (map (\<lambda>file. read_padded file offset want) volumes) p = data_column volumes (offset + p)" if "p < want" for p
    using that by (simp add: column_of_def data_column_def read_padded_nth)
  then have columns: "map (\<lambda>p. rs8_encode c (column_of (map (\<lambda>file. read_padded file offset want) volumes) p)) [0..<want] =
      map (\<lambda>p. rs8_encode c (data_column volumes (offset + p))) [0..<want]"
    by (intro map_cong) simp_all
  show ?thesis unfolding parity_stripe_def Let_def prod.case columns by (simp add: comp_def)
qed

definition parity_bytes :: "rsc8 \<Rightarrow> byte list list \<Rightarrow> nat \<Rightarrow> nat \<Rightarrow> byte list" where
  "parity_bytes c volumes limit k = map (\<lambda>t. rs8_encode c (data_column volumes t) ! k) [0..<limit]"

lemma parity_stripes_eq:
  "fold (parity_stripe c volumes) ss outputs =
    map (\<lambda>(k, output). output @ map (\<lambda>t. rs8_encode c (data_column volumes t) ! k)
        (concat (map (\<lambda>(offset, want). map (\<lambda>p. offset + p) [0..<want]) ss)))
      (zip [0..<length outputs] outputs)"
proof (induction ss arbitrary: outputs)
  case Nil
  show ?case by (auto intro!: nth_equalityI)
next
  case (Cons a ss)
  obtain offset want where a: "a = (offset, want)" by (cases a)
  show ?case
    unfolding fold_Cons o_apply Cons.IH a parity_stripe_eq by (rule nth_equalityI) auto
qed

lemma build_files:
  assumes "build_recovery_volumes crc volumes rec_count = Inr (fmt, files)"
  obtains c m where "rsc8_new m = Inr c" "2 \<le> length volumes" "TRAILER_LEN < shard_length volumes"
    "fmt = (if use_trailer_format volumes then Trailer else Legacy)" "length files = m"
    "files = map (\<lambda>k. seal_volume crc fmt (length volumes) m (k, parity_bytes c volumes (protected_length fmt (shard_length volumes)) k)) [0..<m]"
proof -
  let ?m = "max rec_count 1" and ?prot = "protected_length fmt (shard_length volumes)"
  obtain c where c: "rsc8_new ?m = Inr c" and len: "2 \<le> length volumes" "TRAILER_LEN < shard_length volumes"
    and fmt: "fmt = (if use_trailer_format volumes then Trailer else Legacy)"
    and files: "files = map (seal_volume crc fmt (length volumes) ?m)
      (zip [0..<?m] (fold (parity_stripe c volumes) (stripes ?prot 0) (replicate ?m [])))"
    using assms unfolding build_recovery_volumes_def Let_def
    by (auto simp: result_simps split: if_splits)
  have "fold (parity_stripe c volumes) (stripes ?prot 0) (replicate ?m []) = map (parity_bytes c volumes ?prot) [0..<?m]"
    unfolding parity_stripes_eq stripes_cover by (rule nth_equalityI) (auto simp: parity_bytes_def)
  then have "files = map (\<lambda>k. seal_volume crc fmt (length volumes) ?m (k, parity_bytes c volumes ?prot k)) [0..<?m]"
    unfolding files by (auto intro!: nth_equalityI)
  then show ?thesis using that [OF c len fmt] by simp
qed

text \<open>The columns the repair reads.\<close>

lemma put_symbols_nth:
  "index + length chunks \<le> length w \<Longrightarrow>
   length (put_symbols p index chunks w) = length w \<and>
   (\<forall>j<length w. put_symbols p index chunks w ! j =
     (if index \<le> j \<and> j < index + length chunks then (case chunks ! (j - index) of None \<Rightarrow> w ! j | Some bytes \<Rightarrow> bytes ! p)
      else w ! j))"
proof (induction chunks arbitrary: index w)
  case (Cons chunk chunks)
  let ?w = "case chunk of None \<Rightarrow> w | Some bytes \<Rightarrow> w[index := bytes ! p]"
  have len: "length ?w = length w" by (simp split: option.splits)
  have nth: "?w ! j = (if j = index then (case chunk of None \<Rightarrow> w ! j | Some bytes \<Rightarrow> bytes ! p) else w ! j)" if "j < length w" for j
    using that by (auto simp: nth_list_update split: option.splits)
  have IH: "length (put_symbols p (index + 1) chunks ?w) = length w \<and>
      (\<forall>j<length w. put_symbols p (index + 1) chunks ?w ! j =
        (if index + 1 \<le> j \<and> j < index + 1 + length chunks
         then (case chunks ! (j - (index + 1)) of None \<Rightarrow> ?w ! j | Some bytes \<Rightarrow> bytes ! p) else ?w ! j))"
    using Cons.IH [of "index + 1" ?w] Cons.prems unfolding len by simp
  have "put_symbols p index (chunk # chunks) w ! j =
      (if index \<le> j \<and> j < index + length (chunk # chunks)
       then (case (chunk # chunks) ! (j - index) of None \<Rightarrow> w ! j | Some bytes \<Rightarrow> bytes ! p) else w ! j)" if j: "j < length w" for j
  proof (cases "index < j")
    case True
    then have "j - index = Suc (j - (index + 1))" by simp
    then show ?thesis using IH nth [OF j] True j by (auto split: option.splits)
  next
    case False
    then show ?thesis using IH nth [OF j] j by (cases "j = index") (simp_all del: One_nat_def)
  qed
  then show ?case using IH by simp
qed auto

lemma rev_chunks_nth:
  "distinct (map fst revs) \<Longrightarrow> k < length chunks \<Longrightarrow> list_all (\<lambda>(k, f). k < length chunks) revs \<Longrightarrow>
   fold (\<lambda>(k, file) chunks. chunks[k := Some (g file)]) revs chunks ! k =
     (case map_of revs k of None \<Rightarrow> chunks ! k | Some file \<Rightarrow> Some (g file))"
proof (induction revs arbitrary: chunks)
  case (Cons a revs)
  obtain i f where a: "a = (i, f)" by (cases a)
  have "map_of revs i = None" using Cons.prems(1) by (simp add: a map_of_eq_None_iff)
  then show ?case
    using Cons.IH [of "chunks[i := Some (g f)]"] Cons.prems by (auto simp: a nth_list_update split: option.splits)
qed simp

lemma length_rev_chunks: "length (fold (\<lambda>(k, file) chunks. chunks[k := Some (g file)]) revs chunks) = length chunks"
  by (induction revs arbitrary: chunks) auto

definition word_at :: "rev_set \<Rightarrow> nat \<Rightarrow> byte list" where
  "word_at s t = map (\<lambda>i. if i \<in> set (vs_missing s) then 0 else byte_at (vs_slots s ! i) t) [0..<vs_nd s] @
     map (\<lambda>k. case map_of (vs_revs s) k of None \<Rightarrow> 0 | Some file \<Rightarrow> rev_byte file (vs_zero_from s) t) [0..<vs_nr s]"

definition set_ok :: "rev_set \<Rightarrow> bool" where
  "set_ok s \<longleftrightarrow> length (vs_slots s) = vs_nd s \<and> distinct (map fst (vs_revs s)) \<and> list_all (\<lambda>(k, file). k < vs_nr s) (vs_revs s)"

lemma codeword_at_word:
  assumes "set_ok s" "p < want"
  shows "codeword_at (columns_of s offset want) p (vs_nd s) (vs_nr s) = word_at s (offset + p)"
proof -
  let ?c = "columns_of s offset want" and ?zeros = "replicate (vs_nd s + vs_nr s) (0 :: byte)"
  let ?first = "put_symbols p 0 (cc_data ?c) ?zeros"
  have data: "length (cc_data ?c) = vs_nd s"
    "\<And>i. i < vs_nd s \<Longrightarrow> cc_data ?c ! i = (if i \<in> set (vs_missing s) then None else Some (read_padded (vs_slots s ! i) offset want))"
    using assms(1) by (simp_all add: columns_of_def load_chunk_def set_ok_def)
  have revs: "length (cc_revs ?c) = vs_nr s"
    "\<And>k. k < vs_nr s \<Longrightarrow> cc_revs ?c ! k = map_option (\<lambda>f. read_rev_range f (vs_zero_from s) offset want) (map_of (vs_revs s) k)"
    using assms(1)
    by (simp_all add: columns_of_def load_chunk_def set_ok_def length_rev_chunks rev_chunks_nth split: option.splits)
  have first: "length ?first = vs_nd s + vs_nr s"
    "\<And>j. j < vs_nd s + vs_nr s \<Longrightarrow> ?first ! j = (if j < vs_nd s then (case cc_data ?c ! j of None \<Rightarrow> 0 | Some b \<Rightarrow> b ! p) else 0)"
    using put_symbols_nth [of 0 "cc_data ?c" ?zeros p] data(1) by (auto split: option.splits)
  have cw: "length (codeword_at ?c p (vs_nd s) (vs_nr s)) = vs_nd s + vs_nr s"
    "\<And>j. j < vs_nd s + vs_nr s \<Longrightarrow> codeword_at ?c p (vs_nd s) (vs_nr s) ! j =
      (if vs_nd s \<le> j then (case cc_revs ?c ! (j - vs_nd s) of None \<Rightarrow> ?first ! j | Some b \<Rightarrow> b ! p) else ?first ! j)"
    using put_symbols_nth [of "vs_nd s" "cc_revs ?c" ?first p] revs(1) first(1) by (auto simp: codeword_at_def)
  show ?thesis
  proof (rule nth_equalityI)
    show "length (codeword_at ?c p (vs_nd s) (vs_nr s)) = length (word_at s (offset + p))" by (simp add: cw word_at_def)
    fix j assume "j < length (codeword_at ?c p (vs_nd s) (vs_nr s))"
    then have j: "j < vs_nd s + vs_nr s" by (simp add: cw)
    show "codeword_at ?c p (vs_nd s) (vs_nr s) ! j = word_at s (offset + p) ! j"
    proof (cases "j < vs_nd s")
      case True
      then show ?thesis using cw(2) [OF j] first(2) [OF j] data(2) assms(2) by (simp add: word_at_def nth_append read_padded_nth)
    next
      case False
      then show ?thesis
        using cw(2) [OF j] first(2) [OF j] revs(2) [of "j - vs_nd s"] j assms(2)
        by (simp add: word_at_def nth_append read_rev_range_nth split: option.splits)
    qed
  qed
qed

section \<open>One column\<close>

lemma codeword_unique:
  assumes "rs8_coder m c" "codeword_ok m v" "length w = length v" "0 < length v" "length v \<le> MAX_PARITY"
    and "length (filter (\<lambda>i. w ! i \<noteq> v ! i) [0..<length v]) \<le> m" "\<not> list_ex (\<lambda>s. s \<noteq> 0) (rs8_syndromes c w)"
    and "length v < MAX_PARITY"
  shows "w = v"
proof -
  let ?ds = "filter (\<lambda>i. w ! i \<noteq> v ! i) [0..<length v]"
  have m: "rs_parity_size c = m" using assms(1) by (simp add: rs8_coder_def)
  have zero: "list_all (\<lambda>s. s = 0) (rs8_syndromes c w)" using assms(7) by (auto simp: list_ex_iff list_all_iff)
  have "correct_erasures c w ?ds = Inr v"
    using assms by (intro correct_erasures_restores [OF assms(1)]) (auto simp: last_of_full_def)
  moreover have "correct_erasures c w ?ds = Inr w"
    using assms(3-6) m zero by (auto simp: correct_erasures_def list_ex_iff Let_def)
  ultimately show ?thesis by simp
qed

lemma correct_erasures_total:
  assumes "rs8_coder m c" "length w = n" "0 < n" "n < MAX_PARITY" "distinct es" "\<forall>e\<in>set es. e < n" "length es \<le> m" "es \<noteq> []"
  shows "\<exists>w'. correct_erasures c w es = Inr w' \<and> length w' = n \<and> (\<forall>i<n. i \<notin> set es \<longrightarrow> w' ! i = w ! i)"
proof (cases "list_all (\<lambda>s. s = 0) (rs8_syndromes c w)")
  case True
  then show ?thesis using assms by (auto simp: correct_erasures_def Let_def rs8_coder_def list_ex_iff)
next
  case False
  let ?loc = "erasure_locator c n es" and ?z = "replicate n (0 :: byte)"
  let ?ev = "multiply_polynomials c ?loc (rs8_syndromes c w)" and ?d = "\<lambda>e. root_denominator c ?loc (MAX_PARITY - (n - 1 - e))"
  let ?y = "\<lambda>e. gmul (error_numerator c ?ev (MAX_PARITY - (n - 1 - e))) (rs8_recip (?d e))"
  have m: "rs_parity_size c = m" using assms(1) by (simp add: rs8_coder_def)
  have "?d e \<noteq> 0" if "e \<in> set es" for e
    using quotient_is_error [of m c ?z n ?z es e] assms that by (auto simp: codeword_ok_def heval_zeros)
  obtain ds where ds: "error_locations c ?loc n = map (\<lambda>e. (n - 1 - e, ?d e)) ds" "distinct ds" "set ds = set es"
    using roots_found [OF assms(1,5,6)] assms(4,7) by (auto simp: last_of_full_def)
  have count: "length ds = length es" using ds(2,3) assms(5) by (metis distinct_card)
  have "correct_locations c ?ev (map (\<lambda>e. (length w - 1 - e, ?d e)) ds) w = Inr (fold (\<lambda>e w. w[e := w ! e XOR ?y e]) ds w)"
    using \<open>\<And>e. e \<in> set es \<Longrightarrow> ?d e \<noteq> 0\<close> assms(2,6) ds(3)
    by (intro correct_locations_fold [OF assms(1)]) auto
  moreover have "length (fold (\<lambda>e w. w[e := w ! e XOR ?y e]) ds w) = n \<and>
      (\<forall>i<n. i \<notin> set es \<longrightarrow> fold (\<lambda>e w. w[e := w ! e XOR ?y e]) ds w ! i = w ! i)"
    using fold_at_positions [of ds w ?y] assms(2,6) ds(2,3) by simp
  ultimately show ?thesis
    using assms(2-8) m False count ds(1) by (auto simp: correct_erasures_def Let_def list_ex_iff)
qed

text \<open>
  A set of volumes of which only the positions in \<open>bad\<close> may differ from the codewords
  \<open>v t\<close>, and the positions \<open>lost\<close> that the repair knows of.
\<close>

definition repairable :: "rsc8 \<Rightarrow> nat \<Rightarrow> rev_set \<Rightarrow> nat \<Rightarrow> (nat \<Rightarrow> byte list) \<Rightarrow> nat list \<Rightarrow> nat list \<Rightarrow> bool" where
  "repairable c m s limit v lost bad \<longleftrightarrow>
     rs8_coder m c \<and> set_ok s \<and> vs_nr s = m \<and> 0 < vs_nd s \<and> vs_nd s + m < MAX_PARITY \<and>
     (\<forall>t<limit. codeword_ok m (v t) \<and> length (v t) = vs_nd s + m \<and>
        (\<forall>i<vs_nd s + m. i \<notin> set bad \<longrightarrow> word_at s t ! i = v t ! i)) \<and>
     set lost \<subseteq> set bad \<and> distinct lost \<and> distinct bad \<and> length bad \<le> m \<and>
     (set bad = set lost \<or> 2 * length bad \<le> m) \<and> (\<forall>i\<in>set bad. i < vs_nd s + m)"

text \<open>
  A column is either repaired by the present erasures, or shows positions that are damaged and among
  them one that is new.
\<close>

definition column_repaired :: "rsc8 \<Rightarrow> rev_set \<Rightarrow> (nat \<Rightarrow> byte list) \<Rightarrow> nat list \<Rightarrow> nat \<Rightarrow> bool" where
  "column_repaired c s v es t \<longleftrightarrow>
     (\<forall>i<length (v t). i \<notin> set es \<longrightarrow> word_at s t ! i = v t ! i) \<and> (es \<noteq> [] \<longrightarrow> correct_erasures c (word_at s t) es = Inr (v t))"

lemma length_word_at: "length (word_at s t) = vs_nd s + vs_nr s"
  by (simp add: word_at_def)

lemma check_position_cases:
  assumes "repairable c m s limit v lost bad" "t < limit" "set lost \<subseteq> set es" "set es \<subseteq> set bad" "distinct es"
  shows "check_position c s es (word_at s t) = Inr None \<and> column_repaired c s v es t \<or>
    (\<exists>ps. check_position c s es (word_at s t) = Inr (Some ps) \<and> set ps \<subseteq> set bad \<and> \<not> set ps \<subseteq> set es)"
proof -
  let ?n = "vs_nd s + m" and ?w = "word_at s t"
  have c: "rs8_coder m c" and small: "0 < ?n" "?n < MAX_PARITY" and v: "codeword_ok m (v t)" "length (v t) = ?n"
    and diff: "\<forall>i<?n. i \<notin> set bad \<longrightarrow> ?w ! i = v t ! i" and bad: "length bad \<le> m" "distinct bad" "\<forall>i\<in>set bad. i < ?n"
    and count: "set bad = set lost \<or> 2 * length bad \<le> m" and len: "length ?w = ?n"
    using assms(1,2) by (auto simp: repairable_def length_word_at)
  have es: "length es \<le> m" "\<forall>e\<in>set es. e < ?n"
    using card_mono [OF _ assms(4)] distinct_card [OF assms(5)] distinct_card [OF bad(2)] bad assms(4) by auto
  obtain w' where w': "(if es \<noteq> [] then map_err Coder (correct_erasures c ?w es) else Inr ?w) = Inr w'" "length w' = ?n"
    "\<forall>i<?n. i \<notin> set es \<longrightarrow> w' ! i = ?w ! i" and corr: "es \<noteq> [] \<Longrightarrow> correct_erasures c ?w es = Inr w'"
    using correct_erasures_total [OF c len small assms(5) es(2,1)] len by (cases "es = []") auto
  let ?ds = "filter (\<lambda>i. w' ! i \<noteq> v t ! i) [0..<length (v t)]"
  have "w' ! x = v t ! x" if "x < ?n" "x \<notin> set bad" for x
    using diff w'(3) assms(4) that by (metis subsetD)
  then have ds: "set ?ds \<subseteq> set bad" using v(2) by auto
  have "length ?ds = card (set ?ds)" by (intro distinct_card [symmetric]) simp
  then have ds_len: "length ?ds \<le> length bad" using card_mono [OF _ ds] distinct_card [OF bad(2)] by simp
  have restored: "w' = v t" if "\<forall>i<?n. i \<notin> set es \<longrightarrow> ?w ! i = v t ! i"
  proof (cases "es = []")
    case True
    then show ?thesis using that w' v(2) by (auto intro!: nth_equalityI)
  next
    case False
    have "correct_erasures c ?w es = Inr (v t)"
      using correct_erasures_restores [OF c len v(2,1) assms(5) es(2)] small es(1) that by (auto simp: last_of_full_def)
    then show ?thesis using corr [OF False] by simp
  qed
  have new: "\<not> set ?ds \<subseteq> set es" if "w' \<noteq> v t"
  proof
    assume sub: "set ?ds \<subseteq> set es"
    have "?w ! i = v t ! i" if "i < ?n" "i \<notin> set es" for i
    proof -
      have "i \<notin> set ?ds" using sub that(2) by blast
      then show ?thesis using w'(3) that v(2) by simp
    qed
    then show False using restored \<open>w' \<noteq> v t\<close> by blast
  qed
  show ?thesis
  proof (cases "list_ex (\<lambda>x. x \<noteq> 0) (rs8_syndromes c w')")
    case False
    then have eq: "w' = v t" using codeword_unique [OF c v(1), of w'] w'(2) v(2) small ds_len bad(1) by auto
    then have "column_repaired c s v es t"
      using corr w'(2,3) by (auto simp: column_repaired_def)
    moreover have "check_position c s es ?w = Inr None" using w'(1) False by (simp add: check_position_def)
    ultimately show ?thesis by blast
  next
    case True
    have neq: "w' \<noteq> v t"
    proof
      assume "w' = v t"
      then have "list_all (\<lambda>x. x = 0) (rs8_syndromes c w')" using v(1) by (auto simp: syndromes_heval [OF c] codeword_ok_def list_all_iff)
      then show False using True by (auto simp: list_ex_iff list_all_iff)
    qed
    have "2 * length bad \<le> m" using count new [OF neq] ds assms(3) by auto
    then have "2 * length ?ds \<le> m" using ds_len by simp
    moreover have "?ds \<noteq> []"
    proof
      assume "?ds = []"
      then have "set ?ds \<subseteq> set es" by (simp only: list.set empty_subsetI)
      then show False using new [OF neq] by blast
    qed
    ultimately have "locate_errors c (rs8_syndromes c w') (length w') = Inr ?ds"
      using locates_codeword [OF c v(1), of w' ?ds] w'(2) v(2) small by simp
    then have "check_position c s es ?w = Inr (Some ?ds)" using w'(1) True by (simp add: check_position_def)
    then show ?thesis using ds new [OF neq] by blast
  qed
qed

section \<open>The scan\<close>

text \<open>What a pass over some columns ends with.\<close>

definition scan_result :: "rsc8 \<Rightarrow> rev_set \<Rightarrow> (nat \<Rightarrow> byte list) \<Rightarrow> nat list \<Rightarrow> nat list \<Rightarrow> nat list \<Rightarrow> rev_error + nat list option \<Rightarrow> bool" where
  "scan_result c s v bad es ts r \<longleftrightarrow>
     r = Inr None \<and> (\<forall>t\<in>set ts. column_repaired c s v es t) \<or>
     (\<exists>ps. r = Inr (Some ps) \<and> set ps \<subseteq> set bad \<and> \<not> set ps \<subseteq> set es)"

lemma scan_positions_result:
  assumes "repairable c m s limit v lost bad" "set lost \<subseteq> set es" "set es \<subseteq> set bad" "distinct es"
    and "\<forall>p\<in>set ps. p < want \<and> offset + p < limit"
  shows "scan_result c s v bad es (map (\<lambda>p. offset + p) ps) (scan_positions c s es (columns_of s offset want) ps)"
  using assms(5)
proof (induction ps)
  case (Cons p ps)
  have p: "p < want" "offset + p < limit" using Cons.prems by simp_all
  have "codeword_at (columns_of s offset want) p (vs_nd s) (vs_nr s) = word_at s (offset + p)"
    using codeword_at_word [of s p want offset] assms(1) p(1) by (simp add: repairable_def)
  then show ?case
    using check_position_cases [OF assms(1) p(2) assms(2-4)] Cons by (auto simp: scan_result_def)
qed (simp add: scan_result_def)

lemma scan_stripes_result:
  assumes "repairable c m s limit v lost bad" "set lost \<subseteq> set es" "set es \<subseteq> set bad" "distinct es"
    and "\<forall>(offset, want)\<in>set ss. offset + want \<le> limit"
  shows "scan_result c s v bad es (concat (map (\<lambda>(offset, want). map (\<lambda>p. offset + p) [0..<want]) ss)) (scan_stripes c s es ss)"
  using assms(5)
proof (induction ss)
  case (Cons a ss)
  obtain offset want where a: "a = (offset, want)" by (cases a)
  have "scan_result c s v bad es (map (\<lambda>p. offset + p) [0..<want]) (scan_positions c s es (columns_of s offset want) [0..<want])"
    using Cons.prems by (intro scan_positions_result [OF assms(1-4)]) (auto simp: a)
  then show ?case using Cons by (auto simp: a scan_result_def)
qed (simp add: scan_result_def)

lemma stripes_within: "\<forall>(start, want)\<in>set (stripes limit offset). start + want \<le> limit"
proof (induction limit offset rule: stripes.induct)
  case (1 limit offset)
  then show ?case by (subst stripes.simps) (auto simp: Let_def)
qed

lemma locate_damage_result:
  assumes "repairable c m s limit v lost bad" "set lost \<subseteq> set es" "set es \<subseteq> set bad" "distinct es"
  shows "scan_result c s v bad es [0..<limit] (locate_damage c s limit es)"
  using scan_stripes_result [OF assms stripes_within, of 0] by (simp add: locate_damage_def stripes_cover)

lemma find_damage_ends:
  assumes "repairable c m s limit v lost bad" "set lost \<subseteq> set es" "set es \<subseteq> set bad" "distinct es"
    and "set ds - set lost = {p \<in> set es - set lost. p < vs_nd s}" "\<forall>p\<in>set ds. p < vs_nd s"
  shows "\<exists>es' ds'. find_damage c s limit es ds = Inr (es', ds') \<and> set lost \<subseteq> set es' \<and> set es' \<subseteq> set bad \<and> distinct es' \<and>
    set ds' - set lost = {p \<in> set es' - set lost. p < vs_nd s} \<and> (\<forall>p\<in>set ds'. p < vs_nd s) \<and>
    (\<forall>t<limit. column_repaired c s v es' t)"
  using assms
proof (induction c s limit es ds rule: find_damage.induct)
  case (1 c s limit es ds)
  consider "locate_damage c s limit es = Inr None" "\<forall>t<limit. column_repaired c s v es t"
    | ps where "locate_damage c s limit es = Inr (Some ps)" "set ps \<subseteq> set bad" "\<not> set ps \<subseteq> set es"
    using locate_damage_result [OF 1(2-5)] by (auto simp: scan_result_def)
  then show ?case
  proof cases
    case 1
    then show ?thesis using \<open>set lost \<subseteq> set es\<close> \<open>set es \<subseteq> set bad\<close> \<open>distinct es\<close>
        \<open>set ds - set lost = {p \<in> set es - set lost. p < vs_nd s}\<close> \<open>\<forall>p\<in>set ds. p < vs_nd s\<close>
      by (subst find_damage.simps) simp
  next
    case (2 ps)
    obtain es1 ds1 added where add: "add_positions (vs_nd s) ps (es, ds, False) = (es1, ds1, added)"
      using prod_cases3 by blast
    have es1: "set es1 = set es \<union> set ps" and ds1: "set ds1 = set ds \<union> {p \<in> set ps. p < vs_nd s}" and added: "added"
      using add_positions_erasures [OF add] 2(3) by simp_all
    let ?es = "remdups_adj (sort es1)"
    have sub: "set ?es \<subseteq> set bad" using es1 2(2) \<open>set es \<subseteq> set bad\<close> by simp
    have "distinct bad" "length bad \<le> vs_nr s"
      using \<open>repairable c m s limit v lost bad\<close> by (auto simp: repairable_def)
    then have len: "length ?es \<le> vs_nr s"
      using card_mono [OF _ sub] distinct_card [of bad] distinct_card [OF distinct_remdups_adj [OF sorted_sort [of es1]]] by simp
    have step: "find_damage c s limit es ds = find_damage c s limit ?es (sort ds1)"
      using 2(1) add added len by (subst find_damage.simps) (simp add: Let_def)
    show ?thesis
      unfolding step
    proof (rule "1.IH" [OF 2(1) refl add [symmetric] refl refl refl])
      show "set (sort ds1) - set lost = {p \<in> set ?es - set lost. p < vs_nd s}"
        using ds1 es1 \<open>set ds - set lost = {p \<in> set es - set lost. p < vs_nd s}\<close> by auto
      show "\<forall>p\<in>set (sort ds1). p < vs_nd s" using ds1 \<open>\<forall>p\<in>set ds. p < vs_nd s\<close> by auto
    qed (use \<open>repairable c m s limit v lost bad\<close> sub es1 \<open>set lost \<subseteq> set es\<close> added len distinct_remdups_adj [OF sorted_sort [of es1]] in auto)
  qed
qed

section \<open>Rebuilding\<close>

text \<open>The bytes a column contributes, and the outputs after some columns.\<close>

definition column_output :: "rev_format \<Rightarrow> nat \<Rightarrow> nat list \<Rightarrow> (nat \<Rightarrow> byte list) \<Rightarrow> nat \<Rightarrow> byte list" where
  "column_output fmt protected rebuild v t =
     map (\<lambda>i. if fmt = Trailer \<and> protected \<le> t then 0 else v t ! i) rebuild"

definition append_columns :: "byte list list \<Rightarrow> byte list list \<Rightarrow> byte list list" where
  "append_columns columns outputs = map (\<lambda>(j, out). out @ map (\<lambda>col. col ! j) columns) (zip [0..<length outputs] outputs)"

lemma length_append_columns: "length (append_columns columns outputs) = length outputs"
  by (simp add: append_columns_def)

lemma append_columns_nth: "j < length outputs \<Longrightarrow> append_columns columns outputs ! j = outputs ! j @ map (\<lambda>col. col ! j) columns"
  by (simp add: append_columns_def)

lemma append_columns_append: "append_columns (xs @ ys) outputs = append_columns ys (append_columns xs outputs)"
  by (rule nth_equalityI) (simp_all add: length_append_columns append_columns_nth)

lemma append_columns_Nil: "append_columns [] outputs = outputs"
  by (rule nth_equalityI) (simp_all add: length_append_columns append_columns_nth)

lemma append_columns_one: "length col = length outputs \<Longrightarrow> map2 (\<lambda>out b. out @ [b]) outputs col = append_columns [col] outputs"
  by (rule nth_equalityI) (simp_all add: length_append_columns append_columns_nth)

lemma rebuild_positions_outputs:
  assumes "set_ok s" "\<And>t. t < shard \<Longrightarrow> \<exists>w. correct_erasures c (word_at s t) es = Inr w \<and> (fmt = Trailer \<and> protected \<le> t \<or> w = v t)"
    and "\<forall>p\<in>set ps. p < want \<and> offset + p < shard" "length outputs = length rebuild"
  shows "rebuild_positions c s fmt protected es rebuild offset (columns_of s offset want) ps outputs =
    Inr (append_columns (map (\<lambda>p. column_output fmt protected rebuild v (offset + p)) ps) outputs)"
  using assms(3,4)
proof (induction ps arbitrary: outputs)
  case (Cons p ps)
  have p: "p < want" "offset + p < shard" using Cons.prems by simp_all
  obtain w where w: "correct_erasures c (word_at s (offset + p)) es = Inr w"
    "fmt = Trailer \<and> protected \<le> offset + p \<or> w = v (offset + p)" using assms(2) [OF p(2)] by blast
  let ?col = "column_output fmt protected rebuild v (offset + p)"
  have "rebuilt_bytes c s fmt protected es rebuild (offset + p) (word_at s (offset + p)) = Inr ?col"
    using w by (auto simp: rebuilt_bytes_def column_output_def)
  moreover have "map2 (\<lambda>out b. out @ [b]) outputs ?col = append_columns [?col] outputs"
    by (rule append_columns_one) (simp add: column_output_def Cons.prems(2))
  ultimately have "rebuild_positions c s fmt protected es rebuild offset (columns_of s offset want) (p # ps) outputs =
      rebuild_positions c s fmt protected es rebuild offset (columns_of s offset want) ps (append_columns [?col] outputs)"
    using codeword_at_word [OF assms(1) p(1), of offset] by simp
  also have "\<dots> = Inr (append_columns (map (\<lambda>p. column_output fmt protected rebuild v (offset + p)) ps) (append_columns [?col] outputs))"
    using Cons.prems by (intro Cons.IH) (simp_all add: length_append_columns)
  finally show ?case
    using append_columns_append [of "[?col]" "map (\<lambda>p. column_output fmt protected rebuild v (offset + p)) ps" outputs] by simp
qed (simp add: append_columns_Nil)

lemma rebuild_stripes_outputs:
  assumes "set_ok s" "\<And>t. t < shard \<Longrightarrow> \<exists>w. correct_erasures c (word_at s t) es = Inr w \<and> (fmt = Trailer \<and> protected \<le> t \<or> w = v t)"
    and "\<forall>(offset, want)\<in>set ss. offset + want \<le> shard" "length outputs = length rebuild"
  shows "rebuild_stripes c s fmt protected es rebuild ss outputs =
    Inr (append_columns (map (column_output fmt protected rebuild v)
      (concat (map (\<lambda>(offset, want). map (\<lambda>p. offset + p) [0..<want]) ss))) outputs)"
  using assms(3,4)
proof (induction ss arbitrary: outputs)
  case (Cons a ss)
  obtain offset want where a: "a = (offset, want)" by (cases a)
  let ?cols = "map (\<lambda>p. column_output fmt protected rebuild v (offset + p)) [0..<want]"
  have "rebuild_positions c s fmt protected es rebuild offset (columns_of s offset want) [0..<want] outputs = Inr (append_columns ?cols outputs)"
    using Cons.prems by (intro rebuild_positions_outputs [OF assms(1,2)]) (auto simp: a)
  then show ?case
    using Cons.IH [of "append_columns ?cols outputs"] Cons.prems
    by (simp add: a length_append_columns append_columns_append comp_def)
qed (simp add: append_columns_Nil)

lemma rebuild_outputs:
  assumes "set_ok s" "\<And>t. t < shard \<Longrightarrow> \<exists>w. correct_erasures c (word_at s t) es = Inr w \<and> (fmt = Trailer \<and> protected \<le> t \<or> w = v t)"
  shows "rebuild_stripes c s fmt protected es rebuild (stripes shard 0) (replicate (length rebuild) []) =
    Inr (map (\<lambda>i. map (\<lambda>t. if fmt = Trailer \<and> protected \<le> t then 0 else v t ! i) [0..<shard]) rebuild)"
proof -
  have "append_columns (map (column_output fmt protected rebuild v) [0..<shard]) (replicate (length rebuild) []) =
      map (\<lambda>i. map (\<lambda>t. if fmt = Trailer \<and> protected \<le> t then 0 else v t ! i) [0..<shard]) rebuild"
    by (rule nth_equalityI) (simp_all add: length_append_columns append_columns_nth column_output_def comp_def)
  then show ?thesis
    using rebuild_stripes_outputs [OF assms stripes_within [of shard 0], where outputs = "replicate (length rebuild) []" and rebuild = rebuild] by (simp add: stripes_cover)
qed

section \<open>The volumes\<close>

lemma foldl_max_in: "foldl max a xs \<in> insert a (set xs :: nat set)"
proof (induction xs arbitrary: a)
  case (Cons y xs)
  show ?case using Cons [of "max a y"] by (auto simp: max_def split: if_splits)
qed simp

lemma foldl_max_ge: "x = a \<or> x \<in> set xs \<Longrightarrow> x \<le> foldl max a (xs :: nat list)"
proof (induction xs arbitrary: a x)
  case (Cons y xs)
  have "max a y \<le> foldl max (max a y) xs" by (rule Cons.IH) simp
  then show ?case using Cons.prems Cons.IH [of x "max a y"] by auto
qed simp

lemma shard_length_ge: "f \<in> set files \<Longrightarrow> length f \<le> shard_length files"
  unfolding shard_length_def by (rule foldl_max_ge) simp

lemma shard_length_same: "files \<noteq> [] \<Longrightarrow> (\<And>f. f \<in> set files \<Longrightarrow> length f = n) \<Longrightarrow> shard_length files = n"
proof -
  assume f: "files \<noteq> []" "\<And>f. f \<in> set files \<Longrightarrow> length f = n"
  have "n \<le> shard_length files" using f shard_length_ge [of "hd files" files] by (cases files) auto
  moreover have "shard_length files = 0 \<or> shard_length files \<in> length ` set files"
    using foldl_max_in [of 0 "map length files"] by (simp add: shard_length_def)
  ultimately show ?thesis using f(2) by auto
qed

lemma length_write_trailer: "length (write_trailer crc m payload) = TRAILER_LEN"
  by (simp add: write_trailer_def trailer_head_def TRAILER_LEN_def)

lemma sealed_file:
  assumes "TRAILER_LEN < shard" "file = seal_volume crc fmt nd m (k, parity_bytes c volumes (protected_length fmt shard) k)"
  shows "length file = shard" "t < protected_length fmt shard \<Longrightarrow> file ! t = rs8_encode c (data_column volumes t) ! k"
proof -
  show "length file = shard"
    using assms by (cases fmt) (auto simp: seal_volume_def parity_bytes_def length_write_trailer protected_length_def)
  show "file ! t = rs8_encode c (data_column volumes t) ! k" if "t < protected_length fmt shard"
    using that assms(2) by (cases fmt) (auto simp: seal_volume_def parity_bytes_def nth_append)
qed

lemma trailer_tail_zero:
  assumes "use_trailer_format volumes" "file \<in> set volumes" "shard_length volumes - TRAILER_LEN \<le> t"
  shows "byte_at file t = 0"
proof (cases "t < length file")
  case True
  have len: "TRAILER_LEN \<le> length file" and zeros: "\<forall>b\<in>set (drop (length file - TRAILER_LEN) file). b = 0"
    using assms(1,2) by (auto simp: use_trailer_format_def list_all_iff)
  have start: "length file - TRAILER_LEN \<le> t" using shard_length_ge [OF assms(2)] assms(3) by linarith
  then have "file ! t = drop (length file - TRAILER_LEN) file ! (t - (length file - TRAILER_LEN))" using len by simp
  moreover have "t - (length file - TRAILER_LEN) < length (drop (length file - TRAILER_LEN) file)" unfolding length_drop using True start by (rule diff_less_mono)
  then have "drop (length file - TRAILER_LEN) file ! (t - (length file - TRAILER_LEN)) = 0" using zeros nth_mem by blast
  ultimately show ?thesis using True by (simp add: byte_at_def)
qed (simp add: byte_at_def)

lemma read_padded_map: "read_padded file 0 n = map (byte_at file) [0..<n]"
  by (rule nth_equalityI) (simp_all add: read_padded_nth)

text \<open>The situation the repair finds: what was built, what is left of it, and how much is lost.\<close>

definition loss :: "rsc8 \<Rightarrow> rev_format \<Rightarrow> byte list list \<Rightarrow> byte list list \<Rightarrow> byte list list \<Rightarrow> nat list \<Rightarrow> (nat \<times> byte list) list \<Rightarrow>
    nat list \<Rightarrow> nat list \<Rightarrow> bool" where
  "loss c fmt volumes files slots missing revs lost damaged \<longleftrightarrow>
     rsc8_new (length files) = Inr c \<and> volumes \<noteq> [] \<and> length volumes + length files < MAX_PARITY \<and>
     fmt = (if use_trailer_format volumes then Trailer else Legacy) \<and> TRAILER_LEN < shard_length volumes \<and>
     (\<forall>k<length files. length (files ! k) = shard_length volumes \<and>
       (\<forall>t<protected_length fmt (shard_length volumes). files ! k ! t = rs8_encode c (data_column volumes t) ! k)) \<and>
     length slots = length volumes \<and> distinct missing \<and> (\<forall>i\<in>set missing. i < length volumes) \<and>
     revs \<noteq> [] \<and> distinct (map fst revs) \<and>
     lost = missing @ map (\<lambda>k. length volumes + k) (filter (\<lambda>k. k \<notin> set (map fst revs)) [0..<length files]) \<and>
     distinct damaged \<and> (\<forall>p\<in>set damaged. p < length volumes + length files \<and> p \<notin> set lost) \<and>
     (\<forall>i<length volumes. i \<notin> set missing \<longrightarrow> i \<notin> set damaged \<longrightarrow> slots ! i = volumes ! i) \<and>
     (\<forall>(k, f)\<in>set revs. k < length files \<and> length f = shard_length volumes \<and> (length volumes + k \<in> set damaged \<or> f = files ! k)) \<and>
     (if damaged = [] then length lost \<le> length files else 2 * (length lost + length damaged) \<le> length files)"

definition true_word :: "rsc8 \<Rightarrow> byte list list \<Rightarrow> nat \<Rightarrow> byte list" where
  "true_word c volumes t = data_column volumes t @ rs8_encode c (data_column volumes t)"

definition volume_set :: "rev_format \<Rightarrow> nat \<Rightarrow> nat \<Rightarrow> nat \<Rightarrow> byte list list \<Rightarrow> nat list \<Rightarrow> (nat \<times> byte list) list \<Rightarrow> rev_set" where
  "volume_set fmt protected nd nr slots missing revs = \<lparr>vs_slots = slots, vs_missing = missing, vs_revs = revs, vs_nd = nd, vs_nr = nr,
     vs_zero_from = (if fmt = Trailer then Some protected else None)\<rparr>"

lemma true_word_nth: "i < length volumes \<Longrightarrow> true_word c volumes t ! i = byte_at (volumes ! i) t"
  by (simp add: true_word_def data_column_def nth_append)

lemma loss_words:
  assumes "loss c fmt volumes files slots missing revs lost damaged" "t < protected_length fmt (shard_length volumes)"
    and "i < length volumes + length files" "i \<notin> set (lost @ damaged)"
  shows "word_at (volume_set fmt (protected_length fmt (shard_length volumes)) (length volumes) (length files) slots missing revs) t ! i =
    true_word c volumes t ! i"
proof (cases "i < length volumes")
  case True
  then have "i \<notin> set missing" "slots ! i = volumes ! i" using assms(1,4) by (auto simp: loss_def)
  then show ?thesis using True by (simp add: word_at_def volume_set_def nth_append true_word_nth)
next
  case False
  let ?nd = "length volumes" and ?prot = "protected_length fmt (shard_length volumes)"
  define k where "k = i - ?nd"
  have k: "k < length files" "i = ?nd + k" using False assms(3) by (simp_all add: k_def)
  have lost: "lost = missing @ map (\<lambda>k. ?nd + k) (filter (\<lambda>k. k \<notin> set (map fst revs)) [0..<length files])"
    using assms(1) by (simp add: loss_def)
  have "k \<in> set (map fst revs)" using assms(4) k by (auto simp: lost)
  then obtain f where f: "map_of revs k = Some f" "(k, f) \<in> set revs"
    using assms(1) by (auto simp: loss_def map_of_eq_Some_iff)
  have "?nd + k \<notin> set damaged" using assms(4) k(2) by simp
  then have "f = files ! k" using f(2) assms(1) by (auto simp: loss_def)
  then have "rev_byte f (if fmt = Trailer then Some ?prot else None) t = rs8_encode c (data_column volumes t) ! k"
    using assms(1,2) k(1) by (auto simp: loss_def rev_byte_def protected_length_def split: rev_format.splits)
  then show ?thesis
    using k f(1) by (simp add: word_at_def volume_set_def nth_append true_word_def data_column_def)
qed

lemma loss_repairable:
  assumes l: "loss c fmt volumes files slots missing revs lost damaged"
  defines "prot \<equiv> protected_length fmt (shard_length volumes)"
  shows "repairable c (length files) (volume_set fmt prot (length volumes) (length files) slots missing revs) prot
    (true_word c volumes) lost (lost @ damaged)"
proof -
  let ?s = "volume_set fmt prot (length volumes) (length files) slots missing revs"
  have coder: "rs8_coder (length files) c" using l by (intro rsc8_new_coder) (simp add: loss_def)
  have "set_ok ?s" using l by (auto simp: loss_def set_ok_def volume_set_def list_all_iff)
  moreover have "distinct lost" "\<forall>p\<in>set lost. p < length volumes + length files"
    using l by (auto simp: loss_def distinct_map inj_on_def)
  moreover have "length (true_word c volumes t) = length volumes + length files" "codeword_ok (length files) (true_word c volumes t)" for t
    using encoded_codeword [OF coder] by (simp_all add: true_word_def data_column_def)
  ultimately show ?thesis
    unfolding repairable_def using coder l loss_words [OF l]
    by (auto simp: loss_def prot_def volume_set_def split: if_splits)
qed

text \<open>The columns of the rebuilt volumes, in and behind the protected range.\<close>

lemma columns_correct:
  assumes l: "loss c fmt volumes files slots missing revs lost damaged"
    and es: "es \<noteq> []" "set es \<subseteq> set (lost @ damaged)" "distinct es"
  defines "prot \<equiv> protected_length fmt (shard_length volumes)"
    and "s \<equiv> volume_set fmt (protected_length fmt (shard_length volumes)) (length volumes) (length files) slots missing revs"
  assumes repaired: "\<forall>t<prot. column_repaired c s (true_word c volumes) es t" and t: "t < shard_length volumes"
  shows "\<exists>w. correct_erasures c (word_at s t) es = Inr w \<and> (fmt = Trailer \<and> prot \<le> t \<or> w = true_word c volumes t)"
proof (cases "t < prot")
  case True
  then show ?thesis using repaired es(1) by (auto simp: column_repaired_def)
next
  case False
  have rep: "repairable c (length files) s prot (true_word c volumes) lost (lost @ damaged)"
    using loss_repairable [OF l] by (simp add: prot_def s_def)
  have "card (set es) \<le> card (set (lost @ damaged))" using es(2) by (intro card_mono) simp_all
  then have "length es \<le> length files"
    using rep distinct_card [OF es(3)] distinct_card [of "lost @ damaged"] by (auto simp: repairable_def)
  moreover have "\<forall>e\<in>set es. e < length volumes + length files"
    using rep es(2) by (auto simp: repairable_def s_def volume_set_def)
  ultimately have "\<exists>w. correct_erasures c (word_at s t) es = Inr w"
    using correct_erasures_total [of "length files" c "word_at s t" "length volumes + length files" es] rep es(1,3)
    by (auto simp: repairable_def length_word_at s_def volume_set_def)
  moreover have "fmt = Trailer" using False t by (cases fmt) (auto simp: prot_def protected_length_def)
  ultimately show ?thesis using False by auto
qed

lemma rebuilt_volume:
  assumes "fmt = (if use_trailer_format volumes then Trailer else Legacy)" "i < length volumes"
  shows "map (\<lambda>t. if fmt = Trailer \<and> protected_length fmt (shard_length volumes) \<le> t then 0 else true_word c volumes t ! i)
    [0..<shard_length volumes] = read_padded (volumes ! i) 0 (shard_length volumes)"
  unfolding read_padded_map
proof (intro map_cong refl)
  fix t assume "t \<in> set [0..<shard_length volumes]"
  show "(if fmt = Trailer \<and> protected_length fmt (shard_length volumes) \<le> t then 0 else true_word c volumes t ! i) = byte_at (volumes ! i) t"
    using trailer_tail_zero [of volumes "volumes ! i" t] assms by (auto simp: true_word_nth protected_length_def split: if_splits)
qed

lemma loss_rebuild:
  assumes l: "loss c fmt volumes files slots missing revs lost damaged"
  defines "prot \<equiv> protected_length fmt (shard_length volumes)"
  shows "\<exists>rebuilt. rebuild_missing_volumes (length volumes) (length files) fmt slots missing revs = Inr rebuilt \<and>
    set missing \<subseteq> set (map fst rebuilt) \<and>
    (\<forall>(i, f)\<in>set rebuilt. i < length volumes \<and> f = read_padded (volumes ! i) 0 (shard_length volumes)) \<and>
    (\<forall>i<length volumes. i \<in> set (map fst rebuilt) \<or> read_padded (slots ! i) 0 prot = read_padded (volumes ! i) 0 prot)"
proof -
  let ?nd = "length volumes" and ?m = "length files" and ?S = "shard_length volumes"
  let ?s = "volume_set fmt prot ?nd ?m slots missing revs" and ?v = "true_word c volumes"
  have rep: "repairable c ?m ?s prot ?v lost (lost @ damaged)" using loss_repairable [OF l] by (simp add: prot_def)
  have shard: "shard_length (map snd revs) = ?S" "?S \<noteq> 0"
  proof -
    have "revs \<noteq> []" "\<And>k f. (k, f) \<in> set revs \<Longrightarrow> length f = ?S" "0 < ?S" using l by (auto simp: loss_def)
    then show "shard_length (map snd revs) = ?S" "?S \<noteq> 0" by (auto intro!: shard_length_same)
  qed
  have lost: "sort (missing @ map (\<lambda>k. ?nd + k) (filter (\<lambda>i. \<not> list_ex (\<lambda>(k, _). k = i) revs) [0..<?m])) = sort lost"
  proof -
    have "\<not> list_ex (\<lambda>(k, _). k = i) revs \<longleftrightarrow> i \<notin> set (map fst revs)" for i by (auto simp: list_ex_iff image_iff)
    then show ?thesis using l by (simp add: loss_def)
  qed
  have small: "length (sort lost) \<le> ?m" using rep by (auto simp: repairable_def)
  have "revs \<noteq> []" "rsc8_new ?m = Inr c" using l by (simp_all add: loss_def)
  then have run: "rebuild_missing_volumes ?nd ?m fmt slots missing revs =
      rbind (find_damage c ?s prot (sort lost) []) (\<lambda>(erasures, damaged).
        let rebuild = remdups_adj (sort (missing @ damaged)) in
        if rebuild = [] then Inr []
        else rbind (rebuild_stripes c ?s fmt prot erasures rebuild (stripes ?S 0) (replicate (length rebuild) []))
          (\<lambda>outputs. Inr (zip rebuild outputs)))"
    unfolding rebuild_missing_volumes_def Let_def shard(1) lost volume_set_def prot_def using shard(2) small by simp
  obtain es ds where find: "find_damage c ?s prot (sort lost) [] = Inr (es, ds)"
    and es: "set lost \<subseteq> set es" "set es \<subseteq> set (lost @ damaged)" "distinct es"
    and ds: "set ds - set lost = {p \<in> set es - set lost. p < ?nd}" "\<forall>p\<in>set ds. p < ?nd"
    and repaired: "\<forall>t<prot. column_repaired c ?s ?v es t"
    using find_damage_ends [OF rep, of "sort lost" "[]"] rep by (auto simp: repairable_def volume_set_def)
  define rebuild where "rebuild = remdups_adj (sort (missing @ ds))"
  have set_rebuild: "set rebuild = set missing \<union> set ds" by (simp add: rebuild_def)
  have below: "\<forall>i\<in>set rebuild. i < ?nd" using ds(2) l by (auto simp: set_rebuild loss_def)
  have others: "read_padded (slots ! i) 0 prot = read_padded (volumes ! i) 0 prot" if i: "i < ?nd" "i \<notin> set rebuild" for i
    unfolding read_padded_map
  proof (intro map_cong refl)
    fix t assume "t \<in> set [0..<prot]"
    then have t: "t < prot" by simp
    have "i \<notin> set missing" "i \<notin> set es" using i ds(1) l by (auto simp: set_rebuild loss_def)
    moreover have "word_at ?s t ! i = ?v t ! i" if "i \<notin> set es"
      using repaired t that i(1) by (auto simp: column_repaired_def true_word_def data_column_def)
    ultimately show "byte_at (slots ! i) t = byte_at (volumes ! i) t"
      using i(1) by (simp add: word_at_def volume_set_def nth_append true_word_nth)
  qed
  show ?thesis
  proof (cases "rebuild = []")
    case True
    then have "rebuild_missing_volumes ?nd ?m fmt slots missing revs = Inr []"
      unfolding run find by (simp add: rebuild_def Let_def)
    then show ?thesis using others True set_rebuild by auto
  next
    case False
    have "set missing \<subseteq> set lost" using l by (simp add: loss_def)
    then have "set rebuild \<subseteq> set es" using es(1) ds set_rebuild by blast
    then have "es \<noteq> []" using False by auto
    then have "rebuild_stripes c ?s fmt prot es rebuild (stripes ?S 0) (replicate (length rebuild) []) =
        Inr (map (\<lambda>i. map (\<lambda>t. if fmt = Trailer \<and> prot \<le> t then 0 else ?v t ! i) [0..<?S]) rebuild)"
      using columns_correct [OF l _ es(2,3)] repaired rep
      by (intro rebuild_outputs) (auto simp: prot_def repairable_def)
    also have "map (\<lambda>i. map (\<lambda>t. if fmt = Trailer \<and> prot \<le> t then 0 else ?v t ! i) [0..<?S]) rebuild =
        map (\<lambda>i. read_padded (volumes ! i) 0 ?S) rebuild"
      using below l unfolding prot_def by (intro map_cong refl rebuilt_volume) (auto simp: loss_def)
    finally have "rebuild_missing_volumes ?nd ?m fmt slots missing revs = Inr (zip rebuild (map (\<lambda>i. read_padded (volumes ! i) 0 ?S) rebuild))"
      unfolding run find using False by (simp add: rebuild_def Let_def)
    moreover have "map fst (zip rebuild (map (\<lambda>i. read_padded (volumes ! i) 0 ?S) rebuild)) = rebuild" by simp
    moreover have "i < ?nd \<and> f = read_padded (volumes ! i) 0 ?S"
      if "(i, f) \<in> set (zip rebuild (map (\<lambda>i. read_padded (volumes ! i) 0 ?S) rebuild))" for i f
      using that below by (auto simp: in_set_zip)
    ultimately show ?thesis
      using others set_rebuild
      by (intro exI [of _ "zip rebuild (map (\<lambda>i. read_padded (volumes ! i) 0 ?S) rebuild)"]) (simp only:, blast)
  qed
qed

text \<open>C2: Lost and damaged volumes are rebuilt from the \<open>.rev\<close> volumes. Of a set of
  volumes and the recovery volumes built for it some data volumes are missing, some recovery volumes are
  missing, and the contents of some others are arbitrary. If nothing is damaged, as many volumes may be
  missing as recovery volumes were built; otherwise the missing and the damaged ones together may be half
  as many. Then the repair succeeds: it rebuilds every missing volume, what it rebuilds is the original
  continued by zeros to the common length, and what it leaves alone agrees with the original in the
  protected range. (Sets of 255 volumes are excluded.)\<close>

theorem rev3_rebuild_restores:
  assumes built: "build_recovery_volumes crc volumes rec_count = Inr (fmt, files)"
    and size: "length volumes + length files < MAX_CODEWORD"
    and slots: "length slots = length volumes" "distinct missing" "list_all (\<lambda>i. i < length volumes) missing"
    and revs: "revs \<noteq> []" "distinct (map fst revs)"
    and lost: "lost = missing @ map (\<lambda>k. length volumes + k) (filter (\<lambda>k. k \<notin> set (map fst revs)) [0..<length files])"
    and damaged: "distinct damaged" "list_all (\<lambda>p. p < length volumes + length files \<and> p \<notin> set lost) damaged"
    and intact_data: "list_all (\<lambda>i. i \<in> set missing \<or> i \<in> set damaged \<or> slots ! i = volumes ! i) [0..<length volumes]"
    and intact_revs: "list_all (\<lambda>(k, f). k < length files \<and> length f = length (files ! k) \<and>
      (length volumes + k \<in> set damaged \<or> f = files ! k)) revs"
    and count: "if damaged = [] then length lost \<le> length files else 2 * (length lost + length damaged) \<le> length files"
  shows "\<exists>rebuilt. rebuild_missing_volumes (length volumes) (length files) fmt slots missing revs = Inr rebuilt \<and>
    set missing \<subseteq> set (map fst rebuilt) \<and>
    list_all (\<lambda>(i, f). i < length volumes \<and> f = read_padded (volumes ! i) 0 (shard_length volumes)) rebuilt \<and>
    list_all (\<lambda>i. i \<in> set (map fst rebuilt) \<or>
      read_padded (slots ! i) 0 (protected_length fmt (shard_length volumes)) =
        read_padded (volumes ! i) 0 (protected_length fmt (shard_length volumes))) [0..<length volumes]"
proof -
  obtain c m where c: "rsc8_new m = Inr c" and nd: "2 \<le> length volumes" and S: "TRAILER_LEN < shard_length volumes"
    and fmt: "fmt = (if use_trailer_format volumes then Trailer else Legacy)" and m: "length files = m"
    and files: "files = map (\<lambda>k. seal_volume crc fmt (length volumes) m
      (k, parity_bytes c volumes (protected_length fmt (shard_length volumes)) k)) [0..<m]"
    by (rule build_files [OF built])
  have built_file: "length (files ! k) = shard_length volumes \<and>
      (\<forall>t<protected_length fmt (shard_length volumes). files ! k ! t = rs8_encode c (data_column volumes t) ! k)" if "k < m" for k
  proof -
    have "files ! k = seal_volume crc fmt (length volumes) m (k, parity_bytes c volumes (protected_length fmt (shard_length volumes)) k)"
      using that by (simp add: files)
    from sealed_file [OF S this] show ?thesis by blast
  qed
  have "loss c fmt volumes files slots missing revs lost damaged"
    unfolding loss_def
  proof (intro conjI)
    show "\<forall>(k, f)\<in>set revs. k < length files \<and> length f = shard_length volumes \<and> (length volumes + k \<in> set damaged \<or> f = files ! k)"
      using intact_revs built_file m by (auto simp: list_all_iff)
    show "length volumes + length files < MAX_PARITY" using size by (simp add: MAX_CODEWORD_def)
    show "\<forall>p\<in>set damaged. p < length volumes + length files \<and> p \<notin> set lost" using damaged(2) by (simp add: list_all_iff)
    show "\<forall>i<length volumes. i \<notin> set missing \<longrightarrow> i \<notin> set damaged \<longrightarrow> slots ! i = volumes ! i"
      using intact_data by (auto simp: list_all_iff)
    show "\<forall>i\<in>set missing. i < length volumes" using slots(3) by (simp add: list_all_iff)
  qed (use c m nd S fmt built_file slots revs lost damaged count in auto)
  from loss_rebuild [OF this] show ?thesis by (simp add: list_all_iff Ball_def)
qed

theorem rev3_rebuild_restores_witness:
  "\<exists>fmt files rebuilt. build_recovery_volumes (\<lambda>_. 0) [replicate 8 1, replicate 9 2] 1 = Inr (fmt, files) \<and>
     rebuild_missing_volumes 2 1 fmt [[], replicate 9 2] [0] [(0, files ! 0)] = Inr rebuilt \<and>
     0 \<in> set (map fst rebuilt)"
proof -
  let ?volumes = "[replicate 8 1, replicate 9 (2 :: byte)]"
  obtain fmt files where built: "build_recovery_volumes (\<lambda>_. 0) ?volumes 1 = Inr (fmt, files)"
    using rsc8_new_ok [of 1]
    by (auto simp: build_recovery_volumes_def shard_length_def TRAILER_LEN_def MAX_CODEWORD_def MAX_PARITY_def Let_def)
  have len: "length files = 1"
    using built by (auto simp: build_recovery_volumes_def Let_def result_simps parity_stripes_eq split: if_splits)
  then obtain f where f: "files = [f]" by (cases files) auto
  have "\<exists>rebuilt. rebuild_missing_volumes (length ?volumes) (length files) fmt [[], replicate 9 2] [0] [(0, files ! 0)] = Inr rebuilt \<and>
    set [0] \<subseteq> set (map fst rebuilt) \<and>
    list_all (\<lambda>(i, f). i < length ?volumes \<and> f = read_padded (?volumes ! i) 0 (shard_length ?volumes)) rebuilt \<and>
    list_all (\<lambda>i. i \<in> set (map fst rebuilt) \<or>
      read_padded ([[], replicate 9 2] ! i) 0 (protected_length fmt (shard_length ?volumes)) =
        read_padded (?volumes ! i) 0 (protected_length fmt (shard_length ?volumes))) [0..<length ?volumes]"
    by (rule rev3_rebuild_restores [OF built _ _ _ _ _ _ refl, where damaged = "[]"])
      (simp_all add: f MAX_CODEWORD_def MAX_PARITY_def nth_Cons')
  then obtain rebuilt where "rebuild_missing_volumes (length ?volumes) (length files) fmt [[], replicate 9 2] [0] [(0, files ! 0)] = Inr rebuilt"
    "set [0] \<subseteq> set (map fst rebuilt)" by blast
  moreover have "length ?volumes = 2" by simp
  ultimately have "rebuild_missing_volumes 2 1 fmt [[], replicate 9 2] [0] [(0, files ! 0)] = Inr rebuilt" "0 \<in> set (map fst rebuilt)"
    by (simp_all only: len) simp
  then show ?thesis using built by blast
qed

text \<open>C39: The trailer of a recovery volume is read back: the counts and the index survive whatever the
  payload and the checksum function, as long as the counts are ones the format allows.\<close>

theorem trailer_roundtrip:
  assumes "meta_valid m"
  shows "parse_trailer crc (payload @ write_trailer crc m payload) = Some m"
proof -
  have m: "0 < rv_data_count m" "0 < rv_rec_count m" "rv_index m < rv_rec_count m" "rv_data_count m + rv_rec_count m \<le> 255"
    using assms by (simp_all add: meta_valid_def MAX_CODEWORD_def MAX_PARITY_def)
  have byte: "unat (word_of_nat n :: byte) = n" if "n < 256" for n
    using that by (simp add: unsigned_of_nat take_bit_nat_eq_self)
  let ?bytes = "payload @ write_trailer crc m payload"
  have len: "length ?bytes = length payload + 7" by (simp add: length_write_trailer TRAILER_LEN_def)
  have "drop (length ?bytes - TRAILER_LEN) ?bytes = trailer_head m @ u32_to_le (crc (payload @ trailer_head m))"
    by (simp add: TRAILER_LEN_def write_trailer_def trailer_head_def)
  moreover have "take (length ?bytes - 4) ?bytes = payload @ trailer_head m"
    unfolding len by (simp add: write_trailer_def trailer_head_def)
  moreover have "length (trailer_head m) = 3" by (simp add: trailer_head_def)
  moreover have "trailer_head m ! 0 = word_of_nat (rv_data_count m - 1)" "trailer_head m ! 1 = word_of_nat (rv_rec_count m - 1)"
    "trailer_head m ! 2 = word_of_nat (rv_index m)" by (simp_all only: trailer_head_def nth_Cons_0 nth_Cons_Suc One_nat_def numeral_2_eq_2)
  then have "Suc (unat (trailer_head m ! 0)) = rv_data_count m" "Suc (unat (trailer_head m ! Suc 0)) = rv_rec_count m"
    "unat (trailer_head m ! 2) = rv_index m"
    using m by (simp_all add: byte del: of_nat_diff)
  ultimately show ?thesis
    using assms len by (simp add: parse_trailer_def meta_valid_def u32_to_le_def TRAILER_LEN_def Let_def nth_append)
qed

theorem trailer_roundtrip_witness:
  "parse_trailer (\<lambda>_. 7) ([1, 2, 3] @ write_trailer (\<lambda>_. 7) \<lparr>rv_data_count = 4, rv_rec_count = 2, rv_index = 1\<rparr> [1, 2, 3]) =
     Some \<lparr>rv_data_count = 4, rv_rec_count = 2, rv_index = 1\<rparr>"
  by (rule trailer_roundtrip) (simp add: meta_valid_def MAX_CODEWORD_def MAX_PARITY_def)

end
