(* ===== verification/Spec2Isabelle.thy ===== *)
theory Spec2Isabelle
  imports Vint Crc32 LegacyCiphers Rar20Cipher LegacyHuffman LegacyHistory RarVmProps Filters
    BitStream RingWindow ModernHuffman Rar5Decode Rar20Decode RecoveryRestore SafePath Rev3Restore
begin

text \<open>
  A verification development for the \<open>rar\<close> crate (\<^verbatim>\<open>src/crates/rar/src\<close>), a reader
  and writer of RAR archives from version 1.3 to 7. Paths below are relative to that directory.

  \<^bold>\<open>The program.\<close> An archive is a sequence of headers, each followed by packed data. The
  format layer (\<^verbatim>\<open>format/\<close>) parses headers and hands packed members to the codecs
  (\<^verbatim>\<open>codec/\<close>): \<^verbatim>\<open>codec/legacy\<close> for RAR 1.3 to 4, with one decoder per
  generation over a shared bit reader, Huffman table and history, and the virtual machine that runs the
  filter programs of RAR 3; \<^verbatim>\<open>codec/modern\<close> for RAR 5 and 7, over
  \<^verbatim>\<open>codec/common\<close> (bit stream, Huffman codec, ring window, output filters).
  \<^verbatim>\<open>crypto/\<close> holds the ciphers of the generations, \<^verbatim>\<open>recovery/\<close> the recovery
  records that repair damaged archives. The layers above (archive facade, transactions,
  command line, Node bindings) are I/O around these.

  \<^bold>\<open>The theories.\<close>
  \<^item> Shared: \<open>Prelude\<close> (words, results, bit lists), \<open>Interfaces\<close> (the contracts as
    locales: \<open>bit_source\<close>, \<open>byte_cipher\<close>, \<open>inplace_step\<close>, \<open>inplace_filter\<close>,
    \<open>lz_window\<close>), \<open>CanonicalCode\<close> (what a canonical Huffman code is), \<open>BinaryField\<close>
    (fields of characteristic two, the locale \<open>binary_field\<close>). Every locale is interpreted on
    the code's own definitions in the theory of the component that provides them.
  \<^item> Encodings and checksums: \<open>Vint\<close> (\<^verbatim>\<open>vint.rs\<close>), \<open>Crc32\<close>
    (\<^verbatim>\<open>crc32.rs\<close>).
  \<^item> Ciphers: \<open>LegacyCiphers\<close> (\<^verbatim>\<open>crypto/mod.rs\<close>, \<^verbatim>\<open>crypto/rar13.rs\<close>,
    \<^verbatim>\<open>crypto/rar15.rs\<close>), \<open>Rar20Cipher\<close> (\<^verbatim>\<open>crypto/rar20.rs\<close>).
  \<^item> Legacy codecs: \<open>LegacyBits\<close>, \<open>LegacyHuffman\<close>, \<open>LegacyHistory\<close>
    (\<^verbatim>\<open>codec/legacy/lz.rs\<close>), \<open>Rar20Decoder\<close> and its guarantees
    \<open>Rar20Decode\<close> (\<^verbatim>\<open>codec/legacy/rar20.rs\<close>), \<open>RarVmParse\<close>,
    \<open>RarVmExec\<close>, \<open>RarVmProps\<close> (\<^verbatim>\<open>codec/legacy/rarvm.rs\<close>).
  \<^item> RAR 5: \<open>BitStream\<close>, \<open>ModernHuffman\<close>, \<open>RingWindow\<close>, \<open>Filters\<close>
    (\<^verbatim>\<open>codec/common\<close>), \<open>Rar5Tables\<close>, \<open>Rar5Symbols\<close>, \<open>Rar5Engine\<close>
    and the guarantees of the whole member \<open>Rar5Decode\<close>
    (\<^verbatim>\<open>codec/modern/lzss_huff/decoder\<close>).
  \<^item> Recovery: \<open>Gf16\<close>, \<open>RecoveryCode\<close>, \<open>ErasureCode\<close> (the erasure code),
    \<open>RecoveryPlan\<close>, \<open>RecoveryRecord\<close>, \<open>RecoveryRepair\<close> (the record around it),
    \<open>RecoveryLayout\<close>, \<open>RecoveryRestore\<close> (their proofs)
    (\<^verbatim>\<open>recovery/rar50\<close>); \<open>LocatorPoly\<close> and \<open>LinearRecurrence\<close> (the
    algebra of locators and recurrences, in \<open>binary_field\<close>), \<open>Rs8\<close> with
    \<open>Rs8Code\<close>, \<open>Rs8Arrays\<close>, \<open>Rs8Restore\<close>, \<open>Rs8Locate\<close> (the Reed-Solomon code of
    the legacy volumes, \<^verbatim>\<open>recovery/rev3/rs8.rs\<close>), \<open>Rev3Volumes\<close> with
    \<open>Rev3Restore\<close> (the volumes themselves, build.rs, repair.rs, trailer.rs of
    \<^verbatim>\<open>recovery/rev3\<close>).
  \<^item> Extraction: \<open>SafePath\<close> (\<^verbatim>\<open>fs/safe_path.rs\<close>).

  \<^bold>\<open>Conventions.\<close> A struct is a record with the fields of the source under a prefix, an enum
  a datatype, a fixed-width integer a word (or a natural with the check written out where the code
  uses checked arithmetic; \<open>usize\<close> is 64 bits). A function that returns \<open>Result\<close> returns
  a sum, the error on the left. The readers that are mutated before they fail return their state beside
  the result. An index out of range, a failed \<open>assert\<close> or an overflow that would panic is a
  value of its own (\<open>Panic\<close>, \<open>RecPanic\<close>) or is shown not to occur. A name that clashes
  with the library gets the prefix of its component.

  \<^bold>\<open>What the lemmas show.\<close>
  \<^item> Readers, writers and codes: each of the three bit readers is measured against the plain list of
    the bits of its input; a Huffman decoder returns a symbol exactly when its canonical code comes
    next; encoders and decoders are inverse; fields, vints and records read back.
  \<^item> Windows: the legacy history and the ring hold the LZ77 expansion of the tokens
    pushed into them (\<open>lz_window\<close>), trimmed, parked or grown.
  \<^item> Whole members: \<open>run_engine_refines\<close> and \<open>decode_raw_returns\<close> for RAR 5,
    \<open>rar20_member_decodes\<close> and \<open>rar20_streaming_decodes\<close> for RAR 2: on any bytes at all
    the decoder ends, with the expansion of its symbols under the filters or with one of the errors of
    the source, and no internal panic is reached (in RAR 5 with a dictionary that an archive can declare).
  \<^item> The virtual machine: every parsed program is well formed, a parsed program can only fail in
    three documented ways within the limit of 25,000,000 instructions (an invariant of its step relation,
    by rule induction), its additions and subtractions are exact with their carry, and its
    conditional jumps decide what they should after a comparison.
  \<^item> Recovery: the field tables compute the carry-less product, the elimination inverts every matrix
    the encoder can lead to, any erased shards come back, and a written record repairs the archive it
    protects (\<open>record_repairs\<close>). For the legacy volumes the field tables are again the field, the
    encoder divides by a polynomial whose roots the syndromes test, the decoder's quotients are the errors
    (Forney), the search for unknown errors keeps a shortest recurrence (Berlekamp-Massey), and the repair
    rebuilds every volume that was lost or damaged (\<open>rev3_rebuild_restores\<close>).
  \<^item> Paths: a cleaned name is safe and a fixed point of the cleaning, and a link target is accepted
    exactly when it is relative, never climbs above the extraction root and is unambiguous.

  \<^bold>\<open>Loops.\<close> Loops over lists are structural. Loops over the input of the RAR 2 and RAR 5
  decoders are \<open>partial_function (option)\<close>: \<open>None\<close> would be a run that does not end, and
  the termination theorems show it never happens, by a measure on the unread bits and the output still
  owed. The scans of the recovery record are functions with the distance to the end as measure;
  the passes over the legacy volumes end because each one adds an erasure.
  The virtual machine takes the instruction limit of the source as its fuel.

  \<^bold>\<open>Not modelled.\<close> File and stream I/O, progress, cancellation and parallel execution (the
  parallel builds are documented to compute what the sequential ones do); everything that only calls
  third-party crates (AES, SHA, BLAKE2, crc32fast); the encoders and their match finders, whose output
  the decoders define; the RAR 1.5 and RAR 2.9 decoders and PPMd, the header layer of the formats, the
  archive facade, transactions and the command-line and Node front ends. PROJECT.json lists them all
  with the reason.
\<close>

end
